(* ===== verification/Cpp_Prelude.thy ===== *)
theory Cpp_Prelude
  imports Main "HOL-Library.Word" "HOL-Library.Char_ord" "HOL-Library.List_Lexorder"
    "HOL-Library.Sublist"
begin

text \<open>
  Shared vocabulary of the development: the C++ run-time notions that every component of cppboot
  uses (exceptions and failed assertions as values of a result type, \<open>size_t\<close> positions with
  \<open>npos\<close>, signed \<open>char\<close>, NUL-terminated strings, decimal printing), the two search loops the
  sources repeat, the operations of \<open>std::string\<close> they call, and the collections of rewrite rules
  the component theories extend.
\<close>

section \<open>Rule collections\<close>

named_theorems res_simps \<open>rules that evaluate results of calls that may throw\<close>
named_theorems view_simps \<open>rules that read a view as the string it denotes\<close>

section \<open>Exceptions and assertions\<close>

text \<open>
  A call that may throw or fail an assertion returns \<open>Inl\<close>; \<open>UndefinedBehaviour\<close> is the value of
  a read outside an allocated array, which C++ leaves undefined.
\<close>

datatype cpp_exn =
    OutOfRange
  | InvalidArgumentExn
  | AssertFailed
  | UndefinedBehaviour
  | RuntimeError
  | LogicError
  | JsonError string

type_synonym 'a res = "cpp_exn + 'a"

definition bindr :: "'a res \<Rightarrow> ('a \<Rightarrow> 'b res) \<Rightarrow> 'b res" where
  "bindr r f = (case r of Inl e \<Rightarrow> Inl e | Inr v \<Rightarrow> f v)"

lemma bindr_simps [simp, res_simps]:
  "bindr (Inl e) f = Inl e"
  "bindr (Inr v) f = f v"
  by (simp_all add: bindr_def)

lemma bindr_Inr_iff [res_simps]: "bindr r f = Inr w \<longleftrightarrow> (\<exists>v. r = Inr v \<and> f v = Inr w)"
  by (cases r) auto

definition assertr :: "bool \<Rightarrow> unit res" where
  "assertr b = (if b then Inr () else Inl AssertFailed)"

lemma assertr_simps [simp, res_simps]:
  "assertr True = Inr ()"
  "assertr False = Inl AssertFailed"
  by (simp_all add: assertr_def)

lemma assertr_Inr_iff [res_simps]: "assertr b = Inr u \<longleftrightarrow> b"
  by (simp add: assertr_def)

fun mapr :: "('a \<Rightarrow> 'b res) \<Rightarrow> 'a list \<Rightarrow> 'b list res" where
  "mapr f [] = Inr []"
| "mapr f (x # xs) = bindr (f x) (\<lambda>y. bindr (mapr f xs) (\<lambda>ys. Inr (y # ys)))"

lemma mapr_all_Inr: "(\<And>x. x \<in> set xs \<Longrightarrow> f x = Inr (g x)) \<Longrightarrow> mapr f xs = Inr (map g xs)"
  by (induction xs) auto

section \<open>size_t\<close>

text \<open>
  Positions and lengths are natural numbers below \<open>2 ^ 64\<close>; \<open>npos\<close> is \<open>(size_t)-1\<close>. Where the
  source adds to a position that may be \<open>npos\<close> the wrap-around is written out with \<open>size_add\<close>.
\<close>

definition npos :: nat where
  "npos = 2 ^ 64 - 1"

definition kMaxSize :: nat where
  "kMaxSize = 2 ^ 63 - 1"

definition size_add :: "nat \<Rightarrow> nat \<Rightarrow> nat" where
  "size_add a b = (a + b) mod 2 ^ 64"

lemma npos_gt_kMaxSize [simp]: "kMaxSize < npos"
  by (simp add: npos_def kMaxSize_def)

lemma less_npos: "n \<le> kMaxSize \<Longrightarrow> n < npos"
  using npos_gt_kMaxSize by linarith

lemma le_npos: "n \<le> kMaxSize \<Longrightarrow> n \<le> npos" "n \<le> kMaxSize \<Longrightarrow> Suc n \<le> npos"
  using npos_gt_kMaxSize by linarith+

lemma not_npos: "i < n \<Longrightarrow> n \<le> npos \<Longrightarrow> i \<noteq> npos"
  by linarith

lemma size_add_small: "a + b < 2 ^ 64 \<Longrightarrow> size_add a b = a + b"
  by (simp add: size_add_def)

lemma size_add_pos: "i \<le> kMaxSize \<Longrightarrow> size_add i 1 = i + 1"
  by (simp add: size_add_def kMaxSize_def)

lemma size_add_npos [simp]: "size_add npos 1 = 0" "size_add npos (Suc 0) = 0"
  by (simp_all add: size_add_def npos_def)

section \<open>The two search loops\<close>

text \<open>
  \<open>scan_up P i n\<close> is the loop \<open>for (; i < n; ++i) if (P(i)) return i; return npos;\<close> and
  \<open>scan_down P i\<close> the loop \<open>for (;; --i) { if (P(i)) return i; if (i == 0) break; } return npos;\<close>.
\<close>

function scan_up :: "(nat \<Rightarrow> bool) \<Rightarrow> nat \<Rightarrow> nat \<Rightarrow> nat" where
  "scan_up P i n = (if i < n then (if P i then i else scan_up P (Suc i) n) else npos)"
  by pat_completeness auto
termination
  by (relation "measure (\<lambda>(P, i, n). n - i)") auto

fun scan_down :: "(nat \<Rightarrow> bool) \<Rightarrow> nat \<Rightarrow> nat" where
  "scan_down P 0 = (if P 0 then 0 else npos)"
| "scan_down P (Suc i) = (if P (Suc i) then Suc i else scan_down P i)"

declare scan_up.simps [simp del]

text \<open>What a search is asked for: the first (last) position of a range that satisfies a test.\<close>

definition first_pos :: "(nat \<Rightarrow> bool) \<Rightarrow> nat \<Rightarrow> nat \<Rightarrow> nat \<Rightarrow> bool" where
  "first_pos P lo n r \<longleftrightarrow>
     (lo \<le> r \<and> r < n \<and> P r \<and> (\<forall>j. lo \<le> j \<and> j < r \<longrightarrow> \<not> P j)) \<or>
     (r = npos \<and> (\<forall>j. lo \<le> j \<and> j < n \<longrightarrow> \<not> P j))"

definition last_pos :: "(nat \<Rightarrow> bool) \<Rightarrow> nat \<Rightarrow> nat \<Rightarrow> bool" where
  "last_pos P n r \<longleftrightarrow>
     (r < n \<and> P r \<and> (\<forall>j. r < j \<and> j < n \<longrightarrow> \<not> P j)) \<or>
     (r = npos \<and> (\<forall>j. j < n \<longrightarrow> \<not> P j))"

lemma first_pos_step: "\<not> P i \<Longrightarrow> first_pos P (Suc i) n r \<Longrightarrow> first_pos P i n r"
  unfolding first_pos_def by (metis Suc_leD Suc_leI le_neq_implies_less)

lemma last_pos_step: "\<not> P n \<Longrightarrow> last_pos P n r \<Longrightarrow> last_pos P (Suc n) r"
  unfolding last_pos_def by (metis less_Suc_eq)

lemma scan_up_first: "first_pos P i n (scan_up P i n)"
proof (induction P i n rule: scan_up.induct)
  case (1 P i n)
  show ?case
  proof (cases "i < n \<and> \<not> P i")
    case True
    then show ?thesis
      using 1 by (simp add: scan_up.simps [of P i n] first_pos_step)
  next
    case False
    then show ?thesis
      by (auto simp: first_pos_def scan_up.simps [of P i n])
  qed
qed

lemma scan_down_last: "last_pos P (Suc i) (scan_down P i)"
proof (induction i)
  case 0
  show ?case by (auto simp: last_pos_def)
next
  case (Suc i)
  then show ?case
    using last_pos_step [of P "Suc i"] by (auto simp: last_pos_def)
qed

lemma first_pos_cong:
  assumes "\<And>i. lo \<le> i \<Longrightarrow> i < n \<Longrightarrow> P i = Q i"
  shows "first_pos P lo n r = first_pos Q lo n r"
proof -
  have "(lo \<le> r \<and> r < n \<and> P r \<and> (\<forall>j. lo \<le> j \<and> j < r \<longrightarrow> \<not> P j)) =
      (lo \<le> r \<and> r < n \<and> Q r \<and> (\<forall>j. lo \<le> j \<and> j < r \<longrightarrow> \<not> Q j))"
    using assms by (meson less_trans)
  moreover have "(\<forall>j. lo \<le> j \<and> j < n \<longrightarrow> \<not> P j) = (\<forall>j. lo \<le> j \<and> j < n \<longrightarrow> \<not> Q j)"
    using assms by blast
  ultimately show ?thesis by (simp add: first_pos_def)
qed

lemma last_pos_cong:
  assumes "\<And>i. i < n \<Longrightarrow> P i = Q i"
  shows "last_pos P n r = last_pos Q n r"
  unfolding last_pos_def using assms by blast

lemma first_pos_lower:
  "first_pos P m n r \<Longrightarrow> (\<And>j. lo \<le> j \<Longrightarrow> j < m \<Longrightarrow> \<not> P j) \<Longrightarrow> lo \<le> m \<Longrightarrow> first_pos P lo n r"
  unfolding first_pos_def by (meson le_trans not_le)

lemma scan_up_none: "(\<And>j. i \<le> j \<Longrightarrow> j < n \<Longrightarrow> \<not> P j) \<Longrightarrow> scan_up P i n = npos"
  using scan_up_first [of P i n] by (auto simp: first_pos_def)

lemma scan_up_hit: "i < n \<Longrightarrow> P i \<Longrightarrow> scan_up P i n = i"
  by (subst scan_up.simps) simp

lemma first_posE:
  assumes "first_pos P lo n r" and "n \<le> npos"
  obtains "r = npos" "\<And>j. lo \<le> j \<Longrightarrow> j < n \<Longrightarrow> \<not> P j"
  | "r \<noteq> npos" "lo \<le> r" "r < n" "P r" "\<And>j. lo \<le> j \<Longrightarrow> j < r \<Longrightarrow> \<not> P j"
  using assms not_npos [of r n] unfolding first_pos_def by blast

lemma last_posE:
  assumes "last_pos P n r" and "n \<le> npos"
  obtains "r = npos" "\<And>j. j < n \<Longrightarrow> \<not> P j"
  | "r \<noteq> npos" "r < n" "P r" "\<And>j. r < j \<Longrightarrow> j < n \<Longrightarrow> \<not> P j"
  using assms not_npos [of r n] unfolding last_pos_def by blast

lemma first_pos_unique:
  assumes "first_pos P lo n r" "first_pos P lo n r'" "n \<le> npos"
  shows "r = r'"
proof -
  have "r \<noteq> npos \<Longrightarrow> r' \<noteq> npos \<Longrightarrow> r = r'"
    using assms(1,2) unfolding first_pos_def by (metis nat_neq_iff)
  then show ?thesis
    using assms by (auto elim!: first_posE)
qed

text \<open>A search in an array from offset \<open>k\<close> on, reported relative to \<open>k\<close>.\<close>

lemma first_pos_shift:
  assumes "first_pos Q (k + lo) hi r" "hi \<le> npos"
    and PQ: "\<And>i. lo \<le> i \<Longrightarrow> i < n \<and> P i \<longleftrightarrow> k + i < hi \<and> Q (k + i)"
  shows "first_pos P lo n (if r \<noteq> npos then r - k else npos)"
  using assms(1,2)
proof (cases rule: first_posE)
  case 1
  have "\<not> P j" if "lo \<le> j" "j < n" for j using 1(2) [of "k + j"] PQ [of j] that by auto
  then show ?thesis using 1(1) by (simp add: first_pos_def)
next
  case 2
  have "\<not> P j" if "lo \<le> j" "j < r - k" for j
    using that 2(2,3) 2(5) [of "k + j"] PQ [of j] PQ [of "r - k"] 2(4) by auto
  moreover have "lo \<le> r - k" using 2(2) by simp
  ultimately show ?thesis using 2(1-4) PQ [of "r - k"] by (simp add: first_pos_def)
qed

lemma last_pos_unique:
  assumes "last_pos P n r" "last_pos P n r'" "n \<le> npos"
  shows "r = r'"
proof -
  have "r \<noteq> npos \<Longrightarrow> r' \<noteq> npos \<Longrightarrow> r = r'"
    using assms(1,2) unfolding last_pos_def by (metis nat_neq_iff)
  then show ?thesis
    using assms by (auto elim!: last_posE)
qed

section \<open>Characters\<close>

text \<open>\<open>char\<close> is signed on the platforms the build files name (x86-64 Linux, macOS).\<close>

definition schar :: "char \<Rightarrow> int" where
  "schar c = (if (of_char c :: int) < 128 then of_char c else of_char c - 256)"

definition NUL :: char where
  "NUL = CHR 0x00"

definition c_tolower :: "char \<Rightarrow> char" where
  "c_tolower c = (if CHR ''A'' \<le> c \<and> c \<le> CHR ''Z'' then char_of (of_char c + 32 :: nat) else c)"

definition c_isspace :: "char \<Rightarrow> bool" where
  "c_isspace c \<longleftrightarrow> c = CHR '' '' \<or> (9 \<le> (of_char c :: nat) \<and> (of_char c :: nat) \<le> 13)"

text \<open>A NUL-terminated array read as a string: the characters before the first NUL.\<close>

definition c_str :: "string \<Rightarrow> string" where
  "c_str s = takeWhile (\<lambda>c. c \<noteq> NUL) s"

lemma c_str_id: "NUL \<notin> set s \<Longrightarrow> c_str s = s"
  by (auto simp: c_str_def takeWhile_eq_all_conv)

lemma c_str_NUL [simp]: "NUL \<notin> set s \<Longrightarrow> c_str (s @ NUL # b) = s"
  by (induction s) (auto simp: c_str_def)

section \<open>Decimal printing (std::to_string)\<close>

definition digit_char :: "nat \<Rightarrow> char" where
  "digit_char d = char_of (48 + d)"

fun show_nat :: "nat \<Rightarrow> string" where
  "show_nat n = (if n < 10 then [digit_char n] else show_nat (n div 10) @ [digit_char (n mod 10)])"

declare show_nat.simps [simp del]

definition show_int :: "int \<Rightarrow> string" where
  "show_int i = (if i < 0 then CHR ''-'' # show_nat (nat (- i)) else show_nat (nat i))"

lemma show_nat_nonempty [simp]: "show_nat n \<noteq> []"
  by (subst show_nat.simps) simp

definition c_isdigit :: "char \<Rightarrow> bool" where
  "c_isdigit c \<longleftrightarrow> CHR ''0'' \<le> c \<and> c \<le> CHR ''9''"

definition digits_val :: "string \<Rightarrow> nat" where
  "digits_val ds = foldl (\<lambda>n c. 10 * n + (of_char c - 48)) 0 ds"

text \<open>\<open>std::stoll\<close> and \<open>std::stoi\<close>: blanks, an optional sign, digits; the rest is ignored.\<close>

definition sto_int :: "int \<Rightarrow> int \<Rightarrow> string \<Rightarrow> int res" where
  "sto_int lo hi s =
     (let s = dropWhile c_isspace s;
          neg = (s \<noteq> [] \<and> hd s = CHR ''-'');
          s = (if s \<noteq> [] \<and> (hd s = CHR ''-'' \<or> hd s = CHR ''+'') then tl s else s);
          ds = takeWhile c_isdigit s;
          v = (if neg then - int (digits_val ds) else int (digits_val ds)) in
      if ds = [] then Inl InvalidArgumentExn
      else if v < lo \<or> hi < v then Inl OutOfRange
      else Inr v)"

definition stoll :: "string \<Rightarrow> int res" where
  "stoll s = sto_int (- (2 ^ 63)) (2 ^ 63 - 1) s"

definition stoi :: "string \<Rightarrow> int res" where
  "stoi s = sto_int (- (2 ^ 31)) (2 ^ 31 - 1) s"

lemma of_char_digit [simp]: "d < 10 \<Longrightarrow> (of_char (digit_char d) :: nat) = 48 + d"
  by (simp add: digit_char_def)

lemma isdigit_digit [simp]: "d < 10 \<Longrightarrow> c_isdigit (digit_char d)"
  by (simp add: c_isdigit_def less_eq_char_def)

lemma show_nat_digits: "c \<in> set (show_nat n) \<Longrightarrow> c_isdigit c"
proof (induction n rule: show_nat.induct)
  case (1 n)
  then show ?case
    by (subst (asm) (2) show_nat.simps) (auto split: if_splits)
qed

lemma digits_val_snoc: "digits_val (ds @ [c]) = 10 * digits_val ds + (of_char c - 48)"
  by (simp add: digits_val_def)

lemma show_nat_length: "n < 10 ^ k \<Longrightarrow> 0 < k \<Longrightarrow> length (show_nat n) \<le> k"
proof (induction n arbitrary: k rule: show_nat.induct)
  case (1 n)
  show ?case
  proof (cases "n < 10")
    case True
    then show ?thesis using 1 by (subst show_nat.simps) simp
  next
    case False
    then obtain k' where k: "k = Suc k'" "0 < k'" using 1 by (cases k; cases "k - 1") auto
    then have "n div 10 < 10 ^ k'" using "1.prems" by (simp add: div_less_iff_less_mult mult.commute)
    then have "length (show_nat (n div 10)) \<le> k'" using "1.IH" [OF False] k by blast
    then show ?thesis using False k by (subst show_nat.simps) simp
  qed
qed

lemma digits_val_show [simp]: "digits_val (show_nat n) = n"
proof (induction n rule: show_nat.induct)
  case (1 n)
  show ?case
  proof (cases "n < 10")
    case True
    then show ?thesis by (subst show_nat.simps) (simp add: digits_val_def)
  next
    case False
    then show ?thesis
      using 1 by (subst show_nat.simps) (simp add: digits_val_snoc)
  qed
qed

lemma digit_not_space: "c_isdigit c \<Longrightarrow> \<not> c_isspace c \<and> c \<noteq> CHR ''-'' \<and> c \<noteq> CHR ''+''"
  by (auto simp: c_isdigit_def c_isspace_def less_eq_char_def)

lemma takeWhile_show: "takeWhile c_isdigit (show_nat n) = show_nat n"
  using show_nat_digits by (auto simp: takeWhile_eq_all_conv)

lemma hd_show_nat: "c_isdigit (hd (show_nat n))"
  using show_nat_digits hd_in_set show_nat_nonempty by blast

lemma sto_show_int: "lo \<le> i \<Longrightarrow> i \<le> hi \<Longrightarrow> sto_int lo hi (show_int i) = Inr i"
proof -
  assume r: "lo \<le> i" "i \<le> hi"
  have sp: "dropWhile c_isspace (show_nat n) = show_nat n" for n
    using hd_show_nat [of n] digit_not_space by (cases "show_nat n") auto
  have "\<not> c_isspace CHR ''-''" by (simp add: c_isspace_def)
  then show ?thesis
    using r hd_show_nat [of "nat i"] digit_not_space [of "hd (show_nat (nat i))"]
    by (auto simp: sto_int_def show_int_def Let_def sp takeWhile_show)
qed

section \<open>std::string\<close>

text \<open>
  The searches of \<open>std::string\<close> the sources use, by the standard's description: the least position
  at or after \<open>pos\<close> (the greatest position for the \<open>last\<close> searches), or \<open>npos\<close>.
\<close>

definition str_match_at :: "string \<Rightarrow> string \<Rightarrow> nat \<Rightarrow> bool" where
  "str_match_at s p i \<longleftrightarrow> i + length p \<le> length s \<and> take (length p) (drop i s) = p"

definition str_find :: "string \<Rightarrow> string \<Rightarrow> nat \<Rightarrow> nat" where
  "str_find s p pos = scan_up (str_match_at s p) pos (Suc (length s))"

definition str_find_first_of :: "string \<Rightarrow> string \<Rightarrow> nat \<Rightarrow> nat" where
  "str_find_first_of s cs pos = scan_up (\<lambda>i. s ! i \<in> set cs) pos (length s)"

definition str_find_first_not_of :: "string \<Rightarrow> string \<Rightarrow> nat \<Rightarrow> nat" where
  "str_find_first_not_of s cs pos = scan_up (\<lambda>i. s ! i \<notin> set cs) pos (length s)"

definition str_find_last_of :: "string \<Rightarrow> string \<Rightarrow> nat" where
  "str_find_last_of s cs =
     (if s = [] then npos else scan_down (\<lambda>i. s ! i \<in> set cs) (length s - 1))"

definition str_substr :: "string \<Rightarrow> nat \<Rightarrow> nat \<Rightarrow> string res" where
  "str_substr s pos n = (if pos > length s then Inl OutOfRange else Inr (take n (drop pos s)))"

lemma str_substr_Inr [simp, res_simps]: "pos \<le> length s \<Longrightarrow> str_substr s pos n = Inr (take n (drop pos s))"
  by (simp add: str_substr_def)

lemma str_find_first_of_spec:
  "first_pos (\<lambda>i. s ! i \<in> set cs) pos (length s) (str_find_first_of s cs pos)"
  by (simp add: str_find_first_of_def scan_up_first)

lemma str_find_last_of_spec: "last_pos (\<lambda>i. s ! i \<in> set cs) (length s) (str_find_last_of s cs)"
proof (cases s)
  case Nil
  then show ?thesis by (simp add: str_find_last_of_def last_pos_def)
next
  case (Cons c t)
  then show ?thesis
    using scan_down_last [of "\<lambda>i. s ! i \<in> set cs" "length s - 1"]
    by (simp add: str_find_last_of_def)
qed

lemma str_find_spec: "first_pos (str_match_at s p) pos (Suc (length s)) (str_find s p pos)"
  by (simp add: str_find_def scan_up_first)

lemma sublist_match: "sublist p s \<longleftrightarrow> (\<exists>i. str_match_at s p i)"
proof
  assume "sublist p s"
  then obtain x z where "s = x @ p @ z" by (auto simp: sublist_def)
  then have "str_match_at s p (length x)" by (simp add: str_match_at_def)
  then show "\<exists>i. str_match_at s p i" by blast
next
  assume "\<exists>i. str_match_at s p i"
  then obtain i where "take (length p) (drop i s) = p" by (auto simp: str_match_at_def)
  then have "s = take i s @ p @ drop (length p) (drop i s)" by (metis append_take_drop_id)
  then show "sublist p s" unfolding sublist_def by blast
qed

text \<open>The first separator splits a string: the form most callers use.\<close>

lemma takeWhile_first:
  assumes "i < length s" "s ! i = c" "\<forall>j. j < i \<longrightarrow> s ! j \<noteq> c"
  shows "take i s = takeWhile (\<lambda>x. x \<noteq> c) s" "drop i s = dropWhile (\<lambda>x. x \<noteq> c) s"
proof -
  have "takeWhile (\<lambda>x. x \<noteq> c) s = take i s"
    using assms by (metis (mono_tags, lifting) takeWhile_eq_take_P_nth)
  then show *: "take i s = takeWhile (\<lambda>x. x \<noteq> c) s" by simp
  have "takeWhile (\<lambda>x. x \<noteq> c) s @ dropWhile (\<lambda>x. x \<noteq> c) s = take i s @ drop i s"
    by simp
  then show "drop i s = dropWhile (\<lambda>x. x \<noteq> c) s"
    by (metis "*" same_append_eq)
qed

text \<open>A search by character class, read as \<open>takeWhile\<close> and \<open>dropWhile\<close>.\<close>

lemma first_pos_takeWhile:
  assumes "dropWhile (\<lambda>x. \<not> P x) s \<noteq> []"
  shows "first_pos (\<lambda>i. P (s ! i)) 0 (length s) (length (takeWhile (\<lambda>x. \<not> P x) s))"
proof -
  let ?n = "length (takeWhile (\<lambda>x. \<not> P x) s)"
  have "?n \<noteq> length s"
    using assms by (metis append_Nil2 append_eq_append_conv takeWhile_dropWhile_id)
  then have "?n < length s" using length_takeWhile_le [of "\<lambda>x. \<not> P x" s] by linarith
  moreover have "\<forall>j. j < ?n \<longrightarrow> \<not> P (s ! j)"
    by (metis nth_mem set_takeWhileD takeWhile_nth)
  ultimately show ?thesis
    using nth_length_takeWhile [of "\<lambda>x. \<not> P x" s] by (auto simp: first_pos_def)
qed

lemma first_pos_drop:
  assumes "first_pos (\<lambda>i. P (drop pos s ! i)) 0 (length s - pos) r" "pos \<le> length s" "r < npos"
  shows "first_pos (\<lambda>i. P (s ! i)) pos (length s) (pos + r)"
proof -
  have r: "r < length s - pos" "P (s ! (pos + r))" "\<And>j. j < r \<Longrightarrow> \<not> P (s ! (pos + j))"
    using assms by (auto simp: first_pos_def)
  have "\<not> P (s ! j)" if "pos \<le> j" "j < pos + r" for j
    using r(3) [of "j - pos"] that by simp
  then show ?thesis using r(1,2) by (auto simp: first_pos_def)
qed

lemma all_drop_nth: "(\<forall>x \<in> set (drop n s). Q x) \<longleftrightarrow> (\<forall>j. n \<le> j \<and> j < length s \<longrightarrow> Q (s ! j))"
proof -
  have "(\<forall>x \<in> set (drop n s). Q x) \<longleftrightarrow> (\<forall>i < length s - n. Q (s ! (n + i)))"
    by (simp add: all_set_conv_all_nth)
  also have "\<dots> \<longleftrightarrow> (\<forall>j. n \<le> j \<and> j < length s \<longrightarrow> Q (s ! j))"
    by (metis add.commute le_add1 le_add_diff_inverse less_diff_conv)
  finally show ?thesis .
qed

lemma scan_up_takeWhile:
  assumes "pos \<le> length s" "length s \<le> npos"
  shows "scan_up (\<lambda>i. P (s ! i)) pos (length s) =
    (if dropWhile (\<lambda>x. \<not> P x) (drop pos s) = [] then npos
     else pos + length (takeWhile (\<lambda>x. \<not> P x) (drop pos s)))"
proof (cases "dropWhile (\<lambda>x. \<not> P x) (drop pos s) = []")
  case True
  then have "\<forall>x \<in> set (drop pos s). \<not> P x" by (simp add: dropWhile_eq_Nil_conv)
  then have "scan_up (\<lambda>i. P (s ! i)) pos (length s) = npos"
    by (intro scan_up_none) (simp add: all_drop_nth)
  with True show ?thesis by simp
next
  case False
  let ?r = "length (takeWhile (\<lambda>x. \<not> P x) (drop pos s))"
  have *: "first_pos (\<lambda>i. P (drop pos s ! i)) 0 (length s - pos) ?r"
    using first_pos_takeWhile [OF False] by simp
  have "takeWhile (\<lambda>x. \<not> P x) (drop pos s) \<noteq> drop pos s"
    using False by (metis append_Nil2 append_eq_append_conv takeWhile_dropWhile_id)
  then have "?r < length (drop pos s)"
    by (metis le_neq_implies_less length_takeWhile_le take_all_iff takeWhile_eq_take order_refl)
  then have "?r < npos" using assms by simp
  then have "first_pos (\<lambda>i. P (s ! i)) pos (length s) (pos + ?r)"
    using first_pos_drop [OF *] assms by simp
  then have "scan_up (\<lambda>i. P (s ! i)) pos (length s) = pos + ?r"
    using first_pos_unique [OF scan_up_first _ assms(2)] by blast
  then show ?thesis using False by (simp only: if_False)
qed

lemma last_pos_dropWhile:
  assumes "last_pos (\<lambda>i. P (s ! i)) (length s) r" "length s \<le> npos"
  shows "r = npos \<and> (\<forall>x \<in> set s. \<not> P x) \<or>
    r < length s \<and> r \<noteq> npos \<and> take (Suc r) s = rev (dropWhile (\<lambda>x. \<not> P x) (rev s))"
  using assms
proof (cases rule: last_posE)
  case 1
  then show ?thesis by (metis in_set_conv_nth)
next
  case 2
  have "s = take (Suc r) s @ drop (Suc r) s" by simp
  then have rv: "rev s = rev (drop (Suc r) s) @ rev (take (Suc r) s)"
    by (metis rev_append)
  have "\<forall>x \<in> set (rev (drop (Suc r) s)). \<not> P x"
    using 2(4) by (simp only: set_rev all_drop_nth) (simp add: Suc_le_eq)
  then have "dropWhile (\<lambda>x. \<not> P x) (rev s) = dropWhile (\<lambda>x. \<not> P x) (rev (take (Suc r) s))"
    by (metis (no_types, lifting) dropWhile_append2 rv)
  also have "\<dots> = rev (take (Suc r) s)"
    using 2(2,3) by (simp add: take_Suc_conv_app_nth)
  finally show ?thesis using 2(1,2) by simp
qed

lemma str_find_first_of_eq:
  "pos \<le> length s \<Longrightarrow> length s \<le> npos \<Longrightarrow> str_find_first_of s cs pos =
    (if dropWhile (\<lambda>x. x \<notin> set cs) (drop pos s) = [] then npos
     else pos + length (takeWhile (\<lambda>x. x \<notin> set cs) (drop pos s)))"
  unfolding str_find_first_of_def by (rule scan_up_takeWhile)

lemma str_find_first_not_of_eq:
  "pos \<le> length s \<Longrightarrow> length s \<le> npos \<Longrightarrow> str_find_first_not_of s cs pos =
    (if dropWhile (\<lambda>x. x \<in> set cs) (drop pos s) = [] then npos
     else pos + length (takeWhile (\<lambda>x. x \<in> set cs) (drop pos s)))"
  using scan_up_takeWhile [of pos s "\<lambda>x. x \<notin> set cs"] by (simp add: str_find_first_not_of_def)

end
