(* ===== verification/String_View.thy ===== *)
theory String_View
  imports Cpp_Prelude
begin

text \<open>
  \<^verbatim>\<open>cppboot/base/string_view.h\<close> and \<^verbatim>\<open>string_view.cc\<close>. A view is a pointer into a character
  array (the array and an offset, or null) and a length, so that the pointer arithmetic of the
  source, what lies behind the end of a view and null views all stay visible. \<open>sv_str\<close> is the
  string a view denotes and \<open>sv_ok\<close> says that the view lies inside its array. The lemmas show that
  the pointer loops compute what the searches and comparisons of \<open>std::string\<close> compute on the
  denoted strings.
\<close>

section \<open>The class\<close>

type_synonym cptr = "(string \<times> nat) option"

record string_view =
  sv_ptr :: cptr
  sv_len :: nat

definition sv_null :: string_view where
  "sv_null = \<lparr>sv_ptr = None, sv_len = 0\<rparr>"

text \<open>The array and offset of a non-null pointer; a null view owns no characters.\<close>

definition sv_base :: "string_view \<Rightarrow> string \<times> nat" where
  "sv_base v = (case sv_ptr v of None \<Rightarrow> ([], 0) | Some p \<Rightarrow> p)"

definition ptr_bytes :: "cptr \<Rightarrow> nat \<Rightarrow> string" where
  "ptr_bytes p n = (case p of None \<Rightarrow> [] | Some (b, k) \<Rightarrow> take n (drop k b))"

definition sv_str :: "string_view \<Rightarrow> string" where
  "sv_str v = ptr_bytes (sv_ptr v) (sv_len v)"

definition sv_ok :: "string_view \<Rightarrow> bool" where
  "sv_ok v \<longleftrightarrow> (case sv_ptr v of None \<Rightarrow> sv_len v = 0
     | Some (b, k) \<Rightarrow> k + sv_len v \<le> length b \<and> length b \<le> kMaxSize)"

definition sv_at :: "string_view \<Rightarrow> nat \<Rightarrow> char" where
  "sv_at v i = (case sv_base v of (b, k) \<Rightarrow> b ! (k + i))"

text \<open>Constructors from \<open>std::string\<close> (whose array ends in a NUL) and from a C string.\<close>

definition sv_of_string :: "string \<Rightarrow> string_view" where
  "sv_of_string s = \<lparr>sv_ptr = Some (s @ [NUL], 0), sv_len = length s\<rparr>"

definition StrlenInternal :: "string \<Rightarrow> nat \<Rightarrow> nat" where
  "StrlenInternal b k = length (c_str (drop k b))"

text \<open>The constructor from a C string tests the pointer before it calls \<open>StrlenInternal\<close>: a null pointer has length 0.\<close>

definition sv_of_cstr :: "cptr \<Rightarrow> string_view" where
  "sv_of_cstr p = \<lparr>sv_ptr = p, sv_len = (case p of None \<Rightarrow> 0 | Some (b, k) \<Rightarrow> StrlenInternal b k)\<rparr>"

definition CheckLengthInternal :: "nat \<Rightarrow> nat res" where
  "CheckLengthInternal len = bindr (assertr (len \<le> kMaxSize)) (\<lambda>_. Inr len)"

definition sv_of_ptr_len :: "cptr \<Rightarrow> nat \<Rightarrow> string_view res" where
  "sv_of_ptr_len p len = bindr (CheckLengthInternal len) (\<lambda>n. Inr \<lparr>sv_ptr = p, sv_len = n\<rparr>)"

definition NullSafeStringView :: "cptr \<Rightarrow> string_view" where
  "NullSafeStringView p = (if p \<noteq> None then sv_of_cstr p else sv_null)"

text \<open>Capacity and element access.\<close>

definition sv_size :: "string_view \<Rightarrow> nat" where
  "sv_size v = sv_len v"

definition sv_length :: "string_view \<Rightarrow> nat" where
  "sv_length v = sv_size v"

definition sv_max_size :: "string_view \<Rightarrow> nat" where
  "sv_max_size v = kMaxSize"

definition sv_empty :: "string_view \<Rightarrow> bool" where
  "sv_empty v \<longleftrightarrow> sv_len v = 0"

definition sv_index :: "string_view \<Rightarrow> nat \<Rightarrow> char res" where
  "sv_index v i = bindr (assertr (i < sv_size v)) (\<lambda>_. Inr (sv_at v i))"

definition sv_at_checked :: "string_view \<Rightarrow> nat \<Rightarrow> char res" where
  "sv_at_checked v i = (if i < sv_size v then Inr (sv_at v i) else Inl OutOfRange)"

definition sv_front :: "string_view \<Rightarrow> char res" where
  "sv_front v = bindr (assertr (\<not> sv_empty v)) (\<lambda>_. Inr (sv_at v 0))"

definition sv_back :: "string_view \<Rightarrow> char res" where
  "sv_back v = bindr (assertr (\<not> sv_empty v)) (\<lambda>_. Inr (sv_at v (sv_size v - 1)))"

text \<open>Modifiers and conversions.\<close>

definition ptr_add :: "cptr \<Rightarrow> nat \<Rightarrow> cptr" where
  "ptr_add p n = (case p of None \<Rightarrow> None | Some (b, k) \<Rightarrow> Some (b, k + n))"

definition sv_remove_prefix :: "string_view \<Rightarrow> nat \<Rightarrow> string_view res" where
  "sv_remove_prefix v n = bindr (assertr (n \<le> sv_len v))
     (\<lambda>_. Inr \<lparr>sv_ptr = ptr_add (sv_ptr v) n, sv_len = sv_len v - n\<rparr>)"

definition sv_remove_suffix :: "string_view \<Rightarrow> nat \<Rightarrow> string_view res" where
  "sv_remove_suffix v n = bindr (assertr (n \<le> sv_len v)) (\<lambda>_. Inr (v\<lparr>sv_len := sv_len v - n\<rparr>))"

definition sv_swap :: "string_view \<Rightarrow> string_view \<Rightarrow> string_view \<times> string_view" where
  "sv_swap v s = (let t = v; v' = s; s' = t in (v', s'))"

definition sv_to_basic_string :: "string_view \<Rightarrow> string" where
  "sv_to_basic_string v = (if sv_ptr v = None then [] else ptr_bytes (sv_ptr v) (sv_size v))"

text \<open>\<open>copy\<close> returns the count and the destination buffer with its first \<open>rlen\<close> characters replaced.\<close>

definition sv_copy :: "string_view \<Rightarrow> string \<Rightarrow> nat \<Rightarrow> nat \<Rightarrow> (nat \<times> string) res" where
  "sv_copy v buf n pos =
     (if pos > sv_len v then Inl OutOfRange
      else let rlen = min (sv_len v - pos) n in
        Inr (rlen, if rlen > 0
                   then ptr_bytes (ptr_add (sv_ptr v) pos) rlen @ drop rlen buf else buf))"

definition sv_Min :: "nat \<Rightarrow> nat \<Rightarrow> nat" where
  "sv_Min a b = (if a < b then a else b)"

definition sv_substr :: "string_view \<Rightarrow> nat \<Rightarrow> nat \<Rightarrow> string_view res" where
  "sv_substr v pos n =
     (if pos > sv_len v then Inl OutOfRange
      else sv_of_ptr_len (ptr_add (sv_ptr v) pos) (sv_Min n (sv_len v - pos)))"

definition ClippedSubstr :: "string_view \<Rightarrow> nat \<Rightarrow> nat \<Rightarrow> string_view res" where
  "ClippedSubstr s pos n = (let pos' = min pos (sv_size s) in sv_substr s pos' n)"

section \<open>Comparison\<close>

text \<open>\<open>memcmp\<close> on two runs of equal length: the sign of the first difference of unsigned bytes.\<close>

fun c_memcmp :: "string \<Rightarrow> string \<Rightarrow> int" where
  "c_memcmp (x # xs) (y # ys) = (if x < y then -1 else if y < x then 1 else c_memcmp xs ys)"
| "c_memcmp _ _ = 0"

definition CompareImpl :: "nat \<Rightarrow> nat \<Rightarrow> int \<Rightarrow> int" where
  "CompareImpl length_a length_b compare_result =
     (if compare_result = 0 then of_bool (length_a > length_b) - of_bool (length_a < length_b)
      else if compare_result < 0 then -1 else 1)"

definition sv_compare :: "string_view \<Rightarrow> string_view \<Rightarrow> int" where
  "sv_compare v x =
     (let m = sv_Min (sv_len v) (sv_len x) in
      CompareImpl (sv_len v) (sv_len x)
        (if m = 0 then 0 else c_memcmp (ptr_bytes (sv_ptr v) m) (ptr_bytes (sv_ptr x) m)))"

definition sv_compare_sub :: "string_view \<Rightarrow> nat \<Rightarrow> nat \<Rightarrow> string_view \<Rightarrow> int res" where
  "sv_compare_sub v pos1 count1 x = bindr (sv_substr v pos1 count1) (\<lambda>u. Inr (sv_compare u x))"

definition sv_compare_sub_sub ::
    "string_view \<Rightarrow> nat \<Rightarrow> nat \<Rightarrow> string_view \<Rightarrow> nat \<Rightarrow> nat \<Rightarrow> int res" where
  "sv_compare_sub_sub v pos1 count1 x pos2 count2 =
     bindr (sv_substr v pos1 count1) (\<lambda>u. bindr (sv_substr x pos2 count2)
       (\<lambda>w. Inr (sv_compare u w)))"

definition sv_compare_cstr :: "string_view \<Rightarrow> cptr \<Rightarrow> int" where
  "sv_compare_cstr v s = sv_compare v (sv_of_cstr s)"

definition sv_compare_sub_cstr :: "string_view \<Rightarrow> nat \<Rightarrow> nat \<Rightarrow> cptr \<Rightarrow> int res" where
  "sv_compare_sub_cstr v pos1 count1 s =
     bindr (sv_substr v pos1 count1) (\<lambda>u. Inr (sv_compare u (sv_of_cstr s)))"

definition sv_compare_sub_ptr :: "string_view \<Rightarrow> nat \<Rightarrow> nat \<Rightarrow> cptr \<Rightarrow> nat \<Rightarrow> int res" where
  "sv_compare_sub_ptr v pos1 count1 s count2 =
     bindr (sv_substr v pos1 count1) (\<lambda>u. bindr (sv_of_ptr_len s count2)
       (\<lambda>w. Inr (sv_compare u w)))"

definition sv_eq :: "string_view \<Rightarrow> string_view \<Rightarrow> bool" where
  "sv_eq x y \<longleftrightarrow> sv_size x = sv_size y \<and>
     (sv_empty x \<or>
      c_memcmp (ptr_bytes (sv_ptr x) (sv_size x)) (ptr_bytes (sv_ptr y) (sv_size x)) = 0)"

definition sv_ne :: "string_view \<Rightarrow> string_view \<Rightarrow> bool" where
  "sv_ne x y \<longleftrightarrow> \<not> sv_eq x y"

definition sv_lt :: "string_view \<Rightarrow> string_view \<Rightarrow> bool" where
  "sv_lt x y \<longleftrightarrow> sv_compare x y < 0"

definition sv_gt :: "string_view \<Rightarrow> string_view \<Rightarrow> bool" where
  "sv_gt x y \<longleftrightarrow> sv_lt y x"

definition sv_le :: "string_view \<Rightarrow> string_view \<Rightarrow> bool" where
  "sv_le x y \<longleftrightarrow> \<not> sv_lt y x"

definition sv_ge :: "string_view \<Rightarrow> string_view \<Rightarrow> bool" where
  "sv_ge x y \<longleftrightarrow> \<not> sv_lt x y"

section \<open>Searching\<close>

text \<open>
  \<open>memmatch\<close>: \<open>memchr\<close> for the first character of the needle, then \<open>memcmp\<close>. Pointers into the
  haystack are offsets in its array \<open>b\<close>; \<open>None\<close> is the null result.
\<close>

function memmatch_loop :: "string \<Rightarrow> nat \<Rightarrow> string \<Rightarrow> nat \<Rightarrow> nat option" where
  "memmatch_loop b hayend needle phaystack =
     (let match = scan_up (\<lambda>j. b ! j = hd needle) phaystack hayend in
      if match = npos then None
      else if take (length needle) (drop match b) = needle then Some match
      else memmatch_loop b hayend needle (match + 1))"
  by pat_completeness auto
termination
proof (relation "measure (\<lambda>(b, hayend, needle, p). hayend - p)")
  fix b needle :: string and hayend p m
  assume m: "m = scan_up (\<lambda>j. b ! j = hd needle) p hayend" "m \<noteq> npos"
  then have "p \<le> m" "m < hayend"
    using scan_up_first [of "\<lambda>j. b ! j = hd needle" p hayend] by (auto simp: first_pos_def)
  then show "((b, hayend, needle, m + 1), b, hayend, needle, p)
      \<in> measure (\<lambda>(b, hayend, needle, p). hayend - p)" by simp
qed simp

declare memmatch_loop.simps [simp del]

definition memmatch :: "string \<Rightarrow> nat \<Rightarrow> nat \<Rightarrow> cptr \<Rightarrow> nat \<Rightarrow> nat option" where
  "memmatch b phaystack haylen pneedle neelen =
     (if neelen = 0 then Some phaystack
      else if haylen < neelen then None
      else memmatch_loop b (phaystack + haylen - neelen + 1) (ptr_bytes pneedle neelen) phaystack)"

definition sv_find :: "string_view \<Rightarrow> string_view \<Rightarrow> nat \<Rightarrow> nat" where
  "sv_find v s pos =
     (if sv_empty v \<or> pos > sv_len v
      then (if sv_empty v \<and> pos = 0 \<and> sv_empty s then 0 else npos)
      else case sv_base v of (b, k) \<Rightarrow>
        (case memmatch b (k + pos) (sv_len v - pos) (sv_ptr s) (sv_len s) of
           Some result \<Rightarrow> result - k
         | None \<Rightarrow> npos))"

definition sv_find_char :: "string_view \<Rightarrow> char \<Rightarrow> nat \<Rightarrow> nat" where
  "sv_find_char v c pos =
     (if sv_empty v \<or> pos \<ge> sv_len v then npos
      else case sv_base v of (b, k) \<Rightarrow>
        (let result = scan_up (\<lambda>j. b ! j = c) (k + pos) (k + pos + (sv_len v - pos)) in
         if result \<noteq> npos then result - k else npos))"

definition sv_rfind :: "string_view \<Rightarrow> string_view \<Rightarrow> nat \<Rightarrow> nat" where
  "sv_rfind v s pos =
     (if sv_len v < sv_len s then npos
      else if sv_empty s then min (sv_len v) pos
      else scan_down (\<lambda>i. ptr_bytes (ptr_add (sv_ptr v) i) (sv_len s) = sv_str s)
             (min (sv_len v - sv_len s) pos))"

definition sv_rfind_char :: "string_view \<Rightarrow> char \<Rightarrow> nat \<Rightarrow> nat" where
  "sv_rfind_char v c pos =
     (if sv_empty v then npos
      else scan_down (\<lambda>i. sv_at v i = c) (min pos (sv_len v - 1)))"

text \<open>\<open>LookupTable\<close>: one flag per byte value.\<close>

definition LookupTable :: "string \<Rightarrow> bool list" where
  "LookupTable wanted = fold (\<lambda>c t. t[of_char c := True]) wanted (replicate 256 False)"

definition lookup_table :: "bool list \<Rightarrow> char \<Rightarrow> bool" where
  "lookup_table t c = t ! of_char c"

definition sv_find_first_of_char :: "string_view \<Rightarrow> char \<Rightarrow> nat \<Rightarrow> nat" where
  "sv_find_first_of_char v c pos = sv_find_char v c pos"

definition sv_find_first_of :: "string_view \<Rightarrow> string_view \<Rightarrow> nat \<Rightarrow> nat" where
  "sv_find_first_of v s pos =
     (if sv_empty v \<or> sv_empty s then npos
      else if sv_len s = 1 then sv_find_first_of_char v (sv_at s 0) pos
      else let tbl = LookupTable (sv_str s) in
        scan_up (\<lambda>i. lookup_table tbl (sv_at v i)) pos (sv_len v))"

definition sv_find_first_not_of_char :: "string_view \<Rightarrow> char \<Rightarrow> nat \<Rightarrow> nat" where
  "sv_find_first_not_of_char v c pos =
     (if sv_empty v then npos else scan_up (\<lambda>i. sv_at v i \<noteq> c) pos (sv_len v))"

definition sv_find_first_not_of :: "string_view \<Rightarrow> string_view \<Rightarrow> nat \<Rightarrow> nat" where
  "sv_find_first_not_of v s pos =
     (if sv_empty v then npos
      else if sv_len s = 1 then sv_find_first_not_of_char v (sv_at s 0) pos
      else let tbl = LookupTable (sv_str s) in
        scan_up (\<lambda>i. \<not> lookup_table tbl (sv_at v i)) pos (sv_len v))"

definition sv_find_last_of_char :: "string_view \<Rightarrow> char \<Rightarrow> nat \<Rightarrow> nat" where
  "sv_find_last_of_char v c pos = sv_rfind_char v c pos"

definition sv_find_last_of :: "string_view \<Rightarrow> string_view \<Rightarrow> nat \<Rightarrow> nat" where
  "sv_find_last_of v s pos =
     (if sv_empty v \<or> sv_empty s then npos
      else if sv_len s = 1 then sv_find_last_of_char v (sv_at s 0) pos
      else let tbl = LookupTable (sv_str s) in
        scan_down (\<lambda>i. lookup_table tbl (sv_at v i)) (min pos (sv_len v - 1)))"

definition sv_find_last_not_of_char :: "string_view \<Rightarrow> char \<Rightarrow> nat \<Rightarrow> nat" where
  "sv_find_last_not_of_char v c pos =
     (if sv_empty v then npos
      else let i = min pos (sv_len v - 1) in scan_down (\<lambda>i. sv_at v i \<noteq> c) i)"

definition sv_find_last_not_of :: "string_view \<Rightarrow> string_view \<Rightarrow> nat \<Rightarrow> nat" where
  "sv_find_last_not_of v s pos =
     (if sv_empty v then npos
      else let i = min pos (sv_len v - 1) in
        if sv_empty s then i
        else if sv_len s = 1 then sv_find_last_not_of_char v (sv_at s 0) pos
        else let tbl = LookupTable (sv_str s) in
          scan_down (\<lambda>i. \<not> lookup_table tbl (sv_at v i)) i)"

text \<open>The overloads that take a pointer and a count, or a C string.\<close>

definition sv_find_ptr :: "string_view \<Rightarrow> cptr \<Rightarrow> nat \<Rightarrow> nat \<Rightarrow> nat res" where
  "sv_find_ptr v s pos count = bindr (sv_of_ptr_len s count) (\<lambda>x. Inr (sv_find v x pos))"

definition sv_find_cstr :: "string_view \<Rightarrow> cptr \<Rightarrow> nat \<Rightarrow> nat" where
  "sv_find_cstr v s pos = sv_find v (sv_of_cstr s) pos"

definition sv_rfind_ptr :: "string_view \<Rightarrow> cptr \<Rightarrow> nat \<Rightarrow> nat \<Rightarrow> nat res" where
  "sv_rfind_ptr v s pos count = bindr (sv_of_ptr_len s count) (\<lambda>x. Inr (sv_rfind v x pos))"

definition sv_rfind_cstr :: "string_view \<Rightarrow> cptr \<Rightarrow> nat \<Rightarrow> nat" where
  "sv_rfind_cstr v s pos = sv_rfind v (sv_of_cstr s) pos"

definition sv_find_first_of_ptr :: "string_view \<Rightarrow> cptr \<Rightarrow> nat \<Rightarrow> nat \<Rightarrow> nat res" where
  "sv_find_first_of_ptr v s pos count =
     bindr (sv_of_ptr_len s count) (\<lambda>x. Inr (sv_find_first_of v x pos))"

definition sv_find_first_of_cstr :: "string_view \<Rightarrow> cptr \<Rightarrow> nat \<Rightarrow> nat" where
  "sv_find_first_of_cstr v s pos = sv_find_first_of v (sv_of_cstr s) pos"

definition sv_find_last_of_ptr :: "string_view \<Rightarrow> cptr \<Rightarrow> nat \<Rightarrow> nat \<Rightarrow> nat res" where
  "sv_find_last_of_ptr v s pos count =
     bindr (sv_of_ptr_len s count) (\<lambda>x. Inr (sv_find_last_of v x pos))"

definition sv_find_last_of_cstr :: "string_view \<Rightarrow> cptr \<Rightarrow> nat \<Rightarrow> nat" where
  "sv_find_last_of_cstr v s pos = sv_find_last_of v (sv_of_cstr s) pos"

definition sv_find_first_not_of_ptr :: "string_view \<Rightarrow> cptr \<Rightarrow> nat \<Rightarrow> nat \<Rightarrow> nat res" where
  "sv_find_first_not_of_ptr v s pos count =
     bindr (sv_of_ptr_len s count) (\<lambda>x. Inr (sv_find_first_not_of v x pos))"

definition sv_find_first_not_of_cstr :: "string_view \<Rightarrow> cptr \<Rightarrow> nat \<Rightarrow> nat" where
  "sv_find_first_not_of_cstr v s pos = sv_find_first_not_of v (sv_of_cstr s) pos"

definition sv_find_last_not_of_ptr :: "string_view \<Rightarrow> cptr \<Rightarrow> nat \<Rightarrow> nat \<Rightarrow> nat res" where
  "sv_find_last_not_of_ptr v s pos count =
     bindr (sv_of_ptr_len s count) (\<lambda>x. Inr (sv_find_last_not_of v x pos))"

definition sv_find_last_not_of_cstr :: "string_view \<Rightarrow> cptr \<Rightarrow> nat \<Rightarrow> nat" where
  "sv_find_last_not_of_cstr v s pos = sv_find_last_not_of v (sv_of_cstr s) pos"

section \<open>Stream output\<close>

record ostream =
  os_good :: bool
  os_out :: string
  os_width :: nat
  os_fill :: char
  os_left :: bool

fun WritePadding :: "ostream \<Rightarrow> nat \<Rightarrow> ostream" where
  "WritePadding o' 0 = o'"
| "WritePadding o' (Suc p) =
     (let n = min (Suc p) 32 in
      WritePadding (o'\<lparr>os_out := os_out o' @ replicate n (os_fill o')\<rparr>) (Suc p - n))"

definition sv_ostream :: "ostream \<Rightarrow> string_view \<Rightarrow> ostream" where
  "sv_ostream o' piece =
     (if os_good o'
      then let pad = (if os_width o' > sv_size piece then os_width o' - sv_size piece else 0);
               rpad = (if os_left o' then pad else 0);
               lpad = (if os_left o' then 0 else pad);
               o1 = (if lpad \<noteq> 0 then WritePadding o' lpad else o');
               o2 = o1\<lparr>os_out := os_out o1 @ sv_str piece\<rparr>;
               o3 = (if rpad \<noteq> 0 then WritePadding o2 rpad else o2)
           in o3\<lparr>os_width := 0\<rparr>
      else o')"

section \<open>The string a view denotes\<close>

lemma length_sv_str [simp, view_simps]: "sv_ok v \<Longrightarrow> length (sv_str v) = sv_len v"
  by (auto simp: sv_ok_def sv_str_def ptr_bytes_def split: option.splits)

lemma sv_str_len0 [simp]: "sv_len v = 0 \<Longrightarrow> sv_str v = []"
  by (auto simp: sv_str_def ptr_bytes_def split: option.splits)

lemma sv_len_le_kMaxSize: "sv_ok v \<Longrightarrow> sv_len v \<le> kMaxSize"
  by (auto simp: sv_ok_def split: option.splits)

lemma sv_at_str [view_simps]: "sv_ok v \<Longrightarrow> i < sv_len v \<Longrightarrow> sv_at v i = sv_str v ! i"
  by (auto simp: sv_ok_def sv_at_def sv_base_def sv_str_def ptr_bytes_def split: option.splits)

lemma sv_of_string_simps [simp]:
  "sv_str (sv_of_string s) = s"
  "sv_len (sv_of_string s) = length s"
  "sv_ok (sv_of_string s) \<longleftrightarrow> length s < kMaxSize"
  by (auto simp: sv_of_string_def sv_str_def ptr_bytes_def sv_ok_def)

lemma sv_null_simps [simp]: "sv_str sv_null = []" "sv_len sv_null = 0" "sv_ok sv_null"
  by (simp_all add: sv_null_def sv_str_def ptr_bytes_def sv_ok_def)

lemma sv_str_empty_iff: "sv_ok v \<Longrightarrow> sv_str v = [] \<longleftrightarrow> sv_len v = 0"
  by (metis length_0_conv length_sv_str)

lemma ptr_bytes_sub: "sv_ok v \<Longrightarrow> i + n \<le> sv_len v \<Longrightarrow>
    ptr_bytes (ptr_add (sv_ptr v) i) n = take n (drop i (sv_str v))"
  by (auto simp: sv_ok_def ptr_add_def ptr_bytes_def sv_str_def take_drop ac_simps
      split: option.splits)

lemma ptr_bytes_prefix: "sv_ok v \<Longrightarrow> n \<le> sv_len v \<Longrightarrow> ptr_bytes (sv_ptr v) n = take n (sv_str v)"
  by (auto simp: sv_ok_def ptr_bytes_def sv_str_def min_def split: option.splits)

lemma sv_substr_Inr:
  assumes "sv_ok v" "pos \<le> sv_len v"
  obtains u where "sv_substr v pos n = Inr u" "sv_ok u" "sv_str u = take n (drop pos (sv_str v))"
    "sv_len u = min n (sv_len v - pos)"
proof -
  let ?u = "\<lparr>sv_ptr = ptr_add (sv_ptr v) pos, sv_len = sv_Min n (sv_len v - pos)\<rparr>"
  have len: "sv_Min n (sv_len v - pos) = min n (sv_len v - pos)"
    by (simp add: sv_Min_def min_def)
  then have "sv_Min n (sv_len v - pos) \<le> kMaxSize"
    using sv_len_le_kMaxSize [OF assms(1)] by linarith
  then have 1: "sv_substr v pos n = Inr ?u"
    using assms by (simp add: sv_substr_def sv_of_ptr_len_def CheckLengthInternal_def)
  have 2: "sv_ok ?u"
    using assms len by (auto simp: sv_ok_def ptr_add_def split: option.splits)
  have "sv_str ?u = ptr_bytes (ptr_add (sv_ptr v) pos) (min n (sv_len v - pos))"
    by (simp only: sv_str_def len string_view.simps)
  also have "\<dots> = take (min n (sv_len v - pos)) (drop pos (sv_str v))"
    using assms ptr_bytes_sub [OF assms(1), of pos "min n (sv_len v - pos)"] by simp
  finally have "sv_str ?u = take (min n (sv_len v - pos)) (drop pos (sv_str v))" .
  then have 3: "sv_str ?u = take n (drop pos (sv_str v))"
    using assms by (simp add: min_def)
  show ?thesis by (rule that [OF 1 2 3]) (simp add: len)
qed

lemma sv_substr_throws: "pos > sv_len v \<Longrightarrow> sv_substr v pos n = Inl OutOfRange"
  by (simp add: sv_substr_def)

section \<open>Searches agree with those of std::string\<close>

lemma sv_find_char_spec:
  assumes "sv_ok v"
  shows "sv_find_char v c pos = str_find_first_of (sv_str v) [c] pos"
proof (cases "pos < sv_len v")
  case False
  then show ?thesis
    using assms by (simp add: sv_find_char_def str_find_first_of_def scan_up.simps)
next
  case True
  obtain b k where bk: "sv_ptr v = Some (b, k)" and le: "k + sv_len v \<le> length b"
    and max: "length b \<le> kMaxSize"
    using assms True by (auto simp: sv_ok_def split: option.splits)
  have nth: "b ! (k + i) = sv_str v ! i" if "i < sv_len v" for i
    using sv_at_str [OF assms that] bk by (simp add: sv_at_def sv_base_def)
  let ?r = "scan_up (\<lambda>j. b ! j = c) (k + pos) (k + sv_len v)"
  have max': "k + sv_len v \<le> npos" "sv_len v \<le> npos"
    using le le_npos(1) [OF max] by simp_all
  have "first_pos (\<lambda>i. sv_str v ! i = c) pos (sv_len v) (if ?r \<noteq> npos then ?r - k else npos)"
    by (rule first_pos_shift [OF scan_up_first max'(1)]) (auto simp: nth)
  moreover have "first_pos (\<lambda>i. sv_str v ! i = c) pos (sv_len v)
      (str_find_first_of (sv_str v) [c] pos)"
    using str_find_first_of_spec [of "sv_str v" "[c]" pos] assms by simp
  ultimately have "(if ?r \<noteq> npos then ?r - k else npos) = str_find_first_of (sv_str v) [c] pos"
    using first_pos_unique max'(2) by blast
  then show ?thesis
    using True bk by (simp add: sv_find_char_def sv_base_def sv_empty_def Let_def)
qed


lemma hd_match:
  assumes "take (length needle) (drop j b) = needle" "needle \<noteq> []" "j < length b"
  shows "b ! j = hd needle"
  using assms by (metis hd_drop_conv_nth hd_take length_greater_0_conv)

lemma memmatch_loop_spec:
  assumes "hayend \<le> npos" "needle \<noteq> []" "hayend + length needle \<le> Suc (length b)"
  shows "first_pos (\<lambda>j. take (length needle) (drop j b) = needle) p hayend
     (case memmatch_loop b hayend needle p of Some m \<Rightarrow> m | None \<Rightarrow> npos)"
  using assms
proof (induction b hayend needle p rule: memmatch_loop.induct)
  case (1 b hayend needle p)
  let ?P = "\<lambda>j. take (length needle) (drop j b) = needle"
  let ?m = "scan_up (\<lambda>j. b ! j = hd needle) p hayend"
  have hd_match: "b ! j = hd needle" if "?P j" "j < hayend" for j
    using hd_match [OF that(1) "1.prems"(2)] that(2) "1.prems"(2,3) by (cases needle) auto
  have m: "first_pos (\<lambda>j. b ! j = hd needle) p hayend ?m" by (rule scan_up_first)
  from m "1.prems"(1) show ?case
  proof (cases rule: first_posE)
    case 1
    then have "\<not> ?P j" if "p \<le> j" "j < hayend" for j
      using that hd_match [of j] by blast
    then show ?thesis
      using 1(1) by (subst memmatch_loop.simps) (simp add: first_pos_def)
  next
    case 2
    have before: "\<not> ?P j" if "p \<le> j" "j < ?m" for j
      using that 2 hd_match [of j] by (meson less_trans)
    show ?thesis
    proof (cases "?P ?m")
      case True
      then show ?thesis
        using 2(1-3) before by (subst memmatch_loop.simps) (simp add: first_pos_def)
    next
      case False
      have "first_pos ?P (?m + 1) hayend
          (case memmatch_loop b hayend needle (?m + 1) of Some m \<Rightarrow> m | None \<Rightarrow> npos)"
        using "1.IH" [OF refl 2(1) False] "1.prems" by blast
      moreover have "\<not> ?P j" if "p \<le> j" "j < ?m + 1" for j
        using that before [of j] False by (metis less_Suc_eq Suc_eq_plus1)
      ultimately have "first_pos ?P p hayend
          (case memmatch_loop b hayend needle (?m + 1) of Some m \<Rightarrow> m | None \<Rightarrow> npos)"
        using 2(2) first_pos_lower [of ?P "?m + 1" hayend _ p] by simp
      then show ?thesis
        using 2(1) False by (subst memmatch_loop.simps) simp
    qed
  qed
qed

lemma memmatch_loop_not_npos: "memmatch_loop b hayend needle p \<noteq> Some npos"
proof (induction b hayend needle p rule: memmatch_loop.induct)
  case (1 b hayend needle p)
  then show ?case by (subst memmatch_loop.simps) (simp add: Let_def)
qed

lemma memmatch_match:
  assumes "sv_ok v" "sv_ok s" "sv_ptr v = Some (b, k)" "k + sv_len v \<le> length b" "length b \<le> kMaxSize"
    and "sv_len s \<noteq> 0" "sv_len s \<le> sv_len v" "hayend = Suc (k + sv_len v - sv_len s)"
    and "r = (case memmatch_loop b hayend (sv_str s) (k + pos) of Some m \<Rightarrow> m | None \<Rightarrow> npos)"
  shows "first_pos (str_match_at (sv_str v) (sv_str s)) pos (Suc (sv_len v)) (if r \<noteq> npos then r - k else npos)"
proof -
  let ?n = "sv_str s"
  have n: "length ?n = sv_len s" "?n \<noteq> []" using assms(2,6) by (simp, auto simp: sv_str_empty_iff)
  have he: "hayend \<le> npos" using assms(4,6,7,8) le_npos(1) [OF assms(5)] by linarith
  have r: "first_pos (\<lambda>j. take (length ?n) (drop j b) = ?n) (k + pos) hayend r"
    unfolding assms(9) by (rule memmatch_loop_spec [OF he n(2)]) (use assms(4,7,8) n(1) in linarith)
  show ?thesis
  proof (rule first_pos_shift [OF r he])
    fix i
    have "i + sv_len s \<le> sv_len v \<longleftrightarrow> k + i < hayend" using assms(7,8) by linarith
    moreover have "str_match_at (sv_str v) ?n i \<longleftrightarrow>
        i + sv_len s \<le> sv_len v \<and> take (length ?n) (drop (k + i) b) = ?n"
      using assms(1,3) n(1) ptr_bytes_sub [OF assms(1), of i "sv_len s"]
      by (auto simp: str_match_at_def ptr_add_def ptr_bytes_def)
    ultimately show "i < Suc (sv_len v) \<and> str_match_at (sv_str v) ?n i \<longleftrightarrow>
        k + i < hayend \<and> take (length ?n) (drop (k + i) b) = ?n" by auto
  qed
qed

lemma sv_find_spec:
  assumes "sv_ok v" "sv_ok s"
  shows "sv_find v s pos = str_find (sv_str v) (sv_str s) pos"
proof (cases "sv_empty v \<or> pos > sv_len v")
  case True
  have "str_find (sv_str v) (sv_str s) pos = npos" if "\<not> (sv_len v = 0 \<and> pos = 0 \<and> sv_len s = 0)"
    using that True assms unfolding str_find_def
    by (intro scan_up_none) (auto simp: sv_empty_def str_match_at_def)
  then show ?thesis
    using True assms scan_up_hit [of 0 "Suc 0" "str_match_at [] []"]
    by (auto simp: sv_find_def sv_empty_def str_find_def str_match_at_def)
next
  case ne: False
  then obtain b k where bk: "sv_ptr v = Some (b, k)" and le: "k + sv_len v \<le> length b"
    and max: "length b \<le> kMaxSize" and pos: "pos \<le> sv_len v" "sv_len v \<noteq> 0"
    using assms by (auto simp: sv_ok_def sv_empty_def split: option.splits)
  let ?n = "sv_str s"
  have n: "ptr_bytes (sv_ptr s) (sv_len s) = ?n" "length ?n = sv_len s"
    using assms by (simp add: sv_str_def, simp)
  have spec: "first_pos (str_match_at (sv_str v) ?n) pos (Suc (sv_len v))
      (str_find (sv_str v) ?n pos)"
    using str_find_spec [of "sv_str v" ?n pos] assms by simp
  show ?thesis
  proof (cases "sv_len s = 0 \<or> sv_len v - pos < sv_len s")
    case True
    then show ?thesis
      using ne n assms pos bk
      by (auto simp: sv_find_def sv_base_def memmatch_def str_find_def sv_str_empty_iff
          str_match_at_def scan_up_none scan_up_hit)
  next
    case False
    define hayend where "hayend = k + pos + (sv_len v - pos) - sv_len s + 1"
    have he: "hayend = Suc (k + sv_len v - sv_len s)" using pos False by (auto simp: hayend_def)
    let ?r = "case memmatch_loop b hayend ?n (k + pos) of Some m \<Rightarrow> m | None \<Rightarrow> npos"
    have "first_pos (str_match_at (sv_str v) ?n) pos (Suc (sv_len v)) (if ?r \<noteq> npos then ?r - k else npos)"
      by (rule memmatch_match [OF assms bk le max _ _ he refl]) (use False in auto)
    then have "(if ?r \<noteq> npos then ?r - k else npos) = str_find (sv_str v) ?n pos"
      using spec le_npos(2) [OF sv_len_le_kMaxSize [OF assms(1)]] by (rule first_pos_unique)
    moreover have "memmatch_loop b hayend ?n (k + pos) \<noteq> Some npos"
      by (rule memmatch_loop_not_npos)
    ultimately show ?thesis
      using ne n bk False
      by (auto simp: sv_find_def sv_base_def memmatch_def hayend_def split: option.splits if_splits)
  qed
qed


lemma fold_set_true:
  "length t = 256 \<Longrightarrow>
   fold (\<lambda>c t. t[of_char c := True]) ws t ! of_char d \<longleftrightarrow> t ! of_char d \<or> d \<in> set ws"
proof (induction ws arbitrary: t)
  case Nil
  then show ?case by simp
next
  case (Cons c ws)
  have "(of_char d :: nat) < length t"
    using nat_of_char_less_256 [of d] Cons.prems by simp
  moreover have "(of_char c :: nat) = of_char d \<longleftrightarrow> c = d"
    by (metis char_of_char)
  ultimately show ?case
    using Cons.IH [of "t[of_char c := True]"] Cons.prems by (auto simp: nth_list_update)
qed

lemma lookup_table_iff [simp]: "lookup_table (LookupTable ws) c \<longleftrightarrow> c \<in> set ws"
  using nat_of_char_less_256 [of c]
  by (simp add: lookup_table_def LookupTable_def fold_set_true)

lemma sv_single: "sv_ok s \<Longrightarrow> sv_len s = 1 \<Longrightarrow> sv_str s = [sv_at s 0]"
  by (metis One_nat_def Suc_length_conv length_0_conv length_sv_str less_one nth_Cons_0 sv_at_str)

lemma scan_up_view:
  assumes "sv_ok v"
  shows "scan_up (\<lambda>i. P (sv_at v i)) pos (sv_len v) = scan_up (\<lambda>i. P (sv_str v ! i)) pos (sv_len v)"
proof -
  have "first_pos (\<lambda>i. P (sv_at v i)) pos (sv_len v) r =
      first_pos (\<lambda>i. P (sv_str v ! i)) pos (sv_len v) r" for r
    using assms by (intro first_pos_cong) (simp add: sv_at_str)
  then show ?thesis
    using first_pos_unique scan_up_first le_npos(1) [OF sv_len_le_kMaxSize [OF assms]] by blast
qed

lemma scan_down_view:
  assumes "sv_ok v" "\<not> sv_empty v"
  shows "last_pos (\<lambda>i. P (sv_str v ! i)) (min (Suc pos) (sv_len v))
    (scan_down (\<lambda>i. P (sv_at v i)) (min pos (sv_len v - 1)))"
proof -
  have eq: "Suc (min pos (sv_len v - 1)) = min (Suc pos) (sv_len v)"
    using assms(2) by (auto simp: sv_empty_def min_def)
  have "last_pos (\<lambda>i. P (sv_at v i)) (min (Suc pos) (sv_len v))
    (scan_down (\<lambda>i. P (sv_at v i)) (min pos (sv_len v - 1)))"
    using scan_down_last [of "\<lambda>i. P (sv_at v i)" "min pos (sv_len v - 1)"] by (simp only: eq)
  moreover have "last_pos (\<lambda>i. P (sv_at v i)) (min (Suc pos) (sv_len v)) r =
      last_pos (\<lambda>i. P (sv_str v ! i)) (min (Suc pos) (sv_len v)) r" for r
    using assms(1) by (intro last_pos_cong) (simp add: sv_at_str)
  ultimately show ?thesis by simp
qed

lemma sv_find_first_of_spec:
  assumes "sv_ok v" "sv_ok s"
  shows "sv_find_first_of v s pos = str_find_first_of (sv_str v) (sv_str s) pos"
proof (cases "sv_len s = 1 \<and> \<not> sv_empty v")
  case True
  then show ?thesis
    using assms sv_find_char_spec [of v "sv_at s 0" pos] sv_single [OF assms(2)]
    by (simp add: sv_find_first_of_def sv_find_first_of_char_def sv_empty_def)
next
  case False
  then show ?thesis
    using assms scan_up_view [of v "\<lambda>c. c \<in> set (sv_str s)" pos]
    by (auto simp: sv_find_first_of_def sv_empty_def str_find_first_of_def
        intro!: scan_up_none [symmetric])
qed

lemma sv_find_first_not_of_spec:
  assumes "sv_ok v" "sv_ok s"
  shows "sv_find_first_not_of v s pos = str_find_first_not_of (sv_str v) (sv_str s) pos"
proof (cases "sv_len s = 1 \<and> \<not> sv_empty v")
  case True
  then show ?thesis
    using assms scan_up_view [of v "\<lambda>c. c \<noteq> sv_at s 0" pos] sv_single [OF assms(2)]
    by (simp add: sv_find_first_not_of_def sv_find_first_not_of_char_def
        str_find_first_not_of_def)
next
  case False
  then show ?thesis
    using assms scan_up_view [of v "\<lambda>c. c \<notin> set (sv_str s)" pos]
    by (auto simp: sv_find_first_not_of_def sv_empty_def str_find_first_not_of_def
        intro!: scan_up_none [symmetric])
qed

lemma sv_find_last_of_spec:
  assumes "sv_ok v" "sv_ok s"
  shows "last_pos (\<lambda>i. sv_str v ! i \<in> set (sv_str s)) (min (Suc pos) (sv_len v))
    (sv_find_last_of v s pos)"
proof (cases "sv_empty v \<or> sv_empty s")
  case True
  then show ?thesis
    using assms by (auto simp: sv_find_last_of_def last_pos_def sv_empty_def)
next
  case False
  then have ne: "\<not> sv_empty v" by simp
  show ?thesis
    using False assms scan_down_view [OF assms(1) ne, of "\<lambda>c. c \<in> set (sv_str s)" pos]
      sv_single [OF assms(2)]
    by (cases "sv_len s = 1")
      (simp_all add: sv_find_last_of_def sv_find_last_of_char_def sv_rfind_char_def)
qed

lemma sv_find_last_not_of_spec:
  assumes "sv_ok v" "sv_ok s"
  shows "last_pos (\<lambda>i. sv_str v ! i \<notin> set (sv_str s)) (min (Suc pos) (sv_len v))
    (sv_find_last_not_of v s pos)"
proof (cases "sv_empty v \<or> sv_empty s")
  case True
  then show ?thesis
    using assms
    by (auto simp: sv_find_last_not_of_def last_pos_def sv_empty_def Let_def)
next
  case False
  then have ne: "\<not> sv_empty v" by simp
  show ?thesis
    using False assms scan_down_view [OF assms(1) ne, of "\<lambda>c. c \<notin> set (sv_str s)" pos]
      sv_single [OF assms(2)]
    by (cases "sv_len s = 1")
      (simp_all add: sv_find_last_not_of_def sv_find_last_not_of_char_def Let_def)
qed

lemma sv_rfind_spec:
  assumes "sv_ok v" "sv_ok s" "\<not> sv_empty s" "sv_len s \<le> sv_len v"
  shows "last_pos (str_match_at (sv_str v) (sv_str s)) (Suc (min (sv_len v - sv_len s) pos))
    (sv_rfind v s pos)"
proof -
  let ?m = "min (sv_len v - sv_len s) pos"
  have "last_pos (\<lambda>i. ptr_bytes (ptr_add (sv_ptr v) i) (sv_len s) = sv_str s) (Suc ?m)
      (sv_rfind v s pos)"
    using assms scan_down_last [of "\<lambda>i. ptr_bytes (ptr_add (sv_ptr v) i) (sv_len s) = sv_str s" ?m]
    by (simp add: sv_rfind_def)
  moreover have "(ptr_bytes (ptr_add (sv_ptr v) i) (sv_len s) = sv_str s) =
      str_match_at (sv_str v) (sv_str s) i" if "i < Suc ?m" for i
    using that assms ptr_bytes_sub [OF assms(1), of i "sv_len s"]
    by (auto simp: str_match_at_def)
  ultimately show ?thesis
    using last_pos_cong [of "Suc ?m" "\<lambda>i. ptr_bytes (ptr_add (sv_ptr v) i) (sv_len s) = sv_str s"
        "str_match_at (sv_str v) (sv_str s)"] by simp
qed

section \<open>Comparison is the lexicographic order of unsigned bytes\<close>

lemma c_memcmp_0 [simp]: "length xs = length ys \<Longrightarrow> c_memcmp xs ys = 0 \<longleftrightarrow> xs = ys"
  by (induction xs ys rule: list_induct2) auto

lemma c_memcmp_range: "c_memcmp xs ys \<in> {-1, 0, 1}"
  by (induction xs ys rule: c_memcmp.induct) auto

lemma c_memcmp_swap: "c_memcmp ys xs = - c_memcmp xs ys"
  by (induction xs ys rule: c_memcmp.induct) auto

text \<open>The reference: compare the common prefix, then the lengths.\<close>

lemma list_less_memcmp:
  "xs < ys \<longleftrightarrow>
    (let m = min (length xs) (length ys); r = c_memcmp (take m xs) (take m ys) in
     r < 0 \<or> (r = 0 \<and> length xs < length ys))" for xs ys :: string
proof (induction xs arbitrary: ys)
  case Nil
  then show ?case by (cases ys) auto
next
  case (Cons x xs)
  then show ?case by (cases ys) (auto simp: Let_def)
qed

lemma sv_compare_eq:
  assumes "sv_ok v" "sv_ok x"
  shows "sv_compare v x = (if sv_str v < sv_str x then -1 else if sv_str x < sv_str v then 1 else 0)"
proof -
  let ?m = "min (sv_len v) (sv_len x)"
  define r where "r = c_memcmp (take ?m (sv_str v)) (take ?m (sv_str x))"
  have m: "sv_Min (sv_len v) (sv_len x) = ?m" by (simp add: sv_Min_def min_def)
  have swap: "c_memcmp (take ?m (sv_str x)) (take ?m (sv_str v)) = - r"
    unfolding r_def by (rule c_memcmp_swap)
  have cmp: "sv_compare v x = CompareImpl (sv_len v) (sv_len x) r"
    using assms by (simp add: sv_compare_def m Let_def ptr_bytes_prefix r_def)
  have lt: "sv_str v < sv_str x \<longleftrightarrow> r < 0 \<or> (r = 0 \<and> sv_len v < sv_len x)"
    using assms list_less_memcmp [of "sv_str v" "sv_str x"] by (simp only: Let_def r_def length_sv_str)
  have gt: "sv_str x < sv_str v \<longleftrightarrow> r > 0 \<or> (r = 0 \<and> sv_len x < sv_len v)"
    using assms list_less_memcmp [of "sv_str x" "sv_str v"] swap
    by (simp add: Let_def min.commute [of "sv_len x"])
  consider "r < 0" | "r = 0" | "r > 0" by linarith
  then show ?thesis
    by cases (simp_all add: CompareImpl_def cmp lt gt)
qed

lemma sv_lt_iff [view_simps]: "sv_ok x \<Longrightarrow> sv_ok y \<Longrightarrow> sv_lt x y \<longleftrightarrow> sv_str x < sv_str y"
  by (auto simp: sv_lt_def sv_compare_eq dest: less_asym)

lemma sv_eq_iff [view_simps]:
  assumes "sv_ok x" "sv_ok y"
  shows "sv_eq x y \<longleftrightarrow> sv_str x = sv_str y"
proof (cases "sv_len x = sv_len y")
  case True
  then show ?thesis
    using assms by (auto simp: sv_eq_def sv_size_def sv_empty_def ptr_bytes_prefix)
next
  case False
  then have "sv_str x \<noteq> sv_str y"
    using assms by (metis length_sv_str)
  with False show ?thesis by (simp add: sv_eq_def sv_size_def)
qed

section \<open>Stream output\<close>

lemma WritePadding_eq:
  "WritePadding o' n = o'\<lparr>os_out := os_out o' @ replicate n (os_fill o')\<rparr>"
proof (induction o' n rule: WritePadding.induct)
  case (2 o' p)
  have "replicate (min (Suc p) 32) c @ replicate (Suc p - min (Suc p) 32) c = replicate (Suc p) c"
    for c :: char
    by (subst replicate_add [symmetric]) (simp add: min_def)
  with "2.IH" [OF refl] show ?case
    by (simp add: Let_def del: replicate.simps)
qed simp

section \<open>Properties\<close>

text \<open>
  C32. On valid views the hand-written searches (with their \<open>memchr\<close> and look-up table loops) return
  what the searches of \<open>std::string\<close> return on the characters of the views, for every start position.
\<close>

theorem sv_searches_like_string:
  assumes "sv_ok v" "sv_ok s"
  shows "sv_find v s pos = str_find (sv_str v) (sv_str s) pos \<and>
    sv_find_first_of v s pos = str_find_first_of (sv_str v) (sv_str s) pos \<and>
    sv_find_first_not_of v s pos = str_find_first_not_of (sv_str v) (sv_str s) pos \<and>
    last_pos (\<lambda>i. sv_str v ! i \<in> set (sv_str s)) (min (Suc pos) (sv_len v)) (sv_find_last_of v s pos) \<and>
    last_pos (\<lambda>i. sv_str v ! i \<notin> set (sv_str s)) (min (Suc pos) (sv_len v)) (sv_find_last_not_of v s pos)"
  using assms by (simp add: sv_find_spec sv_find_first_of_spec sv_find_first_not_of_spec
      sv_find_last_of_spec sv_find_last_not_of_spec)

theorem sv_searches_like_string_witness:
  "sv_ok (sv_of_string ''abcab'') \<and> sv_ok (sv_of_string ''ab'') \<and>
   sv_find (sv_of_string ''abcab'') (sv_of_string ''ab'') 1 = 3"
proof -
  have ok: "sv_ok (sv_of_string ''abcab'')" "sv_ok (sv_of_string ''ab'')"
    by (simp_all add: kMaxSize_def)
  moreover have "str_find ''abcab'' ''ab'' 1 = 3" by code_simp
  ultimately show ?thesis using sv_searches_like_string [OF ok, of 1] by simp
qed

text \<open>
  C33. Comparison of valid views: \<open>compare\<close> is negative, zero or positive as the characters of the
  first are lexicographically less, equal or greater as unsigned bytes, and the operators \<open>==\<close> and
  \<open><\<close> agree with it.
\<close>

theorem sv_compare_lexicographic:
  assumes "sv_ok x" "sv_ok y"
  shows "(sv_compare x y < 0 \<longleftrightarrow> sv_str x < sv_str y) \<and>
    (sv_compare x y = 0 \<longleftrightarrow> sv_str x = sv_str y) \<and>
    (0 < sv_compare x y \<longleftrightarrow> sv_str y < sv_str x) \<and>
    (sv_eq x y \<longleftrightarrow> sv_str x = sv_str y) \<and> (sv_lt x y \<longleftrightarrow> sv_str x < sv_str y)"
  using assms sv_compare_eq [OF assms] sv_lt_iff [OF assms] sv_eq_iff [OF assms]
  by (auto split: if_splits)

theorem sv_compare_lexicographic_witness:
  "sv_ok (sv_of_string ''ab'') \<and> sv_ok (sv_of_string [CHR 0xFF]) \<and>
   sv_lt (sv_of_string ''ab'') (sv_of_string [CHR 0xFF])"
proof -
  have ok: "sv_ok (sv_of_string ''ab'')" "sv_ok (sv_of_string [CHR 0xFF])"
    by (simp_all add: kMaxSize_def)
  moreover have "''ab'' < [CHR 0xFF]" by (simp add: less_char_def)
  ultimately show ?thesis using sv_compare_lexicographic [OF ok] by simp
qed

end
