(* ===== verification/Str_Util.thy ===== *)
theory Str_Util
  imports String_View
begin

text \<open>
  \<^verbatim>\<open>cppboot/base/str_util.h\<close> and \<^verbatim>\<open>str_util.cc\<close>: concatenation, splitting, trimming, matching,
  case-insensitive comparison, field extraction and replacement. Each operation is translated on
  the views and strings the source uses and then related to a short recursive reference function
  on character lists.
\<close>

section \<open>The functions\<close>

definition kSpaceChars :: string where
  "kSpaceChars = [CHR '' '', CHR 0x09, CHR 0x0D, CHR 0x0A]"

text \<open>\<open>us1\<close> and \<open>us2\<close> are the bytes at the two pointers; \<open>i\<close> runs from 0 to \<open>len\<close>.\<close>

function memcasecmp_from :: "string \<Rightarrow> string \<Rightarrow> nat \<Rightarrow> nat \<Rightarrow> int" where
  "memcasecmp_from us1 us2 len i =
     (if i < len
      then let diff = of_char (c_tolower (us1 ! i)) - of_char (c_tolower (us2 ! i)) in
        if diff \<noteq> 0 then diff else memcasecmp_from us1 us2 len (Suc i)
      else 0)"
  by pat_completeness auto
termination
  by (relation "measure (\<lambda>(us1, us2, len, i). len - i)") auto

declare memcasecmp_from.simps [simp del]

definition memcasecmp :: "string \<Rightarrow> string \<Rightarrow> nat \<Rightarrow> int" where
  "memcasecmp s1 s2 len = memcasecmp_from s1 s2 len 0"

definition StrCat2 :: "string \<Rightarrow> string \<Rightarrow> string" where
  "StrCat2 a b = (let result = []; result = result @ a; result = result @ b in result)"

definition StrCat3 :: "string \<Rightarrow> string \<Rightarrow> string \<Rightarrow> string" where
  "StrCat3 a b c =
     (let result = []; result = result @ a; result = result @ b; result = result @ c in result)"

definition StrCat4 :: "string \<Rightarrow> string \<Rightarrow> string \<Rightarrow> string \<Rightarrow> string" where
  "StrCat4 a b c d =
     (let result = []; result = result @ a; result = result @ b; result = result @ c;
          result = result @ d in result)"

definition to_string :: "string_view \<Rightarrow> string" where
  "to_string s = ptr_bytes (sv_ptr s) (sv_size s)"

definition StrAppend :: "string \<Rightarrow> string_view \<Rightarrow> string" where
  "StrAppend s other = s @ ptr_bytes (sv_ptr other) (sv_size other)"

lemma sv_find_char_range:
  assumes "sv_find_char v c pos \<noteq> npos"
  shows "pos \<le> sv_find_char v c pos" "sv_find_char v c pos < sv_len v"
proof -
  obtain b k where bk: "sv_base v = (b, k)" by fastforce
  let ?r = "scan_up (\<lambda>j. b ! j = c) (k + pos) (k + pos + (sv_len v - pos))"
  have eq: "sv_find_char v c pos = ?r - k" "?r \<noteq> npos" "pos < sv_len v"
    using assms bk by (auto simp: sv_find_char_def Let_def split: if_splits)
  have "k + pos \<le> ?r \<and> ?r < k + pos + (sv_len v - pos)"
    using scan_up_first [of "\<lambda>j. b ! j = c" "k + pos" "k + pos + (sv_len v - pos)"] eq(2)
    by (auto simp: first_pos_def)
  then show "pos \<le> sv_find_char v c pos" "sv_find_char v c pos < sv_len v"
    using eq by linarith+
qed

function StrSplit_loop :: "string_view \<Rightarrow> char \<Rightarrow> nat \<Rightarrow> string list \<Rightarrow> string list res" where
  "StrSplit_loop text delimiter new_pos result =
     (let pos = sv_find_first_of_char text delimiter new_pos in
      if npos = pos
      then bindr (sv_substr text new_pos npos) (\<lambda>u. Inr (result @ [to_string u]))
      else if pos \<ge> new_pos
      then (case sv_substr text new_pos (pos - new_pos) of
              Inl e \<Rightarrow> Inl e
            | Inr u \<Rightarrow> StrSplit_loop text delimiter (pos + 1) (result @ [to_string u]))
      else StrSplit_loop text delimiter (pos + 1) result)"
  by pat_completeness auto
termination
proof (relation "measure (\<lambda>(tx, d, new_pos, r). sv_len tx - new_pos)")
  fix tx delimiter new_pos result x b
  assume x: "x = sv_find_first_of_char tx delimiter new_pos" "npos \<noteq> x"
  then have range: "new_pos \<le> x" "x < sv_len tx"
    using sv_find_char_range [of tx delimiter new_pos]
    by (simp_all add: sv_find_first_of_char_def)
  then show "((tx, delimiter, x + 1, result @ [to_string b]), tx, delimiter, new_pos, result)
      \<in> measure (\<lambda>(tx, d, new_pos, r). sv_len tx - new_pos)"
    by auto
  assume "\<not> new_pos \<le> x"
  then show "((tx, delimiter, x + 1, result), tx, delimiter, new_pos, result)
      \<in> measure (\<lambda>(tx, d, new_pos, r). sv_len tx - new_pos)"
    using range(1) by simp
qed simp

declare StrSplit_loop.simps [simp del]

definition StrSplit :: "string_view \<Rightarrow> char \<Rightarrow> string list res" where
  "StrSplit text delimiter =
     (if sv_empty text then Inr [] else StrSplit_loop text delimiter 0 [])"

text \<open>\<open>Stricmp\<close> walks two NUL-terminated strings, so it sees the characters before the NULs.\<close>

definition tolower_int :: "int \<Rightarrow> int" where
  "tolower_int c = (if 65 \<le> c \<and> c \<le> 90 then c + 32 else c)"

fun Stricmp :: "string \<Rightarrow> string \<Rightarrow> int" where
  "Stricmp [] [] = 0"
| "Stricmp (x # xs) [] =
     (let n = tolower_int (schar x) - tolower_int 0 in if n = 0 then Stricmp xs [] else n)"
| "Stricmp [] (y # ys) =
     (let n = tolower_int 0 - tolower_int (schar y) in if n = 0 then Stricmp [] ys else n)"
| "Stricmp (x # xs) (y # ys) =
     (let n = tolower_int (schar x) - tolower_int (schar y) in if n = 0 then Stricmp xs ys else n)"

definition Stricmp_string :: "string \<Rightarrow> string \<Rightarrow> int" where
  "Stricmp_string s1 s2 = Stricmp (c_str s1) (c_str s2)"

definition StrTrimLeft :: "string_view \<Rightarrow> string_view \<Rightarrow> string_view res" where
  "StrTrimLeft s cutset =
     (let cutset = (if sv_empty cutset then sv_of_string kSpaceChars else cutset);
          pos = sv_find_first_not_of s cutset 0 in
      if pos = npos then Inr s else sv_substr s pos npos)"

definition StrTrimRight :: "string_view \<Rightarrow> string_view \<Rightarrow> string_view res" where
  "StrTrimRight s cutset =
     (let cutset = (if sv_empty cutset then sv_of_string kSpaceChars else cutset);
          pos = sv_find_last_not_of s cutset npos in
      if pos = npos then Inr s else sv_substr s 0 (pos + 1))"

definition StrTrim :: "string_view \<Rightarrow> string_view \<Rightarrow> string_view res" where
  "StrTrim s cutset = bindr (StrTrimLeft s cutset) (\<lambda>l. StrTrimRight l cutset)"

definition StrContains :: "string_view \<Rightarrow> string_view \<Rightarrow> bool" where
  "StrContains haystack needle \<longleftrightarrow> sv_find haystack needle 0 \<noteq> npos"

definition StrContains_char :: "string_view \<Rightarrow> char \<Rightarrow> bool" where
  "StrContains_char haystack needle \<longleftrightarrow> sv_find_char haystack needle 0 \<noteq> npos"

definition StartsWith :: "string_view \<Rightarrow> string_view \<Rightarrow> bool" where
  "StartsWith text p \<longleftrightarrow> sv_empty p \<or>
     (sv_size text \<ge> sv_size p \<and>
      c_memcmp (ptr_bytes (sv_ptr text) (sv_size p)) (ptr_bytes (sv_ptr p) (sv_size p)) = 0)"

definition EndsWith :: "string_view \<Rightarrow> string_view \<Rightarrow> bool" where
  "EndsWith text sfx \<longleftrightarrow> sv_empty sfx \<or>
     (sv_size text \<ge> sv_size sfx \<and>
      c_memcmp (ptr_bytes (ptr_add (sv_ptr text) (sv_size text - sv_size sfx)) (sv_size sfx))
        (ptr_bytes (sv_ptr sfx) (sv_size sfx)) = 0)"

definition EqualsIgnoreCase :: "string_view \<Rightarrow> string_view \<Rightarrow> bool" where
  "EqualsIgnoreCase piece1 piece2 \<longleftrightarrow> sv_size piece1 = sv_size piece2 \<and>
     0 = memcasecmp (ptr_bytes (sv_ptr piece1) (sv_size piece1))
           (ptr_bytes (sv_ptr piece2) (sv_size piece1)) (sv_size piece1)"

definition StartsWithIgnoreCase :: "string_view \<Rightarrow> string_view \<Rightarrow> bool res" where
  "StartsWithIgnoreCase text p =
     (if sv_size text \<ge> sv_size p
      then bindr (sv_substr text 0 (sv_size p)) (\<lambda>u. Inr (EqualsIgnoreCase u p))
      else Inr False)"

definition EndsWithIgnoreCase :: "string_view \<Rightarrow> string_view \<Rightarrow> bool res" where
  "EndsWithIgnoreCase text sfx =
     (if sv_size text \<ge> sv_size sfx
      then bindr (sv_substr text (sv_size text - sv_size sfx) npos)
             (\<lambda>u. Inr (EqualsIgnoreCase u sfx))
      else Inr False)"

text \<open>
  \<open>StrFields\<close>: the loop keeps \<open>start\<close> at the first character of a field; it may become \<open>npos\<close>,
  which ends the loop because no search from \<open>npos\<close> succeeds. The loop test \<open>end != npos\<close> is
  written \<open>end < npos\<close>, which is the same on values of type \<open>size_t\<close>.
\<close>

function StrFields_loop :: "string \<Rightarrow> nat \<Rightarrow> string list \<Rightarrow> (nat \<times> string list) res" where
  "StrFields_loop s start cells =
     (let e = str_find_first_of s kSpaceChars start in
      if e < npos
      then (case str_substr s start (e - start) of
              Inl x \<Rightarrow> Inl x
            | Inr cell \<Rightarrow>
                StrFields_loop s (str_find_first_not_of s kSpaceChars e)
                  (if cell \<noteq> [] then cells @ [cell] else cells))
      else Inr (start, cells))"
  by pat_completeness auto
termination
proof (relation "measure (\<lambda>(s, start, cells). npos - start)")
  fix s cells e and start :: nat and cell :: string
  assume e: "e = str_find_first_of s kSpaceChars start" "e < npos"
  then have le: "start \<le> e" "s ! e \<in> set kSpaceChars"
    using str_find_first_of_spec [of s kSpaceChars start] by (auto simp: first_pos_def)
  let ?n = "str_find_first_not_of s kSpaceChars e"
  have "first_pos (\<lambda>i. s ! i \<notin> set kSpaceChars) e (length s) ?n"
    by (simp add: str_find_first_not_of_def scan_up_first)
  then have "?n = npos \<or> e < ?n"
    using le(2) unfolding first_pos_def by (metis le_neq_implies_less)
  then show "((s, ?n, if cell \<noteq> [] then cells @ [cell] else cells), s, start, cells)
      \<in> measure (\<lambda>(s, start, cells). npos - start)"
    using le(1) e(2) by auto
qed simp

declare StrFields_loop.simps [simp del]

definition StrFields :: "string \<Rightarrow> string list res" where
  "StrFields s =
     (let start = str_find_first_not_of s kSpaceChars 0 in
      if start = npos then Inr []
      else bindr (StrFields_loop s start []) (\<lambda>(start, cells).
        if start < length s
        then bindr (str_substr s start npos) (\<lambda>rest.
             bindr (StrTrimRight (sv_of_string rest) (sv_of_string kSpaceChars)) (\<lambda>u.
             let cell = sv_to_basic_string u in
             Inr (if cell \<noteq> [] then cells @ [cell] else cells)))
        else Inr cells))"

text \<open>
  \<open>StrReplace\<close> changes its argument in place and returns a copy of it. The loop need not end, so
  it is a partial function: \<open>None\<close> is a call that never returns.
\<close>

definition str_replace_at :: "string \<Rightarrow> nat \<Rightarrow> nat \<Rightarrow> string \<Rightarrow> string" where
  "str_replace_at s pos n t = take pos s @ t @ drop (pos + n) s"

partial_function (option) StrReplace_loop :: "string \<Rightarrow> string \<Rightarrow> string \<Rightarrow> nat \<Rightarrow> string option" where
  [code]: "StrReplace_loop str frm to pos =
     (let pos = str_find str frm pos in
      if pos \<noteq> npos
      then StrReplace_loop (str_replace_at str pos (length frm) to) frm to (pos + length to)
      else Some str)"

definition StrReplace :: "string \<Rightarrow> string \<Rightarrow> string \<Rightarrow> (string \<times> string) option" where
  "StrReplace str frm to =
     (case StrReplace_loop str frm to 0 of None \<Rightarrow> None | Some str' \<Rightarrow> Some (str', str'))"

section \<open>Splitting and joining\<close>

text \<open>The fields between delimiters, and the text that fields make when joined.\<close>

function split_on :: "char \<Rightarrow> string \<Rightarrow> string list" where
  "split_on d s =
     (case dropWhile (\<lambda>x. x \<noteq> d) s of
        [] \<Rightarrow> [s]
      | _ # rest \<Rightarrow> takeWhile (\<lambda>x. x \<noteq> d) s # split_on d rest)"
  by pat_completeness auto
termination
  by (relation "measure (\<lambda>(d, s). length s)")
    (auto, metis Suc_le_eq length_Cons length_dropWhile_le)

declare split_on.simps [simp del]

fun join :: "char \<Rightarrow> string list \<Rightarrow> string" where
  "join d [] = []"
| "join d [w] = w"
| "join d (w # v # ws) = w @ d # join d (v # ws)"

lemma split_on_simps [simp]:
  "d \<notin> set s \<Longrightarrow> split_on d s = [s]"
  "d \<notin> set a \<Longrightarrow> split_on d (a @ d # b) = a # split_on d b"
proof -
  assume "d \<notin> set s"
  then have "dropWhile (\<lambda>x. x \<noteq> d) s = []" by (auto simp: dropWhile_eq_Nil_conv)
  then show "split_on d s = [s]" by (simp only: split_on.simps [of d s] list.case)
next
  assume "d \<notin> set a"
  then have "\<forall>x \<in> set a. x \<noteq> d" by blast
  then show "split_on d (a @ d # b) = a # split_on d b"
    by (subst split_on.simps) (simp add: dropWhile_append2 takeWhile_append2)
qed

lemma split_on_nonempty [simp]: "split_on d s \<noteq> []"
  by (subst split_on.simps) (simp split: list.splits)

lemma split_on_cases:
  obtains (none) "d \<notin> set s" "split_on d s = [s]"
  | (some) a b where "s = a @ d # b" "d \<notin> set a" "split_on d s = a # split_on d b"
proof (cases "d \<in> set s")
  case True
  then obtain a b where ab: "s = a @ d # b" "d \<notin> set a" by (meson split_list_first)
  then show ?thesis using some by simp
next
  case False
  then show ?thesis using none by simp
qed

lemma join_split_on: "join d (split_on d s) = s"
proof (induction "length s" arbitrary: s rule: less_induct)
  case less
  show ?case
  proof (cases d s rule: split_on_cases)
    case none
    then show ?thesis by simp
  next
    case (some a b)
    then have "join d (split_on d b) = b" using less by simp
    then show ?thesis
      using some by (cases "split_on d b") simp_all
  qed
qed

lemma split_on_no_delim: "w \<in> set (split_on d s) \<Longrightarrow> d \<notin> set w"
proof (induction "length s" arbitrary: s rule: less_induct)
  case less
  show ?case
  proof (cases d s rule: split_on_cases)
    case none
    then show ?thesis using less(2) by simp
  next
    case (some a b)
    then show ?thesis using less(1) [of b] less(2) by auto
  qed
qed

lemma split_on_join: "ws \<noteq> [] \<Longrightarrow> \<forall>w \<in> set ws. d \<notin> set w \<Longrightarrow> split_on d (join d ws) = ws"
  by (induction d ws rule: join.induct) auto

lemma StrSplit_loop_eq:
  assumes "sv_ok tx" "new_pos \<le> sv_len tx"
  shows "StrSplit_loop tx d new_pos result = Inr (result @ split_on d (drop new_pos (sv_str tx)))"
  using assms
proof (induction tx d new_pos result rule: StrSplit_loop.induct)
  case (1 tx d new_pos result)
  let ?s = "sv_str tx" and ?t = "drop new_pos (sv_str tx)"
  have len: "new_pos \<le> length ?s" "length ?s \<le> npos"
    using 1(3,4) le_npos(1) [OF sv_len_le_kMaxSize] by simp_all
  have find: "sv_find_first_of_char tx d new_pos = str_find_first_of ?s [d] new_pos"
    using 1(3) by (simp add: sv_find_first_of_char_def sv_find_char_spec)
  show ?case
  proof (cases d ?t rule: split_on_cases)
    case none
    then have "dropWhile (\<lambda>x. x \<notin> set [d]) ?t = []" by (auto simp: dropWhile_eq_Nil_conv)
    then have "sv_find_first_of_char tx d new_pos = npos"
      using find str_find_first_of_eq [OF len] by (simp only: if_True simp_thms)
    moreover obtain u where "sv_substr tx new_pos npos = Inr u" "sv_str u = take npos ?t"
      by (rule sv_substr_Inr [OF 1(3,4)]) blast
    ultimately show ?thesis
      using none len by (subst StrSplit_loop.simps) (simp add: to_string_def sv_size_def sv_str_def)
  next
    case (some a b)
    have "\<forall>x \<in> set a. x \<notin> set [d]" using some(2) by auto
    then have "dropWhile (\<lambda>x. x \<notin> set [d]) ?t = d # b" "takeWhile (\<lambda>x. x \<notin> set [d]) ?t = a"
      using some(1) by (simp_all add: dropWhile_append2 takeWhile_append2)
    then have pos: "sv_find_first_of_char tx d new_pos = new_pos + length a"
      using find str_find_first_of_eq [OF len] by simp
    have bound: "new_pos + length a < length ?s"
      using arg_cong [OF some(1), of length] len(1) by simp
    obtain u where u: "sv_substr tx new_pos (length a) = Inr u" "sv_str u = take (length a) ?t"
      by (rule sv_substr_Inr [OF 1(3,4)]) blast
    have "drop (Suc (length a)) ?t = b" using some(1) by simp
    then have "drop (Suc (new_pos + length a)) ?s = b" by (simp add: ac_simps)
    moreover have "to_string u = a"
      using u(2) some(1) by (simp add: to_string_def sv_size_def sv_str_def)
    moreover have "new_pos + length a \<noteq> npos" "npos \<noteq> new_pos + length a"
      using bound len by linarith+
    ultimately show ?thesis
      using 1(1) [OF refl, of u] 1(3) u(1) pos bound some(3)
      by (subst StrSplit_loop.simps) (simp add: Let_def)
  qed
qed

lemma StrSplit_eq:
  "sv_ok tx \<Longrightarrow> StrSplit tx d = Inr (if sv_str tx = [] then [] else split_on d (sv_str tx))"
  by (auto simp: StrSplit_def sv_empty_def StrSplit_loop_eq sv_str_empty_iff)

section \<open>Trimming\<close>

definition trim_set :: "string_view \<Rightarrow> char set" where
  "trim_set cutset = (if sv_empty cutset then set kSpaceChars else set (sv_str cutset))"

definition trim_left :: "char set \<Rightarrow> string \<Rightarrow> string" where
  "trim_left C s = (if set s \<subseteq> C then s else dropWhile (\<lambda>x. x \<in> C) s)"

definition trim_right :: "char set \<Rightarrow> string \<Rightarrow> string" where
  "trim_right C s = (if set s \<subseteq> C then s else rev (dropWhile (\<lambda>x. x \<in> C) (rev s)))"

lemma length_kSpaceChars [simp]: "length kSpaceChars = 4"
  by (simp add: kSpaceChars_def)

lemma effective_cutset:
  assumes "sv_ok cutset"
  shows "sv_ok (if sv_empty cutset then sv_of_string kSpaceChars else cutset)"
    "set (sv_str (if sv_empty cutset then sv_of_string kSpaceChars else cutset)) = trim_set cutset"
  using assms by (simp_all add: trim_set_def kMaxSize_def)

lemma StrTrimLeft_eq:
  assumes "sv_ok s" "sv_ok cutset"
  obtains u where "StrTrimLeft s cutset = Inr u" "sv_ok u"
    "sv_str u = trim_left (trim_set cutset) (sv_str s)"
proof -
  let ?C = "trim_set cutset" and ?s = "sv_str s"
  define c where "c = (if sv_empty cutset then sv_of_string kSpaceChars else cutset)"
  have c: "sv_ok c" "set (sv_str c) = ?C"
    using effective_cutset [OF assms(2)] by (simp_all only: c_def)
  have len: "length ?s \<le> npos" "sv_len s \<le> npos"
    using assms(1) le_npos(1) [OF sv_len_le_kMaxSize] by simp_all
  have pos: "sv_find_first_not_of s c 0 = str_find_first_not_of ?s (sv_str c) 0"
    using sv_find_first_not_of_spec [OF assms(1) c(1)] by simp
  show thesis
  proof (cases "set ?s \<subseteq> ?C")
    case True
    then have "dropWhile (\<lambda>x. x \<in> set (sv_str c)) ?s = []"
      using c(2) by (auto simp: dropWhile_eq_Nil_conv)
    then have "sv_find_first_not_of s c 0 = npos"
      using pos len str_find_first_not_of_eq [of 0 ?s "sv_str c"] by simp
    then have "StrTrimLeft s cutset = Inr s"
      by (simp add: StrTrimLeft_def c_def [symmetric])
    then show ?thesis using that assms(1) True by (simp add: trim_left_def)
  next
    case False
    let ?n = "length (takeWhile (\<lambda>x. x \<in> ?C) ?s)"
    have "dropWhile (\<lambda>x. x \<in> ?C) ?s \<noteq> []" using False by (auto simp: dropWhile_eq_Nil_conv)
    then have n: "sv_find_first_not_of s c 0 = ?n" "?n \<noteq> length ?s"
      using pos len str_find_first_not_of_eq [of 0 ?s "sv_str c"] c(2)
      by (auto, metis append_eq_conv_conj dropWhile_eq_drop drop_all order_refl)
    have "?n < length ?s" using n(2) length_takeWhile_le [of "\<lambda>x. x \<in> ?C" ?s] by linarith
    then have "?n \<le> sv_len s" "?n \<noteq> npos" using assms(1) len by auto
    then obtain u where "sv_substr s ?n npos = Inr u" "sv_ok u" "sv_str u = take npos (drop ?n ?s)"
      by (metis sv_substr_Inr assms(1))
    moreover have "take npos (drop ?n ?s) = dropWhile (\<lambda>x. x \<in> ?C) ?s"
      using len by (simp add: dropWhile_eq_drop)
    moreover have "StrTrimLeft s cutset = sv_substr s ?n npos"
      using n(1) \<open>?n \<noteq> npos\<close> by (simp add: StrTrimLeft_def c_def [symmetric])
    ultimately show ?thesis using that False by (simp add: trim_left_def)
  qed
qed

lemma StrTrimRight_eq:
  assumes "sv_ok s" "sv_ok cutset"
  obtains u where "StrTrimRight s cutset = Inr u" "sv_ok u"
    "sv_str u = trim_right (trim_set cutset) (sv_str s)"
proof -
  let ?C = "trim_set cutset" and ?s = "sv_str s"
  define c where "c = (if sv_empty cutset then sv_of_string kSpaceChars else cutset)"
  have c: "sv_ok c" "set (sv_str c) = ?C"
    using effective_cutset [OF assms(2)] by (simp_all only: c_def)
  have len: "length ?s \<le> npos" "min (Suc npos) (sv_len s) = length ?s"
    using assms(1) le_npos(1) [OF sv_len_le_kMaxSize, of s] by simp_all
  define pos where "pos = sv_find_last_not_of s c npos"
  have "last_pos (\<lambda>i. ?s ! i \<notin> ?C) (length ?s) pos"
    using sv_find_last_not_of_spec [OF assms(1) c(1), of npos] c(2) len(2) by (simp add: pos_def)
  then have cases: "pos = npos \<and> (\<forall>x \<in> set ?s. x \<in> ?C) \<or>
      pos < length ?s \<and> pos \<noteq> npos \<and> take (Suc pos) ?s = rev (dropWhile (\<lambda>x. x \<in> ?C) (rev ?s))
        \<and> ?s ! pos \<notin> ?C"
    using last_pos_dropWhile [of "\<lambda>x. x \<notin> ?C" ?s pos] len(1) not_npos
    by (auto simp: last_pos_def)
  have eq: "StrTrimRight s cutset = (if pos = npos then Inr s else sv_substr s 0 (pos + 1))"
    by (simp add: StrTrimRight_def c_def [symmetric] pos_def)
  show thesis
  proof (cases "pos = npos")
    case True
    then have "set ?s \<subseteq> ?C" using cases by auto
    then show ?thesis using that eq True assms(1) by (simp add: trim_right_def)
  next
    case False
    then have "\<not> set ?s \<subseteq> ?C" using cases by (meson nth_mem subsetD)
    moreover obtain u where "sv_substr s 0 (pos + 1) = Inr u" "sv_ok u"
        "sv_str u = take (pos + 1) (drop 0 ?s)"
      by (rule sv_substr_Inr [OF assms(1), of 0 "pos + 1"]) auto
    ultimately show ?thesis using that eq False cases by (simp add: trim_right_def)
  qed
qed

lemma StrTrim_eq:
  assumes "sv_ok s" "sv_ok cutset"
  obtains u where "StrTrim s cutset = Inr u" "sv_ok u"
    "sv_str u = trim_right (trim_set cutset) (trim_left (trim_set cutset) (sv_str s))"
proof -
  obtain l where "StrTrimLeft s cutset = Inr l" "sv_ok l"
      "sv_str l = trim_left (trim_set cutset) (sv_str s)"
    by (rule StrTrimLeft_eq [OF assms])
  moreover obtain u where "StrTrimRight l cutset = Inr u" "sv_ok u"
      "sv_str u = trim_right (trim_set cutset) (sv_str l)"
    by (rule StrTrimRight_eq [OF \<open>sv_ok l\<close> assms(2)])
  ultimately show thesis using that by (simp add: StrTrim_def)
qed

lemma trim_both:
  assumes "\<not> set s \<subseteq> C"
  defines "u \<equiv> trim_right C (trim_left C s)"
  shows "u \<noteq> [] \<and> hd u \<notin> C \<and> last u \<notin> C \<and> (\<exists>a b. s = a @ u @ b \<and> set a \<union> set b \<subseteq> C)"
proof -
  let ?Q = "\<lambda>x. x \<in> C" and ?l = "dropWhile (\<lambda>x. x \<in> C) s"
  have ne: "?l \<noteq> []" using assms(1) by (metis dropWhile_eq_Nil_conv subsetI)
  have hd: "hd ?l \<notin> C" using hd_dropWhile [OF ne] .
  then have nsub: "\<not> set ?l \<subseteq> C" using ne by (meson hd_in_set subsetD)
  let ?r = "dropWhile ?Q (rev ?l)"
  have u: "u = rev ?r" using assms(1) nsub by (simp add: u_def trim_left_def trim_right_def)
  have rne: "?r \<noteq> []" using nsub by (metis dropWhile_eq_Nil_conv set_rev subsetI)
  have l: "?l = u @ rev (takeWhile ?Q (rev ?l))"
    unfolding u by (metis rev_append rev_rev_ident takeWhile_dropWhile_id)
  have "s = takeWhile ?Q s @ u @ rev (takeWhile ?Q (rev ?l))"
    using l by (metis takeWhile_dropWhile_id)
  moreover have "set (takeWhile ?Q s) \<subseteq> C" "set (rev (takeWhile ?Q (rev ?l))) \<subseteq> C"
    using set_takeWhileD by (metis subsetI, metis set_rev subsetI)
  moreover have "u \<noteq> []" using rne u by simp
  moreover have "last u \<notin> C" using hd_dropWhile [OF rne] u by (simp add: last_rev)
  moreover have "hd u \<notin> C" using hd l \<open>u \<noteq> []\<close> by (metis hd_append2)
  ultimately show ?thesis by blast
qed

section \<open>Fields\<close>

text \<open>The maximal runs of characters that are not blanks.\<close>

function blank_words :: "string \<Rightarrow> string list" where
  "blank_words s =
     (case dropWhile (\<lambda>x. x \<in> set kSpaceChars) s of
        [] \<Rightarrow> []
      | c # cs \<Rightarrow> (c # takeWhile (\<lambda>x. x \<notin> set kSpaceChars) cs)
                   # blank_words (dropWhile (\<lambda>x. x \<notin> set kSpaceChars) cs))"
  by pat_completeness auto
termination
proof (relation "measure length")
  fix s :: string and c cs
  assume "dropWhile (\<lambda>x. x \<in> set kSpaceChars) s = c # cs"
  then have "length cs < length s" by (metis Suc_le_eq length_Cons length_dropWhile_le)
  then show "(dropWhile (\<lambda>x. x \<notin> set kSpaceChars) cs, s) \<in> measure length"
    using length_dropWhile_le [of "\<lambda>x. x \<notin> set kSpaceChars" cs] by simp
qed simp

declare blank_words.simps [simp del]

lemma blank_words_Nil [simp]: "blank_words [] = []"
  by (simp add: blank_words.simps)

lemma blank_words_skip: "blank_words (dropWhile (\<lambda>x. x \<in> set kSpaceChars) s) = blank_words s"
  by (simp only: blank_words.simps [of s]
      blank_words.simps [of "dropWhile (\<lambda>x. x \<in> set kSpaceChars) s"] dropWhile_idem)

lemma blank_words_run:
  assumes "t \<noteq> []" "hd t \<notin> set kSpaceChars"
  shows "blank_words t = takeWhile (\<lambda>x. x \<notin> set kSpaceChars) t
    # blank_words (dropWhile (\<lambda>x. x \<notin> set kSpaceChars) t)"
proof -
  obtain c cs where t: "t = c # cs" "c \<notin> set kSpaceChars" using assms by (cases t) auto
  then show ?thesis by (simp add: blank_words.simps [of "c # cs"])
qed

lemma StrFields_stop:
  assumes "length s \<le> npos"
    and "start = npos \<or> start < length s \<and> dropWhile (\<lambda>x. x \<notin> set kSpaceChars) (drop start s) = []"
  shows "StrFields_loop s start cells = Inr (start, cells)"
proof -
  have "str_find_first_of s kSpaceChars start = npos"
    using assms unfolding dropWhile_eq_Nil_conv all_drop_nth str_find_first_of_def
    by (intro scan_up_none) auto
  then show ?thesis by (subst StrFields_loop.simps) simp
qed

lemma StrFields_next:
  fixes s start
  defines "P \<equiv> \<lambda>x. x \<notin> set kSpaceChars" and "t \<equiv> drop start s"
  assumes len: "length s \<le> npos" and start: "start < length s" "P (s ! start)"
    and ne: "dropWhile P t \<noteq> []"
  obtains n where "StrFields_loop s start cells = StrFields_loop s n (cells @ [takeWhile P t])"
    "drop n s = dropWhile (\<lambda>x. x \<in> set kSpaceChars) (dropWhile P t)"
    "n = npos \<or> n < length s \<and> P (s ! n)"
proof -
  let ?a = "takeWhile P t" and ?b = "dropWhile P t"
  let ?e = "str_find_first_of s kSpaceChars start"
  let ?n = "str_find_first_not_of s kSpaceChars ?e"
  let ?c = "dropWhile (\<lambda>x. x \<in> set kSpaceChars) ?b"
  have e: "?e = start + length ?a"
    using ne start(1) len str_find_first_of_eq [of start s kSpaceChars] by (auto simp: P_def t_def)
  have "length ?a < length t" using ne by (metis dropWhile_eq_drop drop_all not_le)
  then have lt: "?e < length s" "?e < npos" using e len start(1) by (simp_all add: t_def)
  have a: "?a \<noteq> []" using start by (cases t) (auto simp: hd_drop_conv_nth [symmetric] t_def)
  have b: "drop ?e s = ?b" by (metis add.commute drop_drop dropWhile_eq_drop e t_def)
  have n: "?n = (if ?c = [] then npos else ?e + length (takeWhile (\<lambda>x. x \<in> set kSpaceChars) ?b))"
    using str_find_first_not_of_eq [of ?e s kSpaceChars] lt(1) len b by simp
  have dn: "drop ?n s = ?c"
  proof (cases "?c = []")
    case True
    then show ?thesis using n len by (simp only: if_True) simp
  next
    case False
    then have "drop ?n s = drop (length (takeWhile (\<lambda>x. x \<in> set kSpaceChars) ?b)) (drop ?e s)"
      using n by (simp only: if_False drop_drop add.commute)
    then show ?thesis by (simp only: b dropWhile_eq_drop)
  qed
  have "?c \<noteq> [] \<Longrightarrow> ?n < length s \<and> P (s ! ?n)"
    using dn hd_dropWhile [of "\<lambda>x. x \<in> set kSpaceChars" ?b]
    by (metis P_def drop_eq_Nil hd_drop_conv_nth not_le)
  then have pre: "?n = npos \<or> ?n < length s \<and> P (s ! ?n)"
    using n by (cases "?c = []") (simp_all only: if_True if_False simp_thms)
  have cell: "str_substr s start (?e - start) = Inr ?a"
    using start(1) e by (simp add: takeWhile_eq_take [symmetric] t_def)
  have "StrFields_loop s start cells = StrFields_loop s ?n (cells @ [?a])"
    using lt(2) cell a by (subst StrFields_loop.simps) (simp only: Let_def if_True sum.case simp_thms)
  then show thesis using that dn pre by blast
qed

lemma StrFields_loop_eq:
  assumes "length s \<le> npos"
    and "start = npos \<or> start < length s \<and> s ! start \<notin> set kSpaceChars"
  shows "\<exists>st cells'. StrFields_loop s start cells = Inr (st, cells') \<and>
    cells' @ (if st < length s then [drop st s] else []) = cells @ blank_words (drop start s) \<and>
    (st < length s \<longrightarrow> set (drop st s) \<inter> set kSpaceChars = {})"
  using assms
proof (induction "length s - start" arbitrary: start cells rule: less_induct)
  case less
  let ?P = "\<lambda>x. x \<notin> set kSpaceChars" and ?t = "drop start s"
  consider (stop) "start = npos"
    | (last) "start < length s" "?P (s ! start)" "dropWhile ?P ?t = []"
    | (more) "start < length s" "?P (s ! start)" "dropWhile ?P ?t \<noteq> []"
    using less(3) by blast
  then show ?case
  proof cases
    case stop
    then show ?thesis using StrFields_stop [of s start cells] less(2) by simp
  next
    case last
    then have all: "\<forall>x \<in> set ?t. x \<notin> set kSpaceChars" by (simp only: dropWhile_eq_Nil_conv)
    then have "takeWhile ?P ?t = ?t" by (simp only: takeWhile_eq_all_conv)
    then have "blank_words ?t = [?t]"
      using blank_words_run [of ?t] last by (simp add: hd_drop_conv_nth)
    then show ?thesis using StrFields_stop [of s start cells] less(2) last all by auto
  next
    case more
    then obtain n where n: "StrFields_loop s start cells = StrFields_loop s n (cells @ [takeWhile ?P ?t])"
      "drop n s = dropWhile (\<lambda>x. x \<in> set kSpaceChars) (dropWhile ?P ?t)"
      "n = npos \<or> n < length s \<and> ?P (s ! n)"
      using StrFields_next less(2) by blast
    have bw: "blank_words ?t = takeWhile ?P ?t # blank_words (drop n s)"
      using blank_words_run [of ?t] more n(2) blank_words_skip by (simp add: hd_drop_conv_nth)
    have "length (drop n s) \<le> length (dropWhile ?P ?t)"
      using n(2) length_dropWhile_le by metis
    moreover have "length (dropWhile ?P ?t) < length ?t"
      using more by (cases ?t) (auto simp: hd_drop_conv_nth [symmetric] less_Suc_eq_le length_dropWhile_le)
    ultimately have "length s - n < length s - start" by simp
    then show ?thesis
      using less(1) [of n "cells @ [takeWhile ?P ?t]"] less(2) n(1,3) bw by simp
  qed
qed

lemma dropWhile_none: "(\<And>x. x \<in> set xs \<Longrightarrow> \<not> Q x) \<Longrightarrow> dropWhile Q xs = xs"
  by (cases xs) auto

lemma StrTrimRight_word:
  assumes "length w < kMaxSize" "set w \<inter> set kSpaceChars = {}"
  shows "\<exists>u. StrTrimRight (sv_of_string w) (sv_of_string kSpaceChars) = Inr u \<and> sv_to_basic_string u = w"
proof -
  have ok: "sv_ok (sv_of_string w)" "sv_ok (sv_of_string kSpaceChars)" using assms(1) by (simp_all add: kMaxSize_def)
  obtain u where u: "StrTrimRight (sv_of_string w) (sv_of_string kSpaceChars) = Inr u"
    "sv_str u = trim_right (trim_set (sv_of_string kSpaceChars)) w"
    using StrTrimRight_eq [OF ok] assms(1) by auto
  have "dropWhile (\<lambda>x. x \<in> set kSpaceChars) (rev w) = rev w"
    using assms(2) by (intro dropWhile_none) auto
  then have "sv_str u = w" using u(2) by (simp add: trim_right_def trim_set_def sv_empty_def)
  then show ?thesis
    using u(1) by (cases "sv_ptr u") (auto simp: sv_to_basic_string_def sv_str_def sv_size_def ptr_bytes_def)
qed

lemma StrFields_eq:
  assumes "length s \<le> kMaxSize - 1"
  shows "StrFields s = Inr (blank_words s)"
proof -
  let ?Q = "\<lambda>x. x \<in> set kSpaceChars"
  have len: "length s \<le> npos" "length s < kMaxSize"
    using assms npos_gt_kMaxSize by (auto simp: kMaxSize_def npos_def)
  let ?st = "str_find_first_not_of s kSpaceChars 0"
  have st: "?st = (if dropWhile ?Q s = [] then npos else length (takeWhile ?Q s))"
    using str_find_first_not_of_eq [of 0 s kSpaceChars] len(1) by simp
  show ?thesis
  proof (cases "dropWhile ?Q s = []")
    case True
    then have "blank_words s = []" by (metis blank_words_Nil blank_words_skip)
    then show ?thesis using st True by (simp add: StrFields_def)
  next
    case False
    have dr: "drop ?st s = dropWhile ?Q s" using st False by (simp add: dropWhile_eq_drop)
    then have lt: "?st < length s" using False by (metis drop_all not_le)
    then have "s ! ?st \<notin> set kSpaceChars"
      using dr False hd_dropWhile [of ?Q s] by (metis hd_drop_conv_nth)
    then obtain st' cells' where l: "StrFields_loop s ?st [] = Inr (st', cells')"
      "cells' @ (if st' < length s then [drop st' s] else []) = blank_words s"
      "st' < length s \<longrightarrow> set (drop st' s) \<inter> set kSpaceChars = {}"
      using StrFields_loop_eq [OF len(1), of ?st "[]"] lt dr blank_words_skip [of s] by auto
    have "\<exists>u. StrTrimRight (sv_of_string (drop st' s)) (sv_of_string kSpaceChars) = Inr u \<and>
        sv_to_basic_string u = drop st' s" if "st' < length s"
      using StrTrimRight_word [of "drop st' s"] l(3) that len(2) by simp
    moreover have "take npos (drop st' s) = drop st' s" using len(1) by simp
    ultimately show ?thesis
      using l lt len not_npos [OF lt len(1)] by (auto simp: StrFields_def Let_def)
  qed
qed

section \<open>Replacement\<close>

text \<open>Replace every occurrence, left to right, without looking at the text already put in.\<close>

function replace_all :: "string \<Rightarrow> string \<Rightarrow> string \<Rightarrow> string" where
  "replace_all f t s =
     (if f = [] \<or> s = [] then s
      else if take (length f) s = f then t @ replace_all f t (drop (length f) s)
      else hd s # replace_all f t (tl s))"
  by pat_completeness auto
termination
  by (relation "measure (\<lambda>(f, t, s). length s)") auto

declare replace_all.simps [simp del]

lemma replace_all_none: "(\<And>i. \<not> str_match_at s f i) \<Longrightarrow> replace_all f t s = s"
proof (induction s)
  case Nil
  then show ?case by (simp add: replace_all.simps)
next
  case (Cons c s)
  have "\<not> str_match_at s f i" for i
    using Cons(2) [of "Suc i"] by (simp add: str_match_at_def)
  moreover have "take (length f) (c # s) \<noteq> f"
    using Cons(2) [of 0] by (metis add_0 drop0 length_take min.absorb_iff2 min.commute str_match_at_def min_def)
  ultimately show ?case using Cons(1) by (subst replace_all.simps) simp
qed

lemma replace_all_skip:
  assumes "f \<noteq> []" "\<And>i. i < length p \<Longrightarrow> \<not> str_match_at (p @ f @ r) f i"
  shows "replace_all f t (p @ f @ r) = p @ t @ replace_all f t r"
  using assms(2)
proof (induction p)
  case Nil
  then show ?case using assms(1) by (subst replace_all.simps) simp
next
  case (Cons c p)
  have "\<not> str_match_at (p @ f @ r) f i" if "i < length p" for i
    using Cons(2) [of "Suc i"] that by (simp add: str_match_at_def)
  moreover have "take (length f) (c # p @ f @ r) \<noteq> f"
    using Cons(2) [of 0] by (simp add: str_match_at_def)
  ultimately show ?case using Cons(1) assms(1) by (subst replace_all.simps) simp
qed

lemma str_match_at_append: "length a \<le> i \<Longrightarrow> str_match_at (a @ r) f i = str_match_at r f (i - length a)"
  by (auto simp: str_match_at_def)

lemma str_match_atD:
  assumes "str_match_at s f i"
  shows "s = take i s @ f @ drop (i + length f) s" "i + length f \<le> length s"
  using assms by (simp_all add: str_match_at_def)
    (metis add.commute append_take_drop_id drop_drop)

text \<open>
  The bound on the text keeps every intermediate string below \<open>max_size\<close>: a replacement trades at
  least one character of the rest for \<open>length to\<close> new ones.
\<close>

lemma replace_bound:
  assumes "f \<noteq> []" "r = p @ f @ r'"
  shows "length (a @ p @ to) + length r' * (1 + length to) \<le> length a + length r * (1 + length to)"
proof -
  have "1 \<le> length f" using assms(1) by (cases f) auto
  then have "length to + length r' * (1 + length to) \<le> (length f + length r') * (1 + length to)"
    using mult_le_mono1 [of 1 "length f" "1 + length to"] by (simp add: algebra_simps)
  then show ?thesis using assms(2) by (simp add: algebra_simps)
qed

lemma StrReplace_loop_eq:
  assumes "f \<noteq> []" "length a + length r * (1 + length to) \<le> kMaxSize"
  shows "StrReplace_loop (a @ r) f to (length a) = Some (a @ replace_all f to r)"
  using assms(2)
proof (induction "length r" arbitrary: a r rule: less_induct)
  case less
  let ?i = "str_find (a @ r) f (length a)"
  have "length r \<le> length r * (1 + length to)" by simp
  then have max: "Suc (length (a @ r)) \<le> npos" using less(2) le_npos(2) by (simp add: le_trans)
  have "first_pos (str_match_at (a @ r) f) (length a) (Suc (length (a @ r))) ?i"
    by (rule str_find_spec)
  then show ?case using max
  proof (cases rule: first_posE)
    case 1
    then have "\<not> str_match_at r f i" for i
      using str_match_at_append [of a "length a + i" r f] str_match_atD(2) [of "a @ r" f "length a + i"]
      by auto
    then show ?thesis
      using 1(1) replace_all_none [of r f to] by (subst StrReplace_loop.simps) (simp add: Let_def)
  next
    case 2
    define p where "p = take (?i - length a) r"
    define r' where "r' = drop (?i - length a + length f) r"
    have m: "str_match_at r f (?i - length a)" using 2(2,4) str_match_at_append by blast
    have r: "r = p @ f @ r'" using str_match_atD(1) [OF m] by (simp add: p_def r'_def)
    have p: "length p = ?i - length a" using str_match_atD(2) [OF m] by (simp add: p_def)
    have "\<not> str_match_at r f i" if "i < length p" for i
      using 2(5) [of "length a + i"] that p str_match_at_append [of a "length a + i" r f] by simp
    then have ra: "replace_all f to r = p @ to @ replace_all f to r'"
      using replace_all_skip [OF assms(1)] r by metis
    have i: "?i = length a + length p" using p 2(2) by simp
    have str: "str_replace_at (a @ r) ?i (length f) to = (a @ p @ to) @ r'"
      unfolding i using r by (simp add: str_replace_at_def)
    have step: "StrReplace_loop (a @ r) f to (length a) =
        StrReplace_loop ((a @ p @ to) @ r') f to (length (a @ p @ to))"
      using 2(1) str i by (subst StrReplace_loop.simps) (simp add: Let_def add.assoc)
    have "StrReplace_loop ((a @ p @ to) @ r') f to (length (a @ p @ to)) =
        Some ((a @ p @ to) @ replace_all f to r')"
      using less(1) [of r' "a @ p @ to"] less(2) r replace_bound [OF assms(1) r, of a to] assms(1) by simp
    then show ?thesis using step ra by simp
  qed
qed

lemma StrReplace_loop_empty: "StrReplace_loop s [] to pos = Some y \<Longrightarrow> pos \<le> length s \<Longrightarrow>
    length s < npos \<Longrightarrow> to = [] \<Longrightarrow> False"
proof (induction s "[] :: string" to pos y rule: StrReplace_loop.raw_induct [rotated, consumes 1])
  case (1 lp s to pos y)
  have "str_find s [] pos = pos"
    using 1(3) by (simp add: str_find_def scan_up_hit str_match_at_def)
  then show ?case using 1 by (auto simp: str_replace_at_def)
qed

section \<open>Matching\<close>

lemma memcasecmp_from_0:
  "memcasecmp_from a b len i = 0 \<longleftrightarrow> (\<forall>j. i \<le> j \<and> j < len \<longrightarrow> c_tolower (a ! j) = c_tolower (b ! j))"
proof (induction a b len i rule: memcasecmp_from.induct)
  case (1 a b len i)
  show ?case
  proof (cases "i < len")
    case True
    have "(of_char (c_tolower (a ! i)) - of_char (c_tolower (b ! i)) :: int) = 0 \<longleftrightarrow>
        c_tolower (a ! i) = c_tolower (b ! i)" by simp
    moreover have "(\<forall>j. i \<le> j \<and> j < len \<longrightarrow> Q j) \<longleftrightarrow> Q i \<and> (\<forall>j. Suc i \<le> j \<and> j < len \<longrightarrow> Q j)" for Q
      using True by (metis Suc_leD Suc_leI le_neq_implies_less order_refl)
    ultimately show ?thesis
      using True 1 by (subst memcasecmp_from.simps) (simp add: Let_def)
  next
    case False
    then show ?thesis by (subst memcasecmp_from.simps) auto
  qed
qed

lemma memcasecmp_0: "length a = length b \<Longrightarrow>
    memcasecmp a b (length b) = 0 \<longleftrightarrow> map c_tolower a = map c_tolower b"
  by (auto simp: memcasecmp_def memcasecmp_from_0 list_eq_iff_nth_eq)

lemma EqualsIgnoreCase_eq:
  assumes "sv_ok a" "sv_ok b"
  shows "EqualsIgnoreCase a b \<longleftrightarrow> map c_tolower (sv_str a) = map c_tolower (sv_str b)"
proof (cases "sv_len a = sv_len b")
  case True
  then have "ptr_bytes (sv_ptr a) (sv_size a) = sv_str a" "ptr_bytes (sv_ptr b) (sv_size a) = sv_str b"
    by (simp_all add: sv_str_def sv_size_def)
  then show ?thesis
    using True assms memcasecmp_0 [of "sv_str a" "sv_str b"]
    by (auto simp: EqualsIgnoreCase_def sv_size_def)
next
  case False
  then have "length (sv_str a) \<noteq> length (sv_str b)" using assms by simp
  then show ?thesis
    using False by (metis EqualsIgnoreCase_def length_map sv_size_def)
qed

lemma StartsWith_eq:
  assumes "sv_ok t" "sv_ok p"
  shows "StartsWith t p \<longleftrightarrow> prefix (sv_str p) (sv_str t)"
proof -
  have "ptr_bytes (sv_ptr t) (sv_len p) = take (sv_len p) (sv_str t)" if "sv_len p \<le> sv_len t"
    using ptr_bytes_prefix [OF assms(1) that] .
  moreover have "ptr_bytes (sv_ptr p) (sv_len p) = sv_str p" by (simp add: sv_str_def)
  moreover have "prefix (sv_str p) (sv_str t) \<longleftrightarrow>
      sv_len p \<le> sv_len t \<and> take (sv_len p) (sv_str t) = sv_str p"
    using assms by (metis length_sv_str prefix_def prefix_length_le append_eq_conv_conj take_is_prefix)
  ultimately show ?thesis
    using assms by (auto simp: StartsWith_def sv_size_def sv_empty_def)
qed

lemma EndsWith_eq:
  assumes "sv_ok t" "sv_ok p"
  shows "EndsWith t p \<longleftrightarrow> suffix (sv_str p) (sv_str t)"
proof -
  have "ptr_bytes (ptr_add (sv_ptr t) (sv_len t - sv_len p)) (sv_len p) =
      drop (sv_len t - sv_len p) (sv_str t)" if "sv_len p \<le> sv_len t"
    using ptr_bytes_sub [OF assms(1), of "sv_len t - sv_len p" "sv_len p"] that assms(1) by simp
  moreover have "ptr_bytes (sv_ptr p) (sv_len p) = sv_str p" by (simp add: sv_str_def)
  moreover have "suffix (sv_str p) (sv_str t) \<longleftrightarrow>
      sv_len p \<le> sv_len t \<and> drop (sv_len t - sv_len p) (sv_str t) = sv_str p"
    using assms by (metis length_sv_str suffix_length_le suffix_take append_eq_conv_conj suffix_drop suffix_def
        append_take_drop_id length_append diff_add_inverse2)
  ultimately show ?thesis
    using assms by (auto simp: EndsWith_def sv_size_def sv_empty_def)
qed

lemma StrContains_eq:
  assumes "sv_ok t" "sv_ok p"
  shows "StrContains t p \<longleftrightarrow> sublist (sv_str p) (sv_str t)"
proof -
  have max: "Suc (length (sv_str t)) \<le> npos"
    using assms(1) le_npos(2) [OF sv_len_le_kMaxSize [OF assms(1)]] by simp
  have "StrContains t p \<longleftrightarrow> (\<exists>i. str_match_at (sv_str t) (sv_str p) i)"
  proof (cases rule: first_posE [OF str_find_spec [of "sv_str t" "sv_str p" 0] max])
    case 1
    then have "\<not> str_match_at (sv_str t) (sv_str p) i" for i
      using str_match_atD(2) [of "sv_str t" "sv_str p" i] by auto
    then show ?thesis using 1(1) assms by (simp add: StrContains_def sv_find_spec)
  next
    case 2
    then show ?thesis using assms by (auto simp: StrContains_def sv_find_spec)
  qed
  also have "\<dots> \<longleftrightarrow> sublist (sv_str p) (sv_str t)" by (simp add: sublist_match)
  finally show ?thesis .
qed

section \<open>Properties\<close>

text \<open>
  C27. \<open>StrSplit\<close> never throws on a valid view, an empty text gives no fields, and otherwise the
  fields contain no delimiter and joining them with the delimiter gives the text back; conversely
  splitting joined fields gives the fields.
\<close>

theorem StrSplit_roundtrip:
  assumes "sv_ok v"
  shows "\<exists>ws. StrSplit v d = Inr ws \<and> join d ws = sv_str v \<and> (\<forall>w \<in> set ws. d \<notin> set w) \<and>
    (ws = [] \<longleftrightarrow> sv_str v = []) \<and>
    (\<forall>vs. vs \<noteq> [] \<and> vs \<noteq> [[]] \<and> (\<forall>w \<in> set vs. d \<notin> set w) \<and> join d vs = sv_str v \<longrightarrow> vs = ws)"
proof -
  have "sv_str v \<noteq> []" if "vs \<noteq> []" "vs \<noteq> [[]]" "join d vs = sv_str v" for vs
    using that by (cases "(d, vs)" rule: join.cases) auto
  then show ?thesis
    using assms split_on_no_delim [of _ d "sv_str v"] join_split_on [of d "sv_str v"] split_on_join
    by (auto simp: StrSplit_eq; metis)
qed

theorem StrSplit_roundtrip_witness:
  "sv_ok (sv_of_string ''a,,b'') \<and> StrSplit (sv_of_string ''a,,b'') CHR '','' = Inr [''a'', [], ''b'']"
proof -
  have ok: "sv_ok (sv_of_string ''a,,b'')" by (simp add: kMaxSize_def)
  obtain ws where "StrSplit (sv_of_string ''a,,b'') CHR '','' = Inr ws"
    and ws: "\<forall>vs. vs \<noteq> [] \<and> vs \<noteq> [[]] \<and> (\<forall>w \<in> set vs. CHR '','' \<notin> set w) \<and>
      join CHR '','' vs = sv_str (sv_of_string ''a,,b'') \<longrightarrow> vs = ws"
    using StrSplit_roundtrip [OF ok, of "CHR '',''"] by blast
  moreover have "ws = [''a'', [], ''b'']"
    by (rule ws [rule_format, symmetric]) simp
  ultimately show ?thesis using ok by simp
qed

text \<open>
  What \<open>StrTrim\<close> returns: with at least one character outside the cut set, the text without
  the leading and trailing characters of the cut set; a text made only of characters of the cut set
  comes back unchanged, against the documentation, which says they are removed.
\<close>

theorem StrTrim_result:
  assumes "sv_ok s" "sv_ok cutset"
  shows "\<exists>u. StrTrim s cutset = Inr u \<and> sv_ok u \<and>
    (if set (sv_str s) \<subseteq> trim_set cutset then sv_str u = sv_str s
     else sv_str u \<noteq> [] \<and> hd (sv_str u) \<notin> trim_set cutset \<and> last (sv_str u) \<notin> trim_set cutset \<and>
       (\<exists>a b. sv_str s = a @ sv_str u @ b \<and> set a \<union> set b \<subseteq> trim_set cutset))"
proof -
  let ?C = "trim_set cutset" and ?s = "sv_str s"
  obtain u where u: "StrTrim s cutset = Inr u" "sv_ok u"
    "sv_str u = trim_right ?C (trim_left ?C ?s)"
    by (rule StrTrim_eq [OF assms])
  show ?thesis
  proof (cases "set ?s \<subseteq> ?C")
    case True
    then have "sv_str u = ?s" using u(3) by (simp add: trim_left_def trim_right_def)
    with True u(1,2) show ?thesis by auto
  next
    case False
    have "sv_str u \<noteq> [] \<and> hd (sv_str u) \<notin> ?C \<and> last (sv_str u) \<notin> ?C \<and>
       (\<exists>a b. ?s = a @ sv_str u @ b \<and> set a \<union> set b \<subseteq> ?C)"
      unfolding u(3) by (rule trim_both [OF False])
    with False u(1,2) show ?thesis by auto
  qed
qed

theorem StrTrim_result_witness:
  "sv_ok (sv_of_string '' x '') \<and> sv_ok sv_null \<and>
   (\<exists>u. StrTrim (sv_of_string '' x '') sv_null = Inr u \<and> sv_str u \<noteq> [])"
proof -
  have ok: "sv_ok (sv_of_string '' x '')" "sv_ok sv_null" by (simp_all add: kMaxSize_def)
  then show ?thesis
    using StrTrim_result [OF ok] by (auto split: if_splits)
qed

text \<open>\<open>StrFields\<close> never throws and returns the maximal runs of non-blank characters in order.\<close>

lemma StrFields_words:
  assumes "length s < kMaxSize"
  shows "StrFields s = Inr (blank_words s)"
  using StrFields_eq assms by simp

text \<open>
  C28. For a non-empty pattern the loop of \<open>StrReplace\<close> ends, and the string it leaves in its argument
  and returns is the text with every occurrence replaced from left to right. The bound keeps the
  intermediate strings below \<open>max_size\<close>.
\<close>

theorem StrReplace_replaces_all:
  assumes "frm \<noteq> []" "length str * (1 + length to) \<le> kMaxSize"
  shows "StrReplace str frm to = Some (replace_all frm to str, replace_all frm to str)"
  using StrReplace_loop_eq [OF assms(1), of "[]" str to] assms(2) by (simp add: StrReplace_def)

theorem StrReplace_replaces_all_witness:
  "''aa'' \<noteq> [] \<and> StrReplace ''aaab'' ''aa'' ''x'' = Some (''xab'', ''xab'')"
proof -
  have "replace_all ''aa'' ''x'' ''aaab'' = ''xab''" by (simp add: replace_all.simps)
  then show ?thesis
    using StrReplace_replaces_all [of "''aa''" "''aaab''" "''x''"] by (simp add: kMaxSize_def)
qed

text \<open>C40. Replacing the empty pattern by the empty text never returns, whatever the text is.\<close>

theorem StrReplace_empty_pattern_diverges:
  assumes "length str \<le> kMaxSize"
  shows "StrReplace str [] [] = None"
  using StrReplace_loop_empty [of str "[]" 0] less_npos [OF assms]
  by (cases "StrReplace_loop str [] [] 0") (auto simp: StrReplace_def)

theorem StrReplace_empty_pattern_diverges_witness:
  "length ''ab'' \<le> kMaxSize \<and> StrReplace ''ab'' [] [] = None"
  using StrReplace_empty_pattern_diverges [of "''ab''"] by (simp add: kMaxSize_def)

text \<open>
  The matching functions: prefix, suffix and substring tests on the characters of the views, and
  equality of the lower-cased characters for the case-insensitive one.
\<close>

lemma matchers_correct:
  assumes "sv_ok t" "sv_ok p"
  shows "(StartsWith t p \<longleftrightarrow> prefix (sv_str p) (sv_str t)) \<and>
    (EndsWith t p \<longleftrightarrow> suffix (sv_str p) (sv_str t)) \<and>
    (StrContains t p \<longleftrightarrow> sublist (sv_str p) (sv_str t)) \<and>
    (EqualsIgnoreCase t p \<longleftrightarrow> map c_tolower (sv_str t) = map c_tolower (sv_str p))"
  using assms by (simp add: StartsWith_eq EndsWith_eq StrContains_eq EqualsIgnoreCase_eq)

end
