(* ===== verification/Base_Status.thy ===== *)
theory Base_Status
  imports Str_Util
begin

text \<open>
  \<^verbatim>\<open>cppboot/base/status.h\<close>, \<^verbatim>\<open>status.cc\<close> and the formatters of \<^verbatim>\<open>fmt.h\<close>. A status is a null
  pointer (success) or a heap array: four bytes of little-endian message length, the code, the
  message. The arrays are modelled byte by byte, with the \<open>uint32_t\<close> arithmetic of the allocation,
  so that the lemmas say for which messages the encoding is faithful.
\<close>

section \<open>Codes\<close>

text \<open>\<open>kOther\<close> stands for the values of the enumeration type that have no enumerator.\<close>

datatype StatusCode =
    kOk | kCancelled | kUnknown | kInvalidArgument | kDeadlineExceeded | kNotFound
  | kAlreadyExists | kPermissionDenied | kResourceExhausted | kFailedPrecondition | kAborted
  | kOutOfRange | kUnimplemented | kInternal | kUnavailable | kOther int

definition named_codes :: "StatusCode list" where
  "named_codes = [kOk, kCancelled, kUnknown, kInvalidArgument, kDeadlineExceeded, kNotFound,
     kAlreadyExists, kPermissionDenied, kResourceExhausted, kFailedPrecondition, kAborted,
     kOutOfRange, kUnimplemented, kInternal, kUnavailable]"

fun code_int :: "StatusCode \<Rightarrow> int" where
  "code_int kOk = 0"
| "code_int kCancelled = 1"
| "code_int kUnknown = 2"
| "code_int kInvalidArgument = 3"
| "code_int kDeadlineExceeded = 4"
| "code_int kNotFound = 5"
| "code_int kAlreadyExists = 6"
| "code_int kPermissionDenied = 7"
| "code_int kResourceExhausted = 8"
| "code_int kFailedPrecondition = 9"
| "code_int kAborted = 10"
| "code_int kOutOfRange = 11"
| "code_int kUnimplemented = 12"
| "code_int kInternal = 13"
| "code_int kUnavailable = 14"
| "code_int (kOther i) = i"

definition code_of_int :: "int \<Rightarrow> StatusCode" where
  "code_of_int i = (if 0 \<le> i \<and> i < 15 then named_codes ! nat i else kOther i)"

fun StatusCodeToString :: "StatusCode \<Rightarrow> string" where
  "StatusCodeToString kOk = ''OK''"
| "StatusCodeToString kCancelled = ''CANCELLED''"
| "StatusCodeToString kUnknown = ''UNKNOWN''"
| "StatusCodeToString kDeadlineExceeded = ''DEADLINE_EXCEEDED''"
| "StatusCodeToString kInvalidArgument = ''INVALID_ARGUMENT''"
| "StatusCodeToString kNotFound = ''NOT_FOUND''"
| "StatusCodeToString kAlreadyExists = ''ALREADY_EXISTS''"
| "StatusCodeToString kPermissionDenied = ''PERMISSION_DENIED''"
| "StatusCodeToString kResourceExhausted = ''RESOURCE_EXHAUSTED''"
| "StatusCodeToString kFailedPrecondition = ''FAILED_PRECONDITION''"
| "StatusCodeToString kAborted = ''ABORTED''"
| "StatusCodeToString kOutOfRange = ''OUT_OF_RANGE''"
| "StatusCodeToString kUnimplemented = ''UNIMPLEMENTED''"
| "StatusCodeToString kInternal = ''INTERNAL''"
| "StatusCodeToString kUnavailable = ''UNAVAILABLE''"
| "StatusCodeToString (kOther _) = ''''"

section \<open>The class\<close>

record Status =
  st_state :: "string option"

text \<open>\<open>memcpy\<close> from and to a \<open>uint32_t\<close> on a little-endian machine.\<close>

definition le32 :: "nat \<Rightarrow> string" where
  "le32 n = [char_of (n mod 256), char_of (n div 256 mod 256), char_of (n div 65536 mod 256),
             char_of (n div 16777216 mod 256)]"

definition le32_read :: "string \<Rightarrow> nat" where
  "le32_read b = of_char (b ! 0) + 256 * of_char (b ! 1) + 65536 * of_char (b ! 2)
     + 16777216 * of_char (b ! 3)"

definition code_char :: "StatusCode \<Rightarrow> char" where
  "code_char c = char_of (nat (code_int c mod 256))"

definition OkStatus :: Status where
  "OkStatus = \<lparr>st_state = None\<rparr>"

text \<open>
  \<open>size + 5\<close> is computed in \<open>uint32_t\<close>; when it wraps the array is too small for the copies that
  follow.
\<close>

definition Status_new :: "StatusCode \<Rightarrow> string_view \<Rightarrow> Status res" where
  "Status_new code msg =
     bindr (assertr (code \<noteq> kOk)) (\<lambda>_.
     let size = sv_size msg mod 2 ^ 32;
         cap = (size + 5) mod 2 ^ 32 in
     if cap < size + 5 then Inl UndefinedBehaviour
     else Inr \<lparr>st_state = Some (le32 size @ [code_char code] @ ptr_bytes (sv_ptr msg) size)\<rparr>)"

text \<open>
  The \<open>printf\<close> constructor. \<open>formatted\<close> is the text the format and its arguments stand for, \<open>None\<close>
  when \<open>vsnprintf\<close> reports an encoding error. The bytes behind the terminating NUL stay
  unspecified and are left out. When both attempts fail the constructor ends with \<open>state_\<close>
  uninitialised.
\<close>

fun Status_printf_loop :: "StatusCode \<Rightarrow> string option \<Rightarrow> nat \<Rightarrow> nat \<Rightarrow> Status res" where
  "Status_printf_loop code formatted sz 0 = Inl UndefinedBehaviour"
| "Status_printf_loop code formatted sz (Suc retries) =
     (case formatted of
        None \<Rightarrow> Status_printf_loop code formatted sz retries
      | Some s \<Rightarrow>
          if length s \<ge> sz then Status_printf_loop code formatted (length s + 1) retries
          else Inr \<lparr>st_state = Some (le32 (length s) @ [code_char code] @ s @ [NUL])\<rparr>)"

definition Status_printf :: "StatusCode \<Rightarrow> string option \<Rightarrow> Status res" where
  "Status_printf code formatted =
     bindr (assertr (code \<noteq> kOk)) (\<lambda>_. Status_printf_loop code formatted 100 2)"

definition CopyState :: "string \<Rightarrow> string" where
  "CopyState state = take (le32_read state + 5) state"

definition Status_copy :: "Status \<Rightarrow> Status" where
  "Status_copy rhs =
     \<lparr>st_state = (case st_state rhs of None \<Rightarrow> None | Some s \<Rightarrow> Some (CopyState s))\<rparr>"

text \<open>\<open>same\<close> is the pointer comparison \<open>state_ == rhs.state_\<close>.\<close>

definition Status_assign :: "bool \<Rightarrow> Status \<Rightarrow> Status \<Rightarrow> Status" where
  "Status_assign same this rhs =
     (if \<not> same
      then this\<lparr>st_state := (case st_state rhs of None \<Rightarrow> None | Some s \<Rightarrow> Some (CopyState s))\<rparr>
      else this)"

definition Status_move :: "Status \<Rightarrow> Status \<times> Status" where
  "Status_move rhs = (\<lparr>st_state = st_state rhs\<rparr>, rhs\<lparr>st_state := None\<rparr>)"

definition Status_move_assign :: "Status \<Rightarrow> Status \<Rightarrow> Status \<times> Status" where
  "Status_move_assign this rhs =
     (this\<lparr>st_state := st_state rhs\<rparr>, rhs\<lparr>st_state := st_state this\<rparr>)"

definition st_ok :: "Status \<Rightarrow> bool" where
  "st_ok s \<longleftrightarrow> st_state s = None"

definition Status_Update :: "bool \<Rightarrow> Status \<Rightarrow> Status \<Rightarrow> Status" where
  "Status_Update same this new_status =
     (if st_ok this then Status_assign same this new_status else this)"

definition Status_Update_move :: "Status \<Rightarrow> Status \<Rightarrow> Status \<times> Status" where
  "Status_Update_move this new_status =
     (if st_ok this then Status_move_assign this new_status else (this, new_status))"

definition st_code :: "Status \<Rightarrow> StatusCode" where
  "st_code s = (case st_state s of None \<Rightarrow> kOk | Some b \<Rightarrow> code_of_int (schar (b ! 4)))"

definition st_message :: "Status \<Rightarrow> string_view res" where
  "st_message s =
     (case st_state s of
        None \<Rightarrow> Inr sv_null
      | Some b \<Rightarrow>
          let len = le32_read b in
          if len > 0 then sv_of_ptr_len (Some (b, 5)) len else Inr sv_null)"

definition ToStringSlow :: "Status \<Rightarrow> string" where
  "ToStringSlow s =
     (let result = StatusCodeToString (st_code s) in
      case st_state s of
        None \<Rightarrow> result
      | Some b \<Rightarrow>
          let len = le32_read b in
          if len > 0 then result @ '': '' @ take len (drop 5 b) else result)"

definition st_ToString :: "Status \<Rightarrow> string" where
  "st_ToString s = (if st_ok s then ''OK'' else ToStringSlow s)"

text \<open>
  \<open>StatusMessageAsCStr\<close> hands out the message pointer. Reading it as a C string needs a NUL inside
  the array; without one the read runs off the end.
\<close>

definition StatusMessageAsCStr :: "Status \<Rightarrow> string res" where
  "StatusMessageAsCStr s =
     bindr (st_message s) (\<lambda>m.
       if sv_empty m then Inr ''''
       else case sv_ptr m of
              None \<Rightarrow> Inr ''''
            | Some (b, k) \<Rightarrow> if NUL \<in> set (drop k b) then Inr (c_str (drop k b))
                            else Inl UndefinedBehaviour)"

definition os_StatusCode :: "string \<Rightarrow> StatusCode \<Rightarrow> string" where
  "os_StatusCode os code = os @ StatusCodeToString code"

definition os_Status :: "string \<Rightarrow> Status \<Rightarrow> string" where
  "os_Status os x = os @ st_ToString x"

section \<open>Predicates and constructors by code\<close>

definition IsCancelled :: "Status \<Rightarrow> bool" where
  "IsCancelled status \<longleftrightarrow> st_code status = kCancelled"

definition IsUnknown :: "Status \<Rightarrow> bool" where
  "IsUnknown status \<longleftrightarrow> st_code status = kUnknown"

definition IsDeadlineExceeded :: "Status \<Rightarrow> bool" where
  "IsDeadlineExceeded status \<longleftrightarrow> st_code status = kDeadlineExceeded"

definition IsInvalidArgument :: "Status \<Rightarrow> bool" where
  "IsInvalidArgument status \<longleftrightarrow> st_code status = kInvalidArgument"

definition IsNotFound :: "Status \<Rightarrow> bool" where
  "IsNotFound status \<longleftrightarrow> st_code status = kNotFound"

definition IsAlreadyExists :: "Status \<Rightarrow> bool" where
  "IsAlreadyExists status \<longleftrightarrow> st_code status = kAlreadyExists"

definition IsPermissionDenied :: "Status \<Rightarrow> bool" where
  "IsPermissionDenied status \<longleftrightarrow> st_code status = kPermissionDenied"

definition IsResourceExhausted :: "Status \<Rightarrow> bool" where
  "IsResourceExhausted status \<longleftrightarrow> st_code status = kResourceExhausted"

definition IsFailedPrecondition :: "Status \<Rightarrow> bool" where
  "IsFailedPrecondition status \<longleftrightarrow> st_code status = kFailedPrecondition"

definition IsAborted :: "Status \<Rightarrow> bool" where
  "IsAborted status \<longleftrightarrow> st_code status = kAborted"

definition IsOutOfRange :: "Status \<Rightarrow> bool" where
  "IsOutOfRange status \<longleftrightarrow> st_code status = kOutOfRange"

definition IsUnimplemented :: "Status \<Rightarrow> bool" where
  "IsUnimplemented status \<longleftrightarrow> st_code status = kUnimplemented"

definition IsInternal :: "Status \<Rightarrow> bool" where
  "IsInternal status \<longleftrightarrow> st_code status = kInternal"

definition IsUnavailable :: "Status \<Rightarrow> bool" where
  "IsUnavailable status \<longleftrightarrow> st_code status = kUnavailable"

definition CancelledError :: "string_view \<Rightarrow> Status res" where
  "CancelledError message = Status_new kCancelled message"

definition UnknownError :: "string_view \<Rightarrow> Status res" where
  "UnknownError message = Status_new kUnknown message"

definition DeadlineExceededError :: "string_view \<Rightarrow> Status res" where
  "DeadlineExceededError message = Status_new kDeadlineExceeded message"

definition InvalidArgumentError :: "string_view \<Rightarrow> Status res" where
  "InvalidArgumentError message = Status_new kInvalidArgument message"

definition NotFoundError :: "string_view \<Rightarrow> Status res" where
  "NotFoundError message = Status_new kNotFound message"

definition AlreadyExistsError :: "string_view \<Rightarrow> Status res" where
  "AlreadyExistsError message = Status_new kAlreadyExists message"

definition PermissionDeniedError :: "string_view \<Rightarrow> Status res" where
  "PermissionDeniedError message = Status_new kPermissionDenied message"

definition ResourceExhaustedError :: "string_view \<Rightarrow> Status res" where
  "ResourceExhaustedError message = Status_new kResourceExhausted message"

definition FailedPreconditionError :: "string_view \<Rightarrow> Status res" where
  "FailedPreconditionError message = Status_new kFailedPrecondition message"

definition AbortedError :: "string_view \<Rightarrow> Status res" where
  "AbortedError message = Status_new kAborted message"

definition OutOfRangeError :: "string_view \<Rightarrow> Status res" where
  "OutOfRangeError message = Status_new kOutOfRange message"

definition UnimplementedError :: "string_view \<Rightarrow> Status res" where
  "UnimplementedError message = Status_new kUnimplemented message"

definition InternalError :: "string_view \<Rightarrow> Status res" where
  "InternalError message = Status_new kInternal message"

definition UnavailableError :: "string_view \<Rightarrow> Status res" where
  "UnavailableError message = Status_new kUnavailable message"

text \<open>Returning a status from an operation that also changes state.\<close>

definition ret_status :: "Status res \<Rightarrow> 's \<Rightarrow> (Status \<times> 's) res" where
  "ret_status st s = bindr st (\<lambda>st. Inr (st, s))"

lemmas error_constructors = CancelledError_def UnknownError_def DeadlineExceededError_def
  InvalidArgumentError_def NotFoundError_def AlreadyExistsError_def PermissionDeniedError_def
  ResourceExhaustedError_def FailedPreconditionError_def AbortedError_def OutOfRangeError_def
  UnimplementedError_def InternalError_def UnavailableError_def

section \<open>errno\<close>

text \<open>The numbers of \<^verbatim>\<open>errno.h\<close> on Linux, where every optional macro of the switch is defined.\<close>

definition errno_table :: "(string \<times> int) list" where
  "errno_table = [
     (''EPERM'', 1), (''ENOENT'', 2), (''ESRCH'', 3), (''EINTR'', 4), (''EIO'', 5), (''ENXIO'', 6),
     (''E2BIG'', 7), (''ENOEXEC'', 8), (''EBADF'', 9), (''ECHILD'', 10), (''EAGAIN'', 11),
     (''ENOMEM'', 12), (''EACCES'', 13), (''EFAULT'', 14), (''ENOTBLK'', 15), (''EBUSY'', 16),
     (''EEXIST'', 17), (''EXDEV'', 18), (''ENODEV'', 19), (''ENOTDIR'', 20), (''EISDIR'', 21),
     (''EINVAL'', 22), (''ENFILE'', 23), (''EMFILE'', 24), (''ENOTTY'', 25), (''ETXTBSY'', 26),
     (''EFBIG'', 27), (''ENOSPC'', 28), (''ESPIPE'', 29), (''EROFS'', 30), (''EMLINK'', 31),
     (''EPIPE'', 32), (''EDOM'', 33), (''ERANGE'', 34), (''EDEADLK'', 35), (''ENAMETOOLONG'', 36),
     (''ENOLCK'', 37), (''ENOSYS'', 38), (''ENOTEMPTY'', 39), (''ECHRNG'', 44), (''EUNATCH'', 49),
     (''ENOSTR'', 60), (''ENODATA'', 61), (''ETIME'', 62), (''ENOSR'', 63), (''ENONET'', 64),
     (''ENOPKG'', 65), (''ENOLINK'', 67), (''ECOMM'', 70), (''EOVERFLOW'', 75), (''ENOTUNIQ'', 76),
     (''EBADFD'', 77), (''EILSEQ'', 84), (''EUSERS'', 87), (''ENOTSOCK'', 88),
     (''EDESTADDRREQ'', 89), (''EPROTOTYPE'', 91), (''ENOPROTOOPT'', 92),
     (''EPROTONOSUPPORT'', 93), (''ESOCKTNOSUPPORT'', 94), (''ENOTSUP'', 95),
     (''EPFNOSUPPORT'', 96), (''EAFNOSUPPORT'', 97), (''EADDRINUSE'', 98),
     (''EADDRNOTAVAIL'', 99), (''ENETDOWN'', 100), (''ENETUNREACH'', 101), (''ENETRESET'', 102),
     (''ECONNABORTED'', 103), (''ECONNRESET'', 104), (''ENOBUFS'', 105), (''EISCONN'', 106),
     (''ENOTCONN'', 107), (''ESHUTDOWN'', 108), (''ETIMEDOUT'', 110), (''ECONNREFUSED'', 111),
     (''EHOSTDOWN'', 112), (''EHOSTUNREACH'', 113), (''EALREADY'', 114), (''ESTALE'', 116),
     (''EISNAM'', 120), (''EDQUOT'', 122), (''ENOMEDIUM'', 123), (''ECANCELED'', 125),
     (''ENOKEY'', 126)]"

text \<open>The cases of the switch, in its order, each group with the code it returns.\<close>

definition errno_cases :: "(string list \<times> StatusCode) list" where
  "errno_cases = [
     ([''EINVAL'', ''ENAMETOOLONG'', ''E2BIG'', ''EDESTADDRREQ'', ''EDOM'', ''EFAULT'', ''EILSEQ'',
       ''ENOPROTOOPT'', ''ENOSTR'', ''ENOTSOCK'', ''ENOTTY'', ''EPROTOTYPE'', ''ESPIPE''],
      kInvalidArgument),
     ([''ETIMEDOUT'', ''ETIME''], kDeadlineExceeded),
     ([''ENODEV'', ''ENOENT'', ''ENOMEDIUM'', ''ENXIO'', ''ESRCH''], kNotFound),
     ([''EEXIST'', ''EADDRNOTAVAIL'', ''EALREADY'', ''ENOTUNIQ''], kAlreadyExists),
     ([''EPERM'', ''EACCES'', ''ENOKEY'', ''EROFS''], kPermissionDenied),
     ([''ENOTEMPTY'', ''EISDIR'', ''ENOTDIR'', ''EADDRINUSE'', ''EBADF'', ''EBADFD'', ''EBUSY'',
       ''ECHILD'', ''EISCONN'', ''EISNAM'', ''ENOTBLK'', ''ENOTCONN'', ''EPIPE'', ''ESHUTDOWN'',
       ''ETXTBSY'', ''EUNATCH''], kFailedPrecondition),
     ([''ENOSPC'', ''EDQUOT'', ''EMFILE'', ''EMLINK'', ''ENFILE'', ''ENOBUFS'', ''ENODATA'',
       ''ENOMEM'', ''ENOSR'', ''EUSERS''], kResourceExhausted),
     ([''ECHRNG'', ''EFBIG'', ''EOVERFLOW'', ''ERANGE''], kOutOfRange),
     ([''ENOPKG'', ''ENOSYS'', ''ENOTSUP'', ''EAFNOSUPPORT'', ''EPFNOSUPPORT'',
       ''EPROTONOSUPPORT'', ''ESOCKTNOSUPPORT'', ''EXDEV''], kUnimplemented),
     ([''EAGAIN'', ''ECOMM'', ''ECONNREFUSED'', ''ECONNABORTED'', ''ECONNRESET'', ''EINTR'',
       ''EHOSTDOWN'', ''EHOSTUNREACH'', ''ENETDOWN'', ''ENETRESET'', ''ENETUNREACH'', ''ENOLCK'',
       ''ENOLINK'', ''ENONET''], kUnavailable),
     ([''EDEADLK'', ''ESTALE''], kAborted),
     ([''ECANCELED''], kCancelled)]"

definition errno_is :: "int \<Rightarrow> string \<Rightarrow> bool" where
  "errno_is n name \<longleftrightarrow> map_of errno_table name = Some n"

definition ErrnoToStatusCode :: "int \<Rightarrow> StatusCode" where
  "ErrnoToStatusCode error_number =
     (if error_number = 0 then kOk
      else case find (\<lambda>(names, _). list_ex (errno_is error_number) names) errno_cases of
             Some (_, code) \<Rightarrow> code
           | None \<Rightarrow> kUnknown)"

section \<open>Formatting\<close>

text \<open>
  \<open>fmt::format\<close> for the format strings the sources use: plain text with \<open>{}\<close> fields. A field
  without an argument throws \<open>format_error\<close>, a \<open>std::runtime_error\<close>; spare arguments are ignored.
\<close>

function fmt_format :: "string \<Rightarrow> string list \<Rightarrow> string res" where
  "fmt_format [] args = Inr []"
| "fmt_format (c # f) args =
     (if c = CHR ''{'' \<and> f \<noteq> [] \<and> hd f = CHR ''}''
      then (case args of
              [] \<Rightarrow> Inl RuntimeError
            | a # rest \<Rightarrow> bindr (fmt_format (tl f) rest) (\<lambda>r. Inr (a @ r)))
      else bindr (fmt_format f args) (\<lambda>r. Inr (c # r)))"
  by pat_completeness auto
termination
  by (relation "measure (\<lambda>(f, args). length f)") auto

text \<open>
  The formatter for \<open>string_view\<close> in \<^verbatim>\<open>fmt.h\<close> formats \<open>data()\<close> as a C string, cut to \<open>size()\<close>
  characters: it stops at a NUL, throws for a null pointer, and needs a NUL in the array.
\<close>

definition fmt_string_view :: "string_view \<Rightarrow> string res" where
  "fmt_string_view sv =
     (case sv_ptr sv of
        None \<Rightarrow> Inl RuntimeError
      | Some (b, k) \<Rightarrow>
          if NUL \<in> set (drop k b) then Inr (take (sv_size sv) (c_str (drop k b)))
          else Inl UndefinedBehaviour)"

definition fmt_Status :: "Status \<Rightarrow> string res" where
  "fmt_Status s = fmt_format ''{}'' [st_ToString s]"

definition MessageForErrnoToStatus :: "(int \<Rightarrow> string) \<Rightarrow> int \<Rightarrow> string_view \<Rightarrow> string res" where
  "MessageForErrnoToStatus strerror error_number message =
     bindr (fmt_string_view message) (\<lambda>m.
       fmt_format ''{}: {}'' [m, strerror error_number])"

definition ErrnoToStatus :: "(int \<Rightarrow> string) \<Rightarrow> int \<Rightarrow> string_view \<Rightarrow> Status res" where
  "ErrnoToStatus strerror error_number message =
     bindr (MessageForErrnoToStatus strerror error_number message) (\<lambda>m.
       Status_new (ErrnoToStatusCode error_number) (sv_of_string m))"

section \<open>The encoding is faithful\<close>

lemma le32_length [simp]: "length (le32 n) = 4"
  by (simp add: le32_def)

lemma le32_read_le32 [simp]:
  assumes "n < 2 ^ 32"
  shows "le32_read (le32 n @ b) = n"
proof -
  define a where "a = n div 256"
  define b where "b = a div 256"
  define c where "c = b div 256"
  have div: "n div 65536 = b" "n div 16777216 = c"
    by (simp_all add: a_def b_def c_def div_mult2_eq [symmetric])
  have "c < 256" using assms div(2) by (simp add: less_mult_imp_div_less div(2) [symmetric])
  then have cm: "c mod 256 = c" by simp
  have "256 * a + n mod 256 = n" "256 * b + a mod 256 = a" "256 * c + b mod 256 = b"
    by (simp_all add: a_def b_def c_def)
  then have "n mod 256 + 256 * (n div 256 mod 256) + 65536 * (n div 65536 mod 256)
      + 16777216 * (n div 16777216 mod 256) = n"
    unfolding div a_def [symmetric] cm by linarith
  moreover have "n div 16777216 mod 256 = n div 16777216" using cm div(2) by simp
  ultimately show ?thesis by (simp add: le32_read_def le32_def nth_append)
qed

lemma code_roundtrip:
  assumes "c \<in> set named_codes"
  shows "code_of_int (schar (code_char c)) = c"
proof -
  have "list_all (\<lambda>c. code_of_int (schar (code_char c)) = c) named_codes" by code_simp
  then show ?thesis using assms by (simp add: list_all_iff)
qed

text \<open>Well-formed statuses: the array holds the message it announces and the code is an error.\<close>

definition st_wf :: "Status \<Rightarrow> bool" where
  "st_wf s \<longleftrightarrow> (case st_state s of
     None \<Rightarrow> True
   | Some b \<Rightarrow> le32_read b + 5 \<le> length b \<and> length b < 2 ^ 33 \<and> code_of_int (schar (b ! 4)) \<noteq> kOk)"

definition st_msg :: "Status \<Rightarrow> string" where
  "st_msg s = (case st_state s of None \<Rightarrow> [] | Some b \<Rightarrow> take (le32_read b) (drop 5 b))"

lemma st_message_msg:
  assumes "st_wf s"
  obtains m where "st_message s = Inr m" "sv_ok m" "sv_str m = st_msg s"
proof (cases "st_state s")
  case None
  then show ?thesis using that [of sv_null] by (simp add: st_message_def st_msg_def)
next
  case (Some b)
  let ?n = "le32_read b"
  have n: "?n + 5 \<le> length b" "length b < 2 ^ 33" using assms Some by (auto simp: st_wf_def)
  show ?thesis
  proof (cases "?n = 0")
    case True
    then show ?thesis using that [of sv_null] Some by (simp add: st_message_def st_msg_def)
  next
    case False
    let ?m = "\<lparr>sv_ptr = Some (b, 5), sv_len = ?n\<rparr>"
    have "st_message s = Inr ?m"
      using Some False n
      by (simp add: st_message_def sv_of_ptr_len_def CheckLengthInternal_def kMaxSize_def)
    moreover have "sv_ok ?m" using n by (simp add: sv_ok_def kMaxSize_def)
    ultimately show ?thesis
      using that [of ?m] Some by (simp add: st_msg_def sv_str_def ptr_bytes_def)
  qed
qed

lemma st_ToString_eq:
  "st_wf s \<Longrightarrow> st_ToString s =
    (if st_ok s then ''OK''
     else StatusCodeToString (st_code s) @ (if st_msg s = [] then [] else '': '' @ st_msg s))"
  by (auto simp: st_ToString_def ToStringSlow_def st_ok_def st_msg_def st_wf_def Let_def
      split: option.splits)

lemma Status_new_ok:
  assumes "c \<in> set named_codes" "c \<noteq> kOk" "sv_ok msg" "sv_len msg + 5 < 2 ^ 32"
  obtains s where "Status_new c msg = Inr s" "\<not> st_ok s" "st_wf s" "st_code s = c"
    "st_msg s = sv_str msg"
proof -
  let ?b = "le32 (sv_len msg) @ [code_char c] @ sv_str msg"
  have read: "le32_read ?b = sv_len msg" using assms(4) by (intro le32_read_le32) simp
  have new: "Status_new c msg = Inr \<lparr>st_state = Some ?b\<rparr>"
    using assms by (simp add: Status_new_def sv_size_def ptr_bytes_prefix)
  have at4: "?b ! 4 = code_char c" by (simp add: nth_append)
  have "length ?b = sv_len msg + 5" using assms(3) by simp
  then have "st_wf \<lparr>st_state = Some ?b\<rparr>"
    using read at4 assms by (simp only: st_wf_def) (simp add: code_roundtrip)
  moreover have "st_msg \<lparr>st_state = Some ?b\<rparr> = sv_str msg"
    using read assms(3) by (simp add: st_msg_def)
  moreover have "st_code \<lparr>st_state = Some ?b\<rparr> = c"
    using at4 assms(1) code_roundtrip by (simp add: st_code_def)
  ultimately show thesis using that new by (simp add: st_ok_def)
qed

lemma Status_new_cases:
  assumes "c \<in> set named_codes" "c \<noteq> kOk" "length m + 5 < 2 ^ 32"
  shows "\<exists>st. Status_new c (sv_of_string m) = Inr st \<and> \<not> st_ok st \<and> st_code st = c"
  using Status_new_ok [of c "sv_of_string m"] assms by (auto simp: kMaxSize_def)

lemma named_codes_mem [simp]:
  "kInvalidArgument \<in> set named_codes" "kNotFound \<in> set named_codes" "kAlreadyExists \<in> set named_codes"
  "kCancelled \<in> set named_codes" "kUnknown \<in> set named_codes" "kInternal \<in> set named_codes"
  "kUnavailable \<in> set named_codes" "kFailedPrecondition \<in> set named_codes"
  by (simp_all add: named_codes_def)

lemma st_ok_OkStatus [simp]: "st_ok OkStatus" "st_code OkStatus = kOk"
  by (simp_all add: st_ok_def st_code_def OkStatus_def)

lemma Status_new_kOk: "Status_new kOk msg = Inl AssertFailed"
  by (simp add: Status_new_def)

lemma Status_printf_ok:
  assumes "c \<in> set named_codes" "c \<noteq> kOk" "length s < 2 ^ 31"
  obtains st where "Status_printf c (Some s) = Inr st" "\<not> st_ok st" "st_wf st" "st_code st = c"
    "st_msg st = s"
proof -
  let ?b = "le32 (length s) @ [code_char c] @ s @ [NUL]"
  have "length s < 2 ^ 32" using assms(3) by simp
  then have read: "le32_read ?b = length s" by (rule le32_read_le32)
  have at4: "?b ! 4 = code_char c" by (simp add: nth_append)
  have new: "Status_printf c (Some s) = Inr \<lparr>st_state = Some ?b\<rparr>"
    using assms(2) by (simp add: Status_printf_def numeral_2_eq_2)
  have "length ?b = length s + 6" by simp
  then have "st_wf \<lparr>st_state = Some ?b\<rparr>"
    using read at4 assms by (simp only: st_wf_def) (simp add: code_roundtrip)
  moreover have "st_msg \<lparr>st_state = Some ?b\<rparr> = s"
    using read by (simp add: st_msg_def)
  moreover have "st_code \<lparr>st_state = Some ?b\<rparr> = c"
    using at4 assms(1) code_roundtrip by (simp add: st_code_def)
  ultimately show thesis using that new by (simp add: st_ok_def)
qed

lemma le32_read_take: "4 \<le> n \<Longrightarrow> le32_read (take n b) = le32_read b"
  by (simp add: le32_read_def)

lemma Status_copy_same:
  assumes "st_wf s"
  shows "st_wf (Status_copy s)" "st_code (Status_copy s) = st_code s"
    "st_msg (Status_copy s) = st_msg s" "st_ok (Status_copy s) = st_ok s"
  using assms
  by (auto simp: st_wf_def Status_copy_def CopyState_def st_code_def st_msg_def st_ok_def
      le32_read_take min_def take_drop add.commute split: option.splits)

section \<open>errno and formatting\<close>

lemma errno_cases_codes: "(ns, c) \<in> set errno_cases \<Longrightarrow> c \<in> set named_codes \<and> c \<noteq> kOk"
proof -
  have "list_all (\<lambda>(ns, c). c \<in> set named_codes \<and> c \<noteq> kOk) errno_cases" by code_simp
  then show "(ns, c) \<in> set errno_cases \<Longrightarrow> ?thesis" by (auto simp: list_all_iff)
qed

lemma ErrnoToStatusCode_named: "ErrnoToStatusCode n \<in> set named_codes"
  using errno_cases_codes
  by (auto simp: ErrnoToStatusCode_def named_codes_def find_Some_iff split: option.splits; metis nth_mem)

lemma ErrnoToStatusCode_kOk: "ErrnoToStatusCode n = kOk \<longleftrightarrow> n = 0"
  using errno_cases_codes
  by (auto simp: ErrnoToStatusCode_def find_Some_iff split: option.splits; metis nth_mem)

lemma fmt_errno: "fmt_format ''{}: {}'' [a, b] = Inr (a @ '': '' @ b)"
  by simp

lemma fmt_string_view_string: "NUL \<notin> set s \<Longrightarrow> fmt_string_view (sv_of_string s) = Inr s"
  by (simp add: fmt_string_view_def sv_of_string_def sv_size_def)

section \<open>Properties\<close>

text \<open>
  C26. A status built from an error code and a message shorter than \<open>2 ^ 32 - 5\<close> bytes is not ok and
  reports that code and exactly those message bytes; its printed form is the code name, a colon and
  the message; a copy reports the same. A constructor call with \<open>kOk\<close> fails its assertion.
\<close>

theorem Status_roundtrip:
  assumes "c \<in> set named_codes" "c \<noteq> kOk" "sv_ok msg" "sv_len msg + 5 < 2 ^ 32"
  shows "\<exists>s m. Status_new c msg = Inr s \<and> \<not> st_ok s \<and> st_code s = c \<and>
    st_message s = Inr m \<and> sv_str m = sv_str msg \<and>
    st_ToString s = StatusCodeToString c @ (if sv_empty msg then [] else '': '' @ sv_str msg) \<and>
    st_code (Status_copy s) = c \<and> st_ToString (Status_copy s) = st_ToString s \<and>
    Status_new kOk msg = Inl AssertFailed"
proof -
  obtain s where s: "Status_new c msg = Inr s" "\<not> st_ok s" "st_wf s" "st_code s = c"
    "st_msg s = sv_str msg" by (rule Status_new_ok [OF assms])
  obtain m where "st_message s = Inr m" "sv_str m = st_msg s"
    using st_message_msg [OF s(3)] by metis
  moreover have "sv_str msg = [] \<longleftrightarrow> sv_empty msg"
    using assms(3) by (simp add: sv_str_empty_iff sv_empty_def)
  ultimately show ?thesis
    using s Status_copy_same [OF s(3)] by (simp add: st_ToString_eq Status_new_kOk)
qed

theorem Status_roundtrip_witness:
  "kNotFound \<in> set named_codes \<and> sv_ok (sv_of_string ''x'') \<and>
   (\<exists>s. Status_new kNotFound (sv_of_string ''x'') = Inr s \<and> st_ToString s = ''NOT_FOUND: x'')"
proof -
  have h: "kNotFound \<in> set named_codes" "kNotFound \<noteq> kOk" "sv_ok (sv_of_string ''x'')"
    "sv_len (sv_of_string ''x'') + 5 < 2 ^ 32"
    by (simp_all add: named_codes_def kMaxSize_def)
  show ?thesis using Status_roundtrip [OF h] h by (auto simp: sv_empty_def)
qed

text \<open>
  \<open>ErrnoToStatus\<close> for an error number other than 0 never throws on a NUL-free message: the status
  is not ok, its code is the one the switch chooses and its message is the text, a colon and
  \<open>strerror\<close>'s description, whatever \<open>strerror\<close> returns. For 0 it fails the assertion of the
  constructor.
\<close>

theorem ErrnoToStatus_total:
  assumes "NUL \<notin> set m" "length m + length (strerror n) + 7 < 2 ^ 32"
  shows "(n \<noteq> 0 \<longrightarrow> (\<exists>s. ErrnoToStatus strerror n (sv_of_string m) = Inr s \<and> \<not> st_ok s \<and>
      st_code s = ErrnoToStatusCode n \<and> st_msg s = m @ '': '' @ strerror n)) \<and>
    (n = 0 \<longrightarrow> ErrnoToStatus strerror n (sv_of_string m) = Inl AssertFailed)"
proof -
  let ?v = "sv_of_string (m @ '': '' @ strerror n)"
  have E: "ErrnoToStatus strerror n (sv_of_string m) = Status_new (ErrnoToStatusCode n) ?v"
    using fmt_string_view_string [OF assms(1)]
    by (simp only: ErrnoToStatus_def MessageForErrnoToStatus_def bindr_simps fmt_errno)
  have "sv_ok ?v" "sv_len ?v + 5 < 2 ^ 32" using assms(2) by (simp_all add: kMaxSize_def)
  then have "\<exists>s. Status_new (ErrnoToStatusCode n) ?v = Inr s \<and> \<not> st_ok s \<and>
      st_code s = ErrnoToStatusCode n \<and> st_msg s = m @ '': '' @ strerror n" if "n \<noteq> 0"
    using Status_new_ok [OF ErrnoToStatusCode_named, of n ?v] that ErrnoToStatusCode_kOk [of n]
    by (metis sv_of_string_simps(1))
  moreover have "Status_new (ErrnoToStatusCode n) ?v = Inl AssertFailed" if "n = 0"
    using that ErrnoToStatusCode_kOk [of n] by (simp add: Status_new_kOk)
  ultimately show ?thesis unfolding E by blast
qed

theorem ErrnoToStatus_total_witness:
  "NUL \<notin> set ''open'' \<and> ErrnoToStatusCode 2 = kNotFound \<and>
   (\<exists>s. ErrnoToStatus (\<lambda>_. ''gone'') 2 (sv_of_string ''open'') = Inr s \<and> st_code s = kNotFound)"
proof -
  have h: "NUL \<notin> set ''open''" "length ''open'' + length ((\<lambda>_. ''gone'') (2 :: int)) + 7 < 2 ^ 32"
    by (simp_all add: NUL_def)
  have "ErrnoToStatusCode 2 = kNotFound" by code_simp
  then show ?thesis using ErrnoToStatus_total [of "''open''" "\<lambda>_. ''gone''" 2] h by auto
qed

text \<open>
  \<open>StatusMessageAsCStr\<close>: a status formatted in place hands out a terminated string, but one built
  from a view (and so every status of the convenience constructors) and every copy holds no NUL
  behind its message, so reading the result as a C string leaves the array, against the guarantee
  in the comment.
\<close>

lemma StatusMessageAsCStr_unterminated:
  assumes "c \<in> set named_codes" "c \<noteq> kOk" "s \<noteq> []" "length s < 2 ^ 31" "NUL \<notin> set s"
  shows "bindr (Status_printf c (Some s)) StatusMessageAsCStr = Inr s \<and>
    bindr (Status_new c (sv_of_string s)) StatusMessageAsCStr = Inl UndefinedBehaviour \<and>
    bindr (Status_printf c (Some s)) (\<lambda>st. StatusMessageAsCStr (Status_copy st)) = Inl UndefinedBehaviour"
proof -
  let ?n = "length s" and ?h = "le32 (length s) @ [code_char c]"
  have n: "?n < 2 ^ 32" "?n \<le> kMaxSize" "?n + 5 < 2 ^ 32" using assms(4) by (simp_all add: kMaxSize_def)
  have read: "le32_read (?h @ b) = ?n" for b using n(1) by simp
  have drop: "drop 5 (?h @ b) = b" for b by simp
  have msg: "st_message \<lparr>st_state = Some (?h @ b)\<rparr> = Inr \<lparr>sv_ptr = Some (?h @ b, 5), sv_len = ?n\<rparr>" for b
    using assms(3) n(2) read [of b]
    by (simp add: st_message_def sv_of_ptr_len_def CheckLengthInternal_def Let_def)
  have "Status_printf c (Some s) = Inr \<lparr>st_state = Some (?h @ s @ [NUL])\<rparr>"
    using assms(2) by (simp add: Status_printf_def numeral_2_eq_2)
  moreover have "Status_new c (sv_of_string s) = Inr \<lparr>st_state = Some (?h @ s)\<rparr>"
    using assms(2) n by (simp add: Status_new_def sv_size_def sv_of_string_def ptr_bytes_def)
  moreover have "StatusMessageAsCStr \<lparr>st_state = Some (?h @ s @ [NUL])\<rparr> = Inr s"
    using msg [of "s @ [NUL]"] drop [of "s @ [NUL]"] assms(3,5)
    by (simp add: StatusMessageAsCStr_def sv_empty_def del: append.simps(2) append_assoc)
  moreover have "StatusMessageAsCStr \<lparr>st_state = Some (?h @ s)\<rparr> = Inl UndefinedBehaviour"
    using msg [of s] drop [of s] assms(3,5)
    by (simp add: StatusMessageAsCStr_def sv_empty_def del: append.simps append_assoc)
  moreover have "CopyState (?h @ s @ [NUL]) = ?h @ s"
    using read [of "s @ [NUL]"] by (simp add: CopyState_def)
  ultimately show ?thesis by (simp add: Status_copy_def)
qed

end
