(* ===== verification/Std_Map.thy ===== *)
theory Std_Map
  imports Cpp_Prelude
begin

text \<open>
  \<open>std::map\<close> as the components use it: an association list in key order. The interface the client
  proofs rely on is the locale \<open>ordered_map\<close>; its interpretation on the list model discharges the
  laws.
\<close>

section \<open>The model\<close>

type_synonym ('k, 'v) smap = "('k \<times> 'v) list"

definition map_ok :: "('k :: linorder, 'v) smap \<Rightarrow> bool" where
  "map_ok m \<longleftrightarrow> sorted (map fst m) \<and> distinct (map fst m)"

definition map_find :: "('k :: linorder, 'v) smap \<Rightarrow> 'k \<Rightarrow> 'v option" where
  "map_find m k = map_of m k"

text \<open>\<open>m[k] = v\<close>.\<close>

fun map_set :: "('k :: linorder, 'v) smap \<Rightarrow> 'k \<Rightarrow> 'v \<Rightarrow> ('k, 'v) smap" where
  "map_set [] k v = [(k, v)]"
| "map_set ((k', v') # m) k v =
     (if k < k' then (k, v) # (k', v') # m
      else if k = k' then (k, v) # m
      else (k', v') # map_set m k v)"

text \<open>\<open>m.insert\<close> and \<open>m.emplace\<close>: an existing entry stays.\<close>

definition map_insert :: "('k :: linorder, 'v) smap \<Rightarrow> 'k \<Rightarrow> 'v \<Rightarrow> ('k, 'v) smap" where
  "map_insert m k v = (if map_find m k = None then map_set m k v else m)"

definition map_erase :: "('k :: linorder, 'v) smap \<Rightarrow> 'k \<Rightarrow> ('k, 'v) smap" where
  "map_erase m k = filter (\<lambda>(k', _). k' \<noteq> k) m"

section \<open>The interface\<close>

locale ordered_map =
  fixes inv :: "'m \<Rightarrow> bool"
    and find :: "'m \<Rightarrow> 'k :: linorder \<Rightarrow> 'v option"
    and upd :: "'m \<Rightarrow> 'k \<Rightarrow> 'v \<Rightarrow> 'm"
    and erase :: "'m \<Rightarrow> 'k \<Rightarrow> 'm"
  assumes find_upd: "inv m \<Longrightarrow> find (upd m k v) j = (if j = k then Some v else find m j)"
    and find_erase: "inv m \<Longrightarrow> find (erase m k) j = (if j = k then None else find m j)"
    and inv_upd: "inv m \<Longrightarrow> inv (upd m k v)"
    and inv_erase: "inv m \<Longrightarrow> inv (erase m k)"
begin

lemma find_upds:
  assumes "inv m"
  shows "inv (foldl (\<lambda>m (k, v). upd m k v) m kvs) \<and>
    find (foldl (\<lambda>m (k, v). upd m k v) m kvs) j =
      (case map_of (rev kvs) j of None \<Rightarrow> find m j | Some v \<Rightarrow> Some v)"
  using assms
proof (induction kvs arbitrary: m)
  case (Cons kv kvs)
  obtain k v where kv: "kv = (k, v)" by fastforce
  have "inv (upd m k v)" using inv_upd [OF Cons(2)] .
  from Cons(1) [OF this] show ?case
    using find_upd [OF Cons(2)] kv by (auto simp: map_add_def split: option.splits)
qed simp

lemma find_erases:
  assumes "inv m"
  shows "inv (foldl erase m ks) \<and> find (foldl erase m ks) j = (if j \<in> set ks then None else find m j)"
  using assms
  by (induction ks arbitrary: m) (auto simp: find_erase inv_erase)

end

section \<open>The model satisfies the interface\<close>

lemma map_find_Nil [simp]: "map_find [] k = None"
  by (simp add: map_find_def)

lemma map_ok_Nil [simp]: "map_ok []"
  by (simp add: map_ok_def)

lemma map_ok_Cons: "map_ok ((k, v) # m) \<longleftrightarrow> map_ok m \<and> (\<forall>k' \<in> fst ` set m. k < k')"
  by (auto simp: map_ok_def order.strict_iff_order)

lemma map_set_keys: "fst ` set (map_set m k v) = insert k (fst ` set m)"
  by (induction m k v rule: map_set.induct) auto

lemma map_set_ok: "map_ok m \<Longrightarrow> map_ok (map_set m k v)"
  by (induction m k v rule: map_set.induct)
    (auto simp: map_ok_Cons map_set_keys)

lemma map_find_set: "map_ok m \<Longrightarrow> map_find (map_set m k v) j = (if j = k then Some v else map_find m j)"
  by (induction m k v rule: map_set.induct) (auto simp: map_find_def map_ok_Cons)

lemma map_erase_ok: "map_ok m \<Longrightarrow> map_ok (map_erase m k)"
  by (induction m) (auto simp: map_erase_def map_ok_Cons)

lemma map_find_erase: "map_find (map_erase m k) j = (if j = k then None else map_find m j)"
  by (induction m) (auto simp: map_find_def map_erase_def)

interpretation smap: ordered_map map_ok map_find map_set map_erase
  by unfold_locales (auto simp: map_find_set map_find_erase map_set_ok map_erase_ok)

lemma map_insert_ok: "map_ok m \<Longrightarrow> map_ok (map_insert m k v)"
  by (simp add: map_insert_def map_set_ok)

lemma map_find_insert: "map_ok m \<Longrightarrow> map_find (map_insert m k v) j =
    (if j = k then Some (case map_find m k of None \<Rightarrow> v | Some w \<Rightarrow> w) else map_find m j)"
  by (auto simp: map_insert_def map_find_set split: option.splits)

lemma map_find_in: "map_find m k = Some v \<Longrightarrow> (k, v) \<in> set m"
  by (simp add: map_find_def map_of_SomeD)

lemma map_find_iff: "map_ok m \<Longrightarrow> map_find m k = Some v \<longleftrightarrow> (k, v) \<in> set m"
  by (simp add: map_find_def map_ok_def)

lemmas smap_simps = map_find_set map_find_erase map_find_insert map_set_ok map_erase_ok map_insert_ok

lemma map_set_append: "\<forall>k' \<in> fst ` set m. k' < k \<Longrightarrow> map_set m k v = m @ [(k, v)]"
  by (induction m k v rule: map_set.induct) auto

lemma map_ok_append: "map_ok (m @ [(k, v)]) \<longleftrightarrow> map_ok m \<and> (\<forall>k' \<in> fst ` set m. k' < k)"
  by (induction m) (auto simp: map_ok_Cons)

text \<open>Inserting the entries of a map one by one rebuilds it.\<close>

lemma map_rebuild: "map_ok m \<Longrightarrow> foldl (\<lambda>m (k, v). map_set m k v) [] m = m"
proof (induction m rule: rev_induct)
  case (snoc kv m)
  then show ?case by (cases kv) (simp add: map_ok_append map_set_append)
qed simp

end
