(* ===== verification/Args.thy ===== *)
theory Args
  imports Base_Status Std_Map
begin

text \<open>
  \<^verbatim>\<open>cppboot/adv/args.cc\<close>: the command line tokenizer and the flag parser. The tokenizer walks the
  character array of its view with raw pointers, so it is modelled on the array and offsets, with
  reads outside the array as undefined behaviour.
\<close>

section \<open>Tokenizer\<close>

definition IsLetter :: "char \<Rightarrow> bool" where
  "IsLetter c \<longleftrightarrow> (c \<ge> CHR ''a'' \<and> c \<le> CHR ''z'') \<or> (c \<ge> CHR ''A'' \<and> c \<le> CHR ''Z'')"

definition IsDigit :: "char \<Rightarrow> bool" where
  "IsDigit c \<longleftrightarrow> c \<ge> CHR ''0'' \<and> c \<le> CHR ''9''"

definition IsLetterOrDigit :: "char \<Rightarrow> bool" where
  "IsLetterOrDigit c \<longleftrightarrow> IsLetter c \<or> IsDigit c"

record Tokenizer =
  tk_value :: string_view
  tk_base :: string
  tk_current :: nat
  tk_end :: nat

definition Tokenizer_new :: "string_view \<Rightarrow> Tokenizer" where
  "Tokenizer_new str =
     (case sv_base str of (b, k) \<Rightarrow>
        \<lparr>tk_value = sv_null, tk_base = b, tk_current = k, tk_end = k + sv_size str\<rparr>)"

text \<open>\<open>*p <= ' '\<close> on a signed \<open>char\<close>: control characters, the blank, and every byte from 0x80 on.\<close>

definition tk_blank :: "char \<Rightarrow> bool" where
  "tk_blank c \<longleftrightarrow> schar c \<le> 32"

definition tk_quote :: "char \<Rightarrow> bool" where
  "tk_quote c \<longleftrightarrow> c = CHR 0x27 \<or> c = CHR 0x22"

text \<open>The three loops of \<open>MoveNext\<close>.\<close>

function skip_space :: "string \<Rightarrow> nat \<Rightarrow> nat \<Rightarrow> nat res" where
  "skip_space b e p =
     (if p = e then Inr p
      else if p \<ge> length b then Inl UndefinedBehaviour
      else if tk_blank (b ! p) then skip_space b e (Suc p)
      else Inr p)"
  by pat_completeness auto
termination by (relation "measure (\<lambda>(b, e, p). length b - p)") auto

function find_quote :: "string \<Rightarrow> char \<Rightarrow> nat \<Rightarrow> nat \<Rightarrow> nat option res" where
  "find_quote b quota e p =
     (if p \<ge> length b then Inl UndefinedBehaviour
      else if b ! p = quota then Inr (Some p)
      else if p = e then Inr None
      else find_quote b quota e (Suc p))"
  by pat_completeness auto
termination by (relation "measure (\<lambda>(b, q, e, p). length b - p)") auto

function word_end :: "string \<Rightarrow> nat \<Rightarrow> nat \<Rightarrow> nat option res" where
  "word_end b e p =
     (if p = e then Inr (Some p)
      else if p \<ge> length b then Inl UndefinedBehaviour
      else if \<not> tk_blank (b ! p)
      then (if tk_quote (b ! p) then Inr None else word_end b e (Suc p))
      else Inr (Some p))"
  by pat_completeness auto
termination by (relation "measure (\<lambda>(b, e, p). length b - p)") auto

declare skip_space.simps [simp del] find_quote.simps [simp del] word_end.simps [simp del]

definition MoveNext :: "Tokenizer \<Rightarrow> (Status \<times> Tokenizer) res" where
  "MoveNext tk =
     bindr (skip_space (tk_base tk) (tk_end tk) (tk_current tk)) (\<lambda>p.
     if p = tk_end tk then Inr (OkStatus, tk\<lparr>tk_value := sv_null\<rparr>)
     else if tk_quote (tk_base tk ! p)
     then
       (let quota = tk_base tk ! p; token_start = Suc p in
        bindr (find_quote (tk_base tk) quota (tk_end tk) token_start) (\<lambda>r.
        case r of
          None \<Rightarrow> bindr (InvalidArgumentError (sv_of_string ''Can't find end of Quota'')) (\<lambda>st. Inr (st, tk))
        | Some p \<Rightarrow> Inr (OkStatus, tk\<lparr>tk_current := p + 1,
                     tk_value := \<lparr>sv_ptr = Some (tk_base tk, token_start), sv_len = p - token_start\<rparr>\<rparr>)))
     else
       (let token_start = p in
        bindr (word_end (tk_base tk) (tk_end tk) p) (\<lambda>r.
        case r of
          None \<Rightarrow> bindr (InvalidArgumentError (sv_of_string ''Quota not first word'')) (\<lambda>st. Inr (st, tk))
        | Some p \<Rightarrow> Inr (OkStatus, tk\<lparr>tk_current := p,
                     tk_value := \<lparr>sv_ptr = Some (tk_base tk, token_start), sv_len = p - token_start\<rparr>\<rparr>))))"

lemma skip_space_Inr:
  "skip_space b e p = Inr p' \<Longrightarrow> p \<le> p' \<and> (p' = e \<or> p' < length b \<and> \<not> tk_blank (b ! p'))"
proof (induction b e p rule: skip_space.induct)
  case (1 b e p)
  then show ?case by (subst (asm) (2) skip_space.simps) (fastforce split: if_splits)
qed

lemma find_quote_Inr: "find_quote b q e p = Inr (Some p') \<Longrightarrow> p \<le> p' \<and> p' < length b"
proof (induction b q e p rule: find_quote.induct)
  case (1 b q e p)
  then show ?case by (subst (asm) (2) find_quote.simps) (fastforce split: if_splits)
qed

lemma word_end_Inr: "word_end b e p = Inr (Some p') \<Longrightarrow> p \<le> length b \<Longrightarrow> p \<le> p' \<and> p' \<le> length b"
proof (induction b e p rule: word_end.induct)
  case (1 b e p)
  then show ?case by (subst (asm) (2) word_end.simps) (fastforce split: if_splits)
qed

lemma MoveNext_progress:
  assumes "MoveNext tk = Inr (st, tk')" "st_ok st" "\<not> sv_empty (tk_value tk')"
  shows "tk_base tk' = tk_base tk \<and> tk_current tk < tk_current tk' \<and> tk_current tk' \<le> length (tk_base tk)"
proof -
  have no: "\<not> st_ok s" if "InvalidArgumentError v = Inr s" for v s
    using that by (auto simp: InvalidArgumentError_def Status_new_def st_ok_def Let_def split: if_splits)
  obtain p where p: "skip_space (tk_base tk) (tk_end tk) (tk_current tk) = Inr p"
    using assms(1) by (auto simp: MoveNext_def res_simps)
  note sp = skip_space_Inr [OF p]
  show ?thesis
    using assms p sp no
    by (auto simp: MoveNext_def res_simps Let_def sv_empty_def split: if_splits option.splits
        dest!: find_quote_Inr word_end_Inr)
qed

function ParseArgLine_loop :: "Tokenizer \<Rightarrow> string_view list \<Rightarrow> (Status \<times> string_view list) res" where
  "ParseArgLine_loop tokenizer args =
     (case MoveNext tokenizer of
        Inl e \<Rightarrow> Inl e
      | Inr (st, tokenizer') \<Rightarrow>
          if \<not> st_ok st then Inr (st, args)
          else if sv_empty (tk_value tokenizer') then Inr (OkStatus, args)
          else ParseArgLine_loop tokenizer' (args @ [tk_value tokenizer']))"
  by pat_completeness auto
termination
  by (relation "measure (\<lambda>(tk, args). length (tk_base tk) - tk_current tk)")
    (use MoveNext_progress in \<open>fastforce+\<close>)

declare ParseArgLine_loop.simps [simp del]

definition ParseArgLine :: "string_view \<Rightarrow> string_view list \<Rightarrow> (Status \<times> string_view list) res" where
  "ParseArgLine line args = ParseArgLine_loop (Tokenizer_new line) args"

section \<open>Flags\<close>

datatype ArgType = kBool | kLong | kString

record ArgFlag =
  fl_type :: ArgType
  fl_short_name :: char
  fl_long_name :: string
  fl_default_value :: string
  fl_help :: string

record ArgsImpl =
  short_flags :: "(char, ArgFlag) smap"
  long_flags :: "(string, ArgFlag) smap"
  ar_values :: "(string, string) smap"

definition AddFlag :: "ArgsImpl \<Rightarrow> ArgFlag \<Rightarrow> ArgsImpl" where
  "AddFlag impl flag =
     (let impl = (if fl_short_name flag \<noteq> NUL
                  then impl\<lparr>short_flags := map_set (short_flags impl) (fl_short_name flag) flag\<rparr>
                  else impl) in
      if length (fl_long_name flag) \<ge> 2
      then impl\<lparr>long_flags := map_set (long_flags impl) (fl_long_name flag) flag\<rparr> else impl)"

definition GetValue :: "ArgsImpl \<Rightarrow> string option \<Rightarrow> string" where
  "GetValue impl long_name =
     (case long_name of
        None \<Rightarrow> ''''
      | Some n \<Rightarrow>
          (case map_find (ar_values impl) n of
             Some v \<Rightarrow> v
           | None \<Rightarrow> (case map_find (long_flags impl) n of
                       Some f \<Rightarrow> fl_default_value f
                     | None \<Rightarrow> '''')))"

text \<open>The name check of long flags: \<open>for (i = 2; i < len; i++) if (!IsLetterOrDigit(name[i])) return {};\<close>\<close>

definition long_name_ok :: "string_view \<Rightarrow> bool" where
  "long_name_ok name \<longleftrightarrow> list_all (\<lambda>i. IsLetterOrDigit (sv_at name i)) [2..<sv_len name]"

definition GetFlag :: "ArgsImpl \<Rightarrow> string_view \<Rightarrow> ArgFlag option res" where
  "GetFlag impl name =
     (let len = sv_length name;
          short = (if len = 2 \<and> IsLetterOrDigit (sv_at name 1)
                   then map_find (short_flags impl) (sv_at name 1) else None) in
      case short of
        Some f \<Rightarrow> Inr (Some f)
      | None \<Rightarrow>
          if len \<ge> 4 \<and> sv_at name 1 = CHR ''-''
          then if \<not> long_name_ok name then Inr None
               else bindr (sv_substr name 2 npos) (\<lambda>u. Inr (map_find (long_flags impl) (to_string u)))
          else Inr None)"

definition invalid_arg :: "string \<Rightarrow> 'a \<Rightarrow> (Status \<times> 'a) res" where
  "invalid_arg msg x = bindr (InvalidArgumentError (sv_of_string msg)) (\<lambda>st. Inr (st, x))"

text \<open>The loop of \<open>Impl::Parse\<close> over the remaining arguments, with \<open>result\<close> and \<open>current_flag\<close>.\<close>

fun Parse_loop :: "ArgsImpl \<Rightarrow> string_view list \<Rightarrow> (string, string) smap \<Rightarrow> ArgFlag option
    \<Rightarrow> (Status \<times> ArgsImpl) res" where
  "Parse_loop impl [] result current_flag =
     (if current_flag \<noteq> None then invalid_arg ''flag no value'' impl
      else Inr (OkStatus, impl\<lparr>ar_values := result\<rparr>))"
| "Parse_loop impl (arg # args) result current_flag =
     bindr (sv_index arg 0) (\<lambda>c.
       if c = CHR ''-''
       then if current_flag \<noteq> None then invalid_arg ''flag no value'' impl
            else bindr (GetFlag impl arg) (\<lambda>f.
              case f of
                None \<Rightarrow> invalid_arg ''flag not found'' impl
              | Some flag \<Rightarrow>
                  if fl_type flag = kBool
                  then Parse_loop impl args (map_set result (fl_long_name flag) ''true'') None
                  else Parse_loop impl args result (Some flag))
       else (case current_flag of
               None \<Rightarrow> invalid_arg ''no flag'' impl
             | Some flag \<Rightarrow>
                 Parse_loop impl args (map_set result (fl_long_name flag) (to_string arg)) None))"

definition Impl_Parse :: "ArgsImpl \<Rightarrow> string_view list \<Rightarrow> (Status \<times> ArgsImpl) res" where
  "Impl_Parse impl args =
     (let impl = impl\<lparr>ar_values := []\<rparr> in
      case args of
        [] \<Rightarrow> Inr (OkStatus, impl)
      | a # rest \<Rightarrow>
          bindr (sv_index a 0) (\<lambda>c.
            Parse_loop impl (if c \<noteq> CHR ''-'' then rest else args) [] None))"

section \<open>The class\<close>

definition Args_new :: ArgsImpl where
  "Args_new = AddFlag \<lparr>short_flags = [], long_flags = [], ar_values = []\<rparr>
     \<lparr>fl_type = kBool, fl_short_name = CHR ''h'', fl_long_name = ''help'', fl_default_value = '''',
      fl_help = ''This help text''\<rparr>"

text \<open>C strings that may be null are options.\<close>

definition AddBool :: "ArgsImpl \<Rightarrow> char \<Rightarrow> string option \<Rightarrow> string option \<Rightarrow> ArgsImpl" where
  "AddBool impl short_name long_name help =
     (case long_name of
        Some n \<Rightarrow>
          if short_name \<noteq> NUL
          then AddFlag impl \<lparr>fl_type = kBool, fl_short_name = short_name, fl_long_name = n,
                 fl_default_value = '''', fl_help = (case help of None \<Rightarrow> '''' | Some h \<Rightarrow> h)\<rparr>
          else impl
      | None \<Rightarrow> impl)"

text \<open>A null default throws \<open>std::logic_error\<close> from the constructor of \<open>std::string\<close>.\<close>

definition AddString ::
    "ArgsImpl \<Rightarrow> char \<Rightarrow> string option \<Rightarrow> string option \<Rightarrow> string option \<Rightarrow> ArgsImpl res" where
  "AddString impl short_name long_name default_value help =
     (case long_name of
        Some n \<Rightarrow>
          if short_name \<noteq> NUL
          then (case default_value of
                  None \<Rightarrow> Inl LogicError
                | Some d \<Rightarrow> Inr (AddFlag impl \<lparr>fl_type = kString, fl_short_name = short_name,
                    fl_long_name = n, fl_default_value = d,
                    fl_help = (case help of None \<Rightarrow> '''' | Some h \<Rightarrow> h)\<rparr>))
          else Inr impl
      | None \<Rightarrow> Inr impl)"

definition AddLong :: "ArgsImpl \<Rightarrow> char \<Rightarrow> string option \<Rightarrow> int \<Rightarrow> string option \<Rightarrow> ArgsImpl" where
  "AddLong impl short_name long_name default_value help =
     (case long_name of
        Some n \<Rightarrow>
          if short_name \<noteq> NUL
          then AddFlag impl \<lparr>fl_type = kLong, fl_short_name = short_name, fl_long_name = n,
                 fl_default_value = show_int default_value,
                 fl_help = (case help of None \<Rightarrow> '''' | Some h \<Rightarrow> h)\<rparr>
          else impl
      | None \<Rightarrow> impl)"

definition GetBool :: "ArgsImpl \<Rightarrow> string option \<Rightarrow> bool" where
  "GetBool impl long_name \<longleftrightarrow> GetValue impl long_name \<noteq> ''''"

definition GetString :: "ArgsImpl \<Rightarrow> string option \<Rightarrow> string" where
  "GetString impl long_name = GetValue impl long_name"

definition GetLong :: "ArgsImpl \<Rightarrow> string option \<Rightarrow> int res" where
  "GetLong impl long_name = stoll (GetValue impl long_name)"

definition Help :: "ArgsImpl \<Rightarrow> string" where
  "Help impl =
     ''Arguments:'' @ [CHR 0x0A] @
     concat (map (\<lambda>(_, flag).
       [fl_short_name flag] @ '', --'' @ c_str (fl_long_name flag)
         @ replicate (15 - length (c_str (fl_long_name flag))) CHR '' '' @ '' '' @ c_str (fl_help flag)
         @ (if fl_default_value flag \<noteq> '''' then '' (default: '' @ fl_default_value flag @ '')'' else '''')
         @ [CHR 0x0A]) (long_flags impl))"

definition Args_Parse_line :: "ArgsImpl \<Rightarrow> cptr \<Rightarrow> (Status \<times> ArgsImpl) res" where
  "Args_Parse_line impl arg_line =
     bindr (ParseArgLine (sv_of_cstr arg_line) []) (\<lambda>(st, args).
       if \<not> st_ok st then Inr (st, impl) else Impl_Parse impl args)"

text \<open>\<open>argv\<close> up to \<open>argc\<close> or the first null; each is trimmed and empty ones are dropped.\<close>

fun argv_views :: "cptr list \<Rightarrow> string_view list \<Rightarrow> string_view list res" where
  "argv_views [] args = Inr args"
| "argv_views (None # argv) args = Inr args"
| "argv_views (Some p # argv) args =
     bindr (StrTrim (sv_of_cstr (Some p)) (sv_of_string [CHR '' '', CHR 0x0D, CHR 0x09, CHR 0x0A]))
       (\<lambda>a. argv_views argv (if \<not> sv_empty a then args @ [a] else args))"

definition Args_Parse_argv :: "ArgsImpl \<Rightarrow> nat \<Rightarrow> cptr list \<Rightarrow> (Status \<times> ArgsImpl) res" where
  "Args_Parse_argv impl argc argv =
     bindr (argv_views (take argc argv) []) (\<lambda>args. Impl_Parse impl args)"

section \<open>The tokenizer reads what was rendered\<close>

text \<open>A token as a user writes it: a plain word, or a word between quotes of one kind.\<close>

datatype tok = Plain string | Quoted char string

fun tok_word :: "tok \<Rightarrow> string" where
  "tok_word (Plain w) = w"
| "tok_word (Quoted q w) = w"

fun tok_text :: "tok \<Rightarrow> string" where
  "tok_text (Plain w) = w"
| "tok_text (Quoted q w) = q # w @ [q]"

fun tok_ok :: "tok \<Rightarrow> bool" where
  "tok_ok (Plain w) \<longleftrightarrow> w \<noteq> [] \<and> list_all (\<lambda>c. \<not> tk_blank c \<and> \<not> tk_quote c) w"
| "tok_ok (Quoted q w) \<longleftrightarrow> tk_quote q \<and> w \<noteq> [] \<and> q \<notin> set w"

definition line_text :: "(string \<times> tok) list \<Rightarrow> string" where
  "line_text items = concat (map (\<lambda>(sp, t). sp @ tok_text t) items)"

definition item_ok :: "string \<times> tok \<Rightarrow> bool" where
  "item_ok i \<longleftrightarrow> fst i \<noteq> [] \<and> list_all tk_blank (fst i) \<and> tok_ok (snd i)"

lemma skip_space_blanks:
  "b = x @ s @ y \<Longrightarrow> list_all tk_blank s \<Longrightarrow> length x + length s \<le> e \<Longrightarrow>
   length x + length s = e \<or> y \<noteq> [] \<and> \<not> tk_blank (hd y) \<Longrightarrow>
   skip_space b e (length x) = Inr (length x + length s)"
proof (induction s arbitrary: x)
  case Nil
  then show ?case by (subst skip_space.simps) (auto simp: hd_conv_nth nth_append)
next
  case (Cons c s)
  then show ?case
    using Cons(1) [of "x @ [c]"] by (subst skip_space.simps) (auto simp: nth_append)
qed

lemma word_end_word:
  "b = x @ w @ y \<Longrightarrow> list_all (\<lambda>c. \<not> tk_blank c \<and> \<not> tk_quote c) w \<Longrightarrow> length x + length w \<le> e \<Longrightarrow>
   length x + length w = e \<or> y \<noteq> [] \<and> tk_blank (hd y) \<Longrightarrow>
   word_end b e (length x) = Inr (Some (length x + length w))"
proof (induction w arbitrary: x)
  case Nil
  then show ?case by (subst word_end.simps) (auto simp: hd_conv_nth nth_append)
next
  case (Cons c w)
  then show ?case
    using Cons(1) [of "x @ [c]"] by (subst word_end.simps) (auto simp: nth_append)
qed

lemma find_quote_word:
  "b = x @ w @ q # y \<Longrightarrow> q \<notin> set w \<Longrightarrow> length x + length w \<le> e \<Longrightarrow>
   find_quote b q e (length x) = Inr (Some (length x + length w))"
proof (induction w arbitrary: x)
  case Nil
  then show ?case by (subst find_quote.simps) (auto simp: nth_append)
next
  case (Cons c w)
  then show ?case
    using Cons(1) [of "x @ [c]"] by (subst find_quote.simps) (auto simp: nth_append)
qed

lemma quote_not_blank: "tk_quote c \<Longrightarrow> \<not> tk_blank c"
  by (auto simp: tk_quote_def tk_blank_def schar_def)

lemma tok_text_hd: "tok_ok t \<Longrightarrow> tok_text t \<noteq> [] \<and> \<not> tk_blank (hd (tok_text t))"
  by (cases t) (auto simp: quote_not_blank neq_Nil_conv)

lemma MoveNext_token:
  assumes "item_ok (sp, t)" "b = x @ sp @ tok_text t @ y" "e = length b - 1" "y \<noteq> []"
    and "length y = 1 \<or> tk_blank (hd y)" "length b \<le> kMaxSize"
  shows "\<exists>v. MoveNext \<lparr>tk_value = v0, tk_base = b, tk_current = length x, tk_end = e\<rparr> =
      Inr (OkStatus, \<lparr>tk_value = v, tk_base = b, tk_current = length x + length sp + length (tok_text t),
        tk_end = e\<rparr>) \<and> sv_ok v \<and> sv_str v = tok_word t \<and> sv_len v = length (tok_word t)"
proof -
  let ?p = "length x + length sp"
  have ok: "list_all tk_blank sp" "tok_ok t" using assms(1) by (simp_all add: item_ok_def)
  note ht = tok_text_hd [OF ok(2)]
  have e: "?p < e" "?p + length (tok_text t) \<le> e" "e = ?p + length (tok_text t) \<longleftrightarrow> length y = 1"
    using assms(2-4) ht by (cases y; cases "tok_text t"; simp)+
  have hd: "tok_text t @ y \<noteq> []" "\<not> tk_blank (hd (tok_text t @ y))" using ht by simp_all
  have sk: "skip_space b e (length x) = Inr ?p"
    using skip_space_blanks [of b x sp "tok_text t @ y" e] assms(2) ok(1) e(1) hd by simp
  have at: "b ! ?p = hd (tok_text t)" using assms(2) ht by (cases "tok_text t") (auto simp: nth_append)
  show ?thesis
  proof (cases t)
    case (Plain w)
    have nq: "\<not> tk_quote (b ! ?p)" using at ok(2) Plain by (cases w) auto
    have we: "word_end b e ?p = Inr (Some (?p + length w))"
      using word_end_word [of b "x @ sp" w y e] assms(2,4,5) ok(2) Plain e by auto
    show ?thesis
      using sk we nq e(1) Plain assms(2,6)
      by (simp add: MoveNext_def Let_def sv_str_def ptr_bytes_def sv_ok_def)
  next
    case (Quoted q w)
    have bq: "b ! ?p = q" "tk_quote q" using at ok(2) Quoted by simp_all
    have fq: "find_quote b q e (Suc ?p) = Inr (Some (Suc (?p + length w)))"
      using find_quote_word [of b "x @ sp @ [q]" w q y e] assms(2) ok(2) Quoted e(2) by simp
    show ?thesis
      using sk fq bq e(1) Quoted assms(2,6)
      by (simp add: MoveNext_def Let_def sv_str_def ptr_bytes_def sv_ok_def)
  qed
qed

lemma MoveNext_done:
  assumes "b = x @ sp @ [NUL]" "list_all tk_blank sp" "e = length b - 1"
  shows "MoveNext \<lparr>tk_value = v0, tk_base = b, tk_current = length x, tk_end = e\<rparr> =
    Inr (OkStatus, \<lparr>tk_value = sv_null, tk_base = b, tk_current = length x, tk_end = e\<rparr>)"
  using skip_space_blanks [of b x sp "[NUL]" e] assms by (simp add: MoveNext_def)

lemma ParseArgLine_loop_line:
  assumes "list_all item_ok items" "list_all tk_blank tr"
    and "b = x @ line_text items @ tr @ [NUL]" "e = length b - 1" "length b \<le> kMaxSize"
  shows "\<exists>vs. ParseArgLine_loop \<lparr>tk_value = v0, tk_base = b, tk_current = length x, tk_end = e\<rparr> args =
      Inr (OkStatus, args @ vs) \<and> map sv_str vs = map (\<lambda>(sp, t). tok_word t) items \<and>
      list_all (\<lambda>v. sv_ok v \<and> sv_str v \<noteq> []) vs"
  using assms
proof (induction items arbitrary: x v0 args)
  case Nil
  then show ?case
    using MoveNext_done [of b x tr e v0]
    by (subst ParseArgLine_loop.simps) (simp add: line_text_def st_ok_def OkStatus_def sv_empty_def)
next
  case (Cons i items)
  obtain sp t where i: "i = (sp, t)" by fastforce
  let ?y = "line_text items @ tr @ [NUL]"
  have b: "b = x @ sp @ tok_text t @ ?y" using Cons(4) i by (simp add: line_text_def)
  have "tk_blank NUL" by (simp add: tk_blank_def schar_def NUL_def)
  then have y: "length ?y = 1 \<or> tk_blank (hd ?y)"
    using Cons(2,3) by (cases items; cases tr) (auto simp: line_text_def item_ok_def neq_Nil_conv)
  obtain v where v: "MoveNext \<lparr>tk_value = v0, tk_base = b, tk_current = length x, tk_end = e\<rparr> =
      Inr (OkStatus, \<lparr>tk_value = v, tk_base = b, tk_current = length x + length sp + length (tok_text t),
        tk_end = e\<rparr>)" "sv_ok v" "sv_str v = tok_word t" "sv_len v = length (tok_word t)"
    using MoveNext_token [of sp t b x ?y e v0] Cons(2) i b Cons(5,6) y by auto
  have ne: "tok_word t \<noteq> []" using Cons(2) i by (cases t) (auto simp: item_ok_def)
  obtain vs where "ParseArgLine_loop \<lparr>tk_value = v, tk_base = b,
        tk_current = length (x @ sp @ tok_text t), tk_end = e\<rparr> (args @ [v]) = Inr (OkStatus, (args @ [v]) @ vs)"
      "map sv_str vs = map (\<lambda>(sp, t). tok_word t) items" "list_all (\<lambda>v. sv_ok v \<and> sv_str v \<noteq> []) vs"
    using Cons(1) [of "x @ sp @ tok_text t" v "args @ [v]"] Cons(2,3,5,6) b by auto
  then show ?case
    using v ne i
    by (subst ParseArgLine_loop.simps)
      (auto simp: st_ok_def OkStatus_def sv_empty_def add.assoc intro!: exI [of _ "v # vs"])
qed

lemma ParseArgLine_line:
  assumes "list_all item_ok items" "list_all tk_blank tr" "length (line_text items @ tr) < kMaxSize"
  obtains vs where "ParseArgLine (sv_of_string (line_text items @ tr)) [] = Inr (OkStatus, vs)"
    "map sv_str vs = map (\<lambda>(sp, t). tok_word t) items" "list_all (\<lambda>v. sv_ok v \<and> sv_str v \<noteq> []) vs"
proof -
  let ?s = "line_text items @ tr"
  have "Tokenizer_new (sv_of_string ?s) = \<lparr>tk_value = sv_null, tk_base = ?s @ [NUL], tk_current = 0,
      tk_end = length (?s @ [NUL]) - 1\<rparr>"
    by (simp add: Tokenizer_new_def sv_of_string_def sv_base_def sv_size_def)
  then show thesis
    using ParseArgLine_loop_line [OF assms(1,2), of "?s @ [NUL]" "[]" "length (?s @ [NUL]) - 1" sv_null "[]"]
      assms(3) that by (auto simp: ParseArgLine_def)
qed

section \<open>The flag parser\<close>

text \<open>The (long name, value) pairs a list of arguments gives; \<open>None\<close> for a malformed list.\<close>

fun arg_pairs :: "ArgsImpl \<Rightarrow> string_view list \<Rightarrow> (string \<times> string) list option" where
  "arg_pairs impl [] = Some []"
| "arg_pairs impl [a] =
     (if hd (sv_str a) \<noteq> CHR ''-'' then None
      else case GetFlag impl a of
             Inr (Some f) \<Rightarrow> if fl_type f = kBool then Some [(fl_long_name f, ''true'')] else None
           | _ \<Rightarrow> None)"
| "arg_pairs impl (a # v # args) =
     (if hd (sv_str a) \<noteq> CHR ''-'' then None
      else case GetFlag impl a of
             Inr (Some f) \<Rightarrow>
               if fl_type f = kBool
               then map_option (Cons (fl_long_name f, ''true'')) (arg_pairs impl (v # args))
               else if hd (sv_str v) = CHR ''-'' then None
               else map_option (Cons (fl_long_name f, sv_str v)) (arg_pairs impl args)
           | _ \<Rightarrow> None)"

definition view_ok :: "string_view \<Rightarrow> bool" where
  "view_ok v \<longleftrightarrow> sv_ok v \<and> sv_str v \<noteq> []"

lemma sv_index_hd: "view_ok v \<Longrightarrow> sv_index v 0 = Inr (hd (sv_str v))"
proof -
  assume v: "view_ok v"
  then have "sv_len v \<noteq> 0" using sv_str_empty_iff by (auto simp: view_ok_def)
  then show ?thesis using v by (simp add: view_ok_def sv_index_def sv_size_def sv_at_str hd_conv_nth)
qed

lemma invalid_arg_eq:
  assumes "length msg < 1000"
  shows "\<exists>st. invalid_arg msg x = Inr (st, x) \<and> \<not> st_ok st"
proof -
  have "kInvalidArgument \<in> set named_codes" by (simp add: named_codes_def)
  then obtain s where "Status_new kInvalidArgument (sv_of_string msg) = Inr s" "\<not> st_ok s"
    using Status_new_ok [of kInvalidArgument "sv_of_string msg"] assms by (auto simp: kMaxSize_def)
  then show ?thesis by (simp add: invalid_arg_def InvalidArgumentError_def)
qed

lemma GetFlag_total: "sv_ok a \<Longrightarrow> \<exists>f. GetFlag impl a = Inr f"
proof -
  assume a: "sv_ok a"
  have "\<exists>u. sv_substr a 2 npos = Inr u" if "4 \<le> sv_length a"
  proof -
    have "2 \<le> sv_len a" using that by (simp add: sv_length_def sv_size_def)
    then show ?thesis using sv_substr_Inr [OF a, of 2 npos] by blast
  qed
  then show ?thesis
    by (cases "4 \<le> sv_length a") (auto simp: GetFlag_def Let_def split: option.splits)
qed

lemma GetFlag_values [simp]: "GetFlag (impl\<lparr>ar_values := x\<rparr>) a = GetFlag impl a"
  by (simp add: GetFlag_def Let_def split: option.splits)

lemma to_string_eq: "to_string v = sv_str v"
  by (simp add: to_string_def sv_str_def sv_size_def)

definition arg_result :: "ArgsImpl \<Rightarrow> (string, string) smap \<Rightarrow> (string \<times> string) list option
    \<Rightarrow> (Status \<times> ArgsImpl) res \<Rightarrow> bool" where
  "arg_result impl r kvs out \<longleftrightarrow> (case kvs of
     Some kvs \<Rightarrow> out = Inr (OkStatus, impl\<lparr>ar_values := foldl (\<lambda>m (k, v). map_set m k v) r kvs\<rparr>)
   | None \<Rightarrow> \<exists>st. out = Inr (st, impl) \<and> \<not> st_ok st)"

lemma arg_result_invalid: "length msg < 1000 \<Longrightarrow> arg_result impl r None (invalid_arg msg impl)"
  using invalid_arg_eq [of msg impl] by (auto simp: arg_result_def)

lemma arg_result_Cons:
  "arg_result impl (map_set r k v) kvs out \<Longrightarrow> arg_result impl r (map_option (Cons (k, v)) kvs) out"
  by (cases kvs) (simp_all add: arg_result_def)

lemma Parse_loop_pairs:
  "list_all view_ok args \<Longrightarrow> arg_result impl r (arg_pairs impl args) (Parse_loop impl args r None)"
proof (induction impl args arbitrary: r rule: arg_pairs.induct)
  case (1 impl)
  show ?case by (simp add: arg_result_def)
next
  case (2 impl a)
  then have a: "sv_ok a" "sv_index a 0 = Inr (hd (sv_str a))" by (auto simp: view_ok_def sv_index_hd)
  obtain f where "GetFlag impl a = Inr f" using GetFlag_total [OF a(1)] by blast
  then show ?case
    using a by (cases f) (auto simp: arg_result_invalid, simp add: arg_result_def)
next
  case (3 impl a v args)
  then have a: "sv_ok a" "sv_index a 0 = Inr (hd (sv_str a))" "sv_index v 0 = Inr (hd (sv_str v))"
    by (auto simp: view_ok_def sv_index_hd)
  obtain f where f: "GetFlag impl a = Inr f" using GetFlag_total [OF a(1)] by blast
  consider (malformed) "hd (sv_str a) \<noteq> CHR ''-'' \<or> f = None"
    | (switch) g where "hd (sv_str a) = CHR ''-''" "f = Some g" "fl_type g = kBool"
    | (no_value) g where "hd (sv_str a) = CHR ''-''" "f = Some g" "fl_type g \<noteq> kBool" "hd (sv_str v) = CHR ''-''"
    | (valued) g where "hd (sv_str a) = CHR ''-''" "f = Some g" "fl_type g \<noteq> kBool" "hd (sv_str v) \<noteq> CHR ''-''"
    by blast
  then show ?case
  proof cases
    case malformed
    then show ?thesis using a f by (cases f) (auto simp: arg_result_invalid)
  next
    case (switch g)
    then have "arg_result impl (map_set r (fl_long_name g) ''true'') (arg_pairs impl (v # args))
        (Parse_loop impl (v # args) (map_set r (fl_long_name g) ''true'') None)"
      using 3(1) [of "Some g" g] 3(3) f by simp
    from arg_result_Cons [OF this] show ?thesis using a f switch by (simp del: Parse_loop.simps(1))
  next
    case (no_value g)
    then show ?thesis using a f by (simp add: arg_result_invalid)
  next
    case (valued g)
    then have "arg_result impl (map_set r (fl_long_name g) (sv_str v)) (arg_pairs impl args)
        (Parse_loop impl args (map_set r (fl_long_name g) (sv_str v)) None)"
      using 3(2) [of "Some g" g] 3(3) f by simp
    from arg_result_Cons [OF this] show ?thesis using a f valued by (simp add: to_string_eq)
  qed
qed

lemma Impl_Parse_skip:
  assumes "args \<noteq> []" "list_all view_ok args"
  shows "arg_result (impl\<lparr>ar_values := []\<rparr>) []
    (arg_pairs (impl\<lparr>ar_values := []\<rparr>) (if hd (sv_str (hd args)) \<noteq> CHR ''-'' then List.tl args else args))
    (Impl_Parse impl args)"
proof -
  obtain a rest where args: "args = a # rest" using assms(1) by (cases args) auto
  then have "view_ok a" "list_all view_ok rest" using assms(2) by simp_all
  then show ?thesis
    using Parse_loop_pairs [of rest "impl\<lparr>ar_values := []\<rparr>" "[]"]
      Parse_loop_pairs [of args "impl\<lparr>ar_values := []\<rparr>" "[]"] args
    by (simp add: Impl_Parse_def sv_index_hd del: Parse_loop.simps)
qed

section \<open>Properties\<close>

text \<open>
  C21. The tokenizer inverts rendering: a line of plain and quoted words, each preceded by blanks,
  is split without error into exactly those words, in order, and every view handed out lies inside
  the line.
\<close>

theorem ParseArgLine_roundtrip:
  assumes "list_all item_ok items" "list_all tk_blank tr" "length (line_text items @ tr) < kMaxSize"
  shows "\<exists>vs. ParseArgLine (sv_of_string (line_text items @ tr)) [] = Inr (OkStatus, vs) \<and>
    map sv_str vs = map (\<lambda>(sp, t). tok_word t) items \<and> list_all sv_ok vs"
proof -
  obtain vs where "ParseArgLine (sv_of_string (line_text items @ tr)) [] = Inr (OkStatus, vs)"
    "map sv_str vs = map (\<lambda>(sp, t). tok_word t) items" "list_all (\<lambda>v. sv_ok v \<and> sv_str v \<noteq> []) vs"
    by (rule ParseArgLine_line [OF assms])
  then show ?thesis by (auto simp: list_all_iff)
qed

theorem ParseArgLine_roundtrip_witness:
  "list_all item_ok [('' '', Plain ''-p''), ('' '', Quoted CHR 0x22 ''a b'')] \<and>
   (\<exists>vs. ParseArgLine (sv_of_string ('' -p '' @ CHR 0x22 # ''a b'' @ [CHR 0x22])) [] = Inr (OkStatus, vs) \<and>
     map sv_str vs = [''-p'', ''a b''])"
proof -
  let ?items = "[('' '', Plain ''-p''), ('' '', Quoted CHR 0x22 ''a b'')]"
  have h: "list_all item_ok ?items"
    by (simp add: item_ok_def tk_blank_def tk_quote_def schar_def)
  have l: "line_text ?items @ [] = '' -p '' @ CHR 0x22 # ''a b'' @ [CHR 0x22]"
    by (simp add: line_text_def)
  then have len: "length (line_text ?items @ []) < kMaxSize" by (simp add: kMaxSize_def)
  have e: "list_all tk_blank []" by simp
  show ?thesis
    using ParseArgLine_roundtrip [OF h e len] h unfolding l by auto
qed

text \<open>
  C20. \<open>Impl::Parse\<close> on any list of non-empty arguments: after an optional program name the list has to
  be flags, each non-boolean one followed by a value that does not start with a dash. Then parsing
  succeeds and \<open>GetValue\<close> returns for each name the last value given, or the default; otherwise an
  error is returned and no value is left from this or an earlier parse.
\<close>

theorem Impl_Parse_correct:
  assumes "args \<noteq> []" "list_all view_ok args"
  shows "case arg_pairs impl (if hd (sv_str (hd args)) \<noteq> CHR ''-'' then List.tl args else args) of
      Some kvs \<Rightarrow> \<exists>impl'. Impl_Parse impl args = Inr (OkStatus, impl') \<and>
        (\<forall>n. GetValue impl' (Some n) = (case map_of (rev kvs) n of
           Some v \<Rightarrow> v | None \<Rightarrow> GetValue (impl\<lparr>ar_values := []\<rparr>) (Some n)))
    | None \<Rightarrow> \<exists>st. Impl_Parse impl args = Inr (st, impl\<lparr>ar_values := []\<rparr>) \<and> \<not> st_ok st"
proof -
  let ?impl = "impl\<lparr>ar_values := []\<rparr>"
  let ?rest = "if hd (sv_str (hd args)) \<noteq> CHR ''-'' then List.tl args else args"
  have pairs: "arg_pairs ?impl as = arg_pairs impl as" for as
    by (induction impl as rule: arg_pairs.induct) (auto split: sum.splits option.splits)
  note res = Impl_Parse_skip [OF assms, of impl, unfolded pairs]
  show ?thesis
  proof (cases "arg_pairs impl ?rest")
    case None
    then show ?thesis using res by (simp only: arg_result_def option.case)
  next
    case (Some kvs)
    let ?m = "foldl (\<lambda>m (k, v). map_set m k v) [] kvs"
    have "map_find ?m n = map_of (rev kvs) n" for n
      using smap.find_upds [OF map_ok_Nil, of kvs n] by (simp split: option.splits)
    then have "GetValue (?impl\<lparr>ar_values := ?m\<rparr>) (Some n) =
        (case map_of (rev kvs) n of Some v \<Rightarrow> v | None \<Rightarrow> GetValue ?impl (Some n))" for n
      by (simp add: GetValue_def split: option.splits)
    moreover have "Impl_Parse impl args = Inr (OkStatus, ?impl\<lparr>ar_values := ?m\<rparr>)"
      using res Some by (simp only: arg_result_def option.case)
    ultimately show ?thesis using Some by (simp only: option.case) blast
  qed
qed

theorem Impl_Parse_correct_witness:
  "list_all view_ok [sv_of_string ''-h''] \<and>
   (\<exists>impl'. Impl_Parse Args_new [sv_of_string ''-h''] = Inr (OkStatus, impl') \<and>
      GetValue impl' (Some ''help'') = ''true'')"
proof -
  have h: "list_all view_ok [sv_of_string ''-h'']" "[sv_of_string ''-h''] \<noteq> []"
    by (simp_all add: view_ok_def kMaxSize_def)
  have "arg_pairs Args_new [sv_of_string ''-h''] = Some [(''help'', ''true'')]"
    by (simp add: GetFlag_def Args_new_def AddFlag_def sv_length_def sv_size_def sv_at_def sv_base_def
        sv_of_string_def IsLetterOrDigit_def IsLetter_def less_eq_char_def map_find_def NUL_def
        sv_str_def ptr_bytes_def Let_def)
  then show ?thesis
    using Impl_Parse_correct [OF h(2,1), of Args_new] h(1) by auto
qed

end
