(* ===== verification/Args_Demo.thy ===== *)
theory Args_Demo
  imports Args
begin

text \<open>
  The example program \<^verbatim>\<open>examples/args_demo/main.cc\<close>: a client of the flag parser. What it writes to
  \<open>std::cout\<close> is a string; every line is flushed, so the text before an exception that leaves \<open>main\<close>
  has been written.
\<close>

definition endl :: string where
  "endl = [CHR 0x0A]"

definition demo_args :: "ArgsImpl res" where
  "demo_args =
     (let args = Args_new;
          args = AddBool args CHR ''d'' (Some ''debug'') (Some ''Enable debug mode'');
          args = AddBool args CHR ''v'' (Some ''version'') (Some ''Print version information and quit'') in
      bindr (AddString args CHR ''c'' (Some ''config'') (Some ''/etc/myapp.ini'') (Some ''Location of client config files'')) (\<lambda>args.
      bindr (AddString args CHR ''r'' (Some ''remote'') (Some ''127.0.0.1'') (Some ''Remote address'')) (\<lambda>args.
      Inr (AddLong args CHR ''l'' (Some ''listen'') 8080 (Some ''Listen port'')))))"

definition demo_main :: "nat \<Rightarrow> cptr list \<Rightarrow> string \<times> int res" where
  "demo_main argc argv =
     (case bindr demo_args (\<lambda>args. Args_Parse_argv args argc argv) of
        Inl e \<Rightarrow> ('''', Inl e)
      | Inr (st, args) \<Rightarrow>
          if \<not> st_ok st
          then (''Error: '' @ st_ToString st @ endl @ Help args @ endl, Inr (- 1))
          else if GetBool args (Some ''help'') then (Help args @ endl, Inr 0)
          else if GetBool args (Some ''version'') then (''Version: 1.2.3'' @ endl, Inr 0)
          else
            let out = ''Config: '' @ GetString args (Some ''config'') @ endl @
                      ''Remote: '' @ GetString args (Some ''remote'') @ endl in
            case GetLong args (Some ''listen'') of
              Inl e \<Rightarrow> (out, Inl e)
            | Inr l \<Rightarrow> (out @ ''Listen: '' @ show_int l @ endl, Inr 0))"

section \<open>What the program prints\<close>

definition demo_flags :: ArgsImpl where
  "demo_flags = (case demo_args of Inr a \<Rightarrow> a | Inl e \<Rightarrow> Args_new)"

lemma demo_args_eq: "demo_args = Inr demo_flags"
  by (simp add: demo_flags_def demo_args_def AddString_def NUL_def)

lemma demo_values [simp]: "demo_flags\<lparr>ar_values := []\<rparr> = demo_flags"
  by (simp add: demo_flags_def demo_args_def Args_new_def AddString_def AddBool_def AddLong_def AddFlag_def Let_def NUL_def)

lemma AddFlag_maps:
  "ar_values (AddFlag impl f) = ar_values impl"
  "map_ok (long_flags impl) \<Longrightarrow> 2 \<le> length (fl_long_name f) \<Longrightarrow> map_ok (long_flags (AddFlag impl f))"
  "map_ok (long_flags impl) \<Longrightarrow> 2 \<le> length (fl_long_name f) \<Longrightarrow>
    map_find (long_flags (AddFlag impl f)) n = (if n = fl_long_name f then Some f else map_find (long_flags impl) n)"
  by (simp_all add: AddFlag_def Let_def smap_simps)

lemma show_8080: "show_int 8080 = ''8080''"
  by (simp add: show_int_def show_nat.simps [of 8080] show_nat.simps [of 808] show_nat.simps [of 80]
      show_nat.simps [of 8] digit_char_def char_of_def bit_Suc_0_iff)

lemma demo_default:
  "GetValue demo_flags (Some ''help'') = []" "GetValue demo_flags (Some ''version'') = []"
  "GetValue demo_flags (Some ''config'') = ''/etc/myapp.ini''" "GetValue demo_flags (Some ''remote'') = ''127.0.0.1''"
  "GetValue demo_flags (Some ''listen'') = ''8080''"
  by (simp_all add: demo_flags_def demo_args_def Args_new_def AddString_def AddBool_def AddLong_def GetValue_def
      AddFlag_maps NUL_def show_8080)

text \<open>The value of a flag: the last one given on the command line, or its default.\<close>

definition demo_value :: "(string \<times> string) list \<Rightarrow> string \<Rightarrow> string" where
  "demo_value kvs n = (case map_of (rev kvs) n of Some v \<Rightarrow> v | None \<Rightarrow> GetValue demo_flags (Some n))"

lemma demo_value_find:
  "GetValue (demo_flags\<lparr>ar_values := foldl (\<lambda>m (k, v). map_set m k v) [] kvs\<rparr>) (Some n) = demo_value kvs n"
proof -
  have "map_find (foldl (\<lambda>m (k, v). map_set m k v) [] kvs) n = map_of (rev kvs) n"
    using smap.find_upds [OF map_ok_Nil, of kvs n] by (simp split: option.splits)
  moreover have "map_find (ar_values demo_flags) n = None"
    by (metis ArgsImpl.select_convs(3) ArgsImpl.surjective ArgsImpl.update_convs(3) demo_values map_find_Nil)
  ultimately show ?thesis by (simp add: GetValue_def demo_value_def split: option.splits)
qed

lemma demo_main_flags:
  assumes "argv_views (take argc argv) [] = Inr args" "args \<noteq> []" "list_all view_ok args"
    and "arg_pairs demo_flags (if hd (sv_str (hd args)) \<noteq> CHR ''-'' then List.tl args else args) = Some kvs"
  shows "demo_main argc argv =
    (if demo_value kvs ''help'' \<noteq> '''' then (Help demo_flags @ endl, Inr 0)
     else if demo_value kvs ''version'' \<noteq> '''' then (''Version: 1.2.3'' @ endl, Inr 0)
     else let out = ''Config: '' @ demo_value kvs ''config'' @ endl @ ''Remote: '' @ demo_value kvs ''remote'' @ endl in
       case stoll (demo_value kvs ''listen'') of
         Inl e \<Rightarrow> (out, Inl e)
       | Inr l \<Rightarrow> (out @ ''Listen: '' @ show_int l @ endl, Inr 0))"
proof -
  let ?f = "demo_flags\<lparr>ar_values := foldl (\<lambda>m (k, v). map_set m k v) [] kvs\<rparr>"
  have "Impl_Parse demo_flags args = Inr (OkStatus, ?f)"
    using Impl_Parse_skip [OF assms(2,3), of demo_flags] assms(4) by (simp add: arg_result_def)
  then have "bindr demo_args (\<lambda>a. Args_Parse_argv a argc argv) = Inr (OkStatus, ?f)"
    using assms(1) by (simp add: demo_args_eq Args_Parse_argv_def)
  moreover have "Help ?f = Help demo_flags" by (simp add: Help_def)
  ultimately show ?thesis
    by (simp add: demo_main_def GetBool_def GetString_def GetLong_def demo_value_find)
qed

text \<open>A malformed command line is answered with an error, the help text and the exit code -1.\<close>

lemma demo_main_error:
  assumes "argv_views (take argc argv) [] = Inr args" "args \<noteq> []" "list_all view_ok args"
    and "arg_pairs demo_flags (if hd (sv_str (hd args)) \<noteq> CHR ''-'' then List.tl args else args) = None"
  shows "\<exists>st. demo_main argc argv = (''Error: '' @ st_ToString st @ endl @ Help demo_flags @ endl, Inr (- 1)) \<and> \<not> st_ok st"
proof -
  obtain st where "Impl_Parse demo_flags args = Inr (st, demo_flags)" "\<not> st_ok st"
    using Impl_Parse_skip [OF assms(2,3), of demo_flags] assms(4) by (auto simp: arg_result_def)
  then show ?thesis using assms(1) by (simp add: demo_main_def demo_args_eq Args_Parse_argv_def) blast
qed

text \<open>A listen port that is not a number ends the program with an exception after two lines.\<close>

lemma demo_main_listen_throws:
  assumes "argv_views (take argc argv) [] = Inr args" "args \<noteq> []" "list_all view_ok args"
    and "arg_pairs demo_flags (if hd (sv_str (hd args)) \<noteq> CHR ''-'' then List.tl args else args) = Some [(''listen'', ''x'')]"
  shows "demo_main argc argv =
    (''Config: /etc/myapp.ini'' @ endl @ ''Remote: 127.0.0.1'' @ endl, Inl InvalidArgumentExn)"
proof -
  have "stoll ''x'' = Inl InvalidArgumentExn"
    by (simp add: stoll_def sto_int_def c_isspace_def c_isdigit_def less_eq_char_def Let_def)
  then show ?thesis using demo_main_flags [OF assms] by (simp add: demo_value_def demo_default)
qed

end
