(* ===== verification/Env.thy ===== *)
theory Env
  imports Base_Status Std_Map
begin

text \<open>
  \<^verbatim>\<open>cppboot/adv/env.cc\<close> and \<^verbatim>\<open>object.h\<close>: reference-counted objects and the global environment of
  named objects and strings. Objects live in an explicit store, so that a reference to a deleted
  object is visible: touching one is undefined behaviour. The mutexes make each operation atomic,
  except \<open>ObjectEnv::Get\<close>, which takes no lock: it is two steps here, the lookup and the later
  \<open>AddRefManually\<close>, between which other clients run. The data race on the \<open>std::map\<close> itself, a lookup
  while another thread inserts or erases, is below the grain of the model. \<open>Insert\<close> reads the name of
  its object before it locks; the object is the caller's and stays alive during the call.
\<close>

section \<open>Objects\<close>

record Object =
  ob_id :: "string option"
  ob_nref :: int

type_synonym heap = "nat \<Rightarrow> Object option"

definition Object_new :: "string option \<Rightarrow> Object" where
  "Object_new i = \<lparr>ob_id = i, ob_nref = 0\<rparr>"

definition ref_count :: "heap \<Rightarrow> nat \<Rightarrow> int res" where
  "ref_count h p = (case h p of None \<Rightarrow> Inl UndefinedBehaviour | Some ob \<Rightarrow> Inr (ob_nref ob))"

definition AddRefManually :: "heap \<Rightarrow> nat \<Rightarrow> heap res" where
  "AddRefManually h p =
     (case h p of
        None \<Rightarrow> Inl UndefinedBehaviour
      | Some ob \<Rightarrow> Inr (h(p \<mapsto> ob\<lparr>ob_nref := ob_nref ob + 1\<rparr>)))"

definition Object_Release :: "heap \<Rightarrow> nat \<Rightarrow> heap res" where
  "Object_Release h p =
     (case h p of
        None \<Rightarrow> Inl UndefinedBehaviour
      | Some ob \<Rightarrow>
          let n = ob_nref ob - 1 in
          if n = 0 then Inr (h(p := None)) else Inr (h(p \<mapsto> ob\<lparr>ob_nref := n\<rparr>)))"

definition intrusive_ptr_add_ref :: "heap \<Rightarrow> nat \<Rightarrow> heap res" where
  "intrusive_ptr_add_ref h obj = AddRefManually h obj"

definition intrusive_ptr_release :: "heap \<Rightarrow> nat \<Rightarrow> heap res" where
  "intrusive_ptr_release h obj = Object_Release h obj"

section \<open>ObjectEnv\<close>

type_synonym obj_env = "(string, nat) smap"

text \<open>\<open>!name || !*name\<close> for a C string that may be null.\<close>

definition no_name :: "string option \<Rightarrow> bool" where
  "no_name name \<longleftrightarrow> (case name of None \<Rightarrow> True | Some n \<Rightarrow> n = [])"

definition ObjectEnv_Insert :: "heap \<times> obj_env \<Rightarrow> nat option \<Rightarrow> (Status \<times> heap \<times> obj_env) res" where
  "ObjectEnv_Insert st obj =
     (case st of (h, objs) \<Rightarrow>
      case obj of
        None \<Rightarrow> ret_status (InvalidArgumentError (sv_of_string ''no service'')) (h, objs)
      | Some p \<Rightarrow>
          (case h p of
             None \<Rightarrow> Inl UndefinedBehaviour
           | Some ob \<Rightarrow>
               if no_name (ob_id ob)
               then ret_status (InvalidArgumentError (sv_of_string ''no name'')) (h, objs)
               else let name = the (ob_id ob) in
                 if map_find objs name \<noteq> None
                 then ret_status (AlreadyExistsError (sv_of_string name)) (h, objs)
                 else bindr (AddRefManually h p) (\<lambda>h'. Inr (OkStatus, h', map_set objs name p))))"

definition ObjectEnv_Remove :: "heap \<times> obj_env \<Rightarrow> string option \<Rightarrow> (heap \<times> obj_env) res" where
  "ObjectEnv_Remove st name =
     (case st of (h, objs) \<Rightarrow>
      if \<not> no_name name
      then (case map_find objs (the name) of
              Some p \<Rightarrow> bindr (Object_Release h p) (\<lambda>h'. Inr (h', map_erase objs (the name)))
            | None \<Rightarrow> Inr (h, objs))
      else Inr (h, objs))"

text \<open>
  The out parameter: \<open>receiver\<close> says that \<open>pobj\<close> is not null. The lookup ends in a status or in the
  pointer of an entry; the result of the second step carries \<open>*pobj\<close>.
\<close>

definition ObjectEnv_Get_find :: "obj_env \<Rightarrow> string option \<Rightarrow> bool \<Rightarrow> (Status + nat) res" where
  "ObjectEnv_Get_find objs name receiver =
     (if no_name name then bindr (InvalidArgumentError (sv_of_string ''no name'')) (\<lambda>st. Inr (Inl st))
      else if \<not> receiver then bindr (InvalidArgumentError (sv_of_string ''no receiver'')) (\<lambda>st. Inr (Inl st))
      else case map_find objs (the name) of
        None \<Rightarrow> bindr (NotFoundError (sv_of_string (the name))) (\<lambda>st. Inr (Inl st))
      | Some p \<Rightarrow> Inr (Inr p))"

definition ObjectEnv_Get_take :: "heap \<times> obj_env \<Rightarrow> nat \<Rightarrow> (Status \<times> nat option \<times> heap \<times> obj_env) res" where
  "ObjectEnv_Get_take st p =
     (case st of (h, objs) \<Rightarrow> bindr (AddRefManually h p) (\<lambda>h'. Inr (OkStatus, Some p, h', objs)))"

definition ObjectEnv_Get ::
    "heap \<times> obj_env \<Rightarrow> string option \<Rightarrow> bool \<Rightarrow> (Status \<times> nat option \<times> heap \<times> obj_env) res" where
  "ObjectEnv_Get st name receiver =
     bindr (ObjectEnv_Get_find (snd st) name receiver) (\<lambda>r.
     case r of Inl s \<Rightarrow> Inr (s, None, st) | Inr p \<Rightarrow> ObjectEnv_Get_take st p)"

section \<open>StringEnv\<close>

type_synonym str_env = "(string, string) smap"

definition StringEnv_Insert :: "str_env \<Rightarrow> string option \<Rightarrow> string option \<Rightarrow> str_env" where
  "StringEnv_Insert ss key val =
     (if \<not> no_name key
      then map_set ss (the key) (case val of Some v \<Rightarrow> v | None \<Rightarrow> '''') else ss)"

definition StringEnv_Remove :: "str_env \<Rightarrow> string option \<Rightarrow> str_env" where
  "StringEnv_Remove ss key = (if \<not> no_name key then map_erase ss (the key) else ss)"

definition StringEnv_Get :: "str_env \<Rightarrow> string option \<Rightarrow> string" where
  "StringEnv_Get ss key =
     (if \<not> no_name key
      then (case map_find ss (the key) of Some v \<Rightarrow> v | None \<Rightarrow> '''') else '''')"

section \<open>GlobalEnv\<close>

record GlobalEnv =
  ge_objs :: obj_env
  ge_strs :: str_env

definition GlobalEnv_New :: GlobalEnv where
  "GlobalEnv_New = \<lparr>ge_objs = [], ge_strs = []\<rparr>"

definition InsertObject :: "heap \<times> GlobalEnv \<Rightarrow> nat option \<Rightarrow> (Status \<times> heap \<times> GlobalEnv) res" where
  "InsertObject s obj =
     bindr (ObjectEnv_Insert (fst s, ge_objs (snd s)) obj) (\<lambda>(st, h, objs).
       Inr (st, h, (snd s)\<lparr>ge_objs := objs\<rparr>))"

definition RemoveObject :: "heap \<times> GlobalEnv \<Rightarrow> string option \<Rightarrow> (heap \<times> GlobalEnv) res" where
  "RemoveObject s name =
     bindr (ObjectEnv_Remove (fst s, ge_objs (snd s)) name) (\<lambda>(h, objs).
       Inr (h, (snd s)\<lparr>ge_objs := objs\<rparr>))"

definition GetObject ::
    "heap \<times> GlobalEnv \<Rightarrow> string option \<Rightarrow> bool \<Rightarrow> (Status \<times> nat option \<times> heap \<times> GlobalEnv) res" where
  "GetObject s name receiver =
     bindr (ObjectEnv_Get (fst s, ge_objs (snd s)) name receiver) (\<lambda>(st, p, h, objs).
       Inr (st, p, h, (snd s)\<lparr>ge_objs := objs\<rparr>))"

definition InsertString :: "GlobalEnv \<Rightarrow> string option \<Rightarrow> string option \<Rightarrow> GlobalEnv" where
  "InsertString g key val = g\<lparr>ge_strs := StringEnv_Insert (ge_strs g) key val\<rparr>"

definition RemoveString :: "GlobalEnv \<Rightarrow> string option \<Rightarrow> GlobalEnv" where
  "RemoveString g key = g\<lparr>ge_strs := StringEnv_Remove (ge_strs g) key\<rparr>"

definition Env_GetString :: "GlobalEnv \<Rightarrow> string option \<Rightarrow> string" where
  "Env_GetString g key = StringEnv_Get (ge_strs g) key"

section \<open>Clients\<close>

text \<open>
  Client programs as steps. \<open>held p\<close> counts the references clients own: those they took themselves
  and those \<open>Get\<close> gave them. A client only uses an object it knows to be alive (it just created it,
  or it holds a reference) and only releases references it owns. \<open>es_gets p\<close> counts the calls of \<open>Get\<close>
  that have read the entry of \<open>p\<close> and not yet taken their reference; a \<open>Get\<close> that finds nothing changes
  nothing and is no step.
\<close>

record env_state =
  es_heap :: heap
  es_objs :: obj_env
  es_held :: "nat \<Rightarrow> nat"
  es_gets :: "nat \<Rightarrow> nat"

inductive env_step :: "env_state \<Rightarrow> env_state \<Rightarrow> bool" where
  create: "es_heap s p = None \<Longrightarrow>
     env_step s (s\<lparr>es_heap := (es_heap s)(p \<mapsto> Object_new i)\<rparr>)"
| insert: "es_heap s p \<noteq> None \<Longrightarrow> ObjectEnv_Insert (es_heap s, es_objs s) (Some p) = Inr (st, h, objs) \<Longrightarrow>
     env_step s (s\<lparr>es_heap := h, es_objs := objs\<rparr>)"
| remove: "ObjectEnv_Remove (es_heap s, es_objs s) name = Inr (h, objs) \<Longrightarrow>
     env_step s (s\<lparr>es_heap := h, es_objs := objs\<rparr>)"
| get_find: "ObjectEnv_Get_find (es_objs s) name True = Inr (Inr p) \<Longrightarrow>
     env_step s (s\<lparr>es_gets := (es_gets s)(p := es_gets s p + 1)\<rparr>)"
| get_take: "es_gets s p > 0 \<Longrightarrow> ObjectEnv_Get_take (es_heap s, es_objs s) p = Inr (st, r, h, objs) \<Longrightarrow>
     env_step s (s\<lparr>es_heap := h, es_objs := objs, es_held := (es_held s)(p := es_held s p + 1),
       es_gets := (es_gets s)(p := es_gets s p - 1)\<rparr>)"
| add_ref: "es_heap s p \<noteq> None \<Longrightarrow> AddRefManually (es_heap s) p = Inr h \<Longrightarrow>
     env_step s (s\<lparr>es_heap := h, es_held := (es_held s)(p := es_held s p + 1)\<rparr>)"
| release: "es_held s p > 0 \<Longrightarrow> Object_Release (es_heap s) p = Inr h \<Longrightarrow>
     env_step s (s\<lparr>es_heap := h, es_held := (es_held s)(p := es_held s p - 1)\<rparr>)"

inductive env_reach :: "env_state \<Rightarrow> bool" where
  start: "env_reach \<lparr>es_heap = (\<lambda>_. None), es_objs = [], es_held = (\<lambda>_. 0), es_gets = (\<lambda>_. 0)\<rparr>"
| step: "env_reach s \<Longrightarrow> env_step s s' \<Longrightarrow> env_reach s'"

inductive_cases env_stepE: "env_step s s'"

text \<open>Every count is the number of references: one for an entry of the environment, and the clients'.\<close>

definition env_refs :: "obj_env \<Rightarrow> Object \<Rightarrow> nat \<Rightarrow> nat" where
  "env_refs objs ob p =
     (case ob_id ob of None \<Rightarrow> 0 | Some n \<Rightarrow> if map_find objs n = Some p then 1 else 0)"

definition env_inv :: "env_state \<Rightarrow> bool" where
  "env_inv s \<longleftrightarrow> map_ok (es_objs s) \<and>
     (\<forall>n p. map_find (es_objs s) n = Some p \<longrightarrow> (\<exists>ob. es_heap s p = Some ob \<and> ob_id ob = Some n)) \<and>
     (\<forall>p ob. es_heap s p = Some ob \<longrightarrow> ob_nref ob = int (env_refs (es_objs s) ob p + es_held s p)) \<and>
     (\<forall>p. es_heap s p = None \<longrightarrow> es_held s p = 0)"

lemma ret_status_Inr: "ret_status st x = Inr (s, y) \<Longrightarrow> y = x"
  by (cases st) (auto simp: ret_status_def)

lemma ObjectEnv_Insert_cases:
  assumes "ObjectEnv_Insert (h, objs) (Some p) = Inr (st, h', objs')"
  obtains "h' = h" "objs' = objs"
  | ob n where "h p = Some ob" "ob_id ob = Some n" "map_find objs n = None"
      "h' = h(p \<mapsto> ob\<lparr>ob_nref := ob_nref ob + 1\<rparr>)" "objs' = map_set objs n p"
  using assms
  by (auto simp: ObjectEnv_Insert_def AddRefManually_def no_name_def Let_def
      split: option.splits if_splits dest!: ret_status_Inr)

lemma ObjectEnv_Remove_cases:
  assumes "ObjectEnv_Remove (h, objs) name = Inr (h', objs')"
  obtains "h' = h" "objs' = objs"
  | n p where "map_find objs n = Some p" "Object_Release h p = Inr h'" "objs' = map_erase objs n"
proof (cases "no_name name \<or> map_find objs (the name) = None")
  case True
  then show ?thesis using that(1) assms by (auto simp: ObjectEnv_Remove_def split: if_splits)
next
  case False
  then obtain p where "map_find objs (the name) = Some p" by blast
  then show ?thesis
    using that(2) [of "the name" p] assms False
    by (cases "Object_Release h p") (auto simp: ObjectEnv_Remove_def)
qed

lemma ObjectEnv_Get_take_ok:
  "ObjectEnv_Get_take (h, objs) p = Inr (st, r, h', objs') \<Longrightarrow> AddRefManually h p = Inr h' \<and> objs' = objs \<and> r = Some p"
  by (auto simp: ObjectEnv_Get_take_def bindr_Inr_iff)

lemma ObjectEnv_Get_take_live: "h p \<noteq> None \<Longrightarrow> ObjectEnv_Get_take (h, objs) p \<noteq> Inl UndefinedBehaviour"
  by (auto simp: ObjectEnv_Get_take_def AddRefManually_def)

lemma ObjectEnv_Get_find_entry:
  "ObjectEnv_Get_find objs name rc = Inr (Inr p) \<Longrightarrow> map_find objs (the name) = Some p"
  by (auto simp: ObjectEnv_Get_find_def bindr_Inr_iff split: if_splits option.splits)

lemma env_entry: "env_inv s \<Longrightarrow> map_find (es_objs s) n = Some p \<Longrightarrow>
    \<exists>ob. es_heap s p = Some ob \<and> ob_id ob = Some n"
  by (simp add: env_inv_def)

lemma env_entry_id: "env_inv s \<Longrightarrow> es_heap s p = Some ob \<Longrightarrow>
    map_find (es_objs s) n = Some p \<Longrightarrow> ob_id ob = Some n"
  by (metis env_entry option.inject)

lemma env_invI:
  assumes "map_ok (es_objs s)"
    and "\<And>n p. map_find (es_objs s) n = Some p \<Longrightarrow> \<exists>ob. es_heap s p = Some ob \<and> ob_id ob = Some n"
    and "\<And>p ob. es_heap s p = Some ob \<Longrightarrow> ob_nref ob = int (env_refs (es_objs s) ob p + es_held s p)"
    and "\<And>p. es_heap s p = None \<Longrightarrow> es_held s p = 0"
  shows "env_inv s"
  using assms by (simp add: env_inv_def)

lemma env_invE:
  assumes "env_inv s"
  shows "map_ok (es_objs s)"
    "es_heap s p = Some ob \<Longrightarrow> ob_nref ob = int (env_refs (es_objs s) ob p + es_held s p)"
    "es_heap s p = None \<Longrightarrow> es_held s p = 0"
  using assms by (simp_all add: env_inv_def)

lemma env_refs_cong: "ob_id ob = ob_id ob' \<Longrightarrow>
    (\<And>n. ob_id ob = Some n \<Longrightarrow> (map_find m n = Some p) = (map_find m' n = Some p)) \<Longrightarrow>
    env_refs m ob p = env_refs m' ob' p"
  by (auto simp: env_refs_def split: option.splits)

lemma env_inv_insert:
  assumes "env_inv s" "h p = Some ob" "ob_id ob = Some n" "map_find objs n = None"
    and "h = es_heap s" "objs = es_objs s"
  shows "env_inv (s\<lparr>es_heap := h(p \<mapsto> ob\<lparr>ob_nref := ob_nref ob + 1\<rparr>), es_objs := map_set objs n p\<rparr>)"
proof (rule env_invI)
  let ?s = "s\<lparr>es_heap := h(p \<mapsto> ob\<lparr>ob_nref := ob_nref ob + 1\<rparr>), es_objs := map_set objs n p\<rparr>"
  note ok = env_invE(1) [OF assms(1)]
  show "map_ok (es_objs ?s)" using ok assms by (simp add: smap_simps)
  show "\<exists>ob'. es_heap ?s q = Some ob' \<and> ob_id ob' = Some m" if "map_find (es_objs ?s) m = Some q" for m q
    using that assms ok env_entry [OF assms(1), of m q] by (auto simp: smap_simps split: if_splits)
  show "ob_nref ob' = int (env_refs (es_objs ?s) ob' q + es_held ?s q)" if "es_heap ?s q = Some ob'" for q ob'
  proof (cases "q = p")
    case True
    have "env_refs objs ob p = 0" using assms(3,4) by (simp add: env_refs_def)
    moreover have "env_refs (map_set objs n p) (ob\<lparr>ob_nref := ob_nref ob + 1\<rparr>) p = 1"
      using assms(3,6) ok by (simp add: env_refs_def smap_simps)
    ultimately show ?thesis using that True assms env_invE(2) [OF assms(1), of p ob] by auto
  next
    case False
    then have "env_refs (map_set objs n p) ob' q = env_refs objs ob' q"
      using ok assms by (intro env_refs_cong) (auto simp: smap_simps)
    then show ?thesis using that False assms env_invE(2) [OF assms(1), of q ob'] by simp
  qed
  show "es_held ?s q = 0" if "es_heap ?s q = None" for q
    using that assms env_invE(3) [OF assms(1), of q] by (auto split: if_splits)
qed

lemma env_inv_nref:
  assumes "env_inv s" "es_heap s p = Some ob"
    and "n = int (env_refs (es_objs s) ob p + k)"
  shows "env_inv (s\<lparr>es_heap := (es_heap s)(p \<mapsto> ob\<lparr>ob_nref := n\<rparr>), es_held := (es_held s)(p := k)\<rparr>)"
    (is "env_inv ?s")
proof (rule env_invI)
  show "map_ok (es_objs ?s)" using env_invE(1) [OF assms(1)] by simp
  show "\<exists>ob'. es_heap ?s q = Some ob' \<and> ob_id ob' = Some m" if "map_find (es_objs ?s) m = Some q" for m q
    using that env_entry [OF assms(1), of m q] assms(2) by auto
  show "ob_nref ob' = int (env_refs (es_objs ?s) ob' q + es_held ?s q)" if q: "es_heap ?s q = Some ob'" for q ob'
  proof (cases "q = p")
    case True
    then have "ob' = ob\<lparr>ob_nref := n\<rparr>" using q by simp
    then have "env_refs (es_objs s) ob' p = env_refs (es_objs s) ob p" "ob_nref ob' = n"
      by (simp_all add: env_refs_def)
    then show ?thesis using True assms(3) by simp
  next
    case False
    then show ?thesis using q env_invE(2) [OF assms(1), of q ob'] by simp
  qed
  show "es_held ?s q = 0" if "es_heap ?s q = None" for q
    using that env_invE(3) [OF assms(1), of q] by (auto split: if_splits)
qed

lemma env_inv_addref:
  assumes "env_inv s" "AddRefManually (es_heap s) p = Inr h"
  shows "env_inv (s\<lparr>es_heap := h, es_held := (es_held s)(p := es_held s p + 1)\<rparr>)"
proof -
  obtain ob where ob: "es_heap s p = Some ob" "h = (es_heap s)(p \<mapsto> ob\<lparr>ob_nref := ob_nref ob + 1\<rparr>)"
    using assms(2) by (auto simp: AddRefManually_def split: option.splits)
  have "ob_nref ob + 1 = int (env_refs (es_objs s) ob p + (es_held s p + 1))"
    using env_invE(2) [OF assms(1) ob(1)] by simp
  from env_inv_nref [OF assms(1) ob(1) this] show ?thesis using ob(2) by simp
qed

lemma env_inv_delete:
  assumes "env_inv s" "\<And>n q. map_find m n = Some q \<longleftrightarrow> map_find (es_objs s) n = Some q \<and> q \<noteq> p"
    and "map_ok m"
  shows "env_inv (s\<lparr>es_heap := (es_heap s)(p := None), es_objs := m, es_held := (es_held s)(p := 0)\<rparr>)"
    (is "env_inv ?s")
proof (rule env_invI)
  show "map_ok (es_objs ?s)" using assms(3) by simp
  show "\<exists>ob'. es_heap ?s q = Some ob' \<and> ob_id ob' = Some k" if "map_find (es_objs ?s) k = Some q" for k q
    using that assms(2) [of k q] env_entry [OF assms(1), of k q] by auto
  show "ob_nref ob' = int (env_refs (es_objs ?s) ob' q + es_held ?s q)" if q: "es_heap ?s q = Some ob'" for q ob'
  proof -
    have "q \<noteq> p" "es_heap s q = Some ob'" using q by (auto split: if_splits)
    moreover have "env_refs m ob' q = env_refs (es_objs s) ob' q"
      using assms(2) \<open>q \<noteq> p\<close> by (intro env_refs_cong) auto
    ultimately show ?thesis using env_invE(2) [OF assms(1), of q ob'] by simp
  qed
  show "es_held ?s q = 0" if "es_heap ?s q = None" for q
    using that env_invE(3) [OF assms(1), of q] by (auto split: if_splits)
qed

lemma env_inv_release:
  assumes "env_inv s" "es_held s p > 0" "Object_Release (es_heap s) p = Inr h"
  shows "env_inv (s\<lparr>es_heap := h, es_held := (es_held s)(p := es_held s p - 1)\<rparr>)"
proof -
  obtain ob where ob: "es_heap s p = Some ob"
    using assms(3) by (auto simp: Object_Release_def split: option.splits)
  note n = env_invE(2) [OF assms(1) ob]
  show ?thesis
  proof (cases "ob_nref ob = 1")
    case True
    then have h: "h = (es_heap s)(p := None)" "es_held s p = 1" "env_refs (es_objs s) ob p = 0"
      using assms(2,3) ob n by (auto simp: Object_Release_def)
    have "map_find (es_objs s) k \<noteq> Some p" for k
      using h(3) env_entry_id [OF assms(1) ob, of k] by (auto simp: env_refs_def)
    then have "env_inv (s\<lparr>es_heap := (es_heap s)(p := None), es_objs := es_objs s, es_held := (es_held s)(p := 0)\<rparr>)"
      by (intro env_inv_delete [OF assms(1)]) (auto simp: env_invE(1) [OF assms(1)])
    then show ?thesis using h by simp
  next
    case False
    then have h: "h = (es_heap s)(p \<mapsto> ob\<lparr>ob_nref := ob_nref ob - 1\<rparr>)"
      using assms(3) ob by (auto simp: Object_Release_def Let_def)
    have "ob_nref ob - 1 = int (env_refs (es_objs s) ob p + (es_held s p - 1))"
      using n assms(2) by simp
    from env_inv_nref [OF assms(1) ob this] show ?thesis using h by simp
  qed
qed

text \<open>The entry of an object goes while someone else still holds a reference to it.\<close>

lemma env_inv_drop_entry:
  assumes "env_inv s" "map_find (es_objs s) n = Some p" "es_heap s p = Some ob" "ob_id ob = Some n"
    and "\<And>k. map_find (es_objs s) k = Some p \<longleftrightarrow> k = n"
  shows "env_inv (s\<lparr>es_heap := (es_heap s)(p \<mapsto> ob\<lparr>ob_nref := ob_nref ob - 1\<rparr>), es_objs := map_erase (es_objs s) n\<rparr>)"
    (is "env_inv ?s")
proof (rule env_invI)
  have n: "ob_nref ob = 1 + int (es_held s p)"
    using env_invE(2) [OF assms(1,3)] assms(2,4) by (simp add: env_refs_def)
  show "map_ok (es_objs ?s)" using env_invE(1) [OF assms(1)] by (simp add: smap_simps)
  show "\<exists>ob'. es_heap ?s q = Some ob' \<and> ob_id ob' = Some k" if "map_find (es_objs ?s) k = Some q" for k q
    using that env_entry [OF assms(1), of k q] assms(5) [of k] by (auto simp: smap_simps split: if_splits)
  show "ob_nref ob' = int (env_refs (es_objs ?s) ob' q + es_held ?s q)" if q: "es_heap ?s q = Some ob'" for q ob'
  proof (cases "q = p")
    case True
    then show ?thesis using q n assms(4) by (auto simp: env_refs_def smap_simps)
  next
    case False
    then have "env_refs (map_erase (es_objs s) n) ob' q = env_refs (es_objs s) ob' q"
      using assms(2) by (intro env_refs_cong) (auto simp: smap_simps)
    then show ?thesis using q False env_invE(2) [OF assms(1), of q ob'] by simp
  qed
  show "es_held ?s q = 0" if "es_heap ?s q = None" for q
    using that env_invE(3) [OF assms(1), of q] by (auto split: if_splits)
qed

lemma env_inv_remove:
  assumes "env_inv s" "map_find (es_objs s) n = Some p" "Object_Release (es_heap s) p = Inr h"
  shows "env_inv (s\<lparr>es_heap := h, es_objs := map_erase (es_objs s) n\<rparr>)"
proof -
  obtain ob where ob: "es_heap s p = Some ob" "ob_id ob = Some n"
    using env_entry [OF assms(1,2)] by blast
  have n: "ob_nref ob = 1 + int (es_held s p)"
    using env_invE(2) [OF assms(1) ob(1)] assms(2) ob(2) by (simp add: env_refs_def)
  have ent: "map_find (es_objs s) k = Some p \<longleftrightarrow> k = n" for k
    using env_entry_id [OF assms(1) ob(1), of k] ob(2) assms(2) by auto
  note ok = env_invE(1) [OF assms(1)]
  show ?thesis
  proof (cases "es_held s p = 0")
    case True
    then have h: "h = (es_heap s)(p := None)" using assms(3) ob n by (simp add: Object_Release_def)
    have "map_find (map_erase (es_objs s) n) k = Some q \<longleftrightarrow> map_find (es_objs s) k = Some q \<and> q \<noteq> p" for k q
      using ent [of k] assms(2) by (auto simp: smap_simps)
    then have "env_inv (s\<lparr>es_heap := (es_heap s)(p := None), es_objs := map_erase (es_objs s) n,
        es_held := (es_held s)(p := 0)\<rparr>)"
      by (intro env_inv_delete [OF assms(1)]) (auto simp: ok smap_simps)
    moreover have "(es_held s)(p := 0) = es_held s" using True by auto
    ultimately show ?thesis using h by simp
  next
    case False
    then have h: "h = (es_heap s)(p \<mapsto> ob\<lparr>ob_nref := ob_nref ob - 1\<rparr>)"
      using assms(3) ob n by (simp add: Object_Release_def Let_def)
    then show ?thesis using env_inv_drop_entry [OF assms(1,2) ob ent] by simp
  qed
qed

lemma env_inv_create:
  assumes "env_inv s" "es_heap s p = None"
  shows "env_inv (s\<lparr>es_heap := (es_heap s)(p \<mapsto> Object_new i)\<rparr>)" (is "env_inv ?s")
proof (rule env_invI)
  have ent: "map_find (es_objs s) k \<noteq> Some p" for k
    using env_entry [OF assms(1), of k p] assms(2) by auto
  show "map_ok (es_objs ?s)" using env_invE(1) [OF assms(1)] by simp
  show "\<exists>ob'. es_heap ?s q = Some ob' \<and> ob_id ob' = Some k" if "map_find (es_objs ?s) k = Some q" for k q
    using that env_entry [OF assms(1), of k q] assms(2) by auto
  show "ob_nref ob' = int (env_refs (es_objs ?s) ob' q + es_held ?s q)" if "es_heap ?s q = Some ob'" for q ob'
    using that env_invE(2) [OF assms(1), of q ob'] env_invE(3) [OF assms] ent
    by (auto simp: Object_new_def env_refs_def split: if_splits option.splits)
  show "es_held ?s q = 0" if "es_heap ?s q = None" for q
    using that env_invE(3) [OF assms(1), of q] by (auto split: if_splits)
qed

lemma env_inv_step: "env_step s s' \<Longrightarrow> env_inv s \<Longrightarrow> env_inv s'"
proof (induction rule: env_step.induct)
  case (create s p i)
  then show ?case using env_inv_create by blast
next
  case (insert s p st h objs)
  from insert(2) show ?case
  proof (cases rule: ObjectEnv_Insert_cases)
    case 1
    then show ?thesis using insert(3) by simp
  next
    case (2 ob n)
    then show ?thesis using env_inv_insert [OF insert(3), of "es_heap s"] by simp
  qed
next
  case (remove s name h objs)
  from remove(1) show ?case
  proof (cases rule: ObjectEnv_Remove_cases)
    case 1
    then show ?thesis using remove(2) by simp
  next
    case (2 n p)
    then show ?thesis using env_inv_remove [OF remove(2)] by simp
  qed
next
  case (get_find s name p)
  then show ?case by (simp add: env_inv_def)
next
  case (get_take s p st r h objs)
  have "env_inv (s\<lparr>es_heap := h, es_held := (es_held s)(p := es_held s p + 1)\<rparr>)"
    using env_inv_addref [OF get_take(3), of p h] ObjectEnv_Get_take_ok [OF get_take(2)] by simp
  then show ?case using ObjectEnv_Get_take_ok [OF get_take(2)] by (simp add: env_inv_def)
next
  case (add_ref s p h)
  then show ?case using env_inv_addref by blast
next
  case (release s p h)
  then show ?case using env_inv_release by blast
qed

lemma env_reach_inv: "env_reach s \<Longrightarrow> env_inv s"
proof (induction rule: env_reach.induct)
  case start
  show ?case by (simp add: env_inv_def)
next
  case (step s s')
  then show ?case using env_inv_step by blast
qed

section \<open>Properties\<close>

text \<open>
  C5. Reference counting is exact: in every state clients can reach, each object alive has as many
  references counted as the environment and the clients hold, and every name of the environment
  leads to a live object with that name. Hence \<open>Remove\<close> never touches a deleted object; a \<open>Get\<close> that
  runs without a \<open>Remove\<close> in between returns the object; the second step of a \<open>Get\<close> under way is safe
  as long as its object is still in the environment or a client holds a reference to it, and not
  otherwise (\<open>Get_races_Remove\<close>); and an object is deleted by the release of its last reference.
\<close>

theorem env_refcount:
  assumes "env_reach s"
  shows "(\<forall>n p. map_find (es_objs s) n = Some p \<longrightarrow> (\<exists>ob. es_heap s p = Some ob \<and> ob_id ob = Some n)) \<and>
    (\<forall>p ob. es_heap s p = Some ob \<longrightarrow> ob_nref ob = int (env_refs (es_objs s) ob p + es_held s p)) \<and>
    (\<forall>name. ObjectEnv_Remove (es_heap s, es_objs s) name \<noteq> Inl UndefinedBehaviour) \<and>
    (\<forall>n p. n \<noteq> [] \<and> map_find (es_objs s) n = Some p \<longrightarrow>
       (\<exists>h. ObjectEnv_Get (es_heap s, es_objs s) (Some n) True = Inr (OkStatus, Some p, h, es_objs s))) \<and>
    (\<forall>p. es_gets s p > 0 \<and> (es_held s p > 0 \<or> (\<exists>n. map_find (es_objs s) n = Some p)) \<longrightarrow>
       ObjectEnv_Get_take (es_heap s, es_objs s) p \<noteq> Inl UndefinedBehaviour) \<and>
    (\<forall>p. es_held s p > 0 \<longrightarrow> (\<exists>ob h. es_heap s p = Some ob \<and> Object_Release (es_heap s) p = Inr h \<and>
       (h p = None \<longleftrightarrow> env_refs (es_objs s) ob p = 0 \<and> es_held s p = 1)))"
proof -
  have inv: "env_inv s" using env_reach_inv [OF assms] .
  have alive: "\<exists>ob. es_heap s p = Some ob \<and> ob_nref ob = int (env_refs (es_objs s) ob p + es_held s p)"
    if "es_held s p > 0" for p
    using inv that unfolding env_inv_def by (metis less_irrefl not_None_eq)
  have rm: "ObjectEnv_Remove (es_heap s, es_objs s) name \<noteq> Inl UndefinedBehaviour" for name
  proof (cases "no_name name")
    case False
    show ?thesis
    proof (cases "map_find (es_objs s) (the name)")
      case (Some p)
      then obtain ob where "es_heap s p = Some ob" using env_entry [OF inv] by blast
      then show ?thesis
        using False Some by (simp add: ObjectEnv_Remove_def Object_Release_def Let_def)
    qed (simp add: ObjectEnv_Remove_def)
  qed (simp add: ObjectEnv_Remove_def)
  have rel: "\<exists>ob h. es_heap s p = Some ob \<and> Object_Release (es_heap s) p = Inr h \<and>
       (h p = None \<longleftrightarrow> env_refs (es_objs s) ob p = 0 \<and> es_held s p = 1)" if "es_held s p > 0" for p
    using alive [OF that] that by (auto simp: Object_Release_def Let_def)
  have get: "\<exists>h. ObjectEnv_Get (es_heap s, es_objs s) (Some n) True = Inr (OkStatus, Some p, h, es_objs s)"
    if "n \<noteq> []" "map_find (es_objs s) n = Some p" for n p
    using that env_entry [OF inv that(2)]
    by (auto simp: ObjectEnv_Get_def ObjectEnv_Get_find_def ObjectEnv_Get_take_def AddRefManually_def no_name_def)
  have pending: "ObjectEnv_Get_take (es_heap s, es_objs s) p \<noteq> Inl UndefinedBehaviour"
    if "es_held s p > 0 \<or> (\<exists>n. map_find (es_objs s) n = Some p)" for p
    using that alive [of p] env_entry [OF inv, of _ p] by (intro ObjectEnv_Get_take_live) auto
  show ?thesis
    using inv unfolding env_inv_def by (intro conjI) (use rm rel get pending in blast)+
qed

text \<open>An object named \<open>a\<close> at address 7, entered in the environment, and a \<open>Get\<close> that has found it.\<close>

definition env_one :: env_state where
  "env_one = \<lparr>es_heap = (\<lambda>_. None)(7 \<mapsto> \<lparr>ob_id = Some ''a'', ob_nref = 1\<rparr>), es_objs = [(''a'', 7)],
     es_held = (\<lambda>_. 0), es_gets = (\<lambda>_. 0)(7 := 1)\<rparr>"

lemma env_one_reach: "env_reach env_one"
proof -
  let ?s0 = "\<lparr>es_heap = (\<lambda>_. None), es_objs = [], es_held = (\<lambda>_. 0), es_gets = (\<lambda>_. 0)\<rparr>"
  let ?s1 = "?s0\<lparr>es_heap := (\<lambda>_. None)(7 \<mapsto> Object_new (Some ''a''))\<rparr>"
  let ?s2 = "?s1\<lparr>es_heap := (es_heap ?s1)(7 \<mapsto> \<lparr>ob_id = Some ''a'', ob_nref = 1\<rparr>), es_objs := [(''a'', 7)]\<rparr>"
  have 1: "env_reach ?s1"
    using env_step.create [of ?s0 7 "Some ''a''"] env_reach.start env_reach.step by fastforce
  have "ObjectEnv_Insert (es_heap ?s1, es_objs ?s1) (Some 7) = Inr (OkStatus, es_heap ?s2, es_objs ?s2)"
    by (simp add: ObjectEnv_Insert_def AddRefManually_def Object_new_def no_name_def Let_def)
  then have "env_step ?s1 ?s2" using env_step.insert [of ?s1 7] by simp
  then have 2: "env_reach ?s2" by (rule env_reach.step [OF 1])
  have "ObjectEnv_Get_find (es_objs ?s2) (Some ''a'') True = Inr (Inr 7)"
    by (simp add: ObjectEnv_Get_find_def no_name_def map_find_def)
  then have "env_step ?s2 env_one" using env_step.get_find [of ?s2 "Some ''a''" 7] by (simp add: env_one_def)
  then show ?thesis by (rule env_reach.step [OF 2])
qed

theorem env_refcount_witness:
  "env_reach env_one \<and> map_find (es_objs env_one) ''a'' = Some 7 \<and> es_heap env_one 7 \<noteq> None \<and>
   ObjectEnv_Get_take (es_heap env_one, es_objs env_one) 7 \<noteq> Inl UndefinedBehaviour"
  using env_refcount [OF env_one_reach] env_one_reach by (auto simp: env_one_def map_find_def)

text \<open>
  \<open>Get\<close> can touch a deleted object: clients reach a state in which a \<open>Get\<close> has found an object, a
  \<open>Remove\<close> has dropped its last reference and deleted it, and the \<open>AddRefManually\<close> of the \<open>Get\<close> is
  undefined behaviour. Every step of the run is a correct call.
\<close>

lemma Get_races_Remove:
  "\<exists>s s'. env_reach s \<and> ObjectEnv_Get_find (es_objs s) (Some ''a'') True = Inr (Inr 7) \<and> es_gets s 7 = 1 \<and>
     env_step s s' \<and> ObjectEnv_Remove (es_heap s, es_objs s) (Some ''a'') = Inr (es_heap s', es_objs s') \<and>
     es_gets s' 7 = 1 \<and> es_heap s' 7 = None \<and>
     ObjectEnv_Get_take (es_heap s', es_objs s') 7 = Inl UndefinedBehaviour"
proof -
  let ?s' = "env_one\<lparr>es_heap := (\<lambda>_. None), es_objs := []\<rparr>"
  have "ObjectEnv_Remove (es_heap env_one, es_objs env_one) (Some ''a'') = Inr (es_heap ?s', es_objs ?s')"
    by (simp add: ObjectEnv_Remove_def Object_Release_def env_one_def map_find_def map_erase_def no_name_def)
  moreover from this have "env_step env_one ?s'" using env_step.remove [of env_one "Some ''a''"] by simp
  ultimately show ?thesis
    using env_one_reach
    by (intro exI [of _ env_one] exI [of _ ?s'])
      (simp add: env_one_def ObjectEnv_Get_find_def ObjectEnv_Get_take_def AddRefManually_def no_name_def map_find_def)
qed

end
