(* ===== verification/Fs.thy ===== *)
theory Fs
  imports Base_Status
begin

text \<open>
  \<^verbatim>\<open>cppboot/base/fs.cc\<close>: path functions and thin wrappers around system calls. The operating system
  is a parameter: a record of functions on an abstract world that return what the calls return
  (result, \<open>errno\<close>, changed world). Strings passed to it go through \<open>c_str\<close>.
\<close>

section \<open>Paths\<close>

definition kPathSeparator :: string where
  "kPathSeparator = ''/''"

abbreviation sep_view :: string_view where
  "sep_view \<equiv> sv_of_string kPathSeparator"

definition PathJoin2 :: "string_view \<Rightarrow> string_view \<Rightarrow> string res" where
  "PathJoin2 a b =
     bindr (StrTrimRight a sep_view) (\<lambda>a'.
     let result = StrAppend [] a' @ kPathSeparator in
     bindr (StrTrim b sep_view) (\<lambda>b'.
     Inr (StrAppend result b')))"

definition PathJoin3 :: "string_view \<Rightarrow> string_view \<Rightarrow> string_view \<Rightarrow> string res" where
  "PathJoin3 a b c =
     bindr (StrTrimRight a sep_view) (\<lambda>a'.
     let result = StrAppend [] a' @ kPathSeparator in
     bindr (StrTrim b sep_view) (\<lambda>b'.
     let result = StrAppend result b' @ kPathSeparator in
     bindr (StrTrim c sep_view) (\<lambda>c'.
     Inr (StrAppend result c'))))"

definition PathJoin4 :: "string_view \<Rightarrow> string_view \<Rightarrow> string_view \<Rightarrow> string_view \<Rightarrow> string res" where
  "PathJoin4 a b c d =
     bindr (StrTrimRight a sep_view) (\<lambda>a'.
     let result = StrAppend [] a' @ kPathSeparator in
     bindr (StrTrim b sep_view) (\<lambda>b'.
     let result = StrAppend result b' @ kPathSeparator in
     bindr (StrTrim c sep_view) (\<lambda>c'.
     let result = StrAppend result c' @ kPathSeparator in
     bindr (StrTrim d sep_view) (\<lambda>d'.
     Inr (StrAppend result d')))))"

definition PathJoin5 ::
    "string_view \<Rightarrow> string_view \<Rightarrow> string_view \<Rightarrow> string_view \<Rightarrow> string_view \<Rightarrow> string res" where
  "PathJoin5 a b c d e =
     bindr (StrTrimRight a sep_view) (\<lambda>a'.
     let result = StrAppend [] a' @ kPathSeparator in
     bindr (StrTrim b sep_view) (\<lambda>b'.
     let result = StrAppend result b' @ kPathSeparator in
     bindr (StrTrim c sep_view) (\<lambda>c'.
     let result = StrAppend result c' @ kPathSeparator in
     bindr (StrTrim d sep_view) (\<lambda>d'.
     let result = StrAppend result d' @ kPathSeparator in
     bindr (StrTrim e sep_view) (\<lambda>e'.
     Inr (StrAppend result e'))))))"

definition PathSplit :: "string_view \<Rightarrow> string list res" where
  "PathSplit path =
     (if sv_empty path then Inr []
      else bindr (sv_index path 0) (\<lambda>c0.
        let result = (if c0 = CHR ''/'' then [''/''] else []) in
        bindr (StrSplit path (hd kPathSeparator)) (\<lambda>vec.
        Inr (foldl (\<lambda>result i. if i = [] then result else result @ [i]) result vec))))"

definition Dir :: "string_view \<Rightarrow> string_view res" where
  "Dir path =
     (let pos = sv_find_last_of_cstr path (Some (''/'' @ [CHR 0x5C, NUL], 0)) npos in
      if pos \<noteq> npos then sv_substr path 0 pos else Inr sv_null)"

text \<open>
  \<open>strrchr\<close> reads from \<open>data()\<close> up to the terminating NUL of the array, whatever the length of the
  view; a null pointer or an array without NUL is undefined.
\<close>

definition strrchr :: "cptr \<Rightarrow> char \<Rightarrow> cptr res" where
  "strrchr p c =
     (case p of
        None \<Rightarrow> Inl UndefinedBehaviour
      | Some (b, k) \<Rightarrow>
          if NUL \<notin> set (drop k b) then Inl UndefinedBehaviour
          else let s = c_str (drop k b); pos = str_find_last_of s [c] in
            if pos = npos then Inr None else Inr (Some (b, k + pos)))"

definition Basename :: "string_view \<Rightarrow> string_view res" where
  "Basename path =
     bindr (strrchr (sv_ptr path) CHR ''/'') (\<lambda>slash.
       if slash \<noteq> None then Inr (sv_of_cstr (ptr_add slash 1))
       else bindr (strrchr (sv_ptr path) CHR 0x5C) (\<lambda>slash.
         if slash \<noteq> None then Inr (sv_of_cstr (ptr_add slash 1)) else Inr path))"

definition GetTempPath :: "string \<Rightarrow> string" where
  "GetTempPath name = ''/tmp/'' @ name"

section \<open>System calls\<close>

text \<open>
  Results are pairs of the return value and \<open>errno\<close>. \<open>sys_fopen_read\<close> gives \<open>errno\<close>, or 0 when
  the stream is open; \<open>sys_fread\<close> gives the bytes one \<open>fread\<close> call delivers to a stream that has
  delivered so many bytes before, in the state of the file system at that call, and what \<open>ferror\<close>
  reports; \<open>sys_fwrite\<close> gives the count written and what \<open>ferror\<close> reports.
\<close>

record 'w sys =
  sys_strerror :: "int \<Rightarrow> string"
  sys_realpath :: "string \<Rightarrow> 'w \<Rightarrow> string option"
  sys_readlink :: "string \<Rightarrow> 'w \<Rightarrow> int \<times> string"
  sys_ofstream :: "string \<Rightarrow> 'w \<Rightarrow> 'w option"
  sys_put :: "string \<Rightarrow> string \<Rightarrow> 'w \<Rightarrow> 'w"
  sys_open_append :: "string \<Rightarrow> 'w \<Rightarrow> bool"
  sys_append :: "string \<Rightarrow> string \<Rightarrow> 'w \<Rightarrow> int \<times> 'w"
  sys_ifstream :: "string \<Rightarrow> 'w \<Rightarrow> string option"
  sys_access :: "string \<Rightarrow> 'w \<Rightarrow> int"
  sys_lstat_dir :: "string \<Rightarrow> 'w \<Rightarrow> int \<times> bool"
  sys_stat_size :: "string \<Rightarrow> 'w \<Rightarrow> int \<times> nat"
  sys_opendir :: "string \<Rightarrow> 'w \<Rightarrow> string list option"
  sys_remove :: "string \<Rightarrow> 'w \<Rightarrow> (int \<times> int) \<times> 'w"
  sys_mkdir :: "string \<Rightarrow> nat \<Rightarrow> 'w \<Rightarrow> (int \<times> int) \<times> 'w"
  sys_link :: "string \<Rightarrow> string \<Rightarrow> 'w \<Rightarrow> (int \<times> int) \<times> 'w"
  sys_symlink :: "string \<Rightarrow> string \<Rightarrow> 'w \<Rightarrow> (int \<times> int) \<times> 'w"
  sys_rename :: "string \<Rightarrow> string \<Rightarrow> 'w \<Rightarrow> (int \<times> int) \<times> 'w"
  sys_fopen_read :: "string \<Rightarrow> 'w \<Rightarrow> int"
  sys_fread :: "string \<Rightarrow> nat \<Rightarrow> nat \<Rightarrow> 'w \<Rightarrow> string \<times> int"
  sys_fopen_write :: "string \<Rightarrow> 'w \<Rightarrow> int + 'w"
  sys_fwrite :: "string \<Rightarrow> string \<Rightarrow> 'w \<Rightarrow> (nat \<times> int) \<times> 'w"

abbreviation ENOENT :: int where "ENOENT \<equiv> 2"

abbreviation EEXIST :: int where "EEXIST \<equiv> 17"

definition fail_errno :: "'w sys \<Rightarrow> int \<Rightarrow> string res \<Rightarrow> 'w \<Rightarrow> (Status \<times> 'w) res" where
  "fail_errno os err msg w =
     bindr msg (\<lambda>m. bindr (ErrnoToStatus (sys_strerror os) err (sv_of_string m)) (\<lambda>s. Inr (s, w)))"

definition RealPath :: "'w sys \<Rightarrow> string_view \<Rightarrow> 'w \<Rightarrow> string" where
  "RealPath os path w =
     (case sys_realpath os (case sv_base path of (b, k) \<Rightarrow> c_str (drop k b)) w of
        Some buffer \<Rightarrow> c_str buffer
      | None \<Rightarrow> '''')"

definition Readlink :: "'w sys \<Rightarrow> string \<Rightarrow> 'w \<Rightarrow> string" where
  "Readlink os linkpath w =
     (case sys_readlink os (c_str linkpath) w of
        (n, buffer) \<Rightarrow> if n > 0 then c_str (take (nat n) buffer) else '''')"

definition WriteFile :: "'w sys \<Rightarrow> string \<Rightarrow> string \<Rightarrow> 'w \<Rightarrow> (Status \<times> 'w) res" where
  "WriteFile os filename content w =
     (if filename = []
      then bindr (InvalidArgumentError (sv_of_string ''no filename'')) (\<lambda>s. Inr (s, w))
      else case sys_ofstream os (c_str filename) w of
        None \<Rightarrow> bindr (CancelledError (sv_of_string ''create file failed'')) (\<lambda>s. Inr (s, w))
      | Some w1 \<Rightarrow> Inr (OkStatus, sys_put os (c_str filename) content w1))"

definition AppendFile :: "'w sys \<Rightarrow> string \<Rightarrow> string \<Rightarrow> 'w \<Rightarrow> bool \<times> 'w" where
  "AppendFile os filename data w =
     (if filename = [] \<or> data = [] then (False, w)
      else if sys_open_append os (c_str filename) w
      then (case sys_append os (c_str filename) data w of (n, w1) \<Rightarrow> (n > 0, w1))
      else (False, w))"

definition ReadFile :: "'w sys \<Rightarrow> string_view \<Rightarrow> 'w \<Rightarrow> string" where
  "ReadFile os filename w =
     (if \<not> sv_empty filename
      then (case sys_ifstream os (case sv_base filename of (b, k) \<Rightarrow> c_str (drop k b)) w of
              Some buf \<Rightarrow> buf
            | None \<Rightarrow> '''')
      else '''')"

definition IsFileExist :: "'w sys \<Rightarrow> string \<Rightarrow> 'w \<Rightarrow> bool" where
  "IsFileExist os filename w \<longleftrightarrow> sys_access os (c_str filename) w = 0"

definition IsDir :: "'w sys \<Rightarrow> string \<Rightarrow> 'w \<Rightarrow> bool" where
  "IsDir os path w \<longleftrightarrow> (case sys_lstat_dir os (c_str path) w of (rc, isdir) \<Rightarrow> rc = 0 \<and> isdir)"

definition FileSize :: "'w sys \<Rightarrow> string \<Rightarrow> 'w \<Rightarrow> nat" where
  "FileSize os path w =
     (case sys_stat_size os (c_str path) w of (rc, sz) \<Rightarrow> if rc = 0 then sz else 0)"

definition GetDirectoryChildren :: "'w sys \<Rightarrow> string \<Rightarrow> 'w \<Rightarrow> string list" where
  "GetDirectoryChildren os path w =
     (case sys_opendir os (c_str path) w of
        None \<Rightarrow> []
      | Some entries \<Rightarrow>
          foldl (\<lambda>children d_name.
            if d_name = ''.'' \<or> d_name = ''..'' then children else children @ [d_name]) [] entries)"

definition Remove :: "'w sys \<Rightarrow> string \<Rightarrow> 'w \<Rightarrow> (Status \<times> 'w) res" where
  "Remove os path w =
     (case sys_remove os (c_str path) w of
        ((rc, err), w1) \<Rightarrow>
          if rc < 0 \<and> err \<noteq> ENOENT
          then fail_errno os err (fmt_format ''failed to delete: {}'' [path]) w1
          else Inr (OkStatus, w1))"

text \<open>
  \<open>RemoveAll\<close> recurses into whatever \<open>opendir\<close> can list, so the depth is not bounded by the code:
  the first argument is the fuel, and \<open>None\<close> is a recursion deeper than that.
\<close>

fun RemoveAll :: "nat \<Rightarrow> 'w sys \<Rightarrow> string \<Rightarrow> 'w \<Rightarrow> (Status \<times> 'w) res option"
and RemoveAll_each :: "nat \<Rightarrow> 'w sys \<Rightarrow> string \<Rightarrow> string list \<Rightarrow> 'w \<Rightarrow> (Status \<times> 'w) res option" where
  "RemoveAll 0 os path w = None"
| "RemoveAll (Suc fuel) os path w =
     RemoveAll_each fuel os path (GetDirectoryChildren os path w) w"
| "RemoveAll_each fuel os path [] w = Some (Remove os path w)"
| "RemoveAll_each fuel os path (i # subpaths) w =
     (case PathJoin2 (sv_of_string path) (sv_of_string i) of
        Inl e \<Rightarrow> Some (Inl e)
      | Inr sub \<Rightarrow>
          (case RemoveAll fuel os sub w of
             None \<Rightarrow> None
           | Some (Inl e) \<Rightarrow> Some (Inl e)
           | Some (Inr (st, w1)) \<Rightarrow>
               if \<not> st_ok st then Some (Inr (st, w1))
               else RemoveAll_each fuel os path subpaths w1))"

definition Mkdir :: "'w sys \<Rightarrow> string \<Rightarrow> nat \<Rightarrow> 'w \<Rightarrow> (Status \<times> 'w) res" where
  "Mkdir os path mode w =
     (case sys_mkdir os (c_str path) mode w of
        ((rc, err), w1) \<Rightarrow>
          if rc < 0 \<and> err \<noteq> EEXIST
          then fail_errno os err (fmt_format ''failed to mkdir: {}'' [path]) w1
          else Inr (OkStatus, w1))"

text \<open>The default argument \<open>mode = 0755\<close> of \<open>Mkdir\<close>, which \<open>MkdirAll\<close> uses for every call.\<close>

definition default_mode :: nat where
  "default_mode = 493"

function MkdirAll_loop :: "'w sys \<Rightarrow> string \<Rightarrow> nat \<Rightarrow> 'w \<Rightarrow> (Status \<times> 'w) res" where
  "MkdirAll_loop os buf i w =
     (if i < npos
      then (case Mkdir os (buf[i := NUL]) default_mode w of
              Inl e \<Rightarrow> Inl e
            | Inr (st, w1) \<Rightarrow>
                if \<not> st_ok st then Inr (st, w1)
                else MkdirAll_loop os buf (str_find_first_of buf kPathSeparator (i + 1)) w1)
      else Mkdir os buf default_mode w)"
  by pat_completeness auto
termination
proof (relation "measure (\<lambda>(os, buf, i, w). npos - i)")
  fix os :: "'w sys" and buf i w b x y
  assume "i < npos"
  moreover have "i < str_find_first_of buf kPathSeparator (i + 1)"
    using str_find_first_of_spec [of buf kPathSeparator "i + 1"] \<open>i < npos\<close>
    by (auto simp: first_pos_def)
  ultimately show "((os, buf, str_find_first_of buf kPathSeparator (i + 1), y), os, buf, i, w)
      \<in> measure (\<lambda>(os, buf, i, w). npos - i)" by simp
qed simp

declare MkdirAll_loop.simps [simp del]

definition MkdirAll :: "'w sys \<Rightarrow> string \<Rightarrow> nat \<Rightarrow> 'w \<Rightarrow> (Status \<times> 'w) res" where
  "MkdirAll os path mode w =
     (let buf = path in MkdirAll_loop os buf (str_find_first_of buf kPathSeparator 1) w)"

definition Hardlink :: "'w sys \<Rightarrow> string \<Rightarrow> string \<Rightarrow> 'w \<Rightarrow> (Status \<times> 'w) res" where
  "Hardlink os src dst w =
     (case sys_link os (c_str src) (c_str dst) w of
        ((rc, err), w1) \<Rightarrow>
          if rc < 0 then fail_errno os err (fmt_format ''failed to link {} to {}'' [src, dst]) w1
          else Inr (OkStatus, w1))"

definition Symlink :: "'w sys \<Rightarrow> string \<Rightarrow> string \<Rightarrow> 'w \<Rightarrow> (Status \<times> 'w) res" where
  "Symlink os src dst w =
     (case sys_symlink os (c_str src) (c_str dst) w of
        ((rc, err), w1) \<Rightarrow>
          if rc < 0 then fail_errno os err (fmt_format ''failed to symlink {} to '' [src, dst]) w1
          else Inr (OkStatus, w1))"

text \<open>
  The loop of \<open>CopyFile\<close> reads a block and writes it before it reads the next one, and the destination
  is truncated before the first read. It ends only when a read delivers nothing.
\<close>

partial_function (option) CopyFile_loop ::
    "'w sys \<Rightarrow> string \<Rightarrow> string \<Rightarrow> nat \<Rightarrow> 'w \<Rightarrow> (Status \<times> 'w) res option" where
  "CopyFile_loop os src dst pos w =
     (case sys_fread os (c_str src) pos (32 * 1024) w of
        (buffer, err) \<Rightarrow>
          if buffer = []
          then Some (if err \<noteq> 0 then fail_errno os err (fmt_format ''failed to read src file'' []) w
                     else Inr (OkStatus, w))
          else (case sys_fwrite os (c_str dst) buffer w of
             ((nwrite, werr), w1) \<Rightarrow>
               if nwrite \<noteq> length buffer
               then Some (fail_errno os werr
                      (fmt_format ''failed to write dst file with {}'' [show_nat (length buffer)]) w1)
               else CopyFile_loop os src dst (pos + length buffer) w1))"

definition CopyFile :: "'w sys \<Rightarrow> string \<Rightarrow> string \<Rightarrow> 'w \<Rightarrow> (Status \<times> 'w) res option" where
  "CopyFile os src dst w =
     (let err = sys_fopen_read os (c_str src) w in
      if err \<noteq> 0 then Some (fail_errno os err (fmt_format ''failed to open src {}'' [src]) w)
      else (case sys_fopen_write os (c_str dst) w of
             Inl err \<Rightarrow> Some (fail_errno os err (fmt_format ''failed to create dst {}'' [src]) w)
           | Inr w1 \<Rightarrow> CopyFile_loop os src dst 0 w1))"

definition Rename :: "'w sys \<Rightarrow> string \<Rightarrow> string \<Rightarrow> 'w \<Rightarrow> (Status \<times> 'w) res" where
  "Rename os src dst w =
     (case sys_rename os (c_str src) (c_str dst) w of
        ((rc, err), w1) \<Rightarrow>
          if rc < 0 then fail_errno os err (fmt_format ''failed to rename {} to {}'' [src, dst]) w1
          else Inr (OkStatus, w1))"

section \<open>Components of a path\<close>

definition path_parts :: "string \<Rightarrow> string list" where
  "path_parts s = filter (\<lambda>w. w \<noteq> []) (split_on CHR ''/'' s)"

lemma split_on_append: "split_on d (a @ d # b) = split_on d a @ split_on d b"
proof (induction "length a" arbitrary: a rule: less_induct)
  case less
  show ?case
  proof (cases d a rule: split_on_cases)
    case none
    then show ?thesis by simp
  next
    case (some x y)
    then have "split_on d (y @ d # b) = split_on d y @ split_on d b" using less by simp
    moreover have "a @ d # b = x @ d # (y @ d # b)" using some by simp
    ultimately show ?thesis using some by (metis append_Cons split_on_simps(2))
  qed
qed

lemma path_parts_simps [simp]:
  "path_parts [] = []"
  "path_parts (a @ CHR ''/'' # b) = path_parts a @ path_parts b"
  by (simp_all add: path_parts_def split_on_append)

lemma path_parts_slash [simp]: "path_parts (CHR ''/'' # b) = path_parts b"
  using path_parts_simps(2) [of "[]" b] by simp

lemma path_parts_slashes_left: "set a \<subseteq> {CHR ''/''} \<Longrightarrow> path_parts (a @ b) = path_parts b"
  by (induction a) auto

lemma path_parts_slashes_right: "set b \<subseteq> {CHR ''/''} \<Longrightarrow> path_parts (a @ b) = path_parts a"
proof (induction b arbitrary: a)
  case (Cons c b)
  then show ?case using path_parts_slashes_left [of b "[]"] by simp
qed simp

lemma trim_set_sep [simp]: "trim_set sep_view = {CHR ''/''}"
  by (simp add: trim_set_def kPathSeparator_def sv_empty_def)

lemma sep_view_ok [simp]: "sv_ok sep_view"
  by (simp add: kPathSeparator_def kMaxSize_def)

lemma trim_right_split: "\<exists>b. s = trim_right C s @ b \<and> set b \<subseteq> C"
proof (cases "set s \<subseteq> C")
  case True
  then show ?thesis by (simp add: trim_right_def)
next
  case False
  let ?b = "rev (takeWhile (\<lambda>x. x \<in> C) (rev s))"
  have "s = trim_right C s @ ?b"
    using False by (simp add: trim_right_def) (metis rev_append rev_rev_ident takeWhile_dropWhile_id)
  moreover have "set ?b \<subseteq> C" using set_takeWhileD by fastforce
  ultimately show ?thesis by blast
qed

lemma trim_left_split: "\<exists>a. s = a @ trim_left C s \<and> set a \<subseteq> C"
  using set_takeWhileD [of _ "\<lambda>x. x \<in> C" s]
  by (cases "set s \<subseteq> C") (auto simp: trim_left_def intro!: exI [of _ "takeWhile (\<lambda>x. x \<in> C) s"])

lemma path_parts_trim [simp]:
  "path_parts (trim_right {CHR ''/''} s) = path_parts s"
  "path_parts (trim_left {CHR ''/''} s) = path_parts s"
  using trim_right_split [of s "{CHR ''/''}"] trim_left_split [of s "{CHR ''/''}"]
    path_parts_slashes_left path_parts_slashes_right by metis+

lemma trim_right_hd: "trim_right C s \<noteq> [] \<and> hd (trim_right C s) = hd s" if "s \<noteq> []"
proof (cases "set s \<subseteq> C")
  case False
  then have "trim_right C s \<noteq> []"
    by (auto simp: trim_right_def)
  moreover obtain b where "s = trim_right C s @ b" using trim_right_split by blast
  ultimately show ?thesis by (metis hd_append2)
qed (use that in \<open>simp add: trim_right_def\<close>)

lemma trim_length: "length (trim_right C s) \<le> length s" "length (trim_left C s) \<le> length s"
  by (auto simp: trim_right_def trim_left_def length_dropWhile_le)
    (metis length_dropWhile_le length_rev)

lemma StrAppend_eq: "sv_ok v \<Longrightarrow> StrAppend s v = s @ sv_str v"
  by (simp add: StrAppend_def sv_size_def sv_str_def)

lemma PathJoin2_eq:
  assumes "sv_ok a" "sv_ok b"
  shows "PathJoin2 a b = Inr (trim_right {CHR ''/''} (sv_str a) @ ''/'' @
    trim_right {CHR ''/''} (trim_left {CHR ''/''} (sv_str b)))"
proof -
  obtain a' where "StrTrimRight a sep_view = Inr a'" "sv_ok a'"
    "sv_str a' = trim_right {CHR ''/''} (sv_str a)"
    using StrTrimRight_eq [OF assms(1) sep_view_ok] by auto
  moreover obtain b' where "StrTrim b sep_view = Inr b'" "sv_ok b'"
    "sv_str b' = trim_right {CHR ''/''} (trim_left {CHR ''/''} (sv_str b))"
    using StrTrim_eq [OF assms(2) sep_view_ok] by auto
  ultimately show ?thesis
    by (simp add: PathJoin2_def StrAppend_eq kPathSeparator_def)
qed

lemma foldl_skip_empty: "foldl (\<lambda>r i. if i = [] then r else r @ [i]) r ws = r @ filter (\<lambda>w. w \<noteq> []) ws"
  by (induction ws arbitrary: r) auto

lemma PathSplit_eq:
  assumes "sv_ok v"
  shows "PathSplit v = Inr ((if sv_str v \<noteq> [] \<and> hd (sv_str v) = CHR ''/'' then [''/''] else [])
    @ path_parts (sv_str v))"
proof (cases "sv_empty v")
  case True
  then show ?thesis by (simp add: PathSplit_def sv_empty_def)
next
  case False
  then have ne: "sv_str v \<noteq> []" "0 < sv_len v" using assms by (simp_all add: sv_empty_def sv_str_empty_iff)
  then have "sv_index v 0 = Inr (hd (sv_str v))"
    using assms by (simp add: sv_index_def sv_size_def sv_at_str hd_conv_nth)
  then show ?thesis
    using False ne assms
    by (simp add: PathSplit_def StrSplit_eq kPathSeparator_def foldl_skip_empty path_parts_def)
qed

section \<open>MkdirAll\<close>

text \<open>The calls \<open>MkdirAll\<close> is meant to make: every prefix before a separator, then the path.\<close>

definition mkdir_prefixes :: "string \<Rightarrow> nat \<Rightarrow> string list" where
  "mkdir_prefixes path k =
     map (\<lambda>i. take i path) (filter (\<lambda>i. path ! i = CHR ''/'') [k..<length path]) @ [path]"

fun mkdir_each :: "'w sys \<Rightarrow> nat \<Rightarrow> string list \<Rightarrow> 'w \<Rightarrow> (Status \<times> 'w) res" where
  "mkdir_each os mode [] w = Inr (OkStatus, w)"
| "mkdir_each os mode (p # ps) w =
     (case Mkdir os p mode w of
        Inl e \<Rightarrow> Inl e
      | Inr (st, w1) \<Rightarrow> if \<not> st_ok st then Inr (st, w1) else mkdir_each os mode ps w1)"

lemma fmt_string_view_NUL: "NUL \<notin> set x \<Longrightarrow> fmt_string_view (sv_of_string (x @ NUL # q)) = Inr x"
  by (simp add: fmt_string_view_def sv_of_string_def sv_size_def)

lemma fail_errno_NUL:
  "NUL \<notin> set x \<Longrightarrow> fail_errno os err (Inr (x @ NUL # q)) w = fail_errno os err (Inr x) w"
  using fmt_string_view_NUL [of x q] fmt_string_view_string [of x]
  by (simp add: fail_errno_def ErrnoToStatus_def MessageForErrnoToStatus_def)

lemma fmt_mkdir: "fmt_format ''failed to mkdir: {}'' [p] = Inr (''failed to mkdir: '' @ p)"
  by simp

lemma Mkdir_NUL: "NUL \<notin> set p \<Longrightarrow> Mkdir os (p @ NUL # q) m w = Mkdir os p m w"
proof -
  assume p: "NUL \<notin> set p"
  have "NUL \<notin> set (''failed to mkdir: '' @ p)" using p by (simp add: NUL_def)
  then have "fail_errno os err (fmt_format ''failed to mkdir: {}'' [p @ NUL # q]) w1 =
      fail_errno os err (fmt_format ''failed to mkdir: {}'' [p]) w1" for err w1
    using fail_errno_NUL [OF \<open>NUL \<notin> set (''failed to mkdir: '' @ p)\<close>, of os err q w1]
    by (simp only: fmt_mkdir append_assoc)
  moreover obtain rc err w1 where "sys_mkdir os p m w = ((rc, err), w1)" by (metis prod.exhaust)
  ultimately show ?thesis using p c_str_id [OF p] by (simp add: Mkdir_def)
qed

lemma Mkdir_ok_only: "Mkdir os p m w = Inr (st, w1) \<Longrightarrow> st_ok st \<Longrightarrow> st = OkStatus"
  by (cases st) (simp add: st_ok_def OkStatus_def)

lemma mkdir_each_single: "mkdir_each os m [p] w = Mkdir os p m w"
  using Mkdir_ok_only [of os p m w]
  by (auto split: sum.splits)

lemma filter_upt_first:
  assumes "k \<le> j" "j < n" "P j" "\<And>i. k \<le> i \<Longrightarrow> i < j \<Longrightarrow> \<not> P i"
  shows "filter P [k..<n] = j # filter P [Suc j..<n]"
proof -
  have "[k..<n] = [k..<j] @ j # [Suc j..<n]"
    using assms(1,2) by (metis append.assoc less_imp_le upt_add_eq_append upt_conv_Cons le_Suc_ex)
  moreover have "filter P [k..<j] = []" using assms(4) by (auto simp: filter_empty_conv)
  ultimately show ?thesis using assms(3) by simp
qed

lemma MkdirAll_loop_eq:
  assumes "NUL \<notin> set buf" "length buf \<le> npos"
  shows "MkdirAll_loop os buf (str_find_first_of buf kPathSeparator k) w =
    mkdir_each os default_mode (mkdir_prefixes buf k) w"
proof (induction "length buf - k" arbitrary: k w rule: less_induct)
  case less
  let ?P = "\<lambda>i. buf ! i = CHR ''/''" and ?i = "str_find_first_of buf kPathSeparator k"
  have "first_pos ?P k (length buf) ?i"
    using str_find_first_of_spec [of buf kPathSeparator k] by (simp add: kPathSeparator_def)
  then show ?case using assms(2)
  proof (cases rule: first_posE)
    case 1
    then have "filter ?P [k..<length buf] = []" by (auto simp: filter_empty_conv)
    then show ?thesis
      using 1(1) mkdir_each_single [of os default_mode buf w]
      by (subst MkdirAll_loop.simps) (simp add: mkdir_prefixes_def)
  next
    case 2
    have "buf[?i := NUL] = take ?i buf @ NUL # drop (Suc ?i) buf" using 2(3) by (simp add: upd_conv_take_nth_drop)
    moreover have "NUL \<notin> set (take ?i buf)" using assms(1) by (meson in_set_takeD)
    ultimately have mk: "Mkdir os (buf[?i := NUL]) default_mode w = Mkdir os (take ?i buf) default_mode w"
      using Mkdir_NUL by simp
    have "mkdir_prefixes buf k = take ?i buf # mkdir_prefixes buf (Suc ?i)"
      using filter_upt_first [of k ?i "length buf" ?P] 2 by (simp add: mkdir_prefixes_def)
    moreover have "?i < npos" using 2(3) assms(2) by simp
    moreover have "MkdirAll_loop os buf (str_find_first_of buf kPathSeparator (Suc ?i)) w1 =
        mkdir_each os default_mode (mkdir_prefixes buf (Suc ?i)) w1" for w1
      using less [of "Suc ?i"] 2 by simp
    ultimately show ?thesis
      using mk by (subst MkdirAll_loop.simps) (simp split: sum.splits prod.splits)
  qed
qed

section \<open>Directory and base name\<close>

lemma last_of_view:
  assumes "p = a @ c # f" "c \<in> C" "set f \<inter> C = {}" "length p \<le> npos"
    and "last_pos (\<lambda>i. p ! i \<in> C) (length p) r"
  shows "r = length a"
proof -
  have "p ! j \<notin> C" if "length a < j" "j < length p" for j
  proof -
    have "p ! j = f ! (j - length a - 1)" using that assms(1) by (simp add: nth_append nth_Cons')
    moreover have "j - length a - 1 < length f" using that assms(1) by simp
    ultimately show ?thesis using assms(3) nth_mem by fastforce
  qed
  then have "last_pos (\<lambda>i. p ! i \<in> C) (length p) (length a)"
    using assms(1,2) by (simp add: last_pos_def)
  then show ?thesis using last_pos_unique [OF assms(5) _ assms(4)] by simp
qed

lemma strrchr_found:
  assumes "p = a @ c # f" "c \<notin> set f" "NUL \<notin> set p" "length p \<le> npos"
  shows "strrchr (Some (p @ [NUL], 0)) c = Inr (Some (p @ [NUL], length a))"
proof -
  have "str_find_last_of p [c] = length a"
    using assms by (intro last_of_view [of p a c f "{c}"])
      (use str_find_last_of_spec [of p "[c]"] in auto)
  moreover have "length a \<noteq> npos" using assms(1,4) by simp
  ultimately show ?thesis using assms(3) by (simp add: strrchr_def)
qed

lemma Basename_found:
  assumes "p = a @ CHR ''/'' # f" "CHR ''/'' \<notin> set f" "NUL \<notin> set p" "length p \<le> npos"
  shows "sv_ptr v = Some (p @ [NUL], 0) \<Longrightarrow>
    Basename v = Inr \<lparr>sv_ptr = Some (p @ [NUL], length a + 1), sv_len = length f\<rparr>"
  using strrchr_found [OF assms] assms(1,3)
  by (simp add: Basename_def ptr_add_def sv_of_cstr_def StrlenInternal_def)

lemma Dir_found:
  assumes "p = a @ CHR ''/'' # f" "CHR ''/'' \<notin> set f" "CHR 0x5C \<notin> set f" "length p < kMaxSize"
  shows "Dir (sv_of_string p) = Inr \<lparr>sv_ptr = Some (p @ [NUL], 0), sv_len = length a\<rparr>"
proof -
  let ?cs = "sv_of_cstr (Some (''/'' @ [CHR 0x5C, NUL], 0))"
  have str: "sv_str ?cs = [CHR ''/'', CHR 0x5C]" "sv_ok ?cs"
    by (simp_all add: sv_of_cstr_def sv_str_def ptr_bytes_def StrlenInternal_def c_str_def NUL_def
        sv_ok_def kMaxSize_def)
  have ok: "sv_ok (sv_of_string p)" using assms(4) by simp
  have len: "length p \<le> npos" using assms(4) le_npos by simp
  then have "min (Suc npos) (length p) = length p" by simp
  then have "last_pos (\<lambda>i. p ! i \<in> {CHR ''/'', CHR 0x5C}) (length p)
      (sv_find_last_of_cstr (sv_of_string p) (Some (''/'' @ [CHR 0x5C, NUL], 0)) npos)"
    using sv_find_last_of_spec [OF ok str(2), of npos] str(1)
    by (simp add: sv_find_last_of_cstr_def)
  then have pos: "sv_find_last_of_cstr (sv_of_string p) (Some (''/'' @ [CHR 0x5C, NUL], 0)) npos = length a"
    using assms(1-3) len by (intro last_of_view [of p a "CHR ''/''" f "{CHR ''/'', CHR 0x5C}"]) auto
  have "length a \<noteq> npos" "length a \<le> kMaxSize" "length a < length p" using assms(1,4) len by auto
  then show ?thesis
    using pos by (simp add: Dir_def Let_def sv_substr_def sv_of_string_def sv_of_ptr_len_def
        CheckLengthInternal_def sv_Min_def ptr_add_def)
qed

section \<open>Copying\<close>

text \<open>
  A source that the writes do not touch arrives whole: the blocks written are its bytes in order, and
  the loop ends. A destination that names the same file is truncated first, so nothing is left to read.
\<close>

primrec write_all :: "'w sys \<Rightarrow> string \<Rightarrow> string list \<Rightarrow> 'w \<Rightarrow> 'w" where
  "write_all os dst [] w = w"
| "write_all os dst (d # ds) w = write_all os dst ds (snd (sys_fwrite os dst d w))"

lemma CopyFile_loop_copies:
  assumes src: "\<And>pos n w. sys_fread os (c_str src) pos n w = (take n (drop pos content), 0)"
    and dst: "\<And>d w. fst (fst (sys_fwrite os (c_str dst) d w)) = length d"
  shows "\<exists>blocks. concat blocks = drop pos content \<and>
    CopyFile_loop os src dst pos w = Some (Inr (OkStatus, write_all os (c_str dst) blocks w))"
proof (induction "length content - pos" arbitrary: pos w rule: less_induct)
  case less
  let ?d = "take (32 * 1024) (drop pos content)"
  show ?case
  proof (cases "drop pos content = []")
    case True
    then show ?thesis
      by (intro exI [of _ "[]"]) (simp add: CopyFile_loop.simps src)
  next
    case False
    obtain n e w1 where w: "sys_fwrite os (c_str dst) ?d w = ((n, e), w1)"
      by (cases "sys_fwrite os (c_str dst) ?d w") auto
    have n: "n = length ?d" using dst [of ?d w] w by simp
    have "length content - (pos + length ?d) < length content - pos" using False by auto
    then obtain blocks where b: "concat blocks = drop (pos + length ?d) content"
      "CopyFile_loop os src dst (pos + length ?d) w1 = Some (Inr (OkStatus, write_all os (c_str dst) blocks w1))"
      using less by blast
    have "?d @ drop (pos + length ?d) content = drop pos content"
      by (metis append_take_drop_id add.commute drop_drop length_take min.absorb_iff1 min.commute
          drop_all linorder_le_cases min_def take_all)
    moreover have "CopyFile_loop os src dst pos w = CopyFile_loop os src dst (pos + length ?d) w1"
      using False w n by (subst CopyFile_loop.simps) (simp add: src del: length_take)
    ultimately show ?thesis
      using b w by (intro exI [of _ "?d # blocks"]) simp
  qed
qed

lemma CopyFile_copies:
  assumes "sys_fopen_read os (c_str src) w = 0" "sys_fopen_write os (c_str dst) w = Inr w1"
    and "\<And>pos n w. sys_fread os (c_str src) pos n w = (take n (drop pos content), 0)"
    and "\<And>d w. fst (fst (sys_fwrite os (c_str dst) d w)) = length d"
  shows "\<exists>blocks. concat blocks = content \<and>
    CopyFile os src dst w = Some (Inr (OkStatus, write_all os (c_str dst) blocks w1))"
  using CopyFile_loop_copies [OF assms(3,4), of 0 w1] assms(1,2) by (simp add: CopyFile_def)

lemma CopyFile_onto_itself:
  assumes "sys_fopen_read os (c_str f) w = 0" "sys_fopen_write os (c_str f) w = Inr w1"
    and "sys_fread os (c_str f) 0 (32 * 1024) w1 = ([], 0)"
  shows "CopyFile os f f w = Some (Inr (OkStatus, w1))"
  using assms by (simp add: CopyFile_def CopyFile_loop.simps)

section \<open>Properties\<close>

text \<open>
  Joining two paths and splitting the result gives the components of the first path followed by
  those of the second, for every non-empty first path: separators at the seam never change the
  components (although \<open>PathJoin("/", "b")\<close> is \<open>"//b"\<close>).
\<close>

lemma PathSplit_PathJoin:
  assumes "sv_ok a" "sv_ok b" "\<not> sv_empty a" "sv_len a + sv_len b + 1 < kMaxSize"
  shows "\<exists>r pa. PathJoin2 a b = Inr r \<and> PathSplit a = Inr pa \<and>
    PathSplit (sv_of_string r) = Inr (pa @ path_parts (sv_str b))"
proof -
  let ?S = "{CHR ''/''}"
  let ?a = "trim_right ?S (sv_str a)" and ?b = "trim_right ?S (trim_left ?S (sv_str b))"
  have "sv_str a \<noteq> []" using assms(1,3) by (simp add: sv_empty_def sv_str_empty_iff)
  then have hd: "?a \<noteq> []" "hd ?a = hd (sv_str a)" using trim_right_hd by blast+
  have "length ?a \<le> sv_len a" "length ?b \<le> sv_len b"
    using trim_length assms(1,2) by (metis length_sv_str, metis le_trans length_sv_str)
  then have "sv_ok (sv_of_string (?a @ ''/'' @ ?b))" using assms(4) by simp
  then show ?thesis
    using PathJoin2_eq [OF assms(1,2)] PathSplit_eq [OF assms(1)] hd \<open>sv_str a \<noteq> []\<close>
    by (simp add: PathSplit_eq)
qed

text \<open>
  \<open>Dir\<close> and \<open>Basename\<close> cut a path at its last slash; but \<open>Basename\<close> looks for the terminating NUL
  instead of the end of its view, so the base name of the directory of a path is the base name of
  the path again, not the name of the directory.
\<close>

lemma Dir_Basename:
  assumes "p = a @ CHR ''/'' # f" "CHR ''/'' \<notin> set f" "CHR 0x5C \<notin> set f" "NUL \<notin> set p"
    "length p < kMaxSize"
  shows "\<exists>d b. Dir (sv_of_string p) = Inr d \<and> sv_str d = a \<and>
    Basename (sv_of_string p) = Inr b \<and> sv_str b = f \<and> Basename d = Inr b"
proof -
  let ?d = "\<lparr>sv_ptr = Some (p @ [NUL], 0), sv_len = length a\<rparr>"
  let ?b = "\<lparr>sv_ptr = Some (p @ [NUL], length a + 1), sv_len = length f\<rparr>"
  have len: "length p \<le> npos" using assms(5) le_npos by simp
  have "Dir (sv_of_string p) = Inr ?d" using Dir_found [OF assms(1-3,5)] .
  moreover have "Basename (sv_of_string p) = Inr ?b" "Basename ?d = Inr ?b"
    using Basename_found [OF assms(1,2,4) len] by (simp_all add: sv_of_string_def)
  moreover have "sv_str ?d = a" "sv_str ?b = f"
    using assms(1) by (simp_all add: sv_str_def ptr_bytes_def)
  ultimately show ?thesis by blast
qed

text \<open>
  C25. \<open>MkdirAll\<close> makes, for any operating system, exactly the calls of its contract: one \<open>mkdir\<close> per
  prefix that ends before a separator, in order, then one for the whole path, stopping at the first
  error and tolerating existing directories; the temporary NUL in the buffer is not observable. The
  mode given to \<open>MkdirAll\<close> is not used: every call has mode 0755.
\<close>

theorem MkdirAll_calls:
  assumes "NUL \<notin> set path" "length path \<le> kMaxSize"
  shows "MkdirAll os path mode w = mkdir_each os default_mode (mkdir_prefixes path 1) w"
  using MkdirAll_loop_eq [of path os 1 w] assms le_npos(1) by (simp add: MkdirAll_def)

theorem MkdirAll_calls_witness:
  "NUL \<notin> set ''/a/b'' \<and>
   (\<exists>os :: (string \<times> nat) list sys.
     MkdirAll os ''/a/b'' 448 [] = Inr (OkStatus, [(''/a'', 493), (''/a/b'', 493)]))"
proof -
  let ?os = "undefined\<lparr>sys_mkdir := \<lambda>p m w. ((0, 0), w @ [(p, m)])\<rparr> :: (string \<times> nat) list sys"
  have h: "NUL \<notin> set ''/a/b''" "length ''/a/b'' \<le> kMaxSize" by (simp_all add: NUL_def kMaxSize_def)
  have "filter (\<lambda>i. ''/a/b'' ! i = CHR ''/'') [1..<4] = [2]" by (simp add: upt_rec)
  then have "mkdir_prefixes ''/a/b'' 1 = [''/a'', ''/a/b'']"
    by (simp add: mkdir_prefixes_def upt_rec)
  then have "MkdirAll ?os ''/a/b'' 448 [] = Inr (OkStatus, [(''/a'', 493), (''/a/b'', 493)])"
    using MkdirAll_calls [OF h, of ?os 448 "[]"]
    by (simp add: Mkdir_def st_ok_def OkStatus_def default_mode_def c_str_def NUL_def)
  then show ?thesis using h by blast
qed

section \<open>Removing a tree\<close>

lemma RemoveAll_mono:
  "RemoveAll n os path w = Some r \<Longrightarrow> RemoveAll (Suc n) os path w = Some r"
  "RemoveAll_each n os path subs w = Some r \<Longrightarrow> RemoveAll_each (Suc n) os path subs w = Some r"
proof (induction n os path w and n os path subs w arbitrary: r and r rule: RemoveAll_RemoveAll_each.induct)
  case (4 fuel os path i subpaths w)
  show ?case
  proof (cases "PathJoin2 (sv_of_string path) (sv_of_string i)")
    case (Inl e)
    then show ?thesis using "4.prems" by simp
  next
    case (Inr sub)
    then obtain x where x: "RemoveAll fuel os sub w = Some x" using "4.prems" by (auto split: option.splits)
    then have "RemoveAll (Suc fuel) os sub w = Some x" using "4.IH"(1) [OF Inr] by blast
    then show ?thesis
      using "4.prems" x Inr "4.IH"(2) [OF Inr x]
      by (auto simp del: RemoveAll.simps split: sum.splits prod.splits if_splits)
  qed
qed simp_all

lemma RemoveAll_mono_le: "RemoveAll n os path w = Some r \<Longrightarrow> n \<le> m \<Longrightarrow> RemoveAll m os path w = Some r"
  by (induction m) (auto simp: le_Suc_eq intro: RemoveAll_mono(1) simp del: RemoveAll.simps)

text \<open>Entries of a directory are names, and a path of \<open>PATH_MAX\<close> bytes or more cannot be opened.\<close>

definition posix_dirs :: "'w sys \<Rightarrow> bool" where
  "posix_dirs os \<longleftrightarrow> (\<forall>p w es. sys_opendir os p w = Some es \<longrightarrow> length p < 4096 \<and>
     (\<forall>e\<in>set es. e \<noteq> [] \<and> CHR ''/'' \<notin> set e \<and> NUL \<notin> set e \<and> length e \<le> 255))"

lemma children_filter: "foldl (\<lambda>children d_name. if P d_name then children else children @ [d_name]) acc es =
    acc @ filter (\<lambda>d. \<not> P d) es"
  by (induction es arbitrary: acc) auto

lemma children_posix:
  assumes "posix_dirs os" "e \<in> set (GetDirectoryChildren os path w)" "NUL \<notin> set path"
  shows "length path < 4096 \<and> e \<noteq> [] \<and> CHR ''/'' \<notin> set e \<and> NUL \<notin> set e \<and> length e \<le> 255"
proof -
  obtain es where es: "sys_opendir os (c_str path) w = Some es" "e \<in> set es"
    using assms(2) by (cases "sys_opendir os (c_str path) w") (auto simp: GetDirectoryChildren_def children_filter)
  have "length (c_str path) < 4096 \<and> (\<forall>e\<in>set es. e \<noteq> [] \<and> CHR ''/'' \<notin> set e \<and> NUL \<notin> set e \<and> length e \<le> 255)"
    using assms(1) es(1) unfolding posix_dirs_def by blast
  then show ?thesis using es(2) c_str_id [OF assms(3)] by simp
qed

abbreviation no_slash_end :: "string \<Rightarrow> string" where
  "no_slash_end p \<equiv> trim_right {CHR ''/''} p"

lemma trim_right_set: "set (trim_right C s) \<subseteq> set s"
  by (auto simp: trim_right_def dest: set_dropWhileD)

lemma trim_clean: "C \<inter> set s = {} \<Longrightarrow> s \<noteq> [] \<Longrightarrow> trim_right C s = s \<and> trim_left C s = s"
proof -
  assume a: "C \<inter> set s = {}" "s \<noteq> []"
  have "\<not> set s \<subseteq> C" using a by (cases s) auto
  moreover have "dropWhile (\<lambda>x. x \<in> C) s = s" using a by (cases s) auto
  moreover have "dropWhile (\<lambda>x. x \<in> C) (rev s) = rev s" using a by (cases s rule: rev_cases) auto
  ultimately show ?thesis by (simp add: trim_right_def trim_left_def)
qed

lemma child_path:
  assumes "length path < 4096" "e \<noteq> []" "CHR ''/'' \<notin> set e" "length e \<le> 255"
  shows "\<exists>sub. PathJoin2 (sv_of_string path) (sv_of_string e) = Inr sub \<and>
    sub = no_slash_end path @ ''/'' @ e \<and> no_slash_end sub = sub"
proof -
  have ok: "sv_ok (sv_of_string path)" "sv_ok (sv_of_string e)" using assms by (simp_all add: kMaxSize_def)
  have e: "trim_right {CHR ''/''} e = e" "trim_left {CHR ''/''} e = e" using trim_clean [of "{CHR ''/''}" e] assms by auto
  have "PathJoin2 (sv_of_string path) (sv_of_string e) = Inr (no_slash_end path @ ''/'' @ e)"
    using PathJoin2_eq [OF ok] ok e by simp
  moreover have "no_slash_end (no_slash_end path @ ''/'' @ e) = no_slash_end path @ ''/'' @ e"
    using assms(2,3) by (cases e rule: rev_cases) (auto simp: trim_right_def)
  ultimately show ?thesis by blast
qed

lemma RemoveAll_returns:
  assumes "posix_dirs os" "NUL \<notin> set path" "4096 - length (no_slash_end path) < n"
  shows "\<exists>r. RemoveAll n os path w = Some r"
  using assms(2,3)
proof (induction n arbitrary: path w)
  case (Suc n)
  have each: "\<exists>r. RemoveAll_each n os path subs w = Some r"
    if "set subs \<subseteq> {e. length path < 4096 \<and> e \<noteq> [] \<and> CHR ''/'' \<notin> set e \<and> NUL \<notin> set e \<and> length e \<le> 255}" for subs w
    using that
  proof (induction subs arbitrary: w)
    case (Cons e subs)
    have e: "length path < 4096" "e \<noteq> []" "CHR ''/'' \<notin> set e" "NUL \<notin> set e" "length e \<le> 255" using Cons.prems by auto
    obtain sub where sub: "PathJoin2 (sv_of_string path) (sv_of_string e) = Inr sub"
      "sub = no_slash_end path @ ''/'' @ e" "no_slash_end sub = sub"
      using child_path [OF e(1,2,3,5)] by blast
    have "NUL \<notin> set sub" using Suc.prems(1) e(4) sub(2) trim_right_set by (auto simp: NUL_def)
    moreover have "4096 - length (no_slash_end sub) < n"
    proof -
      have "length sub = length (no_slash_end path) + 1 + length e" using sub(2) by simp
      then show ?thesis
        using Suc.prems(2) e(1,2) trim_length(1) [of "{CHR ''/''}" path] unfolding sub(3) by (cases e) auto
    qed
    ultimately obtain r where "RemoveAll n os sub w = Some r" using Suc.IH by blast
    then show ?case using Cons sub(1) by (auto split: sum.splits prod.splits)
  qed simp
  have "set (GetDirectoryChildren os path w) \<subseteq>
      {e. length path < 4096 \<and> e \<noteq> [] \<and> CHR ''/'' \<notin> set e \<and> NUL \<notin> set e \<and> length e \<le> 255}"
    using children_posix [OF assms(1) _ Suc.prems(1)] by blast
  then show ?case using each by simp
qed simp

text \<open>
  C29. \<open>RemoveAll\<close> ends on every file system whose names and path lengths have the limits of POSIX: a
  recursion depth of 4097 is enough, and more depth gives the same result.
\<close>

theorem RemoveAll_terminates:
  assumes "posix_dirs os" "NUL \<notin> set path"
  shows "\<exists>r. \<forall>n\<ge>4097. RemoveAll n os path w = Some r"
proof -
  have "4096 - length (no_slash_end path) < 4097" by simp
  from RemoveAll_returns [OF assms this] obtain r where r: "RemoveAll 4097 os path w = Some r" by (rule exE)
  show ?thesis by (intro exI allI impI) (rule RemoveAll_mono_le [OF r])
qed

text \<open>One directory \<^verbatim>\<open>/d\<close> with one file, whose system calls all succeed.\<close>

definition one_dir_sys :: "unit sys" where
  "one_dir_sys = \<lparr>sys_strerror = (\<lambda>_. ''''), sys_realpath = (\<lambda>_ _. None), sys_readlink = (\<lambda>_ _. (0, '''')),
     sys_ofstream = (\<lambda>_ w. Some w), sys_put = (\<lambda>_ _ w. w), sys_open_append = (\<lambda>_ _. True),
     sys_append = (\<lambda>_ _ w. (0, w)), sys_ifstream = (\<lambda>_ _. None), sys_access = (\<lambda>_ _. 0),
     sys_lstat_dir = (\<lambda>_ _. (0, False)), sys_stat_size = (\<lambda>_ _. (0, 0)),
     sys_opendir = (\<lambda>p _. if p = ''/d'' then Some [''.'', ''..'', ''f''] else None),
     sys_remove = (\<lambda>_ w. ((0, 0), w)), sys_mkdir = (\<lambda>_ _ w. ((0, 0), w)), sys_link = (\<lambda>_ _ w. ((0, 0), w)),
     sys_symlink = (\<lambda>_ _ w. ((0, 0), w)), sys_rename = (\<lambda>_ _ w. ((0, 0), w)), sys_fopen_read = (\<lambda>_ _. 2),
     sys_fread = (\<lambda>_ _ _ _. ([], 0)),
     sys_fopen_write = (\<lambda>_ w. Inr w), sys_fwrite = (\<lambda>_ d w. ((length d, 0), w))\<rparr>"

theorem RemoveAll_terminates_witness: "\<exists>r. \<forall>n\<ge>4097. RemoveAll n one_dir_sys ''/d'' () = Some r"
  by (rule RemoveAll_terminates) (auto simp: posix_dirs_def one_dir_sys_def NUL_def split: if_splits)

end
