(* ===== verification/Plugin_Manager.thy ===== *)
theory Plugin_Manager
  imports Fs Env
begin

text \<open>
  \<^verbatim>\<open>cppboot/adv/plugin_manager.cc\<close> and \<^verbatim>\<open>plugin_loader.cc\<close>. Plugins are records in a store, linked
  by sets of addresses (who depends on me, on whom do I depend), because the dependency links are
  shared. The loader behind the virtual interface is a parameter of the manager: a record of its two
  operations on its own state; \<open>DllLoader\<close> is one such loader, with the \<open>dl\<close> calls as parameters.
\<close>

section \<open>Plugin headers and loaders\<close>

record cppboot_plugin =
  ph_name :: "string option"
  ph_depends :: "string option"
  ph_init :: "(string \<Rightarrow> int) option"
  ph_exit :: bool

record 'l PluginLoader =
  ld_Load :: "'l \<Rightarrow> string \<Rightarrow> (Status \<times> cppboot_plugin option) res \<times> 'l"
  ld_Unload :: "'l \<Rightarrow> string \<Rightarrow> Status res \<times> 'l"

record dl_calls =
  dl_open :: "string \<Rightarrow> nat option"
  dl_sym :: "nat \<Rightarrow> cppboot_plugin option"
  dl_close :: "nat \<Rightarrow> bool"
  dl_error :: string

record DllLoader =
  dll_dir :: string
  dll_handles :: "(string, nat) smap"

definition GetPluginPath :: "DllLoader \<Rightarrow> string \<Rightarrow> string res" where
  "GetPluginPath ld name =
     PathJoin2 (sv_of_string (dll_dir ld)) (sv_of_string (StrCat3 ''libplugin_'' name ''.so''))"

definition DllLoader_Load :: "dl_calls \<Rightarrow> DllLoader \<Rightarrow> string option \<Rightarrow> bool
    \<Rightarrow> (Status \<times> cppboot_plugin option) res \<times> DllLoader" where
  "DllLoader_Load dl ld name result =
     (if no_name name then (ret_status (InvalidArgumentError (sv_of_string ''no name'')) None, ld)
      else if \<not> result
      then (ret_status (InvalidArgumentError (sv_of_string ''invalid result'')) None, ld)
      else case GetPluginPath ld (the name) of
        Inl e \<Rightarrow> (Inl e, ld)
      | Inr path \<Rightarrow>
          (case dl_open dl (c_str path) of
             None \<Rightarrow>
               (ret_status (bindr (fmt_format ''load plugin {} failed: {}'' [the name, dl_error dl])
                  (\<lambda>m. CancelledError (sv_of_string m))) None, ld)
           | Some handle \<Rightarrow>
               (case dl_sym dl handle of
                  None \<Rightarrow>
                    (ret_status (bindr
                       (fmt_format ''load plugin {} failed: no symbol cppboot_plugin_entry'' [the name])
                       (\<lambda>m. CancelledError (sv_of_string m))) None, ld)
                | Some hdr \<Rightarrow>
                    (Inr (OkStatus, Some hdr),
                     ld\<lparr>dll_handles := map_set (dll_handles ld) (the name) handle\<rparr>))))"

definition DllLoader_Unload :: "dl_calls \<Rightarrow> DllLoader \<Rightarrow> string option \<Rightarrow> Status res \<times> DllLoader" where
  "DllLoader_Unload dl ld name =
     (if no_name name then (InvalidArgumentError (sv_of_string ''no name''), ld)
      else case map_find (dll_handles ld) (the name) of
        Some h \<Rightarrow>
          if dl_close dl h then (UnknownError (sv_of_string (dl_error dl)), ld)
          else (Inr OkStatus, ld\<lparr>dll_handles := map_erase (dll_handles ld) (the name)\<rparr>)
      | None \<Rightarrow> (NotFoundError (sv_of_string (the name)), ld))"

text \<open>The destructor closes every handle that is left, in key order.\<close>

definition DllLoader_delete :: "DllLoader \<Rightarrow> nat list" where
  "DllLoader_delete ld = map snd (dll_handles ld)"

definition PluginLoader_New :: "nat \<Rightarrow> string option \<Rightarrow> DllLoader option" where
  "PluginLoader_New type dir =
     (if type = 1
      then Some \<lparr>dll_dir = (case dir of Some d \<Rightarrow> d | None \<Rightarrow> ''''), dll_handles = []\<rparr> else None)"

section \<open>The manager\<close>

record Plugin =
  pl_hdr :: "cppboot_plugin option"
  pl_param :: string
  pl_sources :: "nat set"
  pl_targets :: "nat set"

text \<open>Calls into plugins, in order.\<close>

datatype plugin_call = InitCall string | ExitCall string

record 'l PluginManager =
  pm_loader :: 'l
  pm_store :: "nat \<Rightarrow> Plugin option"
  pm_next :: nat
  pm_mods :: "(string, nat) smap"
  pm_calls :: "plugin_call list"

definition PluginManager_New :: "'l \<Rightarrow> 'l PluginManager" where
  "PluginManager_New l =
     \<lparr>pm_loader = l, pm_store = (\<lambda>_. None), pm_next = 0, pm_mods = [], pm_calls = []\<rparr>"

definition VerifyPluginHeader :: "cppboot_plugin option \<Rightarrow> Status res" where
  "VerifyPluginHeader hdr =
     (case hdr of
        None \<Rightarrow> InvalidArgumentError (sv_of_string ''no plugin'')
      | Some h \<Rightarrow>
          if no_name (ph_name h) then InvalidArgumentError (sv_of_string ''no name'')
          else if ph_init h = None then InvalidArgumentError (sv_of_string ''no init func'')
          else if \<not> ph_exit h then InvalidArgumentError (sv_of_string ''no exit func'')
          else Inr OkStatus)"

text \<open>Plugin \<open>a\<close> uses \<open>b\<close>.\<close>

definition add_source :: "nat \<Rightarrow> Plugin \<Rightarrow> Plugin" where
  "add_source a pl = pl\<lparr>pl_sources := insert a (pl_sources pl)\<rparr>"

definition add_target :: "nat \<Rightarrow> Plugin \<Rightarrow> Plugin" where
  "add_target b pl = pl\<lparr>pl_targets := insert b (pl_targets pl)\<rparr>"

definition AddpluginUsage :: "'l PluginManager \<Rightarrow> nat \<Rightarrow> nat \<Rightarrow> 'l PluginManager" where
  "AddpluginUsage m a b =
     (let s1 = (pm_store m)(b := map_option (add_source a) (pm_store m b));
          s2 = s1(a := map_option (add_target b) (s1 a)) in
      m\<lparr>pm_store := s2\<rparr>)"

fun VerifyDependence_loop ::
    "'l PluginManager \<Rightarrow> nat \<Rightarrow> string list \<Rightarrow> (Status \<times> 'l PluginManager) res" where
  "VerifyDependence_loop m plugin [] = Inr (OkStatus, m)"
| "VerifyDependence_loop m plugin (i # require_list) =
     bindr (StrTrim (sv_of_string i) (sv_of_string '' '')) (\<lambda>name.
       if sv_empty name then VerifyDependence_loop m plugin require_list
       else case map_find (pm_mods m) (to_string name) of
         None \<Rightarrow> ret_status
           (bindr (fmt_format ''depend on {}'' [case sv_base name of (b, k) \<Rightarrow> c_str (drop k b)])
              (\<lambda>msg. NotFoundError (sv_of_string msg))) m
       | Some q \<Rightarrow> VerifyDependence_loop (AddpluginUsage m plugin q) plugin require_list)"

definition VerifyDependence :: "'l PluginManager \<Rightarrow> nat \<Rightarrow> cppboot_plugin \<Rightarrow> (Status \<times> 'l PluginManager) res" where
  "VerifyDependence m plugin hdr =
     (case ph_depends hdr of
        None \<Rightarrow> Inr (OkStatus, m)
      | Some d \<Rightarrow> bindr (StrSplit (sv_of_string d) CHR '','') (\<lambda>l. VerifyDependence_loop m plugin l))"

definition InitPulgin ::
    "'l PluginManager \<Rightarrow> nat \<Rightarrow> cppboot_plugin option \<Rightarrow> string \<Rightarrow> (Status \<times> 'l PluginManager) res" where
  "InitPulgin m plugin hdr param =
     bindr (VerifyPluginHeader hdr) (\<lambda>st.
       if st_ok st
       then bindr (VerifyDependence m plugin (the hdr)) (\<lambda>(st, m).
         if st_ok st
         then let err = the (ph_init (the hdr)) param;
                  m = m\<lparr>pm_calls := pm_calls m @ [InitCall (the (ph_name (the hdr)))]\<rparr> in
           if err \<noteq> 0 then ret_status (InvalidArgumentError (sv_of_string ''init retrn error'')) m
           else Inr (st, m)
         else Inr (st, m))
       else Inr (st, m))"

definition PM_Load ::
    "'l PluginLoader \<Rightarrow> 'l PluginManager \<Rightarrow> string option \<Rightarrow> string option \<Rightarrow> (Status \<times> 'l PluginManager) res" where
  "PM_Load ld m name param =
     (if no_name name then ret_status (InvalidArgumentError (sv_of_string ''no plugin name'')) m
      else if map_find (pm_mods m) (the name) \<noteq> None
      then ret_status (AlreadyExistsError (sv_of_string (the name))) m
      else case ld_Load ld (pm_loader m) (the name) of
        (r, l) \<Rightarrow>
          bindr r (\<lambda>(st, hdr).
          let m = m\<lparr>pm_loader := l\<rparr> in
          if \<not> st_ok st then Inr (st, m)
          else
            let me = pm_next m;
                m = m\<lparr>pm_next := me + 1, pm_store := (pm_store m)(me \<mapsto>
                      \<lparr>pl_hdr = hdr, pl_param = '''', pl_sources = {}, pl_targets = {}\<rparr>)\<rparr>;
                param = (case param of None \<Rightarrow> '''' | Some p \<Rightarrow> p) in
            bindr (InitPulgin m me hdr param) (\<lambda>(st, m).
              if \<not> st_ok st then
                (case ld_Unload ld (pm_loader m) (the name) of
                   (r, l) \<Rightarrow> bindr r (\<lambda>_. Inr (st, m\<lparr>pm_loader := l\<rparr>)))
              else Inr (OkStatus, m\<lparr>
                pm_store := (pm_store m)(me := map_option (\<lambda>pl. pl\<lparr>pl_param := param\<rparr>) (pm_store m me)),
                pm_mods := map_set (pm_mods m) (the (ph_name (the hdr))) me\<rparr>))))"

definition drop_source :: "nat \<Rightarrow> Plugin \<Rightarrow> Plugin" where
  "drop_source a pl = pl\<lparr>pl_sources := pl_sources pl - {a}\<rparr>"

definition PM_Unload ::
    "'l PluginLoader \<Rightarrow> 'l PluginManager \<Rightarrow> string option \<Rightarrow> (Status \<times> 'l PluginManager) res" where
  "PM_Unload ld m name =
     (if no_name name then ret_status (InvalidArgumentError (sv_of_string ''empty plugin name'')) m
      else case map_find (pm_mods m) (the name) of
        None \<Rightarrow> ret_status (NotFoundError (sv_of_string (the name))) m
      | Some me \<Rightarrow>
          (case pm_store m me of
             None \<Rightarrow> Inl UndefinedBehaviour
           | Some pl \<Rightarrow>
               if pl_sources pl \<noteq> {}
               then ret_status (CancelledError (sv_of_string ''has depend on by others'')) m
               else
                 let hname = the (ph_name (the (pl_hdr pl)));
                     m = m\<lparr>pm_store := (\<lambda>q. if q \<in> pl_targets pl
                             then map_option (drop_source me) (pm_store m q) else pm_store m q),
                           pm_mods := map_erase (pm_mods m) (the name),
                           pm_calls := pm_calls m @ [ExitCall hname]\<rparr> in
                 (case ld_Unload ld (pm_loader m) hname of
                    (r, l) \<Rightarrow> bindr r (\<lambda>_. Inr (OkStatus, m\<lparr>pm_loader := l\<rparr>)))))"

section \<open>Dependencies stay closed\<close>





























section \<open>What a header requires is loaded\<close>















section \<open>Runs\<close>





section \<open>Properties\<close>


text \<open>A loader with two plugins, the second depending on the first; its initialisation may fail.\<close>

definition two_plugins :: "int \<Rightarrow> unit PluginLoader" where
  "two_plugins err = \<lparr>ld_Load = (\<lambda>l n. (Inr (OkStatus, Some \<lparr>ph_name = Some n,
       ph_depends = (if n = ''b'' then Some ''a'' else None),
       ph_init = Some (\<lambda>_. if n = ''b'' then err else 0), ph_exit = True\<rparr>), l)),
     ld_Unload = (\<lambda>l n. (Inr OkStatus, l))\<rparr>"

definition run_two :: "int \<Rightarrow> ((Status \<times> unit PluginManager) \<times> (Status \<times> unit PluginManager)) res" where
  "run_two err =
     bindr (PM_Load (two_plugins err) (PluginManager_New ()) (Some ''a'') None) (\<lambda>r1.
     bindr (PM_Load (two_plugins err) (snd r1) (Some ''b'') None) (\<lambda>r2. Inr (r1, r2)))"


lemma trim_a: "\<exists>u. StrTrim (sv_of_string ''a'') (sv_of_string '' '') = Inr u \<and> to_string u = ''a'' \<and> \<not> sv_empty u"
proof -
  have ok: "sv_ok (sv_of_string ''a'')" "sv_ok (sv_of_string '' '')" by (simp_all add: kMaxSize_def)
  obtain u where "StrTrim (sv_of_string ''a'') (sv_of_string '' '') = Inr u" "sv_ok u" "sv_str u = ''a''"
    using StrTrim_eq [OF ok] by (auto simp: trim_left_def trim_right_def trim_set_def sv_empty_def)
  then show ?thesis
    using sv_str_empty_iff [of u] by (auto simp: sv_empty_def to_string_def sv_size_def sv_str_def)
qed

lemma split_a: "StrSplit (sv_of_string ''a'') CHR '','' = Inr [''a'']"
  by (simp add: StrSplit_eq kMaxSize_def)

definition two_hdr :: "int \<Rightarrow> string \<Rightarrow> cppboot_plugin" where
  "two_hdr err n = \<lparr>ph_name = Some n, ph_depends = (if n = ''b'' then Some ''a'' else None),
     ph_init = Some (\<lambda>_. if n = ''b'' then err else 0), ph_exit = True\<rparr>"

definition two_m1 :: "int \<Rightarrow> unit PluginManager" where
  "two_m1 err = \<lparr>pm_loader = (), pm_store = [0 \<mapsto> \<lparr>pl_hdr = Some (two_hdr err ''a''), pl_param = '''',
     pl_sources = {}, pl_targets = {}\<rparr>], pm_next = 1, pm_mods = [(''a'', 0)], pm_calls = [InitCall ''a'']\<rparr>"

lemma two_load_a: "PM_Load (two_plugins err) (PluginManager_New ()) (Some ''a'') None = Inr (OkStatus, two_m1 err)"
  by (simp add: PM_Load_def no_name_def PluginManager_New_def two_plugins_def InitPulgin_def
      VerifyPluginHeader_def VerifyDependence_def two_m1_def two_hdr_def)

definition two_linked :: "int \<Rightarrow> unit PluginManager" where
  "two_linked err = (two_m1 err)\<lparr>pm_next := 2, pm_store := [0 \<mapsto> \<lparr>pl_hdr = Some (two_hdr err ''a''), pl_param = '''',
     pl_sources = {1}, pl_targets = {}\<rparr>, 1 \<mapsto> \<lparr>pl_hdr = Some (two_hdr err ''b''), pl_param = '''',
     pl_sources = {}, pl_targets = {0}\<rparr>], pm_calls := [InitCall ''a'', InitCall ''b'']\<rparr>"

lemma two_init_b: "InitPulgin ((two_m1 err)\<lparr>pm_next := Suc (Suc 0), pm_store := (pm_store (two_m1 err))(Suc 0 \<mapsto>
      \<lparr>pl_hdr = Some (two_hdr err ''b''), pl_param = '''', pl_sources = {}, pl_targets = {}\<rparr>)\<rparr>)
      (Suc 0) (Some (two_hdr err ''b'')) '''' =
    (if err = 0 then Inr (OkStatus, two_linked err)
     else ret_status (InvalidArgumentError (sv_of_string ''init retrn error'')) (two_linked err))"
proof -
  obtain u where u: "StrTrim (sv_of_string ''a'') (sv_of_string '' '') = Inr u" "to_string u = ''a''" "\<not> sv_empty u"
    using trim_a by blast
  show ?thesis
    using u by (simp add: InitPulgin_def VerifyPluginHeader_def VerifyDependence_def two_hdr_def no_name_def
        split_a two_m1_def map_find_def AddpluginUsage_def Let_def add_source_def add_target_def two_linked_def
        fun_upd_twist numeral_2_eq_2)
qed

lemma two_load_b:
  "PM_Load (two_plugins err) (two_m1 err) (Some ''b'') None =
    (if err = 0 then Inr (OkStatus, (two_linked err)\<lparr>pm_mods := [(''a'', 0), (''b'', 1)]\<rparr>)
     else ret_status (InvalidArgumentError (sv_of_string ''init retrn error'')) (two_linked err))"
proof -
  have ld: "ld_Load (two_plugins err) l n = (Inr (OkStatus, Some (two_hdr err n)), l)"
    "ld_Unload (two_plugins err) l n = (Inr OkStatus, l)" for l n
    by (simp_all add: two_plugins_def two_hdr_def)
  have m: "pm_next (two_m1 err) = Suc 0" "map_find (pm_mods (two_m1 err)) ''b'' = None"
    "pm_loader (two_m1 err) = ()" "(two_m1 err)\<lparr>pm_loader := ()\<rparr> = two_m1 err"
    by (simp_all add: two_m1_def map_find_def)
  have l: "pm_mods (two_linked e) = [(''a'', 0)]" "ph_name (two_hdr e ''b'') = Some ''b''"
    "(two_linked e)\<lparr>pm_loader := ()\<rparr> = two_linked e"
    "(two_linked e)\<lparr>pm_store := (pm_store (two_linked e))(Suc 0 := map_option (\<lambda>pl. pl\<lparr>pl_param := ''''\<rparr>)
       (pm_store (two_linked e) (Suc 0)))\<rparr> = two_linked e" for e
    by (simp_all add: two_linked_def two_m1_def two_hdr_def)
  obtain s where s: "InvalidArgumentError (sv_of_string ''init retrn error'') = Inr s" "\<not> st_ok s"
    using Status_new_cases [of kInvalidArgument "''init retrn error''"] by (auto simp: InvalidArgumentError_def)
  show ?thesis
    by (auto simp: PM_Load_def no_name_def ld m two_init_b s ret_status_def l)
qed

text \<open>
  A failed load leaves its mark: after a plugin that depends on \<open>a\<close> fails to initialise, no loaded
  plugin depends on \<open>a\<close>, yet \<open>a\<close> can no longer be unloaded.
\<close>

theorem failed_load_blocks_unload:
  "\<exists>m1 s2 m2 s3. run_two 1 = Inr ((OkStatus, m1), (s2, m2)) \<and> st_code s2 = kInvalidArgument \<and>
     map fst (pm_mods m2) = [''a''] \<and>
     PM_Unload (two_plugins 1) m2 (Some ''a'') = Inr (s3, m2) \<and> st_code s3 = kCancelled"
proof -
  obtain s2 where s2: "InvalidArgumentError (sv_of_string ''init retrn error'') = Inr s2" "st_code s2 = kInvalidArgument"
    using Status_new_cases [of kInvalidArgument "''init retrn error''"] by (auto simp: InvalidArgumentError_def)
  obtain s3 where s3: "CancelledError (sv_of_string ''has depend on by others'') = Inr s3" "st_code s3 = kCancelled"
    using Status_new_cases [of kCancelled "''has depend on by others''"] by (auto simp: CancelledError_def)
  have "run_two 1 = Inr ((OkStatus, two_m1 1), (s2, two_linked 1))"
    by (simp add: run_two_def two_load_a two_load_b ret_status_def s2(1))
  moreover have "PM_Unload (two_plugins 1) (two_linked 1) (Some ''a'') = Inr (s3, two_linked 1)"
    by (simp add: PM_Unload_def no_name_def two_linked_def two_m1_def map_find_def ret_status_def s3(1))
  ultimately show ?thesis using s2(2) s3(2) by (auto simp: two_linked_def two_m1_def)
qed


end
