(* ===== verification/Net_Buffer.thy ===== *)
theory Net_Buffer
  imports Cpp_Prelude
begin

text \<open>
  The two byte buffers, \<^verbatim>\<open>cppboot/net/buffer.h\<close> and \<^verbatim>\<open>cppboot/net/net2/buffer.h\<close>: a vector with a
  reader and a writer index. The interface their clients rely on is a first-in first-out queue of
  bytes; it is stated as the locale \<open>byte_queue\<close>, whose laws both classes are shown to satisfy.
\<close>

section \<open>The interface\<close>

text \<open>A client of a buffer: a sequence of appends and retrievals; retrieved bytes are collected.\<close>

datatype bq_op = Put string | Get nat

fun bq_run :: "('b \<Rightarrow> string \<Rightarrow> 'b res) \<Rightarrow> ('b \<Rightarrow> nat \<Rightarrow> 'b) \<Rightarrow> ('b \<Rightarrow> string)
    \<Rightarrow> 'b \<Rightarrow> bq_op list \<Rightarrow> (string \<times> 'b) res" where
  "bq_run app ret str b [] = Inr ([], b)"
| "bq_run app ret str b (Put s # ops) = bindr (app b s) (\<lambda>b. bq_run app ret str b ops)"
| "bq_run app ret str b (Get n # ops) =
     bindr (bq_run app ret str (ret b n) ops) (\<lambda>(out, b'). Inr (take n (str b) @ out, b'))"

fun puts :: "bq_op list \<Rightarrow> string" where
  "puts [] = []"
| "puts (Put s # ops) = s @ puts ops"
| "puts (Get n # ops) = puts ops"

locale byte_queue =
  fixes inv :: "'b \<Rightarrow> bool"
    and content :: "'b \<Rightarrow> string"
    and append_bytes :: "'b \<Rightarrow> string \<Rightarrow> 'b res"
    and retrieve :: "'b \<Rightarrow> nat \<Rightarrow> 'b"
    and slack :: nat
  assumes append_law: "inv b \<Longrightarrow> length (content b) + 2 * length s + slack \<le> kMaxSize \<Longrightarrow>
      \<exists>b'. append_bytes b s = Inr b' \<and> inv b' \<and> content b' = content b @ s"
    and retrieve_law: "inv b \<Longrightarrow> inv (retrieve b n) \<and> content (retrieve b n) = drop n (content b)"
begin

lemma run_fifo:
  assumes "inv b" "length (content b) + 2 * length (puts ops) + slack \<le> kMaxSize"
  shows "\<exists>out b'. bq_run append_bytes retrieve content b ops = Inr (out, b') \<and> inv b' \<and>
    content b @ puts ops = out @ content b'"
  using assms
proof (induction ops arbitrary: b)
  case Nil
  then show ?case by simp
next
  case (Cons op ops)
  show ?case
  proof (cases op)
    case (Put s)
    then obtain b1 where b1: "append_bytes b s = Inr b1" "inv b1" "content b1 = content b @ s"
      using append_law [of b s] Cons(2,3) by auto
    then show ?thesis using Cons(1) [of b1] Cons(3) Put by simp
  next
    case (Get n)
    have r: "inv (retrieve b n)" "content (retrieve b n) = drop n (content b)"
      using retrieve_law [OF Cons(2)] by simp_all
    then have "length (content (retrieve b n)) + 2 * length (puts ops) + slack \<le> kMaxSize"
      using Cons(3) Get by simp
    then obtain out b' where o: "bq_run append_bytes retrieve content (retrieve b n) ops = Inr (out, b')"
      "inv b'" "drop n (content b) @ puts ops = out @ content b'"
      using Cons(1) [OF r(1)] r(2) by auto
    have "content b @ puts ops = (take n (content b) @ out) @ content b'"
      using o(3) by (metis append.assoc append_take_drop_id)
    then show ?thesis using o(1,2) Get by simp
  qed
qed

end

section \<open>net::Buffer\<close>

record Buffer =
  buf_bytes :: string
  buf_reader :: nat
  buf_writer :: nat

definition kCheapPrepend :: nat where "kCheapPrepend = 8"

definition kInitialSize :: nat where "kInitialSize = 1024"

definition Buffer_new :: "nat \<Rightarrow> Buffer" where
  "Buffer_new initial_size =
     \<lparr>buf_bytes = replicate (kCheapPrepend + initial_size) NUL, buf_reader = kCheapPrepend,
      buf_writer = kCheapPrepend\<rparr>"

definition Buffer_swap :: "Buffer \<Rightarrow> Buffer \<Rightarrow> Buffer \<times> Buffer" where
  "Buffer_swap b rhs = (rhs, b)"

definition PrependableBytes :: "Buffer \<Rightarrow> nat" where
  "PrependableBytes b = buf_reader b"

definition ReadableBytes :: "Buffer \<Rightarrow> nat" where
  "ReadableBytes b = buf_writer b - buf_reader b"

definition WritableBytes :: "Buffer \<Rightarrow> nat" where
  "WritableBytes b = length (buf_bytes b) - buf_writer b"

text \<open>The bytes at \<open>begin() + reader_\<close>.\<close>

definition Peek :: "Buffer \<Rightarrow> string" where
  "Peek b = drop (buf_reader b) (buf_bytes b)"

definition Buffer_Str :: "Buffer \<Rightarrow> string" where
  "Buffer_Str b = take (ReadableBytes b) (Peek b)"

definition Buffer_ToString :: "Buffer \<Rightarrow> string" where
  "Buffer_ToString b = take (ReadableBytes b) (Peek b)"

definition RetriveAll :: "Buffer \<Rightarrow> Buffer" where
  "RetriveAll b = b\<lparr>buf_reader := kCheapPrepend, buf_writer := kCheapPrepend\<rparr>"

definition Retrive :: "Buffer \<Rightarrow> nat \<Rightarrow> Buffer" where
  "Retrive b len =
     (if len < ReadableBytes b then b\<lparr>buf_reader := buf_reader b + len\<rparr> else RetriveAll b)"

text \<open>\<open>std::copy\<close> into the vector at an offset (a write behind its end is an error of the model), and \<open>vector::resize\<close>, which throws above \<open>max_size\<close>.\<close>

definition copy_at :: "string \<Rightarrow> nat \<Rightarrow> string \<Rightarrow> string res" where
  "copy_at v off s =
     bindr (assertr (off + length s \<le> length v)) (\<lambda>_. Inr (take off v @ s @ drop (off + length s) v))"

definition vec_resize :: "string \<Rightarrow> nat \<Rightarrow> string res" where
  "vec_resize v n = (if n > kMaxSize then Inl RuntimeError
     else Inr (if n \<le> length v then take n v else v @ replicate (n - length v) NUL))"

definition MakeSpace :: "Buffer \<Rightarrow> nat \<Rightarrow> Buffer res" where
  "MakeSpace b len =
     (if WritableBytes b + PrependableBytes b < len + kCheapPrepend
      then bindr (vec_resize (buf_bytes b) (buf_writer b + len)) (\<lambda>v. Inr (b\<lparr>buf_bytes := v\<rparr>))
      else
        bindr (assertr (kCheapPrepend < buf_reader b)) (\<lambda>_.
        let readable = ReadableBytes b in
        bindr (copy_at (buf_bytes b) kCheapPrepend (take readable (drop (buf_reader b) (buf_bytes b)))) (\<lambda>v.
        let b' = \<lparr>buf_bytes = v, buf_reader = kCheapPrepend, buf_writer = kCheapPrepend + readable\<rparr> in
        bindr (assertr (readable = ReadableBytes b')) (\<lambda>_. Inr b'))))"

definition EnsureWritableBytes :: "Buffer \<Rightarrow> nat \<Rightarrow> Buffer res" where
  "EnsureWritableBytes b len =
     bindr (if WritableBytes b < len then MakeSpace b len else Inr b) (\<lambda>b.
     bindr (assertr (WritableBytes b \<ge> len)) (\<lambda>_. Inr b))"

definition HasWritten :: "Buffer \<Rightarrow> nat \<Rightarrow> Buffer res" where
  "HasWritten b len =
     bindr (assertr (len \<le> WritableBytes b)) (\<lambda>_. Inr (b\<lparr>buf_writer := buf_writer b + len\<rparr>))"

definition Unwrite :: "Buffer \<Rightarrow> nat \<Rightarrow> Buffer res" where
  "Unwrite b len =
     bindr (assertr (len \<le> ReadableBytes b)) (\<lambda>_. Inr (b\<lparr>buf_writer := buf_writer b - len\<rparr>))"

definition Append :: "Buffer \<Rightarrow> string \<Rightarrow> Buffer res" where
  "Append b p =
     bindr (EnsureWritableBytes b (length p)) (\<lambda>b.
     bindr (copy_at (buf_bytes b) (buf_writer b) p) (\<lambda>v.
       HasWritten (b\<lparr>buf_bytes := v\<rparr>) (length p)))"

section \<open>Invariant and refinement\<close>

definition buf_inv :: "Buffer \<Rightarrow> bool" where
  "buf_inv b \<longleftrightarrow> kCheapPrepend \<le> buf_reader b \<and> buf_reader b \<le> buf_writer b \<and>
     buf_writer b \<le> length (buf_bytes b)"

lemma Buffer_new_inv: "buf_inv (Buffer_new n)" "Buffer_Str (Buffer_new n) = []"
  by (simp_all add: buf_inv_def Buffer_new_def Buffer_Str_def ReadableBytes_def)

lemma length_Buffer_Str: "buf_inv b \<Longrightarrow> length (Buffer_Str b) = ReadableBytes b"
  by (auto simp: buf_inv_def Buffer_Str_def Peek_def ReadableBytes_def min_def)

lemma Retrive_law: "buf_inv b \<Longrightarrow> buf_inv (Retrive b n) \<and> Buffer_Str (Retrive b n) = drop n (Buffer_Str b)"
  by (auto simp: Retrive_def RetriveAll_def buf_inv_def Buffer_Str_def Peek_def ReadableBytes_def
      drop_take ac_simps kCheapPrepend_def)

lemma copy_at_inside:
  "off + length s \<le> length v \<Longrightarrow> copy_at v off s = Inr (take off v @ s @ drop (off + length s) v)"
  by (simp add: copy_at_def)

lemma Append_write:
  assumes "buf_inv b" "length s \<le> WritableBytes b"
  shows "\<exists>b'. bindr (copy_at (buf_bytes b) (buf_writer b) s) (\<lambda>v.
      HasWritten (b\<lparr>buf_bytes := v\<rparr>) (length s)) = Inr b'
    \<and> buf_inv b' \<and> Buffer_Str b' = Buffer_Str b @ s"
proof -
  let ?v = "take (buf_writer b) (buf_bytes b) @ s @ drop (buf_writer b + length s) (buf_bytes b)"
  let ?b = "b\<lparr>buf_bytes := ?v, buf_writer := buf_writer b + length s\<rparr>"
  have le: "buf_writer b + length s \<le> length (buf_bytes b)" "buf_reader b \<le> buf_writer b"
    using assms by (auto simp: buf_inv_def WritableBytes_def)
  have len: "length ?v = length (buf_bytes b)" using le by simp
  have "Buffer_Str ?b = Buffer_Str b @ s"
    using le by (simp add: Buffer_Str_def Peek_def ReadableBytes_def drop_take)
  moreover have "buf_inv ?b" using assms(1) le len by (simp add: buf_inv_def)
  moreover have "HasWritten (b\<lparr>buf_bytes := ?v\<rparr>) (length s) = Inr ?b"
    using assms(2) len by (simp add: HasWritten_def WritableBytes_def)
  ultimately show ?thesis using copy_at_inside [OF le(1)] by simp
qed

lemma Buffer_Str_at: "length s = n \<Longrightarrow> off \<le> length v \<Longrightarrow>
    Buffer_Str \<lparr>buf_bytes = take off v @ s @ r, buf_reader = off, buf_writer = off + n\<rparr> = s"
  by (simp add: Buffer_Str_def Peek_def ReadableBytes_def)

lemma MakeSpace_law:
  assumes "buf_inv b" "WritableBytes b < len" "ReadableBytes b + 2 * len + kCheapPrepend \<le> kMaxSize"
  shows "\<exists>b'. MakeSpace b len = Inr b' \<and> buf_inv b' \<and> Buffer_Str b' = Buffer_Str b \<and>
    len \<le> WritableBytes b'"
proof (cases "WritableBytes b + PrependableBytes b < len + kCheapPrepend")
  case True
  have "buf_writer b + len \<le> kMaxSize" "\<not> buf_writer b + len \<le> length (buf_bytes b)"
    using True assms by (auto simp: buf_inv_def WritableBytes_def ReadableBytes_def PrependableBytes_def)
  then show ?thesis
    using True assms
    by (auto simp: MakeSpace_def vec_resize_def buf_inv_def Buffer_Str_def Peek_def ReadableBytes_def
        WritableBytes_def)
next
  case False
  let ?s = "Buffer_Str b"
  let ?v = "take kCheapPrepend (buf_bytes b) @ ?s @ drop (kCheapPrepend + length ?s) (buf_bytes b)"
  let ?b = "\<lparr>buf_bytes = ?v, buf_reader = kCheapPrepend, buf_writer = kCheapPrepend + ReadableBytes b\<rparr>"
  have lt: "kCheapPrepend < buf_reader b"
    using False assms by (simp add: PrependableBytes_def)
  have n: "length ?s = ReadableBytes b" using length_Buffer_Str [OF assms(1)] .
  have le: "kCheapPrepend + length ?s \<le> length (buf_bytes b)"
    using assms(1) n by (auto simp: buf_inv_def ReadableBytes_def)
  have "MakeSpace b len = Inr ?b"
    using False lt copy_at_inside [OF le]
    by (simp add: MakeSpace_def Let_def Buffer_Str_def Peek_def) (simp add: ReadableBytes_def)
  moreover have "buf_inv ?b" using le n by (simp add: buf_inv_def)
  moreover have "Buffer_Str ?b = ?s"
    using le n by (simp add: Buffer_Str_at)
  moreover have "len \<le> WritableBytes ?b"
    using False assms(1) le n
    by (auto simp: WritableBytes_def PrependableBytes_def ReadableBytes_def buf_inv_def)
  ultimately show ?thesis by blast
qed

lemma EnsureWritableBytes_law:
  assumes "buf_inv b" "ReadableBytes b + 2 * len + kCheapPrepend \<le> kMaxSize"
  shows "\<exists>b'. EnsureWritableBytes b len = Inr b' \<and> buf_inv b' \<and> Buffer_Str b' = Buffer_Str b \<and>
    len \<le> WritableBytes b'"
  using MakeSpace_law [of b len] assms
  by (cases "WritableBytes b < len") (auto simp: EnsureWritableBytes_def)

lemma Append_law:
  assumes "buf_inv b" "length (Buffer_Str b) + 2 * length s + kCheapPrepend \<le> kMaxSize"
  shows "\<exists>b'. Append b s = Inr b' \<and> buf_inv b' \<and> Buffer_Str b' = Buffer_Str b @ s"
proof -
  obtain b1 where b1: "EnsureWritableBytes b (length s) = Inr b1" "buf_inv b1"
    "Buffer_Str b1 = Buffer_Str b" "length s \<le> WritableBytes b1"
    using EnsureWritableBytes_law [OF assms(1), of "length s"] assms(2) length_Buffer_Str [OF assms(1)]
    by auto
  then show ?thesis using Append_write [of b1 s] by (simp add: Append_def)
qed

interpretation nb: byte_queue buf_inv Buffer_Str Append Retrive kCheapPrepend
  by unfold_locales (use Append_law Retrive_law in auto)

lemma Unwrite_law: "buf_inv b \<Longrightarrow> n \<le> length (Buffer_Str b) \<Longrightarrow>
    \<exists>b'. Unwrite b n = Inr b' \<and> buf_inv b' \<and> Buffer_Str b' = take (length (Buffer_Str b) - n) (Buffer_Str b)"
  by (auto simp: Unwrite_def length_Buffer_Str buf_inv_def ReadableBytes_def Buffer_Str_def Peek_def
      add.commute)

section \<open>Properties\<close>

text \<open>
  C6. \<open>net::Buffer\<close> is a first-in first-out queue of bytes under every sequence of appends and
  retrievals, from every buffer that satisfies the invariant: no assertion in \<open>MakeSpace\<close>,
  \<open>EnsureWritableBytes\<close> or \<open>HasWritten\<close> fails, no write leaves the vector, and what went in is what
  came out followed by what is left.
\<close>

theorem Buffer_fifo:
  assumes "buf_inv b" "length (Buffer_Str b) + 2 * length (puts ops) + kCheapPrepend \<le> kMaxSize"
  shows "\<exists>out b'. bq_run Append Retrive Buffer_Str b ops = Inr (out, b') \<and> buf_inv b' \<and>
    Buffer_Str b @ puts ops = out @ Buffer_Str b'"
  by (rule nb.run_fifo [OF assms])

theorem Buffer_fifo_witness:
  "buf_inv (Buffer_new 2) \<and>
   (\<exists>out b'. bq_run Append Retrive Buffer_Str (Buffer_new 2) [Put ''abc'', Get 2, Put ''de''] = Inr (out, b')
     \<and> ''abcde'' = out @ Buffer_Str b')"
proof -
  have "length (Buffer_Str (Buffer_new 2)) + 2 * length (puts [Put ''abc'', Get 2, Put ''de''])
      + kCheapPrepend \<le> kMaxSize"
    by (simp add: Buffer_new_inv kCheapPrepend_def kMaxSize_def)
  then show ?thesis
    using Buffer_fifo [of "Buffer_new 2" "[Put ''abc'', Get 2, Put ''de'']"]
    by (auto simp: Buffer_new_inv)
qed

end
