(* ===== verification/Block_Reader.thy ===== *)
theory Block_Reader
  imports Cpp_Prelude
begin

text \<open>
  The contract of a parser that is handed the bytes of a stream block by block, as the completion
  handlers of the sockets hand them on: the cuts between the blocks must not matter. The locale
  \<open>block_reader\<close> states what the handler of one block promises while it waits for known bytes,
  \<open>block_consumer\<close> also what it does with the block that holds the last of them. The bus (theory
  \<open>Bus_Msg\<close>) and the connections of the HTTP server (theory \<open>Http_Server\<close>) are instances.
\<close>

fun block_reads :: "('s \<Rightarrow> string \<Rightarrow> ('o \<times> 's) res) \<Rightarrow> 's \<Rightarrow> string list \<Rightarrow> ('o list \<times> 's) res" where
  "block_reads f s [] = Inr ([], s)"
| "block_reads f s (b # bs) =
     bindr (f s b) (\<lambda>(out, s). bindr (block_reads f s bs) (\<lambda>(outs, s). Inr (out # outs, s)))"

lemma block_reads_append:
  "block_reads f s bs = Inr (outs, s') \<Longrightarrow>
   block_reads f s (bs @ cs) = bindr (block_reads f s' cs) (\<lambda>(outs', t). Inr (outs @ outs', t))"
proof (induction bs arbitrary: s outs)
  case Nil
  then show ?case by (cases "block_reads f s cs") auto
next
  case (Cons b bs)
  then obtain r t os where f: "f s b = Inr (r, t)" "block_reads f t bs = Inr (os, s')" "outs = r # os"
    by (auto simp: bindr_Inr_iff)
  from Cons(1) [OF f(2)] f show ?case by (cases "block_reads f s' cs") auto
qed

locale block_reader =
  fixes on_block :: "'s \<Rightarrow> string \<Rightarrow> ('o \<times> 's) res"
    and waits :: "'s \<Rightarrow> string \<Rightarrow> bool"
    and more :: 'o
  assumes on_block_more: "waits s (x @ rest) \<Longrightarrow> rest \<noteq> [] \<Longrightarrow> \<exists>s'. on_block s x = Inr (more, s') \<and> waits s' rest"
begin

lemma cut_anywhere:
  "waits s (concat bs @ x) \<Longrightarrow> x \<noteq> [] \<Longrightarrow>
   \<exists>s'. block_reads on_block s bs = Inr (replicate (length bs) more, s') \<and> waits s' x"
proof (induction bs arbitrary: s)
  case (Cons b bs)
  then obtain s1 where "on_block s b = Inr (more, s1)" "waits s1 (concat bs @ x)"
    using on_block_more [of s b "concat bs @ x"] by auto
  then show ?case using Cons(1) [of s1] Cons(3) by auto
qed simp

end

text \<open>\<open>enough y\<close>: the last block may carry the bytes \<open>y\<close> behind the awaited ones.\<close>

locale block_consumer = block_reader on_block waits more
  for on_block :: "'s \<Rightarrow> string \<Rightarrow> ('o \<times> 's) res" and waits :: "'s \<Rightarrow> string \<Rightarrow> bool" and more :: 'o +
  fixes enough :: "string \<Rightarrow> bool"
    and final :: "string \<Rightarrow> 'o"
    and left :: "string \<Rightarrow> 's \<Rightarrow> bool"
  assumes on_block_final: "waits s x \<Longrightarrow> x \<noteq> [] \<Longrightarrow> enough y \<Longrightarrow> \<exists>s'. on_block s (x @ y) = Inr (final y, s') \<and> left y s'"
begin

lemma delivers:
  assumes "waits s (concat bs @ x)" "x \<noteq> []" "enough y"
  shows "\<exists>s'. block_reads on_block s (bs @ [x @ y]) = Inr (replicate (length bs) more @ [final y], s') \<and> left y s'"
proof -
  obtain s1 where s1: "block_reads on_block s bs = Inr (replicate (length bs) more, s1)" "waits s1 x"
    using cut_anywhere [OF assms(1,2)] by blast
  obtain s' where "on_block s1 (x @ y) = Inr (final y, s')" "left y s'"
    using on_block_final [OF s1(2) assms(2,3)] by blast
  then show ?thesis using block_reads_append [OF s1(1), of "[x @ y]"] by auto
qed

end

end
