(* ===== verification/Json_Value.thy ===== *)
theory Json_Value
  imports Std_Map
begin

text \<open>
  JSON values as \<^verbatim>\<open>base/internal/json/json.hpp\<close> keeps them, the part of the class \<open>basic_json\<close> that the
  components call to build and to read them, and the texts of its exceptions. A \<open>double\<close> is its bit
  pattern in the format IEEE 754 binary64.
\<close>

unbundle bit_operations_syntax

lemma and_low: "n AND (2 ^ k - 1) = n mod 2 ^ k" for n :: nat
  using take_bit_eq_mask [of k n] by (simp add: mask_eq_exp_minus_1 take_bit_eq_mod)

lemma or_shift: "y < 2 ^ k \<Longrightarrow> y OR push_bit k c = c * 2 ^ k + y" for y c :: nat
proof -
  assume "y < 2 ^ k"
  then have "y = take_bit k y" by (simp add: take_bit_nat_eq_self)
  then have "\<not> bit y n \<or> \<not> bit (push_bit k c) n" for n
    by (metis bit_push_bit_iff bit_take_bit_iff not_less)
  then show ?thesis by (simp add: disjunctive_add [symmetric] push_bit_eq_mult)
qed

section \<open>Double precision numbers\<close>

type_synonym double = "64 word"

definition signbit :: "double \<Rightarrow> bool" where
  "signbit x = bit x 63"

text \<open>The biased exponent and the fraction.\<close>

definition dbl_E :: "double \<Rightarrow> nat" where
  "dbl_E x = unat (drop_bit 52 x) mod 2 ^ 11"

definition dbl_F :: "double \<Rightarrow> nat" where
  "dbl_F x = unat x mod 2 ^ 52"

definition isfinite :: "double \<Rightarrow> bool" where
  "isfinite x \<longleftrightarrow> dbl_E x \<noteq> 2047"

text \<open>The conversion of a finite number to an integer drops the fraction.\<close>

definition dbl_trunc :: "double \<Rightarrow> int" where
  "dbl_trunc x =
     (let m = (if dbl_E x = 0 then dbl_F x else dbl_F x + 2 ^ 52);
          e = int (max 1 (dbl_E x)) - 1075;
          n = (if 0 \<le> e then m * 2 ^ nat e else m div 2 ^ nat (- e)) in
      if signbit x then - int n else int n)"

section \<open>Values\<close>

text \<open>The constructors are the enumerators of \<open>value_t\<close>; an object is a \<open>std::map\<close>.\<close>

datatype json =
    JNull
  | JObject "(string \<times> json) list"
  | JArray "json list"
  | JString string
  | JBool bool
  | JInt int
  | JUint nat
  | JFloat double
  | JBinary "nat list" "nat option"
  | JDiscarded

fun type_name :: "json \<Rightarrow> string" where
  "type_name JNull = ''null''"
| "type_name (JObject _) = ''object''"
| "type_name (JArray _) = ''array''"
| "type_name (JString _) = ''string''"
| "type_name (JBool _) = ''boolean''"
| "type_name (JBinary _ _) = ''binary''"
| "type_name JDiscarded = ''discarded''"
| "type_name _ = ''number''"

section \<open>Exceptions\<close>

text \<open>The text goes through a C string. \<open>diagnostics\<close> is empty (the macro \<^verbatim>\<open>JSON_DIAGNOSTICS\<close> is off).\<close>

definition exception_name :: "string \<Rightarrow> nat \<Rightarrow> string" where
  "exception_name ename i = ''[json.exception.'' @ ename @ ''.'' @ show_nat i @ ''] ''"

definition type_error :: "nat \<Rightarrow> string \<Rightarrow> cpp_exn" where
  "type_error i what_arg = JsonError (c_str (exception_name ''type_error'' i @ what_arg))"

definition out_of_range :: "nat \<Rightarrow> string \<Rightarrow> cpp_exn" where
  "out_of_range i what_arg = JsonError (c_str (exception_name ''out_of_range'' i @ what_arg))"

definition hex_upper :: "nat \<Rightarrow> char" where
  "hex_upper d = (if d < 10 then char_of (48 + d) else char_of (55 + d))"

section \<open>Access\<close>

text \<open>\<open>j[key]\<close> on the left of an assignment: null becomes an object, a missing key is inserted.\<close>

definition json_put :: "json \<Rightarrow> string \<Rightarrow> json \<Rightarrow> json res" where
  "json_put j key v =
     (let j = (if j = JNull then JObject [] else j) in
      case j of
        JObject kvs \<Rightarrow> Inr (JObject (map_set kvs key v))
      | _ \<Rightarrow> Inl (type_error 305 (''cannot use operator[] with a string argument with '' @ type_name j)))"

text \<open>\<open>j[key]\<close> that is read: a missing key gives null.\<close>

definition json_at :: "json \<Rightarrow> string \<Rightarrow> json res" where
  "json_at j key =
     (let j = (if j = JNull then JObject [] else j) in
      case j of
        JObject kvs \<Rightarrow> Inr (case map_find kvs key of Some v \<Rightarrow> v | None \<Rightarrow> JNull)
      | _ \<Rightarrow> Inl (type_error 305 (''cannot use operator[] with a string argument with '' @ type_name j)))"

definition json_push_back :: "json \<Rightarrow> json \<Rightarrow> json res" where
  "json_push_back j v =
     (case j of
        JNull \<Rightarrow> Inr (JArray [v])
      | JArray js \<Rightarrow> Inr (JArray (js @ [v]))
      | _ \<Rightarrow> Inl (type_error 308 (''cannot use push_back() with '' @ type_name j)))"

text \<open>The range-based loop: elements of an array, values of an object, nothing for null, others themselves.\<close>

definition json_items :: "json \<Rightarrow> json list" where
  "json_items j =
     (case j of JArray js \<Rightarrow> js | JObject kvs \<Rightarrow> map snd kvs | JNull \<Rightarrow> [] | _ \<Rightarrow> [j])"

section \<open>Conversions\<close>

definition json_str :: "json \<Rightarrow> string res" where
  "json_str j =
     (case j of JString s \<Rightarrow> Inr s | _ \<Rightarrow> Inl (type_error 302 (''type must be string, but is '' @ type_name j)))"

definition json_bool :: "json \<Rightarrow> bool res" where
  "json_bool j =
     (case j of JBool b \<Rightarrow> Inr b | _ \<Rightarrow> Inl (type_error 302 (''type must be boolean, but is '' @ type_name j)))"

text \<open>
  \<open>from_json\<close> for an arithmetic type: \<open>cast\<close> is its conversion from an integer (wrap-around) and \<open>range\<close> the
  integers it holds; a \<open>double\<close> outside them is undefined behaviour.
\<close>

definition json_arith :: "(int \<Rightarrow> 'a) \<Rightarrow> int \<Rightarrow> int \<Rightarrow> json \<Rightarrow> 'a res" where
  "json_arith cast lo hi j =
     (case j of
        JUint n \<Rightarrow> Inr (cast (int n))
      | JInt i \<Rightarrow> Inr (cast i)
      | JFloat x \<Rightarrow> if isfinite x \<and> lo \<le> dbl_trunc x \<and> dbl_trunc x \<le> hi then Inr (cast (dbl_trunc x))
                   else Inl UndefinedBehaviour
      | JBool b \<Rightarrow> Inr (cast (if b then 1 else 0))
      | _ \<Rightarrow> Inl (type_error 302 (''type must be number, but is '' @ type_name j)))"

definition json_u32 :: "json \<Rightarrow> nat res" where
  "json_u32 = json_arith (\<lambda>i. nat (i mod 2 ^ 32)) 0 (2 ^ 32 - 1)"

definition json_i32 :: "json \<Rightarrow> int res" where
  "json_i32 = json_arith (\<lambda>i. (i + 2 ^ 31) mod 2 ^ 32 - 2 ^ 31) (- (2 ^ 31)) (2 ^ 31 - 1)"

text \<open>Each operation on the kind of value it is meant for.\<close>

lemma json_put_simps [simp]:
  "json_put JNull k v = Inr (JObject [(k, v)])"
  "json_put (JObject kvs) k v = Inr (JObject (map_set kvs k v))"
  by (simp_all add: json_put_def)

lemma json_push_back_simps [simp]:
  "json_push_back JNull v = Inr (JArray [v])"
  "json_push_back (JArray js) v = Inr (JArray (js @ [v]))"
  by (simp_all add: json_push_back_def)

lemma json_at_simps [simp]:
  "json_at JNull k = Inr JNull"
  "json_at (JObject kvs) k = Inr (case map_find kvs k of Some v \<Rightarrow> v | None \<Rightarrow> JNull)"
  by (simp_all add: json_at_def)

lemma json_get_simps [simp]:
  "json_str (JString s) = Inr s" "json_bool (JBool b) = Inr b"
  "n < 2 ^ 32 \<Longrightarrow> json_u32 (JUint n) = Inr n"
  "n < 2 ^ 31 \<Longrightarrow> json_i32 (JUint n) = Inr (int n)"
  "- (2 ^ 31) \<le> i \<Longrightarrow> i < 2 ^ 31 \<Longrightarrow> json_i32 (JInt i) = Inr i"
  by (simp_all add: json_str_def json_bool_def json_u32_def json_i32_def json_arith_def)

end
