(* ===== verification/Json_Float.thy ===== *)
theory Json_Float
  imports Json_Value "HOL-Library.Signed_Division"
begin

text \<open>
  Printing of \<open>double\<close> numbers: the namespace \<open>dtoa_impl\<close> and \<open>to_chars\<close> of
  \<^verbatim>\<open>base/internal/json/json.hpp\<close>, the algorithm Grisu2. The unsigned types are natural numbers with the
  wrap-around written out; the exponents are small and plain integers. A buffer is the list of the characters
  written to it, \<open>cap\<close> its size: a write behind it is undefined behaviour.
\<close>

lemma bindr_cong [fundef_cong]: "r = r' \<Longrightarrow> (\<And>v. r' = Inr v \<Longrightarrow> f v = g v) \<Longrightarrow> bindr r f = bindr r' g"
  by (cases r') auto

section \<open>Numbers with a 64-bit significand\<close>

definition u64 :: "nat \<Rightarrow> nat" where
  "u64 n = n mod 2 ^ 64"

definition u32 :: "nat \<Rightarrow> nat" where
  "u32 n = n mod 2 ^ 32"

text \<open>The difference of two 64-bit numbers.\<close>

definition u64_sub :: "nat \<Rightarrow> nat \<Rightarrow> nat" where
  "u64_sub a b = (a + (2 ^ 64 - b)) mod 2 ^ 64"

lemma u64_small: "n < 2 ^ 64 \<Longrightarrow> u64 n = n"
  by (simp add: u64_def)

lemma u64_sub_le: "b \<le> a \<Longrightarrow> a < 2 ^ 64 \<Longrightarrow> u64_sub a b = a - b"
proof -
  assume "b \<le> a" "a < 2 ^ 64"
  then have "a + (2 ^ 64 - b) = (a - b) + 2 ^ 64" "a - b < 2 ^ 64" by linarith+
  then show ?thesis by (simp only: u64_sub_def mod_add_self2 mod_less)
qed

record diyfp =
  fp_f :: nat
  fp_e :: int

definition diyfp_new :: "nat \<Rightarrow> int \<Rightarrow> diyfp" where
  "diyfp_new f e = \<lparr>fp_f = f, fp_e = e\<rparr>"

definition diyfp_sub :: "diyfp \<Rightarrow> diyfp \<Rightarrow> diyfp res" where
  "diyfp_sub x y =
     bindr (assertr (fp_e x = fp_e y)) (\<lambda>_.
     bindr (assertr (fp_f y \<le> fp_f x)) (\<lambda>_.
     Inr (diyfp_new (u64_sub (fp_f x) (fp_f y)) (fp_e x))))"

definition diyfp_mul :: "diyfp \<Rightarrow> diyfp \<Rightarrow> diyfp" where
  "diyfp_mul x y =
     (let u_lo = fp_f x AND 0xFFFFFFFF;
          u_hi = drop_bit 32 (fp_f x);
          v_lo = fp_f y AND 0xFFFFFFFF;
          v_hi = drop_bit 32 (fp_f y);
          p0 = u64 (u_lo * v_lo);
          p1 = u64 (u_lo * v_hi);
          p2 = u64 (u_hi * v_lo);
          p3 = u64 (u_hi * v_hi);
          p0_hi = drop_bit 32 p0;
          p1_lo = p1 AND 0xFFFFFFFF;
          p1_hi = drop_bit 32 p1;
          p2_lo = p2 AND 0xFFFFFFFF;
          p2_hi = drop_bit 32 p2;
          Q = u64 (p0_hi + p1_lo + p2_lo);
          Q = u64 (Q + push_bit (64 - 32 - 1) 1);
          h = u64 (p3 + p2_hi + p1_hi + drop_bit 32 Q) in
      diyfp_new h (fp_e x + fp_e y + 64))"

text \<open>The assertion excludes 0, for which the loop would not end.\<close>

function normalize_loop :: "diyfp \<Rightarrow> diyfp" where
  "normalize_loop x =
     (if drop_bit 63 (fp_f x) = 0 \<and> fp_f x \<noteq> 0
      then normalize_loop (x\<lparr>fp_f := u64 (push_bit 1 (fp_f x)), fp_e := fp_e x - 1\<rparr>)
      else x)"
  by pat_completeness auto
termination
proof (relation "measure (\<lambda>x. 2 ^ 64 - fp_f x)", goal_cases)
  case (2 x)
  then have "fp_f x < 2 ^ 63" "0 < fp_f x" by (auto simp: drop_bit_eq_div div_eq_0_iff)
  then show ?case by (simp add: u64_def push_bit_eq_mult)
qed simp

declare normalize_loop.simps [simp del]

definition diyfp_normalize :: "diyfp \<Rightarrow> diyfp res" where
  "diyfp_normalize x = bindr (assertr (fp_f x \<noteq> 0)) (\<lambda>_. Inr (normalize_loop x))"

definition normalize_to :: "diyfp \<Rightarrow> int \<Rightarrow> diyfp res" where
  "normalize_to x target_exponent =
     (let delta = fp_e x - target_exponent in
      bindr (assertr (0 \<le> delta)) (\<lambda>_.
      bindr (assertr (drop_bit (nat delta) (u64 (push_bit (nat delta) (fp_f x))) = fp_f x)) (\<lambda>_.
      Inr (diyfp_new (u64 (push_bit (nat delta) (fp_f x))) target_exponent))))"

section \<open>Boundaries\<close>

record boundaries =
  bd_w :: diyfp
  bd_minus :: diyfp
  bd_plus :: diyfp

definition dbl_positive :: "double \<Rightarrow> bool" where
  "dbl_positive x \<longleftrightarrow> \<not> signbit x \<and> (dbl_E x \<noteq> 0 \<or> dbl_F x \<noteq> 0)"

definition kBias :: int where
  "kBias = 1024 - 1 + (53 - 1)"

definition kHiddenBit :: nat where
  "kHiddenBit = 2 ^ (53 - 1)"

text \<open>The number itself, before it is normalized. The sign bit is 0, so the shift leaves the biased exponent.\<close>

definition diyfp_of :: "double \<Rightarrow> diyfp" where
  "diyfp_of value =
     (let E = drop_bit (53 - 1) (unat value);
          F = unat value AND (kHiddenBit - 1) in
      if E = 0 then diyfp_new F (1 - kBias) else diyfp_new (u64 (F + kHiddenBit)) (int E - kBias))"

definition compute_boundaries :: "double \<Rightarrow> boundaries res" where
  "compute_boundaries value =
     bindr (assertr (isfinite value)) (\<lambda>_.
     bindr (assertr (dbl_positive value)) (\<lambda>_.
     let E = drop_bit (53 - 1) (unat value);
         F = unat value AND (kHiddenBit - 1);
         v = diyfp_of value;
         lower_boundary_is_closer = (F = 0 \<and> E > 1);
         m_plus = diyfp_new (u64 (2 * fp_f v + 1)) (fp_e v - 1);
         m_minus = (if lower_boundary_is_closer then diyfp_new (u64_sub (u64 (4 * fp_f v)) 1) (fp_e v - 2)
                    else diyfp_new (u64_sub (u64 (2 * fp_f v)) 1) (fp_e v - 1)) in
     bindr (diyfp_normalize m_plus) (\<lambda>w_plus.
     bindr (normalize_to m_minus (fp_e w_plus)) (\<lambda>w_minus.
     bindr (diyfp_normalize v) (\<lambda>w.
     Inr \<lparr>bd_w = w, bd_minus = w_minus, bd_plus = w_plus\<rparr>)))))"

section \<open>Powers of ten\<close>

definition kAlpha :: int where
  "kAlpha = - 60"

definition kGamma :: int where
  "kGamma = - 32"

text \<open>Significand, binary exponent and decimal exponent.\<close>

type_synonym cached_power = "nat \<times> int \<times> int"

definition kCachedPowers :: "cached_power list" where
  "kCachedPowers =
     [(0xAB70FE17C79AC6CA, - 1060, - 300),
      (0xFF77B1FCBEBCDC4F, - 1034, - 292),
      (0xBE5691EF416BD60C, - 1007, - 284),
      (0x8DD01FAD907FFC3C, - 980, - 276),
      (0xD3515C2831559A83, - 954, - 268),
      (0x9D71AC8FADA6C9B5, - 927, - 260),
      (0xEA9C227723EE8BCB, - 901, - 252),
      (0xAECC49914078536D, - 874, - 244),
      (0x823C12795DB6CE57, - 847, - 236),
      (0xC21094364DFB5637, - 821, - 228),
      (0x9096EA6F3848984F, - 794, - 220),
      (0xD77485CB25823AC7, - 768, - 212),
      (0xA086CFCD97BF97F4, - 741, - 204),
      (0xEF340A98172AACE5, - 715, - 196),
      (0xB23867FB2A35B28E, - 688, - 188),
      (0x84C8D4DFD2C63F3B, - 661, - 180),
      (0xC5DD44271AD3CDBA, - 635, - 172),
      (0x936B9FCEBB25C996, - 608, - 164),
      (0xDBAC6C247D62A584, - 582, - 156),
      (0xA3AB66580D5FDAF6, - 555, - 148),
      (0xF3E2F893DEC3F126, - 529, - 140),
      (0xB5B5ADA8AAFF80B8, - 502, - 132),
      (0x87625F056C7C4A8B, - 475, - 124),
      (0xC9BCFF6034C13053, - 449, - 116),
      (0x964E858C91BA2655, - 422, - 108),
      (0xDFF9772470297EBD, - 396, - 100),
      (0xA6DFBD9FB8E5B88F, - 369, - 92),
      (0xF8A95FCF88747D94, - 343, - 84),
      (0xB94470938FA89BCF, - 316, - 76),
      (0x8A08F0F8BF0F156B, - 289, - 68),
      (0xCDB02555653131B6, - 263, - 60),
      (0x993FE2C6D07B7FAC, - 236, - 52),
      (0xE45C10C42A2B3B06, - 210, - 44),
      (0xAA242499697392D3, - 183, - 36),
      (0xFD87B5F28300CA0E, - 157, - 28),
      (0xBCE5086492111AEB, - 130, - 20),
      (0x8CBCCC096F5088CC, - 103, - 12),
      (0xD1B71758E219652C, - 77, - 4),
      (0x9C40000000000000, - 50, 4),
      (0xE8D4A51000000000, - 24, 12),
      (0xAD78EBC5AC620000, 3, 20),
      (0x813F3978F8940984, 30, 28),
      (0xC097CE7BC90715B3, 56, 36),
      (0x8F7E32CE7BEA5C70, 83, 44),
      (0xD5D238A4ABE98068, 109, 52),
      (0x9F4F2726179A2245, 136, 60),
      (0xED63A231D4C4FB27, 162, 68),
      (0xB0DE65388CC8ADA8, 189, 76),
      (0x83C7088E1AAB65DB, 216, 84),
      (0xC45D1DF942711D9A, 242, 92),
      (0x924D692CA61BE758, 269, 100),
      (0xDA01EE641A708DEA, 295, 108),
      (0xA26DA3999AEF774A, 322, 116),
      (0xF209787BB47D6B85, 348, 124),
      (0xB454E4A179DD1877, 375, 132),
      (0x865B86925B9BC5C2, 402, 140),
      (0xC83553C5C8965D3D, 428, 148),
      (0x952AB45CFA97A0B3, 455, 156),
      (0xDE469FBD99A05FE3, 481, 164),
      (0xA59BC234DB398C25, 508, 172),
      (0xF6C69A72A3989F5C, 534, 180),
      (0xB7DCBF5354E9BECE, 561, 188),
      (0x88FCF317F22241E2, 588, 196),
      (0xCC20CE9BD35C78A5, 614, 204),
      (0x98165AF37B2153DF, 641, 212),
      (0xE2A0B5DC971F303A, 667, 220),
      (0xA8D9D1535CE3B396, 694, 228),
      (0xFB9B7CD9A4A7443C, 720, 236),
      (0xBB764C4CA7A44410, 747, 244),
      (0x8BAB8EEFB6409C1A, 774, 252),
      (0xD01FEF10A657842C, 800, 260),
      (0x9B10A4E5E9913129, 827, 268),
      (0xE7109BFBA19C0C9D, 853, 276),
      (0xAC2820D9623BF429, 880, 284),
      (0x80444B5E7AA7CF85, 907, 292),
      (0xBF21E44003ACDD2D, 933, 300),
      (0x8E679C2F5E44FF8F, 960, 308),
      (0xD433179D9C8CB841, 986, 316),
      (0x9E19DB92B4E31BA9, 1013, 324)]"

definition cached_index :: "int \<Rightarrow> int" where
  "cached_index e =
     (let f = kAlpha - e - 1;
          k = (f * 78913) sdiv 2 ^ 18 + (if f > 0 then 1 else 0) in
      (300 + k + (8 - 1)) sdiv 8)"

definition get_cached_power_for_binary_exponent :: "int \<Rightarrow> cached_power res" where
  "get_cached_power_for_binary_exponent e =
     bindr (assertr (- 1500 \<le> e)) (\<lambda>_.
     bindr (assertr (e \<le> 1500)) (\<lambda>_.
     let index = cached_index e in
     bindr (assertr (0 \<le> index)) (\<lambda>_.
     bindr (assertr (nat index < length kCachedPowers)) (\<lambda>_.
     case kCachedPowers ! nat index of (cf, ce, ck) \<Rightarrow>
     bindr (assertr (kAlpha \<le> ce + e + 64)) (\<lambda>_.
     bindr (assertr (ce + e + 64 \<le> kGamma)) (\<lambda>_.
     Inr (cf, ce, ck)))))))"

text \<open>The number of digits and the power of ten of the first one.\<close>

definition find_largest_pow10 :: "nat \<Rightarrow> nat \<times> nat" where
  "find_largest_pow10 n =
     (if n \<ge> 1000000000 then (10, 1000000000)
      else if n \<ge> 100000000 then (9, 100000000)
      else if n \<ge> 10000000 then (8, 10000000)
      else if n \<ge> 1000000 then (7, 1000000)
      else if n \<ge> 100000 then (6, 100000)
      else if n \<ge> 10000 then (5, 10000)
      else if n \<ge> 1000 then (4, 1000)
      else if n \<ge> 100 then (3, 100)
      else if n \<ge> 10 then (2, 10)
      else (1, 1))"

section \<open>Digits\<close>

definition char_dec :: "char \<Rightarrow> char" where
  "char_dec c = char_of ((of_char c + 255) mod (256 :: nat))"

lemma char_dec_less: "c \<noteq> CHR ''0'' \<Longrightarrow> (of_char (char_dec c) + 208) mod 256 < (of_char c + 208) mod (256 :: nat)"
proof -
  assume "c \<noteq> CHR ''0''"
  then have "(of_char c :: nat) \<noteq> of_char (CHR ''0'')" by (simp only: of_char_eq_iff not_False_eq_True)
  then have "(of_char c :: nat) \<noteq> 48" by simp
  moreover have "(of_char c :: nat) < 256" by simp
  moreover have "((n + 255) mod 256 + 208) mod 256 < (n + 208) mod 256" if "n \<noteq> 48" "n < 256" for n :: nat
    using that by (cases n) (auto simp: mod_if split: if_splits)
  ultimately show ?thesis by (simp add: char_dec_def)
qed

text \<open>The last digit is \<open>buf[len - 1]\<close>; the loop ends because the assertion stops it at the digit 0.\<close>

function grisu2_round_loop :: "char \<Rightarrow> nat \<Rightarrow> nat \<Rightarrow> nat \<Rightarrow> nat \<Rightarrow> char res" where
  "grisu2_round_loop c dist delta rest ten_k =
     (if rest < dist \<and> ten_k \<le> u64_sub delta rest \<and>
         (u64 (rest + ten_k) < dist \<or> u64_sub (u64 (rest + ten_k)) dist < u64_sub dist rest)
      then bindr (assertr (c \<noteq> CHR ''0'')) (\<lambda>_. grisu2_round_loop (char_dec c) dist delta (u64 (rest + ten_k)) ten_k)
      else Inr c)"
  by pat_completeness auto
termination
  by (relation "measure (\<lambda>(c, _). (of_char c + 208) mod 256)") (auto simp: assertr_def char_dec_less split: if_splits)

declare grisu2_round_loop.simps [simp del]

definition grisu2_round :: "string \<Rightarrow> nat \<Rightarrow> nat \<Rightarrow> nat \<Rightarrow> nat \<Rightarrow> string res" where
  "grisu2_round buf dist delta rest ten_k =
     bindr (assertr (buf \<noteq> [])) (\<lambda>_.
     bindr (assertr (dist \<le> delta)) (\<lambda>_.
     bindr (assertr (rest \<le> delta)) (\<lambda>_.
     bindr (assertr (ten_k > 0)) (\<lambda>_.
     bindr (grisu2_round_loop (last buf) dist delta rest ten_k) (\<lambda>c. Inr (butlast buf @ [c]))))))"

definition put_digit :: "nat \<Rightarrow> string \<Rightarrow> nat \<Rightarrow> string res" where
  "put_digit cap buffer d = (if length buffer < cap then Inr (buffer @ [char_of (48 + d)]) else Inl UndefinedBehaviour)"

text \<open>
  The digits of the integral part; \<open>sh\<close> is \<open>-one.e\<close>. \<open>Inl\<close> when the function returns from the loop,
  \<open>Inr\<close> with the digits when all of them are written.
\<close>

fun digits_integral :: "nat \<Rightarrow> nat \<Rightarrow> nat \<Rightarrow> nat \<Rightarrow> nat \<Rightarrow> nat \<Rightarrow> nat \<Rightarrow> nat \<Rightarrow> string \<Rightarrow> ((string \<times> int) + string) res" where
  "digits_integral cap 0 p1 pow10 p2 delta dist sh buffer = Inr (Inr buffer)"
| "digits_integral cap (Suc n) p1 pow10 p2 delta dist sh buffer =
     (let d = p1 div pow10; r = p1 mod pow10 in
      bindr (assertr (d \<le> 9)) (\<lambda>_.
      bindr (put_digit cap buffer d) (\<lambda>buffer.
      let rest = u64 (u64 (push_bit sh r) + p2) in
      if rest \<le> delta
      then bindr (grisu2_round buffer dist delta rest (u64 (push_bit sh pow10))) (\<lambda>buffer. Inr (Inl (buffer, int n)))
      else digits_integral cap n r (pow10 div 10) p2 delta dist sh buffer)))"

text \<open>The digits of the fraction, with the number of them.\<close>

function digits_fraction :: "nat \<Rightarrow> nat \<Rightarrow> nat \<Rightarrow> nat \<Rightarrow> nat \<Rightarrow> string \<Rightarrow> nat \<Rightarrow> (string \<times> int) res" where
  "digits_fraction cap p2 delta dist sh buffer m =
     bindr (assertr (p2 \<le> (2 ^ 64 - 1) div 10)) (\<lambda>_.
     let p2 = u64 (p2 * 10);
         d = drop_bit sh p2;
         r = p2 AND (2 ^ sh - 1) in
     bindr (assertr (d \<le> 9)) (\<lambda>_.
     if \<not> length buffer < cap then Inl UndefinedBehaviour
     else
       let buffer = buffer @ [char_of (48 + d)];
           delta = u64 (delta * 10);
           dist = u64 (dist * 10) in
       if r \<le> delta then bindr (grisu2_round buffer dist delta r (2 ^ sh)) (\<lambda>buffer. Inr (buffer, - int (m + 1)))
       else digits_fraction cap r delta dist sh buffer (m + 1)))"
  by pat_completeness auto
termination
  by (relation "measure (\<lambda>(cap, p2, delta, dist, sh, buffer, m). cap - length buffer)") auto

declare digits_fraction.simps [simp del]

text \<open>The digits, and what is added to the decimal exponent. \<open>one\<close> is \<open>2 ^ sh\<close>.\<close>

definition grisu2_digit_gen :: "nat \<Rightarrow> diyfp \<Rightarrow> diyfp \<Rightarrow> diyfp \<Rightarrow> (string \<times> int) res" where
  "grisu2_digit_gen cap M_minus w M_plus =
     bindr (assertr (kAlpha \<le> fp_e M_plus)) (\<lambda>_.
     bindr (assertr (fp_e M_plus \<le> kGamma)) (\<lambda>_.
     bindr (diyfp_sub M_plus M_minus) (\<lambda>delta.
     bindr (diyfp_sub M_plus w) (\<lambda>dist.
     let sh = nat (- fp_e M_plus);
         p1 = u32 (drop_bit sh (fp_f M_plus));
         p2 = fp_f M_plus AND (2 ^ sh - 1) in
     bindr (assertr (p1 > 0)) (\<lambda>_.
     case find_largest_pow10 p1 of (k, pow10) \<Rightarrow>
     bindr (digits_integral cap k p1 pow10 p2 (fp_f delta) (fp_f dist) sh []) (\<lambda>r.
     case r of
       Inl result \<Rightarrow> Inr result
     | Inr buffer \<Rightarrow>
         bindr (assertr (fp_f delta < p2)) (\<lambda>_. digits_fraction cap p2 (fp_f delta) (fp_f dist) sh buffer 0)))))))"

definition grisu2_bounds :: "nat \<Rightarrow> diyfp \<Rightarrow> diyfp \<Rightarrow> diyfp \<Rightarrow> (string \<times> int) res" where
  "grisu2_bounds cap m_minus v m_plus =
     bindr (assertr (fp_e m_plus = fp_e m_minus)) (\<lambda>_.
     bindr (assertr (fp_e m_plus = fp_e v)) (\<lambda>_.
     bindr (get_cached_power_for_binary_exponent (fp_e m_plus)) (\<lambda>(cf, ce, ck).
     let c_minus_k = diyfp_new cf ce;
         w = diyfp_mul v c_minus_k;
         w_minus = diyfp_mul m_minus c_minus_k;
         w_plus = diyfp_mul m_plus c_minus_k;
         M_minus = diyfp_new (u64 (fp_f w_minus + 1)) (fp_e w_minus);
         M_plus = diyfp_new (u64_sub (fp_f w_plus) 1) (fp_e w_plus) in
     bindr (grisu2_digit_gen cap M_minus w M_plus) (\<lambda>(buf, de). Inr (buf, de - ck)))))"

definition grisu2 :: "nat \<Rightarrow> double \<Rightarrow> (string \<times> int) res" where
  "grisu2 cap value =
     bindr (assertr (isfinite value)) (\<lambda>_.
     bindr (assertr (dbl_positive value)) (\<lambda>_.
     bindr (compute_boundaries value) (\<lambda>w.
     grisu2_bounds cap (bd_minus w) (bd_w w) (bd_plus w))))"

section \<open>Notation\<close>

definition append_exponent :: "int \<Rightarrow> string res" where
  "append_exponent e =
     bindr (assertr (- 1000 < e)) (\<lambda>_.
     bindr (assertr (e < 1000)) (\<lambda>_.
     let k = nat \<bar>e\<bar>;
         sgn = (if e < 0 then ''-'' else ''+'') in
     Inr (sgn @
       (if k < 10 then [CHR ''0'', digit_char k]
        else if k < 100 then [digit_char (k div 10), digit_char (k mod 10)]
        else [digit_char (k div 100), digit_char (k mod 100 div 10), digit_char (k mod 100 mod 10)]))))"

text \<open>The buffer holds the digits; the result is what it holds up to the pointer that is returned.\<close>

definition format_buffer :: "nat \<Rightarrow> string \<Rightarrow> int \<Rightarrow> int \<Rightarrow> int \<Rightarrow> string res" where
  "format_buffer cap buf decimal_exponent min_exp max_exp =
     bindr (assertr (min_exp < 0)) (\<lambda>_.
     bindr (assertr (max_exp > 0)) (\<lambda>_.
     let k = int (length buf);
         n = k + decimal_exponent in
     bindr (if k \<le> n \<and> n \<le> max_exp then Inr (buf @ replicate (nat (n - k)) (CHR ''0'') @ ''.0'')
            else if 0 < n \<and> n \<le> max_exp
            then bindr (assertr (k > n)) (\<lambda>_. Inr (take (nat n) buf @ ''.'' @ drop (nat n) buf))
            else if min_exp < n \<and> n \<le> 0 then Inr (''0.'' @ replicate (nat (- n)) (CHR ''0'') @ buf)
            else bindr (append_exponent (n - 1)) (\<lambda>ex.
                 Inr ((if k = 1 then buf else take 1 buf @ ''.'' @ drop 1 buf) @ ''e'' @ ex))) (\<lambda>s.
     if length s \<le> cap then Inr s else Inl UndefinedBehaviour)))"

definition to_chars :: "nat \<Rightarrow> double \<Rightarrow> string res" where
  "to_chars cap value =
     bindr (assertr (isfinite value)) (\<lambda>_.
     let neg = signbit value;
         value = (if neg then value XOR push_bit 63 1 else value);
         cap = (if neg then cap - 1 else cap) in
     bindr (if dbl_E value = 0 \<and> dbl_F value = 0 then Inr ''0.0''
            else
              bindr (assertr (cap \<ge> 17)) (\<lambda>_.
              bindr (grisu2 cap value) (\<lambda>(buf, decimal_exponent).
              bindr (assertr (length buf \<le> 17)) (\<lambda>_.
              bindr (assertr (cap \<ge> 15 + 2)) (\<lambda>_.
              bindr (assertr (cap \<ge> 2 + (4 - 1) + 17)) (\<lambda>_.
              bindr (assertr (cap \<ge> 17 + 6)) (\<lambda>_.
              format_buffer cap buf decimal_exponent (- 4) 15))))))) (\<lambda>s.
     Inr ((if neg then ''-'' else []) @ s)))"

end
