(* ===== verification/Json_Dump.thy ===== *)
theory Json_Dump
  imports Json_Float
begin

text \<open>
  The serializer of the JSON library, the class \<open>serializer\<close> of \<^verbatim>\<open>base/internal/json/json.hpp\<close>, and
  \<open>basic_json::dump\<close>. What is written to the output adapter is the string of the result; an exception
  discards it.
\<close>

datatype error_handler_t = strict | replace | ignore

section \<open>UTF-8\<close>

definition UTF8_ACCEPT :: nat where
  "UTF8_ACCEPT = 0"

definition UTF8_REJECT :: nat where
  "UTF8_REJECT = 1"

text \<open>The classes of the bytes, then sixteen entries for each of the nine states.\<close>

definition utf8d :: "nat list" where
  "utf8d =
     replicate 128 0 @
     replicate 16 1 @ replicate 16 9 @
     replicate 32 7 @
     [8, 8] @ replicate 30 2 @
     [0xA, 0x3, 0x3, 0x3, 0x3, 0x3, 0x3, 0x3, 0x3, 0x3, 0x3, 0x3, 0x3, 0x4, 0x3, 0x3] @
     [0xB, 0x6, 0x6, 0x6, 0x5, 0x8, 0x8, 0x8, 0x8, 0x8, 0x8, 0x8, 0x8, 0x8, 0x8, 0x8] @
     [0x0, 0x1, 0x2, 0x3, 0x5, 0x8, 0x7, 0x1, 0x1, 0x1, 0x4, 0x6, 0x1, 0x1, 0x1, 0x1] @
     [1, 1, 1, 1, 1, 1, 1, 1, 1, 1, 1, 1, 1, 1, 1, 1] @ [1, 0, 1, 1, 1, 1, 1, 0, 1, 0, 1, 1, 1, 1, 1, 1] @
     [1, 2, 1, 1, 1, 1, 1, 2, 1, 2, 1, 1, 1, 1, 1, 1] @ [1, 1, 1, 1, 1, 1, 1, 2, 1, 1, 1, 1, 1, 1, 1, 1] @
     [1, 2, 1, 1, 1, 1, 1, 1, 1, 2, 1, 1, 1, 1, 1, 1] @ [1, 1, 1, 1, 1, 1, 1, 3, 1, 3, 1, 1, 1, 1, 1, 1] @
     [1, 3, 1, 1, 1, 1, 1, 3, 1, 3, 1, 1, 1, 1, 1, 1] @ [1, 3, 1, 1, 1, 1, 1, 1, 1, 1, 1, 1, 1, 1, 1, 1]"

text \<open>The new state and the new code point.\<close>

definition decode :: "nat \<Rightarrow> nat \<Rightarrow> nat \<Rightarrow> (nat \<times> nat) res" where
  "decode state codep byte =
     bindr (assertr (byte < length utf8d)) (\<lambda>_.
     let type = utf8d ! byte;
         codep = (if state \<noteq> UTF8_ACCEPT then (byte AND 0x3F) OR u32 (push_bit 6 codep)
                  else drop_bit type 0xFF AND byte);
         index = 256 + state * 16 + type in
     bindr (assertr (index < 400)) (\<lambda>_. Inr (utf8d ! index, codep)))"

section \<open>Strings\<close>

definition hex_bytes :: "nat \<Rightarrow> string" where
  "hex_bytes byte = [hex_upper (byte div 16), hex_upper (byte mod 16)]"

definition hex_lower :: "nat \<Rightarrow> char" where
  "hex_lower d = (if d < 10 then char_of (48 + d) else char_of (87 + d))"

text \<open>\<open>snprintf\<close> of a 16-bit number with the format \<open>\u%04x\<close>.\<close>

definition u04x :: "nat \<Rightarrow> string" where
  "u04x n = [CHR 0x5C, CHR ''u'', hex_lower (n div 4096 mod 16), hex_lower (n div 256 mod 16),
     hex_lower (n div 16 mod 16), hex_lower (n mod 16)]"

text \<open>
  The loop's variables: what has been written to the output, \<open>string_buffer\<close> up to \<open>bytes\<close>, and the
  state of the decoder. \<open>put_bytes n s\<close> is a write of \<open>s\<close> that needs \<open>n\<close> bytes of the buffer.
\<close>

record escaper =
  es_out :: string
  es_buffer :: string
  es_last_accept :: nat
  es_undumped :: nat
  es_state :: nat
  es_codepoint :: nat

definition put_bytes :: "nat \<Rightarrow> string \<Rightarrow> escaper \<Rightarrow> escaper res" where
  "put_bytes n s d =
     (if length (es_buffer d) + n \<le> 512 then Inr (d\<lparr>es_buffer := es_buffer d @ s\<rparr>) else Inl UndefinedBehaviour)"

definition write_buffer :: "escaper \<Rightarrow> escaper" where
  "write_buffer d =
     (if u64_sub 512 (length (es_buffer d)) < 13 then d\<lparr>es_out := es_out d @ es_buffer d, es_buffer := []\<rparr> else d)"

text \<open>What is written for a code point whose last byte is \<open>c\<close>, and the bytes of the buffer it needs.\<close>

definition escape_codepoint :: "bool \<Rightarrow> nat \<Rightarrow> char \<Rightarrow> nat \<times> string" where
  "escape_codepoint ensure_ascii codepoint c =
     (if codepoint = 0x08 then (2, [CHR 0x5C, CHR ''b''])
      else if codepoint = 0x09 then (2, [CHR 0x5C, CHR ''t''])
      else if codepoint = 0x0A then (2, [CHR 0x5C, CHR ''n''])
      else if codepoint = 0x0C then (2, [CHR 0x5C, CHR ''f''])
      else if codepoint = 0x0D then (2, [CHR 0x5C, CHR ''r''])
      else if codepoint = 0x22 then (2, [CHR 0x5C, CHR 0x22])
      else if codepoint = 0x5C then (2, [CHR 0x5C, CHR 0x5C])
      else if codepoint \<le> 0x1F \<or> ensure_ascii \<and> codepoint \<ge> 0x7F
      then if codepoint \<le> 0xFFFF then (7, u04x codepoint)
           else (13, u04x ((0xD7C0 + drop_bit 10 codepoint) mod 2 ^ 16) @ u04x ((0xDC00 + (codepoint AND 0x3FF)) mod 2 ^ 16))
      else (1, [c]))"

definition escape_accept :: "bool \<Rightarrow> char \<Rightarrow> escaper \<Rightarrow> escaper res" where
  "escape_accept ensure_ascii c d =
     (case escape_codepoint ensure_ascii (es_codepoint d) c of (n, s) \<Rightarrow>
      bindr (put_bytes n s d) (\<lambda>d.
      let d = write_buffer d in
      Inr (d\<lparr>es_last_accept := length (es_buffer d), es_undumped := 0\<rparr>)))"

text \<open>An invalid byte for the handlers \<open>ignore\<close> and \<open>replace\<close>.\<close>

definition escape_reject :: "error_handler_t \<Rightarrow> bool \<Rightarrow> escaper \<Rightarrow> escaper res" where
  "escape_reject error_handler ensure_ascii d =
     (let d = d\<lparr>es_buffer := take (es_last_accept d) (es_buffer d)\<rparr> in
      bindr (if error_handler = replace
             then
               bindr (if ensure_ascii then put_bytes 6 ([CHR 0x5C] @ ''ufffd'') d
                      else put_bytes 3 [CHR 0xEF, CHR 0xBF, CHR 0xBD] d) (\<lambda>d.
               let d = write_buffer d in
               Inr (d\<lparr>es_last_accept := length (es_buffer d)\<rparr>))
             else Inr d) (\<lambda>d.
      Inr (d\<lparr>es_undumped := 0, es_state := UTF8_ACCEPT\<rparr>)))"

lemma escape_reject_undumped: "escape_reject eh ea d = Inr d' \<Longrightarrow> es_undumped d' = 0"
  by (auto simp: escape_reject_def Let_def bindr_Inr_iff)

text \<open>The loop over the rest of the string; \<open>i\<close> is the index of its first byte.\<close>

function escape_loop :: "error_handler_t \<Rightarrow> bool \<Rightarrow> nat \<Rightarrow> string \<Rightarrow> escaper \<Rightarrow> escaper res" where
  "escape_loop error_handler ensure_ascii i [] d = Inr d"
| "escape_loop error_handler ensure_ascii i (c # cs) d =
     bindr (decode (es_state d) (es_codepoint d) (of_char c)) (\<lambda>(state, codepoint).
     let d' = d\<lparr>es_state := state, es_codepoint := codepoint\<rparr> in
     if state = UTF8_ACCEPT
     then bindr (escape_accept ensure_ascii c d') (\<lambda>d. escape_loop error_handler ensure_ascii (i + 1) cs d)
     else if state = UTF8_REJECT
     then
       if error_handler = strict
       then Inl (type_error 316 (''invalid UTF-8 byte at index '' @ show_nat i @ '': 0x'' @ hex_bytes (of_char c)))
       else
         bindr (escape_reject error_handler ensure_ascii d') (\<lambda>d''.
         if es_undumped d > 0 then escape_loop error_handler ensure_ascii i (c # cs) d''
         else escape_loop error_handler ensure_ascii (i + 1) cs d'')
     else
       bindr (if ensure_ascii then Inr d' else put_bytes 1 [c] d') (\<lambda>d.
       escape_loop error_handler ensure_ascii (i + 1) cs (d\<lparr>es_undumped := es_undumped d + 1\<rparr>)))"
  by pat_completeness auto

termination
  by (relation "measure (\<lambda>(_, _, _, s, d). 2 * length s + (if es_undumped d > 0 then 1 else 0))")
    (auto dest: escape_reject_undumped)

definition dump_escaped :: "error_handler_t \<Rightarrow> bool \<Rightarrow> string \<Rightarrow> string res" where
  "dump_escaped error_handler ensure_ascii s =
     bindr (escape_loop error_handler ensure_ascii 0 s
              \<lparr>es_out = [], es_buffer = [], es_last_accept = 0, es_undumped = 0, es_state = UTF8_ACCEPT, es_codepoint = 0\<rparr>) (\<lambda>d.
     if es_state d = UTF8_ACCEPT then Inr (es_out d @ es_buffer d)
     else
       case error_handler of
         strict \<Rightarrow> Inl (type_error 316 (''incomplete UTF-8 string; last byte: 0x'' @ hex_bytes (of_char (last s))))
       | ignore \<Rightarrow> Inr (es_out d @ take (es_last_accept d) (es_buffer d))
       | replace \<Rightarrow>
           Inr (es_out d @ take (es_last_accept d) (es_buffer d) @
                (if ensure_ascii then [CHR 0x5C] @ ''ufffd'' else [CHR 0xEF, CHR 0xBF, CHR 0xBD])))"

section \<open>Numbers\<close>

fun count_digits_loop :: "nat \<Rightarrow> nat \<Rightarrow> nat" where
  "count_digits_loop x n_digits =
     (if x < 10 then n_digits
      else if x < 100 then n_digits + 1
      else if x < 1000 then n_digits + 2
      else if x < 10000 then n_digits + 3
      else count_digits_loop (x div 10000) (n_digits + 4))"

declare count_digits_loop.simps [simp del]

definition count_digits :: "nat \<Rightarrow> nat" where
  "count_digits x = count_digits_loop x 1"

definition remove_sign :: "int \<Rightarrow> nat res" where
  "remove_sign x = bindr (assertr (x < 0 \<and> x < 2 ^ 63 - 1)) (\<lambda>_. Inr (u64 (u64 (nat (- (x + 1))) + 1)))"

text \<open>The table \<open>digits_to_99\<close>.\<close>

definition digits_to_99 :: "nat \<Rightarrow> char \<times> char" where
  "digits_to_99 i = (digit_char (i div 10), digit_char (i mod 10))"

text \<open>\<open>*(--buffer_ptr) = c\<close>.\<close>

definition put_before :: "nat \<Rightarrow> char \<Rightarrow> string \<Rightarrow> (nat \<times> string) res" where
  "put_before p c buf = (if 0 < p \<and> p \<le> length buf then Inr (p - 1, buf[p - 1 := c]) else Inl UndefinedBehaviour)"

definition put_two :: "nat \<Rightarrow> nat \<Rightarrow> string \<Rightarrow> (nat \<times> string) res" where
  "put_two digits_index p buf =
     bindr (put_before p (snd (digits_to_99 digits_index)) buf) (\<lambda>(p, buf).
     put_before p (fst (digits_to_99 digits_index)) buf)"

function dump_digits :: "nat \<Rightarrow> nat \<Rightarrow> string \<Rightarrow> string res" where
  "dump_digits abs_value p buf =
     (if abs_value \<ge> 100
      then bindr (put_two (abs_value mod 100) p buf) (\<lambda>(p, buf). dump_digits (abs_value div 100) p buf)
      else if abs_value \<ge> 10 then bindr (put_two abs_value p buf) (\<lambda>(p, buf). Inr buf)
      else bindr (put_before p (char_of (48 + abs_value)) buf) (\<lambda>(p, buf). Inr buf))"
  by pat_completeness auto
termination
  by (relation "measure (\<lambda>(n, _). n)") auto

declare dump_digits.simps [simp del]

text \<open>\<open>buf\<close> is what \<open>number_buffer\<close> holds.\<close>

definition dump_integer :: "string \<Rightarrow> int \<Rightarrow> string res" where
  "dump_integer buf x =
     (if x = 0 then Inr ''0''
      else
        bindr (if x < 0
               then bindr (remove_sign x) (\<lambda>abs_value. Inr (abs_value, 1 + count_digits abs_value, buf[0 := CHR ''-'']))
               else Inr (u64 (nat x), count_digits (u64 (nat x)), buf)) (\<lambda>(abs_value, n_chars, buf).
        bindr (assertr (n_chars < length buf - 1)) (\<lambda>_.
        bindr (dump_digits abs_value n_chars buf) (\<lambda>buf. Inr (take n_chars buf)))))"

definition dump_float :: "double \<Rightarrow> string res" where
  "dump_float x = (if \<not> isfinite x then Inr ''null'' else to_chars 64 x)"

section \<open>Values\<close>

text \<open>\<open>o->write_characters(indent_string.c_str(), n)\<close>; a C string has a NUL behind its end.\<close>

definition write_indent :: "string \<Rightarrow> nat \<Rightarrow> string res" where
  "write_indent indent_string n =
     (if n \<le> length indent_string + 1 then Inr (take n (indent_string @ [NUL])) else Inl UndefinedBehaviour)"

definition grow_indent :: "string \<Rightarrow> nat \<Rightarrow> string" where
  "grow_indent indent_string new_indent =
     (if length indent_string < new_indent then indent_string @ replicate (length indent_string) (CHR '' '') else indent_string)"

record serializer =
  sz_pretty :: bool
  sz_ascii :: bool
  sz_handler :: error_handler_t
  sz_step :: nat

text \<open>The numbers of the array \<open>bytes\<close>. The buffer is written before it is read, so what it held is not followed.\<close>

fun dump_bytes :: "string \<Rightarrow> nat list \<Rightarrow> string res" where
  "dump_bytes sep [] = Inr []"
| "dump_bytes sep [b] = dump_integer (replicate 64 NUL) (int b)"
| "dump_bytes sep (b # bs) =
     bindr (dump_integer (replicate 64 NUL) (int b)) (\<lambda>s. bindr (dump_bytes sep bs) (\<lambda>r. Inr (s @ sep @ r)))"

definition dump_subtype :: "nat option \<Rightarrow> string res" where
  "dump_subtype t = (case t of Some n \<Rightarrow> dump_integer (replicate 64 NUL) (int n) | None \<Rightarrow> Inr ''null'')"

definition quote :: string where
  "quote = [CHR 0x22]"

definition dump_binary :: "serializer \<Rightarrow> nat \<Rightarrow> string \<Rightarrow> nat list \<Rightarrow> nat option \<Rightarrow> (string \<times> string) res" where
  "dump_binary sz current_indent ind bs t =
     (if sz_pretty sz
      then
        let new_indent = u32 (current_indent + sz_step sz);
            ind = grow_indent ind new_indent in
        bindr (write_indent ind new_indent) (\<lambda>i1.
        bindr (dump_bytes '', '' bs) (\<lambda>s.
        bindr (dump_subtype t) (\<lambda>st.
        bindr (write_indent ind current_indent) (\<lambda>i2.
        Inr (''{'' @ [CHR 0x0A] @ i1 @ quote @ ''bytes'' @ quote @ '': ['' @ s @ ''],'' @ [CHR 0x0A] @ i1 @ quote @ ''subtype'' @ quote @ '': '' @
             st @ [CHR 0x0A] @ i2 @ ''}'', ind)))))
      else
        bindr (dump_bytes '','' bs) (\<lambda>s.
        bindr (dump_subtype t) (\<lambda>st.
        Inr (''{'' @ quote @ ''bytes'' @ quote @ '':['' @ s @ ''],'' @ quote @ ''subtype'' @ quote @ '':'' @ st @ ''}'', ind))))"

text \<open>The two brackets of a container around what its elements give.\<close>

definition dump_brackets :: "serializer \<Rightarrow> nat \<Rightarrow> char \<Rightarrow> char \<Rightarrow> (string \<times> string) res \<Rightarrow> (string \<times> string) res" where
  "dump_brackets sz current_indent l r body =
     bindr body (\<lambda>(s, ind).
     if sz_pretty sz
     then bindr (write_indent ind current_indent) (\<lambda>i. Inr ([l, CHR 0x0A] @ s @ [CHR 0x0A] @ i @ [r], ind))
     else Inr ([l] @ s @ [r], ind))"

text \<open>
  \<open>dump\<close> gives the text and \<open>indent_string\<close> after it. An element of a container is written behind its
  indentation and before the separator, which the last one does not have.
\<close>

fun dump :: "serializer \<Rightarrow> nat \<Rightarrow> string \<Rightarrow> json \<Rightarrow> (string \<times> string) res"
  and dump_members :: "serializer \<Rightarrow> nat \<Rightarrow> string \<Rightarrow> (string \<times> json) list \<Rightarrow> (string \<times> string) res"
  and dump_elements :: "serializer \<Rightarrow> nat \<Rightarrow> string \<Rightarrow> json list \<Rightarrow> (string \<times> string) res" where
  "dump sz cur ind (JObject kvs) =
     (if kvs = [] then Inr (''{}'', ind)
      else
        let new_indent = (if sz_pretty sz then u32 (cur + sz_step sz) else cur);
            ind = (if sz_pretty sz then grow_indent ind new_indent else ind) in
        dump_brackets sz cur (CHR ''{'') (CHR ''}'') (dump_members sz new_indent ind kvs))"
| "dump sz cur ind (JArray js) =
     (if js = [] then Inr (''[]'', ind)
      else
        let new_indent = (if sz_pretty sz then u32 (cur + sz_step sz) else cur);
            ind = (if sz_pretty sz then grow_indent ind new_indent else ind) in
        dump_brackets sz cur (CHR ''['') (CHR '']'') (dump_elements sz new_indent ind js))"
| "dump sz cur ind (JString s) = bindr (dump_escaped (sz_handler sz) (sz_ascii sz) s) (\<lambda>s. Inr (quote @ s @ quote, ind))"
| "dump sz cur ind (JBinary bs t) = dump_binary sz cur ind bs t"
| "dump sz cur ind (JBool b) = Inr (if b then ''true'' else ''false'', ind)"
| "dump sz cur ind (JInt i) = bindr (dump_integer (replicate 64 NUL) i) (\<lambda>s. Inr (s, ind))"
| "dump sz cur ind (JUint n) = bindr (dump_integer (replicate 64 NUL) (int n)) (\<lambda>s. Inr (s, ind))"
| "dump sz cur ind (JFloat x) = bindr (dump_float x) (\<lambda>s. Inr (s, ind))"
| "dump sz cur ind JDiscarded = Inr (''<discarded>'', ind)"
| "dump sz cur ind JNull = Inr (''null'', ind)"
| "dump_members sz new_indent ind [] = Inr ([], ind)"
| "dump_members sz new_indent ind ((k, v) # kvs) =
     bindr (if sz_pretty sz then write_indent ind new_indent else Inr []) (\<lambda>i.
     bindr (dump_escaped (sz_handler sz) (sz_ascii sz) k) (\<lambda>ks.
     bindr (dump sz new_indent ind v) (\<lambda>(s, ind).
     let m = i @ quote @ ks @ quote @ (if sz_pretty sz then '': '' else '':'') @ s in
     if kvs = [] then Inr (m, ind)
     else bindr (dump_members sz new_indent ind kvs) (\<lambda>(r, ind).
          Inr (m @ (if sz_pretty sz then '','' @ [CHR 0x0A] else '','') @ r, ind)))))"
| "dump_elements sz new_indent ind [] = Inr ([], ind)"
| "dump_elements sz new_indent ind (v # js) =
     bindr (if sz_pretty sz then write_indent ind new_indent else Inr []) (\<lambda>i.
     bindr (dump sz new_indent ind v) (\<lambda>(s, ind).
     if js = [] then Inr (i @ s, ind)
     else bindr (dump_elements sz new_indent ind js) (\<lambda>(r, ind).
          Inr (i @ s @ (if sz_pretty sz then '','' @ [CHR 0x0A] else '','') @ r, ind))))"

definition json_dump :: "int \<Rightarrow> char \<Rightarrow> bool \<Rightarrow> error_handler_t \<Rightarrow> json \<Rightarrow> string res" where
  "json_dump indent indent_char ensure_ascii error_handler j =
     bindr (dump \<lparr>sz_pretty = (0 \<le> indent), sz_ascii = ensure_ascii, sz_handler = error_handler,
              sz_step = (if 0 \<le> indent then nat indent else 0)\<rparr> 0 (replicate 512 indent_char) j) (\<lambda>(s, _). Inr s)"

text \<open>\<open>dump()\<close>.\<close>

definition dump_default :: "json \<Rightarrow> string res" where
  "dump_default = json_dump (- 1) (CHR '' '') False strict"

end
