(* ===== verification/Json_Lexer.thy ===== *)
theory Json_Lexer
  imports Json_Value
begin

text \<open>
  The lexer of the JSON library, the class \<open>lexer\<close> of \<^verbatim>\<open>base/internal/json/json.hpp\<close>. Its members are a record;
  the input adapter is the rest of the text, from a string or from a stream. The locale is the one a
  C program starts with, so the decimal point is a dot. The assertions of the class are part of the model:
  one that fails, which ends the program in the code, sets \<open>lx_failed\<close>, which nothing resets, and the parser
  reports it where it ends.
\<close>

section \<open>State\<close>

datatype token_type =
    uninitialized | literal_true | literal_false | literal_null | value_string | value_unsigned
  | value_integer | value_float | begin_array | begin_object | end_array | end_object
  | name_separator | value_separator | parse_error | end_of_input | literal_or_value

fun token_type_name :: "token_type \<Rightarrow> string" where
  "token_type_name uninitialized = ''<uninitialized>''"
| "token_type_name literal_true = ''true literal''"
| "token_type_name literal_false = ''false literal''"
| "token_type_name literal_null = ''null literal''"
| "token_type_name value_string = ''string literal''"
| "token_type_name value_unsigned = ''number literal''"
| "token_type_name value_integer = ''number literal''"
| "token_type_name value_float = ''number literal''"
| "token_type_name begin_array = [CHR 0x27, CHR ''['', CHR 0x27]"
| "token_type_name begin_object = [CHR 0x27, CHR ''{'', CHR 0x27]"
| "token_type_name end_array = [CHR 0x27, CHR '']'', CHR 0x27]"
| "token_type_name end_object = [CHR 0x27, CHR ''}'', CHR 0x27]"
| "token_type_name name_separator = [CHR 0x27, CHR '':'', CHR 0x27]"
| "token_type_name value_separator = [CHR 0x27, CHR '','', CHR 0x27]"
| "token_type_name parse_error = ''<parse error>''"
| "token_type_name end_of_input = ''end of input''"
| "token_type_name literal_or_value =
     [CHR 0x27, CHR ''['', CHR 0x27] @ '', '' @ [CHR 0x27, CHR ''{'', CHR 0x27] @ '', or a literal''"

record position_t =
  chars_read_total :: nat
  chars_read_current_line :: nat
  lines_read :: nat

record lexer =
  lx_ia :: string
  lx_ignore_comments :: bool
  lx_current :: int
  lx_next_unget :: bool
  lx_position :: position_t
  lx_token_string :: string
  lx_token_buffer :: string
  lx_error_message :: string
  lx_value_integer :: int
  lx_value_unsigned :: nat
  lx_value_float :: double
  lx_failed :: bool

definition eof :: int where
  "eof = - 1"

definition lexer_new :: "string \<Rightarrow> bool \<Rightarrow> lexer" where
  "lexer_new input comments = \<lparr>lx_ia = input, lx_ignore_comments = comments, lx_current = eof, lx_next_unget = False,
     lx_position = \<lparr>chars_read_total = 0, chars_read_current_line = 0, lines_read = 0\<rparr>, lx_token_string = [],
     lx_token_buffer = [], lx_error_message = [], lx_value_integer = 0, lx_value_unsigned = 0, lx_value_float = 0, lx_failed = False\<rparr>"

text \<open>\<open>JSON_ASSERT\<close>.\<close>

definition lx_assert :: "bool \<Rightarrow> lexer \<Rightarrow> lexer" where
  "lx_assert ok l = (if ok then l else l\<lparr>lx_failed := True\<rparr>)"

section \<open>Input management\<close>

definition to_char_type :: "int \<Rightarrow> char" where
  "to_char_type c = char_of (nat (c mod 256))"

definition lx_reset :: "lexer \<Rightarrow> lexer" where
  "lx_reset l = l\<lparr>lx_token_buffer := [], lx_token_string := [to_char_type (lx_current l)]\<rparr>"

text \<open>\<open>get_character\<close> of the adapter.\<close>

definition get_character :: "string \<Rightarrow> int \<times> string" where
  "get_character ia = (case ia of [] \<Rightarrow> (eof, []) | c # cs \<Rightarrow> (of_char c, cs))"

text \<open>The character that \<open>get\<close> returns is \<open>lx_current\<close> of the result.\<close>

definition lx_get :: "lexer \<Rightarrow> lexer" where
  "lx_get l =
     (let p = lx_position l;
          p = p\<lparr>chars_read_total := chars_read_total p + 1, chars_read_current_line := chars_read_current_line p + 1\<rparr>;
          l = (if lx_next_unget l then l\<lparr>lx_next_unget := False\<rparr>
               else case get_character (lx_ia l) of (c, ia) \<Rightarrow> l\<lparr>lx_current := c, lx_ia := ia\<rparr>);
          l = (if lx_current l \<noteq> eof
               then l\<lparr>lx_token_string := lx_token_string l @ [to_char_type (lx_current l)]\<rparr> else l);
          p = (if lx_current l = 0x0A then p\<lparr>lines_read := lines_read p + 1, chars_read_current_line := 0\<rparr> else p) in
      l\<lparr>lx_position := p\<rparr>)"

definition lx_unget :: "lexer \<Rightarrow> lexer" where
  "lx_unget l =
     (let p = lx_position l;
          p = p\<lparr>chars_read_total := chars_read_total p - 1\<rparr>;
          p = (if chars_read_current_line p = 0
               then if lines_read p > 0 then p\<lparr>lines_read := lines_read p - 1\<rparr> else p
               else p\<lparr>chars_read_current_line := chars_read_current_line p - 1\<rparr>);
          l = l\<lparr>lx_next_unget := True, lx_position := p\<rparr> in
      if lx_current l \<noteq> eof
      then let l = lx_assert (lx_token_string l \<noteq> []) l in l\<lparr>lx_token_string := butlast (lx_token_string l)\<rparr>
      else l)"

definition lx_add :: "int \<Rightarrow> lexer \<Rightarrow> lexer" where
  "lx_add c l = l\<lparr>lx_token_buffer := lx_token_buffer l @ [to_char_type c]\<rparr>"

definition lx_error :: "string \<Rightarrow> lexer \<Rightarrow> lexer" where
  "lx_error msg l = l\<lparr>lx_error_message := msg\<rparr>"

text \<open>The characters that later calls of \<open>get\<close> return.\<close>

definition inp :: "lexer \<Rightarrow> string" where
  "inp l = (if lx_next_unget l \<and> lx_current l \<noteq> eof then [to_char_type (lx_current l)] else []) @ lx_ia l"

definition lx_inv :: "lexer \<Rightarrow> bool" where
  "lx_inv l \<longleftrightarrow> eof \<le> lx_current l \<and> lx_current l < 256 \<and> (lx_next_unget l \<and> lx_current l = eof \<longrightarrow> lx_ia l = [])"

lemma of_char_int: "(of_char c :: int) = int (of_char c)"
  by (simp only: of_nat_of_char)

lemma to_char_of_char [simp]: "to_char_type (of_char c) = c"
proof -
  have "nat (of_char c mod 256) = (of_char c :: nat)"
    unfolding of_char_int by (simp add: nat_mod_as_int)
  then show ?thesis by (simp add: to_char_type_def)
qed

lemma of_char_to_char: "0 \<le> c \<Longrightarrow> c < 256 \<Longrightarrow> of_char (to_char_type c) = c"
  unfolding of_char_int by (simp add: to_char_type_def)

lemma get_fields:
  "lx_ia (lx_get l) = (if lx_next_unget l then lx_ia l else tl (lx_ia l))"
  "lx_current (lx_get l) = (if lx_next_unget l then lx_current l else case lx_ia l of [] \<Rightarrow> eof | c # _ \<Rightarrow> of_char c)"
  "lx_next_unget (lx_get l) = False"
  "lx_ignore_comments (lx_get l) = lx_ignore_comments l"
  "lx_token_buffer (lx_get l) = lx_token_buffer l"
  by (auto simp: lx_get_def Let_def get_character_def split: list.splits)

lemma add_fields [simp]:
  "lx_ia (lx_add c l) = lx_ia l" "lx_current (lx_add c l) = lx_current l" "lx_next_unget (lx_add c l) = lx_next_unget l"
  "lx_ignore_comments (lx_add c l) = lx_ignore_comments l" "lx_position (lx_add c l) = lx_position l"
  "lx_token_buffer (lx_add c l) = lx_token_buffer l @ [to_char_type c]" "inp (lx_add c l) = inp l"
  by (simp_all add: lx_add_def inp_def)

lemma error_fields [simp]: "inp (lx_error m l) = inp l"
  by (simp add: lx_error_def inp_def)

lemma assert_fields [simp]:
  "lx_ia (lx_assert b l) = lx_ia l" "lx_current (lx_assert b l) = lx_current l" "lx_next_unget (lx_assert b l) = lx_next_unget l"
  "lx_ignore_comments (lx_assert b l) = lx_ignore_comments l" "lx_position (lx_assert b l) = lx_position l"
  "lx_token_buffer (lx_assert b l) = lx_token_buffer l" "lx_token_string (lx_assert b l) = lx_token_string l"
  "inp (lx_assert b l) = inp l" "lx_inv (lx_assert b l) = lx_inv l" "lx_value_integer (lx_assert b l) = lx_value_integer l"
  "lx_value_unsigned (lx_assert b l) = lx_value_unsigned l" "lx_value_float (lx_assert b l) = lx_value_float l"
  by (simp_all add: lx_assert_def inp_def lx_inv_def)

lemma assert_true [simp]: "lx_assert True l = l"
  by (simp add: lx_assert_def)

lemma reset_fields [simp]: "inp (lx_reset l) = inp l" "lx_current (lx_reset l) = lx_current l" "lx_token_buffer (lx_reset l) = []"
  "lx_next_unget (lx_reset l) = lx_next_unget l" "lx_position (lx_reset l) = lx_position l"
  by (simp_all add: lx_reset_def inp_def)

lemma inp_get_le: "length (inp (lx_get l)) \<le> length (inp l)"
  by (auto simp: inp_def get_fields)

lemma inp_get_less: "lx_current (lx_get l) \<noteq> eof \<Longrightarrow> length (inp (lx_get l)) < length (inp l)"
  by (auto simp: inp_def get_fields split: list.splits if_splits)

section \<open>Strings\<close>

fun get_codepoint_loop :: "nat list \<Rightarrow> int \<Rightarrow> lexer \<Rightarrow> int \<times> lexer" where
  "get_codepoint_loop [] codepoint l = (codepoint, l)"
| "get_codepoint_loop (factor # factors) codepoint l =
     (let l = lx_get l; c = lx_current l in
      if 0x30 \<le> c \<and> c \<le> 0x39 then get_codepoint_loop factors (codepoint + push_bit factor (c - 0x30)) l
      else if 0x41 \<le> c \<and> c \<le> 0x46 then get_codepoint_loop factors (codepoint + push_bit factor (c - 0x37)) l
      else if 0x61 \<le> c \<and> c \<le> 0x66 then get_codepoint_loop factors (codepoint + push_bit factor (c - 0x57)) l
      else (- 1, l))"

definition get_codepoint :: "lexer \<Rightarrow> int \<times> lexer" where
  "get_codepoint l =
     (case get_codepoint_loop [12, 8, 4, 0] 0 (lx_assert (lx_current l = of_char (CHR ''u'')) l) of
        (codepoint, l) \<Rightarrow> if codepoint = - 1 then (- 1, l) else (codepoint, lx_assert (0 \<le> codepoint \<and> codepoint \<le> 0xFFFF) l))"

fun in_range_loop :: "(int \<times> int) list \<Rightarrow> lexer \<Rightarrow> bool \<times> lexer" where
  "in_range_loop [] l = (True, l)"
| "in_range_loop ((lo, hi) # ranges) l =
     (let l = lx_get l in
      if lo \<le> lx_current l \<and> lx_current l \<le> hi then in_range_loop ranges (lx_add (lx_current l) l)
      else (False, lx_error ''invalid string: ill-formed UTF-8 byte'' l))"

definition next_byte_in_range :: "(int \<times> int) list \<Rightarrow> lexer \<Rightarrow> bool \<times> lexer" where
  "next_byte_in_range ranges l =
     (let l = lx_assert (length ranges = 1 \<or> length ranges = 2 \<or> length ranges = 3) l in
      in_range_loop ranges (lx_add (lx_current l) l))"

text \<open>The bytes of a code point.\<close>

definition add_codepoint :: "int \<Rightarrow> lexer \<Rightarrow> lexer" where
  "add_codepoint cp l =
     (if cp < 0x80 then lx_add cp l
      else if cp \<le> 0x7FF then lx_add (0x80 OR (cp AND 0x3F)) (lx_add (0xC0 OR drop_bit 6 cp) l)
      else if cp \<le> 0xFFFF
      then lx_add (0x80 OR (cp AND 0x3F)) (lx_add (0x80 OR (drop_bit 6 cp AND 0x3F)) (lx_add (0xE0 OR drop_bit 12 cp) l))
      else lx_add (0x80 OR (cp AND 0x3F)) (lx_add (0x80 OR (drop_bit 6 cp AND 0x3F))
             (lx_add (0x80 OR (drop_bit 12 cp AND 0x3F)) (lx_add (0xF0 OR drop_bit 18 cp) l))))"

definition msg_hex :: string where
  "msg_hex = ''invalid string: '' @ [CHR 0x27, CHR 0x5C, CHR ''u'', CHR 0x27] @ '' must be followed by 4 hex digits''"

definition msg_high :: string where
  "msg_high = ''invalid string: surrogate U+D800..U+DBFF must be followed by U+DC00..U+DFFF''"

definition add_checked :: "int \<Rightarrow> lexer \<Rightarrow> bool \<times> lexer" where
  "add_checked cp l = (True, add_codepoint cp (lx_assert (0 \<le> cp \<and> cp \<le> 0x10FFFF) l))"

text \<open>After \<open>\u\<close>; the flag tells whether the scan goes on.\<close>

definition scan_unicode :: "lexer \<Rightarrow> bool \<times> lexer" where
  "scan_unicode l =
     (case get_codepoint l of (codepoint1, l) \<Rightarrow>
      if codepoint1 = - 1 then (False, lx_error msg_hex l)
      else if 0xD800 \<le> codepoint1 \<and> codepoint1 \<le> 0xDBFF
      then
        let l = lx_get l in
        if lx_current l \<noteq> 0x5C then (False, lx_error msg_high l)
        else
          let l = lx_get l in
          if lx_current l \<noteq> of_char (CHR ''u'') then (False, lx_error msg_high l)
          else
            case get_codepoint l of (codepoint2, l) \<Rightarrow>
            if codepoint2 = - 1 then (False, lx_error msg_hex l)
            else if 0xDC00 \<le> codepoint2 \<and> codepoint2 \<le> 0xDFFF
            then add_checked (push_bit 10 codepoint1 + codepoint2 - 0x35FDC00) l
            else (False, lx_error msg_high l)
      else if 0xDC00 \<le> codepoint1 \<and> codepoint1 \<le> 0xDFFF
      then (False, lx_error ''invalid string: surrogate U+DC00..U+DFFF must follow U+D800..U+DBFF'' l)
      else add_checked codepoint1 l)"

text \<open>After a backslash.\<close>

definition scan_escape :: "lexer \<Rightarrow> bool \<times> lexer" where
  "scan_escape l =
     (let l = lx_get l; c = lx_current l in
      if c = 0x22 then (True, lx_add 0x22 l)
      else if c = 0x5C then (True, lx_add 0x5C l)
      else if c = 0x2F then (True, lx_add 0x2F l)
      else if c = of_char (CHR ''b'') then (True, lx_add 0x08 l)
      else if c = of_char (CHR ''f'') then (True, lx_add 0x0C l)
      else if c = of_char (CHR ''n'') then (True, lx_add 0x0A l)
      else if c = of_char (CHR ''r'') then (True, lx_add 0x0D l)
      else if c = of_char (CHR ''t'') then (True, lx_add 0x09 l)
      else if c = of_char (CHR ''u'') then scan_unicode l
      else (False, lx_error ''invalid string: forbidden character after backslash'' l))"

text \<open>The messages for control characters: their names, and the short escapes of five of them.\<close>

definition ctl_names :: "string list" where
  "ctl_names = [''NUL'', ''SOH'', ''STX'', ''ETX'', ''EOT'', ''ENQ'', ''ACK'', ''BEL'', ''BS'', ''HT'', ''LF'', ''VT'', ''FF'',
     ''CR'', ''SO'', ''SI'', ''DLE'', ''DC1'', ''DC2'', ''DC3'', ''DC4'', ''NAK'', ''SYN'', ''ETB'', ''CAN'', ''EM'', ''SUB'',
     ''ESC'', ''FS'', ''GS'', ''RS'', ''US'']"

definition hex4_upper :: "nat \<Rightarrow> string" where
  "hex4_upper n = [hex_upper (n div 4096 mod 16), hex_upper (n div 256 mod 16), hex_upper (n div 16 mod 16), hex_upper (n mod 16)]"

definition ctl_message :: "nat \<Rightarrow> string" where
  "ctl_message n =
     ''invalid string: control character U+'' @ hex4_upper n @ '' ('' @ (ctl_names ! n) @ '') must be escaped to '' @
     [CHR 0x5C] @ ''u'' @ hex4_upper n @
     (if n = 0x08 then '' or '' @ [CHR 0x5C, CHR ''b'']
      else if n = 0x09 then '' or '' @ [CHR 0x5C, CHR ''t'']
      else if n = 0x0A then '' or '' @ [CHR 0x5C, CHR ''n'']
      else if n = 0x0C then '' or '' @ [CHR 0x5C, CHR ''f'']
      else if n = 0x0D then '' or '' @ [CHR 0x5C, CHR ''r'']
      else [])"

text \<open>What has to follow the first byte of a multi-byte sequence.\<close>

definition utf8_ranges :: "int \<Rightarrow> (int \<times> int) list option" where
  "utf8_ranges c =
     (if 0xC2 \<le> c \<and> c \<le> 0xDF then Some [(0x80, 0xBF)]
      else if c = 0xE0 then Some [(0xA0, 0xBF), (0x80, 0xBF)]
      else if 0xE1 \<le> c \<and> c \<le> 0xEC \<or> c = 0xEE \<or> c = 0xEF then Some [(0x80, 0xBF), (0x80, 0xBF)]
      else if c = 0xED then Some [(0x80, 0x9F), (0x80, 0xBF)]
      else if c = 0xF0 then Some [(0x90, 0xBF), (0x80, 0xBF), (0x80, 0xBF)]
      else if 0xF1 \<le> c \<and> c \<le> 0xF3 then Some [(0x80, 0xBF), (0x80, 0xBF), (0x80, 0xBF)]
      else if c = 0xF4 then Some [(0x80, 0x8F), (0x80, 0xBF), (0x80, 0xBF)]
      else None)"

text \<open>No scan function gives characters back that it was not given.\<close>

lemma get_codepoint_loop_inp: "get_codepoint_loop fs cp l = (r, l') \<Longrightarrow> length (inp l') \<le> length (inp l)"
proof (induction fs cp l rule: get_codepoint_loop.induct)
  case (2 f fs cp l)
  then show ?case using inp_get_le [of l] by (fastforce simp: Let_def split: if_splits)
qed simp

lemma in_range_loop_inp: "in_range_loop rs l = (r, l') \<Longrightarrow> length (inp l') \<le> length (inp l)"
proof (induction rs l rule: in_range_loop.induct)
  case (2 lo hi rs l)
  then show ?case using inp_get_le [of l] by (fastforce simp: Let_def split: if_splits)
qed simp

lemma next_byte_in_range_inp: "next_byte_in_range rs l = (r, l') \<Longrightarrow> length (inp l') \<le> length (inp l)"
  using in_range_loop_inp by (fastforce simp: next_byte_in_range_def Let_def)

lemma add_codepoint_inp [simp]: "inp (add_codepoint cp l) = inp l"
  by (simp add: add_codepoint_def)

lemma get_codepoint_inp: "get_codepoint l = (r, l') \<Longrightarrow> length (inp l') \<le> length (inp l)"
  using get_codepoint_loop_inp [of "[12, 8, 4, 0]" 0 "lx_assert (lx_current l = of_char (CHR ''u'')) l"]
  by (auto simp: get_codepoint_def split: prod.splits if_splits)

lemma scan_unicode_inp: "scan_unicode l = (r, l') \<Longrightarrow> length (inp l') \<le> length (inp l)"
proof -
  assume u: "scan_unicode l = (r, l')"
  obtain c1 l1 where l1: "get_codepoint l = (c1, l1)" by fastforce
  obtain c2 l2 where l2: "get_codepoint (lx_get (lx_get l1)) = (c2, l2)" by fastforce
  have "length (inp l1) \<le> length (inp l)" "length (inp (lx_get l1)) \<le> length (inp l1)"
    "length (inp (lx_get (lx_get l1))) \<le> length (inp (lx_get l1))" "length (inp l2) \<le> length (inp (lx_get (lx_get l1)))"
    using get_codepoint_inp [OF l1] get_codepoint_inp [OF l2] inp_get_le by blast+
  then show ?thesis using u l1 l2 by (auto simp: scan_unicode_def add_checked_def Let_def split: if_splits)
qed

lemma scan_escape_inp: "scan_escape l = (r, l') \<Longrightarrow> length (inp l') \<le> length (inp l)"
proof -
  assume e: "scan_escape l = (r, l')"
  obtain r2 l2 where l2: "scan_unicode (lx_get l) = (r2, l2)" by fastforce
  show ?thesis
    using e inp_get_le [of l] scan_unicode_inp [OF l2] l2 by (auto simp: scan_escape_def Let_def split: if_splits)
qed

function scan_string_loop :: "lexer \<Rightarrow> token_type \<times> lexer" where
  "scan_string_loop l =
     (let l = lx_get l; c = lx_current l in
      if c = eof then (parse_error, lx_error ''invalid string: missing closing quote'' l)
      else if c = 0x22 then (value_string, l)
      else if c = 0x5C
      then case scan_escape l of (go_on, l) \<Rightarrow> if go_on then scan_string_loop l else (parse_error, l)
      else if c \<le> 0x1F then (parse_error, lx_error (ctl_message (nat c)) l)
      else if c \<le> 0x7F then scan_string_loop (lx_add c l)
      else
        case utf8_ranges c of
          Some ranges \<Rightarrow>
            (case next_byte_in_range ranges l of (go_on, l) \<Rightarrow> if go_on then scan_string_loop l else (parse_error, l))
        | None \<Rightarrow> (parse_error, lx_error ''invalid string: ill-formed UTF-8 byte'' l))"
  by pat_completeness auto
termination
proof (relation "measure (\<lambda>l. length (inp l))", goal_cases)
  case (2 l l1 c b l2)
  then show ?case using inp_get_less [of l] scan_escape_inp [of l1 b l2] by simp
next
  case (3 l l1 c)
  then show ?case using inp_get_less [of l] by simp
next
  case (4 l l1 c rs b l2)
  then show ?case using inp_get_less [of l] next_byte_in_range_inp [of rs l1 b l2] by simp
qed simp

declare scan_string_loop.simps [simp del]

definition scan_string :: "lexer \<Rightarrow> token_type \<times> lexer" where
  "scan_string l =
     (let l = lx_reset l; l = lx_assert (lx_current l = 0x22) l in scan_string_loop l)"

section \<open>Comments\<close>

lemma unget_fields [simp]:
  "lx_ia (lx_unget l) = lx_ia l" "lx_current (lx_unget l) = lx_current l" "lx_next_unget (lx_unget l) = True"
  "lx_ignore_comments (lx_unget l) = lx_ignore_comments l" "lx_token_buffer (lx_unget l) = lx_token_buffer l"
  "chars_read_total (lx_position (lx_unget l)) = chars_read_total (lx_position l) - 1"
  by (simp_all add: lx_unget_def Let_def)

lemma inp_unget: "inp (lx_unget l) = (if lx_current l \<noteq> eof then [to_char_type (lx_current l)] else []) @ lx_ia l"
  by (simp add: inp_def)

lemma inp_unget_get: "length (inp (lx_unget (lx_get l))) \<le> length (inp l)"
  by (auto simp: inp_unget inp_def get_fields split: list.splits)

function skip_line_comment :: "lexer \<Rightarrow> lexer" where
  "skip_line_comment l =
     (let l = lx_get l; c = lx_current l in
      if c = 0x0A \<or> c = 0x0D \<or> c = eof \<or> c = 0 then l else skip_line_comment l)"
  by pat_completeness auto
termination
  by (relation "measure (\<lambda>l. length (inp l))") (auto intro: inp_get_less)

function skip_block_comment :: "lexer \<Rightarrow> bool \<times> lexer" where
  "skip_block_comment l =
     (let l = lx_get l; c = lx_current l in
      if c = eof \<or> c = 0 then (False, lx_error (''invalid comment; missing closing '' @ [CHR 0x27] @ ''*/'' @ [CHR 0x27]) l)
      else if c = 0x2A
      then let l = lx_get l in if lx_current l = 0x2F then (True, l) else skip_block_comment (lx_unget l)
      else skip_block_comment l)"
  by pat_completeness auto
termination
proof (relation "measure (\<lambda>l. length (inp l))", goal_cases)
  case (2 l l1 c l2)
  then show ?case using inp_get_less [of l] inp_unget_get [of l1] by simp
next
  case (3 l l1 c)
  then show ?case using inp_get_less [of l] by simp
qed simp

declare skip_line_comment.simps [simp del] skip_block_comment.simps [simp del]

definition scan_comment :: "lexer \<Rightarrow> bool \<times> lexer" where
  "scan_comment l =
     (let l = lx_get l in
      if lx_current l = 0x2F then (True, skip_line_comment l)
      else if lx_current l = 0x2A then skip_block_comment l
      else (False, lx_error (''invalid comment; expecting '' @ [CHR 0x27] @ ''/'' @ [CHR 0x27] @ '' or '' @ [CHR 0x27] @ ''*'' @
             [CHR 0x27] @ '' after '' @ [CHR 0x27] @ ''/'' @ [CHR 0x27]) l))"

section \<open>Numbers\<close>

text \<open>
  \<open>std::strtod\<close> on a number token: the decimal number is rounded to the nearest \<open>double\<close>, ties to even; a
  number beyond the largest one gives an infinity. \<open>round_bits\<close> gives the bit pattern for the positive
  rational \<open>num / den\<close>: with \<open>q\<close> the rounded significand in units of \<open>2 ^ e\<close> it is \<open>(e + 1074) * 2 ^ 52 + q\<close>,
  for subnormal numbers too.
\<close>

fun bit_length :: "nat \<Rightarrow> nat" where
  "bit_length n = (if n = 0 then 0 else Suc (bit_length (n div 2)))"

declare bit_length.simps [simp del]

definition ratio_log2 :: "nat \<Rightarrow> nat \<Rightarrow> int" where
  "ratio_log2 num den =
     (let d = int (bit_length num) - int (bit_length den) in
      if (if 0 \<le> d then den * 2 ^ nat d \<le> num else den \<le> num * 2 ^ nat (- d)) then d else d - 1)"

definition round_half_even :: "nat \<Rightarrow> nat \<Rightarrow> nat" where
  "round_half_even a b =
     (let q = a div b; r = a mod b in
      if 2 * r < b \<or> 2 * r = b \<and> even q then q else q + 1)"

definition round_bits :: "nat \<Rightarrow> nat \<Rightarrow> nat" where
  "round_bits num den =
     (let e = max (- 1074) (ratio_log2 num den - 52);
          q = (if 0 \<le> e then round_half_even num (den * 2 ^ nat e) else round_half_even (num * 2 ^ nat (- e)) den) in
      min (2047 * 2 ^ 52) (nat (e + 1074) * 2 ^ 52 + q))"

definition strtod_exponent :: "string \<Rightarrow> int" where
  "strtod_exponent s =
     (case s of
        [] \<Rightarrow> 0
      | _ # r \<Rightarrow>
          if r \<noteq> [] \<and> hd r = CHR ''-'' then - int (digits_val (tl r))
          else if r \<noteq> [] \<and> hd r = CHR ''+'' then int (digits_val (tl r))
          else int (digits_val r))"

definition strtod :: "string \<Rightarrow> double" where
  "strtod s =
     (let neg = (s \<noteq> [] \<and> hd s = CHR ''-'');
          s = (if neg then tl s else s);
          ip = takeWhile c_isdigit s;
          r = dropWhile c_isdigit s;
          fp = (if r \<noteq> [] \<and> hd r = CHR ''.'' then takeWhile c_isdigit (tl r) else []);
          r = (if r \<noteq> [] \<and> hd r = CHR ''.'' then dropWhile c_isdigit (tl r) else r);
          x = strtod_exponent r - int (length fp);
          n = digits_val (ip @ fp);
          bits = (if n = 0 then 0
                  else if 0 \<le> x then round_bits (n * 10 ^ nat x) 1 else round_bits n (10 ^ nat (- x))) in
      word_of_nat (if neg then 2 ^ 63 + bits else bits))"

text \<open>The labels of \<open>scan_number\<close>; \<open>None\<close> stands for \<open>scan_number_done\<close> not being reached.\<close>

datatype number_label = n_minus | n_zero | n_any1 | n_decimal1 | n_decimal2 | n_exponent | n_sign | n_any2

definition is_digit_code :: "int \<Rightarrow> bool" where
  "is_digit_code c \<longleftrightarrow> 0x30 \<le> c \<and> c \<le> 0x39"

definition is_exp_code :: "int \<Rightarrow> bool" where
  "is_exp_code c \<longleftrightarrow> c = of_char (CHR ''e'') \<or> c = of_char (CHR ''E'')"

datatype number_step = NGoto number_label int | NDone | NError string

text \<open>The switch behind each label: the character to add and where to go.\<close>

fun number_switch :: "number_label \<Rightarrow> int \<Rightarrow> number_step" where
  "number_switch n_minus c =
     (if c = 0x30 then NGoto n_zero c
      else if is_digit_code c then NGoto n_any1 c
      else NError (''invalid number; expected digit after '' @ [CHR 0x27, CHR ''-'', CHR 0x27]))"
| "number_switch n_zero c =
     (if c = 0x2E then NGoto n_decimal1 0x2E
      else if is_exp_code c then NGoto n_exponent c
      else NDone)"
| "number_switch n_any1 c =
     (if is_digit_code c then NGoto n_any1 c
      else if c = 0x2E then NGoto n_decimal1 0x2E
      else if is_exp_code c then NGoto n_exponent c
      else NDone)"
| "number_switch n_decimal1 c =
     (if is_digit_code c then NGoto n_decimal2 c
      else NError (''invalid number; expected digit after '' @ [CHR 0x27, CHR ''.'', CHR 0x27]))"
| "number_switch n_decimal2 c =
     (if is_digit_code c then NGoto n_decimal2 c
      else if is_exp_code c then NGoto n_exponent c
      else NDone)"
| "number_switch n_exponent c =
     (if c = 0x2B \<or> c = 0x2D then NGoto n_sign c
      else if is_digit_code c then NGoto n_any2 c
      else NError (''invalid number; expected '' @ [CHR 0x27, CHR ''+'', CHR 0x27] @ '', '' @
             [CHR 0x27, CHR ''-'', CHR 0x27] @ '', or digit after exponent''))"
| "number_switch n_sign c =
     (if is_digit_code c then NGoto n_any2 c
      else NError ''invalid number; expected digit after exponent sign'')"
| "number_switch n_any2 c =
     (if is_digit_code c then NGoto n_any2 c else NDone)"

lemma number_switch_eof: "number_switch lab c = NGoto lab' c' \<Longrightarrow> c \<noteq> eof"
  by (cases lab) (auto simp: is_digit_code_def is_exp_code_def eof_def split: if_splits)

function scan_number_at :: "number_label \<Rightarrow> token_type \<Rightarrow> lexer \<Rightarrow> token_type option \<times> lexer" where
  "scan_number_at lab number_type l =
     (let number_type = (if lab = n_minus then value_integer
                         else if lab = n_decimal1 \<or> lab = n_exponent then value_float
                         else number_type);
          l = lx_get l in
      case number_switch lab (lx_current l) of
        NGoto lab' c \<Rightarrow> scan_number_at lab' number_type (lx_add c l)
      | NDone \<Rightarrow> (Some number_type, l)
      | NError m \<Rightarrow> (None, lx_error m l))"
  by pat_completeness auto
termination
  by (relation "measure (\<lambda>(lab, nt, l). length (inp l))") (auto dest: number_switch_eof intro!: inp_get_less)

declare scan_number_at.simps [simp del]

text \<open>
  How many characters \<open>std::strtoull\<close> and \<open>std::strtoll\<close> (with base 10) and \<open>std::strtod\<close> read, which is
  where they let \<open>endptr\<close> point: white space, a sign and digits; for \<open>strtod\<close> also a fraction and an exponent
  that has digits. (The other forms that \<open>strtod\<close> knows, hexadecimal numbers, \<open>inf\<close> and \<open>nan\<close>, need letters
  that no number token has.)
\<close>

definition sign_length :: "string \<Rightarrow> nat" where
  "sign_length s = (if s \<noteq> [] \<and> (hd s = CHR ''-'' \<or> hd s = CHR ''+'') then 1 else 0)"

definition strtoll_end :: "string \<Rightarrow> nat" where
  "strtoll_end s =
     (let w = length (takeWhile c_isspace s);
          w = w + sign_length (drop w s);
          n = length (takeWhile c_isdigit (drop w s)) in
      if n = 0 then 0 else w + n)"

definition exponent_length :: "string \<Rightarrow> nat" where
  "exponent_length s =
     (if s \<noteq> [] \<and> (hd s = CHR ''e'' \<or> hd s = CHR ''E'')
      then let k = 1 + sign_length (tl s); n = length (takeWhile c_isdigit (drop k s)) in if n = 0 then 0 else k + n
      else 0)"

definition strtod_end :: "string \<Rightarrow> nat" where
  "strtod_end s =
     (let w = length (takeWhile c_isspace s);
          w = w + sign_length (drop w s);
          s = drop w s;
          n = length (takeWhile c_isdigit s);
          s = drop n s;
          dot = (s \<noteq> [] \<and> hd s = CHR ''.'');
          f = (if dot then length (takeWhile c_isdigit (tl s)) else 0);
          s = (if dot then drop f (tl s) else s) in
      if n = 0 \<and> f = 0 then 0 else w + n + (if dot then 1 + f else 0) + exponent_length s)"

text \<open>\<open>std::strtoull\<close> and \<open>std::strtoll\<close> fail for a number outside their range.\<close>

definition scan_number_done :: "token_type \<Rightarrow> lexer \<Rightarrow> token_type \<times> lexer" where
  "scan_number_done number_type l =
     (let l = lx_unget l;
          s = lx_token_buffer l;
          l = (if number_type = value_unsigned \<or> number_type = value_integer then lx_assert (strtoll_end s = length s) l else l) in
      if number_type = value_unsigned \<and> digits_val s < 2 ^ 64
      then (value_unsigned, l\<lparr>lx_value_unsigned := digits_val s\<rparr>)
      else if number_type = value_integer \<and> digits_val (tl s) \<le> 2 ^ 63
      then (value_integer, l\<lparr>lx_value_integer := - int (digits_val (tl s))\<rparr>)
      else (value_float, lx_assert (strtod_end s = length s) (l\<lparr>lx_value_float := strtod s\<rparr>)))"

text \<open>Any other first character fails the assertion of the \<open>default\<close> case.\<close>

definition scan_number :: "lexer \<Rightarrow> token_type \<times> lexer" where
  "scan_number l =
     (let l = lx_reset l;
          c = lx_current l;
          l = lx_add c (lx_assert (c = 0x2D \<or> is_digit_code c) l);
          lab = (if c = 0x2D then n_minus else if c = 0x30 then n_zero else n_any1) in
      case scan_number_at lab value_unsigned l of
        (None, l) \<Rightarrow> (parse_error, l)
      | (Some number_type, l) \<Rightarrow> scan_number_done number_type l)"

section \<open>Tokens\<close>

fun scan_literal_loop :: "string \<Rightarrow> token_type \<Rightarrow> lexer \<Rightarrow> token_type \<times> lexer" where
  "scan_literal_loop [] return_type l = (return_type, l)"
| "scan_literal_loop (c # cs) return_type l =
     (let l = lx_get l in
      if to_char_type (lx_current l) \<noteq> c then (parse_error, lx_error ''invalid literal'' l)
      else scan_literal_loop cs return_type l)"

definition scan_literal :: "string \<Rightarrow> token_type \<Rightarrow> lexer \<Rightarrow> token_type \<times> lexer" where
  "scan_literal literal_text return_type l =
     (let l = lx_assert (to_char_type (lx_current l) = hd literal_text) l in
      scan_literal_loop (tl literal_text) return_type l)"

definition get_token_string :: "lexer \<Rightarrow> string" where
  "get_token_string l =
     concat (map (\<lambda>c. if (of_char c :: nat) \<le> 0x1F then ''<U+'' @ hex4_upper (of_char c) @ ''>'' else [c]) (lx_token_string l))"

definition skip_bom :: "lexer \<Rightarrow> bool \<times> lexer" where
  "skip_bom l =
     (let l = lx_get l in
      if lx_current l = 0xEF
      then let l = lx_get l in
           if lx_current l = 0xBB then let l = lx_get l in (lx_current l = 0xBF, l) else (False, l)
      else (True, lx_unget l))"

function skip_whitespace :: "lexer \<Rightarrow> lexer" where
  "skip_whitespace l =
     (let l = lx_get l; c = lx_current l in
      if c = 0x20 \<or> c = 0x09 \<or> c = 0x0A \<or> c = 0x0D then skip_whitespace l else l)"
  by pat_completeness auto
termination
  by (relation "measure (\<lambda>l. length (inp l))") (auto simp: eof_def intro!: inp_get_less)

declare skip_whitespace.simps [simp del]

lemma skip_line_comment_inp: "length (inp (skip_line_comment l)) \<le> length (inp l)"
proof (induction l rule: skip_line_comment.induct)
  case (1 l)
  then show ?case using inp_get_le [of l] by (subst skip_line_comment.simps) (fastforce simp: Let_def)
qed

lemma skip_block_comment_inp: "skip_block_comment l = (r, l') \<Longrightarrow> length (inp l') \<le> length (inp l)"
proof (induction l rule: skip_block_comment.induct)
  case (1 l)
  show ?case
    using 1(3) 1(1) [OF refl refl] 1(2) [OF refl refl] inp_get_le [of l] inp_get_le [of "lx_get l"] inp_unget_get [of "lx_get l"]
    by (subst (asm) skip_block_comment.simps) (auto simp: Let_def split: if_splits)
qed

lemma scan_comment_inp: "scan_comment l = (r, l') \<Longrightarrow> length (inp l') \<le> length (inp l)"
  using inp_get_le [of l] skip_line_comment_inp [of "lx_get l"] skip_block_comment_inp [of "lx_get l" r l']
  by (auto simp: scan_comment_def Let_def split: if_splits)

lemma skip_whitespace_inp_le: "length (inp (skip_whitespace l)) \<le> length (inp l)"
proof (induction l rule: skip_whitespace.induct)
  case (1 l)
  then show ?case using inp_get_le [of l] by (subst skip_whitespace.simps) (fastforce simp: Let_def)
qed

definition is_ws :: "int \<Rightarrow> bool" where
  "is_ws c \<longleftrightarrow> c = 0x20 \<or> c = 0x09 \<or> c = 0x0A \<or> c = 0x0D"

lemma skip_whitespace_eq: "skip_whitespace l = (if is_ws (lx_current (lx_get l)) then skip_whitespace (lx_get l) else lx_get l)"
  by (subst skip_whitespace.simps) (simp add: Let_def is_ws_def)

lemma skip_whitespace_inp_less: "lx_current (skip_whitespace l) \<noteq> eof \<Longrightarrow> length (inp (skip_whitespace l)) < length (inp l)"
proof (induction l rule: skip_whitespace.induct)
  case (1 l)
  show ?case
  proof (cases "is_ws (lx_current (lx_get l))")
    case True
    then have e: "skip_whitespace l = skip_whitespace (lx_get l)" by (subst skip_whitespace_eq) simp
    have "length (inp (skip_whitespace (lx_get l))) < length (inp (lx_get l))"
      using 1(1) [OF refl refl] True 1(2) unfolding e by (simp add: is_ws_def)
    then show ?thesis using inp_get_le [of l] unfolding e by linarith
  next
    case False
    then have "skip_whitespace l = lx_get l" by (subst skip_whitespace_eq) simp
    then show ?thesis using 1(2) inp_get_less [of l] by simp
  qed
qed

text \<open>The loop over comments; the flag is \<open>False\<close> when a comment is malformed.\<close>

function skip_comments :: "lexer \<Rightarrow> bool \<times> lexer" where
  "skip_comments l =
     (if lx_ignore_comments l \<and> lx_current l = 0x2F
      then case scan_comment l of (go_on, l) \<Rightarrow> if go_on then skip_comments (skip_whitespace l) else (False, l)
      else (True, l))"
  by pat_completeness auto
termination
proof (relation "measure (\<lambda>l. length (inp l) + (if lx_current l = eof then 0 else 1))", goal_cases)
  case (2 l b l1)
  have "length (inp l1) \<le> length (inp l)" using scan_comment_inp 2(2,3) by metis
  then show ?case
    using 2(1) skip_whitespace_inp_le [of l1] skip_whitespace_inp_less [of l1] by (auto simp: eof_def)
qed simp

declare skip_comments.simps [simp del]

text \<open>The switch on the character that is not white space.\<close>

definition scan_token :: "lexer \<Rightarrow> token_type \<times> lexer" where
  "scan_token l =
     (let c = lx_current l in
      if c = of_char (CHR ''['') then (begin_array, l)
      else if c = of_char (CHR '']'') then (end_array, l)
      else if c = of_char (CHR ''{'') then (begin_object, l)
      else if c = of_char (CHR ''}'') then (end_object, l)
      else if c = of_char (CHR '':'') then (name_separator, l)
      else if c = of_char (CHR '','') then (value_separator, l)
      else if c = of_char (CHR ''t'') then scan_literal ''true'' literal_true l
      else if c = of_char (CHR ''f'') then scan_literal ''false'' literal_false l
      else if c = of_char (CHR ''n'') then scan_literal ''null'' literal_null l
      else if c = 0x22 then scan_string l
      else if c = 0x2D \<or> is_digit_code c then scan_number l
      else if c = 0 \<or> c = eof then (end_of_input, l)
      else (parse_error, lx_error ''invalid literal'' l))"

definition lx_scan :: "lexer \<Rightarrow> token_type \<times> lexer" where
  "lx_scan l =
     (case (if chars_read_total (lx_position l) = 0 then skip_bom l else (True, l)) of (bom_ok, l) \<Rightarrow>
      if \<not> bom_ok then (parse_error, lx_error ''invalid BOM; must be 0xEF 0xBB 0xBF if given'' l)
      else
        case skip_comments (skip_whitespace l) of (comments_ok, l) \<Rightarrow>
        if \<not> comments_ok then (parse_error, l) else scan_token l)"

text \<open>A token other than the end of input or an error consumes input.\<close>

lemma scan_string_inp: "scan_string l = (t, l') \<Longrightarrow> length (inp l') \<le> length (inp l)"
proof -
  have "scan_string_loop l = (t, l') \<Longrightarrow> length (inp l') \<le> length (inp l)" for l
  proof (induction l rule: scan_string_loop.induct)
    case (1 l)
    obtain b1 l1 where e: "scan_escape (lx_get l) = (b1, l1)" by fastforce
    obtain b2 l2 where n: "next_byte_in_range (the (utf8_ranges (lx_current (lx_get l)))) (lx_get l) = (b2, l2)" by fastforce
    note le = inp_get_le [of l] scan_escape_inp [OF e] next_byte_in_range_inp [OF n]
    show ?case
      using 1(4) 1(1) [OF refl refl] 1(2) [OF refl refl] 1(3) [OF refl refl] le e n
      by (subst (asm) scan_string_loop.simps) (fastforce simp: Let_def split: if_splits option.splits)
  qed
  then show "scan_string l = (t, l') \<Longrightarrow> ?thesis" unfolding scan_string_def by fastforce
qed

lemma scan_number_at_inp:
  "scan_number_at lab nt l = (t, l') \<Longrightarrow> length (inp (lx_unget l')) \<le> length (inp l) \<and> length (inp l') \<le> length (inp l)"
proof (induction lab nt l rule: scan_number_at.induct)
  case (1 lab nt l)
  have u: "length (inp (lx_unget (lx_error m (lx_get l)))) \<le> length (inp l)" for m
    using inp_unget_get [of l] by (auto simp: inp_unget lx_error_def)
  show ?case
    using 1(2) 1(1) [OF refl refl] inp_unget_get [of l] inp_get_le [of l] u
    by (subst (asm) scan_number_at.simps) (fastforce simp: Let_def split: number_step.splits)
qed

lemma scan_number_inp: "scan_number l = (t, l') \<Longrightarrow> length (inp l') \<le> length (inp l)"
proof -
  assume s: "scan_number l = (t, l')"
  let ?l = "lx_add (lx_current l) (lx_assert (lx_current l = 0x2D \<or> is_digit_code (lx_current l)) (lx_reset l))"
  let ?lab = "if lx_current l = 0x2D then n_minus else if lx_current l = 0x30 then n_zero else n_any1"
  obtain nt l1 where n: "scan_number_at ?lab value_unsigned ?l = (nt, l1)" by fastforce
  have d: "scan_number_done k l1 = (t, l') \<Longrightarrow> inp l' = inp (lx_unget l1)" for k
    by (auto simp: scan_number_done_def Let_def inp_unget split: if_splits) (auto simp: inp_def)
  show ?thesis
    using s n scan_number_at_inp [OF n] d by (auto simp: scan_number_def Let_def cong: if_cong split: option.splits)
qed

lemma scan_literal_inp: "scan_literal s t0 l = (t, l') \<Longrightarrow> length (inp l') \<le> length (inp l)"
proof -
  have "scan_literal_loop s t0 l = (t, l') \<Longrightarrow> length (inp l') \<le> length (inp l)" for s l
  proof (induction s arbitrary: l)
    case (Cons c s)
    then show ?case using inp_get_le [of l] by (fastforce simp: Let_def split: if_splits)
  qed simp
  then show "scan_literal s t0 l = (t, l') \<Longrightarrow> ?thesis" by (fastforce simp: scan_literal_def Let_def)
qed

lemma skip_comments_inp:
  "skip_comments l = (b, l') \<Longrightarrow> length (inp l') \<le> length (inp l) \<and> (l' = l \<or> lx_current l \<noteq> eof)"
proof (induction l rule: skip_comments.induct)
  case (1 l)
  obtain g l1 where g: "scan_comment l = (g, l1)" by fastforce
  have e: "(0x2F :: int) \<noteq> eof" by (simp add: eof_def)
  show ?case
    using 1(2) 1(1) [OF _ g [symmetric]] scan_comment_inp [OF g] skip_whitespace_inp_le [of l1] g e
    by (subst (asm) skip_comments.simps) (fastforce split: if_splits)
qed

lemma skip_bom_inp: "skip_bom l = (b, l') \<Longrightarrow> length (inp l') \<le> length (inp l)"
  using inp_get_le [of l] inp_get_le [of "lx_get l"] inp_get_le [of "lx_get (lx_get l)"] inp_unget_get [of l]
  by (auto simp: skip_bom_def Let_def split: if_splits)

lemma scan_progress:
  assumes "lx_scan l = (t, l')"
  shows "length (inp l') \<le> length (inp l) \<and> (t \<noteq> parse_error \<and> t \<noteq> end_of_input \<longrightarrow> length (inp l') < length (inp l))"
proof -
  obtain b l1 where b: "(if chars_read_total (lx_position l) = 0 then skip_bom l else (True, l)) = (b, l1)" by fastforce
  have le1: "length (inp l1) \<le> length (inp l)" using b skip_bom_inp by (auto split: if_splits)
  obtain g l2 where g: "skip_comments (skip_whitespace l1) = (g, l2)" by fastforce
  have le2: "length (inp l2) \<le> length (inp l1)" using skip_comments_inp [OF g] skip_whitespace_inp_le [of l1] by simp
  have less: "length (inp l2) < length (inp l1)" if "lx_current l2 \<noteq> eof"
    using skip_comments_inp [OF g] skip_whitespace_inp_less [of l1] that by auto
  consider "\<not> b" "l' = lx_error ''invalid BOM; must be 0xEF 0xBB 0xBF if given'' l1" "t = parse_error"
    | "b" "\<not> g" "l' = l2" "t = parse_error"
    | "t = end_of_input" "l' = l2"
    | "t = parse_error" "l' = lx_error ''invalid literal'' l2"
    | "lx_current l2 \<noteq> eof" "length (inp l') \<le> length (inp l2)"
    using assms b g scan_literal_inp [of _ _ l2 t l'] scan_string_inp [of l2 t l'] scan_number_inp [of l2 t l']
    by (auto simp: lx_scan_def scan_token_def Let_def eof_def is_digit_code_def split: if_splits)
  then show ?thesis using le1 le2 less by cases auto
qed

end
