(* ===== verification/Json_Utf8.thy ===== *)
theory Json_Utf8
  imports Json_Dump Json_Lexer
begin

text \<open>
  What UTF-8 is, and that the two places of the JSON library that know it agree with it: the ranges of
  bytes in the lexer and the automaton of the serializer.
\<close>

section \<open>The encoding\<close>

definition scalar_cp :: "nat \<Rightarrow> bool" where
  "scalar_cp cp \<longleftrightarrow> cp < 0xD800 \<or> 0xE000 \<le> cp \<and> cp < 0x110000"

definition utf8_codes :: "nat \<Rightarrow> nat list" where
  "utf8_codes cp =
     (if cp < 0x80 then [cp]
      else if cp < 0x800 then [0xC0 + cp div 64, 0x80 + cp mod 64]
      else if cp < 0x10000 then [0xE0 + cp div 4096, 0x80 + cp div 64 mod 64, 0x80 + cp mod 64]
      else [0xF0 + cp div 262144, 0x80 + cp div 4096 mod 64, 0x80 + cp div 64 mod 64, 0x80 + cp mod 64])"

definition utf8_encode :: "nat \<Rightarrow> string" where
  "utf8_encode cp = map char_of (utf8_codes cp)"

text \<open>A string is UTF-8 when it is the encoding of a list of scalar values.\<close>

definition utf8 :: "string \<Rightarrow> bool" where
  "utf8 s \<longleftrightarrow> (\<exists>cps. list_all scalar_cp cps \<and> s = concat (map utf8_encode cps))"

lemma utf8_codes_less: "scalar_cp cp \<Longrightarrow> b \<in> set (utf8_codes cp) \<Longrightarrow> b < 256"
  by (auto simp: utf8_codes_def scalar_cp_def split: if_splits)

lemma utf8_Nil [simp]: "utf8 []"
  unfolding utf8_def by (intro exI [of _ "[]"]) simp

lemma utf8_append: "utf8 s \<Longrightarrow> utf8 t \<Longrightarrow> utf8 (s @ t)"
proof -
  assume "utf8 s" "utf8 t"
  then obtain a b where "list_all scalar_cp a" "s = concat (map utf8_encode a)"
    "list_all scalar_cp b" "t = concat (map utf8_encode b)" by (auto simp: utf8_def)
  then show ?thesis unfolding utf8_def by (intro exI [of _ "a @ b"]) simp
qed

lemma utf8_encode_utf8: "scalar_cp cp \<Longrightarrow> utf8 (utf8_encode cp)"
  unfolding utf8_def by (intro exI [of _ "[cp]"]) simp

lemma utf8_ascii_char: "(of_char c :: nat) < 0x80 \<Longrightarrow> utf8 [c]"
  using utf8_encode_utf8 [of "of_char c"] by (simp add: scalar_cp_def utf8_encode_def utf8_codes_def)

lemma utf8_Cons [simp]: "(of_char c :: nat) < 0x80 \<Longrightarrow> utf8 s \<Longrightarrow> utf8 (c # s)"
  using utf8_append [OF utf8_ascii_char] by fastforce

lemma utf8_ascii: "(\<And>c. c \<in> set s \<Longrightarrow> (of_char c :: nat) < 0x80) \<Longrightarrow> utf8 s"
proof (induction s)
  case (Cons c s)
  then have "utf8 ([c] @ s)" by (intro utf8_append utf8_ascii_char) auto
  then show ?case by simp
qed simp

section \<open>The ranges of the lexer\<close>

definition in_range :: "int \<times> int \<Rightarrow> nat \<Rightarrow> bool" where
  "in_range r b \<longleftrightarrow> fst r \<le> int b \<and> int b \<le> snd r"

definition byte_ranges :: "nat \<Rightarrow> (int \<times> int) list option" where
  "byte_ranges b = utf8_ranges (int b)"

lemma byte_ranges:
  "0xC2 \<le> b \<Longrightarrow> b \<le> 0xDF \<Longrightarrow> byte_ranges b = Some [(0x80, 0xBF)]"
  "b = 0xE0 \<Longrightarrow> byte_ranges b = Some [(0xA0, 0xBF), (0x80, 0xBF)]"
  "0xE1 \<le> b \<Longrightarrow> b \<le> 0xEC \<Longrightarrow> byte_ranges b = Some [(0x80, 0xBF), (0x80, 0xBF)]"
  "0xEE \<le> b \<Longrightarrow> b \<le> 0xEF \<Longrightarrow> byte_ranges b = Some [(0x80, 0xBF), (0x80, 0xBF)]"
  "b = 0xED \<Longrightarrow> byte_ranges b = Some [(0x80, 0x9F), (0x80, 0xBF)]"
  "b = 0xF0 \<Longrightarrow> byte_ranges b = Some [(0x90, 0xBF), (0x80, 0xBF), (0x80, 0xBF)]"
  "0xF1 \<le> b \<Longrightarrow> b \<le> 0xF3 \<Longrightarrow> byte_ranges b = Some [(0x80, 0xBF), (0x80, 0xBF), (0x80, 0xBF)]"
  "b = 0xF4 \<Longrightarrow> byte_ranges b = Some [(0x80, 0x8F), (0x80, 0xBF), (0x80, 0xBF)]"
  by (simp_all add: byte_ranges_def utf8_ranges_def, linarith)

text \<open>The first byte of a code point beyond ASCII and the bytes behind it are what the lexer asks for.\<close>

definition lead_ok :: "nat list \<Rightarrow> bool" where
  "lead_ok bs \<longleftrightarrow> (\<exists>rs. byte_ranges (hd bs) = Some rs \<and> list_all2 in_range rs (tl bs))"

lemma mod64: "in_range (0x80, 0xBF) (0x80 + n mod 64)"
proof -
  have "n mod 64 < 64" by simp
  then show ?thesis unfolding in_range_def fst_conv snd_conv by linarith
qed

lemma mod_window: "k * 64 \<le> q \<Longrightarrow> q < k * 64 + 64 \<Longrightarrow> q mod 64 = q - k * (64 :: nat)"
  by (auto simp: le_iff_add)

lemma mod_le63: "n mod 64 \<le> (63 :: nat)"
  using mod_less_divisor [of 64 n] by linarith

lemma utf8_codes_ranges:
  assumes "scalar_cp cp" "0x80 \<le> cp"
  shows "lead_ok (utf8_codes cp)"
proof -
  consider (a) "0x80 \<le> cp" "cp < 0x800" | (b) "0x800 \<le> cp" "cp < 0x1000" | (c) "0x1000 \<le> cp" "cp < 0xD000"
    | (d) "0xD000 \<le> cp" "cp < 0xD800" | (e) "0xE000 \<le> cp" "cp < 0x10000" | (f) "0x10000 \<le> cp" "cp < 0x40000"
    | (g) "0x40000 \<le> cp" "cp < 0x100000" | (h) "0x100000 \<le> cp" "cp < 0x110000"
    using assms unfolding scalar_cp_def by linarith
  then show ?thesis
  proof cases
    case a
    then have "2 \<le> cp div 64" "cp div 64 \<le> 31" by linarith+
    then show ?thesis using a by (simp add: lead_ok_def utf8_codes_def byte_ranges mod64)
  next
    case b
    then have "cp div 4096 = 0" "32 \<le> cp div 64" "cp div 64 < 64" by linarith+
    then show ?thesis using b by (simp add: lead_ok_def utf8_codes_def byte_ranges mod_le63 in_range_def)
  next
    case c
    then have "1 \<le> cp div 4096" "cp div 4096 \<le> 12" by linarith+
    then show ?thesis using c by (simp add: lead_ok_def utf8_codes_def byte_ranges mod64)
  next
    case d
    then have "cp div 4096 = 13" "832 \<le> cp div 64" "cp div 64 < 864" by linarith+
    moreover from this have "cp div 64 mod 64 < 32" using mod_window [of 13 "cp div 64"] by simp
    ultimately show ?thesis using d by (simp add: lead_ok_def utf8_codes_def byte_ranges mod_le63 in_range_def)
  next
    case e
    then have "14 \<le> cp div 4096" "cp div 4096 \<le> 15" by linarith+
    then show ?thesis using e by (simp add: lead_ok_def utf8_codes_def byte_ranges mod64)
  next
    case f
    then have "cp div 262144 = 0" "16 \<le> cp div 4096" "cp div 4096 < 64" by linarith+
    then show ?thesis using f by (simp add: lead_ok_def utf8_codes_def byte_ranges mod_le63 in_range_def)
  next
    case g
    then have "1 \<le> cp div 262144" "cp div 262144 \<le> 3" by linarith+
    then show ?thesis using g by (simp add: lead_ok_def utf8_codes_def byte_ranges mod64)
  next
    case h
    then have "cp div 262144 = 4" "256 \<le> cp div 4096" "cp div 4096 < 272" by linarith+
    moreover from this have "cp div 4096 mod 64 < 16" using mod_window [of 4 "cp div 4096"] by simp
    ultimately show ?thesis using h by (simp add: lead_ok_def utf8_codes_def byte_ranges mod_le63 in_range_def)
  qed
qed

text \<open>Conversely such bytes encode a scalar value.\<close>

lemma in_range_cont: "in_range (lo, hi) c \<Longrightarrow> 0x80 \<le> lo \<Longrightarrow> hi \<le> 0xBF \<Longrightarrow> \<exists>y < 64. c = 0x80 + y"
  by (intro exI [of _ "c - 0x80"]) (auto simp: in_range_def)

lemma shift64: "y < 64 \<Longrightarrow> (a * 64 + y) div 64 = a" "y < 64 \<Longrightarrow> (a * 64 + y) mod 64 = (y :: nat)"
  by simp_all

lemma div_4096: "n div 4096 = n div 64 div (64 :: nat)" "n div 262144 = n div 64 div 64 div (64 :: nat)"
  by (simp_all add: div_mult2_eq [symmetric])

lemma utf8_codes_2: "2 \<le> x \<Longrightarrow> x < 32 \<Longrightarrow> y < 64 \<Longrightarrow> utf8_codes (x * 64 + y) = [0xC0 + x, 0x80 + y]"
  by (simp add: utf8_codes_def)

lemma utf8_codes_3:
  assumes "32 \<le> x * 64 + y" "x < 16" "y < 64" "z < 64"
  shows "utf8_codes ((x * 64 + y) * 64 + z) = [0xE0 + x, 0x80 + y, 0x80 + z]"
proof -
  have "\<not> (x * 64 + y) * 64 + z < 0x80" "\<not> (x * 64 + y) * 64 + z < 0x800" "(x * 64 + y) * 64 + z < 0x10000"
    using assms by simp_all
  then show ?thesis unfolding utf8_codes_def div_4096 shift64 [OF assms(4)] shift64 [OF assms(3)] by (simp only: if_True if_False)
qed

lemma utf8_codes_4:
  assumes "16 \<le> x * 64 + y" "x < 8" "y < 64" "z < 64" "u < 64"
  shows "utf8_codes (((x * 64 + y) * 64 + z) * 64 + u) = [0xF0 + x, 0x80 + y, 0x80 + z, 0x80 + u]"
proof -
  have "\<not> ((x * 64 + y) * 64 + z) * 64 + u < 0x80" "\<not> ((x * 64 + y) * 64 + z) * 64 + u < 0x800"
    "\<not> ((x * 64 + y) * 64 + z) * 64 + u < 0x10000"
    using assms by simp_all
  then show ?thesis
    unfolding utf8_codes_def div_4096 shift64 [OF assms(5)] shift64 [OF assms(4)] shift64 [OF assms(3)] by (simp only: if_False)
qed

lemma lead_ok_codes:
  assumes "lead_ok bs" "bs \<noteq> []"
  shows "\<exists>cp. scalar_cp cp \<and> 0x80 \<le> cp \<and> utf8_codes cp = bs"
proof -
  obtain b cs rs where bs: "bs = b # cs" and r: "byte_ranges b = Some rs" and a: "list_all2 in_range rs cs"
    using assms by (cases bs) (auto simp: lead_ok_def)
  have two: ?thesis if h: "rs = [(0x80, 0xBF)]" "2 \<le> x" "x < 32" "b = 0xC0 + x" for x
  proof -
    obtain y where "cs = [0x80 + y]" "y < 64" using a h(1) in_range_cont by (fastforce simp: list_all2_Cons1)
    then show ?thesis
      using h bs utf8_codes_2 [of x y] by (intro exI [of _ "x * 64 + y"]) (simp add: scalar_cp_def)
  qed
  have three: ?thesis if h: "rs = [(lo, hi), (0x80, 0xBF)]" "0x80 \<le> lo" "hi \<le> 0xBF" "x < 16" "b = 0xE0 + x"
    "x = 0 \<Longrightarrow> lo = 0xA0" "x = 13 \<Longrightarrow> hi = 0x9F" for x lo hi
  proof -
    obtain y z where c: "cs = [0x80 + y, 0x80 + z]" "y < 64" "z < 64" and y: "in_range (lo, hi) (0x80 + y)"
    proof -
      obtain c1 c2 where "cs = [c1, c2]" "in_range (lo, hi) c1" "in_range (0x80, 0xBF) c2"
        using a h(1) by (auto simp: list_all2_Cons1)
      then show thesis using in_range_cont [of lo hi c1] in_range_cont [of 128 191 c2] h(2,3) that by auto
    qed
    have "x = 0 \<Longrightarrow> 32 \<le> y" "x = 13 \<Longrightarrow> y < 32" using y h(6,7) by (auto simp: in_range_def)
    then have "32 \<le> x * 64 + y" "x * 64 + y < 864 \<or> 896 \<le> x * 64 + y"
      using c(2) by (cases "x = 0"; cases "x = 13"; auto)+
    then show ?thesis
      using h bs c utf8_codes_3 [of x y z] by (intro exI [of _ "(x * 64 + y) * 64 + z"]) (auto simp: scalar_cp_def)
  qed
  have four: ?thesis if h: "rs = [(lo, hi), (0x80, 0xBF), (0x80, 0xBF)]" "0x80 \<le> lo" "hi \<le> 0xBF" "x < 5" "b = 0xF0 + x"
    "x = 0 \<Longrightarrow> lo = 0x90" "x = 4 \<Longrightarrow> hi = 0x8F" for x lo hi
  proof -
    obtain y z u where c: "cs = [0x80 + y, 0x80 + z, 0x80 + u]" "y < 64" "z < 64" "u < 64" and y: "in_range (lo, hi) (0x80 + y)"
    proof -
      obtain c1 c2 c3 where "cs = [c1, c2, c3]" "in_range (lo, hi) c1" "in_range (0x80, 0xBF) c2" "in_range (0x80, 0xBF) c3"
        using a h(1) by (auto simp: list_all2_Cons1)
      then show thesis
        using in_range_cont [of lo hi c1] in_range_cont [of 128 191 c2] in_range_cont [of 128 191 c3] h(2,3) that by auto
    qed
    have "x = 0 \<Longrightarrow> 16 \<le> y" "x = 4 \<Longrightarrow> y < 16" using y h(6,7) by (auto simp: in_range_def)
    then have "16 \<le> x * 64 + y" "x * 64 + y < 272"
      using h(4) c(2) by (cases "x = 0"; cases "x = 4"; auto)+
    then show ?thesis
      using h bs c utf8_codes_4 [of x y z u] by (intro exI [of _ "((x * 64 + y) * 64 + z) * 64 + u"]) (auto simp: scalar_cp_def)
  qed
  consider (a) "0xC2 \<le> b" "b \<le> 0xDF" | (b) "b = 0xE0" | (c) "0xE1 \<le> b" "b \<le> 0xEC" | (e) "0xEE \<le> b" "b \<le> 0xEF"
    | (d) "b = 0xED" | (f) "b = 0xF0" | (g) "0xF1 \<le> b" "b \<le> 0xF3" | (h) "b = 0xF4"
    using r unfolding byte_ranges_def utf8_ranges_def by (auto split: if_splits)
  then show ?thesis
  proof cases
    case a
    then show ?thesis using r byte_ranges(1) two [of "b - 0xC0"] by auto
  next
    case b
    then show ?thesis using r byte_ranges(2) three [of _ _ 0] by auto
  next
    case c
    then show ?thesis using r byte_ranges(3) three [of _ _ "b - 0xE0"] by auto
  next
    case e
    then show ?thesis using r byte_ranges(4) three [of _ _ "b - 0xE0"] by auto
  next
    case d
    then show ?thesis using r byte_ranges(5) three [of _ _ 13] by auto
  next
    case f
    then show ?thesis using r byte_ranges(6) four [of _ _ 0] by auto
  next
    case g
    then show ?thesis using r byte_ranges(7) four [of _ _ "b - 0xF0"] by auto
  next
    case h
    then show ?thesis using r byte_ranges(8) four [of _ _ 4] by auto
  qed
qed

section \<open>The automaton of the serializer\<close>

definition byte_class :: "nat \<Rightarrow> nat" where
  "byte_class b =
     (if b < 0x80 then 0 else if b < 0x90 then 1 else if b < 0xA0 then 9 else if b < 0xC0 then 7
      else if b < 0xC2 then 8 else if b < 0xE0 then 2 else if b = 0xE0 then 10 else if b = 0xED then 4
      else if b < 0xF0 then 3 else if b = 0xF0 then 11 else if b < 0xF4 then 6 else if b = 0xF4 then 5 else 8)"

definition utf8d_states :: "nat list" where
  "utf8d_states = drop 256 utf8d"

lemma utf8d_parts: "length utf8d = 400" "utf8d_states = 
    [0x0, 0x1, 0x2, 0x3, 0x5, 0x8, 0x7, 0x1, 0x1, 0x1, 0x4, 0x6, 0x1, 0x1, 0x1, 0x1,
     1, 1, 1, 1, 1, 1, 1, 1, 1, 1, 1, 1, 1, 1, 1, 1, 1, 0, 1, 1, 1, 1, 1, 0, 1, 0, 1, 1, 1, 1, 1, 1,
     1, 2, 1, 1, 1, 1, 1, 2, 1, 2, 1, 1, 1, 1, 1, 1, 1, 1, 1, 1, 1, 1, 1, 2, 1, 1, 1, 1, 1, 1, 1, 1,
     1, 2, 1, 1, 1, 1, 1, 1, 1, 2, 1, 1, 1, 1, 1, 1, 1, 1, 1, 1, 1, 1, 1, 3, 1, 3, 1, 1, 1, 1, 1, 1,
     1, 3, 1, 1, 1, 1, 1, 3, 1, 3, 1, 1, 1, 1, 1, 1, 1, 3, 1, 1, 1, 1, 1, 1, 1, 1, 1, 1, 1, 1, 1, 1]"
  by (simp_all add: utf8d_def utf8d_states_def)

lemma byte_class_at:
  "b < 0x80 \<Longrightarrow> byte_class b = 0"
  "0x80 \<le> b \<Longrightarrow> b < 0x90 \<Longrightarrow> byte_class b = 1"
  "0x90 \<le> b \<Longrightarrow> b < 0xA0 \<Longrightarrow> byte_class b = 9"
  "0xA0 \<le> b \<Longrightarrow> b < 0xC0 \<Longrightarrow> byte_class b = 7"
  "0xC2 \<le> b \<Longrightarrow> b \<le> 0xDF \<Longrightarrow> byte_class b = 2"
  "0xE1 \<le> b \<Longrightarrow> b \<le> 0xEC \<Longrightarrow> byte_class b = 3"
  "0xEE \<le> b \<Longrightarrow> b \<le> 0xEF \<Longrightarrow> byte_class b = 3"
  "0xF1 \<le> b \<Longrightarrow> b \<le> 0xF3 \<Longrightarrow> byte_class b = 6"
  "b = 0xC0 \<or> b = 0xC1 \<or> 0xF5 \<le> b \<Longrightarrow> byte_class b = 8"
  "byte_class 0xE0 = 10" "byte_class 0xED = 4" "byte_class 0xF0 = 11" "byte_class 0xF4 = 5"
  by (auto simp: byte_class_def)

lemma byte_intervals:
  obtains "b < 0x80" | "0x80 \<le> b" "b < 0x90" | "0x90 \<le> b" "b < 0xA0" | "0xA0 \<le> b" "b < 0xC0"
    | "b = 0xC0 \<or> b = 0xC1 \<or> 0xF5 \<le> b"
    | "0xC2 \<le> b" "b \<le> 0xDF" | "b = 0xE0" | "0xE1 \<le> b" "b \<le> 0xEC" | "b = 0xED" | "0xEE \<le> b" "b \<le> (0xEF :: nat)"
    | "b = 0xF0" | "0xF1 \<le> b" "b \<le> 0xF3" | "b = 0xF4"
proof -
  note t = that
  consider "b < 0x80" | "0x80 \<le> b" "b < 0xC2" | "0xC2 \<le> b" "b < 0xEE" | "0xEE \<le> b" by linarith
  then show thesis
  proof cases
    case 1
    then show ?thesis by (rule t(1))
  next
    case 2
    then show ?thesis using t(2-5) by linarith
  next
    case 3
    then show ?thesis using t(6-9) by linarith
  next
    case 4
    then show ?thesis using t(5,10-13) by linarith
  qed
qed

lemma utf8d_class: "b < 256 \<Longrightarrow> utf8d ! b = byte_class b"
proof -
  have "take 32 (drop 0xE0 utf8d) = [0xA, 0x3, 0x3, 0x3, 0x3, 0x3, 0x3, 0x3, 0x3, 0x3, 0x3, 0x3, 0x3, 0x4, 0x3, 0x3,
     0xB, 0x6, 0x6, 0x6, 0x5, 0x8, 0x8, 0x8, 0x8, 0x8, 0x8, 0x8, 0x8, 0x8, 0x8, 0x8]"
    by (simp add: utf8d_def)
  then have tail: "utf8d ! (0xE0 + i) = ([0xA, 0x3, 0x3, 0x3, 0x3, 0x3, 0x3, 0x3, 0x3, 0x3, 0x3, 0x3, 0x3, 0x4, 0x3, 0x3,
     0xB, 0x6, 0x6, 0x6, 0x5, 0x8, 0x8, 0x8, 0x8, 0x8, 0x8, 0x8, 0x8, 0x8, 0x8, 0x8] :: nat list) ! i" if "i < 32" for i
    using that nth_take [of i 32 "drop 0xE0 utf8d"] by (simp add: utf8d_parts(1))
  assume b: "b < 256"
  show ?thesis
  proof (cases "b < 0xE0")
    case True
    then show ?thesis by (auto simp: utf8d_def byte_class_def nth_append nth_Cons')
  next
    case False
    then obtain i where i: "b = 0xE0 + i" "i < 32" using b by (intro that [of "b - 0xE0"]) auto
    show ?thesis unfolding i(1) tail [OF i(2)] using i(2) by (simp add: byte_class_def nth_Cons')
  qed
qed

text \<open>The bytes that a state waits for.\<close>

definition pend :: "nat \<Rightarrow> (int \<times> int) list" where
  "pend s =
     (if s = 2 then [(0x80, 0xBF)]
      else if s = 3 then [(0x80, 0xBF), (0x80, 0xBF)]
      else if s = 4 then [(0xA0, 0xBF), (0x80, 0xBF)]
      else if s = 5 then [(0x80, 0x9F), (0x80, 0xBF)]
      else if s = 6 then [(0x90, 0xBF), (0x80, 0xBF), (0x80, 0xBF)]
      else if s = 7 then [(0x80, 0xBF), (0x80, 0xBF), (0x80, 0xBF)]
      else if s = 8 then [(0x80, 0x8F), (0x80, 0xBF), (0x80, 0xBF)]
      else [])"

definition dfa :: "nat \<Rightarrow> nat \<Rightarrow> nat" where
  "dfa s b = utf8d_states ! (s * 16 + byte_class b)"

lemma byte_class_less: "byte_class b < 12"
  by (simp add: byte_class_def)

lemma decode_dfa:
  assumes "b < 256" "s \<le> 8"
  shows "decode s cp b =
     Inr (dfa s b, if s \<noteq> 0 then (b AND 0x3F) OR u32 (push_bit 6 cp) else drop_bit (byte_class b) 0xFF AND b)"
proof -
  have i: "256 + s * 16 + byte_class b < 400" using assms byte_class_less [of b] by linarith
  then have "utf8d ! (256 + s * 16 + byte_class b) = dfa s b"
    by (simp add: dfa_def utf8d_states_def utf8d_parts(1) add.assoc)
  then show ?thesis
    using i assms by (simp add: decode_def utf8d_class utf8d_parts(1) UTF8_ACCEPT_def Let_def)
qed

lemma dfa_rows:
  "dfa 0 b = [0, 1, 2, 3, 5, 8, 7, 1, 1, 1, 4, 6, 1, 1, 1, 1] ! byte_class b"
  "dfa 2 b = [1, 0, 1, 1, 1, 1, 1, 0, 1, 0, 1, 1, 1, 1, 1, 1] ! byte_class b"
  "dfa 3 b = [1, 2, 1, 1, 1, 1, 1, 2, 1, 2, 1, 1, 1, 1, 1, 1] ! byte_class b"
  "dfa 4 b = [1, 1, 1, 1, 1, 1, 1, 2, 1, 1, 1, 1, 1, 1, 1, 1] ! byte_class b"
  "dfa 5 b = [1, 2, 1, 1, 1, 1, 1, 1, 1, 2, 1, 1, 1, 1, 1, 1] ! byte_class b"
  "dfa 6 b = [1, 1, 1, 1, 1, 1, 1, 3, 1, 3, 1, 1, 1, 1, 1, 1] ! byte_class b"
  "dfa 7 b = [1, 3, 1, 1, 1, 1, 1, 3, 1, 3, 1, 1, 1, 1, 1, 1] ! byte_class b"
  "dfa 8 b = [1, 3, 1, 1, 1, 1, 1, 1, 1, 1, 1, 1, 1, 1, 1, 1] ! byte_class b"
proof -
  have r: "dfa s b = take 16 (drop (s * 16) utf8d_states) ! byte_class b" if "s \<le> 8" for s
    using byte_class_less [of b] that by (simp add: dfa_def utf8d_states_def utf8d_parts(1) add.left_commute add.commute)
  show "dfa 0 b = [0, 1, 2, 3, 5, 8, 7, 1, 1, 1, 4, 6, 1, 1, 1, 1] ! byte_class b"
    "dfa 2 b = [1, 0, 1, 1, 1, 1, 1, 0, 1, 0, 1, 1, 1, 1, 1, 1] ! byte_class b"
    "dfa 3 b = [1, 2, 1, 1, 1, 1, 1, 2, 1, 2, 1, 1, 1, 1, 1, 1] ! byte_class b"
    "dfa 4 b = [1, 1, 1, 1, 1, 1, 1, 2, 1, 1, 1, 1, 1, 1, 1, 1] ! byte_class b"
    "dfa 5 b = [1, 2, 1, 1, 1, 1, 1, 1, 1, 2, 1, 1, 1, 1, 1, 1] ! byte_class b"
    "dfa 6 b = [1, 1, 1, 1, 1, 1, 1, 3, 1, 3, 1, 1, 1, 1, 1, 1] ! byte_class b"
    "dfa 7 b = [1, 3, 1, 1, 1, 1, 1, 3, 1, 3, 1, 1, 1, 1, 1, 1] ! byte_class b"
    "dfa 8 b = [1, 3, 1, 1, 1, 1, 1, 1, 1, 1, 1, 1, 1, 1, 1, 1] ! byte_class b"
    by (simp_all add: r utf8d_parts(2))
qed

lemma byte_ranges_None: "b < 0xC2 \<or> 0xF5 \<le> b \<Longrightarrow> byte_ranges b = None"
  by (auto simp: byte_ranges_def utf8_ranges_def)

lemma dfa_start:
  shows "b < 0x80 \<Longrightarrow> dfa 0 b = 0"
    and "0x80 \<le> b \<Longrightarrow> byte_ranges b = None \<Longrightarrow> dfa 0 b = 1"
    and "byte_ranges b = Some rs \<Longrightarrow> 2 \<le> dfa 0 b \<and> dfa 0 b \<le> 8 \<and> pend (dfa 0 b) = rs"
proof -
  show "b < 0x80 \<Longrightarrow> dfa 0 b = 0" by (simp add: dfa_rows(1) byte_class_at)
  show "0x80 \<le> b \<Longrightarrow> byte_ranges b = None \<Longrightarrow> dfa 0 b = 1"
    by (rule byte_intervals [of b]) (auto simp: dfa_rows(1) byte_class_at byte_ranges)
  show "byte_ranges b = Some rs \<Longrightarrow> 2 \<le> dfa 0 b \<and> dfa 0 b \<le> 8 \<and> pend (dfa 0 b) = rs"
    by (rule byte_intervals [of b]) (auto simp: dfa_rows(1) byte_class_at byte_ranges byte_ranges_None pend_def)
qed

definition pend_step :: "nat \<Rightarrow> nat \<Rightarrow> nat \<Rightarrow> bool" where
  "pend_step s b s' \<longleftrightarrow>
     (if \<not> in_range (hd (pend s)) b then s' = 1
      else if tl (pend s) = [] then s' = 0
      else 2 \<le> s' \<and> s' \<le> 8 \<and> pend s' = tl (pend s))"

lemma dfa_step: "2 \<le> s \<Longrightarrow> s \<le> 8 \<Longrightarrow> pend_step s b (dfa s b)"
proof -
  assume "2 \<le> s" "s \<le> 8"
  then have s: "s = 2 \<or> s = 3 \<or> s = 4 \<or> s = 5 \<or> s = 6 \<or> s = 7 \<or> s = 8" by linarith
  show ?thesis
    by (rule byte_intervals [of b]; insert s; elim disjE; simp add: pend_step_def dfa_rows byte_class_at in_range_def pend_def)
qed

section \<open>What the serializer writes for a code point\<close>

lemma mod_base: "y < 64 \<Longrightarrow> (192 + y) mod 64 = (y :: nat)" "y < 64 \<Longrightarrow> (128 + y) mod 64 = (y :: nat)"
  "x < 32 \<Longrightarrow> (224 + x) mod 32 = (x :: nat)" "x < 4 \<Longrightarrow> (240 + x) mod 4 = (x :: nat)"
  using mod_add_left_eq [of 192 64 y] mod_add_left_eq [of 128 64 y] mod_add_left_eq [of 224 32 x] mod_add_left_eq [of 240 4 x]
  by simp_all

lemma lead_codepoint:
  "2 \<le> x \<Longrightarrow> x < 32 \<Longrightarrow> drop_bit (byte_class (0xC0 + x)) 0xFF AND (0xC0 + x) = x"
  "x < 16 \<Longrightarrow> drop_bit (byte_class (0xE0 + x)) 0xFF AND (0xE0 + x) = x"
  "x < 5 \<Longrightarrow> drop_bit (byte_class (0xF0 + x)) 0xFF AND (0xF0 + x) = x"
proof -
  show "2 \<le> x \<Longrightarrow> x < 32 \<Longrightarrow> drop_bit (byte_class (0xC0 + x)) 0xFF AND (0xC0 + x) = x"
    using and_low [of "0xC0 + x" 6] mod_base(1) [of x] by (simp add: byte_class_at drop_bit_eq_div and.commute)
  show "x < 16 \<Longrightarrow> drop_bit (byte_class (0xE0 + x)) 0xFF AND (0xE0 + x) = x"
    using and_low [of "0xE0 + x" 5] mod_base(3) [of x] byte_class_at(6,7) [of "0xE0 + x"]
    by (cases "x = 0"; cases "x = 13"; cases "x < 13") (simp_all add: byte_class_at(10,11) drop_bit_eq_div and.commute)
  show "x < 5 \<Longrightarrow> drop_bit (byte_class (0xF0 + x)) 0xFF AND (0xF0 + x) = x"
    using and_low [of "0xF0 + x" 2] mod_base(4) [of x] byte_class_at(8) [of "0xF0 + x"]
    by (cases "x = 0"; cases "x = 4") (simp_all add: byte_class_at(12,13) drop_bit_eq_div and.commute)
qed

lemma next_codepoint: "y < 64 \<Longrightarrow> cp < 2 ^ 26 \<Longrightarrow> ((0x80 + y) AND 0x3F) OR u32 (push_bit 6 cp) = cp * 64 + y"
  using and_low [of "0x80 + y" 6] or_shift [of y 6 cp] mod_base(2) [of y] by (simp add: u32_def push_bit_eq_mult)

definition esc_cp :: "bool \<Rightarrow> nat \<Rightarrow> string" where
  "esc_cp ea cp = (if ea \<or> cp < 0x80 then snd (escape_codepoint ea cp (char_of cp)) else utf8_encode cp)"

definition esc_ready :: "escaper \<Rightarrow> bool" where
  "esc_ready d \<longleftrightarrow> es_state d = 0 \<and> es_undumped d = 0 \<and> es_last_accept d = length (es_buffer d) \<and> length (es_buffer d) \<le> 499"

definition esc_text :: "escaper \<Rightarrow> string" where
  "esc_text d = es_out d @ es_buffer d"

lemma write_buffer_small: "length (es_buffer d) \<le> 512 \<Longrightarrow> length (es_buffer (write_buffer d)) \<le> 499"
  by (auto simp: write_buffer_def u64_sub_le)

lemma write_buffer_text [simp]: "esc_text (write_buffer d) = esc_text d" "es_state (write_buffer d) = es_state d"
  by (simp_all add: write_buffer_def esc_text_def)

lemma escape_codepoint_length: "length (snd (escape_codepoint ea cp c)) \<le> fst (escape_codepoint ea cp c)"
  "fst (escape_codepoint ea cp c) \<le> 13" "\<not> ea \<Longrightarrow> 0x80 \<le> cp \<Longrightarrow> escape_codepoint ea cp c = (1, [c])"
  by (auto simp: escape_codepoint_def u04x_def)

lemma escape_accept_ok:
  assumes "length (es_buffer d) + fst (escape_codepoint ea (es_codepoint d) c) \<le> 512" "es_state d = 0"
  obtains d' where "escape_accept ea c d = Inr d'" "esc_ready d'"
    "esc_text d' = esc_text d @ snd (escape_codepoint ea (es_codepoint d) c)"
proof -
  obtain n s where ns: "escape_codepoint ea (es_codepoint d) c = (n, s)" by fastforce
  define d1 where "d1 = write_buffer (d\<lparr>es_buffer := es_buffer d @ s\<rparr>)"
  have "escape_accept ea c d = Inr (d1\<lparr>es_last_accept := length (es_buffer d1), es_undumped := 0\<rparr>)"
    using assms ns by (simp add: escape_accept_def put_bytes_def Let_def d1_def)
  moreover have "length (es_buffer d1) \<le> 499"
    unfolding d1_def using assms(1) escape_codepoint_length(1) [of ea "es_codepoint d" c] ns
    by (intro write_buffer_small) simp
  moreover have "esc_text d1 = esc_text d @ s" "es_state d1 = 0"
    using assms(2) by (simp_all add: d1_def) (simp add: esc_text_def)
  ultimately show thesis using that ns by (simp add: esc_ready_def esc_text_def)
qed

lemma escape_loop_mid:
  assumes "es_state d \<le> 8" "2 \<le> dfa (es_state d) (of_char c)" "length (es_buffer d) < 512"
  shows "escape_loop eh ea i (c # cs) d = escape_loop eh ea (i + 1) cs
    (d\<lparr>es_state := dfa (es_state d) (of_char c),
       es_codepoint := if es_state d \<noteq> 0 then (of_char c AND 0x3F) OR u32 (push_bit 6 (es_codepoint d))
                       else drop_bit (byte_class (of_char c)) 0xFF AND of_char c,
       es_buffer := es_buffer d @ (if ea then [] else [c]), es_undumped := es_undumped d + 1\<rparr>)"
  using assms by (simp add: decode_dfa put_bytes_def UTF8_ACCEPT_def UTF8_REJECT_def Let_def)

lemma escape_loop_last:
  assumes "es_state d \<le> 8" "dfa (es_state d) (of_char c) = 0"
  shows "escape_loop eh ea i (c # cs) d = bindr (escape_accept ea c
    (d\<lparr>es_state := 0,
       es_codepoint := if es_state d \<noteq> 0 then (of_char c AND 0x3F) OR u32 (push_bit 6 (es_codepoint d))
                       else drop_bit (byte_class (of_char c)) 0xFF AND of_char c\<rparr>)) (\<lambda>d. escape_loop eh ea (i + 1) cs d)"
  using assms by (simp add: decode_dfa UTF8_ACCEPT_def Let_def)

text \<open>Inside a code point of which the bytes \<open>us\<close> have been read, in the buffer of \<open>d\<close>.\<close>

definition esc_in :: "bool \<Rightarrow> escaper \<Rightarrow> string \<Rightarrow> escaper \<Rightarrow> bool" where
  "esc_in ea d us d1 \<longleftrightarrow> 2 \<le> es_state d1 \<and> es_state d1 \<le> 8 \<and> esc_text d1 = esc_text d @ (if ea then [] else us) \<and>
     length (es_buffer d1) \<le> 499 + (if ea then 0 else length us)"

abbreviation cont :: "nat \<Rightarrow> nat \<Rightarrow> nat" where
  "cont a b \<equiv> a * 64 + (b - 0x80)"

lemma foldl_cont_ge: "a \<le> foldl cont a bs"
proof (induction bs arbitrary: a)
  case (Cons b bs)
  show ?case using Cons [of "cont a b"] by simp
qed simp

lemma pend_cont: "in_range r b \<Longrightarrow> r \<in> set (pend s) \<Longrightarrow> 0x80 \<le> b \<and> b < 0xC0"
  by (auto simp: pend_def in_range_def split: if_splits)

lemma cont_codepoint: "0x80 \<le> b \<Longrightarrow> b < 0xC0 \<Longrightarrow> cp < 2 ^ 26 \<Longrightarrow> (b AND 0x3F) OR u32 (push_bit 6 cp) = cont cp b"
  using next_codepoint [of "b - 0x80" cp] by simp

lemma escape_loop_conts:
  assumes "esc_in ea d us d1" "list_all2 in_range (pend (es_state d1)) bs" "foldl cont (es_codepoint d1) bs = cp"
    "bs \<noteq> []" "0x80 \<le> cp" "cp < 2 ^ 26" "length us + length bs \<le> 4"
  shows "\<exists>d'. esc_ready d' \<and> esc_text d' = esc_text d @ (if ea then esc_cp ea cp else us @ map char_of bs) \<and>
    escape_loop eh ea i (map char_of bs @ cs) d1 = escape_loop eh ea (i + length bs) cs d'"
  using assms
proof (induction bs arbitrary: us d1 i)
  case (Cons b bs)
  let ?c = "char_of b :: char"
  note d1 = Cons.prems(1) [unfolded esc_in_def]
  obtain r rs where p: "pend (es_state d1) = r # rs" and b: "in_range r b" and bs: "list_all2 in_range rs bs"
    using Cons.prems(2) by (auto simp: list_all2_Cons2)
  have b80: "0x80 \<le> b" "b < 0xC0" using pend_cont [OF b] p by (metis list.set_intros(1))+
  then have [simp]: "b mod 256 = b" by simp
  have "es_codepoint d1 < 2 ^ 26" using foldl_cont_ge [of "es_codepoint d1" "b # bs"] Cons.prems(3,6) by simp
  then have code: "(b AND 0x3F) OR u32 (push_bit 6 (es_codepoint d1)) = cont (es_codepoint d1) b"
    using cont_codepoint b80 by simp
  have step: "pend_step (es_state d1) b (dfa (es_state d1) b)" using dfa_step d1 by blast
  show ?case
  proof (cases "bs = []")
    case True
    then have rs: "rs = []" using bs by simp
    have cp: "cont (es_codepoint d1) b = cp" using Cons.prems(3) True by simp
    have st: "dfa (es_state d1) (of_char ?c) = 0" using step b p rs by (simp add: pend_step_def)
    let ?d = "d1\<lparr>es_state := 0, es_codepoint := cp\<rparr>"
    have n: "fst (escape_codepoint ea cp ?c) + (if ea then 0 else length us) \<le> 13"
      using Cons.prems(5,7) escape_codepoint_length(2) [of ea cp ?c] escape_codepoint_length(3) [of ea cp ?c] by (cases ea) auto
    obtain d' where d': "escape_accept ea ?c ?d = Inr d'" "esc_ready d'" "esc_text d' = esc_text ?d @ snd (escape_codepoint ea cp ?c)"
      using escape_accept_ok [of ?d ea ?c] n d1 by (auto split: if_splits)
    have "snd (escape_codepoint ea cp ?c) = (if ea then esc_cp ea cp else [?c])"
      using Cons.prems(5) escape_codepoint_length(3) [of ea cp ?c] by (auto simp: esc_cp_def escape_codepoint_def)
    moreover have "esc_text ?d = esc_text d1" by (simp add: esc_text_def)
    moreover have "escape_loop eh ea i (?c # cs) d1 = escape_loop eh ea (i + 1) cs d'"
      using escape_loop_last [of d1 ?c eh ea i cs] st d1 d'(1) code cp by simp
    ultimately show ?thesis using d'(2,3) d1 True by (intro exI [of _ d']) auto
  next
    case False
    then have rs: "rs \<noteq> []" using bs by auto
    have st: "2 \<le> dfa (es_state d1) b" "dfa (es_state d1) b \<le> 8" "pend (dfa (es_state d1) b) = rs"
      using step b p rs by (auto simp: pend_step_def)
    let ?d = "d1\<lparr>es_state := dfa (es_state d1) b, es_codepoint := cont (es_codepoint d1) b,
      es_buffer := es_buffer d1 @ (if ea then [] else [?c]), es_undumped := es_undumped d1 + 1\<rparr>"
    have "esc_in ea d (us @ [?c]) ?d" using d1 st by (auto simp: esc_in_def esc_text_def)
    moreover have "escape_loop eh ea i (?c # map char_of bs @ cs) d1 = escape_loop eh ea (i + 1) (map char_of bs @ cs) ?d"
      using escape_loop_mid [of d1 ?c eh ea i "map char_of bs @ cs"] d1 st Cons.prems(7) code by (auto split: if_splits)
    ultimately show ?thesis using Cons.IH [of "us @ [?c]" ?d "i + 1"] Cons.prems False st(3) bs by (cases ea) simp_all
  qed
qed simp

lemma utf8_codes_fold:
  assumes "scalar_cp cp" "0x80 \<le> cp" "utf8_codes cp = b # bs"
  shows "foldl cont (drop_bit (byte_class b) 0xFF AND b) bs = cp" "bs \<noteq> []" "length bs \<le> 3"
proof -
  have 4: "cp div 262144 < 5" "cp < 0x800 \<Longrightarrow> cp div 64 < 32" "2 \<le> cp div 64" "cp < 0x10000 \<Longrightarrow> cp div 4096 < 16"
    using assms(1,2) unfolding scalar_cp_def by linarith+
  have d: "cp div 64 * 64 + cp mod 64 = cp" "cp div 4096 * 64 + cp div 64 mod 64 = cp div 64"
    "cp div 262144 * 64 + cp div 4096 mod 64 = cp div 4096"
    by (simp_all add: div_mult2_eq [of cp 64 64, simplified] div_mult2_eq [of cp 4096 64, simplified])
  show "bs \<noteq> []" "length bs \<le> 3" using assms by (auto simp: utf8_codes_def split: if_splits)
  show "foldl cont (drop_bit (byte_class b) 0xFF AND b) bs = cp"
    using assms(2,3) d 4 by (auto simp: utf8_codes_def lead_codepoint split: if_splits)
qed

text \<open>A code point, read to its end.\<close>

lemma escape_loop_cp:
  assumes "scalar_cp cp" "esc_ready d"
  shows "\<exists>d'. esc_ready d' \<and> esc_text d' = esc_text d @ esc_cp ea cp \<and>
    escape_loop eh ea i (utf8_encode cp @ cs) d = escape_loop eh ea (i + length (utf8_codes cp)) cs d'"
proof (cases "cp < 0x80")
  case True
  let ?d = "d\<lparr>es_state := 0, es_codepoint := cp\<rparr>"
  have [simp]: "cp mod 256 = cp" "utf8_codes cp = [cp]" using True by (simp_all add: utf8_codes_def)
  have "drop_bit (byte_class cp) 0xFF AND cp = cp"
    using True and_low [of cp 8] by (simp add: byte_class_at and.commute)
  then have "escape_loop eh ea i (utf8_encode cp @ cs) d = bindr (escape_accept ea (char_of cp) ?d) (escape_loop eh ea (i + 1) cs)"
    using escape_loop_last [of d "char_of cp" eh ea i cs] assms(2) True
    by (simp add: esc_ready_def dfa_start utf8_encode_def)
  moreover obtain d' where "escape_accept ea (char_of cp) ?d = Inr d'" "esc_ready d'"
      "esc_text d' = esc_text ?d @ snd (escape_codepoint ea cp (char_of cp))"
    using escape_accept_ok [of ?d ea "char_of cp"] escape_codepoint_length(2) [of ea cp "char_of cp"] assms(2)
    by (auto simp: esc_ready_def)
  ultimately show ?thesis using True by (intro exI [of _ d']) (simp add: esc_cp_def esc_text_def)
next
  case False
  obtain b bs where u: "utf8_codes cp = b # bs" by (cases "utf8_codes cp") (auto simp: utf8_codes_def split: if_splits)
  have cp: "foldl cont (drop_bit (byte_class b) 0xFF AND b) bs = cp" "bs \<noteq> []" "length bs \<le> 3"
    using utf8_codes_fold [OF assms(1) _ u] False by simp_all
  have b: "b < 256" using utf8_codes_less [OF assms(1), of b] u by simp
  obtain rs where rs: "byte_ranges b = Some rs" "list_all2 in_range rs bs"
    using utf8_codes_ranges [OF assms(1)] False u by (auto simp: lead_ok_def)
  note st = dfa_start(3) [OF rs(1)]
  let ?c = "char_of b :: char"
  have [simp]: "b mod 256 = b" using b by simp
  let ?d = "d\<lparr>es_state := dfa 0 b, es_codepoint := drop_bit (byte_class b) 0xFF AND b,
    es_buffer := es_buffer d @ (if ea then [] else [?c]), es_undumped := es_undumped d + 1\<rparr>"
  have "esc_in ea d [?c] ?d" using st assms(2) by (simp add: esc_in_def esc_ready_def esc_text_def)
  moreover have "escape_loop eh ea i (?c # map char_of bs @ cs) d = escape_loop eh ea (i + 1) (map char_of bs @ cs) ?d"
    using escape_loop_mid [of d ?c eh ea i "map char_of bs @ cs"] st assms(2) by (auto simp: esc_ready_def)
  moreover have "cp < 2 ^ 26" using assms(1) by (auto simp: scalar_cp_def)
  ultimately obtain d' where "esc_ready d'" "esc_text d' = esc_text d @ (if ea then esc_cp ea cp else [?c] @ map char_of bs)"
    "escape_loop eh ea i (?c # map char_of bs @ cs) d = escape_loop eh ea (i + 1 + length bs) cs d'"
    using escape_loop_conts [of ea d "[?c]" ?d bs cp eh "i + 1" cs] st rs(2) cp False by auto
  then show ?thesis using u False by (intro exI [of _ d']) (simp add: utf8_encode_def esc_cp_def)
qed

lemma escape_loop_cps:
  assumes "list_all scalar_cp cps" "esc_ready d"
  shows "\<exists>d'. esc_ready d' \<and> esc_text d' = esc_text d @ concat (map (esc_cp ea) cps) \<and>
    escape_loop eh ea i (concat (map utf8_encode cps)) d = Inr d'"
  using assms
proof (induction cps arbitrary: d i)
  case (Cons cp cps)
  obtain d1 where d1: "esc_ready d1" "esc_text d1 = esc_text d @ esc_cp ea cp"
    "escape_loop eh ea i (utf8_encode cp @ concat (map utf8_encode cps)) d =
       escape_loop eh ea (i + length (utf8_codes cp)) (concat (map utf8_encode cps)) d1"
    using escape_loop_cp [of cp d ea eh i] Cons.prems by auto
  from Cons.IH [OF _ d1(1), of "i + length (utf8_codes cp)"] show ?case using Cons.prems d1 by auto
qed simp

lemma dump_escaped_cps:
  assumes "list_all scalar_cp cps"
  shows "dump_escaped eh ea (concat (map utf8_encode cps)) = Inr (concat (map (esc_cp ea) cps))"
proof -
  let ?d = "\<lparr>es_out = [], es_buffer = [], es_last_accept = 0, es_undumped = 0, es_state = UTF8_ACCEPT, es_codepoint = 0\<rparr>"
  have "esc_ready ?d" by (simp add: esc_ready_def UTF8_ACCEPT_def)
  from escape_loop_cps [OF assms this, of ea eh 0] show ?thesis
    by (auto simp: dump_escaped_def esc_ready_def esc_text_def UTF8_ACCEPT_def)
qed

section \<open>The buffer of the serializer\<close>

text \<open>
  Between two bytes: the buffer holds what was accepted and at most three bytes of an unfinished code
  point, so that there is room for whatever the next byte makes the serializer write.
\<close>

definition esc_inv :: "bool \<Rightarrow> escaper \<Rightarrow> bool" where
  "esc_inv ea d \<longleftrightarrow>
     (es_state d = 0 \<and> es_undumped d = 0 \<or>
      2 \<le> es_state d \<and> es_state d \<le> 8 \<and> es_undumped d + length (pend (es_state d)) \<le> 4) \<and>
     es_last_accept d \<le> 499 \<and> es_last_accept d \<le> length (es_buffer d) \<and>
     length (es_buffer d) \<le> es_last_accept d + (if ea then 0 else es_undumped d)"

lemma pend_length: "2 \<le> s \<Longrightarrow> s \<le> 8 \<Longrightarrow> 1 \<le> length (pend s) \<and> length (pend s) \<le> 3"
  by (auto simp: pend_def)

lemma esc_inv_room: "esc_inv ea d \<Longrightarrow> length (es_buffer d) \<le> 499 + (if ea then 0 else 3) \<and> es_state d \<le> 8"
  using pend_length [of "es_state d"] by (auto simp: esc_inv_def split: if_splits)

lemma escape_reject_ok:
  assumes "esc_inv ea d" "es_last_accept d' = es_last_accept d" "es_buffer d' = es_buffer d"
  obtains d2 where "escape_reject eh ea d' = Inr d2" "esc_inv ea d2"
proof -
  define d1 where "d1 = d'\<lparr>es_buffer := take (es_last_accept d') (es_buffer d')\<rparr>"
  have l: "length (es_buffer d1) = es_last_accept d" "es_last_accept d1 = es_last_accept d" "es_last_accept d \<le> 499"
    using assms by (auto simp: d1_def esc_inv_def)
  let ?s = "if ea then [CHR 0x5C] @ ''ufffd'' else [CHR 0xEF, CHR 0xBF, CHR 0xBD]"
  let ?w = "write_buffer (d1\<lparr>es_buffer := es_buffer d1 @ ?s\<rparr>)"
  have "length (es_buffer ?w) \<le> 499" using l by (intro write_buffer_small) simp
  then have "esc_inv ea (?w\<lparr>es_last_accept := length (es_buffer ?w), es_undumped := 0, es_state := UTF8_ACCEPT\<rparr>)"
    "esc_inv ea (d1\<lparr>es_undumped := 0, es_state := UTF8_ACCEPT\<rparr>)"
    using l by (simp_all add: esc_inv_def UTF8_ACCEPT_def)
  moreover have "escape_reject eh ea d' =
      Inr (if eh = replace then ?w\<lparr>es_last_accept := length (es_buffer ?w), es_undumped := 0, es_state := UTF8_ACCEPT\<rparr>
           else d1\<lparr>es_undumped := 0, es_state := UTF8_ACCEPT\<rparr>)"
    using l by (simp add: escape_reject_def put_bytes_def Let_def d1_def)
  ultimately show thesis using that by (cases "eh = replace") simp_all
qed

lemma dfa_next:
  assumes "s = 0 \<and> u = 0 \<or> 2 \<le> s \<and> s \<le> 8 \<and> u + length (pend s) \<le> 4" "dfa s b \<noteq> 0" "dfa s b \<noteq> 1"
  shows "2 \<le> dfa s b \<and> dfa s b \<le> 8 \<and> u + 1 + length (pend (dfa s b)) \<le> 4"
proof (cases "s = 0")
  case True
  show ?thesis
  proof (cases "byte_ranges b")
    case None
    then show ?thesis using dfa_start(1,2) [of b] assms(2,3) True by (cases "b < 0x80") auto
  next
    case (Some rs)
    then show ?thesis using dfa_start(3) [OF Some] pend_length [of "dfa 0 b"] assms(1) True by auto
  qed
next
  case False
  then show ?thesis
    using dfa_step [of s b] assms pend_length [of s] by (auto simp: pend_step_def split: if_splits)
qed

lemma escape_codepoint_room: "fst (escape_codepoint ea cp c) \<le> (if ea then 13 else 7)"
  by (auto simp: escape_codepoint_def)

lemma esc_ready_inv: "esc_ready d \<Longrightarrow> esc_inv ea d"
  by (simp add: esc_ready_def esc_inv_def)

lemma escape_loop_safe:
  assumes "esc_inv ea d"
  shows "(\<exists>d'. escape_loop eh ea i s d = Inr d' \<and> esc_inv ea d') \<or>
    eh = strict \<and> (\<exists>w. escape_loop eh ea i s d = Inl (type_error 316 w))"
  using assms
proof (induction eh ea i s d rule: escape_loop.induct)
  case (2 eh ea i c cs d)
  note room = esc_inv_room [OF 2(5)]
  let ?b = "of_char c :: nat"
  let ?st = "dfa (es_state d) ?b"
  define cp where "cp = (if es_state d \<noteq> 0 then (?b AND 0x3F) OR u32 (push_bit 6 (es_codepoint d))
    else drop_bit (byte_class ?b) 0xFF AND ?b)"
  have dec: "decode (es_state d) (es_codepoint d) ?b = Inr (?st, cp)"
    using decode_dfa [of ?b "es_state d"] room by (simp add: cp_def)
  let ?d = "d\<lparr>es_state := ?st, es_codepoint := cp\<rparr>"
  consider "?st = 0" | "?st = 1" | "?st \<noteq> 0" "?st \<noteq> 1" by blast
  then show ?case
  proof cases
    case 1
    obtain d' where d': "escape_accept ea c ?d = Inr d'" "esc_ready d'"
      using escape_accept_ok [of ?d ea c] escape_codepoint_room [of ea cp c] room 1 by (auto split: if_splits)
    show ?thesis using 2(1) [OF dec refl refl _ d'(1) esc_ready_inv [OF d'(2)]] dec d'(1) 1 by (simp add: UTF8_ACCEPT_def)
  next
    case 2
    note st = this
    obtain d' where d': "escape_reject eh ea ?d = Inr d'" "esc_inv ea d'"
      using escape_reject_ok [OF \<open>esc_inv ea d\<close>, of ?d eh] by auto
    have "eh \<noteq> strict \<Longrightarrow> es_undumped d > 0 \<Longrightarrow> ?thesis"
      using "2.IH"(2) [OF dec refl refl _ _ _ d'(1) _ d'(2)] dec d'(1) st by (simp add: UTF8_ACCEPT_def UTF8_REJECT_def)
    moreover have "eh \<noteq> strict \<Longrightarrow> es_undumped d = 0 \<Longrightarrow> ?thesis"
      using "2.IH"(3) [OF dec refl refl _ _ _ d'(1) _ d'(2)] dec d'(1) st by (simp add: UTF8_ACCEPT_def UTF8_REJECT_def)
    moreover have "eh = strict \<Longrightarrow> ?thesis" using dec st by (auto simp: UTF8_ACCEPT_def UTF8_REJECT_def)
    ultimately show ?thesis by blast
  next
    case 3
    let ?d1 = "?d\<lparr>es_buffer := es_buffer d @ (if ea then [] else [c])\<rparr>"
    have p: "(if ea then Inr ?d else put_bytes 1 [c] ?d) = Inr ?d1" using room by (auto simp: put_bytes_def split: if_splits)
    note inv = \<open>esc_inv ea d\<close> [unfolded esc_inv_def]
    have n: "2 \<le> ?st" "?st \<le> 8" "es_undumped d + 1 + length (pend ?st) \<le> 4"
      using dfa_next [OF conjunct1 [OF inv] 3] by blast+
    have l: "es_last_accept d \<le> 499" "es_last_accept d \<le> length (es_buffer d)"
      "length (es_buffer d) \<le> es_last_accept d + (if ea then 0 else es_undumped d)"
      using conjunct2 [OF inv] by blast+
    have "esc_inv ea (?d1\<lparr>es_undumped := es_undumped ?d1 + 1\<rparr>)"
      using n l by (cases ea) (simp_all add: esc_inv_def)
    note IH = "2.IH"(4) [OF dec refl refl _ _ p this]
    have "escape_loop eh ea i (c # cs) d = escape_loop eh ea (i + 1) cs (?d1\<lparr>es_undumped := es_undumped ?d1 + 1\<rparr>)"
      using escape_loop_mid [of d c eh ea i cs] room n(1) unfolding cp_def by (cases ea) simp_all
    then show ?thesis using IH 3 by (simp only: UTF8_ACCEPT_def UTF8_REJECT_def simp_thms)
  qed
qed auto

section \<open>Strings that are not UTF-8\<close>

text \<open>A string that goes on with the bytes a state waits for and is UTF-8 behind them.\<close>

definition utf8_from :: "(int \<times> int) list \<Rightarrow> string \<Rightarrow> bool" where
  "utf8_from rs s \<longleftrightarrow> (\<exists>u v. s = u @ v \<and> list_all2 in_range rs (map of_char u) \<and> utf8 v)"

lemma utf8_from_Nil [simp]: "utf8_from [] s \<longleftrightarrow> utf8 s"
  by (simp add: utf8_from_def)

lemma utf8_from_Cons: "utf8_from rs s \<Longrightarrow> in_range r (of_char c) \<Longrightarrow> utf8_from (r # rs) (c # s)"
  unfolding utf8_from_def by (metis append_Cons list.simps(9) list_all2_Cons)

lemma map_char_of: "map char_of (map (of_char :: char \<Rightarrow> nat) u) = u"
  by (induction u) auto

lemma utf8_from_lead: "byte_ranges (of_char c) = Some rs \<Longrightarrow> utf8_from rs s \<Longrightarrow> utf8 (c # s)"
proof -
  assume r: "byte_ranges (of_char c) = Some rs" and "utf8_from rs s"
  then obtain u v where u: "s = u @ v" "list_all2 in_range rs (map of_char u)" "utf8 v" by (auto simp: utf8_from_def)
  then have "lead_ok (map of_char (c # u))" using r by (simp add: lead_ok_def)
  then obtain cp where "scalar_cp cp" "utf8_codes cp = map of_char (c # u)" using lead_ok_codes by blast
  then have "utf8 (c # u)" using utf8_encode_utf8 [of cp] map_char_of [of "c # u"] by (simp add: utf8_encode_def)
  then show ?thesis using utf8_append [of "c # u" v] u(1,3) by simp
qed

lemma escape_accept_state: "escape_accept ea c d = Inr d' \<Longrightarrow> es_state d' = es_state d"
  by (auto simp: escape_accept_def put_bytes_def Let_def split: if_splits prod.splits)

lemma escape_loop_utf8:
  assumes "escape_loop strict ea i s d = Inr d'" "es_state d' = 0" "es_state d = 0 \<or> 2 \<le> es_state d \<and> es_state d \<le> 8"
  shows "utf8_from (pend (es_state d)) s"
  using assms
proof (induction s arbitrary: i d)
  case Nil
  then show ?case by (simp add: pend_def)
next
  case (Cons c s)
  let ?b = "of_char c :: nat"
  let ?st = "dfa (es_state d) ?b"
  obtain cp where dec: "decode (es_state d) (es_codepoint d) ?b = Inr (?st, cp)"
    using decode_dfa [of ?b "es_state d"] Cons.prems(3) by auto
  have st: "?st \<noteq> 1" using Cons.prems(1) dec by (auto simp: UTF8_ACCEPT_def UTF8_REJECT_def)
  then have n: "?st = 0 \<or> 2 \<le> ?st \<and> ?st \<le> 8"
    using dfa_next [of "es_state d" 0 ?b] Cons.prems(3) pend_length [of "es_state d"] by auto
  obtain d1 j where "escape_loop strict ea j s d1 = Inr d'" "es_state d1 = ?st"
  proof (cases "?st = 0")
    case True
    then obtain d1 where "escape_accept ea c (d\<lparr>es_state := ?st, es_codepoint := cp\<rparr>) = Inr d1"
      "escape_loop strict ea (i + 1) s d1 = Inr d'"
      using Cons.prems(1) dec by (auto simp: UTF8_ACCEPT_def bindr_Inr_iff Let_def)
    then show thesis using that escape_accept_state by fastforce
  next
    case False
    then show thesis
      using that Cons.prems(1) dec st
      by (auto simp: UTF8_ACCEPT_def UTF8_REJECT_def put_bytes_def Let_def split: if_splits)
  qed
  then have rest: "utf8_from (pend ?st) s" using Cons.IH [of j d1] Cons.prems(2) n by simp
  show ?case
  proof (cases "es_state d = 0")
    case True
    show ?thesis
    proof (cases "byte_ranges ?b")
      case None
      then have b: "?b < 0x80" using dfa_start(2) [of ?b] st True by fastforce
      then have "utf8 s" using rest dfa_start(1) [OF b] True by (simp add: pend_def)
      then show ?thesis using utf8_append [OF utf8_ascii_char [OF b]] True by (simp add: pend_def)
    next
      case (Some rs)
      then show ?thesis using utf8_from_lead [OF Some] rest dfa_start(3) [OF Some] True by (simp add: pend_def)
    qed
  next
    case False
    then have s: "2 \<le> es_state d" "es_state d \<le> 8" using Cons.prems(3) by auto
    then obtain r rs where p: "pend (es_state d) = r # rs" using pend_length [of "es_state d"] by (cases "pend (es_state d)") auto
    have "in_range r ?b" "pend ?st = rs"
      using dfa_step [OF s, of ?b] st p by (auto simp: pend_step_def pend_def [of 0] split: if_splits)
    then show ?thesis using utf8_from_Cons rest p by simp
  qed
qed

text \<open>
  The strict serializer accepts exactly the strings that are UTF-8; the other handlers accept all. The
  buffer is never written outside its 512 bytes.
\<close>

lemma dump_escaped_strict:
  "if utf8 s then \<exists>t. dump_escaped strict ea s = Inr t else \<exists>w. dump_escaped strict ea s = Inl (type_error 316 w)"
proof (cases "utf8 s")
  case True
  then show ?thesis using dump_escaped_cps by (fastforce simp: utf8_def)
next
  case False
  let ?d = "\<lparr>es_out = [], es_buffer = [], es_last_accept = 0, es_undumped = 0, es_state = UTF8_ACCEPT, es_codepoint = 0\<rparr>"
  have "esc_inv ea ?d" by (simp add: esc_inv_def UTF8_ACCEPT_def)
  then consider d where "escape_loop strict ea 0 s ?d = Inr d" | w where "escape_loop strict ea 0 s ?d = Inl (type_error 316 w)"
    using escape_loop_safe by blast
  then show ?thesis
  proof cases
    case (1 d)
    then have "es_state d \<noteq> 0" using escape_loop_utf8 [OF 1] False by (auto simp: UTF8_ACCEPT_def pend_def)
    then show ?thesis using 1 False by (auto simp: dump_escaped_def UTF8_ACCEPT_def)
  qed (use False in \<open>auto simp: dump_escaped_def\<close>)
qed

lemma dump_escaped_lenient: "eh \<noteq> strict \<Longrightarrow> \<exists>t. dump_escaped eh ea s = Inr t"
proof -
  let ?d = "\<lparr>es_out = [], es_buffer = [], es_last_accept = 0, es_undumped = 0, es_state = UTF8_ACCEPT, es_codepoint = 0\<rparr>"
  assume eh: "eh \<noteq> strict"
  have "esc_inv ea ?d" by (simp add: esc_inv_def UTF8_ACCEPT_def)
  then obtain d where "escape_loop eh ea 0 s ?d = Inr d" using escape_loop_safe eh by blast
  then show ?thesis using eh by (cases eh) (auto simp: dump_escaped_def)
qed

section \<open>Strings that are written as they are\<close>

definition plain_char :: "char \<Rightarrow> bool" where
  "plain_char c \<longleftrightarrow> c \<in> {CHR 0x20 .. CHR 0x7E} \<and> c \<noteq> CHR 0x22 \<and> c \<noteq> CHR 0x5C"

lemma plain_char_escape:
  assumes "plain_char c"
  shows "scalar_cp (of_char c)" "utf8_encode (of_char c) = [c]" "esc_cp ea (of_char c) = [c]"
proof -
  have c: "(0x20 :: nat) \<le> of_char c" "(of_char c :: nat) \<le> 0x7E" "(of_char c :: nat) \<noteq> 0x22" "(of_char c :: nat) \<noteq> 0x5C"
  proof -
    have "char_of (0x22 :: nat) = CHR 0x22" "char_of (0x5C :: nat) = CHR 0x5C" by code_simp+
    then show "(of_char c :: nat) \<noteq> 0x22" "(of_char c :: nat) \<noteq> 0x5C" using assms by (metis char_of_char plain_char_def)+
  qed (use assms in \<open>simp_all add: plain_char_def less_eq_char_def\<close>)
  show "scalar_cp (of_char c)" "utf8_encode (of_char c) = [c]"
    using c by (simp_all add: scalar_cp_def utf8_encode_def utf8_codes_def)
  show "esc_cp ea (of_char c) = [c]" using c by (simp add: esc_cp_def escape_codepoint_def)
qed

lemma dump_escaped_plain: "list_all plain_char s \<Longrightarrow> dump_escaped eh ea s = Inr s"
proof -
  assume s: "list_all plain_char s"
  then have "concat (map utf8_encode (map of_char s)) = s" "concat (map (esc_cp ea) (map of_char s)) = s"
    "list_all scalar_cp (map of_char s)"
    by (induction s) (simp_all add: plain_char_escape)
  then show ?thesis using dump_escaped_cps by metis
qed

end
