(* ===== verification/Json_Parser.thy ===== *)
theory Json_Parser
  imports Json_Lexer
begin

text \<open>
  The parser of the JSON library: the classes \<open>json_sax_dom_parser\<close> and \<open>parser\<close> of
  \<^verbatim>\<open>base/internal/json/json.hpp\<close>, without a callback and with exceptions, as \<open>json::parse\<close> runs them. The
  pointers into the value under construction are paths from its root.
\<close>

section \<open>The value under construction\<close>

datatype step = SIndex nat | SKey string

type_synonym path = "step list"

text \<open>What a pointer points to, and a write through it; outside the value nothing happens.\<close>

fun json_get :: "path \<Rightarrow> json \<Rightarrow> json" where
  "json_get [] j = j"
| "json_get (SIndex i # p) (JArray js) = (if i < length js then json_get p (js ! i) else JDiscarded)"
| "json_get (SKey k # p) (JObject kvs) = (case map_find kvs k of Some v \<Rightarrow> json_get p v | None \<Rightarrow> JDiscarded)"
| "json_get _ _ = JDiscarded"

fun json_write :: "path \<Rightarrow> (json \<Rightarrow> json) \<Rightarrow> json \<Rightarrow> json" where
  "json_write [] f j = f j"
| "json_write (SIndex i # p) f (JArray js) = (if i < length js then JArray (js[i := json_write p f (js ! i)]) else JArray js)"
| "json_write (SKey k # p) f (JObject kvs) =
     (case map_find kvs k of Some v \<Rightarrow> JObject (map_set kvs k (json_write p f v)) | None \<Rightarrow> JObject kvs)"
| "json_write _ f j = j"

record dom =
  sx_root :: json
  sx_ref_stack :: "path list"
  sx_object_element :: "path option"

definition dom_new :: dom where
  "dom_new = \<lparr>sx_root = JNull, sx_ref_stack = [], sx_object_element = None\<rparr>"

text \<open>\<open>ref_stack.back()->m_value.array->emplace_back(v)\<close>.\<close>

fun emplace_back :: "json \<Rightarrow> json \<Rightarrow> json" where
  "emplace_back v (JArray js) = JArray (js @ [v])"
| "emplace_back v j = j"

definition handle_value :: "json \<Rightarrow> dom \<Rightarrow> (path \<times> dom) res" where
  "handle_value v d =
     (if sx_ref_stack d = [] then Inr ([], d\<lparr>sx_root := v\<rparr>)
      else
        let p = last (sx_ref_stack d) in
        case json_get p (sx_root d) of
          JArray js \<Rightarrow> Inr (p @ [SIndex (length js)], d\<lparr>sx_root := json_write p (emplace_back v) (sx_root d)\<rparr>)
        | JObject kvs \<Rightarrow>
            (case sx_object_element d of
               None \<Rightarrow> Inl AssertFailed
             | Some e \<Rightarrow> Inr (e, d\<lparr>sx_root := json_write e (\<lambda>_. v) (sx_root d)\<rparr>))
        | _ \<Rightarrow> Inl AssertFailed)"

text \<open>\<open>null\<close>, \<open>boolean\<close>, \<open>number_integer\<close>, \<open>number_unsigned\<close>, \<open>number_float\<close> and \<open>string\<close>.\<close>

definition dom_value :: "json \<Rightarrow> dom \<Rightarrow> dom res" where
  "dom_value v d = bindr (handle_value v d) (\<lambda>(_, d). Inr d)"

text \<open>The length is \<open>static_cast<std::size_t>(-1)\<close>, so the size check is off.\<close>

definition sax_start_object :: "dom \<Rightarrow> dom res" where
  "sax_start_object d = bindr (handle_value (JObject []) d) (\<lambda>(p, d). Inr (d\<lparr>sx_ref_stack := sx_ref_stack d @ [p]\<rparr>))"

definition sax_start_array :: "dom \<Rightarrow> dom res" where
  "sax_start_array d = bindr (handle_value (JArray []) d) (\<lambda>(p, d). Inr (d\<lparr>sx_ref_stack := sx_ref_stack d @ [p]\<rparr>))"

text \<open>\<open>operator[]\<close> of the map adds null at a new key.\<close>

fun add_key :: "string \<Rightarrow> json \<Rightarrow> json" where
  "add_key k (JObject kvs) = JObject (map_insert kvs k JNull)"
| "add_key k j = j"

definition is_object :: "json \<Rightarrow> bool" where
  "is_object j \<longleftrightarrow> (case j of JObject _ \<Rightarrow> True | _ \<Rightarrow> False)"

definition is_array :: "json \<Rightarrow> bool" where
  "is_array j \<longleftrightarrow> (case j of JArray _ \<Rightarrow> True | _ \<Rightarrow> False)"

definition dom_key :: "string \<Rightarrow> dom \<Rightarrow> dom res" where
  "dom_key k d =
     bindr (assertr (sx_ref_stack d \<noteq> [])) (\<lambda>_.
     let p = last (sx_ref_stack d) in
     bindr (assertr (is_object (json_get p (sx_root d)))) (\<lambda>_.
     Inr (d\<lparr>sx_root := json_write p (add_key k) (sx_root d), sx_object_element := Some (p @ [SKey k])\<rparr>)))"

definition sax_end_object :: "dom \<Rightarrow> dom res" where
  "sax_end_object d =
     bindr (assertr (sx_ref_stack d \<noteq> [])) (\<lambda>_.
     bindr (assertr (is_object (json_get (last (sx_ref_stack d)) (sx_root d)))) (\<lambda>_.
     Inr (d\<lparr>sx_ref_stack := butlast (sx_ref_stack d)\<rparr>)))"

definition sax_end_array :: "dom \<Rightarrow> dom res" where
  "sax_end_array d =
     bindr (assertr (sx_ref_stack d \<noteq> [])) (\<lambda>_.
     bindr (assertr (is_array (json_get (last (sx_ref_stack d)) (sx_root d)))) (\<lambda>_.
     Inr (d\<lparr>sx_ref_stack := butlast (sx_ref_stack d)\<rparr>)))"

section \<open>The parser\<close>

record parser =
  ps_last_token :: token_type
  ps_lexer :: lexer

definition get_token :: "parser \<Rightarrow> parser" where
  "get_token p = (case lx_scan (ps_lexer p) of (t, l) \<Rightarrow> p\<lparr>ps_last_token := t, ps_lexer := l\<rparr>)"

definition parser_new :: "string \<Rightarrow> bool \<Rightarrow> parser" where
  "parser_new input comments = get_token \<lparr>ps_last_token = uninitialized, ps_lexer = lexer_new input comments\<rparr>"

definition position_string :: "position_t \<Rightarrow> string" where
  "position_string pos =
     '' at line '' @ show_nat (lines_read pos + 1) @ '', column '' @ show_nat (chars_read_current_line pos)"

definition parse_error_exn :: "nat \<Rightarrow> position_t \<Rightarrow> string \<Rightarrow> cpp_exn" where
  "parse_error_exn i pos what_arg =
     JsonError (c_str (exception_name ''parse_error'' i @ ''parse error'' @ position_string pos @ '': '' @ what_arg))"

definition exception_message :: "parser \<Rightarrow> token_type \<Rightarrow> string \<Rightarrow> string" where
  "exception_message p expected context =
     ''syntax error '' @ (if context \<noteq> [] then ''while parsing '' @ context @ '' '' else []) @ ''- '' @
     (if ps_last_token p = parse_error
      then lx_error_message (ps_lexer p) @ ''; last read: '' @ [CHR 0x27] @ get_token_string (ps_lexer p) @ [CHR 0x27]
      else ''unexpected '' @ token_type_name (ps_last_token p)) @
     (if expected \<noteq> uninitialized then ''; expected '' @ token_type_name expected else [])"

text \<open>
  Every end of the parser that is not a failed assertion of its own: when an assertion of the lexer has
  failed, the program has ended there instead.
\<close>

definition lexer_checked :: "parser \<Rightarrow> 'a res \<Rightarrow> 'a res" where
  "lexer_checked p r = (if lx_failed (ps_lexer p) then Inl AssertFailed else r)"

text \<open>\<open>sax->parse_error\<close> throws.\<close>

definition syntax_error :: "parser \<Rightarrow> token_type \<Rightarrow> string \<Rightarrow> 'a res" where
  "syntax_error p expected context = lexer_checked p
     (Inl (parse_error_exn 101 (lx_position (ps_lexer p)) (exception_message p expected context)))"

text \<open>A token that is a value by itself.\<close>

definition scalar_value :: "parser \<Rightarrow> json option" where
  "scalar_value p =
     (case ps_last_token p of
        literal_false \<Rightarrow> Some (JBool False)
      | literal_null \<Rightarrow> Some JNull
      | literal_true \<Rightarrow> Some (JBool True)
      | value_integer \<Rightarrow> Some (JInt (lx_value_integer (ps_lexer p)))
      | value_string \<Rightarrow> Some (JString (lx_token_buffer (ps_lexer p)))
      | value_unsigned \<Rightarrow> Some (JUint (lx_value_unsigned (ps_lexer p)))
      | value_float \<Rightarrow> Some (JFloat (lx_value_float (ps_lexer p)))
      | _ \<Rightarrow> None)"

text \<open>The key and the separator of a member; the last token has been read.\<close>

definition parse_key :: "parser \<Rightarrow> dom \<Rightarrow> (parser \<times> dom) res" where
  "parse_key p d =
     (if ps_last_token p \<noteq> value_string then syntax_error p value_string ''object key''
      else
        bindr (dom_key (lx_token_buffer (ps_lexer p)) d) (\<lambda>d.
        let p = get_token p in
        if ps_last_token p \<noteq> name_separator then syntax_error p name_separator ''object separator''
        else Inr (get_token p, d)))"

text \<open>
  One pass through the body of the loop of \<open>sax_parse_internal\<close>: \<open>Inl\<close> when the function returns, \<open>Inr\<close>
  with the parser, the value, the stack of states and \<open>skip_to_state_evaluation\<close> when it continues.
\<close>

definition state_evaluation :: "parser \<Rightarrow> dom \<Rightarrow> bool list \<Rightarrow> ((parser \<times> dom) + (parser \<times> dom \<times> bool list \<times> bool)) res" where
  "state_evaluation p d states =
     (if states = [] then Inr (Inl (p, d))
      else if last states
      then
        let p = get_token p in
        if ps_last_token p = value_separator then Inr (Inr (get_token p, d, states, False))
        else if ps_last_token p = end_array
        then bindr (sax_end_array d) (\<lambda>d. bindr (assertr (states \<noteq> [])) (\<lambda>_. Inr (Inr (p, d, butlast states, True))))
        else syntax_error p end_array ''array''
      else
        let p = get_token p in
        if ps_last_token p = value_separator
        then bindr (parse_key (get_token p) d) (\<lambda>(p, d). Inr (Inr (p, d, states, False)))
        else if ps_last_token p = end_object
        then bindr (sax_end_object d) (\<lambda>d. bindr (assertr (states \<noteq> [])) (\<lambda>_. Inr (Inr (p, d, butlast states, True))))
        else syntax_error p end_object ''object'')"

definition sax_parse_step :: "parser \<Rightarrow> dom \<Rightarrow> bool list \<Rightarrow> bool \<Rightarrow> ((parser \<times> dom) + (parser \<times> dom \<times> bool list \<times> bool)) res" where
  "sax_parse_step p d states skip =
     (if skip then state_evaluation p d states
      else if ps_last_token p = begin_object
      then
        bindr (sax_start_object d) (\<lambda>d.
        let p = get_token p in
        if ps_last_token p = end_object then bindr (sax_end_object d) (\<lambda>d. state_evaluation p d states)
        else bindr (parse_key p d) (\<lambda>(p, d). Inr (Inr (p, d, states @ [False], False))))
      else if ps_last_token p = begin_array
      then
        bindr (sax_start_array d) (\<lambda>d.
        let p = get_token p in
        if ps_last_token p = end_array then bindr (sax_end_array d) (\<lambda>d. state_evaluation p d states)
        else Inr (Inr (p, d, states @ [True], False)))
      else
        case scalar_value p of
          Some v \<Rightarrow>
            if ps_last_token p = value_float \<and> \<not> isfinite (lx_value_float (ps_lexer p))
            then lexer_checked p
              (Inl (out_of_range 406 (''number overflow parsing '' @ [CHR 0x27] @ get_token_string (ps_lexer p) @ [CHR 0x27])))
            else bindr (dom_value v d) (\<lambda>d. state_evaluation p d states)
        | None \<Rightarrow>
            if ps_last_token p = parse_error then syntax_error p uninitialized ''value''
            else syntax_error p literal_or_value ''value'')"

text \<open>The loop ends: every pass that goes on has read a token.\<close>

definition good_token :: "parser \<Rightarrow> bool" where
  "good_token p \<longleftrightarrow> ps_last_token p \<noteq> parse_error \<and> ps_last_token p \<noteq> end_of_input"

definition token_left :: "parser \<Rightarrow> nat" where
  "token_left p = 2 * length (inp (ps_lexer p)) + (if good_token p then 1 else 0)"

lemma syntax_error_fails: "\<exists>e. syntax_error p t c = Inl e"
  by (simp add: syntax_error_def lexer_checked_def)

lemma lexer_checked_Inl [simp]: "lexer_checked p (Inl e) \<noteq> Inr x"
  by (simp add: lexer_checked_def)

lemma get_token_left: "good_token p \<or> good_token (get_token p) \<Longrightarrow> token_left (get_token p) < token_left p"
  using scan_progress [of "ps_lexer p"]
  by (cases "lx_scan (ps_lexer p)") (auto simp: token_left_def get_token_def good_token_def)

lemma parse_key_left: "parse_key p d = Inr (p', d') \<Longrightarrow> token_left p' < token_left p"
proof -
  assume k: "parse_key p d = Inr (p', d')"
  then have "good_token p" "good_token (get_token p)" "p' = get_token (get_token p)"
    by (auto simp: parse_key_def Let_def syntax_error_def good_token_def bindr_Inr_iff split: if_splits)
  then show ?thesis using get_token_left [of p] get_token_left [of "get_token p"] by simp
qed

lemma state_evaluation_left:
  assumes "state_evaluation p d states = Inr (Inr (p', d', states', skip'))"
  shows "token_left p' < token_left p"
proof -
  let ?p1 = "get_token p"
  have g: "good_token ?p1"
    and "p' = ?p1 \<or> p' = get_token ?p1 \<or> (\<exists>d''. parse_key (get_token ?p1) d = Inr (p', d''))"
    using assms by (auto simp: state_evaluation_def syntax_error_def good_token_def Let_def bindr_Inr_iff split: if_splits)
  then show ?thesis
    using get_token_left [of p] get_token_left [of ?p1] parse_key_left [of "get_token ?p1" d p'] by auto
qed

lemma sax_parse_step_left:
  assumes "sax_parse_step p d states skip = Inr (Inr (p', d', states', skip'))"
  shows "token_left p' < token_left p"
proof (cases "skip \<or> scalar_value p \<noteq> None")
  case True
  then show ?thesis
    using assms state_evaluation_left
    by (fastforce simp: sax_parse_step_def scalar_value_def bindr_Inr_iff split: if_splits token_type.splits)
next
  case False
  then have g: "good_token p" and "p' = get_token p \<or>
      (\<exists>d1 d''. parse_key (get_token p) d1 = Inr (p', d'')) \<or>
      (\<exists>d1. state_evaluation (get_token p) d1 states = Inr (Inr (p', d', states', skip')))"
    using assms
    by (auto simp: sax_parse_step_def syntax_error_def good_token_def Let_def bindr_Inr_iff split: if_splits)
  then show ?thesis
    using get_token_left [of p] parse_key_left state_evaluation_left by (meson less_trans)
qed

function sax_parse_internal :: "parser \<Rightarrow> dom \<Rightarrow> bool list \<Rightarrow> bool \<Rightarrow> (parser \<times> dom) res" where
  "sax_parse_internal p d states skip =
     (case sax_parse_step p d states skip of
        Inl e \<Rightarrow> Inl e
      | Inr (Inl r) \<Rightarrow> Inr r
      | Inr (Inr (p, d, states, skip)) \<Rightarrow> sax_parse_internal p d states skip)"
  by pat_completeness auto
termination
  by (relation "measure (\<lambda>(p, d, states, skip). token_left p)") (auto dest: sax_parse_step_left)

declare sax_parse_internal.simps [simp del]

text \<open>\<open>parser::parse\<close> with \<open>strict\<close>, and \<open>json::parse\<close> of a text.\<close>

definition parser_parse_strict :: "parser \<Rightarrow> json res" where
  "parser_parse_strict p =
     bindr (sax_parse_internal p dom_new [] False) (\<lambda>(p, d).
     let p = get_token p in
     if ps_last_token p \<noteq> end_of_input then syntax_error p end_of_input ''value''
     else lexer_checked p (Inr (sx_root d)))"

definition json_parse :: "string \<Rightarrow> json res" where
  "json_parse s = parser_parse_strict (parser_new s False)"

end
