(* ===== verification/Json_Tokens.thy ===== *)
theory Json_Tokens
  imports Json_Utf8 Json_Parser
begin

text \<open>
  The lexer against the grammar of JSON tokens (RFC 8259): which texts give which token. Strings are
  described by the pieces they are written with, numbers by their digits.
\<close>

section \<open>Where the lexer stands\<close>

text \<open>\<open>lx_at l s\<close>: the next characters are \<open>s\<close>. \<open>lx_on l s\<close>: the current character is the first one of \<open>s\<close>.\<close>

definition lx_at :: "lexer \<Rightarrow> string \<Rightarrow> bool" where
  "lx_at l s \<longleftrightarrow> lx_inv l \<and> inp l = s \<and> \<not> lx_ignore_comments l"

definition first_code :: "string \<Rightarrow> int" where
  "first_code s = (case s of [] \<Rightarrow> eof | c # _ \<Rightarrow> of_char c)"

definition lx_on :: "lexer \<Rightarrow> string \<Rightarrow> bool" where
  "lx_on l s \<longleftrightarrow> lx_inv l \<and> \<not> lx_next_unget l \<and> lx_current l = first_code s \<and> lx_ia l = tl s \<and> \<not> lx_ignore_comments l"

lemma first_code_simps [simp]: "first_code [] = eof" "first_code (c # s) = of_char c"
  by (simp_all add: first_code_def)

lemma of_char_bounds [simp]: "0 \<le> (of_char c :: int)" "(of_char c :: int) < 256" "- 1 \<le> (of_char c :: int)"
  unfolding of_char_int by simp_all

lemma of_char_not_eof [simp]: "(of_char c :: int) \<noteq> eof" "eof \<noteq> (of_char c :: int)"
  using of_char_bounds(1) [of c] unfolding eof_def by linarith+

lemma lx_at_get: "lx_at l s \<Longrightarrow> lx_on (lx_get l) s"
proof -
  assume at: "lx_at l s"
  show ?thesis
  proof (cases "lx_next_unget l")
    case True
    then show ?thesis
      using at of_char_to_char [of "lx_current l"]
      by (cases "lx_current l = eof") (auto simp: lx_at_def lx_on_def lx_inv_def inp_def get_fields eof_def)
  next
    case False
    then show ?thesis
      using at by (auto simp: lx_at_def lx_on_def lx_inv_def inp_def get_fields eof_def first_code_def split: list.splits)
  qed
qed

lemma lx_on_at: "lx_on l (c # s) \<Longrightarrow> lx_at l s"
  by (simp add: lx_on_def lx_at_def inp_def)

lemma lx_on_unget: "lx_on l s \<Longrightarrow> lx_at (lx_unget l) s"
  by (cases s) (auto simp: lx_on_def lx_at_def inp_def lx_inv_def)

lemma lx_on_current: "lx_on l s \<Longrightarrow> lx_current l = first_code s"
  by (simp add: lx_on_def)

lemma lx_on_fields:
  "lx_on (lx_add c l) s \<longleftrightarrow> lx_on l s" "lx_on (lx_reset l) s \<longleftrightarrow> lx_on l s" "lx_on (lx_error m l) s \<longleftrightarrow> lx_on l s"
  "lx_at (lx_add c l) s \<longleftrightarrow> lx_at l s" "lx_at (lx_reset l) s \<longleftrightarrow> lx_at l s"
  by (simp_all add: lx_on_def lx_at_def lx_inv_def lx_reset_def lx_error_def inp_def)

lemma lx_on_assert [simp]: "lx_on (lx_assert b l) s \<longleftrightarrow> lx_on l s" "lx_at (lx_assert b l) s \<longleftrightarrow> lx_at l s"
  by (simp_all add: lx_on_def lx_at_def)

section \<open>White space\<close>

definition ws_char :: "char \<Rightarrow> bool" where
  "ws_char c \<longleftrightarrow> c = CHR '' '' \<or> c = CHR 0x09 \<or> c = CHR 0x0A \<or> c = CHR 0x0D"

definition jws :: "string \<Rightarrow> bool" where
  "jws w \<longleftrightarrow> list_all ws_char w"

text \<open>A text that starts with a token or is empty.\<close>

definition starts :: "string \<Rightarrow> bool" where
  "starts s \<longleftrightarrow> s = [] \<or> \<not> ws_char (hd s) \<and> hd s \<noteq> CHR 0xEF"

lemma of_char_eq_code: "(of_char c :: int) = of_char d \<longleftrightarrow> c = d"
  by (rule of_char_eq_iff)

lemma is_ws_char: "is_ws (of_char c) \<longleftrightarrow> ws_char c"
proof -
  have "(0x20 :: int) = of_char (CHR '' '')" "(0x09 :: int) = of_char (CHR 0x09)" "(0x0A :: int) = of_char (CHR 0x0A)"
    "(0x0D :: int) = of_char (CHR 0x0D)" by simp_all
  then show ?thesis unfolding is_ws_def ws_char_def by (simp only: of_char_eq_code)
qed

lemma skip_ws: "lx_at l (w @ s) \<Longrightarrow> jws w \<Longrightarrow> starts s \<Longrightarrow> lx_on (skip_whitespace l) s"
proof (induction w arbitrary: l)
  case Nil
  then have on: "lx_on (lx_get l) s" using lx_at_get by simp
  have "\<not> is_ws (lx_current (lx_get l))"
    using lx_on_current [OF on] Nil.prems(3)
    by (cases s) (auto simp: is_ws_char starts_def, simp add: is_ws_def eof_def)
  then show ?case using on by (subst skip_whitespace_eq) simp
next
  case (Cons c w)
  then have on: "lx_on (lx_get l) (c # w @ s)" using lx_at_get [OF Cons.prems(1)] by simp
  then have "is_ws (lx_current (lx_get l))" using Cons.prems(2) lx_on_current [OF on] by (simp add: is_ws_char jws_def)
  then show ?case
    using Cons.IH [OF lx_on_at [OF on]] Cons.prems by (subst skip_whitespace_eq) (simp add: jws_def)
qed

lemma skip_bom_plain:
  assumes "lx_at l s" "s = [] \<or> hd s \<noteq> CHR 0xEF"
  shows "\<exists>l'. skip_bom l = (True, l') \<and> lx_at l' s"
proof -
  have on: "lx_on (lx_get l) s" using lx_at_get [OF assms(1)] .
  have e: "(0xEF :: int) = of_char (CHR 0xEF)" by simp
  have "lx_current (lx_get l) \<noteq> 0xEF"
    using lx_on_current [OF on] assms(2) unfolding e by (cases s) (simp_all only: first_code_simps of_char_eq_code list.sel of_char_not_eof not_False_eq_True simp_thms list.distinct)
  then show ?thesis using lx_on_unget [OF on] by (simp add: skip_bom_def Let_def)
qed

text \<open>Behind white space the lexer reaches the switch on the first character of the token.\<close>

lemma scan_start:
  assumes "lx_at l (w @ s)" "jws w" "starts s"
  shows "\<exists>l'. lx_on l' s \<and> lx_scan l = scan_token l'"
proof -
  have "w @ s = [] \<or> hd (w @ s) \<noteq> CHR 0xEF"
    using assms(2,3) by (cases w) (auto simp: starts_def jws_def ws_char_def)
  then obtain l1 where l1: "(if chars_read_total (lx_position l) = 0 then skip_bom l else (True, l)) = (True, l1)" "lx_at l1 (w @ s)"
    using skip_bom_plain [OF assms(1)] assms(1) by (cases "chars_read_total (lx_position l) = 0") auto
  have on: "lx_on (skip_whitespace l1) s" using skip_ws [OF l1(2) assms(2,3)] .
  have "skip_comments (skip_whitespace l1) = (True, skip_whitespace l1)"
    using on by (subst skip_comments.simps) (simp add: lx_on_def)
  then show ?thesis using l1(1) on by (intro exI [of _ "skip_whitespace l1"]) (simp add: lx_scan_def)
qed

section \<open>Tokens of one character and literals\<close>

text \<open>\<open>scans s t v r\<close>: at \<open>s\<close> the lexer gives the token \<open>t\<close> with the value \<open>v\<close> and stands at \<open>r\<close>.\<close>

definition scans :: "string \<Rightarrow> token_type \<Rightarrow> json option \<Rightarrow> string \<Rightarrow> bool" where
  "scans s t v r \<longleftrightarrow>
     (\<forall>l. lx_at l s \<longrightarrow> (\<exists>l'. lx_scan l = (t, l') \<and> lx_at l' r \<and> (\<forall>p. scalar_value (p\<lparr>ps_last_token := t, ps_lexer := l'\<rparr>) = v)))"

lemma scansI:
  assumes "jws w" "starts s"
    and "\<And>l. lx_on l s \<Longrightarrow> \<exists>l'. scan_token l = (t, l') \<and> lx_at l' r \<and> (\<forall>p. scalar_value (p\<lparr>ps_last_token := t, ps_lexer := l'\<rparr>) = v)"
  shows "scans (w @ s) t v r"
  unfolding scans_def using scan_start [OF _ assms(1,2)] assms(3) by metis

definition structural :: "char \<Rightarrow> token_type option" where
  "structural c =
     (if c = CHR ''['' then Some begin_array else if c = CHR '']'' then Some end_array
      else if c = CHR ''{'' then Some begin_object else if c = CHR ''}'' then Some end_object
      else if c = CHR '':'' then Some name_separator else if c = CHR '','' then Some value_separator else None)"

lemma scans_structural:
  assumes "jws w" "structural c = Some t"
  shows "scans (w @ c # r) t None r"
proof (rule scansI [OF assms(1)])
  show "starts (c # r)" using assms(2) by (auto simp: starts_def structural_def ws_char_def split: if_splits)
  fix l assume on: "lx_on l (c # r)"
  then show "\<exists>l'. scan_token l = (t, l') \<and> lx_at l' r \<and> (\<forall>p. scalar_value (p\<lparr>ps_last_token := t, ps_lexer := l'\<rparr>) = None)"
    using lx_on_current [OF on] lx_on_at [OF on] assms(2)
    by (auto simp: scan_token_def structural_def scalar_value_def of_char_eq_code simp del: of_char_Char split: if_splits)
qed

lemma scan_literal_loop_ok: "lx_at l (cs @ r) \<Longrightarrow> \<exists>l'. scan_literal_loop cs t l = (t, l') \<and> lx_at l' r"
proof (induction cs arbitrary: l)
  case (Cons c cs)
  have on: "lx_on (lx_get l) (c # cs @ r)" using lx_at_get [OF Cons.prems] by simp
  then show ?case using Cons.IH [OF lx_on_at [OF on]] lx_on_current [OF on] by (simp add: Let_def)
qed simp

lemma scan_literal_ok: "lx_on l (c # cs @ r) \<Longrightarrow> \<exists>l'. scan_literal (c # cs) t l = (t, l') \<and> lx_at l' r"
  unfolding scan_literal_def Let_def using scan_literal_loop_ok [OF lx_on_at, of _ c cs r] by simp

lemma scans_true: "jws w \<Longrightarrow> scans (w @ ''true'' @ r) literal_true (Some (JBool True)) r"
proof (rule scansI)
  fix l assume on: "lx_on l (''true'' @ r)"
  obtain l' where "scan_literal ''true'' literal_true l = (literal_true, l')" "lx_at l' r"
    using scan_literal_ok [of l "CHR ''t''" "''rue''" r literal_true] on by auto
  then show "\<exists>l'. scan_token l = (literal_true, l') \<and> lx_at l' r \<and>
      (\<forall>p. scalar_value (p\<lparr>ps_last_token := literal_true, ps_lexer := l'\<rparr>) = Some (JBool True))"
    using lx_on_current [OF on] by (simp add: scan_token_def scalar_value_def)
qed (simp_all add: starts_def ws_char_def)

lemma scans_false: "jws w \<Longrightarrow> scans (w @ ''false'' @ r) literal_false (Some (JBool False)) r"
proof (rule scansI)
  fix l assume on: "lx_on l (''false'' @ r)"
  obtain l' where "scan_literal ''false'' literal_false l = (literal_false, l')" "lx_at l' r"
    using scan_literal_ok [of l "CHR ''f''" "''alse''" r literal_false] on by auto
  then show "\<exists>l'. scan_token l = (literal_false, l') \<and> lx_at l' r \<and>
      (\<forall>p. scalar_value (p\<lparr>ps_last_token := literal_false, ps_lexer := l'\<rparr>) = Some (JBool False))"
    using lx_on_current [OF on] by (simp add: scan_token_def scalar_value_def)
qed (simp_all add: starts_def ws_char_def)

lemma scans_null: "jws w \<Longrightarrow> scans (w @ ''null'' @ r) literal_null (Some JNull) r"
proof (rule scansI)
  fix l assume on: "lx_on l (''null'' @ r)"
  obtain l' where "scan_literal ''null'' literal_null l = (literal_null, l')" "lx_at l' r"
    using scan_literal_ok [of l "CHR ''n''" "''ull''" r literal_null] on by auto
  then show "\<exists>l'. scan_token l = (literal_null, l') \<and> lx_at l' r \<and>
      (\<forall>p. scalar_value (p\<lparr>ps_last_token := literal_null, ps_lexer := l'\<rparr>) = Some JNull)"
    using lx_on_current [OF on] by (simp add: scan_token_def scalar_value_def)
qed (simp_all add: starts_def ws_char_def)

text \<open>The end of the text; a NUL byte ends it too.\<close>

lemma scans_end: "jws w \<Longrightarrow> scans (w @ []) end_of_input None []" "jws w \<Longrightarrow> scans (w @ NUL # r) end_of_input None r"
proof -
  show "jws w \<Longrightarrow> scans (w @ []) end_of_input None []"
  proof (rule scansI)
    fix l assume on: "lx_on l []"
    then show "\<exists>l'. scan_token l = (end_of_input, l') \<and> lx_at l' [] \<and>
      (\<forall>p. scalar_value (p\<lparr>ps_last_token := end_of_input, ps_lexer := l'\<rparr>) = None)"
      using lx_on_current [OF on]
      by (auto simp: scan_token_def scalar_value_def lx_on_def lx_at_def inp_def is_digit_code_def eof_def)
  qed (simp_all add: starts_def)
  show "jws w \<Longrightarrow> scans (w @ NUL # r) end_of_input None r"
  proof (rule scansI)
    fix l assume on: "lx_on l (NUL # r)"
    have "lx_current l = 0" using lx_on_current [OF on] by (simp add: NUL_def)
    then show "\<exists>l'. scan_token l = (end_of_input, l') \<and> lx_at l' r \<and>
      (\<forall>p. scalar_value (p\<lparr>ps_last_token := end_of_input, ps_lexer := l'\<rparr>) = None)"
      using lx_on_at [OF on] by (auto simp: scan_token_def scalar_value_def is_digit_code_def)
  qed (simp_all add: starts_def NUL_def ws_char_def)
qed

section \<open>Strings\<close>

definition hex_value :: "char \<Rightarrow> nat option" where
  "hex_value c =
     (let n = of_char c in
      if 0x30 \<le> n \<and> n \<le> 0x39 then Some (n - 0x30)
      else if 0x41 \<le> n \<and> n \<le> 0x46 then Some (n - 0x37)
      else if 0x61 \<le> n \<and> n \<le> 0x66 then Some (n - 0x57)
      else None)"

text \<open>Four hexadecimal digits with the value \<open>n\<close>.\<close>

definition hex4 :: "nat \<Rightarrow> string \<Rightarrow> bool" where
  "hex4 n h \<longleftrightarrow> (\<exists>a b c d va vb vc vd. h = [a, b, c, d] \<and> hex_value a = Some va \<and> hex_value b = Some vb \<and>
     hex_value c = Some vc \<and> hex_value d = Some vd \<and> n = va * 4096 + vb * 256 + vc * 16 + vd)"

definition short_escapes :: "(char \<times> char) list" where
  "short_escapes = [(CHR 0x22, CHR 0x22), (CHR 0x5C, CHR 0x5C), (CHR ''/'', CHR ''/''), (CHR ''b'', CHR 0x08),
     (CHR ''f'', CHR 0x0C), (CHR ''n'', CHR 0x0A), (CHR ''r'', CHR 0x0D), (CHR ''t'', CHR 0x09)]"

text \<open>The string \<open>v\<close> is written as \<open>t\<close> between the quotation marks.\<close>

inductive string_body :: "string \<Rightarrow> string \<Rightarrow> bool" where
  body_end: "string_body [] []"
| body_plain: "string_body v t \<Longrightarrow> 0x20 \<le> (of_char c :: nat) \<Longrightarrow> (of_char c :: nat) < 0x80 \<Longrightarrow> c \<noteq> CHR 0x22 \<Longrightarrow> c \<noteq> CHR 0x5C \<Longrightarrow>
    string_body (c # v) (c # t)"
| body_multi: "string_body v t \<Longrightarrow> scalar_cp cp \<Longrightarrow> 0x80 \<le> cp \<Longrightarrow> string_body (utf8_encode cp @ v) (utf8_encode cp @ t)"
| body_short: "string_body v t \<Longrightarrow> (e, c) \<in> set short_escapes \<Longrightarrow> string_body (c # v) (CHR 0x5C # e # t)"
| body_hex: "string_body v t \<Longrightarrow> hex4 n h \<Longrightarrow> scalar_cp n \<Longrightarrow> string_body (utf8_encode n @ v) (CHR 0x5C # CHR ''u'' # h @ t)"
| body_pair: "string_body v t \<Longrightarrow> hex4 (0xD800 + a) h \<Longrightarrow> a < 0x400 \<Longrightarrow> hex4 (0xDC00 + b) k \<Longrightarrow> b < 0x400 \<Longrightarrow>
    string_body (utf8_encode (0x10000 + a * 0x400 + b) @ v) (CHR 0x5C # CHR ''u'' # h @ CHR 0x5C # CHR ''u'' # k @ t)"

lemma get_codepoint_loop_hex:
  assumes "lx_at l (c # s)" "hex_value c = Some v"
  shows "get_codepoint_loop (f # fs) cp l = get_codepoint_loop fs (cp + int (v * 2 ^ f)) (lx_get l)"
    "lx_at (lx_get l) s" "lx_token_buffer (lx_get l) = lx_token_buffer l"
proof -
  have on: "lx_on (lx_get l) (c # s)" using lx_at_get [OF assms(1)] .
  have c: "lx_current (lx_get l) = int (of_char c)" using lx_on_current [OF on] of_char_int by simp
  show "get_codepoint_loop (f # fs) cp l = get_codepoint_loop fs (cp + int (v * 2 ^ f)) (lx_get l)"
    using assms(2) by (auto simp: c hex_value_def Let_def push_bit_eq_mult of_nat_diff split: if_splits)
  show "lx_at (lx_get l) s" using lx_on_at [OF on] .
  show "lx_token_buffer (lx_get l) = lx_token_buffer l" by (simp add: get_fields)
qed

lemma get_codepoint_hex:
  assumes "hex4 n h" "lx_at l (h @ s)"
  shows "\<exists>l'. get_codepoint l = (int n, l') \<and> lx_at l' s \<and> lx_token_buffer l' = lx_token_buffer l"
proof -
  obtain a b c d va vb vc vd where h: "h = [a, b, c, d]" "hex_value a = Some va" "hex_value b = Some vb"
    "hex_value c = Some vc" "hex_value d = Some vd" "n = va * 4096 + vb * 256 + vc * 16 + vd"
    using assms(1) by (auto simp: hex4_def)
  let ?l = "lx_assert (lx_current l = of_char (CHR ''u'')) l"
  have 0: "lx_at ?l (a # b # c # d # s)" using assms(2) h(1) by simp
  note 1 = get_codepoint_loop_hex [OF 0 h(2)]
  note 2 = get_codepoint_loop_hex [OF 1(2) h(3)]
  note 3 = get_codepoint_loop_hex [OF 2(2) h(4)]
  note 4 = get_codepoint_loop_hex [OF 3(2) h(5)]
  show ?thesis
    using 4(2,3) 3(3) 2(3) 1(3) h(6) unfolding get_codepoint_def 1(1) 2(1) 3(1) 4(1) by (simp add: add.assoc)
qed

lemma or_base: "y < 64 \<Longrightarrow> 0x80 OR int y = int (0x80 + y)" "y < 32 \<Longrightarrow> 0xC0 OR int y = int (0xC0 + y)"
  "y < 16 \<Longrightarrow> 0xE0 OR int y = int (0xE0 + y)" "y < 16 \<Longrightarrow> 0xF0 OR int y = int (0xF0 + y)"
proof -
  have o: "int (push_bit k c) OR int y = int (c * 2 ^ k + y)" if "y < 2 ^ k" for k c y
    using or_shift [OF that, of c] by (simp only: of_nat_or_eq [symmetric] or.commute)
  show "y < 64 \<Longrightarrow> 0x80 OR int y = int (0x80 + y)" using o [of y 6 2] by (simp add: push_bit_eq_mult)
  show "y < 32 \<Longrightarrow> 0xC0 OR int y = int (0xC0 + y)" using o [of y 5 6] by (simp add: push_bit_eq_mult)
  show "y < 16 \<Longrightarrow> 0xE0 OR int y = int (0xE0 + y)" using o [of y 4 14] by (simp add: push_bit_eq_mult)
  show "y < 16 \<Longrightarrow> 0xF0 OR int y = int (0xF0 + y)" using o [of y 4 15] by (simp add: push_bit_eq_mult)
qed

lemma and_63: "int n AND 0x3F = int (n mod 64)"
  using and_low [of n 6] of_nat_and_eq [of n 63, where 'a = int] by simp

lemma to_char_nat: "to_char_type (int n) = char_of n"
  by (simp add: to_char_type_def nat_mod_as_int [symmetric] nat_mod_distrib)

lemma or_char: "y < 64 \<Longrightarrow> to_char_type (0x80 OR int y) = char_of (0x80 + y)" "y < 32 \<Longrightarrow> to_char_type (0xC0 OR int y) = char_of (0xC0 + y)"
  "y < 16 \<Longrightarrow> to_char_type (0xE0 OR int y) = char_of (0xE0 + y)" "y < 16 \<Longrightarrow> to_char_type (0xF0 OR int y) = char_of (0xF0 + y)"
  by (simp_all only: or_base to_char_nat)

lemma add_codepoint_encode:
  assumes "scalar_cp cp"
  shows "lx_token_buffer (add_codepoint (int cp) l) = lx_token_buffer l @ utf8_encode cp"
proof -
  have d: "drop_bit k (int cp) = int (cp div 2 ^ k)" for k by (simp add: drop_bit_eq_div zdiv_int)
  have b: "cp \<le> 0x7FF \<Longrightarrow> cp div 64 < 32" "cp \<le> 0xFFFF \<Longrightarrow> cp div 4096 < 16" "cp div 262144 < 16"
    using assms unfolding scalar_cp_def by linarith+
  show ?thesis
    using b unfolding add_codepoint_def d and_63
    by (auto simp: or_char to_char_nat utf8_encode_def utf8_codes_def)
qed

lemma add_codepoint_at: "lx_at (add_codepoint cp l) s \<longleftrightarrow> lx_at l s"
  by (simp add: add_codepoint_def lx_on_fields)

text \<open>\<open>read_ok f l r v\<close>: the scan goes on behind \<open>f\<close>, stands at \<open>r\<close> and has added \<open>v\<close> to the value.\<close>

definition read_ok :: "bool \<times> lexer \<Rightarrow> lexer \<Rightarrow> string \<Rightarrow> string \<Rightarrow> bool" where
  "read_ok x l r v \<longleftrightarrow> (\<exists>l'. x = (True, l') \<and> lx_at l' r \<and> lx_token_buffer l' = lx_token_buffer l @ v)"

lemma in_range_loop_ok:
  assumes "list_all2 in_range rs bs" "lx_at l (map char_of bs @ s)" "\<And>b. b \<in> set bs \<Longrightarrow> b < 256"
  shows "read_ok (in_range_loop rs l) l s (map char_of bs)"
  using assms
proof (induction rs bs arbitrary: l rule: list_all2_induct)
  case (Cons r rs b bs)
  obtain lo hi where r: "r = (lo, hi)" by fastforce
  have on: "lx_on (lx_get l) (char_of b # map char_of bs @ s)" using lx_at_get [OF Cons.prems(1)] by simp
  have c: "lx_current (lx_get l) = int b" using lx_on_current [OF on] Cons.prems(2) by (simp add: of_char_int)
  let ?l = "lx_add (int b) (lx_get l)"
  have "lx_at ?l (map char_of bs @ s)" using lx_on_at [OF on] by (simp add: lx_on_fields)
  then have "read_ok (in_range_loop rs ?l) ?l s (map char_of bs)" using Cons.IH Cons.prems(2) by simp
  then show ?case using Cons.hyps(1) c r by (simp add: read_ok_def Let_def in_range_def get_fields to_char_nat)
qed (simp add: read_ok_def)

lemma scan_string_multi:
  assumes "lx_on l (utf8_encode cp @ s)" "scalar_cp cp" "0x80 \<le> cp"
  obtains rs where "utf8_ranges (lx_current l) = Some rs" "read_ok (next_byte_in_range rs l) l s (utf8_encode cp)"
    "0x80 \<le> lx_current l"
proof -
  obtain b bs where u: "utf8_codes cp = b # bs" by (cases "utf8_codes cp") (auto simp: utf8_codes_def split: if_splits)
  obtain rs where rs: "byte_ranges b = Some rs" "list_all2 in_range rs bs"
    using utf8_codes_ranges [OF assms(2,3)] u by (auto simp: lead_ok_def)
  have lt: "x \<in> set (b # bs) \<Longrightarrow> x < 256" for x using utf8_codes_less [OF assms(2)] u by simp
  have on: "lx_on l (char_of b # map char_of bs @ s)" using assms(1) u by (simp add: utf8_encode_def)
  have c: "lx_current l = int b" using lx_on_current [OF on] lt [of b] by (simp add: of_char_int)
  let ?l = "lx_assert (length rs = 1 \<or> length rs = 2 \<or> length rs = 3) l"
  have "read_ok (in_range_loop rs (lx_add (int b) ?l)) (lx_add (int b) ?l) s (map char_of bs)"
    using in_range_loop_ok [OF rs(2)] lx_on_at [OF on] lt by (simp add: lx_on_fields)
  then have "read_ok (next_byte_in_range rs l) l s (utf8_encode cp)"
    by (simp add: read_ok_def next_byte_in_range_def Let_def c u utf8_encode_def to_char_nat)
  moreover have "0x80 \<le> int b" using rs(1) by (auto simp: byte_ranges_def utf8_ranges_def split: if_splits)
  ultimately show thesis using that rs(1) c by (simp add: byte_ranges_def)
qed

lemma scan_unicode_single:
  assumes "hex4 n h" "scalar_cp n" "lx_at l (h @ s)"
  shows "read_ok (scan_unicode l) l s (utf8_encode n)"
proof -
  obtain l' where "get_codepoint l = (int n, l')" "lx_at l' s" "lx_token_buffer l' = lx_token_buffer l"
    using get_codepoint_hex [OF assms(1,3)] by blast
  then show ?thesis
    using assms(2) add_codepoint_encode [OF assms(2), of "lx_assert (0 \<le> int n \<and> int n \<le> 0x10FFFF) l'"]
    by (auto simp: read_ok_def scan_unicode_def add_checked_def scalar_cp_def add_codepoint_at)
qed

lemma scan_unicode_pair:
  assumes "hex4 (0xD800 + a) h" "a < 0x400" "hex4 (0xDC00 + b) k" "b < 0x400" "lx_at l (h @ CHR 0x5C # CHR ''u'' # k @ s)"
  shows "read_ok (scan_unicode l) l s (utf8_encode (0x10000 + a * 0x400 + b))"
proof -
  obtain l1 where 1: "get_codepoint l = (int (0xD800 + a), l1)" "lx_at l1 (CHR 0x5C # CHR ''u'' # k @ s)"
      "lx_token_buffer l1 = lx_token_buffer l"
    using get_codepoint_hex [OF assms(1,5)] by blast
  have 2: "lx_on (lx_get l1) (CHR 0x5C # CHR ''u'' # k @ s)" using lx_at_get [OF 1(2)] .
  have 3: "lx_on (lx_get (lx_get l1)) (CHR ''u'' # k @ s)" using lx_at_get [OF lx_on_at [OF 2]] .
  obtain l4 where 4: "get_codepoint (lx_get (lx_get l1)) = (int (0xDC00 + b), l4)" "lx_at l4 s"
      "lx_token_buffer l4 = lx_token_buffer (lx_get (lx_get l1))"
    using get_codepoint_hex [OF assms(3) lx_on_at [OF 3]] by blast
  let ?cp = "0x10000 + a * 0x400 + b"
  have cp: "push_bit 10 (int (0xD800 + a)) + int (0xDC00 + b) - 0x35FDC00 = int ?cp" by (simp add: push_bit_eq_mult)
  have "scalar_cp ?cp" using assms(2,4) by (simp add: scalar_cp_def)
  then have "lx_token_buffer (add_codepoint (int ?cp) (lx_assert b l4)) = lx_token_buffer l @ utf8_encode ?cp" for b
    using add_codepoint_encode 4(3) 1(3) by (simp only: get_fields assert_fields)
  moreover have "scan_unicode l = add_checked (int ?cp) l4"
    using 1(1) 4(1) lx_on_current [OF 2] lx_on_current [OF 3] assms(2,4) unfolding scan_unicode_def cp [symmetric]
    by (simp add: Let_def)
  ultimately show ?thesis using 4(2) by (simp add: read_ok_def add_checked_def add_codepoint_at)
qed

text \<open>One turn of the loop for each kind of piece.\<close>

definition string_turn :: "lexer \<Rightarrow> string \<Rightarrow> string \<Rightarrow> bool" where
  "string_turn l r v \<longleftrightarrow> (\<exists>l'. scan_string_loop l = scan_string_loop l' \<and> lx_at l' r \<and> lx_token_buffer l' = lx_token_buffer l @ v)"

lemma string_turn_escape:
  assumes "lx_at l (CHR 0x5C # s)" "\<And>l. lx_at l s \<Longrightarrow> read_ok (scan_escape l) l r v"
  shows "string_turn l r v"
proof -
  have on: "lx_on (lx_get l) (CHR 0x5C # s)" using lx_at_get [OF assms(1)] .
  obtain l' where "scan_escape (lx_get l) = (True, l')" "lx_at l' r" "lx_token_buffer l' = lx_token_buffer (lx_get l) @ v"
    using assms(2) [OF lx_on_at [OF on]] by (auto simp: read_ok_def)
  then show ?thesis
    using lx_on_current [OF on] unfolding string_turn_def
    by (intro exI [of _ l']) (subst scan_string_loop.simps, simp add: get_fields eof_def)
qed

lemma scan_escape_u:
  assumes "lx_at l (CHR ''u'' # s)" "\<And>l. lx_at l s \<Longrightarrow> read_ok (scan_unicode l) l r v"
  shows "read_ok (scan_escape l) l r v"
proof -
  have on: "lx_on (lx_get l) (CHR ''u'' # s)" using lx_at_get [OF assms(1)] .
  then show ?thesis
    using assms(2) [OF lx_on_at [OF on]] lx_on_current [OF on] by (simp add: scan_escape_def read_ok_def get_fields)
qed

lemma to_char_codes: "to_char_type 0x22 = CHR 0x22" "to_char_type 0x5C = CHR 0x5C" "to_char_type 0x2F = CHR ''/''" "to_char_type 0x08 = CHR 0x08"
  "to_char_type 0x0C = CHR 0x0C" "to_char_type 0x0A = CHR 0x0A" "to_char_type 0x0D = CHR 0x0D" "to_char_type 0x09 = CHR 0x09"
  using to_char_of_char [of "CHR 0x22"] to_char_of_char [of "CHR 0x5C"] to_char_of_char [of "CHR ''/''"]
    to_char_of_char [of "CHR 0x08"] to_char_of_char [of "CHR 0x0C"] to_char_of_char [of "CHR 0x0A"]
    to_char_of_char [of "CHR 0x0D"] to_char_of_char [of "CHR 0x09"]
  by simp_all

lemma scan_escape_short:
  assumes "lx_at l (e # s)" "(e, c) \<in> set short_escapes"
  shows "read_ok (scan_escape l) l s [c]"
proof -
  have on: "lx_on (lx_get l) (e # s)" using lx_at_get [OF assms(1)] .
  then show ?thesis
    using assms(2) lx_on_at [OF on] lx_on_current [OF on]
    by (auto simp: scan_escape_def read_ok_def get_fields short_escapes_def lx_on_fields to_char_codes Let_def)
qed

lemma string_turn_plain:
  assumes "lx_at l (c # s)" "0x20 \<le> (of_char c :: nat)" "(of_char c :: nat) < 0x80" "c \<noteq> CHR 0x22" "c \<noteq> CHR 0x5C"
  shows "string_turn l s [c]"
proof -
  have on: "lx_on (lx_get l) (c # s)" using lx_at_get [OF assms(1)] .
  have "(of_char c :: int) \<noteq> of_char (CHR 0x22)" "(of_char c :: int) \<noteq> of_char (CHR 0x5C)"
    using assms(4,5) by (simp_all only: of_char_eq_code not_False_eq_True)
  moreover have "0x20 \<le> (of_char c :: int)" "(of_char c :: int) < 0x80" using assms(2,3) unfolding of_char_int by simp_all
  ultimately show ?thesis
    using lx_on_current [OF on] lx_on_at [OF on] unfolding string_turn_def
    by (intro exI [of _ "lx_add (of_char c) (lx_get l)"]) (subst scan_string_loop.simps, simp add: get_fields lx_on_fields)
qed

lemma string_turn_multi:
  assumes "lx_at l (utf8_encode cp @ s)" "scalar_cp cp" "0x80 \<le> cp"
  shows "string_turn l s (utf8_encode cp)"
proof -
  have on: "lx_on (lx_get l) (utf8_encode cp @ s)" using lx_at_get [OF assms(1)] .
  obtain rs where rs: "utf8_ranges (lx_current (lx_get l)) = Some rs" "0x80 \<le> lx_current (lx_get l)"
      "read_ok (next_byte_in_range rs (lx_get l)) (lx_get l) s (utf8_encode cp)"
    using scan_string_multi [OF on assms(2,3)] by blast
  then obtain l' where "next_byte_in_range rs (lx_get l) = (True, l')" "lx_at l' s"
      "lx_token_buffer l' = lx_token_buffer l @ utf8_encode cp"
    by (auto simp: read_ok_def get_fields)
  then show ?thesis
    using rs(1,2) unfolding string_turn_def
    by (intro exI [of _ l']) (subst scan_string_loop.simps, simp add: eof_def)
qed

lemma scan_string_body:
  assumes "string_body v t" "lx_at l (t @ CHR 0x22 # s)"
  shows "\<exists>l'. scan_string_loop l = (value_string, l') \<and> lx_at l' s \<and> lx_token_buffer l' = lx_token_buffer l @ v"
proof -
  have turn: "\<exists>l'. scan_string_loop l = (value_string, l') \<and> lx_at l' s \<and> lx_token_buffer l' = lx_token_buffer l @ v" if h: "string_turn l (t' @ CHR 0x22 # s) u" "v = u @ v'"
    "\<And>l. lx_at l (t' @ CHR 0x22 # s) \<Longrightarrow>
      \<exists>l'. scan_string_loop l = (value_string, l') \<and> lx_at l' s \<and> lx_token_buffer l' = lx_token_buffer l @ v'" for l t' u v' v
  proof -
    obtain l1 where l1: "scan_string_loop l = scan_string_loop l1" "lx_at l1 (t' @ CHR 0x22 # s)" "lx_token_buffer l1 = lx_token_buffer l @ u"
      using h(1) by (auto simp: string_turn_def)
    show ?thesis using h(3) [OF l1(2)] l1(1,3) h(2) by simp
  qed
  show ?thesis
    using assms
  proof (induction v t arbitrary: l rule: string_body.induct)
    case body_end
    then have on: "lx_on (lx_get l) (CHR 0x22 # s)" using lx_at_get by simp
    then show ?case
      using lx_on_current [OF on] lx_on_at [OF on] by (subst scan_string_loop.simps) (simp add: get_fields eof_def)
  next
    case (body_plain v t c)
    then show ?case using string_turn_plain [of l c "t @ CHR 0x22 # s"] turn [of l t "[c]" _ v] by simp
  next
    case (body_multi v t cp)
    then show ?case using string_turn_multi [of l cp "t @ CHR 0x22 # s"] turn [of l t "utf8_encode cp" _ v] by simp
  next
    case (body_short v t e c)
    have "string_turn l (t @ CHR 0x22 # s) [c]"
      using string_turn_escape [of l "e # t @ CHR 0x22 # s"] scan_escape_short body_short by simp
    then show ?case using turn [of l t "[c]" _ v] body_short by simp
  next
    case (body_hex v t n h)
    have "string_turn l (t @ CHR 0x22 # s) (utf8_encode n)"
      using string_turn_escape [of l "CHR ''u'' # h @ t @ CHR 0x22 # s"] scan_escape_u [of _ "h @ t @ CHR 0x22 # s"]
        scan_unicode_single [OF body_hex(2,3)] body_hex by simp
    then show ?case using turn [of l t "utf8_encode n" _ v] body_hex by simp
  next
    case (body_pair v t a h b k)
    let ?r = "h @ CHR 0x5C # CHR ''u'' # k @ t @ CHR 0x22 # s"
    have "string_turn l (t @ CHR 0x22 # s) (utf8_encode (0x10000 + a * 0x400 + b))"
      using string_turn_escape [of l "CHR ''u'' # ?r"] scan_escape_u [of _ ?r] scan_unicode_pair [OF body_pair(2-5)] body_pair
      by simp
    then show ?case using turn [of l t "utf8_encode (0x10000 + a * 0x400 + b)" _ v] body_pair by simp
  qed
qed

lemma scans_string:
  assumes "jws w" "string_body v t"
  shows "scans (w @ CHR 0x22 # t @ CHR 0x22 # r) value_string (Some (JString v)) r"
proof (rule scansI [OF assms(1)])
  show "starts (CHR 0x22 # t @ CHR 0x22 # r)" by (simp add: starts_def ws_char_def)
  fix l assume on: "lx_on l (CHR 0x22 # t @ CHR 0x22 # r)"
  have "lx_at (lx_assert (lx_current l = 0x22) (lx_reset l)) (t @ CHR 0x22 # r)" using lx_on_at [OF on] by (simp add: lx_on_fields)
  then obtain l' where "scan_string l = (value_string, l')" "lx_at l' r" "lx_token_buffer l' = v"
    using scan_string_body [OF assms(2)] unfolding scan_string_def Let_def reset_fields by fastforce
  then show "\<exists>l'. scan_token l = (value_string, l') \<and> lx_at l' r \<and>
      (\<forall>p. scalar_value (p\<lparr>ps_last_token := value_string, ps_lexer := l'\<rparr>) = Some (JString v))"
    using lx_on_current [OF on] by (simp add: scan_token_def scalar_value_def)
qed

section \<open>Numbers\<close>

definition digits :: "string \<Rightarrow> bool" where
  "digits ds \<longleftrightarrow> ds \<noteq> [] \<and> list_all c_isdigit ds"

text \<open>The four parts of a number: sign, integral part, fraction and exponent.\<close>

definition number_parts :: "string \<Rightarrow> string \<Rightarrow> string \<Rightarrow> string \<Rightarrow> bool" where
  "number_parts m ip fr ex \<longleftrightarrow>
     (m = [] \<or> m = ''-'') \<and>
     digits ip \<and> (hd ip = CHR ''0'' \<longrightarrow> tl ip = []) \<and>
     (fr = [] \<or> (\<exists>ds. fr = CHR ''.'' # ds \<and> digits ds)) \<and>
     (ex = [] \<or> (\<exists>c sg ds. ex = c # sg @ ds \<and> (c = CHR ''e'' \<or> c = CHR ''E'') \<and> (sg = [] \<or> sg = ''+'' \<or> sg = ''-'') \<and> digits ds))"

definition number_value :: "string \<Rightarrow> string \<Rightarrow> string \<Rightarrow> string \<Rightarrow> json" where
  "number_value m ip fr ex =
     (if fr = [] \<and> ex = [] \<and> m = [] \<and> digits_val ip < 2 ^ 64 then JUint (digits_val ip)
      else if fr = [] \<and> ex = [] \<and> m \<noteq> [] \<and> digits_val ip \<le> 2 ^ 63 then JInt (- int (digits_val ip))
      else JFloat (strtod (m @ ip @ fr @ ex)))"

text \<open>What may follow a number: nothing that could belong to it.\<close>

definition number_end :: "string \<Rightarrow> bool" where
  "number_end r \<longleftrightarrow> r = [] \<or> \<not> c_isdigit (hd r) \<and> hd r \<noteq> CHR ''.'' \<and> hd r \<noteq> CHR ''e'' \<and> hd r \<noteq> CHR ''E''"

lemma digit_code: "is_digit_code (of_char c) \<longleftrightarrow> c_isdigit c"
  unfolding is_digit_code_def of_char_int by (simp add: c_isdigit_def less_eq_char_def)

lemma exp_code: "is_exp_code (of_char c) \<longleftrightarrow> c = CHR ''e'' \<or> c = CHR ''E''"
  unfolding is_exp_code_def of_char_eq_code ..

text \<open>Reading the characters \<open>cs\<close> takes the state machine from one label and type to another.\<close>

definition num_run :: "number_label \<Rightarrow> token_type \<Rightarrow> string \<Rightarrow> number_label \<Rightarrow> token_type \<Rightarrow> bool" where
  "num_run lab nt cs lab' nt' \<longleftrightarrow>
     (\<forall>l r. lx_at l (cs @ r) \<longrightarrow>
        (\<exists>l'. scan_number_at lab nt l = scan_number_at lab' nt' l' \<and> lx_at l' r \<and> lx_token_buffer l' = lx_token_buffer l @ cs))"

definition label_type :: "number_label \<Rightarrow> token_type \<Rightarrow> token_type" where
  "label_type lab nt =
     (if lab = n_minus then value_integer else if lab = n_decimal1 \<or> lab = n_exponent then value_float else nt)"

lemma num_run_Nil: "num_run lab nt [] lab nt"
  unfolding num_run_def by (metis append.right_neutral append_Nil)

lemma num_run_append: "num_run a t cs b t' \<Longrightarrow> num_run b t' ds c t'' \<Longrightarrow> num_run a t (cs @ ds) c t''"
  unfolding num_run_def by (metis append.assoc)

lemma num_run_step:
  assumes "number_switch lab (of_char c) = NGoto lab' (of_char c)"
  shows "num_run lab nt [c] lab' (label_type lab nt)"
  unfolding num_run_def
proof (intro allI impI)
  fix l r assume "lx_at l ([c] @ r)"
  then have on: "lx_on (lx_get l) (c # r)" using lx_at_get by simp
  then show "\<exists>l'. scan_number_at lab nt l = scan_number_at lab' (label_type lab nt) l' \<and> lx_at l' r \<and>
      lx_token_buffer l' = lx_token_buffer l @ [c]"
    using lx_on_current [OF on] lx_on_at [OF on] assms
    by (intro exI [of _ "lx_add (of_char c) (lx_get l)"])
      (subst scan_number_at.simps, simp add: label_type_def get_fields lx_on_fields Let_def)
qed

lemma num_run_digits: "list_all c_isdigit ds \<Longrightarrow> lab \<in> {n_any1, n_decimal2, n_any2} \<Longrightarrow> num_run lab nt ds lab nt"
proof (induction ds)
  case (Cons d ds)
  have "num_run lab nt [d] lab (label_type lab nt)"
    using Cons.prems by (intro num_run_step) (auto simp: digit_code)
  then show ?case using num_run_append [of lab nt "[d]" lab nt ds lab nt] Cons by (auto simp: label_type_def)
qed (simp add: num_run_Nil)

lemma digit_code_zero: "(of_char c :: int) = 0x30 \<longleftrightarrow> c = CHR ''0''" "(of_char c :: int) = 0x2E \<longleftrightarrow> c = CHR ''.''"
  "(of_char c :: int) = 0x2B \<longleftrightarrow> c = CHR ''+''" "(of_char c :: int) = 0x2D \<longleftrightarrow> c = CHR ''-''"
  using of_char_eq_code [of c "CHR ''0''"] of_char_eq_code [of c "CHR ''.''"] of_char_eq_code [of c "CHR ''+''"]
    of_char_eq_code [of c "CHR ''-''"] by simp_all

lemma num_run_first: "digits ds \<Longrightarrow> number_switch lab (of_char (hd ds)) = NGoto lab' (of_char (hd ds)) \<Longrightarrow>
    lab' \<in> {n_any1, n_decimal2, n_any2} \<Longrightarrow> num_run lab nt ds lab' (label_type lab nt)"
  using num_run_append [OF num_run_step [of lab "hd ds" lab' nt] num_run_digits [of "tl ds"]]
  by (cases ds) (auto simp: digits_def)

lemma num_run_fraction:
  assumes "digits ds" "lab \<in> {n_zero, n_any1}"
  shows "num_run lab nt (CHR ''.'' # ds) n_decimal2 value_float"
proof -
  have "num_run lab nt [CHR ''.''] n_decimal1 nt"
    using num_run_step [of lab "CHR ''.''" n_decimal1 nt] assms(2) by (auto simp: label_type_def is_digit_code_def)
  moreover have "num_run n_decimal1 nt ds n_decimal2 value_float"
    using num_run_first [OF assms(1), of n_decimal1 n_decimal2 nt] assms(1)
    by (cases ds) (auto simp: digits_def digit_code label_type_def)
  ultimately show ?thesis using num_run_append by fastforce
qed

lemma num_run_exponent:
  assumes "digits ds" "lab \<in> {n_zero, n_any1, n_decimal2}" "c = CHR ''e'' \<or> c = CHR ''E''" "sg = [] \<or> sg = ''+'' \<or> sg = ''-''"
  shows "num_run lab nt (c # sg @ ds) n_any2 value_float"
proof -
  have d: "c_isdigit (hd ds)" using assms(1) by (cases ds) (auto simp: digits_def)
  have "\<not> c_isdigit c" "c \<noteq> CHR ''.''" using assms(3) by (auto simp: c_isdigit_def less_eq_char_def)
  then have "\<not> is_digit_code (of_char c)" "(of_char c :: int) \<noteq> 0x2E" "is_exp_code (of_char c)"
    using assms(3) by (simp_all only: digit_code exp_code digit_code_zero not_False_eq_True)
  then have "number_switch lab (of_char c) = NGoto n_exponent (of_char c)" "label_type lab nt = nt"
    using assms(2) by (auto simp: label_type_def)
  then have 1: "num_run lab nt [c] n_exponent nt" using num_run_step [of lab c n_exponent nt] by simp
  have "hd ds \<noteq> CHR ''+''" "hd ds \<noteq> CHR ''-''" using digit_not_space [OF d] by auto
  then have 2: "num_run n_exponent nt ds n_any2 value_float"
    using num_run_first [OF assms(1), of n_exponent n_any2 nt] d by (simp add: digit_code digit_code_zero label_type_def)
  have "num_run n_exponent nt [s] n_sign value_float" if "s = CHR ''+'' \<or> s = CHR ''-''" for s
    using num_run_step [of n_exponent s n_sign nt] that by (auto simp: label_type_def)
  moreover have "num_run n_sign value_float ds n_any2 value_float"
    using num_run_first [OF assms(1), of n_sign n_any2 value_float] d by (simp add: digit_code label_type_def)
  ultimately have "num_run n_exponent nt (sg @ ds) n_any2 value_float" using assms(4) 2 num_run_append by fastforce
  then show ?thesis using num_run_append [OF 1] by fastforce
qed

lemma num_run_end:
  assumes "lab \<in> {n_zero, n_any1, n_decimal2, n_any2}" "number_end r" "lx_at l r"
  shows "scan_number_at lab nt l = (Some nt, lx_get l)" "lx_on (lx_get l) r"
proof -
  show on: "lx_on (lx_get l) r" using lx_at_get [OF assms(3)] .
  have "number_switch lab (lx_current (lx_get l)) = NDone"
    using lx_on_current [OF on] assms(1,2)
    by (cases r) (auto simp: number_end_def digit_code exp_code digit_code_zero, auto simp: eof_def is_digit_code_def is_exp_code_def)
  then show "scan_number_at lab nt l = (Some nt, lx_get l)"
    using assms(1) by (subst scan_number_at.simps) (auto simp: Let_def)
qed

text \<open>The label behind the integral part.\<close>

definition int_label :: "string \<Rightarrow> number_label" where
  "int_label ip = (if hd ip = CHR ''0'' then n_zero else n_any1)"

lemma num_run_rest:
  assumes "number_parts m ip fr ex"
  obtains lab where "num_run (int_label ip) nt (fr @ ex) lab (if fr = [] \<and> ex = [] then nt else value_float)"
    "lab \<in> {n_zero, n_any1, n_decimal2, n_any2}"
proof -
  note p = assms [unfolded number_parts_def]
  define l1 where "l1 = (if fr = [] then int_label ip else n_decimal2)"
  define t1 where "t1 = (if fr = [] then nt else value_float)"
  have "num_run (int_label ip) nt fr l1 t1"
    using p num_run_fraction [of _ "int_label ip" nt] num_run_Nil by (auto simp: l1_def t1_def int_label_def)
  moreover have "num_run l1 t1 ex (if ex = [] then l1 else n_any2) (if ex = [] then t1 else value_float)"
  proof (cases "ex = []")
    case False
    then obtain c sg ds where "ex = c # sg @ ds" "c = CHR ''e'' \<or> c = CHR ''E''" "sg = [] \<or> sg = ''+'' \<or> sg = ''-''" "digits ds"
      using p by blast
    moreover have "l1 \<in> {n_zero, n_any1, n_decimal2}" by (simp add: l1_def int_label_def)
    ultimately show ?thesis using num_run_exponent [of ds l1 c sg t1] False by simp
  qed (simp add: num_run_Nil)
  ultimately have "num_run (int_label ip) nt (fr @ ex) (if ex = [] then l1 else n_any2) (if ex = [] then t1 else value_float)"
    by (rule num_run_append)
  moreover have "(if ex = [] then t1 else value_float) = (if fr = [] \<and> ex = [] then nt else value_float)" by (simp add: t1_def)
  ultimately show thesis using that by (simp add: l1_def int_label_def)
qed

lemma num_run_minus: "digits ip \<Longrightarrow> (hd ip = CHR ''0'' \<longrightarrow> tl ip = []) \<Longrightarrow> num_run n_minus nt ip (int_label ip) value_integer"
proof (cases "hd ip = CHR ''0''")
  case True
  assume "digits ip" "hd ip = CHR ''0'' \<longrightarrow> tl ip = []"
  then have "ip = [CHR ''0'']" using True by (cases ip) (auto simp: digits_def)
  then show ?thesis using num_run_step [of n_minus "CHR ''0''" n_zero nt] by (simp add: label_type_def int_label_def)
next
  case False
  assume d: "digits ip"
  then have "c_isdigit (hd ip)" by (cases ip) (auto simp: digits_def)
  then show ?thesis
    using num_run_first [OF d, of n_minus n_any1 nt] False by (simp add: digit_code digit_code_zero label_type_def int_label_def)
qed

lemma num_run_tail: "digits ip \<Longrightarrow> (hd ip = CHR ''0'' \<longrightarrow> tl ip = []) \<Longrightarrow> num_run (int_label ip) nt (tl ip) (int_label ip) nt"
  using num_run_digits [of "tl ip" n_any1 nt] num_run_Nil by (cases ip) (auto simp: digits_def int_label_def)

lemma scan_number_ok:
  assumes "number_parts m ip fr ex" "number_end r" "lx_on l (m @ ip @ fr @ ex @ r)"
  defines "nt \<equiv> if fr = [] \<and> ex = [] then if m = [] then value_unsigned else value_integer else value_float"
  shows "\<exists>l'. scan_number l = scan_number_done nt (lx_get l') \<and> lx_on (lx_get l') r \<and> lx_token_buffer l' = m @ ip @ fr @ ex"
proof -
  have p: "m = [] \<or> m = ''-''" "digits ip" "hd ip = CHR ''0'' \<longrightarrow> tl ip = []" using assms(1) by (auto simp: number_parts_def)
  define t0 where "t0 = (if m = [] then value_unsigned else value_integer)"
  define lab0 where "lab0 = (if m = [] then int_label ip else n_minus)"
  have h: "c_isdigit (hd ip)" "ip = hd ip # tl ip" using p(2) by (cases ip; simp add: digits_def)+
  obtain lab where lab: "num_run (int_label ip) t0 (fr @ ex) lab nt" "lab \<in> {n_zero, n_any1, n_decimal2, n_any2}"
    using num_run_rest [OF assms(1), of t0] unfolding nt_def t0_def by (metis (no_types))
  obtain c s where c: "m @ ip = c # s" "lab0 = (if c = CHR ''-'' then n_minus else if c = CHR ''0'' then n_zero else n_any1)"
    "num_run lab0 value_unsigned s (int_label ip) t0"
  proof (cases "m = []")
    case True
    moreover have "hd ip \<noteq> CHR ''-''" using digit_not_space [OF h(1)] by simp
    ultimately show thesis
      using that [of "hd ip" "tl ip"] h(2) num_run_tail [OF p(2,3), of value_unsigned] by (simp add: lab0_def t0_def int_label_def)
  next
    case False
    then show thesis using that [of "CHR ''-''" ip] p num_run_minus [OF p(2,3), of value_unsigned] by (simp add: lab0_def t0_def)
  qed
  let ?l = "lx_add (lx_current l) (lx_assert (lx_current l = 0x2D \<or> is_digit_code (lx_current l)) (lx_reset l))"
  have all: "m @ ip @ fr @ ex @ r = c # (s @ fr @ ex) @ r" using c(1) by (metis append.assoc append_Cons)
  have on: "lx_on l (c # (s @ fr @ ex) @ r)" using assms(3) unfolding all .
  have cur: "lx_current l = of_char c" using lx_on_current [OF on] by simp
  have at: "lx_at ?l ((s @ fr @ ex) @ r)" using lx_on_at [OF on] by (simp add: lx_on_fields)
  obtain l' where l': "scan_number_at lab0 value_unsigned ?l = scan_number_at lab nt l'" "lx_at l' r"
      "lx_token_buffer l' = lx_token_buffer ?l @ s @ fr @ ex"
    using num_run_append [OF c(3) lab(1)] at unfolding num_run_def by blast
  have "scan_number l = scan_number_done nt (lx_get l')"
    using l'(1) num_run_end(1) [OF lab(2) assms(2) l'(2), of nt] c(2) cur
    by (simp add: scan_number_def Let_def digit_code_zero cong: if_cong)
  moreover have "lx_token_buffer l' = m @ ip @ fr @ ex" using l'(3) cur c(1) by (metis add_fields(6) append.assoc append_Cons append_Nil assert_fields(6) reset_fields(3) to_char_of_char)
  ultimately show ?thesis using num_run_end(2) [OF lab(2) assms(2) l'(2)] by blast
qed

definition number_token :: "json \<Rightarrow> token_type" where
  "number_token v = (case v of JUint _ \<Rightarrow> value_unsigned | JInt _ \<Rightarrow> value_integer | _ \<Rightarrow> value_float)"

lemma lx_at_values: "lx_at (l\<lparr>lx_value_unsigned := a\<rparr>) r \<longleftrightarrow> lx_at l r" "lx_at (l\<lparr>lx_value_integer := b\<rparr>) r \<longleftrightarrow> lx_at l r"
  "lx_at (l\<lparr>lx_value_float := c\<rparr>) r \<longleftrightarrow> lx_at l r"
  by (simp_all add: lx_at_def lx_inv_def inp_def)

lemma scan_number_done_ok:
  assumes "number_parts m ip fr ex" "lx_on l r" "lx_token_buffer l = m @ ip @ fr @ ex"
  defines "nt \<equiv> if fr = [] \<and> ex = [] then if m = [] then value_unsigned else value_integer else value_float"
    and "t \<equiv> number_token (number_value m ip fr ex)"
  shows "\<exists>l'. scan_number_done nt l = (t, l') \<and> lx_at l' r \<and>
    (\<forall>p. scalar_value (p\<lparr>ps_last_token := t, ps_lexer := l'\<rparr>) = Some (number_value m ip fr ex))"
proof -
  have m: "m = [] \<or> m = ''-''" using assms(1) by (auto simp: number_parts_def)
  have at: "lx_at (lx_assert k (lx_unget l)) r" for k using lx_on_unget [OF assms(2)] by simp
  have at': "lx_at ((lx_assert k (lx_unget l))\<lparr>lx_value_unsigned := a\<rparr>) r" "lx_at ((lx_assert k (lx_unget l))\<lparr>lx_value_integer := b\<rparr>) r"
    "lx_at ((lx_assert k (lx_unget l))\<lparr>lx_value_float := c\<rparr>) r" "lx_at ((lx_unget l)\<lparr>lx_value_float := c\<rparr>) r" for a b c k
    using at at [of True] by (simp_all add: lx_at_values)
  show ?thesis
    using m assms(3) at' unfolding nt_def t_def
    by (auto simp: scan_number_done_def Let_def scalar_value_def number_value_def number_token_def)
qed

lemma scans_number:
  assumes "jws w" "number_parts m ip fr ex" "number_end r"
  defines "v \<equiv> number_value m ip fr ex"
  shows "scans (w @ m @ ip @ fr @ ex @ r) (number_token v) (Some v) r"
proof (rule scansI [OF assms(1)])
  obtain c s where c: "m @ ip @ fr @ ex @ r = c # s" "c = CHR ''-'' \<or> c_isdigit c"
    using assms(2) by (cases m; cases ip) (auto simp: number_parts_def digits_def)
  then show "starts (m @ ip @ fr @ ex @ r)" by (auto simp: starts_def ws_char_def c_isdigit_def less_eq_char_def)
  fix l assume on: "lx_on l (m @ ip @ fr @ ex @ r)"
  have cur: "lx_current l = of_char c" using lx_on_current [OF on] c(1) by simp
  then have "lx_current l = 0x2D \<or> 0x30 \<le> lx_current l \<and> lx_current l \<le> 0x39"
    using c(2) digit_code [of c] by (auto simp: is_digit_code_def)
  then have "scan_token l = scan_number l" by (auto simp: scan_token_def Let_def is_digit_code_def)
  then show "\<exists>l'. scan_token l = (number_token v, l') \<and> lx_at l' r \<and>
      (\<forall>p. scalar_value (p\<lparr>ps_last_token := number_token v, ps_lexer := l'\<rparr>) = Some v)"
    using scan_number_ok [OF assms(2,3) on] scan_number_done_ok [OF assms(2)] unfolding v_def by (metis get_fields(5))
qed

end
