(* ===== verification/Json_Asserts.thy ===== *)
theory Json_Asserts
  imports Json_Tokens
begin

text \<open>
  The assertions of the lexer never fail, whatever the input: no function of the lexer sets \<open>lx_failed\<close>. For
  the conversion of numbers this says that the state machine of \<open>scan_number\<close> accepts only texts that
  \<open>strtoull\<close>, \<open>strtoll\<close> and \<open>strtod\<close> read to their end.
\<close>

section \<open>Input and strings\<close>

lemma failed_fields [simp]:
  "lx_failed (lx_get l) = lx_failed l" "lx_failed (lx_add c l) = lx_failed l" "lx_failed (lx_reset l) = lx_failed l"
  "lx_failed (lx_error m l) = lx_failed l"
  by (simp_all add: lx_get_def lx_add_def lx_reset_def lx_error_def Let_def split: prod.splits)

lemma failed_assert [simp]: "lx_failed (lx_assert b l) \<longleftrightarrow> lx_failed l \<or> \<not> b"
  by (simp add: lx_assert_def)

lemma failed_add_codepoint [simp]: "lx_failed (add_codepoint c l) = lx_failed l"
  by (simp add: add_codepoint_def)

text \<open>Every \<open>unget\<close> follows a \<open>get\<close>, which has put the character into the token string.\<close>

lemma failed_unget_get [simp]: "lx_failed (lx_unget (lx_get l)) = lx_failed l"
proof -
  have "lx_current (lx_get l) \<noteq> eof \<Longrightarrow> lx_token_string (lx_get l) \<noteq> []"
    by (auto simp: lx_get_def Let_def split: prod.splits if_splits)
  then show ?thesis by (simp add: lx_unget_def Let_def)
qed

lemma get_codepoint_loop_range:
  "get_codepoint_loop fs cp l = (r, l') \<Longrightarrow> 0 \<le> cp \<Longrightarrow>
   lx_token_buffer l' = lx_token_buffer l \<and> (r = - 1 \<or> 0 \<le> r \<and> r \<le> cp + 15 * (\<Sum>f\<leftarrow>fs. 2 ^ f))"
proof (induction fs cp l rule: get_codepoint_loop.induct)
  case (2 f fs cp l)
  have step: "lx_token_buffer l' = lx_token_buffer l \<and> (r = - 1 \<or> 0 \<le> r \<and> r \<le> cp + 15 * (\<Sum>f\<leftarrow>f # fs. 2 ^ f))"
    if "lx_token_buffer l' = lx_token_buffer (lx_get l) \<and>
        (r = - 1 \<or> 0 \<le> r \<and> r \<le> (cp + push_bit f d) + 15 * (\<Sum>f\<leftarrow>fs. 2 ^ f))" "d \<le> 15" for d
  proof -
    have "push_bit f d \<le> 15 * 2 ^ f" using that(2) by (simp add: push_bit_eq_mult)
    then show ?thesis using that(1) by (auto simp: get_fields)
  qed
  have pos: "0 \<le> cp + push_bit f d" if "0 \<le> d" for d using 2(5) that by (simp add: push_bit_eq_mult)
  let ?c = "lx_current (lx_get l)"
  consider "0x30 \<le> ?c \<and> ?c \<le> 0x39" | "\<not> (0x30 \<le> ?c \<and> ?c \<le> 0x39)" "0x41 \<le> ?c \<and> ?c \<le> 0x46"
    | "\<not> (0x30 \<le> ?c \<and> ?c \<le> 0x39)" "\<not> (0x41 \<le> ?c \<and> ?c \<le> 0x46)" "0x61 \<le> ?c \<and> ?c \<le> 0x66"
    | "r = - 1" "l' = lx_get l"
    using 2(4) by (auto simp: Let_def split: if_splits)
  then show ?case
  proof cases
    case 1
    show ?thesis by (rule step [of "?c - 0x30"]) (use 2(1) [OF refl refl 1] 2(4) 1 pos in \<open>simp_all add: Let_def\<close>)
  next
    case 2
    show ?thesis by (rule step [of "?c - 0x37"]) (use "2.IH"(2) [OF refl refl 2] "2.prems" 2 pos in \<open>simp_all add: Let_def\<close>)
  next
    case 3
    show ?thesis by (rule step [of "?c - 0x57"]) (use "2.IH"(3) [OF refl refl 3] "2.prems" 3 pos in \<open>simp_all add: Let_def\<close>)
  qed (simp add: get_fields)
qed simp

lemma get_codepoint_range:
  assumes "get_codepoint l = (cp, l')"
  shows "lx_token_buffer l' = lx_token_buffer l" "cp \<noteq> - 1 \<Longrightarrow> 0 \<le> cp \<and> cp < 0x10000"
proof -
  obtain r l1 where r: "get_codepoint_loop [12, 8, 4, 0] 0 (lx_assert (lx_current l = of_char (CHR ''u'')) l) = (r, l1)"
    by fastforce
  then show "lx_token_buffer l' = lx_token_buffer l" "cp \<noteq> - 1 \<Longrightarrow> 0 \<le> cp \<and> cp < 0x10000"
    using get_codepoint_loop_range [OF r] assms unfolding get_codepoint_def r by (auto split: if_splits)
qed

lemma get_codepoint_loop_failed: "get_codepoint_loop fs cp l = (r, l') \<Longrightarrow> lx_failed l' = lx_failed l"
  by (induction fs cp l rule: get_codepoint_loop.induct) (auto simp: Let_def split: if_splits)

lemma get_codepoint_failed:
  assumes "get_codepoint l = (cp, l')" "lx_current l = of_char (CHR ''u'')"
  shows "lx_failed l' = lx_failed l"
proof -
  obtain r l1 where r: "get_codepoint_loop [12, 8, 4, 0] 0 (lx_assert (lx_current l = of_char (CHR ''u'')) l) = (r, l1)"
    by fastforce
  then show ?thesis
    using get_codepoint_loop_range [OF r] get_codepoint_loop_failed [OF r] assms unfolding get_codepoint_def r
    by (auto split: if_splits)
qed

lemma scan_unicode_failed:
  assumes "scan_unicode l = (b, l')" "lx_current l = of_char (CHR ''u'')"
  shows "lx_failed l' = lx_failed l"
proof -
  obtain c1 l1 where l1: "get_codepoint l = (c1, l1)" by fastforce
  obtain c2 l2 where l2: "get_codepoint (lx_get (lx_get l1)) = (c2, l2)" by fastforce
  have f1: "lx_failed l1 = lx_failed l" by (rule get_codepoint_failed [OF l1 assms(2)])
  have f2: "lx_failed l2 = lx_failed l" if "lx_current (lx_get (lx_get l1)) = of_char (CHR ''u'')"
    using get_codepoint_failed [OF l2 that] f1 by simp
  have "push_bit 10 c1 + c2 - 0x35FDC00 \<le> 0x10FFFF \<and> 0 \<le> push_bit 10 c1 + c2 - 0x35FDC00"
    if "0xD800 \<le> c1" "c1 \<le> 0xDBFF" "0xDC00 \<le> c2" "c2 \<le> 0xDFFF"
    using that by (simp add: push_bit_eq_mult)
  then show ?thesis
    using assms(1) l1 l2 f1 f2 get_codepoint_range(2) [OF l1]
    by (auto simp: scan_unicode_def add_checked_def Let_def split: if_splits)
qed

lemma scan_escape_failed: "scan_escape l = (b, l') \<Longrightarrow> lx_failed l' = lx_failed l"
proof -
  assume e: "scan_escape l = (b, l')"
  obtain b1 l1 where u: "scan_unicode (lx_get l) = (b1, l1)" by fastforce
  show ?thesis
    using e u scan_unicode_failed [OF u] by (auto simp: scan_escape_def Let_def split: if_splits)
qed

lemma in_range_loop_failed: "in_range_loop rs l = (b, l') \<Longrightarrow> lx_failed l' = lx_failed l"
  by (induction rs l rule: in_range_loop.induct) (auto simp: Let_def split: if_splits)

lemma next_byte_in_range_failed:
  assumes "next_byte_in_range rs l = (b, l')" "utf8_ranges c = Some rs"
  shows "lx_failed l' = lx_failed l"
proof -
  have "length rs = 1 \<or> length rs = 2 \<or> length rs = 3"
    using assms(2) by (auto simp: utf8_ranges_def split: if_splits)
  then show ?thesis using assms(1) in_range_loop_failed by (fastforce simp: next_byte_in_range_def Let_def)
qed

lemma scan_string_loop_failed: "scan_string_loop l = (t, l') \<Longrightarrow> lx_failed l' = lx_failed l"
proof (induction l rule: scan_string_loop.induct)
  case (1 l)
  let ?l = "lx_get l"
  let ?c = "lx_current ?l"
  obtain e l1 where e: "scan_escape ?l = (e, l1)" by fastforce
  obtain n l2 where n: "next_byte_in_range (the (utf8_ranges ?c)) ?l = (n, l2)" by fastforce
  have f1: "lx_failed l1 = lx_failed l" using scan_escape_failed [OF e] by simp
  have f2: "lx_failed l2 = lx_failed l" if "utf8_ranges ?c = Some rs" for rs
    using next_byte_in_range_failed [OF n, of ?c] that by simp
  have eq: "(if ?c = eof then (parse_error, lx_error ''invalid string: missing closing quote'' ?l)
      else if ?c = 0x22 then (value_string, ?l)
      else if ?c = 0x5C then (if e then scan_string_loop l1 else (parse_error, l1))
      else if ?c \<le> 0x1F then (parse_error, lx_error (ctl_message (nat ?c)) ?l)
      else if ?c \<le> 0x7F then scan_string_loop (lx_add ?c ?l)
      else case utf8_ranges ?c of
          Some ranges \<Rightarrow> if n then scan_string_loop l2 else (parse_error, l2)
        | None \<Rightarrow> (parse_error, lx_error ''invalid string: ill-formed UTF-8 byte'' ?l)) = (t, l')"
    using 1(4) unfolding scan_string_loop.simps [of l] Let_def e case_prod_conv
    using n by (cases "utf8_ranges ?c") (simp_all only: option.case option.sel case_prod_conv)
  consider "lx_failed l' = lx_failed ?l" | "lx_failed l' = lx_failed l1"
    | rs where "utf8_ranges ?c = Some rs" "lx_failed l' = lx_failed l2"
    | "scan_string_loop l1 = (t, l')" "?c = 0x5C" "e" "?c \<noteq> eof"
    | "scan_string_loop (lx_add ?c ?l) = (t, l')" "\<not> ?c \<le> 0x1F" "?c \<le> 0x7F" "?c \<noteq> 0x22" "?c \<noteq> 0x5C" "?c \<noteq> eof"
    | rs where "utf8_ranges ?c = Some rs" "n" "scan_string_loop l2 = (t, l')" "?c \<noteq> eof" "?c \<noteq> 0x22" "?c \<noteq> 0x5C"
        "\<not> ?c \<le> 0x1F" "\<not> ?c \<le> 0x7F"
    using eq by (auto split: if_splits option.splits)
  then show ?case
  proof cases
    case 4
    then show ?thesis using "1.IH"(1) [OF refl refl _ _ _ e [symmetric]] f1 by auto
  next
    case 5
    then show ?thesis using "1.IH"(2) [OF refl refl] by auto
  next
    case 6
    then show ?thesis using "1.IH"(3) [OF refl refl _ _ _ _ _ 6(1)] n f2 [OF 6(1)] by auto
  qed (use f1 f2 in auto)
qed

lemma scan_string_failed: "scan_string l = (t, l') \<Longrightarrow> lx_current l = 0x22 \<Longrightarrow> lx_failed l' = lx_failed l"
  using scan_string_loop_failed [of "lx_assert (lx_current l = 0x22) (lx_reset l)" t l'] by (simp add: scan_string_def Let_def)

section \<open>White space, comments and literals\<close>

lemma skip_line_comment_failed: "lx_failed (skip_line_comment l) = lx_failed l"
  by (induction l rule: skip_line_comment.induct) (subst skip_line_comment.simps, simp add: Let_def)

lemma skip_block_comment_failed: "skip_block_comment l = (b, l') \<Longrightarrow> lx_failed l' = lx_failed l"
proof (induction l rule: skip_block_comment.induct)
  case (1 l)
  show ?case
    using 1(3) 1(1) [OF refl refl] 1(2) [OF refl refl] by (subst (asm) skip_block_comment.simps) (auto simp: Let_def split: if_splits)
qed

lemma scan_comment_failed: "scan_comment l = (b, l') \<Longrightarrow> lx_failed l' = lx_failed l"
  using skip_block_comment_failed [of "lx_get l" b l'] by (auto simp: scan_comment_def Let_def skip_line_comment_failed split: if_splits)

lemma skip_whitespace_failed: "lx_failed (skip_whitespace l) = lx_failed l"
  by (induction l rule: skip_whitespace.induct) (subst skip_whitespace.simps, simp add: Let_def)

lemma skip_comments_failed: "skip_comments l = (b, l') \<Longrightarrow> lx_failed l' = lx_failed l"
proof (induction l rule: skip_comments.induct)
  case (1 l)
  obtain g l1 where g: "scan_comment l = (g, l1)" by fastforce
  show ?case
    using 1(2) 1(1) [OF _ g [symmetric]] scan_comment_failed [OF g] skip_whitespace_failed [of l1] g
    by (subst (asm) skip_comments.simps) (auto split: if_splits)
qed

lemma skip_bom_failed: "skip_bom l = (b, l') \<Longrightarrow> lx_failed l' = lx_failed l"
  by (auto simp: skip_bom_def Let_def split: if_splits)

lemma scan_literal_failed:
  "scan_literal s t l = (r, l') \<Longrightarrow> to_char_type (lx_current l) = hd s \<Longrightarrow> lx_failed l' = lx_failed l"
proof -
  have "scan_literal_loop s t l = (r, l') \<Longrightarrow> lx_failed l' = lx_failed l" for s l
    by (induction s t l rule: scan_literal_loop.induct) (auto simp: Let_def split: if_splits)
  from this [of "tl s" "lx_assert (to_char_type (lx_current l) = hd s) l"]
  show "scan_literal s t l = (r, l') \<Longrightarrow> to_char_type (lx_current l) = hd s \<Longrightarrow> lx_failed l' = lx_failed l"
    by (simp add: scan_literal_def Let_def)
qed

section \<open>Numbers\<close>

text \<open>The texts of numbers, as the conversions read them.\<close>

definition fraction_form :: "string \<Rightarrow> bool" where
  "fraction_form fr \<longleftrightarrow> fr = [] \<or> (\<exists>ds. fr = CHR ''.'' # ds \<and> digits ds)"

definition exponent_form :: "string \<Rightarrow> bool" where
  "exponent_form ex \<longleftrightarrow> ex = [] \<or> (\<exists>c sg ds. ex = c # sg @ ds \<and> (c = CHR ''e'' \<or> c = CHR ''E'') \<and>
     (sg = [] \<or> sg = ''+'' \<or> sg = ''-'') \<and> digits ds)"

definition number_form :: "string \<Rightarrow> bool" where
  "number_form s \<longleftrightarrow> (\<exists>m ip fr ex. s = m @ ip @ fr @ ex \<and> (m = [] \<or> m = ''-'') \<and> digits ip \<and> fraction_form fr \<and> exponent_form ex)"

lemma take_digits:
  assumes "list_all c_isdigit ds" "r = [] \<or> \<not> c_isdigit (hd r)"
  shows "takeWhile c_isdigit (ds @ r) = ds"
proof -
  have "takeWhile c_isdigit r = []" using assms(2) by (cases r) auto
  then show ?thesis using assms(1) by (simp add: list_all_iff takeWhile_append2)
qed

lemma digits_start:
  assumes "digits ds"
  shows "takeWhile c_isspace (ds @ r) = []" "sign_length (ds @ r) = 0"
proof -
  obtain d ds' where d: "ds = d # ds'" "c_isdigit d" using assms by (cases ds) (auto simp: digits_def)
  then have "\<not> c_isspace d" "d \<noteq> CHR ''-''" "d \<noteq> CHR ''+''"
    by (auto simp: c_isdigit_def c_isspace_def less_eq_char_def)
  then show "takeWhile c_isspace (ds @ r) = []" "sign_length (ds @ r) = 0" using d by (simp_all add: sign_length_def)
qed

lemma take_all_digits: "digits ds \<Longrightarrow> length (takeWhile c_isdigit ds) = length ds \<and> takeWhile c_isdigit ds \<noteq> []"
  using take_digits [of ds "[]", unfolded append_Nil2] unfolding digits_def by metis

lemma sign_length_minus [simp]: "sign_length (CHR ''-'' # s) = 1"
  by (simp add: sign_length_def)

lemma digitsD: "digits ds \<Longrightarrow> ds \<noteq> []" "digits ds \<Longrightarrow> list_all c_isdigit ds"
  by (simp_all add: digits_def)

lemma not_digits [simp]: "\<not> c_isdigit CHR ''.''" "\<not> c_isdigit CHR ''e''" "\<not> c_isdigit CHR ''E''" "\<not> c_isdigit CHR ''-''"
  "\<not> c_isdigit CHR ''+''" "\<not> c_isspace CHR ''-''"
  by (simp_all add: c_isdigit_def c_isspace_def less_eq_char_def)

lemma strtoll_end_digits:
  assumes "digits ds"
  shows "strtoll_end ds = length ds" "strtoll_end (CHR ''-'' # ds) = Suc (length ds)"
  using digits_start [OF assms, of "[]"] digitsD(1) [OF assms] take_all_digits [OF assms]
  by (simp_all add: strtoll_end_def)

lemma exponent_length_form: "exponent_form ex \<Longrightarrow> exponent_length ex = length ex"
proof -
  assume ex: "exponent_form ex"
  show ?thesis
  proof (cases "ex = []")
    case False
    then obtain c sg ds where e: "ex = c # sg @ ds" "c = CHR ''e'' \<or> c = CHR ''E''" "sg = [] \<or> sg = ''+'' \<or> sg = ''-''" "digits ds"
      using ex unfolding exponent_form_def by blast
    note d = digits_start [OF e(4), of "[]"] digitsD [OF e(4)]
    have "sign_length (sg @ ds) = length sg" using e(3) d(2) by (auto simp: sign_length_def)
    then show ?thesis using e(1,2) d(3) take_all_digits [OF e(4)] by (auto simp: exponent_length_def Let_def)
  qed (simp add: exponent_length_def)
qed

lemma form_hd:
  assumes "exponent_form ex"
  shows "ex = [] \<or> \<not> c_isdigit (hd ex)" "ex = [] \<or> hd ex \<noteq> CHR ''.''"
    "fraction_form fr \<Longrightarrow> fr @ ex = [] \<or> \<not> c_isdigit (hd (fr @ ex))"
  using assms by (auto simp: exponent_form_def fraction_form_def)

lemma strtod_end_form: "number_form s \<Longrightarrow> strtod_end s = length s"
proof -
  assume "number_form s"
  then obtain m ip fr ex where s: "s = m @ ip @ fr @ ex" "m = [] \<or> m = ''-''" "digits ip" "fraction_form fr" "exponent_form ex"
    unfolding number_form_def by blast
  note d = digits_start [OF s(3), of "fr @ ex"] digitsD [OF s(3)]
  note h = form_hd [OF s(5)]
  have w: "takeWhile c_isspace s = []" "sign_length s = length m" using s(2) d(1,2) by (auto simp: s(1) sign_length_def)
  have ip: "length (takeWhile c_isdigit (ip @ fr @ ex)) = length ip" using take_digits [OF d(4) h(3) [OF s(4)]] by simp
  show ?thesis
  proof (cases "fr = []")
    case True
    then show ?thesis
      using h(2) w ip d(3) exponent_length_form [OF s(5)] by (auto simp: strtod_end_def Let_def s(1))
  next
    case False
    then obtain ds where fr: "fr = CHR ''.'' # ds" "digits ds" using s(4) by (auto simp: fraction_form_def)
    then have "length (takeWhile c_isdigit (ds @ ex)) = length ds" using take_digits [OF digitsD(2) h(1)] by simp
    then show ?thesis
      using fr(1) digitsD(1) [OF fr(2)] w ip d(3) exponent_length_form [OF s(5)] by (simp add: strtod_end_def Let_def s(1))
  qed
qed

text \<open>What the token buffer holds at each label of \<open>scan_number\<close>, with the type found so far.\<close>

definition int_text :: "token_type \<Rightarrow> string \<Rightarrow> bool" where
  "int_text nt s \<longleftrightarrow> nt = value_unsigned \<and> digits s \<or> nt = value_integer \<and> (\<exists>ds. s = CHR ''-'' # ds \<and> digits ds)"

definition mantissa :: "string \<Rightarrow> bool" where
  "mantissa s \<longleftrightarrow> (\<exists>m ip fr. s = m @ ip @ fr \<and> (m = [] \<or> m = ''-'') \<and> digits ip \<and> fraction_form fr)"

fun label_text :: "number_label \<Rightarrow> token_type \<Rightarrow> string \<Rightarrow> bool" where
  "label_text n_minus nt s = (s = ''-'')"
| "label_text n_zero nt s = int_text nt s"
| "label_text n_any1 nt s = int_text nt s"
| "label_text n_decimal1 nt s = (\<exists>nt' t. s = t @ ''.'' \<and> int_text nt' t)"
| "label_text n_decimal2 nt s = (nt = value_float \<and> (\<exists>nt' t ds. s = t @ CHR ''.'' # ds \<and> int_text nt' t \<and> digits ds))"
| "label_text n_exponent nt s = (\<exists>t c. s = t @ [c] \<and> mantissa t \<and> (c = CHR ''e'' \<or> c = CHR ''E''))"
| "label_text n_sign nt s = (nt = value_float \<and>
     (\<exists>t c g. s = t @ [c, g] \<and> mantissa t \<and> (c = CHR ''e'' \<or> c = CHR ''E'') \<and> (g = CHR ''+'' \<or> g = CHR ''-'')))"
| "label_text n_any2 nt s = (nt = value_float \<and> (\<exists>t ex. s = t @ ex \<and> ex \<noteq> [] \<and> mantissa t \<and> exponent_form ex))"

definition done_text :: "token_type \<Rightarrow> string \<Rightarrow> bool" where
  "done_text nt s \<longleftrightarrow> number_form s \<and> (nt \<noteq> value_float \<longrightarrow> int_text nt s)"

lemma int_text_mantissa: "int_text nt s \<Longrightarrow> mantissa s"
  unfolding int_text_def mantissa_def fraction_form_def
  by (elim disjE conjE exE) (rule exI [of _ "[]"], auto, rule exI [of _ "''-''"], auto)

lemma int_text_fraction: "int_text nt t \<Longrightarrow> digits ds \<Longrightarrow> mantissa (t @ CHR ''.'' # ds)"
proof -
  assume t: "int_text nt t" "digits ds"
  then obtain m ip where "t = m @ ip" "m = [] \<or> m = ''-''" "digits ip"
    unfolding int_text_def by (metis append_Cons append_Nil)
  then show ?thesis
    using t(2) unfolding mantissa_def fraction_form_def
    by (intro exI [of _ m] exI [of _ ip] exI [of _ "CHR ''.'' # ds"]) auto
qed

lemma mantissa_form: "mantissa t \<Longrightarrow> exponent_form ex \<Longrightarrow> number_form (t @ ex)"
  unfolding mantissa_def number_form_def by (metis append.assoc)

lemma exponent_form_nil [simp]: "exponent_form []"
  by (simp add: exponent_form_def)

lemma label_done:
  assumes "label_text lab nt s" "number_switch lab c = NDone"
  shows "done_text nt s"
proof -
  consider "lab = n_zero \<or> lab = n_any1" "int_text nt s" | "lab = n_decimal2" | "lab = n_any2"
    using assms by (cases lab) (auto split: if_splits)
  then show ?thesis
  proof cases
    case 1
    then show ?thesis using mantissa_form [OF int_text_mantissa exponent_form_nil] by (auto simp: done_text_def)
  next
    case 2
    then show ?thesis
      using assms(1) mantissa_form [OF int_text_fraction exponent_form_nil] by (auto simp: done_text_def)
  next
    case 3
    then show ?thesis using assms(1) mantissa_form by (auto simp: done_text_def)
  qed
qed

lemma digits_snoc: "digits ds \<Longrightarrow> c_isdigit d \<Longrightarrow> digits (ds @ [d])" "c_isdigit d \<Longrightarrow> digits [d]"
  by (simp_all add: digits_def)

lemma int_text_snoc: "int_text nt s \<Longrightarrow> c_isdigit d \<Longrightarrow> int_text nt (s @ [d])"
  by (auto simp: int_text_def digits_snoc)

lemma exponent_form_snoc:
  assumes a: "exponent_form ex" "ex \<noteq> []" "c_isdigit d"
  shows "exponent_form (ex @ [d])"
proof -
  from a(1,2) obtain c sg ds where e: "ex = c # sg @ ds" "c = CHR ''e'' \<or> c = CHR ''E''" "sg = [] \<or> sg = ''+'' \<or> sg = ''-''" "digits ds"
    unfolding exponent_form_def by blast
  have "ex @ [d] = c # sg @ (ds @ [d])" "digits (ds @ [d])" using e(1) digits_snoc(1) [OF e(4) a(3)] by simp_all
  then show ?thesis using e(2,3) unfolding exponent_form_def by blast
qed

text \<open>The type that the code behind a label sets.\<close>

definition retype :: "number_label \<Rightarrow> token_type \<Rightarrow> token_type" where
  "retype lab nt = (if lab = n_minus then value_integer else if lab = n_decimal1 \<or> lab = n_exponent then value_float else nt)"

text \<open>The conditions of the switch as conditions on characters, and one step from each label.\<close>

lemma switch_codes:
  "is_digit_code (of_char d) \<longleftrightarrow> c_isdigit d" "is_exp_code (of_char d) \<longleftrightarrow> d = CHR ''e'' \<or> d = CHR ''E''"
  "of_char d = (0x30 :: int) \<longleftrightarrow> d = CHR ''0''" "of_char d = (0x2E :: int) \<longleftrightarrow> d = CHR ''.''"
  "of_char d = (0x2B :: int) \<longleftrightarrow> d = CHR ''+''" "of_char d = (0x2D :: int) \<longleftrightarrow> d = CHR ''-''"
  using digit_code [of d] exp_code [of d] of_char_eq_code [of d "CHR ''0''"] of_char_eq_code [of d "CHR ''.''"]
    of_char_eq_code [of d "CHR ''+''"] of_char_eq_code [of d "CHR ''-''"]
  by simp_all

lemma dot_zero_chars: "to_char_type 0x2E = CHR ''.''" "c_isdigit CHR ''0''"
  using to_char_of_char [of "CHR ''.''"] by (simp_all add: c_isdigit_def less_eq_char_def)

lemma goto_minus:
  assumes "label_text n_minus nt s" "number_switch n_minus (of_char d) = NGoto lab' c"
  shows "label_text lab' (retype n_minus nt) (s @ [to_char_type c])"
proof -
  from assms have "c = of_char d" "c_isdigit d" "lab' = n_zero \<or> lab' = n_any1" "s = ''-''"
    using assms dot_zero_chars(2) unfolding number_switch.simps switch_codes by (auto split: if_splits)
  then show ?thesis using digits_snoc(2) [of d] by (auto simp: retype_def int_text_def)
qed

lemma goto_zero:
  assumes "label_text n_zero nt s" "number_switch n_zero (of_char d) = NGoto lab' c"
  shows "label_text lab' (retype n_zero nt) (s @ [to_char_type c])"
proof -
  from assms have "lab' = n_decimal1 \<and> c = 0x2E \<or> lab' = n_exponent \<and> c = of_char d \<and> (d = CHR ''e'' \<or> d = CHR ''E'')"
    using assms(2) unfolding number_switch.simps switch_codes by (auto split: if_splits)
  moreover have "int_text nt s" "mantissa s" using assms(1) int_text_mantissa by simp_all
  ultimately show ?thesis using dot_zero_chars(1) by (elim disjE) (auto simp: retype_def)
qed

lemma goto_any1:
  assumes "label_text n_any1 nt s" "number_switch n_any1 (of_char d) = NGoto lab' c"
  shows "label_text lab' (retype n_any1 nt) (s @ [to_char_type c])"
proof -
  from assms have "lab' = n_decimal1 \<and> c = 0x2E \<or> lab' = n_exponent \<and> c = of_char d \<and> (d = CHR ''e'' \<or> d = CHR ''E'') \<or>
      lab' = n_any1 \<and> c = of_char d \<and> c_isdigit d"
    using assms(2) unfolding number_switch.simps switch_codes by (auto split: if_splits)
  moreover have "int_text nt s" "mantissa s" using assms(1) int_text_mantissa by simp_all
  ultimately show ?thesis using dot_zero_chars(1) int_text_snoc [of nt s d] by (elim disjE) (auto simp: retype_def)
qed

lemma goto_decimal1:
  assumes "label_text n_decimal1 nt s" "number_switch n_decimal1 (of_char d) = NGoto lab' c"
  shows "label_text lab' (retype n_decimal1 nt) (s @ [to_char_type c])"
proof -
  from assms have "lab' = n_decimal2" "c = of_char d" "c_isdigit d"
    using assms(2) unfolding number_switch.simps switch_codes by (auto split: if_splits)
  moreover obtain nt' t where "s = t @ ''.''" "int_text nt' t" using assms(1) by auto
  ultimately show ?thesis using digits_snoc(2) [of d] by (auto simp: retype_def)
qed

lemma goto_decimal2:
  assumes "label_text n_decimal2 nt s" "number_switch n_decimal2 (of_char d) = NGoto lab' c"
  shows "label_text lab' (retype n_decimal2 nt) (s @ [to_char_type c])"
proof -
  from assms have "lab' = n_exponent \<and> c = of_char d \<and> (d = CHR ''e'' \<or> d = CHR ''E'') \<or>
      lab' = n_decimal2 \<and> c = of_char d \<and> c_isdigit d"
    using assms(2) unfolding number_switch.simps switch_codes by (auto split: if_splits)
  moreover obtain nt' t ds where "nt = value_float" "s = t @ CHR ''.'' # ds" "int_text nt' t" "digits ds"
    using assms(1) by auto
  moreover from this have "mantissa s" using int_text_fraction by simp
  moreover have "digits (ds @ [d])" if "c_isdigit d" using digits_snoc(1) that calculation(5) by blast
  ultimately show ?thesis by (elim disjE) (force simp: retype_def)+
qed

lemma goto_exponent:
  assumes "label_text n_exponent nt s" "number_switch n_exponent (of_char d) = NGoto lab' c"
  shows "label_text lab' (retype n_exponent nt) (s @ [to_char_type c])"
proof -
  from assms obtain t e where t: "s = t @ [e]" "mantissa t" "e = CHR ''e'' \<or> e = CHR ''E''" using assms(1) by auto
  have "exponent_form [e, d]" if "c_isdigit d"
    using t(3) digits_snoc(2) [OF that] unfolding exponent_form_def by (metis append_Nil)
  moreover have "lab' = n_sign \<and> c = of_char d \<and> (d = CHR ''+'' \<or> d = CHR ''-'') \<or>
      lab' = n_any2 \<and> c = of_char d \<and> c_isdigit d"
    using assms(2) unfolding number_switch.simps switch_codes by (auto split: if_splits)
  ultimately show ?thesis
  proof (elim disjE [of "_ \<and> _" "_ \<and> _"], goal_cases)
    case 1
    then show ?case using t by (simp add: retype_def)
  next
    case 2
    then show ?case using t by (simp add: retype_def) (rule exI [of _ t], rule exI [of _ "[e, d]"], simp)
  qed
qed

lemma goto_sign:
  assumes "label_text n_sign nt s" "number_switch n_sign (of_char d) = NGoto lab' c"
  shows "label_text lab' (retype n_sign nt) (s @ [to_char_type c])"
proof -
  from assms obtain t e g where t: "s = t @ [e, g]" "mantissa t" "e = CHR ''e'' \<or> e = CHR ''E''" "g = CHR ''+'' \<or> g = CHR ''-''" "nt = value_float"
    using assms(1) by auto
  have "exponent_form [e, g, d]" if "c_isdigit d"
  proof -
    have "[e, g, d] = e # [g] @ [d] \<and> ([g] = ''+'' \<or> [g] = ''-'')" using t(4) by auto
    then show ?thesis using t(3) digits_snoc(2) [OF that] unfolding exponent_form_def by metis
  qed
  moreover have "lab' = n_any2" "c = of_char d" "c_isdigit d"
    using assms(2) unfolding number_switch.simps switch_codes by (auto split: if_splits)
  ultimately show ?thesis
    using t by (simp add: retype_def) (rule exI [of _ t], simp)
qed

lemma goto_any2:
  assumes "label_text n_any2 nt s" "number_switch n_any2 (of_char d) = NGoto lab' c"
  shows "label_text lab' (retype n_any2 nt) (s @ [to_char_type c])"
proof -
  from assms have "lab' = n_any2" "c = of_char d" "c_isdigit d"
    using assms(2) unfolding number_switch.simps switch_codes by (auto split: if_splits)
  moreover obtain t ex where t: "nt = value_float" "s = t @ ex" "ex \<noteq> []" "mantissa t" "exponent_form ex"
    using assms(1) by auto
  ultimately show ?thesis
    using exponent_form_snoc [OF t(5,3), of d]
    by (simp add: retype_def) (rule exI [of _ t], rule exI [of _ "ex @ [d]"], simp)
qed

lemma label_goto:
  assumes "label_text lab nt s" "number_switch lab (of_char d) = NGoto lab' c"
  shows "label_text lab' (retype lab nt) (s @ [to_char_type c])"
  using assms
  by (cases lab) (simp_all only: goto_minus goto_zero goto_any1 goto_decimal1 goto_decimal2 goto_exponent goto_sign goto_any2)

lemma current_char:
  assumes "0 \<le> lx_current l" "lx_current l < 256"
  obtains d where "lx_current l = of_char d"
  using of_char_to_char [OF assms] that by metis

lemma number_switch_byte: "number_switch lab c = NGoto lab' c' \<Longrightarrow> 0 \<le> c \<and> c < 256"
  by (cases lab) (auto simp: is_digit_code_def is_exp_code_def split: if_splits)

lemma scan_number_at_text:
  "scan_number_at lab nt l = (r, l') \<Longrightarrow> label_text lab nt (lx_token_buffer l) \<Longrightarrow>
   lx_failed (lx_unget l') = lx_failed l \<and> lx_failed l' = lx_failed l \<and>
   (\<forall>nt'. r = Some nt' \<longrightarrow> done_text nt' (lx_token_buffer l'))"
proof (induction lab nt l rule: scan_number_at.induct)
  case (1 lab nt l)
  let ?nt = "retype lab nt"
  have eq: "(case number_switch lab (lx_current (lx_get l)) of
        NGoto lab' c \<Rightarrow> scan_number_at lab' ?nt (lx_add c (lx_get l))
      | NDone \<Rightarrow> (Some ?nt, lx_get l)
      | NError m \<Rightarrow> (None, lx_error m (lx_get l))) = (r, l')"
    using 1(2) by (subst (asm) scan_number_at.simps) (simp only: retype_def Let_def)
  have err: "lx_failed (lx_unget (lx_error m (lx_get l))) = lx_failed l" for m
    using failed_unget_get [of l] by (simp add: lx_unget_def lx_error_def Let_def split: if_splits)
  show ?case
  proof (cases "number_switch lab (lx_current (lx_get l))")
    case (NGoto lab' c)
    obtain d where d: "lx_current (lx_get l) = of_char d"
      using current_char number_switch_byte [OF NGoto] by blast
    then have "label_text lab' ?nt (lx_token_buffer (lx_add c (lx_get l)))"
      using label_goto [OF 1(3), of d lab' c] NGoto by (simp only: add_fields(6) get_fields(5))
    then show ?thesis using 1(1) [OF refl refl] NGoto eq by (simp add: retype_def)
  next
    case NDone
    have "label_text lab ?nt (lx_token_buffer l)" using 1(3) NDone by (cases lab) (auto simp: retype_def split: if_splits)
    then have "done_text ?nt (lx_token_buffer l)" using label_done NDone by blast
    then show ?thesis using NDone eq by (auto simp: get_fields)
  next
    case (NError m)
    then show ?thesis using eq err by auto
  qed
qed

lemma scan_number_done_failed:
  assumes "scan_number_done nt l = (t, l')" "done_text nt (lx_token_buffer l)"
  shows "lx_failed l' = lx_failed (lx_unget l)"
proof -
  let ?s = "lx_token_buffer l"
  have "strtod_end ?s = length ?s" using assms(2) strtod_end_form by (simp add: done_text_def)
  moreover have "strtoll_end ?s = length ?s" if "nt = value_unsigned \<or> nt = value_integer"
    using assms(2) that strtoll_end_digits by (auto simp: done_text_def int_text_def)
  ultimately show ?thesis using assms(1) by (auto simp: scan_number_done_def Let_def split: if_splits)
qed

lemma scan_number_failed:
  assumes "scan_number l = (t, l')" "lx_current l = 0x2D \<or> is_digit_code (lx_current l)"
  shows "lx_failed l' = lx_failed l"
proof -
  let ?lab = "if lx_current l = 0x2D then n_minus else if lx_current l = 0x30 then n_zero else n_any1"
  let ?l = "lx_add (lx_current l) (lx_reset l)"
  obtain r l1 where r: "scan_number_at ?lab value_unsigned ?l = (r, l1)" by fastforce
  have "0 \<le> lx_current l" "lx_current l < 256" using assms(2) by (auto simp: is_digit_code_def)
  then obtain d where d: "lx_current l = of_char d" by (rule current_char)
  have minus: "of_char d = (0x2D :: int) \<longleftrightarrow> d = CHR ''-''" using of_char_eq_code [of d "CHR ''-''"] by simp
  have "label_text ?lab value_unsigned (lx_token_buffer ?l)"
    using assms(2) digits_snoc(2) by (auto simp: d minus digit_code int_text_def)
  then have n: "lx_failed (lx_unget l1) = lx_failed l" "lx_failed l1 = lx_failed l"
    "r = Some nt \<Longrightarrow> done_text nt (lx_token_buffer l1)" for nt
    using scan_number_at_text [OF r] by simp_all
  have "scan_number l = (case r of None \<Rightarrow> (parse_error, l1) | Some number_type \<Rightarrow> scan_number_done number_type l1)"
    using r assms(2) by (simp add: scan_number_def Let_def cong: if_cong)
  then show ?thesis using assms(1) n scan_number_done_failed [of _ l1 t l'] by (cases r) auto
qed

section \<open>The lexer\<close>

lemma scan_token_failed:
  assumes "scan_token l = (t, l')"
  shows "lx_failed l' = lx_failed l"
proof -
  have code: "to_char_type (of_char c) = c" for c by simp
  have hds: "to_char_type 0x74 = CHR ''t''" "to_char_type 0x66 = CHR ''f''" "to_char_type 0x6E = CHR ''n''"
    using code [of "CHR ''t''"] code [of "CHR ''f''"] code [of "CHR ''n''"] by simp_all
  show ?thesis
    using assms scan_literal_failed [of "''true''" literal_true l t l'] scan_literal_failed [of "''false''" literal_false l t l']
      scan_literal_failed [of "''null''" literal_null l t l'] scan_string_failed [of l t l'] scan_number_failed [of l t l']
    by (auto simp: scan_token_def Let_def hds split: if_splits)
qed

lemma lx_scan_failed: "lx_scan l = (t, l') \<Longrightarrow> lx_failed l' = lx_failed l"
proof -
  assume s: "lx_scan l = (t, l')"
  obtain b l1 where b: "(if chars_read_total (lx_position l) = 0 then skip_bom l else (True, l)) = (b, l1)" by fastforce
  obtain g l2 where g: "skip_comments (skip_whitespace l1) = (g, l2)" by fastforce
  have "lx_failed l1 = lx_failed l" using b skip_bom_failed by (auto split: if_splits)
  moreover have "lx_failed l2 = lx_failed l1" using skip_comments_failed [OF g] skip_whitespace_failed by simp
  moreover have "l' = l1 \<or> l' = lx_error ''invalid BOM; must be 0xEF 0xBB 0xBF if given'' l1 \<or> l' = l2 \<or> scan_token l2 = (t, l')"
    using s unfolding lx_scan_def b case_prod_conv g by (auto split: if_splits)
  ultimately show ?thesis using scan_token_failed [of l2 t l'] by (elim disjE) simp_all
qed

lemma get_token_failed: "lx_failed (ps_lexer (get_token p)) = lx_failed (ps_lexer p)"
  using lx_scan_failed [of "ps_lexer p"] by (cases "lx_scan (ps_lexer p)") (simp add: get_token_def)

section \<open>The parser\<close>

lemma syntax_error_checked: "\<not> lx_failed (ps_lexer p) \<Longrightarrow> syntax_error p t c =
    Inl (parse_error_exn 101 (lx_position (ps_lexer p)) (exception_message p t c))"
  by (simp add: syntax_error_def lexer_checked_def)

lemma parse_key_failed: "parse_key p d = Inr (p', d') \<Longrightarrow> lx_failed (ps_lexer p') = lx_failed (ps_lexer p)"
  by (auto simp: parse_key_def Let_def syntax_error_def bindr_Inr_iff get_token_failed split: if_splits)

text \<open>The parser a turn ends with has read tokens only.\<close>

definition turn_failed :: "((parser \<times> dom) + (parser \<times> dom \<times> bool list \<times> bool)) res \<Rightarrow> bool \<Rightarrow> bool" where
  "turn_failed r f \<longleftrightarrow>
     (case r of
        Inl _ \<Rightarrow> True
      | Inr (Inl (p, _)) \<Rightarrow> lx_failed (ps_lexer p) = f
      | Inr (Inr (p, _)) \<Rightarrow> lx_failed (ps_lexer p) = f)"

lemma turn_failed_simps [simp]:
  "turn_failed (Inl e) f" "turn_failed (Inr (Inl (p, d))) f \<longleftrightarrow> lx_failed (ps_lexer p) = f"
  "turn_failed (Inr (Inr (p, x))) f \<longleftrightarrow> lx_failed (ps_lexer p) = f" "turn_failed (syntax_error p t c) f"
  by (simp_all add: turn_failed_def syntax_error_def lexer_checked_def)

lemma turn_failed_bindr: "(\<And>x. r = Inr x \<Longrightarrow> turn_failed (k x) f) \<Longrightarrow> turn_failed (bindr r k) f"
  by (cases r) simp_all

lemma turn_failed_key:
  "turn_failed (bindr (parse_key p d) (\<lambda>(p, d). Inr (Inr (p, d, states, False)))) (lx_failed (ps_lexer p))"
  by (rule turn_failed_bindr) (auto dest: parse_key_failed)

lemma state_evaluation_failed: "turn_failed (state_evaluation p d states) (lx_failed (ps_lexer p))"
  using turn_failed_key [of "get_token (get_token p)" d states]
  by (simp add: state_evaluation_def Let_def get_token_failed turn_failed_bindr)

lemma sax_parse_step_turn: "turn_failed (sax_parse_step p d states skip) (lx_failed (ps_lexer p))"
proof -
  have e: "turn_failed (lexer_checked p (Inl e)) f" for e f by (simp add: lexer_checked_def)
  have s: "turn_failed (state_evaluation (get_token p) d states) (lx_failed (ps_lexer p))" for d
    using state_evaluation_failed [of "get_token p"] by (simp add: get_token_failed)
  have k: "turn_failed (bindr (parse_key (get_token p) d) (\<lambda>(p, d). Inr (Inr (p, d, st, False)))) (lx_failed (ps_lexer p))" for d st
    using turn_failed_key [of "get_token p"] by (simp add: get_token_failed)
  show ?thesis
    by (simp add: sax_parse_step_def Let_def s k e state_evaluation_failed get_token_failed turn_failed_bindr split: option.split)
qed

lemma sax_parse_step_failed:
  "sax_parse_step p d states skip = Inr (Inr (p', d', states', skip')) \<Longrightarrow> lx_failed (ps_lexer p') = lx_failed (ps_lexer p)"
  "sax_parse_step p d states skip = Inr (Inl (p', d')) \<Longrightarrow> lx_failed (ps_lexer p') = lx_failed (ps_lexer p)"
  using sax_parse_step_turn [of p d states skip] by simp_all

lemma sax_parse_internal_failed:
  "sax_parse_internal p d states skip = Inr (p', d') \<Longrightarrow> lx_failed (ps_lexer p') = lx_failed (ps_lexer p)"
proof (induction p d states skip rule: sax_parse_internal.induct)
  case (1 p d states skip)
  note eq = 1(2) [unfolded sax_parse_internal.simps [of p d states skip]]
  show ?case
  proof (cases "sax_parse_step p d states skip")
    case (Inr x)
    show ?thesis
    proof (cases x)
      case (Inl y)
      then show ?thesis using eq Inr sax_parse_step_failed(2) by (cases y) simp
    next
      case (Inr y)
      obtain p1 d1 st1 sk1 where y: "y = (p1, d1, st1, sk1)" by (cases y)
      then have s: "sax_parse_step p d states skip = Inr (Inr (p1, d1, st1, sk1))"
        using Inr \<open>sax_parse_step p d states skip = Inr x\<close> by simp
      then show ?thesis using 1(1) [OF s refl refl refl refl] eq sax_parse_step_failed(1) [OF s] by simp
    qed
  qed (use eq in simp)
qed

lemma parser_new_failed: "\<not> lx_failed (ps_lexer (parser_new s c))"
  by (simp add: parser_new_def get_token_failed lexer_new_def)

text \<open>The last check of the parser never finds a failed assertion.\<close>

lemma parser_end_checked:
  assumes "sax_parse_internal (parser_new s c) d states skip = Inr (p, d')"
  shows "lexer_checked (get_token p) r = r"
  using sax_parse_internal_failed [OF assms] parser_new_failed by (simp add: lexer_checked_def get_token_failed)

end
