(* ===== verification/Json_Text.thy ===== *)
theory Json_Text
  imports Json_Asserts
begin

text \<open>
  The grammar of JSON texts (RFC 8259) and the parser: every text of the grammar is parsed, to the value
  the grammar gives it, with any white space and any way to write strings and numbers.
\<close>

section \<open>The grammar\<close>

text \<open>
  White space may stand before each token. An object is the map of its members, in which a later member
  replaces an earlier one with the same key. Two kinds of text of the ABNF are left out, because the code refuses them:
  a number beyond the range of a \<open>double\<close>, and (in \<open>string_body\<close>) an escape that is half of a surrogate pair without the
  other half. A string that is not UTF-8 is no text.
\<close>

definition object_of :: "(string \<times> json) list \<Rightarrow> json" where
  "object_of kvs = JObject (foldl (\<lambda>m (k, v). map_set m k v) [] kvs)"

inductive json_text :: "json \<Rightarrow> string \<Rightarrow> bool"
  and elements_text :: "json list \<Rightarrow> string \<Rightarrow> bool"
  and members_text :: "(string \<times> json) list \<Rightarrow> string \<Rightarrow> bool" where
  text_null: "jws w \<Longrightarrow> json_text JNull (w @ ''null'')"
| text_true: "jws w \<Longrightarrow> json_text (JBool True) (w @ ''true'')"
| text_false: "jws w \<Longrightarrow> json_text (JBool False) (w @ ''false'')"
| text_string: "jws w \<Longrightarrow> string_body v t \<Longrightarrow> json_text (JString v) (w @ [CHR 0x22] @ t @ [CHR 0x22])"
| text_number: "jws w \<Longrightarrow> number_parts m ip fr ex \<Longrightarrow> (\<And>x. number_value m ip fr ex = JFloat x \<Longrightarrow> isfinite x) \<Longrightarrow>
    json_text (number_value m ip fr ex) (w @ m @ ip @ fr @ ex)"
| text_array_empty: "jws w \<Longrightarrow> jws w' \<Longrightarrow> json_text (JArray []) (w @ ''['' @ w' @ '']'')"
| text_array: "jws w \<Longrightarrow> elements_text js t \<Longrightarrow> jws w' \<Longrightarrow> json_text (JArray js) (w @ ''['' @ t @ w' @ '']'')"
| text_object_empty: "jws w \<Longrightarrow> jws w' \<Longrightarrow> json_text (JObject []) (w @ ''{'' @ w' @ ''}'')"
| text_object: "jws w \<Longrightarrow> members_text kvs t \<Longrightarrow> jws w' \<Longrightarrow> json_text (object_of kvs) (w @ ''{'' @ t @ w' @ ''}'')"
| elements_last: "json_text j t \<Longrightarrow> elements_text [j] t"
| elements_more: "json_text j t \<Longrightarrow> jws w \<Longrightarrow> elements_text js u \<Longrightarrow> elements_text (j # js) (t @ w @ '','' @ u)"
| members_last: "jws w \<Longrightarrow> string_body k s \<Longrightarrow> jws w' \<Longrightarrow> json_text j t \<Longrightarrow>
    members_text [(k, j)] (w @ [CHR 0x22] @ s @ [CHR 0x22] @ w' @ '':'' @ t)"
| members_more: "jws w \<Longrightarrow> string_body k s \<Longrightarrow> jws w' \<Longrightarrow> json_text j t \<Longrightarrow> jws w'' \<Longrightarrow> members_text kvs u \<Longrightarrow>
    members_text ((k, j) # kvs) (w @ [CHR 0x22] @ s @ [CHR 0x22] @ w' @ '':'' @ t @ w'' @ '','' @ u)"

section \<open>Pointers into the value under construction\<close>

fun path_ok :: "path \<Rightarrow> json \<Rightarrow> bool" where
  "path_ok [] j \<longleftrightarrow> True"
| "path_ok (SIndex i # p) (JArray js) \<longleftrightarrow> i < length js \<and> path_ok p (js ! i)"
| "path_ok (SKey k # p) (JObject kvs) \<longleftrightarrow> map_ok kvs \<and> (\<exists>v. map_find kvs k = Some v \<and> path_ok p v)"
| "path_ok _ _ \<longleftrightarrow> False"

lemma path_get_write: "path_ok p j \<Longrightarrow> json_get p (json_write p f j) = f (json_get p j)"
  by (induction p j rule: path_ok.induct) (auto simp: map_find_set)

lemma path_ok_write: "path_ok p j \<Longrightarrow> path_ok p (json_write p f j)"
  by (induction p j rule: path_ok.induct) (auto simp: map_find_set map_set_ok)

lemma path_ok_append: "path_ok (p @ q) j \<longleftrightarrow> path_ok p j \<and> path_ok q (json_get p j)"
  by (induction p j rule: path_ok.induct) auto

lemma path_get_append: "path_ok p j \<Longrightarrow> json_get (p @ q) j = json_get q (json_get p j)"
  by (induction p j rule: path_ok.induct) auto

lemma path_write_append: "json_write (p @ q) f j = json_write p (json_write q f) j"
  by (induction p j rule: path_ok.induct) (auto split: option.splits)

lemma map_set_set: "map_ok m \<Longrightarrow> map_set (map_set m k v) k w = map_set m k w"
  by (induction m k v rule: map_set.induct) (auto simp: map_ok_Cons)

lemma path_write_write: "path_ok p j \<Longrightarrow> json_write p f (json_write p g j) = json_write p (\<lambda>x. f (g x)) j"
  by (induction p j rule: path_ok.induct) (auto simp: map_find_set map_set_set)

lemma path_write_cong: "path_ok p j \<Longrightarrow> f (json_get p j) = g (json_get p j) \<Longrightarrow> json_write p f j = json_write p g j"
  by (induction p j rule: path_ok.induct) auto

section \<open>The loop of the parser\<close>

abbreviation mk_dom :: "json \<Rightarrow> path list \<Rightarrow> path option \<Rightarrow> dom" where
  "mk_dom root rs oe \<equiv> \<lparr>sx_root = root, sx_ref_stack = rs, sx_object_element = oe\<rparr>"

text \<open>The place of the next value: a value put there gives \<open>R\<close> with the value at \<open>q\<close>.\<close>

definition slot :: "json \<Rightarrow> path list \<Rightarrow> path option \<Rightarrow> path \<Rightarrow> json \<Rightarrow> bool" where
  "slot root rs oe q R \<longleftrightarrow>
     path_ok q R \<and> (\<forall>v. handle_value v (mk_dom root rs oe) = Inr (q, mk_dom (json_write q (\<lambda>_. v) R) rs oe))"

lemma slot_root: "slot root [] oe [] root"
  by (simp add: slot_def handle_value_def)

lemma slot_array:
  assumes "path_ok q R"
  obtains q' R' where "slot (json_write q (\<lambda>_. JArray acc) R) (rs @ [q]) oe q' R'"
    "\<And>j. json_write q' (\<lambda>_. j) R' = json_write q (\<lambda>_. JArray (acc @ [j])) R"
proof -
  let ?r = "json_write q (\<lambda>_. JArray acc) R"
  let ?R = "json_write q (\<lambda>_. JArray (acc @ [JNull])) R"
  let ?q = "q @ [SIndex (length acc)]"
  have ok: "path_ok q ?r" "path_ok q ?R" using assms path_ok_write by blast+
  have get: "json_get q ?r = JArray acc" "json_get q ?R = JArray (acc @ [JNull])" using path_get_write [OF assms] by simp_all
  have w: "json_write ?q (\<lambda>_. j) ?R = json_write q (\<lambda>_. JArray (acc @ [j])) R" for j
    unfolding path_write_append path_write_write [OF assms] by simp
  have "json_write q (emplace_back v) ?r = json_write q (\<lambda>_. JArray (acc @ [v])) R" for v
    unfolding path_write_write [OF assms] by simp
  then have "slot ?r (rs @ [q]) oe ?q ?R"
    using ok(2) get w by (simp add: slot_def handle_value_def path_ok_append)
  then show thesis using that w by blast
qed

lemma slot_member:
  fixes k :: string
  assumes "path_ok q R" "map_ok acc"
  defines "r \<equiv> json_write q (\<lambda>_. JObject (map_insert acc k JNull)) R"
  shows "slot r (rs @ [q]) (Some (q @ [SKey k])) (q @ [SKey k]) r"
    and "json_write (q @ [SKey k]) (\<lambda>_. j) r = json_write q (\<lambda>_. JObject (map_set acc k j)) R"
proof -
  have get: "json_get q r = JObject (map_insert acc k JNull)" using path_get_write [OF assms(1)] by (simp add: r_def)
  have ok: "path_ok q r" using path_ok_write [OF assms(1)] by (simp add: r_def)
  have "map_find (map_insert acc k JNull) k \<noteq> None" by (simp add: map_find_insert assms(2))
  then show "slot r (rs @ [q]) (Some (q @ [SKey k])) (q @ [SKey k]) r"
    using ok get map_insert_ok [OF assms(2)] by (auto simp: slot_def handle_value_def path_ok_append)
  have "map_set (map_insert acc k JNull) k j = map_set acc k j"
    using map_set_set [OF assms(2)] by (simp add: map_insert_def)
  then show "json_write (q @ [SKey k]) (\<lambda>_. j) r = json_write q (\<lambda>_. JObject (map_set acc k j)) R"
    using assms(2) unfolding path_write_append r_def path_write_write [OF assms(1)]
    by (simp add: map_find_insert split: option.splits)
qed

definition ps_at :: "parser \<Rightarrow> string \<Rightarrow> bool" where
  "ps_at p s \<longleftrightarrow> lx_at (ps_lexer p) s"

lemma get_token_scans:
  assumes "scans s t v r" "ps_at p s"
  shows "ps_last_token (get_token p) = t" "scalar_value (get_token p) = v" "ps_at (get_token p) r"
proof -
  obtain l' where l': "lx_scan (ps_lexer p) = (t, l')" "lx_at l' r" "\<And>p. scalar_value (p\<lparr>ps_last_token := t, ps_lexer := l'\<rparr>) = v"
    using assms by (auto simp: scans_def ps_at_def)
  then have "get_token p = p\<lparr>ps_last_token := t, ps_lexer := l'\<rparr>" by (simp add: get_token_def)
  then show "ps_last_token (get_token p) = t" "scalar_value (get_token p) = v" "ps_at (get_token p) r"
    using l' by (simp_all add: ps_at_def)
qed

lemma run_more: "sax_parse_step p d st sk = Inr (Inr (p', d', st', sk')) \<Longrightarrow>
    sax_parse_internal p d st sk = sax_parse_internal p' d' st' sk'"
  by (subst sax_parse_internal.simps) simp

lemma run_eval: "sax_parse_step p d st sk = state_evaluation p' d' st \<Longrightarrow>
    sax_parse_internal p d st sk = sax_parse_internal p' d' st True"
  by (subst (1 2) sax_parse_internal.simps) (simp add: sax_parse_step_def)

definition value_parsed :: "json \<Rightarrow> string \<Rightarrow> bool" where
  "value_parsed j t \<longleftrightarrow>
     (\<forall>p root rs oe st r q R. ps_at p (t @ r) \<and> number_end r \<and> slot root rs oe q R \<longrightarrow>
        ps_last_token (get_token p) \<noteq> end_array \<and>
        (\<exists>p' oe'. sax_parse_internal (get_token p) (mk_dom root rs oe) st False =
           sax_parse_internal p' (mk_dom (json_write q (\<lambda>_. j) R) rs oe') st True \<and> ps_at p' r))"

lemma value_parsed_scalar:
  assumes "\<And>r. number_end r \<Longrightarrow> scans (t @ r) tok (Some j) r" "\<And>x. j = JFloat x \<Longrightarrow> isfinite x"
  shows "value_parsed j t"
  unfolding value_parsed_def
proof (intro allI impI, elim conjE)
  fix p root rs oe st r q R
  assume h: "ps_at p (t @ r)" "number_end r" "slot root rs oe q R"
  let ?p = "get_token p"
  note g = get_token_scans [OF assms(1) [OF h(2)] h(1)]
  have "ps_last_token ?p \<noteq> begin_object" "ps_last_token ?p \<noteq> begin_array" "ps_last_token ?p \<noteq> end_array"
    "ps_last_token ?p = value_float \<Longrightarrow> isfinite (lx_value_float (ps_lexer ?p))"
    using g(2) assms(2) by (auto simp: scalar_value_def)
  then have "sax_parse_step ?p (mk_dom root rs oe) st False = state_evaluation ?p (mk_dom (json_write q (\<lambda>_. j) R) rs oe) st"
    using g(2) h(3) by (auto simp: sax_parse_step_def dom_value_def slot_def)
  then show "ps_last_token ?p \<noteq> end_array \<and> (\<exists>p' oe'. sax_parse_internal ?p (mk_dom root rs oe) st False =
      sax_parse_internal p' (mk_dom (json_write q (\<lambda>_. j) R) rs oe') st True \<and> ps_at p' r)"
    using run_eval g(3) \<open>ps_last_token ?p \<noteq> end_array\<close> by blast
qed

text \<open>Tokens of one character.\<close>

lemma get_structural:
  assumes "jws w" "structural c = Some t" "ps_at p (w @ c # r)"
  shows "ps_last_token (get_token p) = t" "ps_at (get_token p) r"
  using get_token_scans [OF scans_structural [OF assms(1,2)] assms(3)] by blast+

lemma number_end_ws: "jws w \<Longrightarrow> structural c \<noteq> None \<Longrightarrow> number_end (w @ c # r)"
  by (cases w) (auto simp: number_end_def structural_def jws_def ws_char_def c_isdigit_def less_eq_char_def split: if_splits)

section \<open>Arrays\<close>

definition elements_parsed :: "json list \<Rightarrow> string \<Rightarrow> bool" where
  "elements_parsed js t \<longleftrightarrow>
     (\<forall>p q R acc rs oe st r. ps_at p (t @ r) \<and> number_end r \<and> path_ok q R \<longrightarrow>
        ps_last_token (get_token p) \<noteq> end_array \<and>
        (\<exists>p' oe'. sax_parse_internal (get_token p) (mk_dom (json_write q (\<lambda>_. JArray acc) R) (rs @ [q]) oe) (st @ [True]) False =
           sax_parse_internal p' (mk_dom (json_write q (\<lambda>_. JArray (acc @ js)) R) (rs @ [q]) oe') (st @ [True]) True \<and> ps_at p' r))"

lemma element_parsed:
  assumes "value_parsed j t" "ps_at p (t @ r)" "number_end r" "path_ok q R"
  shows "ps_last_token (get_token p) \<noteq> end_array" (is ?T)
    and "\<exists>p' oe'. sax_parse_internal (get_token p) (mk_dom (json_write q (\<lambda>_. JArray acc) R) (rs @ [q]) oe) st False =
           sax_parse_internal p' (mk_dom (json_write q (\<lambda>_. JArray (acc @ [j])) R) (rs @ [q]) oe') st True \<and> ps_at p' r" (is ?R)
proof -
  obtain q' R' where s: "slot (json_write q (\<lambda>_. JArray acc) R) (rs @ [q]) oe q' R'"
    "\<And>j. json_write q' (\<lambda>_. j) R' = json_write q (\<lambda>_. JArray (acc @ [j])) R" using slot_array [OF assms(4)] by blast
  show ?T ?R using assms(1) [unfolded value_parsed_def] assms(2,3) s by metis+
qed

lemma elements_parsed_last: "value_parsed j t \<Longrightarrow> elements_parsed [j] t"
  unfolding elements_parsed_def using element_parsed by blast

lemma elements_parsed_more:
  assumes "value_parsed j t" "jws w" "elements_parsed js u"
  shows "elements_parsed (j # js) (t @ w @ '','' @ u)"
  unfolding elements_parsed_def
proof (intro allI impI, elim conjE)
  fix p q R acc rs oe st r
  assume at: "ps_at p ((t @ w @ '','' @ u) @ r)" and r: "number_end r" and q: "path_ok q R"
  have at1: "ps_at p (t @ (w @ CHR '','' # u @ r))" using at by simp
  have e1: "number_end (w @ CHR '','' # u @ r)" using number_end_ws [OF assms(2)] by (simp add: structural_def)
  note 1 = element_parsed [OF assms(1) at1 e1 q]
  obtain p1 oe1 where p1: "sax_parse_internal (get_token p) (mk_dom (json_write q (\<lambda>_. JArray acc) R) (rs @ [q]) oe) (st @ [True]) False =
      sax_parse_internal p1 (mk_dom (json_write q (\<lambda>_. JArray (acc @ [j])) R) (rs @ [q]) oe1) (st @ [True]) True"
    "ps_at p1 (w @ CHR '','' # u @ r)" using 1(2) by blast
  note c = get_structural [OF assms(2) _ p1(2), of value_separator]
  have c1: "ps_last_token (get_token p1) = value_separator" "ps_at (get_token p1) (u @ r)" using c by (simp_all add: structural_def)
  have "sax_parse_internal p1 (mk_dom (json_write q (\<lambda>_. JArray (acc @ [j])) R) (rs @ [q]) oe1) (st @ [True]) True =
      sax_parse_internal (get_token (get_token p1)) (mk_dom (json_write q (\<lambda>_. JArray (acc @ [j])) R) (rs @ [q]) oe1) (st @ [True]) False"
    using c1(1) by (intro run_more) (simp add: sax_parse_step_def state_evaluation_def Let_def)
  then show "ps_last_token (get_token p) \<noteq> end_array \<and>
      (\<exists>p' oe'. sax_parse_internal (get_token p) (mk_dom (json_write q (\<lambda>_. JArray acc) R) (rs @ [q]) oe) (st @ [True]) False =
           sax_parse_internal p' (mk_dom (json_write q (\<lambda>_. JArray (acc @ j # js)) R) (rs @ [q]) oe') (st @ [True]) True \<and> ps_at p' r)"
    using 1(1) p1(1) assms(3) [unfolded elements_parsed_def] c1(2) r q by (metis append.assoc append_Cons append_Nil)
qed

text \<open>A container: its first bracket, and its last one when the elements are read.\<close>

lemma array_begin:
  assumes "jws w" "ps_at p (w @ CHR ''['' # r)" "slot root rs oe q R"
  shows "ps_last_token (get_token p) = begin_array" "ps_at (get_token p) r"
    "sax_start_array (mk_dom root rs oe) = Inr (mk_dom (json_write q (\<lambda>_. JArray []) R) (rs @ [q]) oe)"
  using get_structural [OF assms(1) _ assms(2), of begin_array] assms(3)
  by (simp_all add: structural_def sax_start_array_def slot_def)

lemma sax_end_array_ok: "path_ok q R \<Longrightarrow>
    sax_end_array (mk_dom (json_write q (\<lambda>_. JArray js) R) (rs @ [q]) oe) = Inr (mk_dom (json_write q (\<lambda>_. JArray js) R) rs oe)"
  by (simp add: sax_end_array_def path_get_write is_array_def)

lemma array_end:
  assumes "jws w" "ps_at p (w @ CHR '']'' # r)" "path_ok q R"
  shows "sax_parse_internal p (mk_dom (json_write q (\<lambda>_. JArray js) R) (rs @ [q]) oe) (st @ [True]) True =
      sax_parse_internal (get_token p) (mk_dom (json_write q (\<lambda>_. JArray js) R) rs oe) st True" "ps_at (get_token p) r"
proof -
  have "ps_last_token (get_token p) = end_array" "ps_at (get_token p) r"
    using get_structural [OF assms(1) _ assms(2), of end_array] by (simp_all add: structural_def)
  then show "sax_parse_internal p (mk_dom (json_write q (\<lambda>_. JArray js) R) (rs @ [q]) oe) (st @ [True]) True =
      sax_parse_internal (get_token p) (mk_dom (json_write q (\<lambda>_. JArray js) R) rs oe) st True" "ps_at (get_token p) r"
    using sax_end_array_ok [OF assms(3)] by (auto intro!: run_more simp: sax_parse_step_def state_evaluation_def Let_def)
qed

lemma value_parsed_array_empty:
  assumes "jws w" "jws w'"
  shows "value_parsed (JArray []) (w @ ''['' @ w' @ '']'')"
  unfolding value_parsed_def
proof (intro allI impI, elim conjE)
  fix p root rs oe st r q R
  assume at: "ps_at p ((w @ ''['' @ w' @ '']'') @ r)" and s: "slot root rs oe q R"
  have "ps_at p (w @ CHR ''['' # w' @ CHR '']'' # r)" using at by simp
  note b = array_begin [OF assms(1) this s]
  have e: "ps_last_token (get_token (get_token p)) = end_array" "ps_at (get_token (get_token p)) r"
    using get_structural [OF assms(2) _ b(2), of end_array] by (simp_all add: structural_def)
  have "sax_parse_step (get_token p) (mk_dom root rs oe) st False =
      state_evaluation (get_token (get_token p)) (mk_dom (json_write q (\<lambda>_. JArray []) R) rs oe) st"
    using b e(1) s sax_end_array_ok by (simp add: sax_parse_step_def Let_def slot_def)
  then show "ps_last_token (get_token p) \<noteq> end_array \<and> (\<exists>p' oe'. sax_parse_internal (get_token p) (mk_dom root rs oe) st False =
      sax_parse_internal p' (mk_dom (json_write q (\<lambda>_. JArray []) R) rs oe') st True \<and> ps_at p' r)"
    using run_eval e(2) b(1) by (metis token_type.distinct)
qed

lemma value_parsed_array:
  assumes "jws w" "elements_parsed js t" "jws w'"
  shows "value_parsed (JArray js) (w @ ''['' @ t @ w' @ '']'')"
  unfolding value_parsed_def
proof (intro allI impI, elim conjE)
  fix p root rs oe st r q R
  assume at: "ps_at p ((w @ ''['' @ t @ w' @ '']'') @ r)" and s: "slot root rs oe q R"
  have q: "path_ok q R" using s by (simp add: slot_def)
  have "ps_at p (w @ CHR ''['' # t @ w' @ CHR '']'' # r)" using at by simp
  note b = array_begin [OF assms(1) this s]
  have n: "number_end (w' @ CHR '']'' # r)" using number_end_ws [OF assms(3)] by (simp add: structural_def)
  let ?p = "get_token (get_token p)"
  let ?d = "\<lambda>js. mk_dom (json_write q (\<lambda>_. JArray js) R) (rs @ [q])"
  obtain p1 oe1 where 1: "ps_last_token ?p \<noteq> end_array"
      "sax_parse_internal ?p (?d [] oe) (st @ [True]) False = sax_parse_internal p1 (?d ([] @ js) oe1) (st @ [True]) True"
      "ps_at p1 (w' @ CHR '']'' # r)"
    using assms(2) [unfolded elements_parsed_def] b(2) n q by blast
  have "sax_parse_step (get_token p) (mk_dom root rs oe) st False = Inr (Inr (?p, ?d [] oe, st @ [True], False))"
    using b 1(1) by (simp add: sax_parse_step_def Let_def)
  from run_more [OF this] show "ps_last_token (get_token p) \<noteq> end_array \<and>
      (\<exists>p' oe'. sax_parse_internal (get_token p) (mk_dom root rs oe) st False =
      sax_parse_internal p' (mk_dom (json_write q (\<lambda>_. JArray js) R) rs oe') st True \<and> ps_at p' r)"
    using 1(2) array_end [OF assms(3) 1(3) q] b(1) by (metis append_Nil token_type.distinct)
qed

section \<open>Objects\<close>

lemma parse_key_ok:
  assumes "jws w" "string_body k s" "jws w'" "ps_at p (w @ [CHR 0x22] @ s @ [CHR 0x22] @ w' @ '':'' @ r)" "path_ok q R" "map_ok acc"
  obtains p' where "parse_key (get_token p) (mk_dom (json_write q (\<lambda>_. JObject acc) R) (rs @ [q]) oe) =
      Inr (get_token p', mk_dom (json_write q (\<lambda>_. JObject (map_insert acc k JNull)) R) (rs @ [q]) (Some (q @ [SKey k])))"
    "ps_at p' r" "ps_last_token (get_token p) = value_string"
proof -
  have at: "ps_at p (w @ CHR 0x22 # s @ CHR 0x22 # w' @ CHR '':'' # r)" using assms(4) by simp
  note 1 = get_token_scans [OF scans_string [OF assms(1,2)] at]
  have k: "lx_token_buffer (ps_lexer (get_token p)) = k" using 1(1,2) by (simp add: scalar_value_def)
  note 2 = get_structural [OF assms(3) _ 1(3), of name_separator]
  have "dom_key k (mk_dom (json_write q (\<lambda>_. JObject acc) R) (rs @ [q]) oe) =
      Inr (mk_dom (json_write q (\<lambda>_. JObject (map_insert acc k JNull)) R) (rs @ [q]) (Some (q @ [SKey k])))"
    by (simp add: dom_key_def Let_def path_get_write [OF assms(5)] is_object_def path_write_write [OF assms(5)])
  then show thesis
    using that [of "get_token (get_token p)"] 1(1) 2 k by (simp add: parse_key_def Let_def structural_def)
qed

definition put_members :: "(string \<times> json) list \<Rightarrow> (string \<times> json) list \<Rightarrow> (string \<times> json) list" where
  "put_members = foldl (\<lambda>m (k, v). map_set m k v)"

lemma put_members_Cons: "put_members acc ((k, j) # kvs) = put_members (map_set acc k j) kvs"
  by (simp add: put_members_def)

definition members_parsed :: "(string \<times> json) list \<Rightarrow> string \<Rightarrow> bool" where
  "members_parsed kvs t \<longleftrightarrow>
     (\<forall>p q R acc rs oe st r. ps_at p (t @ r) \<and> number_end r \<and> path_ok q R \<and> map_ok acc \<longrightarrow>
        (\<exists>p1 d1 p' oe'. parse_key (get_token p) (mk_dom (json_write q (\<lambda>_. JObject acc) R) (rs @ [q]) oe) = Inr (p1, d1) \<and>
           ps_last_token (get_token p) = value_string \<and>
           sax_parse_internal p1 d1 (st @ [False]) False =
             sax_parse_internal p' (mk_dom (json_write q (\<lambda>_. JObject (put_members acc kvs)) R) (rs @ [q]) oe') (st @ [False]) True \<and>
           ps_at p' r))"

lemma member_parsed:
  assumes "jws w" "string_body k s" "jws w'" "value_parsed j t" "ps_at p (w @ [CHR 0x22] @ s @ [CHR 0x22] @ w' @ '':'' @ t @ r)"
    "number_end r" "path_ok q R" "map_ok acc"
  obtains p1 d1 p' oe' where "parse_key (get_token p) (mk_dom (json_write q (\<lambda>_. JObject acc) R) (rs @ [q]) oe) = Inr (p1, d1)"
    "ps_last_token (get_token p) = value_string"
    "sax_parse_internal p1 d1 st False =
       sax_parse_internal p' (mk_dom (json_write q (\<lambda>_. JObject (map_set acc k j)) R) (rs @ [q]) oe') st True" "ps_at p' r"
proof -
  obtain p1 where p1: "parse_key (get_token p) (mk_dom (json_write q (\<lambda>_. JObject acc) R) (rs @ [q]) oe) =
      Inr (get_token p1, mk_dom (json_write q (\<lambda>_. JObject (map_insert acc k JNull)) R) (rs @ [q]) (Some (q @ [SKey k])))"
    "ps_at p1 (t @ r)" "ps_last_token (get_token p) = value_string"
    using parse_key_ok [OF assms(1-3) _ assms(7,8), of p "t @ r"] assms(5) by blast
  note s = slot_member [OF assms(7,8), of k]
  obtain p2 oe2 where "sax_parse_internal (get_token p1)
      (mk_dom (json_write q (\<lambda>_. JObject (map_insert acc k JNull)) R) (rs @ [q]) (Some (q @ [SKey k]))) st False =
      sax_parse_internal p2 (mk_dom (json_write q (\<lambda>_. JObject (map_set acc k j)) R) (rs @ [q]) oe2) st True" "ps_at p2 r"
    using assms(4) [unfolded value_parsed_def] p1(2) assms(6) s by metis
  then show thesis using that p1(1,3) by blast
qed

lemma members_parsed_last:
  assumes "jws w" "string_body k s" "jws w'" "value_parsed j t"
  shows "members_parsed [(k, j)] (w @ [CHR 0x22] @ s @ [CHR 0x22] @ w' @ '':'' @ t)"
  unfolding members_parsed_def put_members_def
proof (intro allI impI, elim conjE, goal_cases)
  case (1 p q R acc rs oe st r)
  have at: "ps_at p (w @ [CHR 0x22] @ s @ [CHR 0x22] @ w' @ '':'' @ t @ r)" using 1(1) by simp
  show ?case
    by (rule member_parsed [OF assms at 1(2,3,4), of rs oe "st @ [False]"]) auto
qed

lemma members_parsed_more:
  assumes "jws w" "string_body k s" "jws w'" "value_parsed j t" "jws w''" "members_parsed kvs u"
  shows "members_parsed ((k, j) # kvs) (w @ [CHR 0x22] @ s @ [CHR 0x22] @ w' @ '':'' @ t @ w'' @ '','' @ u)"
  unfolding members_parsed_def
proof (intro allI impI, elim conjE, goal_cases)
  case (1 p q R acc rs oe st r)
  let ?d = "\<lambda>m. mk_dom (json_write q (\<lambda>_. JObject m) R) (rs @ [q])"
  have e: "number_end (w'' @ CHR '','' # u @ r)" using number_end_ws [OF assms(5)] by (simp add: structural_def)
  have at: "ps_at p (w @ [CHR 0x22] @ s @ [CHR 0x22] @ w' @ '':'' @ t @ (w'' @ CHR '','' # u @ r))" using 1(1) by simp
  obtain p1 d1 p2 oe2 where k1: "parse_key (get_token p) (?d acc oe) = Inr (p1, d1)" "ps_last_token (get_token p) = value_string"
      "sax_parse_internal p1 d1 (st @ [False]) False = sax_parse_internal p2 (?d (map_set acc k j) oe2) (st @ [False]) True"
      "ps_at p2 (w'' @ CHR '','' # u @ r)"
    by (rule member_parsed [OF assms(1-4) at e 1(3,4), of rs oe "st @ [False]"])
  have c: "ps_last_token (get_token p2) = value_separator" "ps_at (get_token p2) (u @ r)"
    using get_structural [OF assms(5) _ k1(4), of value_separator] by (simp_all add: structural_def)
  obtain p3 d3 p4 oe4 where k3: "parse_key (get_token (get_token p2)) (?d (map_set acc k j) oe2) = Inr (p3, d3)"
      "sax_parse_internal p3 d3 (st @ [False]) False =
       sax_parse_internal p4 (?d (put_members (map_set acc k j) kvs) oe4) (st @ [False]) True" "ps_at p4 r"
    using assms(6) [unfolded members_parsed_def] c(2) 1(2,3) map_set_ok [OF 1(4)] by blast
  have "sax_parse_internal p2 (?d (map_set acc k j) oe2) (st @ [False]) True = sax_parse_internal p3 d3 (st @ [False]) False"
    using c(1) k3(1) by (intro run_more) (simp add: sax_parse_step_def state_evaluation_def Let_def)
  then show ?case using k1 k3 unfolding put_members_Cons by metis
qed

lemma object_begin:
  assumes "jws w" "ps_at p (w @ CHR ''{'' # r)" "slot root rs oe q R"
  shows "ps_last_token (get_token p) = begin_object" "ps_at (get_token p) r"
    "sax_start_object (mk_dom root rs oe) = Inr (mk_dom (json_write q (\<lambda>_. JObject []) R) (rs @ [q]) oe)"
  using get_structural [OF assms(1) _ assms(2), of begin_object] assms(3)
  by (simp_all add: structural_def sax_start_object_def slot_def)

lemma sax_end_object_ok: "path_ok q R \<Longrightarrow>
    sax_end_object (mk_dom (json_write q (\<lambda>_. JObject m) R) (rs @ [q]) oe) = Inr (mk_dom (json_write q (\<lambda>_. JObject m) R) rs oe)"
  by (simp add: sax_end_object_def path_get_write is_object_def)

lemma object_end:
  assumes "jws w" "ps_at p (w @ CHR ''}'' # r)" "path_ok q R"
  shows "sax_parse_internal p (mk_dom (json_write q (\<lambda>_. JObject m) R) (rs @ [q]) oe) (st @ [False]) True =
      sax_parse_internal (get_token p) (mk_dom (json_write q (\<lambda>_. JObject m) R) rs oe) st True" "ps_at (get_token p) r"
proof -
  have "ps_last_token (get_token p) = end_object" "ps_at (get_token p) r"
    using get_structural [OF assms(1) _ assms(2), of end_object] by (simp_all add: structural_def)
  then show "sax_parse_internal p (mk_dom (json_write q (\<lambda>_. JObject m) R) (rs @ [q]) oe) (st @ [False]) True =
      sax_parse_internal (get_token p) (mk_dom (json_write q (\<lambda>_. JObject m) R) rs oe) st True" "ps_at (get_token p) r"
    using sax_end_object_ok [OF assms(3)] by (auto intro!: run_more simp: sax_parse_step_def state_evaluation_def Let_def)
qed

lemma value_parsed_object_empty:
  assumes "jws w" "jws w'"
  shows "value_parsed (JObject []) (w @ ''{'' @ w' @ ''}'')"
  unfolding value_parsed_def
proof (intro allI impI, elim conjE, goal_cases)
  case (1 p root rs oe st r q R)
  have "ps_at p (w @ CHR ''{'' # w' @ CHR ''}'' # r)" using 1(1) by simp
  note b = object_begin [OF assms(1) this 1(3)]
  have e: "ps_last_token (get_token (get_token p)) = end_object" "ps_at (get_token (get_token p)) r"
    using get_structural [OF assms(2) _ b(2), of end_object] by (simp_all add: structural_def)
  have "sax_parse_step (get_token p) (mk_dom root rs oe) st False =
      state_evaluation (get_token (get_token p)) (mk_dom (json_write q (\<lambda>_. JObject []) R) rs oe) st"
    using b e(1) 1(3) sax_end_object_ok by (simp add: sax_parse_step_def Let_def slot_def)
  then show ?case using run_eval e(2) b(1) by (metis token_type.distinct)
qed

lemma value_parsed_object:
  assumes "jws w" "members_parsed kvs t" "jws w'"
  shows "value_parsed (object_of kvs) (w @ ''{'' @ t @ w' @ ''}'')"
  unfolding value_parsed_def
proof (intro allI impI, elim conjE, goal_cases)
  case (1 p root rs oe st r q R)
  have q: "path_ok q R" using 1(3) by (simp add: slot_def)
  have "ps_at p (w @ CHR ''{'' # t @ w' @ CHR ''}'' # r)" using 1(1) by simp
  note b = object_begin [OF assms(1) this 1(3)]
  have n: "number_end (w' @ CHR ''}'' # r)" using number_end_ws [OF assms(3)] by (simp add: structural_def)
  let ?p = "get_token (get_token p)"
  let ?d = "\<lambda>m. mk_dom (json_write q (\<lambda>_. JObject m) R) (rs @ [q])"
  obtain p1 d1 p2 oe2 where k: "parse_key ?p (?d [] oe) = Inr (p1, d1)" "ps_last_token ?p = value_string"
      "sax_parse_internal p1 d1 (st @ [False]) False = sax_parse_internal p2 (?d (put_members [] kvs) oe2) (st @ [False]) True"
      "ps_at p2 (w' @ CHR ''}'' # r)"
    using assms(2) [unfolded members_parsed_def] b(2) n q map_ok_Nil by blast
  have "sax_parse_step (get_token p) (mk_dom root rs oe) st False = Inr (Inr (p1, d1, st @ [False], False))"
    using b k(1,2) by (simp add: sax_parse_step_def Let_def)
  from run_more [OF this] show ?case
    using k(3) object_end [OF assms(3) k(4) q] b(1) unfolding object_of_def put_members_def by (metis token_type.distinct)
qed

section \<open>Every text of the grammar is parsed\<close>

lemma json_text_parsed:
  "json_text j t \<Longrightarrow> value_parsed j t"
  "elements_text js t \<Longrightarrow> elements_parsed js t"
  "members_text kvs t \<Longrightarrow> members_parsed kvs t"
proof (induction rule: json_text_elements_text_members_text.inducts)
  case (text_null w)
  show ?case using scans_null [OF text_null] by (intro value_parsed_scalar) auto
next
  case (text_true w)
  show ?case using scans_true [OF text_true] by (intro value_parsed_scalar) auto
next
  case (text_false w)
  show ?case using scans_false [OF text_false] by (intro value_parsed_scalar) auto
next
  case (text_string w v t)
  show ?case using scans_string [OF text_string] by (intro value_parsed_scalar) auto
next
  case (text_number w m ip fr ex)
  show ?case using scans_number [OF text_number(1,2)] text_number(3) by (intro value_parsed_scalar) auto
qed (rule value_parsed_array_empty value_parsed_array value_parsed_object_empty value_parsed_object
    elements_parsed_last elements_parsed_more members_parsed_last members_parsed_more; assumption)+

lemma number_end_simps: "number_end (w @ [])" if "jws w" for w
  using that by (cases w) (auto simp: number_end_def jws_def ws_char_def c_isdigit_def less_eq_char_def)

lemma json_parse_complete:
  assumes "json_text j t" "jws w" "r = [] \<or> (\<exists>z. r = NUL # z)"
  shows "json_parse (t @ w @ r) = Inr j"
proof -
  let ?p = "\<lparr>ps_last_token = uninitialized, ps_lexer = lexer_new (t @ w @ r) False\<rparr>"
  have at: "ps_at ?p (t @ w @ r)" by (simp add: ps_at_def lx_at_def lexer_new_def inp_def lx_inv_def eof_def)
  have n: "number_end (w @ r)"
    using assms(2,3) number_end_simps
    by (cases w) (auto simp: number_end_def NUL_def jws_def ws_char_def c_isdigit_def less_eq_char_def)
  obtain p' oe' where p': "sax_parse_internal (get_token ?p) dom_new [] False = sax_parse_internal p' (mk_dom j [] oe') [] True"
      "ps_at p' (w @ r)"
    using json_text_parsed(1) [OF assms(1), unfolded value_parsed_def] at n slot_root [of JNull None]
    unfolding dom_new_def by (metis json_write.simps(1))
  have "sax_parse_internal p' (mk_dom j [] oe') [] True = Inr (p', mk_dom j [] oe')"
    by (subst sax_parse_internal.simps) (simp add: sax_parse_step_def state_evaluation_def)
  moreover have "ps_last_token (get_token p') = end_of_input"
    using assms(3) p'(2) get_token_scans(1) [OF scans_end(1) [OF assms(2)]] get_token_scans(1) [OF scans_end(2) [OF assms(2)]] by auto
  moreover from calculation(1) have e: "sax_parse_internal (parser_new (t @ w @ r) False) dom_new [] False = Inr (p', mk_dom j [] oe')"
    using p'(1) by (simp add: parser_new_def)
  moreover have "lexer_checked (get_token p') x = x" for x :: "json res" by (rule parser_end_checked [OF e])
  ultimately show ?thesis
    using p'(1) by (simp add: json_parse_def parser_new_def parser_parse_strict_def Let_def)
qed

end
