(* ===== verification/Json_Cached.thy ===== *)
theory Json_Cached
  imports Json_Float
begin

text \<open>
  The table of powers of ten that the printing of \<open>double\<close> numbers uses: every entry is its power up to half
  a unit in the last place, and the entry that is chosen brings the exponent of the product into the range
  that the generation of digits needs.
\<close>

section \<open>The entries\<close>

text \<open>
  Each entry of the table is its power of ten up to half a unit in the last place. The powers of two are
  cancelled, so that the check computes with powers of five.
\<close>

definition cached_ok :: "cached_power \<Rightarrow> bool" where
  "cached_ok c =
     (case c of (f, e, k) \<Rightarrow>
        2 ^ 63 \<le> f \<and> f < 2 ^ 64 \<and> - 300 \<le> k \<and> k \<le> 324 \<and>
        (if k < 0 then e < k \<and> 2 * \<bar>5 ^ nat (- k) * int f - 2 ^ nat (k - e)\<bar> \<le> 5 ^ nat (- k)
         else if e < k then int f = 5 ^ nat k * 2 ^ nat (k - e)
         else 2 * \<bar>int f * 2 ^ nat (e - k) - 5 ^ nat k\<bar> \<le> 2 ^ nat (e - k)))"

lemma cached_ok_1: "list_all cached_ok (take 4 (drop 0 kCachedPowers))"
  unfolding kCachedPowers_def by (simp add: cached_ok_def)

lemma cached_ok_2: "list_all cached_ok (take 4 (drop 4 kCachedPowers))"
  unfolding kCachedPowers_def by (simp add: cached_ok_def)

lemma cached_ok_3: "list_all cached_ok (take 5 (drop 8 kCachedPowers))"
  unfolding kCachedPowers_def by (simp add: cached_ok_def)

lemma cached_ok_4: "list_all cached_ok (take 6 (drop 13 kCachedPowers))"
  unfolding kCachedPowers_def by (simp add: cached_ok_def)

lemma cached_ok_5: "list_all cached_ok (take 8 (drop 19 kCachedPowers))"
  unfolding kCachedPowers_def by (simp add: cached_ok_def)

lemma cached_ok_6: "list_all cached_ok (take 33 (drop 27 kCachedPowers))"
  unfolding kCachedPowers_def by (simp add: cached_ok_def)

lemma cached_ok_7: "list_all cached_ok (take 9 (drop 60 kCachedPowers))"
  unfolding kCachedPowers_def by (simp add: cached_ok_def)

lemma cached_ok_8: "list_all cached_ok (drop 69 kCachedPowers)"
  unfolding kCachedPowers_def by (simp add: cached_ok_def)

lemma cached_all_ok: "list_all cached_ok kCachedPowers"
proof -
  have "kCachedPowers = take 4 (drop 0 kCachedPowers) @
      take 4 (drop 4 kCachedPowers) @
      take 5 (drop 8 kCachedPowers) @
      take 6 (drop 13 kCachedPowers) @
      take 8 (drop 19 kCachedPowers) @
      take 33 (drop 27 kCachedPowers) @
      take 9 (drop 60 kCachedPowers) @
      drop 69 kCachedPowers"
    unfolding kCachedPowers_def by simp
  then show ?thesis
    using cached_ok_1 cached_ok_2 cached_ok_3 cached_ok_4 cached_ok_5 cached_ok_6 cached_ok_7 cached_ok_8
    by (metis list_all_append)
qed

section \<open>The choice of an entry\<close>

text \<open>The binary exponents fit the rounded multiples of the logarithm of 2 that give the index.\<close>

definition entry_fits :: "nat \<times> cached_power \<Rightarrow> bool" where
  "entry_fits x =
     (case x of (i, f, e, k) \<Rightarrow>
        k = 8 * int i - 300 \<and> 78913 * (e + 34) < (8 * int i - 308) * 2 ^ 18 \<and> (8 * int i - 300) * 2 ^ 18 < 78913 * (e + 64))"

lemma entries_fit: "list_all entry_fits (enumerate 0 kCachedPowers)"
  unfolding kCachedPowers_def by (simp add: entry_fits_def)

lemma length_cached [simp]: "length kCachedPowers = 79"
  unfolding kCachedPowers_def by simp

lemma entry_fits_nth: "i < 79 \<Longrightarrow> entry_fits (i, kCachedPowers ! i)"
  using entries_fit by (auto simp: list_all_iff in_set_enumerate_eq)

lemma cached_ok_nth: "i < 79 \<Longrightarrow> cached_ok (kCachedPowers ! i)"
  using cached_all_ok by (auto simp: list_all_iff)

lemma sdiv_bounds:
  fixes f :: int
  defines "k \<equiv> (f * 78913) sdiv 2 ^ 18 + (if f > 0 then 1 else 0)"
  shows "(k - 1) * 2 ^ 18 \<le> 78913 * f" "78913 * f \<le> k * 2 ^ 18"
proof -
  have b: "\<bar>f * 78913\<bar> div 2 ^ 18 * 2 ^ 18 \<le> \<bar>f * 78913\<bar>" "\<bar>f * 78913\<bar> < (\<bar>f * 78913\<bar> div 2 ^ 18 + 1) * 2 ^ 18"
    using div_mult_mod_eq [of "\<bar>f * 78913\<bar>" "2 ^ 18"] by (simp_all add: algebra_simps)
  have s: "(f * 78913) sdiv 2 ^ 18 = sgn f * (\<bar>f * 78913\<bar> div 2 ^ 18)" by (simp add: signed_divide_int_def sgn_mult)
  consider "f = 0" | "0 < f" | "f < 0" by linarith
  then show "(k - 1) * 2 ^ 18 \<le> 78913 * f" "78913 * f \<le> k * 2 ^ 18"
    using b unfolding k_def s by (cases; simp)+
qed

lemma get_cached_power_ok:
  assumes "- 1137 \<le> e" "e \<le> 960"
  obtains cf ce ck where "get_cached_power_for_binary_exponent e = Inr (cf, ce, ck)" "cached_ok (cf, ce, ck)"
    "- 60 \<le> ce + e + 64" "ce + e + 64 \<le> - 32"
proof -
  define f where "f = kAlpha - e - 1"
  define k where "k = (f * 78913) sdiv 2 ^ 18 + (if f > 0 then 1 else 0)"
  have k: "(k - 1) * 2 ^ 18 \<le> 78913 * f" "78913 * f \<le> k * 2 ^ 18" unfolding k_def by (rule sdiv_bounds)+
  have f: "- 1021 \<le> f" "f \<le> 1076" using assms by (simp_all add: f_def kAlpha_def)
  have kb: "- 307 \<le> k" "k \<le> 324" using k f by simp_all
  define i where "i = nat ((307 + k) div 8)"
  have i1: "int i = (307 + k) div 8" using kb(1) by (simp add: i_def)
  have sd: "a sdiv 8 = a div 8" if "0 \<le> a" for a :: int using that by (simp add: signed_divide_int_def sgn_if)
  have "cached_index e = (300 + k + (8 - 1)) sdiv 8"
    by (simp only: cached_index_def Let_def k_def f_def)
  also have "300 + k + (8 - 1) = 307 + k" by simp
  also have "(307 + k) sdiv 8 = int i" using sd [of "307 + k"] kb(1) i1 by simp
  finally have i: "int i = (307 + k) div 8" "cached_index e = int i" "i < 79" using i1 kb(2) by simp_all
  obtain cf ce ck where c: "kCachedPowers ! i = (cf, ce, ck)" by (cases "kCachedPowers ! i") auto
  have fit: "78913 * (ce + 34) < (8 * int i - 308) * 2 ^ 18" "(8 * int i - 300) * 2 ^ 18 < 78913 * (ce + 64)"
    using entry_fits_nth [OF i(3)] c by (simp_all add: entry_fits_def)
  have "8 * int i - 307 \<le> k" "k \<le> 8 * int i - 300" using i(1) by linarith+
  then have "ce + 35 \<le> f" "f \<le> ce + 63" using fit k by simp_all
  then have "- 60 \<le> ce + e + 64" "ce + e + 64 \<le> - 32" by (simp_all add: f_def kAlpha_def)
  moreover from this have "get_cached_power_for_binary_exponent e = Inr (cf, ce, ck)"
    using assms i(2,3) c by (simp add: get_cached_power_for_binary_exponent_def Let_def kAlpha_def kGamma_def)
  ultimately show thesis using that cached_ok_nth [OF i(3)] c by simp
qed

end
