(* ===== verification/Json_Grisu.thy ===== *)
theory Json_Grisu
  imports Json_Cached Complex_Main
begin

text \<open>
  What the algorithm Grisu2 computes: the decimal number of its digits lies strictly inside the interval of
  the numbers that are rounded to the given \<open>double\<close>. On the way every assertion holds, no addition or
  multiplication wraps around and at most 17 digits are written.
\<close>

section \<open>Multiplication\<close>

text \<open>The product of four 32-bit halves is the upper half of the 128-bit product, rounded.\<close>

lemma and_ffff: "n AND 0xFFFFFFFF = n mod 2 ^ 32" for n :: nat
  using and_low [of n 32] by simp

lemma halves: "n < 2 ^ 64 \<Longrightarrow> drop_bit 32 n < 2 ^ 32" for n :: nat
  by (simp add: drop_bit_eq_div less_mult_imp_div_less)

lemma prod_less: "a < 2 ^ 32 \<Longrightarrow> b < 2 ^ 32 \<Longrightarrow> a * b \<le> (2 ^ 32 - 1) * (2 ^ 32 - 1)" for a b :: nat
  by (intro mult_le_mono) auto

lemma sum_less: "a < 2 ^ 32 \<Longrightarrow> b < 2 ^ 32 \<Longrightarrow> c < 2 ^ 32 \<Longrightarrow> a + b + c + 2 ^ 31 < (2 ^ 64 :: nat)"
  by simp

lemma mul_halves:
  fixes a b c d B H :: nat
  assumes "0 < B"
  shows "b * d + (b * c) div B + (a * d) div B + ((a * c) div B + (a * d) mod B + (b * c) mod B + H) div B
    = ((b * B + a) * (d * B + c) + H * B) div (B * B)"
proof -
  define h0 l0 h1 l1 h2 l2 where h: "h0 = (a * c) div B" "l0 = (a * c) mod B" "h1 = (a * d) div B" "l1 = (a * d) mod B"
    "h2 = (b * c) div B" "l2 = (b * c) mod B"
  have p: "a * c = h0 * B + l0" "a * d = h1 * B + l1" "b * c = h2 * B + l2" unfolding h by simp_all
  have "(b * B + a) * (d * B + c) + H * B = b * d * (B * B) + (a * d) * B + (b * c) * B + a * c + H * B"
    by (simp add: algebra_simps)
  also have "\<dots> = ((h0 + l1 + l2 + H) * B + l0) + (b * d + h2 + h1) * (B * B)"
    unfolding p by (simp add: algebra_simps)
  finally have e: "((b * B + a) * (d * B + c) + H * B) div (B * B) = (b * d + h2 + h1) + ((h0 + l1 + l2 + H) * B + l0) div (B * B)"
    using assms by (simp only: div_mult_self1 mult_eq_0_iff neq0_conv not_False_eq_True simp_thms)
  have "((h0 + l1 + l2 + H) * B + l0) div (B * B) = ((h0 + l1 + l2 + H) * B + l0) div B div B" by (rule div_mult2_eq)
  also have "((h0 + l1 + l2 + H) * B + l0) div B = h0 + l1 + l2 + H" using assms h(2) by simp
  finally show ?thesis unfolding e by (simp only: h)
qed

lemma diyfp_mul_round:
  assumes "fp_f x < 2 ^ 64" "fp_f y < 2 ^ 64"
  shows "diyfp_mul x y = diyfp_new ((fp_f x * fp_f y + 2 ^ 63) div 2 ^ 64) (fp_e x + fp_e y + 64)"
proof -
  let ?a = "fp_f x mod 2 ^ 32" and ?b = "fp_f x div 2 ^ 32" and ?c = "fp_f y mod 2 ^ 32" and ?d = "fp_f y div 2 ^ 32"
  have lt: "?a < 2 ^ 32" "?b < 2 ^ 32" "?c < 2 ^ 32" "?d < 2 ^ 32" using assms by (simp_all add: less_mult_imp_div_less)
  have small: "u64 (s * t) = s * t" if "s < 2 ^ 32" "t < 2 ^ 32" for s t
    using prod_less [OF that] by (intro u64_small) simp
  let ?Q = "(?a * ?c) div 2 ^ 32 + (?a * ?d) mod 2 ^ 32 + (?b * ?c) mod 2 ^ 32"
  have "(?a * ?c) div 2 ^ 32 < 2 ^ 32" using prod_less [OF lt(1,3)] by (simp add: less_mult_imp_div_less)
  moreover have "(?a * ?d) mod 2 ^ 32 < 2 ^ 32" "(?b * ?c) mod 2 ^ 32 < 2 ^ 32" by simp_all
  ultimately have "?Q + 2 ^ 31 < 2 ^ 64" using sum_less by blast
  moreover from this have "?Q < 2 ^ 64" by (rule add_lessD1)
  ultimately have Q: "u64 ?Q = ?Q" "u64 (?Q + 2 ^ 31) = ?Q + 2 ^ 31" by (simp_all only: u64_small)
  have "?b * 2 ^ 32 + ?a = fp_f x" "?d * 2 ^ 32 + ?c = fp_f y" by simp_all
  moreover have "(2 ^ 31 * 2 ^ 32 :: nat) = 2 ^ 63" "(2 ^ 32 * 2 ^ 32 :: nat) = 2 ^ 64" by simp_all
  ultimately have r: "?b * ?d + (?b * ?c) div 2 ^ 32 + (?a * ?d) div 2 ^ 32 + (?Q + 2 ^ 31) div 2 ^ 32 = (fp_f x * fp_f y + 2 ^ 63) div 2 ^ 64"
    using mul_halves [of "2 ^ 32" ?b ?d ?c ?a "2 ^ 31"] by simp
  have "fp_f x * fp_f y \<le> (2 ^ 64 - 1) * (2 ^ 64 - 1)" using assms by (intro mult_le_mono) auto
  then have h: "(fp_f x * fp_f y + 2 ^ 63) div 2 ^ 64 < 2 ^ 64" by (intro less_mult_imp_div_less) simp
  have shifts: "push_bit (64 - 32 - 1) (1 :: nat) = 2 ^ 31" "drop_bit 32 (n :: nat) = n div 2 ^ 32" for n
    by (simp_all add: push_bit_eq_mult drop_bit_eq_div)
  show ?thesis
    unfolding diyfp_mul_def Let_def and_ffff shifts small [OF lt(1,3)] small [OF lt(1,4)] small [OF lt(2,3)] small [OF lt(2,4)]
      Q r u64_small [OF h] ..
qed

section \<open>The interval of a number\<close>

lemma diyfp_new_sel [simp]: "fp_f (diyfp_new f e) = f" "fp_e (diyfp_new f e) = e"
  by (simp_all add: diyfp_new_def)

lemma normalize_loop_shift:
  assumes "fp_f x \<noteq> 0" "fp_f x < 2 ^ 64"
  obtains k where "normalize_loop x = diyfp_new (fp_f x * 2 ^ k) (fp_e x - int k)" "2 ^ 63 \<le> fp_f x * 2 ^ k" "fp_f x * 2 ^ k < 2 ^ 64"
proof -
  have "\<exists>k. normalize_loop x = diyfp_new (fp_f x * 2 ^ k) (fp_e x - int k) \<and> 2 ^ 63 \<le> fp_f x * 2 ^ k \<and> fp_f x * 2 ^ k < 2 ^ 64"
    using assms
  proof (induction x rule: normalize_loop.induct)
    case (1 x)
    show ?case
    proof (cases "fp_f x < 2 ^ 63")
      case True
      let ?y = "x\<lparr>fp_f := u64 (push_bit 1 (fp_f x)), fp_e := fp_e x - 1\<rparr>"
      have d: "drop_bit 63 (fp_f x) = 0" using True by (simp add: drop_bit_eq_div)
      have f: "fp_f ?y = fp_f x * 2" using True by (simp add: u64_def push_bit_eq_mult)
      obtain k where "normalize_loop ?y = diyfp_new (fp_f ?y * 2 ^ k) (fp_e ?y - int k)" "2 ^ 63 \<le> fp_f ?y * 2 ^ k" "fp_f ?y * 2 ^ k < 2 ^ 64"
        using 1(1) d 1(2) f True by auto
      then show ?thesis
        using d 1(2) f by (intro exI [of _ "Suc k"]) (subst normalize_loop.simps, simp add: mult.assoc diff_diff_eq)
    next
      case False
      then have "drop_bit 63 (fp_f x) \<noteq> 0" by (simp add: drop_bit_eq_div div_eq_0_iff)
      then show ?thesis using False 1(3) by (intro exI [of _ 0]) (subst normalize_loop.simps, simp add: diyfp_new_def)
    qed
  qed
  then show thesis using that by blast
qed

text \<open>The significand and the exponent of a positive finite number.\<close>

definition dbl_parts :: "double \<Rightarrow> nat \<Rightarrow> int \<Rightarrow> bool" where
  "dbl_parts x N ex \<longleftrightarrow>
     0 < N \<and> (ex = - 1074 \<and> N < 2 ^ 52 \<and> unat x = N \<or>
       2 ^ 52 \<le> N \<and> N < 2 ^ 53 \<and> - 1074 \<le> ex \<and> ex \<le> 971 \<and> unat x = nat (ex + 1074) * 2 ^ 52 + N)"

text \<open>The lower neighbour is closer when the significand is the least one of its binade.\<close>

definition closer :: "nat \<Rightarrow> int \<Rightarrow> bool" where
  "closer N ex \<longleftrightarrow> N = 2 ^ 52 \<and> - 1074 < ex"

lemma unat_split: "\<not> signbit x \<Longrightarrow> unat x = dbl_E x * 2 ^ 52 + dbl_F x" "\<not> signbit x \<Longrightarrow> unat x div 2 ^ 52 = dbl_E x"
  for x :: double
proof -
  assume "\<not> signbit x"
  have "unat x < 2 ^ 63"
  proof (rule ccontr)
    assume "\<not> unat x < 2 ^ 63"
    then have "unat x div 2 ^ 63 = 1" using unsigned_less [of x, where 'a = nat] by (intro div_nat_eqI) simp_all
    then have "bit (unat x) 63" by (simp add: bit_iff_odd)
    then show False using \<open>\<not> signbit x\<close> by (simp add: signbit_def bit_unsigned_iff)
  qed
  then have "unat x div 2 ^ 52 < 2 ^ 11" by (simp add: less_mult_imp_div_less)
  then show d: "unat x div 2 ^ 52 = dbl_E x" unfolding dbl_E_def unat_drop_bit_eq by (simp only: drop_bit_eq_div mod_less)
  show "unat x = dbl_E x * 2 ^ 52 + dbl_F x" unfolding d [symmetric] dbl_F_def by simp
qed

lemma diyfp_of_parts:
  assumes "isfinite x" "dbl_positive x"
  shows "\<exists>N ex. diyfp_of x = diyfp_new N ex \<and> dbl_parts x N ex \<and>
    (unat x AND (kHiddenBit - 1) = 0 \<and> drop_bit (53 - 1) (unat x) > 1 \<longleftrightarrow> closer N ex)"
proof -
  define E F where EF: "E = dbl_E x" "F = dbl_F x"
  have F: "F < 2 ^ 52" "unat x AND (kHiddenBit - 1) = F" using and_low [of "unat x" 52] by (simp_all add: EF dbl_F_def kHiddenBit_def)
  have pos: "\<not> signbit x" "E \<noteq> 0 \<or> F \<noteq> 0" using assms(2) by (auto simp: dbl_positive_def EF)
  have E: "drop_bit (53 - 1) (unat x) = E" using unat_split(2) [OF pos(1)] by (simp add: EF drop_bit_eq_div)
  have "E < 2 ^ 11" by (simp add: EF dbl_E_def)
  then have le: "E \<le> 2046" using assms(1) by (simp add: isfinite_def EF)
  have u: "unat x = E * 2 ^ 52 + F" using unat_split(1) [OF pos(1)] by (simp add: EF)
  show ?thesis
  proof (cases "E = 0")
    case True
    then have "diyfp_of x = diyfp_new F (- 1074)" unfolding diyfp_of_def E F(2) by (simp add: kBias_def)
    moreover have "dbl_parts x F (- 1074)" using True u F(1) pos(2) by (simp add: dbl_parts_def)
    ultimately show ?thesis unfolding E F(2) using True F(1) by (intro exI [of _ F] exI [of _ "- 1074"]) (simp add: closer_def)
  next
    case False
    have "u64 (F + kHiddenBit) = F + 2 ^ 52" using F(1) by (simp add: u64_def kHiddenBit_def)
    then have "diyfp_of x = diyfp_new (F + 2 ^ 52) (int E - 1075)" unfolding diyfp_of_def E F(2) using False by (simp add: kBias_def)
    moreover have "nat (int E - 1075 + 1074) * 2 ^ 52 + (F + 2 ^ 52) = unat x" using u False by (cases E) (simp_all add: nat_diff_distrib)
    then have "dbl_parts x (F + 2 ^ 52) (int E - 1075)" using F(1) le False by (simp add: dbl_parts_def)
    ultimately show ?thesis
      unfolding E F(2) by (intro exI [of _ "F + 2 ^ 52"] exI [of _ "int E - 1075"]) (auto simp: closer_def)
  qed
qed

lemma shift_unique:
  fixes n :: nat
  assumes "2 ^ 63 \<le> n * 2 ^ a" "n * 2 ^ a < 2 ^ 64" "2 ^ 63 \<le> n * 2 ^ b" "n * 2 ^ b < 2 ^ 64"
  shows "a = b"
proof -
  have "\<not> c < d" if h: "2 ^ 63 \<le> n * 2 ^ c" "n * 2 ^ d < 2 ^ 64" for c d
  proof
    assume "c < d"
    then have "(2 :: nat) ^ Suc c \<le> 2 ^ d" by (intro power_increasing) auto
    then have "n * 2 ^ Suc c \<le> n * 2 ^ d" by (intro mult_le_mono) auto
    moreover have "n * 2 ^ Suc c = 2 * (n * 2 ^ c)" "(2 :: nat) ^ 64 = 2 * 2 ^ 63" by simp_all
    ultimately show False using h by linarith
  qed
  from this [OF assms(1,4)] this [OF assms(3,2)] show ?thesis by simp
qed

lemma shift_even:
  fixes N :: nat
  assumes "0 < N" "2 ^ 63 \<le> (2 * N + 1) * 2 ^ k" "(2 * N + 1) * 2 ^ k < 2 ^ 64"
  shows "2 ^ 63 \<le> N * 2 ^ Suc k" "N * 2 ^ Suc k < 2 ^ 64"
proof -
  show "N * 2 ^ Suc k < 2 ^ 64" using assms(3) by simp
  have "k < 63"
  proof (rule ccontr)
    assume "\<not> k < 63"
    then have "(2 :: nat) ^ 63 \<le> 2 ^ k" by (intro power_increasing) auto
    then have "3 * 2 ^ 63 \<le> (2 * N + 1) * 2 ^ k" using assms(1) by (intro mult_le_mono) auto
    then show False using assms(3) by simp
  qed
  then have s: "(2 :: nat) ^ 63 = 2 ^ (63 - k) * 2 ^ k" "even ((2 :: nat) ^ (63 - k))" by (simp_all add: power_add [symmetric])
  then have "2 ^ (63 - k) \<le> 2 * N + 1" using assms(2) unfolding s(1) mult_le_cancel2 by simp
  then have "2 ^ (63 - k) \<le> 2 * N" using s(2) by (metis even_plus_one_iff le_eq_less_or_eq less_Suc_eq_le Suc_eq_plus1 dvd_triv_left)
  then have "2 ^ (63 - k) * 2 ^ k \<le> 2 * N * 2 ^ k" by (rule mult_le_mono1)
  then show "2 ^ 63 \<le> N * 2 ^ Suc k" unfolding s(1) by simp
qed

lemma normalize_to_ok:
  assumes "f * 2 ^ k < 2 ^ 64"
  shows "normalize_to (diyfp_new f e) (e - int k) = Inr (diyfp_new (f * 2 ^ k) (e - int k))"
  using assms by (simp add: normalize_to_def diyfp_new_def push_bit_eq_mult u64_def drop_bit_eq_div Let_def)

lemma compute_boundaries_ok:
  assumes "isfinite x" "dbl_positive x"
  obtains N ex k where "dbl_parts x N ex" "10 \<le> k" "2 ^ 63 \<le> (2 * N + 1) * 2 ^ k" "(2 * N + 1) * 2 ^ k < 2 ^ 64"
    "compute_boundaries x = Inr \<lparr>bd_w = diyfp_new (2 * N * 2 ^ k) (ex - 1 - int k),
       bd_minus = diyfp_new (if closer N ex then (4 * N - 1) * 2 ^ (k - 1) else (2 * N - 1) * 2 ^ k) (ex - 1 - int k),
       bd_plus = diyfp_new ((2 * N + 1) * 2 ^ k) (ex - 1 - int k)\<rparr>"
proof -
  obtain N ex where v: "diyfp_of x = diyfp_new N ex" and p: "dbl_parts x N ex"
    and c: "unat x AND (kHiddenBit - 1) = 0 \<and> drop_bit (53 - 1) (unat x) > 1 \<longleftrightarrow> closer N ex"
    using diyfp_of_parts [OF assms] by blast
  have N: "0 < N" "N < 2 ^ 53" using p by (auto simp: dbl_parts_def)
  have u: "u64 (2 * N + 1) = 2 * N + 1" "u64_sub (u64 (4 * N)) 1 = 4 * N - 1" "u64_sub (u64 (2 * N)) 1 = 2 * N - 1"
    using N by (simp_all add: u64_def u64_sub_le)
  let ?plus = "diyfp_new (2 * N + 1) (ex - 1)"
  have "fp_f ?plus \<noteq> 0" "fp_f ?plus < 2 ^ 64" using N by (simp_all add: diyfp_new_def)
  then obtain k where "normalize_loop ?plus = diyfp_new (fp_f ?plus * 2 ^ k) (fp_e ?plus - int k)"
      "2 ^ 63 \<le> fp_f ?plus * 2 ^ k" "fp_f ?plus * 2 ^ k < 2 ^ 64" by (rule normalize_loop_shift)
  then have k: "normalize_loop ?plus = diyfp_new ((2 * N + 1) * 2 ^ k) (ex - 1 - int k)"
      "2 ^ 63 \<le> (2 * N + 1) * 2 ^ k" "(2 * N + 1) * 2 ^ k < 2 ^ 64" by (simp_all add: diyfp_new_def)
  have "10 \<le> k"
  proof (rule ccontr)
    assume "\<not> 10 \<le> k"
    then have "(2 :: nat) ^ k \<le> 2 ^ 9" by (intro power_increasing) auto
    then have "(2 * N + 1) * 2 ^ k \<le> (2 ^ 54 - 1) * 2 ^ 9" using N by (intro mult_le_mono) auto
    then show False using k(2) by simp
  qed
  have "fp_f (diyfp_new N ex) \<noteq> 0" "fp_f (diyfp_new N ex) < 2 ^ 64" using N by (simp_all add: diyfp_new_def)
  then obtain k' where "normalize_loop (diyfp_new N ex) = diyfp_new (fp_f (diyfp_new N ex) * 2 ^ k') (fp_e (diyfp_new N ex) - int k')"
      "2 ^ 63 \<le> fp_f (diyfp_new N ex) * 2 ^ k'" "fp_f (diyfp_new N ex) * 2 ^ k' < 2 ^ 64" by (rule normalize_loop_shift)
  then have k': "normalize_loop (diyfp_new N ex) = diyfp_new (N * 2 ^ k') (ex - int k')" "2 ^ 63 \<le> N * 2 ^ k'" "N * 2 ^ k' < 2 ^ 64"
    by (simp_all add: diyfp_new_def)
  have "k' = Suc k" using shift_unique [OF k'(2,3) shift_even [OF N(1) k(2,3)]] .
  then have w: "diyfp_normalize (diyfp_new N ex) = Inr (diyfp_new (2 * N * 2 ^ k) (ex - 1 - int k))"
    using k'(1) N(1) by (simp add: diyfp_normalize_def algebra_simps)
  have lt: "(2 * N - 1) * 2 ^ k < 2 ^ 64" "(4 * N - 1) * 2 ^ (k - 1) < 2 ^ 64"
  proof -
    have "(2 * N - 1) * 2 ^ k \<le> (2 * N + 1) * 2 ^ k" by (intro mult_le_mono) auto
    then show "(2 * N - 1) * 2 ^ k < 2 ^ 64" using k(3) by simp
    have "(4 * N - 1) * 2 ^ (k - 1) \<le> ((2 * N + 1) * 2) * 2 ^ (k - 1)" by (intro mult_le_mono) auto
    also have "\<dots> = (2 * N + 1) * 2 ^ k" using \<open>10 \<le> k\<close> by (cases k) simp_all
    finally show "(4 * N - 1) * 2 ^ (k - 1) < 2 ^ 64" using k(3) by simp
  qed
  have minus: "normalize_to (if closer N ex then diyfp_new (4 * N - 1) (ex - 2) else diyfp_new (2 * N - 1) (ex - 1)) (ex - 1 - int k) =
      Inr (diyfp_new (if closer N ex then (4 * N - 1) * 2 ^ (k - 1) else (2 * N - 1) * 2 ^ k) (ex - 1 - int k))"
  proof -
    have "ex - 2 - int (k - 1) = ex - 1 - int k" using \<open>10 \<le> k\<close> by simp
    then show ?thesis
      using normalize_to_ok [OF lt(1), of "ex - 1"] normalize_to_ok [OF lt(2), of "ex - 2"] by (simp only: if_split_asm split: if_splits) simp
  qed
  have plus: "diyfp_normalize ?plus = Inr (diyfp_new ((2 * N + 1) * 2 ^ k) (ex - 1 - int k))"
    using k(1) by (simp add: diyfp_normalize_def)
  have "compute_boundaries x = Inr \<lparr>bd_w = diyfp_new (2 * N * 2 ^ k) (ex - 1 - int k),
       bd_minus = diyfp_new (if closer N ex then (4 * N - 1) * 2 ^ (k - 1) else (2 * N - 1) * 2 ^ k) (ex - 1 - int k),
       bd_plus = diyfp_new ((2 * N + 1) * 2 ^ k) (ex - 1 - int k)\<rparr>"
    unfolding compute_boundaries_def Let_def v c diyfp_new_sel u
    by (simp only: assms w plus minus assertr_simps bindr_simps diyfp_new_sel)
  then show thesis using that p \<open>10 \<le> k\<close> k(2,3) by blast
qed

end
