(* ===== verification/Json_Digits.thy ===== *)
theory Json_Digits
  imports Json_Grisu
begin

text \<open>
  The generation of digits: the decimal number it writes lies between its two bounds. No assertion of
  \<open>grisu2_round\<close> and \<open>grisu2_digit_gen\<close> fails, nothing wraps around and at most 17 digits are written.
\<close>

section \<open>Rounding\<close>

lemma digit_char_eq: "char_of (48 + d) = digit_char d"
  by (simp add: digit_char_def)

lemma char_dec_digit: "0 < d \<Longrightarrow> d < 10 \<Longrightarrow> char_dec (digit_char d) = digit_char (d - 1)"
  unfolding char_dec_def by (simp add: mod_if) (simp add: digit_char_def)

lemma digit_char_zero: "d < 10 \<Longrightarrow> digit_char d = CHR ''0'' \<longleftrightarrow> d = 0"
proof -
  assume d: "d < 10"
  have "digit_char 0 = CHR ''0''" by code_simp
  then show ?thesis using of_char_digit [OF d] of_char_digit [of 0] by (metis add_left_cancel zero_less_numeral)
qed

lemma grisu2_round_loop_ok:
  assumes "d < 10" "rest \<le> delta" "delta < 2 ^ 64" "delta < rest + d * ten_k"
  shows "\<exists>j < d. grisu2_round_loop (digit_char d) dst delta rest ten_k = Inr (digit_char (d - j)) \<and> rest + j * ten_k \<le> delta"
  using assms
proof (induction d arbitrary: rest)
  case (Suc d)
  let ?c = "rest < dst \<and> ten_k \<le> u64_sub delta rest \<and>
         (u64 (rest + ten_k) < dst \<or> u64_sub (u64 (rest + ten_k)) dst < u64_sub dst rest)"
  show ?case
  proof (cases ?c)
    case True
    have s: "u64_sub delta rest = delta - rest" using Suc(3,4) by (rule u64_sub_le)
    then have "ten_k \<le> delta - rest" using True by argo
    then have le: "rest + ten_k \<le> delta" using Suc(3) by linarith
    then have u: "u64 (rest + ten_k) = rest + ten_k" using Suc(4) by (intro u64_small) simp
    have "delta < (rest + ten_k) + d * ten_k" using Suc(5) by simp
    from Suc.IH [OF _ le Suc(4) this] Suc(2) obtain j where j: "j < d"
      "grisu2_round_loop (digit_char d) dst delta (rest + ten_k) ten_k = Inr (digit_char (d - j))" "rest + ten_k + j * ten_k \<le> delta"
      by auto
    have "grisu2_round_loop (digit_char (Suc d)) dst delta rest ten_k = Inr (digit_char (Suc d - Suc j))"
      using True Suc(2) char_dec_digit [of "Suc d"] digit_char_zero [of "Suc d"] j(2)
      by (subst grisu2_round_loop.simps) (simp only: if_True u, simp)
    then show ?thesis using j(1,3) by (intro exI [of _ "Suc j"]) simp
  next
    case False
    then have "grisu2_round_loop (digit_char (Suc d)) dst delta rest ten_k = Inr (digit_char (Suc d))"
      by (subst grisu2_round_loop.simps) (simp only: if_False)
    then show ?thesis using Suc(3) by (intro exI [of _ 0]) simp
  qed
qed simp

text \<open>Digits without a leading zero.\<close>

definition good_digits :: "string \<Rightarrow> bool" where
  "good_digits ds \<longleftrightarrow> list_all c_isdigit ds \<and> (ds \<noteq> [] \<longrightarrow> hd ds \<noteq> CHR ''0'')"

lemma good_digits_snoc: "good_digits ds \<Longrightarrow> d < 10 \<Longrightarrow> ds = [] \<longrightarrow> 0 < d \<Longrightarrow> good_digits (ds @ [digit_char d])"
  using digit_char_zero [of d] by (cases ds) (auto simp: good_digits_def)

lemma digits_val_digit: "d < 10 \<Longrightarrow> digits_val (ds @ [digit_char d]) = 10 * digits_val ds + d"
  by (simp add: digits_val_snoc)

lemma grisu2_round_ok:
  assumes "good_digits ds" "d < 10" "dst \<le> delta" "rest \<le> delta" "delta < 2 ^ 64" "delta < rest + d * ten_k"
  shows "\<exists>j buf. grisu2_round (ds @ [digit_char d]) dst delta rest ten_k = Inr buf \<and> good_digits buf \<and>
    length buf = length ds + 1 \<and> digits_val buf + j = 10 * digits_val ds + d \<and> rest + j * ten_k \<le> delta"
proof -
  obtain j where j: "j < d" "grisu2_round_loop (digit_char d) dst delta rest ten_k = Inr (digit_char (d - j))" "rest + j * ten_k \<le> delta"
    using grisu2_round_loop_ok [OF assms(2,4-6)] by blast
  have "0 < ten_k" using assms(4,6) by (cases ten_k) auto
  then have "grisu2_round (ds @ [digit_char d]) dst delta rest ten_k = Inr (ds @ [digit_char (d - j)])"
    using assms(3,4) j(2) by (simp add: grisu2_round_def)
  moreover have "good_digits (ds @ [digit_char (d - j)])" using assms(1,2) j(1) by (intro good_digits_snoc) auto
  ultimately show ?thesis using j assms(2) by (intro exI [of _ j] exI [of _ "ds @ [digit_char (d - j)]"]) (simp add: digits_val_digit)
qed

section \<open>The integral part\<close>

text \<open>
  \<open>between ds n Mm Mp B\<close>: the number \<open>ds * 10 ^ n\<close>, in units of \<open>1 / B\<close>, lies between \<open>Mm\<close> and \<open>Mp\<close>.
\<close>

definition between :: "string \<Rightarrow> int \<Rightarrow> nat \<Rightarrow> nat \<Rightarrow> nat \<Rightarrow> bool" where
  "between ds n Mm Mp B \<longleftrightarrow>
     (if 0 \<le> n then Mm \<le> digits_val ds * 10 ^ nat n * B \<and> digits_val ds * 10 ^ nat n * B \<le> Mp
      else Mm * 10 ^ nat (- n) \<le> digits_val ds * B \<and> digits_val ds * B \<le> Mp * 10 ^ nat (- n))"

lemma between_fraction: "between ds (- int (Suc m)) Mm Mp B \<longleftrightarrow>
    Mm * 10 ^ Suc m \<le> digits_val ds * B \<and> digits_val ds * B \<le> Mp * 10 ^ Suc m"
  unfolding between_def minus_minus nat_int by simp

lemma between_dist:
  assumes "V * u * B + x = Mp * t" "x \<le> (Mp - Mm) * t" "Mm \<le> Mp"
  shows "Mm * t \<le> V * u * B \<and> V * u * B \<le> Mp * (t :: nat)"
  using assms mult_le_mono1 [OF assms(3), of t] unfolding diff_mult_distrib by linarith

lemma digit_split: "(10 * v + d) * t * B + (r * B + q) = v * (10 * t) * B + (d * t + r) * B + (q :: nat)"
  by (simp add: algebra_simps)

lemma digits_integral_ok:
  assumes "p1 < 10 ^ n" "p2 < 2 ^ sh" "digits_val buf * 10 ^ n * 2 ^ sh + p1 * 2 ^ sh + p2 = Mp" "Mp < 2 ^ 64"
    and "Mm \<le> Mp" "dst \<le> Mp - Mm" "Mp - Mm < p1 * 2 ^ sh + p2" "good_digits buf" "length buf + n \<le> cap"
    and "buf = [] \<Longrightarrow> 0 < n \<and> 10 ^ (n - 1) \<le> p1" "0 < n \<Longrightarrow> 10 ^ (n - 1) * 2 ^ sh \<le> Mp"
  shows "(\<exists>ds j. digits_integral cap n p1 (10 ^ (n - 1)) p2 (Mp - Mm) dst sh buf = Inr (Inl (ds, int j)) \<and>
      good_digits ds \<and> ds \<noteq> [] \<and> length ds + j = length buf + n \<and> between ds (int j) Mm Mp (2 ^ sh)) \<or>
    (\<exists>ds. digits_integral cap n p1 (10 ^ (n - 1)) p2 (Mp - Mm) dst sh buf = Inr (Inr ds) \<and>
      good_digits ds \<and> ds \<noteq> [] \<and> length ds = length buf + n \<and> digits_val ds * 2 ^ sh + p2 = Mp \<and> Mp - Mm < p2)"
  using assms
proof (induction n arbitrary: p1 buf)
  case 0
  then show ?case by auto
next
  case (Suc n)
  define B :: nat where "B = 2 ^ sh"
  note h = Suc.prems [folded B_def]
  let ?d = "p1 div 10 ^ n" and ?r = "p1 mod 10 ^ n"
  have p1: "p1 = ?d * 10 ^ n + ?r" by (rule div_mult_mod_eq [symmetric])
  have d: "?d < 10" using h(1) by (simp add: less_mult_imp_div_less mult.commute)
  have r: "?r < 10 ^ n" by simp
  have eq: "(10 * digits_val buf + ?d) * 10 ^ n * B + (?r * B + p2) = Mp"
    using h(3) p1 digit_split [of "digits_val buf" ?d "10 ^ n" B ?r p2] by simp
  have rest: "u64 (u64 (push_bit sh ?r) + p2) = ?r * B + p2" using eq h(4) by (simp add: u64_small push_bit_eq_mult B_def)
  have ten: "u64 (push_bit sh (10 ^ n)) = 10 ^ n * B" using h(4,11) by (simp add: u64_small push_bit_eq_mult B_def)
  have put: "put_digit cap buf ?d = Inr (buf @ [digit_char ?d])" using h(9) by (simp add: put_digit_def digit_char_eq)
  have first: "buf = [] \<longrightarrow> 0 < ?d" using h(10) by (auto simp: div_greater_zero_iff)
  have more: "Mp - Mm < (?r * B + p2) + ?d * (10 ^ n * B)"
    using h(7) p1 digit_split [of 0 ?d "10 ^ n" B ?r p2] by (simp add: mult.assoc)
  show ?case
  proof (cases "?r * B + p2 \<le> Mp - Mm")
    case True
    have "Mp - Mm < 2 ^ 64" using h(4) by simp
    from grisu2_round_ok [OF h(8) d h(6) True this more] obtain j ds where ds:
      "grisu2_round (buf @ [digit_char ?d]) dst (Mp - Mm) (?r * B + p2) (10 ^ n * B) = Inr ds" "good_digits ds"
      "length ds = length buf + 1" "digits_val ds + j = 10 * digits_val buf + ?d" "?r * B + p2 + j * (10 ^ n * B) \<le> Mp - Mm" by blast
    have "digits_val ds * 10 ^ n * B + (?r * B + p2 + j * (10 ^ n * B)) = Mp * 1"
      using eq unfolding ds(4) [symmetric] by (simp add: algebra_simps)
    from between_dist [OF this _ h(5)] ds(5) have "between ds (int n) Mm Mp B" by (simp add: between_def)
    then show ?thesis
      using True put rest ten ds d by (intro disjI1 exI [of _ ds] exI [of _ n]) (auto simp: Let_def B_def)
  next
    case False
    have v: "digits_val (buf @ [digit_char ?d]) = 10 * digits_val buf + ?d" using d by (rule digits_val_digit)
    have next_pow: "(10 :: nat) ^ n div 10 = 10 ^ (n - 1)" if "0 < n" using that by (cases n) simp_all
    have step: "digits_integral cap (Suc n) p1 (10 ^ (Suc n - 1)) p2 (Mp - Mm) dst sh buf =
        digits_integral cap n ?r (10 ^ n div 10) p2 (Mp - Mm) dst sh (buf @ [digit_char ?d])"
      using False put rest d by (simp add: Let_def B_def)
    have pre: "?r < 10 ^ n" "digits_val (buf @ [digit_char ?d]) * 10 ^ n * 2 ^ sh + ?r * 2 ^ sh + p2 = Mp"
      "Mp - Mm < ?r * 2 ^ sh + p2" "good_digits (buf @ [digit_char ?d])" "length (buf @ [digit_char ?d]) + n \<le> cap"
      using r eq False h(9) good_digits_snoc [OF h(8) d first] v by (simp_all add: B_def)
    have low: "10 ^ (n - 1) * 2 ^ sh \<le> Mp" if "0 < n"
    proof -
      have "(10 :: nat) ^ (n - 1) * 2 ^ sh \<le> 10 ^ n * 2 ^ sh" by (intro mult_le_mono power_increasing) auto
      also have "\<dots> \<le> Mp" using h(11) by (simp add: B_def)
      finally show ?thesis .
    qed
    show ?thesis
    proof (cases "n = 0")
      case True
      then show ?thesis using step pre h(2,7) False by (auto simp: B_def)
    next
      case n: False
      then have "(10 :: nat) ^ n div 10 = 10 ^ (n - 1)" using next_pow by simp
      then show ?thesis
        using Suc.IH [OF pre(1) Suc.prems(2) pre(2) h(4,5,6) pre(3-5) _ low] n unfolding step by auto
    qed
  qed
qed

section \<open>The fraction\<close>

lemma good_digits_val:
  assumes "good_digits ds" "ds \<noteq> []"
  shows "10 ^ (length ds - 1) \<le> digits_val ds"
  using assms
proof (induction ds rule: rev_induct)
  case (snoc c ds)
  show ?case
  proof (cases "ds = []")
    case True
    have "c_isdigit c" "c \<noteq> CHR ''0''" using snoc(2) True by (simp_all add: good_digits_def)
    then have "(of_char c :: nat) \<noteq> of_char (CHR ''0'')" "(48 :: nat) \<le> of_char c"
      by (simp_all only: of_char_eq_iff not_False_eq_True) (auto simp: c_isdigit_def less_eq_char_def)
    then show ?thesis using True by (simp add: digits_val_def)
  next
    case False
    then have "good_digits ds" using snoc(2) by (simp add: good_digits_def)
    then have "10 ^ (length ds - 1) \<le> digits_val ds" using snoc(1) False by blast
    moreover have "(10 :: nat) ^ length ds = 10 * 10 ^ (length ds - 1)" using False by (cases ds) simp_all
    ultimately show ?thesis unfolding digits_val_snoc by simp
  qed
qed simp

text \<open>Digits of the fraction are only written while fewer than 17 are there, because \<open>delta\<close> is not too small.\<close>

lemma digits_room:
  assumes "good_digits buf" "buf \<noteq> []" "digits_val buf * B + p2 = Mp * 10 ^ m" "delta * 10 ^ m < B" "Mp \<le> delta * 10 ^ 16"
  shows "length buf \<le> 16"
proof -
  have "10 ^ (length buf - 1) * B \<le> digits_val buf * B" using good_digits_val [OF assms(1,2)] by (rule mult_le_mono1)
  also have "\<dots> \<le> Mp * 10 ^ m" using assms(3) by linarith
  also have "\<dots> \<le> delta * 10 ^ 16 * 10 ^ m" using assms(5) by (rule mult_le_mono1)
  also have "\<dots> = 10 ^ 16 * (delta * 10 ^ m)" by simp
  also have "\<dots> < 10 ^ 16 * B" using assms(4) by simp
  finally have "(10 :: nat) ^ (length buf - 1) < 10 ^ 16" by simp
  then have "length buf - 1 < 16" by (rule power_less_imp_less_exp [rotated]) simp
  then show ?thesis by linarith
qed

lemma digits_fraction_ok:
  assumes "good_digits buf" "buf \<noteq> []" "digits_val buf * 2 ^ sh + p2 = Mp * 10 ^ m" "(Mp - Mm) * 10 ^ m < p2" "p2 < 2 ^ sh"
    and "sh \<le> 60" "Mm \<le> Mp" "dst \<le> Mp - Mm" "Mp \<le> (Mp - Mm) * 10 ^ 16" "17 \<le> cap"
  shows "\<exists>ds m'. digits_fraction cap p2 ((Mp - Mm) * 10 ^ m) (dst * 10 ^ m) sh buf m = Inr (ds, - int m') \<and>
    good_digits ds \<and> ds \<noteq> [] \<and> length ds \<le> 17 \<and> 0 < m' \<and> between ds (- int m') Mm Mp (2 ^ sh)"
  using assms(1-5)
proof (induction "17 - length buf" arbitrary: buf p2 m rule: less_induct)
  case less
  define B :: nat where "B = 2 ^ sh"
  have B: "B \<le> 2 ^ 60" "0 < B" using power_increasing [OF assms(6), of "2 :: nat"] by (simp_all add: B_def)
  note h = less.prems [folded B_def]
  let ?t = "10 ^ m" and ?d = "10 * p2 div B" and ?r = "10 * p2 mod B"
  have room: "length buf \<le> 16" using digits_room [OF h(1-3) _ assms(9)] h(4,5) by linarith
  have s: "10 * p2 < 2 ^ 64" "p2 \<le> (2 ^ 64 - 1) div 10" using B(1) h(5) by simp_all
  have d: "?d < 10" using h(5) by (simp add: less_mult_imp_div_less)
  have split: "10 * p2 = ?d * B + ?r" by (rule div_mult_mod_eq [symmetric])
  have u: "u64 (p2 * 10) = 10 * p2" "drop_bit sh (10 * p2) = ?d" "10 * p2 AND (2 ^ sh - 1) = ?r"
    using s(1) and_low [of "10 * p2" sh] by (simp_all add: u64_small mult.commute drop_bit_eq_div B_def)
  have de: "(Mp - Mm) * ?t * 10 < 2 ^ 64" using h(4) s(1) by linarith
  have di: "dst * ?t \<le> (Mp - Mm) * ?t" using assms(8) by (rule mult_le_mono1)
  have u2: "u64 ((Mp - Mm) * ?t * 10) = (Mp - Mm) * 10 ^ Suc m" "u64 (dst * ?t * 10) = dst * 10 ^ Suc m"
  proof -
    have "dst * ?t * 10 < 2 ^ 64" using di de by linarith
    from u64_small [OF this] u64_small [OF de] show "u64 ((Mp - Mm) * ?t * 10) = (Mp - Mm) * 10 ^ Suc m" "u64 (dst * ?t * 10) = dst * 10 ^ Suc m"
      by simp_all
  qed
  have eq: "(10 * digits_val buf + ?d) * B + ?r = Mp * 10 ^ Suc m"
  proof -
    have "(10 * digits_val buf + ?d) * B + ?r = 10 * (digits_val buf * B + p2)" using split by (simp add: algebra_simps)
    then show ?thesis using h(3) by simp
  qed
  have good: "good_digits (buf @ [digit_char ?d])" using good_digits_snoc [OF h(1) d] h(2) by simp
  have v: "digits_val (buf @ [digit_char ?d]) = 10 * digits_val buf + ?d" using d by (rule digits_val_digit)
  have step: "digits_fraction cap p2 ((Mp - Mm) * ?t) (dst * ?t) sh buf m =
      (if ?r \<le> (Mp - Mm) * 10 ^ Suc m
       then bindr (grisu2_round (buf @ [digit_char ?d]) (dst * 10 ^ Suc m) ((Mp - Mm) * 10 ^ Suc m) ?r (2 ^ sh)) (\<lambda>b. Inr (b, - int (m + 1)))
       else digits_fraction cap ?r ((Mp - Mm) * 10 ^ Suc m) (dst * 10 ^ Suc m) sh (buf @ [digit_char ?d]) (m + 1))"
    using s(2) d room assms(10) by (subst digits_fraction.simps) (simp only: u u2 Let_def digit_char_eq assertr_def, simp)
  have ge: "(Mp - Mm) * 10 ^ Suc m < ?r + ?d * B" using h(4) split by simp
  show ?case
  proof (cases "?r \<le> (Mp - Mm) * 10 ^ Suc m")
    case True
    have "dst * 10 ^ Suc m \<le> (Mp - Mm) * 10 ^ Suc m" "(Mp - Mm) * 10 ^ Suc m < 2 ^ 64" using di de by simp_all
    from grisu2_round_ok [OF h(1) d this(1) True this(2) ge] obtain j ds where ds:
      "grisu2_round (buf @ [digit_char ?d]) (dst * 10 ^ Suc m) ((Mp - Mm) * 10 ^ Suc m) ?r B = Inr ds" "good_digits ds"
      "length ds = length buf + 1" "digits_val ds + j = 10 * digits_val buf + ?d" "?r + j * B \<le> (Mp - Mm) * 10 ^ Suc m" by blast
    have "digits_val ds * 1 * B + (?r + j * B) = Mp * 10 ^ Suc m"
      using eq unfolding ds(4) [symmetric] by (simp add: algebra_simps)
    from between_dist [OF this ds(5) assms(7)] have "between ds (- int (Suc m)) Mm Mp B" by (simp only: between_fraction mult_1_right)
    moreover have "digits_fraction cap p2 ((Mp - Mm) * ?t) (dst * ?t) sh buf m = Inr (ds, - int (Suc m))"
      using step True ds(1) by (simp add: B_def)
    ultimately show ?thesis
      using ds(2,3) room by (intro exI [of _ ds] exI [of _ "Suc m"]) (auto simp: B_def)
  next
    case False
    then have rec: "digits_fraction cap p2 ((Mp - Mm) * ?t) (dst * ?t) sh buf m =
       digits_fraction cap ?r ((Mp - Mm) * 10 ^ Suc m) (dst * 10 ^ Suc m) sh (buf @ [digit_char ?d]) (Suc m)" using step by simp
    have lt: "17 - length (buf @ [digit_char ?d]) < 17 - length buf" using room by simp
    have val: "digits_val (buf @ [digit_char ?d]) * 2 ^ sh + ?r = Mp * 10 ^ Suc m" using eq v by (simp add: B_def)
    have r: "(Mp - Mm) * 10 ^ Suc m < ?r" "?r < 2 ^ sh" using False B(2) by (simp_all add: B_def)
    show ?thesis unfolding rec by (rule less.hyps [OF lt good _ val r]) simp
  qed
qed

section \<open>All digits\<close>

lemma find_largest_pow10_ok:
  assumes "0 < n" "n < 2 ^ 32"
  obtains k where "find_largest_pow10 n = (k, 10 ^ (k - 1))" "0 < k" "k \<le> 10" "10 ^ (k - 1) \<le> n" "n < 10 ^ k"
proof -
  have "\<exists>k. find_largest_pow10 n = (k, 10 ^ (k - 1)) \<and> 0 < k \<and> k \<le> 10 \<and> 10 ^ (k - 1) \<le> n \<and> n < 10 ^ k"
    using assms unfolding find_largest_pow10_def by (auto split: if_splits)
  then show thesis using that by blast
qed

lemma grisu2_digit_gen_ok:
  assumes "32 \<le> sh" "sh \<le> 60" "0 < Mm" "Mm \<le> W" "W \<le> Mp" "Mp < 2 ^ 64" "2 ^ sh \<le> Mp" "Mp \<le> (Mp - Mm) * 10 ^ 16" "17 \<le> cap"
  shows "\<exists>ds de. grisu2_digit_gen cap (diyfp_new Mm (- int sh)) (diyfp_new W (- int sh)) (diyfp_new Mp (- int sh)) = Inr (ds, de) \<and>
    good_digits ds \<and> ds \<noteq> [] \<and> length ds \<le> 17 \<and> between ds de Mm Mp (2 ^ sh)"
proof -
  let ?p1 = "Mp div 2 ^ sh" and ?p2 = "Mp mod 2 ^ sh"
  have sub: "diyfp_sub (diyfp_new Mp (- int sh)) (diyfp_new y (- int sh)) = Inr (diyfp_new (Mp - y) (- int sh))" if "y \<le> Mp" for y
    using that assms(6) by (simp add: diyfp_sub_def u64_sub_le)
  have "(2 :: nat) ^ 64 \<le> 2 ^ 32 * 2 ^ sh" using power_increasing [OF assms(1), of "2 :: nat"] by simp
  then have p1: "?p1 < 2 ^ 32" "0 < ?p1" using assms(6,7) by (simp_all add: less_mult_imp_div_less div_greater_zero_iff)
  obtain k where k: "find_largest_pow10 ?p1 = (k, 10 ^ (k - 1))" "0 < k" "k \<le> 10" "10 ^ (k - 1) \<le> ?p1" "?p1 < 10 ^ k"
    using find_largest_pow10_ok [OF p1(2,1)] by blast
  have split: "?p1 * 2 ^ sh + ?p2 = Mp" by (rule div_mult_mod_eq)
  have "10 ^ (k - 1) * 2 ^ sh \<le> ?p1 * 2 ^ sh" using k(4) by (rule mult_le_mono1)
  then have low: "10 ^ (k - 1) * 2 ^ sh \<le> Mp" using split by linarith
  have parts: "u32 (drop_bit sh Mp) = ?p1" "Mp AND (2 ^ sh - 1) = ?p2" "nat (- (- int sh)) = sh"
    using p1(1) and_low [of Mp sh] by (simp_all add: u32_def drop_bit_eq_div)
  have gen: "grisu2_digit_gen cap (diyfp_new Mm (- int sh)) (diyfp_new W (- int sh)) (diyfp_new Mp (- int sh)) =
      bindr (digits_integral cap k ?p1 (10 ^ (k - 1)) ?p2 (Mp - Mm) (Mp - W) sh []) (\<lambda>r.
        case r of Inl result \<Rightarrow> Inr result
        | Inr buffer \<Rightarrow> bindr (assertr (Mp - Mm < ?p2)) (\<lambda>_. digits_fraction cap ?p2 (Mp - Mm) (Mp - W) sh buffer 0))"
    using assms(1,2,4,5) p1(2) k(1) sub [of Mm] sub [of W]
    by (simp only: grisu2_digit_gen_def Let_def parts diyfp_new_sel) (simp add: kAlpha_def kGamma_def)
  have mm: "Mm \<le> Mp" "Mp - W \<le> Mp - Mm" "Mp - Mm < ?p1 * 2 ^ sh + ?p2" using assms(3-5) split by linarith+
  have "digits_val [] = 0" "good_digits []" by (simp_all add: digits_val_def good_digits_def)
  then have start: "digits_val [] * 10 ^ k * 2 ^ sh + ?p1 * 2 ^ sh + ?p2 = Mp" "good_digits []" using split by simp_all
  consider (a) ds j where "digits_integral cap k ?p1 (10 ^ (k - 1)) ?p2 (Mp - Mm) (Mp - W) sh [] = Inr (Inl (ds, int j))"
      "good_digits ds" "ds \<noteq> []" "length ds + j = k" "between ds (int j) Mm Mp (2 ^ sh)"
    | (b) ds where "digits_integral cap k ?p1 (10 ^ (k - 1)) ?p2 (Mp - Mm) (Mp - W) sh [] = Inr (Inr ds)"
      "good_digits ds" "ds \<noteq> []" "length ds = k" "digits_val ds * 2 ^ sh + ?p2 = Mp" "Mp - Mm < ?p2"
    using digits_integral_ok [OF k(5) _ start(1) assms(6) mm start(2), of cap] k(2,3,4) assms(9) low by fastforce
  then show ?thesis
  proof cases
    case a
    then show ?thesis unfolding gen using k(3) by auto
  next
    case b
    then show ?thesis
      using b digits_fraction_ok [of ds sh ?p2 Mp 0 Mm "Mp - W" cap] assms(2,8,9) mm(1,2) unfolding gen by auto
  qed
qed

end
