(* ===== verification/Json_Shortest.thy ===== *)
theory Json_Shortest
  imports Json_Digits Complex_Main
begin

text \<open>
  The decimal number that Grisu2 writes lies strictly between the two boundaries of the \<open>double\<close>: half way to its
  neighbours. So rounding it to the nearest \<open>double\<close> gives the number back.
\<close>

section \<open>Scaling\<close>

text \<open>The significands after the multiplication with the cached power, rounded to 64 bits.\<close>

lemma round_mul_bounds:
  fixes a c :: nat
  shows "(a * c + 2 ^ 63) div 2 ^ 64 * 2 ^ 64 \<le> a * c + 2 ^ 63" "a * c + 2 ^ 63 < ((a * c + 2 ^ 63) div 2 ^ 64 + 1) * 2 ^ 64"
  using dividend_less_div_times [of "2 ^ 64 :: nat" "a * c + 2 ^ 63"] unfolding add_mult_distrib by (simp_all del: power_numeral add: add.commute)

lemma round_mul_less:
  fixes a c :: nat
  assumes "a < 2 ^ 64" "c < 2 ^ 64"
  shows "(a * c + 2 ^ 63) div 2 ^ 64 < 2 ^ 64"
proof -
  have "a * c \<le> (2 ^ 64 - 1) * (2 ^ 64 - 1)" using assms by (intro mult_le_mono) auto
  then show ?thesis by (intro less_mult_imp_div_less) simp
qed

lemma round_mul_gap:
  fixes a b c g :: nat
  assumes "b + 2 * g \<le> a" "2 ^ 63 \<le> c"
  shows "(b * c + 2 ^ 63) div 2 ^ 64 + g \<le> (a * c + 2 ^ 63) div 2 ^ 64"
proof -
  have "b * c + g * 2 ^ 64 = b * c + (2 * g) * 2 ^ 63" by simp
  also have "\<dots> \<le> b * c + (2 * g) * c" using assms(2) by simp
  also have "\<dots> \<le> a * c" using mult_le_mono1 [OF assms(1), of c] by (simp add: distrib_right)
  finally have "b * c + 2 ^ 63 + g * 2 ^ 64 \<le> a * c + 2 ^ 63" by linarith
  then have "(b * c + 2 ^ 63 + g * 2 ^ 64) div 2 ^ 64 \<le> (a * c + 2 ^ 63) div 2 ^ 64" by (rule div_le_mono)
  moreover have "(b * c + 2 ^ 63 + g * 2 ^ 64) div 2 ^ 64 = g + (b * c + 2 ^ 63) div 2 ^ 64" by (rule div_mult_self1) simp
  ultimately show ?thesis by linarith
qed

text \<open>The width of the scaled interval: at least a 10 to the 16th part of its upper end.\<close>

lemma scaled_width:
  fixes P Q c :: nat
  defines "Wp \<equiv> (P * c + 2 ^ 63) div 2 ^ 64" and "Wm \<equiv> (Q * c + 2 ^ 63) div 2 ^ 64"
  assumes "P \<le> 2 ^ 53 * (P - Q)" "Q + 1536 \<le> P" "2 ^ 63 \<le> c"
  shows "Wp - 1 \<le> (Wp - 1 - (Wm + 1)) * 10 ^ 16"
proof -
  define X where "X = (P - Q) * c"
  have "1536 * 2 ^ 63 \<le> X" unfolding X_def using assms(4,5) by (intro mult_le_mono) linarith+
  then have X: "768 * 2 ^ 64 \<le> X" by simp
  have "P = Q + (P - Q)" using assms(4) by linarith
  then have PQ: "P * c = Q * c + X" unfolding X_def by (metis add_mult_distrib)
  have "P * c \<le> 2 ^ 53 * X" unfolding X_def using mult_le_mono1 [OF assms(3), of c] by (simp only: mult.assoc)
  then have p: "Wp * 2 ^ 64 \<le> 2 ^ 53 * X + 2 ^ 63" using round_mul_bounds(1) [of P c] unfolding Wp_def by linarith
  have w: "Wm * 2 ^ 64 + X < (Wp + 1) * 2 ^ 64"
    using round_mul_bounds(2) [of P c] round_mul_bounds(1) [of Q c] PQ unfolding Wp_def Wm_def by linarith
  have "(Wm + 768) * 2 ^ 64 < (Wp + 1) * 2 ^ 64" using w X unfolding add_mult_distrib by linarith
  then have "Wm + 768 < Wp + 1" by simp
  then obtain d where d: "Wp = Wm + 2 + d" using le_Suc_ex [of "Wm + 2" Wp] by auto
  have "X < (d + 3) * 2 ^ 64" using w unfolding d by simp
  then have "Wp * 2 ^ 64 \<le> (d * 10 ^ 16 + 1) * 2 ^ 64" using p X by simp
  then have "Wp \<le> d * 10 ^ 16 + 1" by simp
  then show ?thesis unfolding d by simp
qed

section \<open>The cached power as a real number\<close>

lemma powi_nat: "0 \<le> n \<Longrightarrow> (x :: real) powi n = x ^ nat n" "n < 0 \<Longrightarrow> x powi n = 1 / x ^ nat (- n)"
  by (simp_all add: power_int_def inverse_eq_divide power_one_over)

lemma abs_half_div:
  fixes a f b :: real
  assumes "2 * \<bar>f * a - b\<bar> \<le> a" "0 < a"
  shows "\<bar>f - b / a\<bar> \<le> 1 / 2"
proof -
  have "f - b / a = (f * a - b) / a" using assms(2) by (simp add: diff_divide_distrib)
  then show ?thesis using assms by (simp add: divide_le_eq)
qed

lemma cached_ok_real:
  assumes "cached_ok (f, e, k)"
  shows "\<bar>real f - 10 powi k / 2 powi e\<bar> \<le> 1 / 2"
proof -
  have "(10 :: real) powi k = 5 powi k * 2 powi k" by (simp flip: power_int_mult_distrib)
  then have ten: "(10 :: real) powi k / 2 powi e = 5 powi k * 2 powi (k - e)" by (simp add: power_int_diff)
  consider (n) "k < 0" "e < k" "2 * \<bar>5 ^ nat (- k) * int f - 2 ^ nat (k - e)\<bar> \<le> 5 ^ nat (- k)"
    | (e) "0 \<le> k" "e < k" "int f = 5 ^ nat k * 2 ^ nat (k - e)"
    | (p) "0 \<le> k" "k \<le> e" "2 * \<bar>int f * 2 ^ nat (e - k) - 5 ^ nat k\<bar> \<le> 2 ^ nat (e - k)"
    using assms by (fastforce simp: cached_ok_def split: if_splits)
  then show ?thesis
  proof cases
    case n
    define a :: real where "a = 5 ^ nat (- k)"
    have "real_of_int (2 * \<bar>5 ^ nat (- k) * int f - 2 ^ nat (k - e)\<bar>) \<le> real_of_int (5 ^ nat (- k))" using n(3) by (simp only: of_int_le_iff)
    then have "2 * \<bar>real f * a - 2 ^ nat (k - e)\<bar> \<le> a" by (simp add: a_def mult.commute)
    from abs_half_div [OF this] have "\<bar>real f - 2 ^ nat (k - e) / a\<bar> \<le> 1 / 2" by (simp add: a_def)
    moreover have "(10 :: real) powi k / 2 powi e = 2 ^ nat (k - e) / a" using n(1,2) unfolding ten by (simp add: powi_nat a_def)
    ultimately show ?thesis by (simp only:)
  next
    case e
    have "real_of_int (int f) = real_of_int (5 ^ nat k * 2 ^ nat (k - e))" using e(3) by (simp only:)
    then show ?thesis using e(1,2) unfolding ten by (simp add: powi_nat)
  next
    case p
    define a :: real where "a = 2 ^ nat (e - k)"
    have "real_of_int (2 * \<bar>int f * 2 ^ nat (e - k) - 5 ^ nat k\<bar>) \<le> real_of_int (2 ^ nat (e - k))" using p(3) by (simp only: of_int_le_iff)
    then have "2 * \<bar>real f * a - 5 ^ nat k\<bar> \<le> a" by (simp add: a_def)
    from abs_half_div [OF this] have "\<bar>real f - 5 ^ nat k / a\<bar> \<le> 1 / 2" by (simp add: a_def)
    moreover have "2 powi (k - e) = 1 / a" using p(2) by (cases "k = e") (simp_all add: powi_nat a_def)
    then have "(10 :: real) powi k / 2 powi e = 5 ^ nat k / a" using p(1) unfolding ten by (simp add: powi_nat)
    ultimately show ?thesis by (simp only:)
  qed
qed

section \<open>The interval\<close>

text \<open>Half way to the neighbours of a positive number with significand \<open>N\<close> and exponent \<open>ex\<close>.\<close>

definition dbl_upper :: "nat \<Rightarrow> int \<Rightarrow> real" where
  "dbl_upper N ex = real (2 * N + 1) * 2 powi (ex - 1)"

definition dbl_lower :: "nat \<Rightarrow> int \<Rightarrow> real" where
  "dbl_lower N ex = (if closer N ex then real (4 * N - 1) * 2 powi (ex - 2) else real (2 * N - 1) * 2 powi (ex - 1))"

lemma scale_factor: "(10 :: real) powi ck / 2 powi ce * 2 powi (ce + e + 64) * 10 powi (- ck) = 2 ^ 64 * 2 powi e"
proof -
  have "(2 :: real) powi (ce + e + 64) = 2 powi ce * 2 powi e * 2 ^ 64" by (simp add: power_int_add)
  moreover have "(10 :: real) powi ck * 10 powi (- ck) = 1" by (simp add: power_int_minus)
  ultimately show ?thesis by simp
qed

lemma unscale:
  fixes y :: real and ck ce e :: int
  defines "c \<equiv> (10 :: real) powi ck / 2 powi ce" and "u \<equiv> (2 :: real) powi (ce + e + 64)"
  shows "M * 2 ^ 64 < P * c \<Longrightarrow> y \<le> M * u \<Longrightarrow> y * 10 powi (- ck) < P * 2 powi e"
    and "P * c < M * 2 ^ 64 \<Longrightarrow> M * u \<le> y \<Longrightarrow> P * 2 powi e < y * 10 powi (- ck)"
proof -
  have pos: "0 < u" "0 < (10 :: real) powi (- ck)" by (simp_all add: u_def)
  have "P * c * u * 10 powi (- ck) = P * (c * u * 10 powi (- ck))" by (simp only: mult.assoc)
  then have f: "P * c * u * 10 powi (- ck) = P * 2 powi e * 2 ^ 64" unfolding c_def u_def scale_factor by simp
  have m: "M * 2 ^ 64 * u * 10 powi (- ck) = M * u * 10 powi (- ck) * 2 ^ 64" by simp
  show "y * 10 powi (- ck) < P * 2 powi e" if "M * 2 ^ 64 < P * c" "y \<le> M * u"
  proof -
    have "M * 2 ^ 64 * u * 10 powi (- ck) < P * c * u * 10 powi (- ck)" using that(1) pos by (intro mult_strict_right_mono)
    then have "M * u * 10 powi (- ck) < P * 2 powi e" unfolding f m by simp
    moreover have "y * 10 powi (- ck) \<le> M * u * 10 powi (- ck)" using that(2) pos(2) by (intro mult_right_mono) simp_all
    ultimately show ?thesis by linarith
  qed
  show "P * 2 powi e < y * 10 powi (- ck)" if "P * c < M * 2 ^ 64" "M * u \<le> y"
  proof -
    have "P * c * u * 10 powi (- ck) < M * 2 ^ 64 * u * 10 powi (- ck)" using that(1) pos by (intro mult_strict_right_mono)
    then have "P * 2 powi e < M * u * 10 powi (- ck)" unfolding f m by simp
    moreover have "M * u * 10 powi (- ck) \<le> y * 10 powi (- ck)" using that(2) pos(2) by (intro mult_right_mono) simp_all
    ultimately show ?thesis by linarith
  qed
qed

text \<open>The scaled bounds, made narrower by one unit, lie strictly inside the exact ones.\<close>

lemma narrow_bounds:
  assumes "\<bar>real cf - c\<bar> \<le> 1 / 2"
  shows "P < 2 ^ 64 \<Longrightarrow> 0 < (P * cf + 2 ^ 63) div 2 ^ 64 \<Longrightarrow> real ((P * cf + 2 ^ 63) div 2 ^ 64 - 1) * 2 ^ 64 < real P * c"
    and "Q < 2 ^ 64 \<Longrightarrow> real Q * c < real ((Q * cf + 2 ^ 63) div 2 ^ 64 + 1) * 2 ^ 64"
proof -
  have c: "real cf - c \<le> 1 / 2" "c - real cf \<le> 1 / 2" using assms by linarith+
  show "real ((P * cf + 2 ^ 63) div 2 ^ 64 - 1) * 2 ^ 64 < real P * c" if "P < 2 ^ 64" "0 < (P * cf + 2 ^ 63) div 2 ^ 64"
  proof -
    define W where "W = (P * cf + 2 ^ 63) div 2 ^ 64"
    have "real (W * 2 ^ 64) \<le> real (P * cf + 2 ^ 63)" using round_mul_bounds(1) [of P cf] unfolding W_def by (simp only: of_nat_le_iff)
    then have "real (W - 1) * 2 ^ 64 \<le> real P * real cf - 2 ^ 63" using that(2) [folded W_def] by (cases W) simp_all
    moreover have "real P * (real cf - c) \<le> real P * (1 / 2)" using c(1) by (intro mult_left_mono) simp_all
    moreover have "real P < 2 ^ 64" using that(1) by simp
    ultimately show ?thesis unfolding W_def [symmetric] by (simp add: algebra_simps)
  qed
  show "real Q * c < real ((Q * cf + 2 ^ 63) div 2 ^ 64 + 1) * 2 ^ 64" if "Q < 2 ^ 64"
  proof -
    define W where "W = (Q * cf + 2 ^ 63) div 2 ^ 64"
    have "real (Q * cf + 2 ^ 63) < real ((W + 1) * 2 ^ 64)" using round_mul_bounds(2) [of Q cf] unfolding W_def by (simp only: of_nat_less_iff)
    moreover have "real Q * (c - real cf) \<le> real Q * (1 / 2)" using c(2) by (intro mult_left_mono) simp_all
    moreover have "real Q < 2 ^ 64" using that by simp
    ultimately show ?thesis unfolding W_def [symmetric] by (simp add: algebra_simps)
  qed
qed

lemma between_real:
  assumes "between ds de Mm Mp (2 ^ sh)"
  shows "real Mm * 2 powi (- int sh) \<le> real (digits_val ds) * 10 powi de" "real (digits_val ds) * 10 powi de \<le> real Mp * 2 powi (- int sh)"
proof -
  have two: "(2 :: real) powi (- int sh) = 1 / 2 ^ sh" by (simp add: power_int_minus inverse_eq_divide)
  have "real Mm \<le> real (digits_val ds) * 10 powi de * 2 ^ sh \<and> real (digits_val ds) * 10 powi de * 2 ^ sh \<le> real Mp"
  proof (cases "0 \<le> de")
    case True
    then have "Mm \<le> digits_val ds * 10 ^ nat de * 2 ^ sh" "digits_val ds * 10 ^ nat de * 2 ^ sh \<le> Mp" using assms by (simp_all add: between_def)
    then have "real Mm \<le> real (digits_val ds * 10 ^ nat de * 2 ^ sh)" "real (digits_val ds * 10 ^ nat de * 2 ^ sh) \<le> real Mp"
      by (simp_all only: of_nat_le_iff)
    then show ?thesis using True by (simp add: powi_nat)
  next
    case False
    then have "Mm * 10 ^ nat (- de) \<le> digits_val ds * 2 ^ sh" "digits_val ds * 2 ^ sh \<le> Mp * 10 ^ nat (- de)"
      using assms by (simp_all add: between_def)
    then have "real (Mm * 10 ^ nat (- de)) \<le> real (digits_val ds * 2 ^ sh)" "real (digits_val ds * 2 ^ sh) \<le> real (Mp * 10 ^ nat (- de))"
      by (simp_all only: of_nat_le_iff)
    then show ?thesis using False by (simp add: powi_nat field_simps)
  qed
  then show "real Mm * 2 powi (- int sh) \<le> real (digits_val ds) * 10 powi de" "real (digits_val ds) * 10 powi de \<le> real Mp * 2 powi (- int sh)"
    unfolding two by (simp_all add: field_simps)
qed

lemma grisu2_bounds_ok:
  assumes "2 ^ 63 \<le> P" "P < 2 ^ 64" "V + 1024 \<le> P" "Q + 512 \<le> V" "P \<le> 2 ^ 53 * (P - Q)" "- 1137 \<le> e" "e \<le> 960" "17 \<le> cap"
  shows "\<exists>ds de. grisu2_bounds cap (diyfp_new Q e) (diyfp_new V e) (diyfp_new P e) = Inr (ds, de) \<and>
    good_digits ds \<and> ds \<noteq> [] \<and> length ds \<le> 17 \<and>
    real Q * 2 powi e < real (digits_val ds) * 10 powi de \<and> real (digits_val ds) * 10 powi de < real P * 2 powi e"
proof -
  obtain cf ce ck where c: "get_cached_power_for_binary_exponent e = Inr (cf, ce, ck)" "cached_ok (cf, ce, ck)"
    "- 60 \<le> ce + e + 64" "ce + e + 64 \<le> - 32" using get_cached_power_ok [OF assms(6,7)] by blast
  have cf: "2 ^ 63 \<le> cf" "cf < 2 ^ 64" using c(2) by (simp_all add: cached_ok_def)
  define R where "R = (\<lambda>a :: nat. (a * cf + 2 ^ 63) div 2 ^ 64)"
  define sh where "sh = nat (- (ce + e + 64))"
  have sh: "32 \<le> sh" "sh \<le> 60" "ce + e + 64 = - int sh" using c(3,4) by (simp_all add: sh_def)
  have lt: "Q < 2 ^ 64" "V < 2 ^ 64" using assms by linarith+
  have mul: "diyfp_mul (diyfp_new a e) (diyfp_new cf ce) = diyfp_new (R a) (- int sh)" if "a < 2 ^ 64" for a
    using diyfp_mul_round [of "diyfp_new a e" "diyfp_new cf ce"] that cf(2) sh(3) by (simp add: R_def algebra_simps)
  have gap: "R V + 512 \<le> R P" "R Q + 256 \<le> R V"
    using round_mul_gap [of V 512 P cf] round_mul_gap [of Q 256 V cf] assms(3,4) cf(1) by (simp_all add: R_def)
  have less: "R P < 2 ^ 64" unfolding R_def by (rule round_mul_less [OF assms(2) cf(2)])
  have "R 0 + 2 ^ 62 \<le> R P" unfolding R_def using assms(1) by (intro round_mul_gap cf(1)) simp
  then have big: "2 ^ 62 \<le> R P" by simp
  have "(2 :: nat) ^ sh \<le> 2 ^ 60" using sh(2) by (intro power_increasing) simp_all
  then have one: "2 ^ sh \<le> R P - 1" using big by simp
  have "Q + 1536 \<le> P" using assms(3,4) by linarith
  from scaled_width [OF assms(5) this cf(1)] have width: "R P - 1 \<le> (R P - 1 - (R Q + 1)) * 10 ^ 16" by (simp add: R_def)
  have order: "0 < R Q + 1" "R Q + 1 \<le> R V" "R V \<le> R P - 1" "R P - 1 < 2 ^ 64" using gap less by linarith+
  obtain ds de where g: "grisu2_digit_gen cap (diyfp_new (R Q + 1) (- int sh)) (diyfp_new (R V) (- int sh)) (diyfp_new (R P - 1) (- int sh)) = Inr (ds, de)"
      "good_digits ds" "ds \<noteq> []" "length ds \<le> 17" "between ds de (R Q + 1) (R P - 1) (2 ^ sh)"
    using grisu2_digit_gen_ok [OF sh(1,2) order one width assms(8)] by blast
  have u: "u64 (R Q + 1) = R Q + 1" "u64_sub (R P) 1 = R P - 1" using gap less by (simp_all add: u64_small u64_sub_le)
  have run: "grisu2_bounds cap (diyfp_new Q e) (diyfp_new V e) (diyfp_new P e) = Inr (ds, de - ck)"
    unfolding grisu2_bounds_def Let_def
    by (simp only: diyfp_new_sel c(1) bindr_simps case_prod_conv mul [OF lt(1)] mul [OF lt(2)] mul [OF assms(2)] u g(1)) simp
  note b = between_real [OF g(5), folded sh(3)]
  note n = narrow_bounds [OF cached_ok_real [OF c(2)]]
  have "real (R P - 1) * 2 ^ 64 < real P * (10 powi ck / 2 powi ce)" using n(1) [OF assms(2)] big unfolding R_def by simp
  moreover have "real Q * (10 powi ck / 2 powi ce) < real (R Q + 1) * 2 ^ 64" using n(2) [OF lt(1)] unfolding R_def .
  ultimately have "real (digits_val ds) * 10 powi de * 10 powi (- ck) < real P * 2 powi e"
    "real Q * 2 powi e < real (digits_val ds) * 10 powi de * 10 powi (- ck)"
    using unscale(1) [OF _ b(2)] unscale(2) [OF _ b(1)] by blast+
  moreover have "(10 :: real) powi de * 10 powi (- ck) = 10 powi (de - ck)" by (simp add: power_int_diff power_int_minus field_simps)
  ultimately show ?thesis using run g(2-4) by (simp add: mult.assoc)
qed

lemma shift_powi: "real (n * 2 ^ k) * 2 powi (e - int k) = real n * 2 powi e"
  by (simp add: power_int_diff)

lemma boundary_gaps:
  fixes N k :: nat and ex :: int
  defines "P \<equiv> (2 * N + 1) * 2 ^ k" and "V \<equiv> 2 * N * 2 ^ k"
    and "Q \<equiv> if closer N ex then (4 * N - 1) * 2 ^ (k - 1) else (2 * N - 1) * 2 ^ k"
  assumes "0 < N" "N < 2 ^ 53" "10 \<le> k"
  shows "V + 1024 \<le> P" "Q + 512 \<le> V" "P \<le> 2 ^ 53 * (P - Q)"
proof -
  obtain j where k: "k = Suc j" "9 \<le> j" using assms(6) by (cases k) auto
  define a :: nat where "a = 2 ^ j"
  have a: "(2 :: nat) ^ k = 2 * a" "512 \<le> a" using k power_increasing [OF k(2), of "2 :: nat"] by (simp_all add: a_def)
  have V: "V = 4 * N * a" "P = 4 * N * a + 2 * a" by (simp_all add: V_def P_def a algebra_simps)
  show "V + 1024 \<le> P" using V a(2) by linarith
  obtain n where n: "N = Suc n" using assms(4) by (cases N) auto
  show "Q + 512 \<le> V" "P \<le> 2 ^ 53 * (P - Q)"
  proof (atomize(full), cases "closer N ex")
    case True
    then have q: "Q + a = V" using k n by (simp add: Q_def V(1) a_def algebra_simps)
    have "N = 2 ^ 52" using True by (simp add: closer_def)
    then have "P = (2 ^ 54 + 2) * a" unfolding V(2) by (simp add: algebra_simps)
    moreover have "P - Q = 3 * a" using q V by linarith
    ultimately show "Q + 512 \<le> V \<and> P \<le> 2 ^ 53 * (P - Q)" using q a(2) by simp
  next
    case False
    then have q: "Q + 2 * a = V" using n by (simp add: Q_def V(1) a(1) algebra_simps)
    have "4 * N * a + 2 * a \<le> 2 ^ 55 * a" using assms(5) mult_le_mono1 [of "4 * N + 2" "2 ^ 55" a] by (simp add: algebra_simps)
    moreover have "P - Q = 4 * a" using q V by linarith
    ultimately show "Q + 512 \<le> V \<and> P \<le> 2 ^ 53 * (P - Q)" using q a(2) V(2) by simp
  qed
qed

lemma grisu2_ok:
  assumes "isfinite x" "dbl_positive x" "17 \<le> cap"
  obtains ds de N ex where "grisu2 cap x = Inr (ds, de)" "good_digits ds" "ds \<noteq> []" "length ds \<le> 17" "dbl_parts x N ex"
    "dbl_lower N ex < real (digits_val ds) * 10 powi de" "real (digits_val ds) * 10 powi de < dbl_upper N ex"
proof -
  obtain N ex k where p: "dbl_parts x N ex" "10 \<le> k" "2 ^ 63 \<le> (2 * N + 1) * 2 ^ k" "(2 * N + 1) * 2 ^ k < 2 ^ 64"
    and b: "compute_boundaries x = Inr \<lparr>bd_w = diyfp_new (2 * N * 2 ^ k) (ex - 1 - int k),
       bd_minus = diyfp_new (if closer N ex then (4 * N - 1) * 2 ^ (k - 1) else (2 * N - 1) * 2 ^ k) (ex - 1 - int k),
       bd_plus = diyfp_new ((2 * N + 1) * 2 ^ k) (ex - 1 - int k)\<rparr>" by (rule compute_boundaries_ok [OF assms(1,2)])
  let ?Q = "if closer N ex then (4 * N - 1) * 2 ^ (k - 1) else (2 * N - 1) * 2 ^ k"
  have N: "0 < N" "N < 2 ^ 53" "- 1074 \<le> ex" "ex \<le> 971" using p(1) by (auto simp: dbl_parts_def)
  have "k \<le> 62"
  proof (rule ccontr)
    assume "\<not> k \<le> 62"
    then have "(2 :: nat) ^ 63 \<le> 2 ^ k" by (intro power_increasing) auto
    then have "3 * 2 ^ 63 \<le> (2 * N + 1) * 2 ^ k" using N(1) by (intro mult_le_mono) auto
    then show False using p(4) by simp
  qed
  then have e: "- 1137 \<le> ex - 1 - int k" "ex - 1 - int k \<le> 960" using N(3,4) p(2) by linarith+
  obtain ds de where g: "grisu2_bounds cap (diyfp_new ?Q (ex - 1 - int k)) (diyfp_new (2 * N * 2 ^ k) (ex - 1 - int k)) (diyfp_new ((2 * N + 1) * 2 ^ k) (ex - 1 - int k)) = Inr (ds, de)"
      "good_digits ds" "ds \<noteq> []" "length ds \<le> 17"
      "real ?Q * 2 powi (ex - 1 - int k) < real (digits_val ds) * 10 powi de"
      "real (digits_val ds) * 10 powi de < real ((2 * N + 1) * 2 ^ k) * 2 powi (ex - 1 - int k)"
    using grisu2_bounds_ok [OF p(3,4) boundary_gaps [OF N(1,2) p(2)] e assms(3)] by blast
  have "real ?Q * 2 powi (ex - 1 - int k) = dbl_lower N ex"
  proof -
    have "ex - 1 - int k = ex - 2 - int (k - 1)" using p(2) by simp
    then show ?thesis
      using shift_powi [of "4 * N - 1" "k - 1" "ex - 2"] shift_powi [of "2 * N - 1" k "ex - 1"] unfolding dbl_lower_def by (cases "closer N ex") (simp_all only: if_True if_False)
  qed
  moreover have "real ((2 * N + 1) * 2 ^ k) * 2 powi (ex - 1 - int k) = dbl_upper N ex" unfolding dbl_upper_def by (rule shift_powi)
  ultimately show thesis
    using that [OF _ g(2-4) p(1)] g(1,5,6) assms b by (simp add: grisu2_def)
qed

end
