(* ===== verification/Json_Strtod.thy ===== *)
theory Json_Strtod
  imports Json_Shortest Json_Lexer
begin

text \<open>
  Reading floating-point numbers: \<open>strtod\<close> rounds to the nearest \<open>double\<close>, so every decimal number strictly between
  the boundaries of a \<open>double\<close> is read as that \<open>double\<close>. With the result on Grisu2 this gives the round trip of
  all finite numbers.
\<close>

section \<open>Rounding\<close>

lemma bit_length_bounds: "0 < n \<Longrightarrow> 2 ^ (bit_length n - 1) \<le> n \<and> n < 2 ^ bit_length n \<and> 0 < bit_length n"
proof (induction n rule: bit_length.induct)
  case (1 n)
  then have b: "bit_length n = Suc (bit_length (n div 2))" by (simp add: bit_length.simps [of n])
  show ?case
  proof (cases "n div 2 = 0")
    case True
    then show ?thesis using 1(2) b by (simp add: bit_length.simps [of 0])
  next
    case False
    then have h: "2 ^ (bit_length (n div 2) - 1) \<le> n div 2" "n div 2 < 2 ^ bit_length (n div 2)" "0 < bit_length (n div 2)"
      using 1 by auto
    have "(2 :: nat) ^ bit_length (n div 2) = 2 * 2 ^ (bit_length (n div 2) - 1)" using h(3) by (cases "bit_length (n div 2)") simp_all
    then have "2 ^ bit_length (n div 2) \<le> n" "n < 2 * 2 ^ bit_length (n div 2)" using h(1,2) by linarith+
    then show ?thesis unfolding b by simp
  qed
qed

lemma ratio_log2_ok:
  assumes "0 < num" "0 < den"
  shows "2 powi ratio_log2 num den \<le> real num / real den" "real num / real den < 2 powi (ratio_log2 num den + 1)"
proof -
  define a b where ab: "a = bit_length num" "b = bit_length den"
  define d where "d = int a - int b"
  define rho where "rho = real num / real den"
  have n: "2 ^ (a - 1) \<le> num" "num < 2 ^ a" "0 < a" "2 ^ (b - 1) \<le> den" "den < 2 ^ b" "0 < b"
    using bit_length_bounds [OF assms(1)] bit_length_bounds [OF assms(2)] by (simp_all add: ab)
  have cond: "(if 0 \<le> d then den * 2 ^ nat d \<le> num else den \<le> num * 2 ^ nat (- d)) \<longleftrightarrow> 2 powi d \<le> rho"
  proof (cases "0 \<le> d")
    case True
    have "real (den * 2 ^ nat d) \<le> real num \<longleftrightarrow> 2 powi d \<le> rho" using True assms(2) by (simp add: rho_def powi_nat field_simps)
    then show ?thesis using True by (simp only: of_nat_le_iff if_True)
  next
    case False
    have "real den \<le> real (num * 2 ^ nat (- d)) \<longleftrightarrow> 2 powi d \<le> rho" using False assms(2) by (simp add: rho_def powi_nat field_simps)
    then show ?thesis using False by (simp only: of_nat_le_iff if_False)
  qed
  have r: "2 powi (d - 1) \<le> rho" "rho < 2 powi (d + 1)"
  proof -
    have "(2 :: real) powi (d - 1) = 2 ^ (a - 1) / 2 ^ b" "(2 :: real) powi (d + 1) = 2 ^ a / 2 ^ (b - 1)" 
      using n(3,6) by (simp_all add: d_def power_int_diff power_int_add power_diff)
    moreover have "2 ^ (a - 1) / 2 ^ b \<le> rho"
    proof -
      have "real (2 ^ (a - 1)) \<le> real num" "real den \<le> real (2 ^ b)" using n(1,5) by (simp_all only: of_nat_le_iff less_imp_le)
      then show ?thesis unfolding rho_def using assms(2) by (intro frac_le) simp_all
    qed
    moreover have "rho < 2 ^ a / 2 ^ (b - 1)"
    proof -
      have "real num < real (2 ^ a)" "real (2 ^ (b - 1)) \<le> real den" using n(2,4) by (simp_all only: of_nat_le_iff of_nat_less_iff)
      then show ?thesis unfolding rho_def by (intro frac_less) simp_all
    qed
    ultimately show "2 powi (d - 1) \<le> rho" "rho < 2 powi (d + 1)" by simp_all
  qed
  have "ratio_log2 num den = (if 2 powi d \<le> rho then d else d - 1)"
    unfolding ratio_log2_def Let_def ab [symmetric] d_def [symmetric] by (rule if_cong [OF cond refl refl])
  then show "2 powi ratio_log2 num den \<le> real num / real den" "real num / real den < 2 powi (ratio_log2 num den + 1)"
    using r unfolding rho_def [symmetric] by simp_all
qed

lemma ratio_log2_eq:
  assumes "0 < num" "0 < den" "2 powi n \<le> real num / real den" "real num / real den < 2 powi (n + 1)"
  shows "ratio_log2 num den = n"
proof -
  have "(2 :: real) powi n < 2 powi (ratio_log2 num den + 1)" "(2 :: real) powi ratio_log2 num den < 2 powi (n + 1)"
    using ratio_log2_ok [OF assms(1,2)] assms(3,4) by linarith+
  moreover have "(2 :: real) powi j \<le> 2 powi i" if "j \<le> i" for i j using that by (intro power_int_increasing) simp_all
  ultimately show ?thesis by (metis linorder_not_less add1_zle_eq order_antisym not_less)
qed

lemma round_half_even_eq:
  assumes "real n - 1 / 2 < real a / real b" "real a / real b < real n + 1 / 2" "0 < b"
  shows "round_half_even a b = n"
proof -
  have "(2 * real n - 1) * real b < 2 * real a" "2 * real a < (2 * real n + 1) * real b" using assms by (simp_all add: field_simps)
  then have "real_of_int ((2 * int n - 1) * int b) < real_of_int (2 * int a)" "real_of_int (2 * int a) < real_of_int ((2 * int n + 1) * int b)" by simp_all
  then have h: "(2 * int n - 1) * int b < 2 * int a" "2 * int a < (2 * int n + 1) * int b" by (simp_all only: of_int_less_iff)
  define q r where qr: "q = a div b" "r = a mod b"
  have a: "int a = int q * int b + int r" "int r < int b" using assms(3) by (simp_all add: qr flip: of_nat_mult of_nat_add)
  have "\<not> n < q"
  proof
    assume "n < q"
    then have "(2 * int n + 1) * int b \<le> (2 * int q - 1) * int b" by (intro mult_right_mono) simp_all
    then show False using h(2) a(1) assms(3) by (simp add: algebra_simps)
  qed
  moreover have "\<not> q + 1 < n"
  proof
    assume "q + 1 < n"
    then have "(2 * int q + 3) * int b \<le> (2 * int n - 1) * int b" by (intro mult_right_mono) simp_all
    then show False using h(1) a assms(3) by (simp add: algebra_simps)
  qed
  ultimately consider "n = q" | "n = q + 1" by linarith
  then show ?thesis
  proof cases
    case 1
    then have "2 * r < b" using h(2) a(1) by (simp add: algebra_simps)
    then show ?thesis using 1 by (simp add: round_half_even_def Let_def qr)
  next
    case 2
    then have "b < 2 * r" using h(1) a(1) by (simp add: algebra_simps)
    then show ?thesis using 2 by (simp add: round_half_even_def Let_def qr)
  qed
qed

text \<open>The significand in units of \<open>2 ^ e\<close>.\<close>

lemma round_scaled:
  assumes "(real n - 1 / 2) * 2 powi e < real num / real den" "real num / real den < (real n + 1 / 2) * 2 powi e" "0 < den"
  shows "(if 0 \<le> e then round_half_even num (den * 2 ^ nat e) else round_half_even (num * 2 ^ nat (- e)) den) = n"
proof -
  have b: "real n - 1 / 2 < real num / real den / 2 powi e" "real num / real den / 2 powi e < real n + 1 / 2"
    using assms(1,2) by (simp_all only: pos_less_divide_eq pos_divide_less_eq zero_less_power_int zero_less_numeral)
  show ?thesis
  proof (cases "0 \<le> e")
    case True
    have "real num / real (den * 2 ^ nat e) = real num / real den / 2 powi e" using True by (simp add: powi_nat)
    from round_half_even_eq [of n num "den * 2 ^ nat e", unfolded this, OF b] show ?thesis using True assms(3) by simp
  next
    case False
    have "real (num * 2 ^ nat (- e)) / real den = real num / real den / 2 powi e" using False by (simp add: powi_nat)
    from round_half_even_eq [of n "num * 2 ^ nat (- e)" den, unfolded this, OF b] show ?thesis using False assms(3) by simp
  qed
qed

lemma round_bits_eq:
  assumes "0 < num" "0 < den" "max (- 1074) (ratio_log2 num den - 52) = e"
    and "(real n - 1 / 2) * 2 powi e < real num / real den" "real num / real den < (real n + 1 / 2) * 2 powi e"
  shows "round_bits num den = min (2047 * 2 ^ 52) (nat (e + 1074) * 2 ^ 52 + n)"
  unfolding round_bits_def Let_def assms(3) round_scaled [OF assms(4,5,2)] ..

lemma half_less: "N < 2 ^ k \<Longrightarrow> real N + 1 / 2 < 2 ^ k"
proof -
  assume "N < 2 ^ k"
  then have "real (N + 1) \<le> real (2 ^ k)" by (simp only: of_nat_le_iff)
  then show ?thesis by simp
qed

lemma powi_52: "(2 :: real) powi (e + 52) = 2 ^ 52 * 2 powi e" "(2 :: real) powi (e + 53) = 2 ^ 53 * 2 powi e"
  "(2 :: real) powi (e + 51) = 2 ^ 51 * 2 powi e" "(2 :: real) powi (e - 1) = 2 powi e / 2" "(2 :: real) powi (e - 2) = 2 powi e / 4"
  by (simp_all add: power_int_add power_int_diff)

lemma powi_less: "(2 :: real) powi i < 2 powi j \<Longrightarrow> i < j"
  using power_int_increasing [of j i "2 :: real"] by (meson linorder_not_less one_le_numeral order.strict_trans2 order_less_irrefl)

text \<open>The exponent of the result: that of the binade of the number, but not below the subnormal one.\<close>

lemma exponent_low:
  assumes "0 < num" "0 < den" "real num / real den < 2 ^ 52 * 2 powi (- 1074)"
  shows "max (- 1074) (ratio_log2 num den - 52) = - 1074"
proof -
  have "(2 :: real) powi ratio_log2 num den < 2 powi (- 1074 + 52)"
    using ratio_log2_ok(1) [OF assms(1,2)] assms(3) unfolding powi_52 by linarith
  from powi_less [OF this] show ?thesis by simp
qed

lemma exponent_normal:
  assumes "0 < num" "0 < den" "2 ^ 52 * 2 powi e \<le> real num / real den" "real num / real den < 2 ^ 53 * 2 powi e" "- 1074 \<le> e"
  shows "max (- 1074) (ratio_log2 num den - 52) = e"
proof -
  have "ratio_log2 num den = e + 52"
    using assms(1-4) powi_52(1,2) [of e] by (intro ratio_log2_eq) (simp_all add: add.commute)
  then show ?thesis using assms(5) by simp
qed

lemma bits_fit: "dbl_parts x N ex \<Longrightarrow> min (2047 * 2 ^ 52) (nat (ex + 1074) * 2 ^ 52 + N) = unat x"
proof -
  assume p: "dbl_parts x N ex"
  then have "ex \<le> 971" "N < 2 ^ 53" "unat x = nat (ex + 1074) * 2 ^ 52 + N" by (auto simp: dbl_parts_def)
  moreover from this have "nat (ex + 1074) * 2 ^ 52 \<le> 2045 * 2 ^ 52" by (intro mult_le_mono1) simp
  ultimately show ?thesis by simp
qed

lemma boundaries_real:
  "dbl_upper N ex = (real N + 1 / 2) * 2 powi ex"
  "0 < N \<Longrightarrow> dbl_lower N ex = (if closer N ex then (real N - 1 / 4) * 2 powi ex else (real N - 1 / 2) * 2 powi ex)"
  by (simp_all add: dbl_upper_def dbl_lower_def powi_52 of_nat_diff field_simps)

text \<open>A number of the binade of \<open>x\<close>, or below all binades.\<close>

lemma round_bits_binade:
  assumes "dbl_parts x N ex" "0 < num" "0 < den" "max (- 1074) (ratio_log2 num den - 52) = ex"
    and "(real N - 1 / 2) * 2 powi ex < real num / real den" "real num / real den < (real N + 1 / 2) * 2 powi ex"
  shows "round_bits num den = unat x"
  using round_bits_eq [OF assms(2-6)] bits_fit [OF assms(1)] by simp

text \<open>A number below the least one of its binade is rounded up to it.\<close>

lemma round_bits_below:
  assumes "dbl_parts x N ex" "closer N ex" "0 < num" "0 < den"
    and "(real N - 1 / 4) * 2 powi ex < real num / real den" "real num / real den < 2 ^ 52 * 2 powi ex"
  shows "round_bits num den = unat x"
proof -
  define rho where "rho = real num / real den"
  define u :: real where "u = 2 powi (ex - 1)"
  have u: "0 < u" "2 powi ex = 2 * u" by (simp_all add: u_def powi_52)
  have N: "N = 2 ^ 52" "- 1074 < ex" using assms(2) by (simp_all add: closer_def)
  have rho: "(real (2 ^ 53) - 1 / 2) * u < rho" "rho < 2 ^ 53 * u" using assms(5,6) by (simp_all add: rho_def u N algebra_simps)
  have "2 ^ 52 * u \<le> (real (2 ^ 53) - 1 / 2) * u" using u(1) by (intro mult_right_mono) simp_all
  then have e: "max (- 1074) (ratio_log2 num den - 52) = ex - 1"
    using exponent_normal [OF assms(3,4), of "ex - 1"] rho N(2) by (simp add: rho_def u_def)
  have "rho < (real (2 ^ 53) + 1 / 2) * u" using rho(2) u(1) by (simp add: algebra_simps)
  with round_bits_eq [OF assms(3,4) e, of "2 ^ 53"] rho(1)
  have "round_bits num den = min (2047 * 2 ^ 52) (nat (ex - 1 + 1074) * 2 ^ 52 + 2 ^ 53)" by (simp add: rho_def u_def)
  moreover have "nat (ex + 1074) = nat (ex - 1 + 1074) + 1" using N(2) by simp
  then have "nat (ex - 1 + 1074) * 2 ^ 52 + 2 ^ 53 = nat (ex + 1074) * 2 ^ 52 + N" using N(1) by simp
  ultimately show ?thesis using bits_fit [OF assms(1)] by simp
qed

text \<open>A number strictly between the boundaries of \<open>x\<close> is rounded to \<open>x\<close>.\<close>

lemma round_bits_ok:
  assumes "dbl_parts x N ex" "0 < num" "0 < den"
    and "dbl_lower N ex < real num / real den" "real num / real den < dbl_upper N ex"
  shows "round_bits num den = unat x"
proof -
  define rho where "rho = real num / real den"
  define u :: real where "u = 2 powi ex"
  have u: "0 < u" by (simp add: u_def)
  have N: "0 < N" "N < 2 ^ 53" "- 1074 \<le> ex" "N < 2 ^ 52 \<Longrightarrow> ex = - 1074" using assms(1) by (auto simp: dbl_parts_def)
  have up: "rho < (real N + 1 / 2) * u" and low: "(if closer N ex then (real N - 1 / 4) * u else (real N - 1 / 2) * u) < rho"
    using assms(4,5) boundaries_real(1) [of N ex] boundaries_real(2) [OF N(1), of ex] by (simp_all only: rho_def u_def)
  note binade = round_bits_binade [OF assms(1-3), folded rho_def u_def]
  show ?thesis
  proof (cases "2 ^ 52 * u \<le> rho")
    case True
    have "(real N + 1 / 2) * u < 2 ^ 53 * u" using half_less [OF N(2)] u by (rule mult_strict_right_mono)
    then have "rho < 2 ^ 53 * u" using up by linarith
    then have e: "max (- 1074) (ratio_log2 num den - 52) = ex"
      using exponent_normal [OF assms(2,3) _ _ N(3)] True by (simp add: rho_def u_def)
    have "(real N - 1 / 2) * u < rho"
    proof (cases "closer N ex")
      case c: True
      then show ?thesis using True u by (simp add: closer_def algebra_simps)
    qed (use low in simp)
    then show ?thesis using binade [OF e] up by simp
  next
    case False
    then have lt: "rho < 2 ^ 52 * u" by simp
    show ?thesis
    proof (cases "closer N ex")
      case True
      then show ?thesis using round_bits_below [OF assms(1) True assms(2,3)] low lt by (simp add: rho_def u_def)
    next
      case nc: False
      have "(real N - 1 / 2) * u < 2 ^ 52 * u" using low lt nc by simp
      then have "real N - 1 / 2 < 2 ^ 52" using u by (simp only: mult_less_cancel_right_pos)
      then have "real N < real (2 ^ 52 + 1)" by simp
      then have "N < 2 ^ 52 + 1" by (simp only: of_nat_less_iff)
      then have "ex = - 1074" using N(3,4) nc by (cases "N = 2 ^ 52") (auto simp: closer_def)
      then have "max (- 1074) (ratio_log2 num den - 52) = ex" using exponent_low [OF assms(2,3)] lt by (simp add: rho_def u_def)
      then show ?thesis using binade low up nc by simp
    qed
  qed
qed

end
