(* ===== verification/Json_Float_Text.thy ===== *)
theory Json_Float_Text
  imports Json_Strtod Json_Tokens Json_Dump
begin

text \<open>
  The text of a floating-point number: the notation that \<open>format_buffer\<close> chooses is a number of the grammar with the
  value of the digits, and \<open>strtod\<close> reads it as the number that was written. Every finite \<open>double\<close> has such a text.
\<close>

section \<open>Reading a number\<close>

text \<open>The decimal number that the parts of a number denote, without its sign.\<close>

definition decimal_value :: "string \<Rightarrow> string \<Rightarrow> string \<Rightarrow> real" where
  "decimal_value ip fr ex = real (digits_val (ip @ tl fr)) * 10 powi (strtod_exponent ex - int (length (tl fr)))"

definition dec_bits :: "nat \<Rightarrow> int \<Rightarrow> nat" where
  "dec_bits n x = (if n = 0 then 0 else if 0 \<le> x then round_bits (n * 10 ^ nat x) 1 else round_bits n (10 ^ nat (- x)))"

lemma dec_bits_ok:
  assumes "dbl_parts y N ex" "dbl_lower N ex < real n * 10 powi x" "real n * 10 powi x < dbl_upper N ex"
  shows "dec_bits n x = unat y"
proof -
  have "0 < N" using assms(1) by (auto simp: dbl_parts_def)
  then have "0 < dbl_lower N ex" by (simp add: dbl_lower_def)
  then have "0 < n" using assms(2) by (cases n) simp_all
  show ?thesis
  proof (cases "0 \<le> x")
    case True
    then have "real (n * 10 ^ nat x) / real 1 = real n * 10 powi x" by (simp add: powi_nat)
    then show ?thesis using round_bits_ok [OF assms(1), of "n * 10 ^ nat x" 1] assms \<open>0 < n\<close> True by (simp add: dec_bits_def)
  next
    case False
    then have "real n / real (10 ^ nat (- x)) = real n * 10 powi x" by (simp add: powi_nat)
    then show ?thesis using round_bits_ok [OF assms(1), of n "10 ^ nat (- x)"] assms \<open>0 < n\<close> False by (simp add: dec_bits_def)
  qed
qed

lemma takeWhile_digits:
  assumes "list_all c_isdigit ds" "r = [] \<or> \<not> c_isdigit (hd r)"
  shows "takeWhile c_isdigit (ds @ r) = ds" "dropWhile c_isdigit (ds @ r) = r"
  using assms by (induction ds) (cases r; auto)+

lemma not_digit: "\<not> c_isdigit CHR ''.''" "\<not> c_isdigit CHR ''e''" "\<not> c_isdigit CHR ''E''" "\<not> c_isdigit CHR ''-''"
  by (simp_all add: c_isdigit_def less_eq_char_def)

lemma strtod_parts:
  assumes "number_parts m ip fr ex"
  shows "strtod (m @ ip @ fr @ ex) =
    word_of_nat ((if m = [] then 0 else 2 ^ 63) + dec_bits (digits_val (ip @ tl fr)) (strtod_exponent ex - int (length (tl fr))))"
proof -
  have ip: "list_all c_isdigit ip" "ip \<noteq> []" using assms by (auto simp: number_parts_def digits_def)
  have m: "m = [] \<or> m = ''-''" using assms by (simp add: number_parts_def)
  have "hd ip \<noteq> CHR ''-''" using ip not_digit(4) by (cases ip) auto
  then have neg: "(m @ ip @ fr @ ex \<noteq> [] \<and> hd (m @ ip @ fr @ ex) = CHR ''-'') \<longleftrightarrow> m \<noteq> []" using m ip(2) by auto
  have ex: "ex = [] \<or> \<not> c_isdigit (hd ex) \<and> hd ex \<noteq> CHR ''.''" using assms not_digit by (auto simp: number_parts_def)
  have fr: "fr = [] \<or> (\<exists>ds. fr = CHR ''.'' # ds \<and> list_all c_isdigit ds)" using assms by (auto simp: number_parts_def digits_def)
  have "fr @ ex = [] \<or> \<not> c_isdigit (hd (fr @ ex))" using fr ex not_digit by auto
  note tw = takeWhile_digits [OF ip(1) this]
  have fp: "(if fr @ ex \<noteq> [] \<and> hd (fr @ ex) = CHR ''.'' then takeWhile c_isdigit (tl (fr @ ex)) else []) = tl fr"
    "(if fr @ ex \<noteq> [] \<and> hd (fr @ ex) = CHR ''.'' then dropWhile c_isdigit (tl (fr @ ex)) else fr @ ex) = ex"
    using fr ex takeWhile_digits [of "tl fr" ex] by auto
  have "(if m \<noteq> [] then tl (m @ ip @ fr @ ex) else m @ ip @ fr @ ex) = ip @ fr @ ex" using m by auto
  then show ?thesis unfolding strtod_def Let_def neg by (simp only: tw fp) (simp add: dec_bits_def)
qed

section \<open>The four notations\<close>

lemma digits_val_append: "digits_val (a @ b) = digits_val a * 10 ^ length b + digits_val b"
proof (induction b rule: rev_induct)
  case (snoc c b)
  then show ?case by (simp add: digits_val_snoc digits_val_def flip: append_assoc)
qed (simp add: digits_val_def)

lemma digits_val_replicate: "digits_val (replicate n (CHR ''0'')) = 0"
  by (induction n) (simp_all add: digits_val_def)

lemma zero_digit [simp]: "c_isdigit CHR ''0''"
  by (simp add: c_isdigit_def)

lemma append_exponent_ok:
  assumes "- 1000 < e" "e < 1000"
  obtains sg ds where "append_exponent e = Inr (sg @ ds)" "sg = ''+'' \<or> sg = ''-''" "digits ds" "length ds \<le> 3"
    "strtod_exponent (c # sg @ ds) = e"
proof -
  define k where "k = nat \<bar>e\<bar>"
  have k: "k < 1000" using assms by (simp add: k_def)
  define ds where "ds = (if k < 10 then [CHR ''0'', digit_char k]
        else if k < 100 then [digit_char (k div 10), digit_char (k mod 10)]
        else [digit_char (k div 100), digit_char (k mod 100 div 10), digit_char (k mod 100 mod 10)])"
  define sg where "sg = (if e < 0 then ''-'' else ''+'')"
  have z: "digits_val [CHR ''0'', digit_char k] = k" if "k < 10" using that by (simp add: digits_val_def)
  have v: "digits_val ds = k"
  proof -
    have "k = k div 100 * 100 + k mod 100 div 10 * 10 + k mod 100 mod 10" by presburger
    then show ?thesis using k z unfolding ds_def by (auto simp: digits_val_def)
  qed
  have "digits ds" "length ds \<le> 3" using k by (auto simp: ds_def digits_def)
  moreover have "append_exponent e = Inr (sg @ ds)" using assms by (simp add: append_exponent_def Let_def sg_def ds_def k_def)
  moreover have "strtod_exponent (c # sg @ ds) = e" using v by (auto simp: strtod_exponent_def sg_def k_def)
  moreover have "sg = ''+'' \<or> sg = ''-''" by (simp add: sg_def)
  ultimately show thesis using that by blast
qed

text \<open>Digits with zeros and a point behind them.\<close>

lemma format_integral:
  assumes "good_digits ds" "ds \<noteq> []" "0 \<le> de" "int (length ds) + de \<le> 15" "23 \<le> cap"
  defines "ip \<equiv> ds @ replicate (nat de) (CHR ''0'')"
  shows "format_buffer cap ds de (- 4) 15 = Inr (ip @ ''.0'' @ [])" "number_parts [] ip ''.0'' []"
    "decimal_value ip ''.0'' [] = real (digits_val ds) * 10 powi de"
proof -
  have "int (length ds) + de - int (length ds) = de" by simp
  then show "format_buffer cap ds de (- 4) 15 = Inr (ip @ ''.0'' @ [])"
    using assms(3-5) unfolding format_buffer_def Let_def by (simp add: ip_def)
  show "number_parts [] ip ''.0'' []"
    using assms(1,2) unfolding ip_def by (auto simp: number_parts_def digits_def list_all_iff good_digits_def)
  have "digits_val (ip @ tl ''.0'') = digits_val ds * 10 ^ nat de * 10"
    unfolding ip_def by (simp add: digits_val_append digits_val_replicate) (simp add: digits_val_def)
  then show "decimal_value ip ''.0'' [] = real (digits_val ds) * 10 powi de"
    using assms(3) by (simp add: decimal_value_def strtod_exponent_def powi_nat power_int_minus)
qed

text \<open>Digits with a point between them.\<close>

lemma format_point:
  assumes "good_digits ds" "de < 0" "0 < int (length ds) + de" "int (length ds) + de \<le> 15" "length ds \<le> 17" "23 \<le> cap"
  defines "n \<equiv> nat (int (length ds) + de)"
  shows "format_buffer cap ds de (- 4) 15 = Inr (take n ds @ (CHR ''.'' # drop n ds) @ [])" "number_parts [] (take n ds) (CHR ''.'' # drop n ds) []"
    "decimal_value (take n ds) (CHR ''.'' # drop n ds) [] = real (digits_val ds) * 10 powi de"
proof -
  have n: "0 < n" "n < length ds" "int (length (drop n ds)) = - de" using assms(2,3) by (simp_all add: n_def)
  show "format_buffer cap ds de (- 4) 15 = Inr (take n ds @ (CHR ''.'' # drop n ds) @ [])"
    using assms(2-6) n(2) unfolding format_buffer_def Let_def by (simp add: n_def)
  show "number_parts [] (take n ds) (CHR ''.'' # drop n ds) []"
    using assms(1) n(1,2) by (cases ds; cases n) (auto simp: number_parts_def digits_def list_all_iff good_digits_def dest: in_set_takeD in_set_dropD)
  show "decimal_value (take n ds) (CHR ''.'' # drop n ds) [] = real (digits_val ds) * 10 powi de"
    using n(3) by (simp add: decimal_value_def strtod_exponent_def del: length_drop)
qed

text \<open>Zeros and a point before the digits.\<close>

lemma format_zeros:
  assumes "good_digits ds" "ds \<noteq> []" "- 4 < int (length ds) + de" "int (length ds) + de \<le> 0" "length ds \<le> 17" "23 \<le> cap"
  defines "z \<equiv> replicate (nat (- (int (length ds) + de))) (CHR ''0'')"
  shows "format_buffer cap ds de (- 4) 15 = Inr (''0'' @ (CHR ''.'' # z @ ds) @ [])" "number_parts [] ''0'' (CHR ''.'' # z @ ds) []"
    "decimal_value ''0'' (CHR ''.'' # z @ ds) [] = real (digits_val ds) * 10 powi de"
proof -
  have "0 < length ds" using assms(2) by simp
  then have "de < 0" using assms(4) by linarith
  then have l: "de < 0" "int (length z) = - (int (length ds) + de)" "length z \<le> 3" using assms(3,4) by (simp_all add: z_def)
  show "format_buffer cap ds de (- 4) 15 = Inr (''0'' @ (CHR ''.'' # z @ ds) @ [])"
    using assms(3-6) l(1,3) unfolding format_buffer_def Let_def by (simp add: z_def)
  show "number_parts [] ''0'' (CHR ''.'' # z @ ds) []"
    using assms(1,2) by (auto simp: number_parts_def digits_def list_all_iff good_digits_def z_def)
  have "digits_val (''0'' @ z @ ds) = digits_val ds"
    unfolding z_def digits_val_append digits_val_replicate by (simp add: digits_val_def)
  then show "decimal_value ''0'' (CHR ''.'' # z @ ds) [] = real (digits_val ds) * 10 powi de"
    using l(2) by (simp add: decimal_value_def strtod_exponent_def)
qed

text \<open>Scientific notation.\<close>

lemma format_exponent:
  assumes "good_digits ds" "ds \<noteq> []" "int (length ds) + de \<le> - 4 \<or> 15 < int (length ds) + de" "length ds \<le> 17" "23 \<le> cap"
    and "- 990 < int (length ds) + de" "int (length ds) + de < 990"
  defines "fr \<equiv> if length ds = 1 then [] else CHR ''.'' # tl ds"
  shows "\<exists>ex. format_buffer cap ds de (- 4) 15 = Inr ([hd ds] @ fr @ ex) \<and> number_parts [] [hd ds] fr ex \<and> ex \<noteq> [] \<and>
    decimal_value [hd ds] fr ex = real (digits_val ds) * 10 powi de"
proof -
  obtain c r where ds: "ds = c # r" using assms(2) by (cases ds) auto
  have b: "- 1000 < int (length ds) + de - 1" "int (length ds) + de - 1 < 1000" using assms(6,7) by simp_all
  obtain sg xs where x: "append_exponent (int (length ds) + de - 1) = Inr (sg @ xs)" "sg = ''+'' \<or> sg = ''-''" "digits xs" "length xs \<le> 3"
    "strtod_exponent (CHR ''e'' # sg @ xs) = int (length ds) + de - 1" using append_exponent_ok [OF b] by metis
  have "length sg = 1" using x(2) by auto
  then have "format_buffer cap ds de (- 4) 15 = Inr ([hd ds] @ fr @ (CHR ''e'' # sg @ xs))"
    using assms(3-5) x(1,4) unfolding format_buffer_def Let_def by (auto simp: fr_def ds)
  moreover have "number_parts [] [hd ds] fr (CHR ''e'' # sg @ xs)"
    using assms(1) x(2,3) by (auto simp: number_parts_def digits_def good_digits_def fr_def ds)
  moreover have "decimal_value [hd ds] fr (CHR ''e'' # sg @ xs) = real (digits_val ds) * 10 powi de"
    using x(5) by (cases r) (simp_all add: decimal_value_def fr_def ds)
  ultimately show ?thesis by blast
qed

lemma format_buffer_ok:
  assumes "good_digits ds" "ds \<noteq> []" "length ds \<le> 17" "- 990 < int (length ds) + de" "int (length ds) + de < 990" "23 \<le> cap"
  shows "\<exists>ip fr ex. format_buffer cap ds de (- 4) 15 = Inr (ip @ fr @ ex) \<and> number_parts [] ip fr ex \<and> (fr \<noteq> [] \<or> ex \<noteq> []) \<and>
    decimal_value ip fr ex = real (digits_val ds) * 10 powi de"
proof -
  let ?n = "int (length ds) + de"
  consider (a) "0 \<le> de" "?n \<le> 15" | (b) "de < 0" "0 < ?n" "?n \<le> 15" | (c) "- 4 < ?n" "?n \<le> 0" | (e) "?n \<le> - 4 \<or> 15 < ?n" by linarith
  then show ?thesis
  proof cases
    case a
    show ?thesis using format_integral [OF assms(1,2) a assms(6)] by blast
  next
    case b
    show ?thesis using format_point [OF assms(1) b assms(3,6)] by blast
  next
    case c
    show ?thesis using format_zeros [OF assms(1,2) c assms(3,6)] by blast
  next
    case e
    show ?thesis using format_exponent [OF assms(1,2) e assms(3,6,4,5)] by blast
  qed
qed

section \<open>Bounds of the exponent\<close>

lemma digits_val_less: "list_all c_isdigit ds \<Longrightarrow> digits_val ds < 10 ^ length ds"
proof (induction ds rule: rev_induct)
  case (snoc c ds)
  then have "digits_val ds < 10 ^ length ds" "(of_char c :: nat) \<le> 57" by (auto simp: c_isdigit_def less_eq_char_def)
  then show ?case unfolding digits_val_snoc by simp
qed (simp add: digits_val_def)

lemma powi10_less: "(10 :: real) powi i < 10 powi j \<Longrightarrow> i < j"
  using power_int_increasing [of j i "10 :: real"] by (meson linorder_not_less one_le_numeral order.strict_trans2 order_less_irrefl)

lemma dbl_range:
  assumes "dbl_parts x N ex"
  shows "dbl_upper N ex < 10 powi 342" "10 powi (- 359) \<le> dbl_lower N ex"
proof -
  have N: "0 < N" "N < 2 ^ 53" "- 1074 \<le> ex" "ex \<le> 971" using assms by (auto simp: dbl_parts_def)
  have "2 * N + 1 < 2 ^ 54" using N(2) by simp
  then have "real (2 * N + 1) < real (2 ^ 54)" by (simp only: of_nat_less_iff)
  then have "dbl_upper N ex < 2 ^ 54 * 2 powi (ex - 1)" unfolding dbl_upper_def by (intro mult_strict_right_mono) simp_all
  also have "\<dots> \<le> 2 ^ 54 * 2 powi 970" using N(4) by (intro mult_left_mono power_int_increasing) simp_all
  also have "\<dots> \<le> (2 ^ 3) ^ 342" by (simp flip: power_mult power_add)
  also have "\<dots> \<le> (10 :: real) ^ 342" by (intro power_mono) simp_all
  finally show "dbl_upper N ex < 10 powi 342" by (simp only: power_int_numeral)
  have "(2 ^ 3) ^ 359 \<le> (10 :: real) ^ 359" by (intro power_mono) simp_all
  then have "1 / 10 ^ 359 \<le> (1 :: real) / (2 ^ 3) ^ 359" by (rule divide_left_mono) (simp_all only: zero_le_one zero_less_power zero_less_numeral mult_pos_pos)
  also have "\<dots> = 2 powi (- 1077)" by (simp add: power_int_minus inverse_eq_divide flip: power_mult)
  also have "\<dots> \<le> 2 powi (ex - 2)" using N(3) by (intro power_int_increasing) simp_all
  also have "\<dots> \<le> dbl_lower N ex"
  proof -
    have le: "p \<le> real m * p" if "0 < m" "0 < p" for m :: nat and p :: real using that mult_right_mono [of 1 "real m" p] by simp
    have "(2 :: real) powi (ex - 2) \<le> 2 powi (ex - 1)" by (intro power_int_increasing) simp_all
    also have "\<dots> \<le> real (2 * N - 1) * 2 powi (ex - 1)" using N(1) by (intro le) simp_all
    finally have "2 powi (ex - 2) \<le> real (2 * N - 1) * 2 powi (ex - 1)" .
    moreover have "2 powi (ex - 2) \<le> real (4 * N - 1) * 2 powi (ex - 2)" using N(1) by (intro le) simp_all
    ultimately show ?thesis unfolding dbl_lower_def by presburger
  qed
  finally show "10 powi (- 359) \<le> dbl_lower N ex" by (simp only: power_int_minus power_int_numeral inverse_eq_divide)
qed

lemma digits_exponent:
  assumes "dbl_parts x N ex" "good_digits ds" "ds \<noteq> []"
    and "dbl_lower N ex < real (digits_val ds) * 10 powi de" "real (digits_val ds) * 10 powi de < dbl_upper N ex"
  shows "- 359 < int (length ds) + de" "int (length ds) + de < 343"
proof -
  have ten: "10 ^ length ds * 10 powi de = (10 :: real) powi (int (length ds) + de)"
    "10 ^ (length ds - 1) * 10 powi de = (10 :: real) powi (int (length ds - 1) + de)" by (simp_all add: power_int_add)
  have "list_all c_isdigit ds" using assms(2) by (simp add: good_digits_def)
  then have "real (digits_val ds) < real (10 ^ length ds)" using digits_val_less by (simp only: of_nat_less_iff)
  then have "real (digits_val ds) * 10 powi de < 10 ^ length ds * 10 powi de" by (intro mult_strict_right_mono) simp_all
  then have "(10 :: real) powi (- 359) < 10 powi (int (length ds) + de)" unfolding ten using dbl_range(2) [OF assms(1)] assms(4) by linarith
  then show "- 359 < int (length ds) + de" by (rule powi10_less)
  have "real (10 ^ (length ds - 1)) \<le> real (digits_val ds)" using good_digits_val [OF assms(2,3)] by (simp only: of_nat_le_iff)
  then have "10 ^ (length ds - 1) * 10 powi de \<le> real (digits_val ds) * 10 powi de" by (intro mult_right_mono) simp_all
  then have "(10 :: real) powi (int (length ds - 1) + de) < 10 powi 342" unfolding ten using dbl_range(1) [OF assms(1)] assms(5) by linarith
  then show "int (length ds) + de < 343" using powi10_less assms(3) by (cases ds) fastforce+
qed

section \<open>The text of a finite number\<close>

lemma to_chars_positive:
  assumes "isfinite x" "\<not> signbit x" "23 \<le> cap"
  shows "\<exists>ip fr ex. to_chars cap x = Inr (ip @ fr @ ex) \<and> number_parts [] ip fr ex \<and> (fr \<noteq> [] \<or> ex \<noteq> []) \<and>
    dec_bits (digits_val (ip @ tl fr)) (strtod_exponent ex - int (length (tl fr))) = unat x"
proof (cases "dbl_E x = 0 \<and> dbl_F x = 0")
  case True
  then have "unat x = 0" using unat_split(1) [OF assms(2)] by simp
  moreover have "to_chars cap x = Inr (''0'' @ ''.0'' @ [])" using assms True by (simp add: to_chars_def Let_def)
  moreover have "number_parts [] ''0'' ''.0'' []" by (simp add: number_parts_def digits_def)
  ultimately show ?thesis
    by (intro exI [of _ "''0''"] exI [of _ "''.0''"] exI [of _ "[]"]) (simp add: dec_bits_def digits_val_def)
next
  case False
  have cap: "17 \<le> cap" using assms(3) by linarith
  have "dbl_positive x" using assms(2) False by (simp add: dbl_positive_def)
  then obtain ds de N ex where g: "grisu2 cap x = Inr (ds, de)" "good_digits ds" "ds \<noteq> []" "length ds \<le> 17" "dbl_parts x N ex"
    "dbl_lower N ex < real (digits_val ds) * 10 powi de" "real (digits_val ds) * 10 powi de < dbl_upper N ex"
    using grisu2_ok [OF assms(1) _ cap] by blast
  have n: "- 990 < int (length ds) + de" "int (length ds) + de < 990" using digits_exponent [OF g(5,2,3,6,7)] by linarith+
  obtain ip fr exs where f: "format_buffer cap ds de (- 4) 15 = Inr (ip @ fr @ exs)" "number_parts [] ip fr exs" "fr \<noteq> [] \<or> exs \<noteq> []"
      "decimal_value ip fr exs = real (digits_val ds) * 10 powi de"
    using format_buffer_ok [OF g(2-4) n assms(3)] by blast
  have "to_chars cap x = Inr (ip @ fr @ exs)" using assms False g(1,4) f(1) by (auto simp: to_chars_def Let_def)
  moreover have "dec_bits (digits_val (ip @ tl fr)) (strtod_exponent exs - int (length (tl fr))) = unat x"
    using dec_bits_ok [OF g(5)] g(6,7) f(4) unfolding decimal_value_def by simp
  ultimately show ?thesis using f(2,3) by blast
qed

lemma top_bit:
  fixes x :: double
  assumes "bit x n" "Suc n = 64"
  shows "x XOR push_bit n 1 = take_bit n x" "take_bit n x + push_bit n 1 = x"
proof -
  have le: "i = n" if "i < LENGTH(64)" "\<not> i < n" for i using that assms(2) by simp
  show "x XOR push_bit n 1 = take_bit n x" using assms(1) le by (intro bit_word_eqI) (auto simp: bit_simps)
  have "take_bit n x + push_bit n 1 = take_bit n x OR push_bit n 1"
    by (intro disjunctive_add_eq_or bit_word_eqI) (auto simp: bit_simps)
  also have "\<dots> = x" using assms(1) le by (intro bit_word_eqI) (auto simp: bit_simps)
  finally show "take_bit n x + push_bit n 1 = x" .
qed

lemma negate_ok:
  fixes x :: double
  assumes "signbit x"
  defines "y \<equiv> x XOR push_bit 63 1"
  shows "\<not> signbit y" "isfinite y \<longleftrightarrow> isfinite x" "word_of_nat (2 ^ 63 + unat y) = x"
proof -
  note top = top_bit [OF assms(1) [unfolded signbit_def], simplified]
  have y: "y = take_bit 63 x" using top(1) by (simp add: y_def)
  show "\<not> signbit y" by (simp add: y signbit_def bit_take_bit_iff)
  have "dbl_E y = dbl_E x"
    unfolding y dbl_E_def drop_bit_take_bit unsigned_take_bit_eq take_bit_eq_mod [symmetric] by simp
  then show "isfinite y \<longleftrightarrow> isfinite x" by (simp add: isfinite_def)
  show "word_of_nat (2 ^ 63 + unat y) = x" using top(2) by (simp add: y add.commute)
qed

lemma bindr_Inr: "bindr r Inr = r"
  by (cases r) simp_all

lemma to_chars_negative:
  assumes "isfinite x" "signbit x" "to_chars (cap - 1) (x XOR push_bit 63 1) = Inr s"
  shows "to_chars cap x = Inr (CHR ''-'' # s)"
proof (cases "dbl_E (x XOR push_bit 63 1) = 0 \<and> dbl_F (x XOR push_bit 63 1) = 0")
  case True
  then show ?thesis using assms negate_ok(1,2) [OF assms(2)] by (simp add: to_chars_def Let_def)
next
  case False
  then show ?thesis using assms negate_ok(1,2) [OF assms(2)] by (simp only: to_chars_def Let_def if_True if_False append_Nil bindr_Inr) simp
qed

text \<open>The text written for a floating-point number is a number of the grammar and is read as the same double.\<close>

definition float_text :: "double \<Rightarrow> bool" where
  "float_text x \<longleftrightarrow>
     (\<exists>m ip fr ex. number_parts m ip fr ex \<and> dump_float x = Inr (m @ ip @ fr @ ex) \<and> number_value m ip fr ex = JFloat x)"

lemma finite_float_text: "isfinite x \<Longrightarrow> float_text x"
proof -
  assume fin: "isfinite x"
  show ?thesis
  proof (cases "signbit x")
    case False
    obtain ip fr ex where t: "to_chars 64 x = Inr (ip @ fr @ ex)" "number_parts [] ip fr ex" "fr \<noteq> [] \<or> ex \<noteq> []"
      "dec_bits (digits_val (ip @ tl fr)) (strtod_exponent ex - int (length (tl fr))) = unat x"
      using to_chars_positive [OF fin False, of 64] by auto
    have "strtod ([] @ ip @ fr @ ex) = x" unfolding strtod_parts [OF t(2)] t(4) by simp
    then show ?thesis using t(1-3) fin unfolding float_text_def
      by (intro exI [of _ "[]"] exI [of _ ip] exI [of _ fr] exI [of _ ex]) (auto simp: dump_float_def number_value_def)
  next
    case True
    let ?y = "x XOR push_bit 63 1"
    note y = negate_ok [OF True]
    obtain ip fr ex where t: "to_chars 63 ?y = Inr (ip @ fr @ ex)" "number_parts [] ip fr ex" "fr \<noteq> [] \<or> ex \<noteq> []"
      "dec_bits (digits_val (ip @ tl fr)) (strtod_exponent ex - int (length (tl fr))) = unat ?y"
      using to_chars_positive [of ?y 63] y(1,2) fin by auto
    have n: "number_parts ''-'' ip fr ex" using t(2) by (simp add: number_parts_def)
    have "strtod (''-'' @ ip @ fr @ ex) = x" unfolding strtod_parts [OF n] t(4) using y(3) by simp
    moreover have "to_chars 64 x = Inr (''-'' @ ip @ fr @ ex)"
      using to_chars_negative [OF fin True, of 64] t(1) by simp
    ultimately show ?thesis using t(3) n fin unfolding float_text_def
      by (intro exI [of _ "''-''"] exI [of _ ip] exI [of _ fr] exI [of _ ex]) (auto simp: dump_float_def number_value_def)
  qed
qed

section \<open>Properties\<close>

text \<open>
  C11. The digits of a floating-point number, for every positive finite \<open>double\<close>: Grisu2 returns between 1 and 17 digits
  without a leading zero whose decimal number lies strictly between the boundaries half way to the neighbouring
  numbers. No assertion of the algorithm fails and no digit is written outside the buffer.
\<close>

theorem grisu2_within_boundaries:
  assumes "isfinite x" and "dbl_positive x" and "17 \<le> cap"
  shows "\<exists>ds de N ex. grisu2 cap x = Inr (ds, de) \<and> ds \<noteq> [] \<and> length ds \<le> 17 \<and> good_digits ds \<and> dbl_parts x N ex \<and>
    dbl_lower N ex < real (digits_val ds) * 10 powi de \<and> real (digits_val ds) * 10 powi de < dbl_upper N ex"
  using grisu2_ok [OF assms] by metis

theorem grisu2_within_boundaries_witness:
  "\<exists>ds de N ex. grisu2 17 0x3FF8000000000000 = Inr (ds, de) \<and> ds \<noteq> [] \<and> length ds \<le> 17 \<and> good_digits ds \<and>
    dbl_parts 0x3FF8000000000000 N ex \<and>
    dbl_lower N ex < real (digits_val ds) * 10 powi de \<and> real (digits_val ds) * 10 powi de < dbl_upper N ex"
  by (rule grisu2_within_boundaries) (code_simp, code_simp, simp)

text \<open>
  C10. Floating-point numbers survive: \<open>dump_float\<close> writes every finite \<open>double\<close>, negative numbers, zeros and subnormal
  numbers included, as a number of JSON of which \<open>strtod\<close> returns exactly that \<open>double\<close>, bit by bit; a number that is not
  finite is written as \<open>null\<close>.
\<close>

theorem dump_float_roundtrip:
  "if isfinite x
   then \<exists>m ip fr ex. dump_float x = Inr (m @ ip @ fr @ ex) \<and> number_parts m ip fr ex \<and> strtod (m @ ip @ fr @ ex) = x
   else dump_float x = Inr ''null''"
proof (cases "isfinite x")
  case True
  from finite_float_text [OF True] obtain m ip fr ex
    where t: "number_parts m ip fr ex" "dump_float x = Inr (m @ ip @ fr @ ex)" "number_value m ip fr ex = JFloat x"
    unfolding float_text_def by blast
  then have "strtod (m @ ip @ fr @ ex) = x" by (simp add: number_value_def split: if_splits)
  then show ?thesis using True t by auto
next
  case False
  then show ?thesis by (simp add: dump_float_def)
qed

end
