(* ===== verification/Json_Roundtrip.thy ===== *)
theory Json_Roundtrip
  imports Json_Text Json_Float_Text
begin

text \<open>
  What the serializer writes is a text of the grammar, so the parser reads the value back.
\<close>

section \<open>Integers\<close>

lemma show_nat_two: "100 \<le> n \<Longrightarrow> show_nat n = show_nat (n div 100) @ [digit_char (n mod 100 div 10), digit_char (n mod 100 mod 10)]"
proof -
  assume n: "100 \<le> n"
  have "show_nat n = show_nat (n div 10) @ [digit_char (n mod 10)]" using n by (subst show_nat.simps) simp
  also have "show_nat (n div 10) = show_nat (n div 10 div 10) @ [digit_char (n div 10 mod 10)]"
    using n by (subst show_nat.simps) simp
  finally show ?thesis by (simp add: div_mult2_eq [of n 10 10, simplified] mod_mult2_eq [of n 10 10, simplified])
qed

lemma put_before_ok: "0 < p \<Longrightarrow> p \<le> length buf \<Longrightarrow> put_before p c buf = Inr (p - 1, take (p - 1) buf @ c # drop p buf)"
  by (simp add: put_before_def upd_conv_take_nth_drop)

lemma put_two_ok:
  assumes "Suc (Suc q) \<le> length buf"
  shows "put_two i (Suc (Suc q)) buf = Inr (q, take q buf @ digit_char (i div 10) # digit_char (i mod 10) # drop (Suc (Suc q)) buf)"
proof -
  let ?b = "take (Suc q) buf @ digit_char (i mod 10) # drop (Suc (Suc q)) buf"
  have 1: "put_before (Suc (Suc q)) (digit_char (i mod 10)) buf = Inr (Suc q, ?b)" using put_before_ok [of "Suc (Suc q)" buf] assms by simp
  have "put_before (Suc q) (digit_char (i div 10)) ?b = Inr (q, take q ?b @ digit_char (i div 10) # drop (Suc q) ?b)"
    using put_before_ok [of "Suc q" ?b] assms by simp
  moreover have "take q ?b = take q buf" "drop (Suc q) ?b = digit_char (i mod 10) # drop (Suc (Suc q)) buf"
    using assms by (simp_all add: min_def)
  ultimately show ?thesis using 1 by (simp add: put_two_def digits_to_99_def)
qed

lemma digit_char_0: "digit_char 0 = CHR ''0''"
  using char_of_char [of "CHR ''0''", where 'a = nat] by (simp add: digit_char_def)

lemma dump_digits_ok:
  "length (show_nat n) \<le> p \<Longrightarrow> p \<le> length buf \<Longrightarrow>
    dump_digits n p buf = Inr (take (p - length (show_nat n)) buf @ show_nat n @ drop p buf)"
proof (induction n p buf rule: dump_digits.induct)
  case (1 n p buf)
  consider "100 \<le> n" | "10 \<le> n" "n < 100" | "n < 10" by linarith
  then show ?case
  proof cases
    case 1
    let ?m = "n div 100"
    have l: "length (show_nat n) = length (show_nat ?m) + 2" using show_nat_two [OF 1] by simp
    obtain q where p: "p = Suc (Suc q)" using "1.prems"(1) l by (cases p; cases "p - 1") auto
    let ?b = "take q buf @ digit_char (n mod 100 div 10) # digit_char (n mod 100 mod 10) # drop p buf"
    have two: "put_two (n mod 100) p buf = Inr (q, ?b)" using put_two_ok [of q buf "n mod 100"] "1.prems"(2) p by simp
    have le: "length (show_nat ?m) \<le> q" "q \<le> length ?b" using "1.prems" l p by simp_all
    have "dump_digits ?m q ?b = Inr (take (q - length (show_nat ?m)) ?b @ show_nat ?m @ drop q ?b)"
      using "1.IH" [OF 1 two refl le] .
    moreover have "drop q ?b = digit_char (n mod 100 div 10) # digit_char (n mod 100 mod 10) # drop p buf"
      "take (q - length (show_nat ?m)) ?b = take (p - length (show_nat n)) buf"
      using le "1.prems" l p by (simp_all add: min_def)
    ultimately show ?thesis using 1 two show_nat_two [OF 1] by (subst dump_digits.simps) simp
  next
    case 2
    have "show_nat n = [digit_char (n div 10), digit_char (n mod 10)]"
      using 2 by (simp add: show_nat.simps [of n] show_nat.simps [of "n div 10"])
    moreover from this have "Suc (Suc (p - 2)) = p" using "1.prems"(1) by simp
    ultimately show ?thesis using 2 "1.prems" put_two_ok [of "p - 2" buf n] by (subst dump_digits.simps) (simp add: numeral_2_eq_2)
  next
    case 3
    then have "show_nat n = [char_of (48 + n)]" by (simp add: show_nat.simps [of n] digit_char_def)
    then show ?thesis using 3 "1.prems" by (subst dump_digits.simps) (simp add: put_before_ok)
  qed
qed

lemma count_digits_loop_length: "count_digits_loop n k = k + length (show_nat n) - 1"
proof (induction n k rule: count_digits_loop.induct)
  case (1 n k)
  have l: "length (show_nat n) = (if n < 10 then 1 else Suc (length (show_nat (n div 10))))" for n
    by (subst show_nat.simps) simp
  have d: "n div 10 div 10 = n div 100" "n div 100 div 10 = n div 1000" "n div 1000 div 10 = n div 10000"
    by (simp_all add: div_mult2_eq [symmetric])
  show ?case
  proof (cases "n < 10000")
    case True
    then show ?thesis by (subst count_digits_loop.simps) (auto simp: l [of n] l [of "n div 10"] l [of "n div 100"] l [of "n div 1000"] d)
  next
    case False
    then have "\<not> n < 10" "\<not> n div 10 < 10" "\<not> n div 100 < 10" "\<not> n div 1000 < 10" by linarith+
    then have "length (show_nat n) = 4 + length (show_nat (n div 10000))"
      by (simp add: l [of n] l [of "n div 10"] l [of "n div 100"] l [of "n div 1000"] d)
    then show ?thesis using 1 False by (subst count_digits_loop.simps) simp
  qed
qed

lemma count_digits_length: "count_digits n = length (show_nat n)"
  by (simp add: count_digits_def count_digits_loop_length)

lemma dump_integer_show:
  assumes "- (2 ^ 63) \<le> x" "x < 2 ^ 64" "length buf = 64"
  shows "dump_integer buf x = Inr (show_int x)"
proof -
  have len: "length (show_nat n) \<le> 20" if "n < 2 ^ 64" for n using show_nat_length [of n 20] that by simp
  consider "x = 0" | "x < 0" | "0 < x" by linarith
  then show ?thesis
  proof cases
    case 1
    then show ?thesis by (simp add: dump_integer_def show_int_def show_nat.simps [of 0] digit_char_0)
  next
    case 2
    let ?n = "nat (- x)"
    have s: "remove_sign x = Inr ?n" using 2 assms(1) by (simp add: remove_sign_def u64_def nat_less_iff Suc_nat_eq_nat_zadd1 nat_add_distrib [symmetric])
    have l: "length (show_nat ?n) \<le> 20" using len [of ?n] 2 assms(1) by (simp add: nat_less_iff)
    have "dump_digits ?n (1 + length (show_nat ?n)) (buf[0 := CHR ''-'']) =
        Inr (take 1 (buf[0 := CHR ''-'']) @ show_nat ?n @ drop (1 + length (show_nat ?n)) (buf[0 := CHR ''-'']))"
      using dump_digits_ok [of ?n "1 + length (show_nat ?n)" "buf[0 := CHR ''-'']"] l assms(3) by simp
    moreover have "take 1 (buf[0 := CHR ''-'']) = ''-''" using assms(3) by (cases buf) auto
    ultimately show ?thesis
      using 2 s l assms(3) by (simp add: dump_integer_def count_digits_length show_int_def)
  next
    case 3
    then have n: "nat x < 2 ^ 64" "u64 (nat x) = nat x" using assms(2) by (simp_all add: u64_def nat_less_iff)
    then show ?thesis
      using 3 len [OF n(1)] assms(3) dump_digits_ok [of "nat x" "length (show_nat (nat x))" buf]
      by (simp add: dump_integer_def count_digits_length show_int_def)
  qed
qed

section \<open>Well-formed values\<close>

text \<open>
  The values that have a text: keys in order, strings in UTF-8, numbers in the range of their type and
  finite. The other two kinds of value, binary data and discarded values, have none.
\<close>

fun json_ok :: "json \<Rightarrow> bool" where
  "json_ok JNull \<longleftrightarrow> True"
| "json_ok (JObject kvs) \<longleftrightarrow> map_ok kvs \<and> (\<forall>(k, v) \<in> set kvs. utf8 k \<and> json_ok v)"
| "json_ok (JArray js) \<longleftrightarrow> (\<forall>v \<in> set js. json_ok v)"
| "json_ok (JString s) \<longleftrightarrow> utf8 s"
| "json_ok (JBool b) \<longleftrightarrow> True"
| "json_ok (JInt i) \<longleftrightarrow> - (2 ^ 63) \<le> i \<and> i < 2 ^ 63"
| "json_ok (JUint n) \<longleftrightarrow> n < 2 ^ 64"
| "json_ok (JFloat x) \<longleftrightarrow> isfinite x"
| "json_ok _ \<longleftrightarrow> False"

text \<open>A text does not tell the two integer types apart: a number without sign is read as unsigned.\<close>

fun json_norm :: "json \<Rightarrow> json" where
  "json_norm (JObject kvs) = JObject (map (\<lambda>(k, v). (k, json_norm v)) kvs)"
| "json_norm (JArray js) = JArray (map json_norm js)"
| "json_norm (JInt i) = (if 0 \<le> i then JUint (nat i) else JInt i)"
| "json_norm j = j"

section \<open>Strings\<close>

lemma hex_value_lower: "d < 16 \<Longrightarrow> hex_value (hex_lower d) = Some d"
  by (auto simp: hex_value_def hex_lower_def Let_def)

lemma hex4_u04x: "n < 2 ^ 16 \<Longrightarrow> \<exists>h. u04x n = CHR 0x5C # CHR ''u'' # h \<and> hex4 n h"
proof -
  assume n: "n < 2 ^ 16"
  have "n = n div 4096 mod 16 * 4096 + n div 256 mod 16 * 256 + n div 16 mod 16 * 16 + n mod 16"
  proof -
    have "n div 4096 mod 16 = n div 4096" using n by simp
    moreover have "n div 256 = n div 4096 * 16 + n div 256 mod 16" "n div 16 = n div 256 * 16 + n div 16 mod 16"
      by (simp_all add: div_mult2_eq [of n 256 16, simplified] div_mult2_eq [of n 16 16, simplified])
    moreover have "n = n div 16 * 16 + n mod 16" by simp
    ultimately show ?thesis by linarith
  qed
  then have "hex4 n [hex_lower (n div 4096 mod 16), hex_lower (n div 256 mod 16), hex_lower (n div 16 mod 16), hex_lower (n mod 16)]"
    unfolding hex4_def by (intro exI conjI refl) (auto intro: hex_value_lower)
  then show ?thesis by (simp add: u04x_def)
qed

lemma surrogates:
  fixes cp :: nat
  assumes "0x10000 \<le> cp" "cp < 0x110000"
  obtains a b where "a < 0x400" "b < 0x400" "cp = 0x10000 + a * 0x400 + b"
    "(0xD7C0 + drop_bit 10 cp) mod 2 ^ 16 = 0xD800 + a" "(0xDC00 + (cp AND 0x3FF)) mod 2 ^ 16 = 0xDC00 + b"
proof -
  define a where "a = cp div 1024 - 64"
  define b where "b = cp mod 1024"
  have q: "64 \<le> cp div 1024" "cp div 1024 < 1088" using assms by linarith+
  have "cp AND 0x3FF = b" using and_low [of cp 10] by (simp add: b_def)
  moreover have "a < 0x400" "b < 0x400" "cp = 0x10000 + a * 0x400 + b" using q by (simp_all add: a_def b_def diff_mult_distrib)
  moreover have "(0xD7C0 + drop_bit 10 cp) mod 2 ^ 16 = 0xD800 + a" using q by (simp add: a_def drop_bit_eq_div)
  ultimately show thesis using that by simp
qed

lemma char_codes: "char_of (0x08 :: nat) = CHR 0x08" "char_of (0x09 :: nat) = CHR 0x09" "char_of (0x0A :: nat) = CHR 0x0A"
  "char_of (0x0C :: nat) = CHR 0x0C" "char_of (0x0D :: nat) = CHR 0x0D" "char_of (0x22 :: nat) = CHR 0x22" "char_of (0x5C :: nat) = CHR 0x5C"
  using char_of_char [of "CHR 0x08", where 'a = nat] char_of_char [of "CHR 0x09", where 'a = nat]
    char_of_char [of "CHR 0x0A", where 'a = nat] char_of_char [of "CHR 0x0C", where 'a = nat]
    char_of_char [of "CHR 0x0D", where 'a = nat] char_of_char [of "CHR 0x22", where 'a = nat]
    char_of_char [of "CHR 0x5C", where 'a = nat] by simp_all

lemma body_u04x:
  assumes "string_body v t" "scalar_cp n" "n < 2 ^ 16"
  shows "string_body (utf8_encode n @ v) (u04x n @ t)"
  using hex4_u04x [OF assms(3)] body_hex [OF assms(1) _ assms(2)] by auto

lemma body_pair_u04x:
  assumes "string_body v t" "0x10000 \<le> cp" "cp < 0x110000"
  shows "string_body (utf8_encode cp @ v)
    (u04x ((0xD7C0 + drop_bit 10 cp) mod 2 ^ 16) @ u04x ((0xDC00 + (cp AND 0x3FF)) mod 2 ^ 16) @ t)"
proof -
  obtain a b where ab: "a < 0x400" "b < 0x400" "cp = 0x10000 + a * 0x400 + b"
    "(0xD7C0 + drop_bit 10 cp) mod 2 ^ 16 = 0xD800 + a" "(0xDC00 + (cp AND 0x3FF)) mod 2 ^ 16 = 0xDC00 + b"
    by (rule surrogates [OF assms(2,3)])
  obtain h where h: "u04x (0xD800 + a) = CHR 0x5C # CHR ''u'' # h" "hex4 (0xD800 + a) h" using hex4_u04x [of "0xD800 + a"] ab(1) by auto
  obtain k where k: "u04x (0xDC00 + b) = CHR 0x5C # CHR ''u'' # k" "hex4 (0xDC00 + b) k" using hex4_u04x [of "0xDC00 + b"] ab(2) by auto
  show ?thesis using body_pair [OF assms(1) h(2) ab(1) k(2) ab(2)] h(1) k(1) ab(3) unfolding ab(4,5) by simp
qed

lemma esc_cp_body:
  assumes "scalar_cp cp" "string_body v t"
  shows "string_body (utf8_encode cp @ v) (esc_cp ea cp @ t)"
proof -
  have enc: "utf8_encode cp = [char_of cp]" if "cp < 0x80" using that by (simp add: utf8_encode_def utf8_codes_def)
  have short: ?thesis if "(e, char_of cp) \<in> set short_escapes" "esc_cp ea cp = [CHR 0x5C, e]" "cp < 0x80" for e
    using body_short [OF assms(2) that(1)] that(2) enc [OF that(3)] by simp
  consider (s) "cp \<in> {0x08, 0x09, 0x0A, 0x0C, 0x0D, 0x22, 0x5C}"
    | (h) "cp \<le> 0xFFFF" "cp \<notin> {0x08, 0x09, 0x0A, 0x0C, 0x0D, 0x22, 0x5C}" "cp \<le> 0x1F \<or> ea \<and> 0x7F \<le> cp"
    | (p) "ea" "0x10000 \<le> cp"
    | (a) "cp < 0x80" "0x20 \<le> cp" "cp \<noteq> 0x22" "cp \<noteq> 0x5C" "\<not> ea \<or> cp < 0x7F"
    | (m) "\<not> ea" "0x80 \<le> cp"
  proof (cases "cp \<in> {0x08, 0x09, 0x0A, 0x0C, 0x0D, 0x22, 0x5C}")
    case False
    moreover have "cp \<le> 0x1F \<or> 0x20 \<le> cp \<and> cp < 0x7F \<or> cp = 0x7F \<or> 0x80 \<le> cp \<and> cp \<le> 0xFFFF \<or> 0x10000 \<le> cp" by linarith
    moreover have "cp \<noteq> 0x22" "cp \<noteq> 0x5C" using False by auto
    ultimately show thesis using h p a m by (cases ea) fastforce+
  qed (rule s)
  then show ?thesis
  proof cases
    case s
    then show ?thesis
      by (elim insertE emptyE; intro short) (simp_all add: char_codes short_escapes_def esc_cp_def escape_codepoint_def)
  next
    case h
    then have "esc_cp ea cp = u04x cp" by (auto simp: esc_cp_def escape_codepoint_def)
    then show ?thesis using body_u04x [OF assms(2,1)] h(1) by simp
  next
    case p
    then show ?thesis
      using body_pair_u04x [OF assms(2) p(2)] assms(1) by (simp add: esc_cp_def escape_codepoint_def scalar_cp_def)
  next
    case a
    then have "esc_cp ea cp = [char_of cp]" by (auto simp: esc_cp_def escape_codepoint_def)
    moreover have "char_of cp \<noteq> CHR 0x22" "char_of cp \<noteq> CHR 0x5C"
      using a by (auto simp: char_codes(6,7) [symmetric] simp del: char_of_nat)
    ultimately show ?thesis using body_plain [OF assms(2), of "char_of cp"] a enc by simp
  next
    case m
    then show ?thesis using body_multi [OF assms(2,1)] by (simp add: esc_cp_def)
  qed
qed

lemma dump_escaped_body:
  assumes "utf8 s"
  obtains t where "dump_escaped eh ea s = Inr t" "string_body s t"
proof -
  obtain cps where c: "list_all scalar_cp cps" "s = concat (map utf8_encode cps)" using assms by (auto simp: utf8_def)
  have "string_body (concat (map utf8_encode cps)) (concat (map (esc_cp ea) cps))"
    using c(1) by (induction cps) (auto intro: body_end esc_cp_body)
  then show thesis using that dump_escaped_cps [OF c(1)] c(2) by blast
qed

section \<open>Numbers\<close>

lemma show_nat_hd: "hd (show_nat n) = CHR ''0'' \<Longrightarrow> n = 0"
proof (induction n rule: show_nat.induct)
  case (1 n)
  have d: "d = 0" if "digit_char d = CHR ''0''" "d < 10" for d
  proof -
    have "(of_char (digit_char d) :: nat) = of_char (CHR ''0'')" using that(1) by (simp only:)
    then show ?thesis using that(2) by simp
  qed
  show ?case
  proof (cases "n < 10")
    case True
    then show ?thesis using 1(2) d [of n] by (simp add: show_nat.simps [of n])
  next
    case False
    then have "hd (show_nat n) = hd (show_nat (n div 10))" by (simp add: show_nat.simps [of n])
    then show ?thesis using 1 False by auto
  qed
qed

lemma show_nat_number: "digits (show_nat n)" "hd (show_nat n) = CHR ''0'' \<longrightarrow> tl (show_nat n) = []"
  using show_nat_digits [of _ n] show_nat_hd [of n] show_nat.simps [of 0] by (auto simp: digits_def list_all_iff)

lemma text_uint: "jws w \<Longrightarrow> n < 2 ^ 64 \<Longrightarrow> json_text (JUint n) (w @ show_nat n)"
  using text_number [of w "[]" "show_nat n" "[]" "[]"] show_nat_number [of n] by (simp add: number_parts_def number_value_def)

lemma text_int: "jws w \<Longrightarrow> n \<le> 2 ^ 63 \<Longrightarrow> json_text (JInt (- int n)) (w @ CHR ''-'' # show_nat n)"
  using text_number [of w "''-''" "show_nat n" "[]" "[]"] show_nat_number [of n] by (simp add: number_parts_def number_value_def)

section \<open>Values\<close>

definition dumps :: "serializer \<Rightarrow> nat \<Rightarrow> string \<Rightarrow> (string \<times> string) res \<Rightarrow> (string \<Rightarrow> bool) \<Rightarrow> bool" where
  "dumps sz cur ind r P \<longleftrightarrow>
     (\<exists>s ind'. r = Inr (s, ind') \<and> length ind \<le> length ind' \<and> jws ind' \<and> (\<forall>w. jws w \<longrightarrow> P (w @ s)))"

definition indent_ok :: "serializer \<Rightarrow> nat \<Rightarrow> string \<Rightarrow> bool" where
  "indent_ok sz cur ind \<longleftrightarrow> jws ind \<and> 512 \<le> length ind \<and> cur \<le> length ind \<and> sz_step sz \<le> 512"

lemma dumpsI: "jws ind \<Longrightarrow> (\<And>w. jws w \<Longrightarrow> P (w @ s)) \<Longrightarrow> dumps sz cur ind (Inr (s, ind)) P"
  by (simp add: dumps_def)

lemma ws_append [simp]: "jws (a @ b) \<longleftrightarrow> jws a \<and> jws b" "jws []" "jws (c # a) \<longleftrightarrow> ws_char c \<and> jws a"
  by (simp_all add: jws_def)

lemma write_indent_ok: "jws ind \<Longrightarrow> n \<le> length ind \<Longrightarrow> \<exists>i. write_indent ind n = Inr i \<and> jws i"
  by (auto simp: write_indent_def jws_def list_all_iff dest: in_set_takeD)

lemma element_indent: "indent_ok sz cur ind \<Longrightarrow> \<exists>i. (if sz_pretty sz then write_indent ind cur else Inr []) = Inr i \<and> jws i"
  using write_indent_ok [of ind cur] by (cases "sz_pretty sz") (simp_all add: indent_ok_def)

lemma grow_indent_ok:
  assumes "indent_ok sz cur ind"
  shows "indent_ok sz (u32 (cur + sz_step sz)) (grow_indent ind (u32 (cur + sz_step sz)))" "length ind \<le> length (grow_indent ind n)"
proof -
  have "u32 (cur + sz_step sz) \<le> cur + sz_step sz" by (simp add: u32_def)
  moreover have "jws (replicate k (CHR '' ''))" for k by (simp add: jws_def list_all_iff ws_char_def)
  ultimately show "indent_ok sz (u32 (cur + sz_step sz)) (grow_indent ind (u32 (cur + sz_step sz)))"
    using assms by (auto simp: indent_ok_def grow_indent_def)
  show "length ind \<le> length (grow_indent ind n)" by (simp add: grow_indent_def)
qed

text \<open>The brackets around the elements, with the white space of the pretty printer.\<close>

lemma dump_brackets_ok:
  assumes "dumps sz new ind body P" "cur \<le> length ind" "length ind0 \<le> length ind"
    and "\<And>w t w'. jws w \<Longrightarrow> P t \<Longrightarrow> jws w' \<Longrightarrow> T (w @ [l] @ t @ w' @ [r])"
  shows "dumps sz cur ind0 (dump_brackets sz cur l r body) T"
proof -
  obtain s ind' where b: "body = Inr (s, ind')" "length ind \<le> length ind'" "jws ind'" "\<And>w. jws w \<Longrightarrow> P (w @ s)"
    using assms(1) by (auto simp: dumps_def)
  obtain i where i: "write_indent ind' cur = Inr i" "jws i" using write_indent_ok [OF b(3), of cur] assms(2) b(2) by auto
  have n: "jws [CHR 0x0A]" by (simp add: ws_char_def)
  show ?thesis
  proof (cases "sz_pretty sz")
    case True
    have "T (w @ [l, CHR 0x0A] @ s @ [CHR 0x0A] @ i @ [r])" if "jws w" for w
      using assms(4) [OF that b(4) [OF n], of "CHR 0x0A # i"] i(2) n by simp
    then show ?thesis using b i True assms(3) by (simp add: dumps_def dump_brackets_def)
  next
    case False
    have "T (w @ [l] @ s @ [r])" if "jws w" for w using assms(4) [OF that b(4) [of "[]"], of "[]"] by simp
    then show ?thesis using b False assms(3) by (simp add: dumps_def dump_brackets_def)
  qed
qed

text \<open>The indentation of the elements of a container.\<close>

lemma next_indent_ok:
  assumes "indent_ok sz cur ind"
  defines "n \<equiv> if sz_pretty sz then u32 (cur + sz_step sz) else cur"
  defines "i \<equiv> if sz_pretty sz then grow_indent ind n else ind"
  shows "indent_ok sz n i" "cur \<le> length i" "length ind \<le> length i"
  using grow_indent_ok [OF assms(1)] assms(1) by (auto simp: n_def i_def indent_ok_def intro: order_trans)

lemma object_of_norm: "map_ok kvs \<Longrightarrow> object_of (map (\<lambda>(k, v). (k, json_norm v)) kvs) = json_norm (JObject kvs)"
proof -
  assume "map_ok kvs"
  moreover have "map fst (map (\<lambda>(k, v). (k, json_norm v)) kvs) = map fst kvs" by (simp add: case_prod_beta)
  ultimately have "map_ok (map (\<lambda>(k, v). (k, json_norm v)) kvs)" unfolding map_ok_def by (simp only:)
  from map_rebuild [OF this] show ?thesis by (simp add: object_of_def)
qed

text \<open>The texts of the containers and of integers, given those of the parts.\<close>

abbreviation norm_members :: "(string \<times> json) list \<Rightarrow> (string \<times> json) list" where
  "norm_members \<equiv> map (\<lambda>(k, v). (k, json_norm v))"

lemma dump_object_text:
  assumes "indent_ok sz cur ind" "map_ok kvs" "kvs \<noteq> []"
  defines "n \<equiv> if sz_pretty sz then u32 (cur + sz_step sz) else cur"
  defines "i \<equiv> if sz_pretty sz then grow_indent ind n else ind"
  assumes "dumps sz n i (dump_members sz n i kvs) (members_text (norm_members kvs))"
  shows "dumps sz cur ind (dump sz cur ind (JObject kvs)) (json_text (json_norm (JObject kvs)))"
proof -
  note n = next_indent_ok [OF assms(1), folded n_def, folded i_def]
  have t: "json_text (json_norm (JObject kvs)) (w @ [CHR ''{''] @ t @ w' @ [CHR ''}''])"
    if "jws w" "members_text (norm_members kvs) t" "jws w'" for w t w'
    using text_object [OF that] object_of_norm [OF assms(2)] by simp
  have "dump sz cur ind (JObject kvs) = dump_brackets sz cur (CHR ''{'') (CHR ''}'') (dump_members sz n i kvs)"
    using assms(3) by (cases "sz_pretty sz") (simp_all add: Let_def n_def i_def)
  then show ?thesis
    using dump_brackets_ok [OF assms(6) n(2,3), of "json_text (json_norm (JObject kvs))" "CHR ''{''" "CHR ''}''"] t by (simp only:)
qed

lemma dump_array_text:
  assumes "indent_ok sz cur ind" "js \<noteq> []"
  defines "n \<equiv> if sz_pretty sz then u32 (cur + sz_step sz) else cur"
  defines "i \<equiv> if sz_pretty sz then grow_indent ind n else ind"
  assumes "dumps sz n i (dump_elements sz n i js) (elements_text (map json_norm js))"
  shows "dumps sz cur ind (dump sz cur ind (JArray js)) (json_text (json_norm (JArray js)))"
proof -
  note n = next_indent_ok [OF assms(1), folded n_def, folded i_def]
  have t: "json_text (json_norm (JArray js)) (w @ [CHR ''[''] @ t @ w' @ [CHR '']''])"
    if "jws w" "elements_text (map json_norm js) t" "jws w'" for w t w'
    using text_array [OF that] by simp
  have "dump sz cur ind (JArray js) = dump_brackets sz cur (CHR ''['') (CHR '']'') (dump_elements sz n i js)"
    using assms(2) by (cases "sz_pretty sz") (simp_all add: Let_def n_def i_def)
  then show ?thesis
    using dump_brackets_ok [OF assms(5) n(2,3), of "json_text (json_norm (JArray js))" "CHR ''[''" "CHR '']''"] t by (simp only:)
qed

lemma dump_int_text:
  assumes "jws ind" "- (2 ^ 63) \<le> i" "i < 2 ^ 63"
  shows "dumps sz cur ind (dump sz cur ind (JInt i)) (json_text (json_norm (JInt i)))"
proof -
  have d: "dump sz cur ind (JInt i) = Inr (show_int i, ind)" using assms by (simp add: dump_integer_show)
  show ?thesis
  proof (cases "0 \<le> i")
    case True
    then have "nat i < 2 ^ 64" using assms(3) by (simp add: nat_less_iff)
    then show ?thesis using dumpsI [OF assms(1), of "json_text (JUint (nat i))" "show_nat (nat i)"] text_uint d True by (simp add: show_int_def)
  next
    case False
    then have "nat (- i) \<le> 2 ^ 63" "- int (nat (- i)) = i" using assms(2) by simp_all
    then show ?thesis
      using dumpsI [OF assms(1), of "json_text (JInt i)" "CHR ''-'' # show_nat (nat (- i))"] text_int [of _ "nat (- i)"] d False by (simp add: show_int_def)
  qed
qed

lemma dump_member_text:
  assumes "indent_ok sz cur ind" "utf8 k" "dumps sz cur ind (dump sz cur ind v) (json_text (json_norm v))"
    and rest: "\<And>i ks s ind1. (if sz_pretty sz then write_indent ind cur else Inr []) = Inr i \<Longrightarrow>
      dump_escaped (sz_handler sz) (sz_ascii sz) k = Inr ks \<Longrightarrow> dump sz cur ind v = Inr (s, ind1) \<Longrightarrow> kvs \<noteq> [] \<Longrightarrow> indent_ok sz cur ind1 \<Longrightarrow>
      dumps sz cur ind1 (dump_members sz cur ind1 kvs) (members_text (norm_members kvs))"
  shows "dumps sz cur ind (dump_members sz cur ind ((k, v) # kvs)) (members_text (norm_members ((k, v) # kvs)))"
proof -
  obtain i where i: "(if sz_pretty sz then write_indent ind cur else Inr []) = Inr i" "jws i" using element_indent [OF assms(1)] by blast
  obtain ks where ks: "dump_escaped (sz_handler sz) (sz_ascii sz) k = Inr ks" "string_body k ks" using dump_escaped_body [OF assms(2)] by metis
  obtain s ind1 where s: "dump sz cur ind v = Inr (s, ind1)" "length ind \<le> length ind1" "jws ind1" "\<And>w. jws w \<Longrightarrow> json_text (json_norm v) (w @ s)"
    using assms(3) by (auto simp: dumps_def)
  have in1: "indent_ok sz cur ind1" using assms(1) s(2,3) by (simp add: indent_ok_def)
  define sp where "sp = (if sz_pretty sz then '' '' else [])"
  have sp: "jws sp" "(if sz_pretty sz then '': '' else '':'') = '':'' @ sp" by (simp_all add: sp_def ws_char_def)
  show ?thesis
  proof (cases "kvs = []")
    case True
    have "members_text [(k, json_norm v)] (w @ i @ quote @ ks @ quote @ '':'' @ sp @ s)" if "jws w" for w
      using members_last [of "w @ i" k ks "[]", OF _ ks(2) _ s(4) [OF sp(1)]] that i(2) by (simp add: quote_def)
    then show ?thesis using True i s ks sp(2) by (simp add: dumps_def Let_def)
  next
    case False
    obtain r ind2 where r: "dump_members sz cur ind1 kvs = Inr (r, ind2)" "length ind1 \<le> length ind2" "jws ind2"
        "\<And>w. jws w \<Longrightarrow> members_text (norm_members kvs) (w @ r)"
      using rest [OF i(1) ks(1) s(1) False in1] by (auto simp: dumps_def)
    define nl where "nl = (if sz_pretty sz then [CHR 0x0A] else [])"
    have sep: "(if sz_pretty sz then '','' @ [CHR 0x0A] else '','') = '','' @ nl" "jws nl" by (simp_all add: nl_def ws_char_def)
    have "members_text (norm_members ((k, v) # kvs)) (w @ i @ quote @ ks @ quote @ '':'' @ sp @ s @ '','' @ nl @ r)" if "jws w" for w
      using members_more [of "w @ i" k ks "[]", OF _ ks(2) _ s(4) [OF sp(1)] _ r(4) [OF sep(2)], of "[]"] that i(2)
      by (simp add: quote_def)
    then show ?thesis using False i s r ks sp(2) sep(1) by (simp add: dumps_def Let_def)
  qed
qed

lemma dump_element_text:
  assumes "indent_ok sz cur ind" "dumps sz cur ind (dump sz cur ind v) (json_text (json_norm v))"
    and rest: "\<And>i s ind1. (if sz_pretty sz then write_indent ind cur else Inr []) = Inr i \<Longrightarrow>
      dump sz cur ind v = Inr (s, ind1) \<Longrightarrow> js \<noteq> [] \<Longrightarrow> indent_ok sz cur ind1 \<Longrightarrow>
      dumps sz cur ind1 (dump_elements sz cur ind1 js) (elements_text (map json_norm js))"
  shows "dumps sz cur ind (dump_elements sz cur ind (v # js)) (elements_text (map json_norm (v # js)))"
proof -
  obtain i where i: "(if sz_pretty sz then write_indent ind cur else Inr []) = Inr i" "jws i" using element_indent [OF assms(1)] by blast
  obtain s ind1 where s: "dump sz cur ind v = Inr (s, ind1)" "length ind \<le> length ind1" "jws ind1" "\<And>w. jws w \<Longrightarrow> json_text (json_norm v) (w @ s)"
    using assms(2) by (auto simp: dumps_def)
  have in1: "indent_ok sz cur ind1" using assms(1) s(2,3) by (simp add: indent_ok_def)
  show ?thesis
  proof (cases "js = []")
    case True
    have "elements_text [json_norm v] (w @ i @ s)" if "jws w" for w using elements_last [OF s(4) [of "w @ i"]] that i(2) by simp
    then show ?thesis using True i s by (simp add: dumps_def)
  next
    case False
    obtain r ind2 where r: "dump_elements sz cur ind1 js = Inr (r, ind2)" "length ind1 \<le> length ind2" "jws ind2"
        "\<And>w. jws w \<Longrightarrow> elements_text (map json_norm js) (w @ r)"
      using rest [OF i(1) s(1) False in1] by (auto simp: dumps_def)
    define nl where "nl = (if sz_pretty sz then [CHR 0x0A] else [])"
    have sep: "(if sz_pretty sz then '','' @ [CHR 0x0A] else '','') = '','' @ nl" "jws nl" by (simp_all add: nl_def ws_char_def)
    have "elements_text (map json_norm (v # js)) (w @ i @ s @ '','' @ nl @ r)" if "jws w" for w
      using elements_more [OF s(4) [of "w @ i"] _ r(4) [OF sep(2)], of "[]"] that i(2) by simp
    then show ?thesis using False i s r sep(1) by (simp add: dumps_def)
  qed
qed

lemma dump_text:
  shows "indent_ok sz cur ind \<Longrightarrow> json_ok j \<Longrightarrow> dumps sz cur ind (dump sz cur ind j) (json_text (json_norm j))"
    and "indent_ok sz cur ind \<Longrightarrow> kvs \<noteq> [] \<Longrightarrow> (\<forall>(k, v) \<in> set kvs. utf8 k \<and> json_ok v) \<Longrightarrow>
      dumps sz cur ind (dump_members sz cur ind kvs) (members_text (norm_members kvs))"
    and "indent_ok sz cur ind \<Longrightarrow> js \<noteq> [] \<Longrightarrow> (\<forall>v \<in> set js. json_ok v) \<Longrightarrow>
      dumps sz cur ind (dump_elements sz cur ind js) (elements_text (map json_norm js))"
proof (induction sz cur ind j and sz cur ind kvs and sz cur ind js rule: dump_dump_members_dump_elements.induct)
  case (1 sz cur ind kvs)
  show ?case
  proof (cases "kvs = []")
    case True
    then show ?thesis
      using dumpsI [of ind "json_text (JObject [])" "''{}''"] text_object_empty [of _ "[]"] 1(2) by (simp add: indent_ok_def)
  next
    case False
    then show ?thesis using dump_object_text [OF 1(2) _ False 1(1) [OF False refl refl next_indent_ok(1) [OF 1(2)] False]] 1(3) by simp
  qed
next
  case (2 sz cur ind js)
  show ?case
  proof (cases "js = []")
    case True
    then show ?thesis
      using dumpsI [of ind "json_text (JArray [])" "''[]''"] text_array_empty [of _ "[]"] 2(2) by (simp add: indent_ok_def)
  next
    case False
    then show ?thesis using dump_array_text [OF 2(2) False 2(1) [OF False refl refl next_indent_ok(1) [OF 2(2)] False]] 2(3) by simp
  qed
next
  case (3 sz cur ind s)
  then have "utf8 s" "jws ind" by (simp_all add: indent_ok_def)
  then obtain t where t: "dump_escaped (sz_handler sz) (sz_ascii sz) s = Inr t" "string_body s t" using dump_escaped_body by metis
  then show ?case using dumpsI [OF \<open>jws ind\<close>, of "json_text (JString s)" "quote @ t @ quote"] text_string [OF _ t(2)] by (simp add: quote_def)
next
  case (5 sz cur ind b)
  then show ?case
    using dumpsI [of ind "json_text (JBool True)" "''true''"] dumpsI [of ind "json_text (JBool False)" "''false''"] text_true text_false
    by (cases b) (simp_all add: indent_ok_def)
next
  case (6 sz cur ind i)
  then show ?case using dump_int_text by (simp add: indent_ok_def)
next
  case (7 sz cur ind n)
  then show ?case using dumpsI [of ind "json_text (JUint n)" "show_nat n"] text_uint by (simp add: dump_integer_show show_int_def indent_ok_def)
next
  case (8 sz cur ind x)
  then obtain m ip fr ex where f: "number_parts m ip fr ex" "dump_float x = Inr (m @ ip @ fr @ ex)" "number_value m ip fr ex = JFloat x"
    using finite_float_text [of x] by (auto simp: float_text_def)
  have "json_text (JFloat x) (w @ m @ ip @ fr @ ex)" if "jws w" for w using text_number [OF that f(1)] f(3) 8(2) by auto
  then show ?case using f(2) dumpsI [of ind "json_text (JFloat x)"] 8(1) by (simp add: indent_ok_def)
next
  case (10 sz cur ind)
  then show ?case using dumpsI [of ind "json_text JNull" "''null''"] text_null by (simp add: indent_ok_def)
next
  case (12 sz cur ind k v kvs)
  have ok: "utf8 k" "json_ok v" "\<forall>(k, v) \<in> set kvs. utf8 k \<and> json_ok v" using 12(5) by auto
  obtain i where i: "(if sz_pretty sz then write_indent ind cur else Inr []) = Inr i" using element_indent [OF 12(3)] by blast
  obtain ks where ks: "dump_escaped (sz_handler sz) (sz_ascii sz) k = Inr ks" using dump_escaped_body [OF ok(1)] by metis
  show ?case
    by (rule dump_member_text [OF 12(3) ok(1) 12(1) [OF i ks 12(3) ok(2)]]) (rule 12(2) [OF _ _ _ refl refl _ _ _ ok(3)]; assumption)
next
  case (14 sz cur ind v js)
  have ok: "json_ok v" "\<forall>v \<in> set js. json_ok v" using 14(5) by auto
  obtain i where i: "(if sz_pretty sz then write_indent ind cur else Inr []) = Inr i" using element_indent [OF 14(3)] by blast
  show ?case
    by (rule dump_element_text [OF 14(3) 14(1) [OF i 14(3) ok(1)]]) (rule 14(2) [OF _ _ refl _ _ _ ok(2)]; assumption)
qed simp_all

section \<open>The round trip\<close>

lemma json_dump_text:
  assumes "json_ok j" "indent \<le> 512" "ws_char indent_char"
  shows "\<exists>s. json_dump indent indent_char ea eh j = Inr s \<and> json_text (json_norm j) s"
proof -
  let ?sz = "\<lparr>sz_pretty = (0 \<le> indent), sz_ascii = ea, sz_handler = eh, sz_step = (if 0 \<le> indent then nat indent else 0)\<rparr>"
  have "indent_ok ?sz 0 (replicate 512 indent_char)"
    using assms(2,3) by (auto simp: indent_ok_def jws_def list_all_iff)
  from dump_text(1) [OF this assms(1)] obtain s ind where
    "dump ?sz 0 (replicate 512 indent_char) j = Inr (s, ind)" "\<forall>w. jws w \<longrightarrow> json_text (json_norm j) (w @ s)"
    by (auto simp: dumps_def)
  then show ?thesis by (metis (no_types, lifting) append_Nil bindr_simps(2) case_prod_conv json_dump_def ws_append(2))
qed

lemma json_dump_parse:
  assumes "json_ok j" "indent \<le> 512" "ws_char indent_char" "r = [] \<or> (\<exists>z. r = NUL # z)"
  shows "\<exists>s. json_dump indent indent_char ea eh j = Inr s \<and> json_parse (s @ r) = Inr (json_norm j)"
  using json_dump_text [OF assms(1-3), of ea eh] json_parse_complete [OF _ _ assms(4), of "json_norm j" _ "[]"]
  by auto

lemma dump_default_parse:
  assumes "json_ok j"
  obtains s where "dump_default j = Inr s" "json_parse s = Inr (json_norm j)" "json_parse (s @ [NUL]) = Inr (json_norm j)"
proof -
  have c: "ws_char CHR '' ''" by (simp add: ws_char_def)
  show thesis
    using json_dump_parse [OF assms _ c, of "- 1" "[]" False strict] json_dump_parse [OF assms _ c, of "- 1" "[NUL]" False strict] that
    by (auto simp: dump_default_def)
qed

text \<open>The compact text of a value whose strings are plain, by simplification.\<close>

lemma show_nat_numeral: "show_nat (numeral k) =
    (if numeral k < (10 :: nat) then [digit_char (numeral k)] else show_nat (numeral k div 10) @ [digit_char (numeral k mod 10)])"
  by (rule show_nat.simps)

lemma digit_chars: "digit_char 1 = CHR ''1''" "digit_char 2 = CHR ''2''" "digit_char 3 = CHR ''3''" "digit_char 4 = CHR ''4''"
  "digit_char 5 = CHR ''5''" "digit_char 6 = CHR ''6''" "digit_char 7 = CHR ''7''" "digit_char 8 = CHR ''8''" "digit_char 9 = CHR ''9''"
  by code_simp+

lemma show_nat_01: "show_nat 0 = ''0''" "show_nat 1 = ''1''" "show_nat (Suc 0) = ''1''"
  by code_simp+

lemmas dump_eval = dump_default_def json_dump_def dump_brackets_def dump_integer_show show_int_def show_nat_numeral show_nat_01
  digit_chars digit_char_0 dump_escaped_plain plain_char_def less_eq_char_def quote_def

end
