(* ===== verification/Bus_Msg.thy ===== *)
theory Bus_Msg
  imports Base_Status Std_Map Net_Buffer Block_Reader Json_Roundtrip
begin

text \<open>
  Messages of the bus and their wire format: \<^verbatim>\<open>cppboot/adv/bus/msg.h\<close>, \<^verbatim>\<open>msg.cc\<close>, \<^verbatim>\<open>msg_packer.cc\<close>,
  \<^verbatim>\<open>context.cc\<close>. The bodies are JSON texts (theories \<open>Json_Value\<close> to \<open>Json_Roundtrip\<close>).
\<close>

section \<open>Messages\<close>

type_synonym Params = "(string, string) smap"

definition Params_has :: "Params \<Rightarrow> string \<Rightarrow> bool" where
  "Params_has ps key \<longleftrightarrow> (if key = [] then False else map_find ps key \<noteq> None)"

definition Params_set :: "Params \<Rightarrow> string \<Rightarrow> string \<Rightarrow> Params" where
  "Params_set ps key val = (if key \<noteq> [] then map_set ps key val else ps)"

definition Params_get :: "Params \<Rightarrow> string \<Rightarrow> string" where
  "Params_get ps key =
     (if key = [] then '''' else case map_find ps key of Some v \<Rightarrow> v | None \<Rightarrow> '''')"

text \<open>Connections are named by numbers; \<open>msg_src\<close> is null until a message is received.\<close>

record Msg =
  msg_src :: "nat option"
  msg_id :: nat
  msg_is_request :: bool
  msg_caller :: string
  msg_method :: string
  msg_method_provider :: string
  msg_params :: Params

definition Msg_new :: Msg where
  "Msg_new = \<lparr>msg_src = None, msg_id = 0, msg_is_request = True, msg_caller = '''', msg_method = '''',
     msg_method_provider = '''', msg_params = []\<rparr>"

definition set_method :: "Msg \<Rightarrow> string \<Rightarrow> Msg res" where
  "set_method m method =
     (let pos = str_find_first_of method ''/'' 0 in
      if pos \<noteq> npos
      then bindr (str_substr method 0 pos) (\<lambda>p.
           bindr (str_substr method (pos + 1) npos) (\<lambda>q.
           Inr (m\<lparr>msg_method_provider := p, msg_method := q\<rparr>)))
      else Inr (m\<lparr>msg_method := method\<rparr>))"

definition set_param :: "Msg \<Rightarrow> string \<Rightarrow> string \<Rightarrow> Msg" where
  "set_param m key val = m\<lparr>msg_params := Params_set (msg_params m) key val\<rparr>"

section \<open>JSON packing\<close>

fun pack_params :: "(string \<times> string) list \<Rightarrow> json \<Rightarrow> json res" where
  "pack_params [] param = Inr param"
| "pack_params ((t, v) # ps) param =
     bindr (json_put JNull ''t'' (JString t)) (\<lambda>p.
     bindr (json_put p ''v'' (JString v)) (\<lambda>p.
     bindr (json_push_back param p) (\<lambda>param. pack_params ps param)))"

definition pack_json :: "Msg \<Rightarrow> json res" where
  "pack_json m =
     bindr (json_put JNull ''id'' (JUint (msg_id m))) (\<lambda>root.
     bindr (json_put root ''method'' (JString (msg_method m))) (\<lambda>root.
     bindr (json_put root ''is_req'' (JBool (msg_is_request m))) (\<lambda>root.
     bindr (json_put root ''caller'' (JString (msg_caller m))) (\<lambda>root.
     bindr (json_put root ''method_provider'' (JString (msg_method_provider m))) (\<lambda>root.
     bindr (pack_params (msg_params m) JNull) (\<lambda>param.
     json_put root ''param'' param))))))"

definition JsonPacker_Pack :: "Msg \<Rightarrow> string res" where
  "JsonPacker_Pack m = bindr (pack_json m) dump_default"

fun unpack_params :: "json list \<Rightarrow> Msg \<Rightarrow> Msg res" where
  "unpack_params [] m = Inr m"
| "unpack_params (i # is) m =
     bindr (bindr (json_at i ''t'') json_str) (\<lambda>t.
     bindr (bindr (json_at i ''v'') json_str) (\<lambda>v.
     unpack_params is (set_param m t v)))"

definition unpack_json :: "json \<Rightarrow> Msg \<Rightarrow> Msg res" where
  "unpack_json root' m =
     bindr (bindr (json_at root' ''id'') json_u32) (\<lambda>i.
     let m = m\<lparr>msg_id := i\<rparr> in
     bindr (bindr (json_at root' ''method'') json_str) (\<lambda>s.
     bindr (set_method m s) (\<lambda>m.
     bindr (bindr (json_at root' ''is_req'') json_bool) (\<lambda>b.
     let m = m\<lparr>msg_is_request := b\<rparr> in
     bindr (bindr (json_at root' ''caller'') json_str) (\<lambda>c.
     let m = m\<lparr>msg_caller := c\<rparr> in
     bindr (bindr (json_at root' ''method_provider'') json_str) (\<lambda>p.
     let m = m\<lparr>msg_method_provider := p\<rparr> in
     bindr (json_at root' ''param'') (\<lambda>param.
     unpack_params (json_items param) m)))))))"

text \<open>
  An exception of the library becomes an error status; no other exception can be thrown here. The caller
  drops the message then, so the partly filled message is not part of the result.
\<close>

definition JsonPacker_Unpack :: "string \<Rightarrow> Msg \<Rightarrow> (Status \<times> Msg) res" where
  "JsonPacker_Unpack data m =
     (case bindr (json_parse data) (\<lambda>root. unpack_json root m) of
        Inl (JsonError what) \<Rightarrow> ret_status (InvalidArgumentError (sv_of_string what)) m
      | Inl e \<Rightarrow> Inl e
      | Inr m' \<Rightarrow> Inr (OkStatus, m'))"

section \<open>Framing\<close>

definition kMsgMagic :: nat where
  "kMsgMagic = 0x20141021"

record MsgHeader =
  mh_magic :: nat
  mh_length :: nat

definition hdr_bytes :: "MsgHeader \<Rightarrow> string" where
  "hdr_bytes h = le32 (mh_magic h) @ le32 (mh_length h)"

definition hdr_read :: "string \<Rightarrow> MsgHeader" where
  "hdr_read b = \<lparr>mh_magic = le32_read b, mh_length = le32_read (drop 4 b)\<rparr>"

text \<open>The bytes \<open>SendMessageToConnection\<close> hands to \<open>Conn::Send\<close>.\<close>

definition SendMessage_bytes :: "Msg \<Rightarrow> string res" where
  "SendMessage_bytes m =
     bindr (JsonPacker_Pack m) (\<lambda>body.
     let hdr = \<lparr>mh_magic = kMsgMagic, mh_length = (length body mod 2 ^ 32 + 1) mod 2 ^ 32\<rparr>;
         tmp = Buffer_new (8 + length body + 1) in
     bindr (Append tmp (hdr_bytes hdr)) (\<lambda>tmp.
     bindr (Append tmp (body @ [NUL])) (\<lambda>tmp.
     Inr (take (ReadableBytes tmp) (Peek tmp)))))"

datatype ParseState = kHeader | kBody

datatype ParseResult = kContinue | kBad | kGood

record BusContext =
  bc_name :: string
  bc_state :: ParseState
  bc_header :: MsgHeader

definition BusContext_new :: BusContext where
  "BusContext_new = \<lparr>bc_name = '''', bc_state = kHeader, bc_header = \<lparr>mh_magic = 0, mh_length = 0\<rparr>\<rparr>"

definition set_name :: "BusContext \<Rightarrow> string \<Rightarrow> BusContext" where
  "set_name c n = c\<lparr>bc_name := n\<rparr>"

definition parse_body :: "BusContext \<Rightarrow> Buffer \<Rightarrow> Msg \<Rightarrow> (ParseResult \<times> BusContext \<times> Buffer \<times> Msg) res" where
  "parse_body c buf m =
     (if bc_state c = kBody
      then
        if ReadableBytes buf < mh_length (bc_header c) then Inr (kContinue, c, buf, m)
        else
          let body = take (mh_length (bc_header c)) (Peek buf);
              buf = Retrive buf (mh_length (bc_header c));
              c = c\<lparr>bc_state := kHeader\<rparr> in
          bindr (JsonPacker_Unpack body m) (\<lambda>(st, m).
            if \<not> st_ok st then Inr (kBad, c, buf, m) else Inr (kGood, c, buf, m))
      else Inr (kGood, c, buf, m))"

definition BusContext_Parse :: "BusContext \<Rightarrow> Buffer \<Rightarrow> Msg \<Rightarrow> (ParseResult \<times> BusContext \<times> Buffer \<times> Msg) res" where
  "BusContext_Parse c buf m =
     (if bc_state c = kHeader
      then
        if ReadableBytes buf < 8 then Inr (kContinue, c, buf, m)
        else
          let c = c\<lparr>bc_header := hdr_read (take 8 (Peek buf))\<rparr>;
              buf = Retrive buf 8;
              c = c\<lparr>bc_state := kBody\<rparr> in
          if mh_magic (bc_header c) \<noteq> kMsgMagic then Inr (kBad, c, buf, m)
          else parse_body c buf m
      else parse_body c buf m)"

section \<open>Packing and unpacking\<close>

text \<open>The messages that have a text: identifiers of 32 bits, parameters with names, strings in UTF-8.\<close>

definition msg_ok :: "Msg \<Rightarrow> bool" where
  "msg_ok m \<longleftrightarrow> msg_id m < 2 ^ 32 \<and> map_ok (msg_params m) \<and> [] \<notin> fst ` set (msg_params m) \<and>
     utf8 (msg_caller m) \<and> utf8 (msg_method m) \<and> utf8 (msg_method_provider m) \<and>
     (\<forall>(k, v) \<in> set (msg_params m). utf8 k \<and> utf8 v)"

definition param_json :: "string \<times> string \<Rightarrow> json" where
  "param_json = (\<lambda>(k, v). JObject [(''t'', JString k), (''v'', JString v)])"

definition msg_json :: "Msg \<Rightarrow> json" where
  "msg_json m =
     JObject [(''caller'', JString (msg_caller m)), (''id'', JUint (msg_id m)),
       (''is_req'', JBool (msg_is_request m)), (''method'', JString (msg_method m)),
       (''method_provider'', JString (msg_method_provider m)),
       (''param'', if msg_params m = [] then JNull else JArray (map param_json (msg_params m)))]"

lemma pack_params_array: "pack_params ps (JArray js) = Inr (JArray (js @ map param_json ps))"
  by (induction ps arbitrary: js) (auto simp: param_json_def)

lemma pack_json_eq: "pack_json m = Inr (msg_json m)"
proof (cases "msg_params m")
  case Nil
  then show ?thesis by (simp add: pack_json_def msg_json_def)
next
  case (Cons p ps)
  then show ?thesis
    by (cases p) (simp add: pack_json_def msg_json_def pack_params_array param_json_def)
qed

lemma msg_json_ok: "msg_ok m \<Longrightarrow> json_ok (msg_json m) \<and> json_norm (msg_json m) = msg_json m"
  by (auto simp: msg_ok_def msg_json_def map_ok_def param_json_def)

lemma Pack_text:
  assumes "msg_ok m"
  obtains s where "JsonPacker_Pack m = Inr s" "json_parse s = Inr (msg_json m)" "json_parse (s @ [NUL]) = Inr (msg_json m)"
  using dump_default_parse [of "msg_json m"] msg_json_ok [OF assms] by (auto simp: JsonPacker_Pack_def pack_json_eq)

lemma set_method_plain: "CHR ''/'' \<notin> set s \<Longrightarrow> set_method m s = Inr (m\<lparr>msg_method := s\<rparr>)"
proof -
  assume "CHR ''/'' \<notin> set s"
  then have "str_find_first_of s ''/'' 0 = npos"
    unfolding str_find_first_of_def by (intro scan_up_none) (auto simp: in_set_conv_nth)
  then show ?thesis by (simp add: set_method_def)
qed

lemma unpack_params_pack:
  "[] \<notin> fst ` set ps \<Longrightarrow>
   unpack_params (map param_json ps) m =
     Inr (m\<lparr>msg_params := foldl (\<lambda>m (k, v). map_set m k v) (msg_params m) ps\<rparr>)"
proof (induction ps arbitrary: m)
  case (Cons kv ps)
  then show ?case
    by (cases kv) (auto simp: set_param_def Params_set_def param_json_def map_find_def)
qed simp

lemma msg_json_at:
  "json_at (msg_json m) ''id'' = Inr (JUint (msg_id m))"
  "json_at (msg_json m) ''method'' = Inr (JString (msg_method m))"
  "json_at (msg_json m) ''is_req'' = Inr (JBool (msg_is_request m))"
  "json_at (msg_json m) ''caller'' = Inr (JString (msg_caller m))"
  "json_at (msg_json m) ''method_provider'' = Inr (JString (msg_method_provider m))"
  "json_at (msg_json m) ''param'' = Inr (if msg_params m = [] then JNull else JArray (map param_json (msg_params m)))"
  by (simp_all add: msg_json_def map_find_def)

lemma unpack_pack:
  assumes "msg_ok m" "CHR ''/'' \<notin> set (msg_method m)"
  shows "unpack_json (msg_json m) Msg_new = Inr (m\<lparr>msg_src := None\<rparr>)"
proof -
  define P where "P = (if msg_params m = [] then JNull else JArray (map param_json (msg_params m)))"
  have items: "json_items P = map param_json (msg_params m)" by (simp add: P_def json_items_def)
  have params: "unpack_params (map param_json (msg_params m)) x = Inr (x\<lparr>msg_params := msg_params m\<rparr>)" if "msg_params x = []" for x
    using unpack_params_pack [of "msg_params m" x] map_rebuild [of "msg_params m"] assms(1) that
    by (auto simp: msg_ok_def)
  have idm: "json_u32 (JUint (msg_id m)) = Inr (msg_id m)" using assms(1) by (intro json_get_simps) (simp add: msg_ok_def)
  show ?thesis
    unfolding unpack_json_def msg_json_at P_def [symmetric] Let_def
    by (simp add: set_method_plain [OF assms(2)] idm items params Msg_new_def)
qed

lemma Unpack_Pack:
  assumes "JsonPacker_Pack m = Inr s" "msg_ok m" "CHR ''/'' \<notin> set (msg_method m)"
  shows "JsonPacker_Unpack s Msg_new = Inr (OkStatus, m\<lparr>msg_src := None\<rparr>)"
    "JsonPacker_Unpack (s @ [NUL]) Msg_new = Inr (OkStatus, m\<lparr>msg_src := None\<rparr>)"
proof -
  have "json_parse s = Inr (msg_json m)" "json_parse (s @ [NUL]) = Inr (msg_json m)"
    using Pack_text [OF assms(2)] assms(1) by (metis sum.inject(2))+
  then show "JsonPacker_Unpack s Msg_new = Inr (OkStatus, m\<lparr>msg_src := None\<rparr>)"
    "JsonPacker_Unpack (s @ [NUL]) Msg_new = Inr (OkStatus, m\<lparr>msg_src := None\<rparr>)"
    using unpack_pack [OF assms(2,3)] by (simp_all add: JsonPacker_Unpack_def)
qed

section \<open>Frames\<close>

definition body_header :: "string \<Rightarrow> MsgHeader" where
  "body_header body = \<lparr>mh_magic = kMsgMagic, mh_length = length body + 1\<rparr>"

definition frame :: "string \<Rightarrow> string" where
  "frame body = hdr_bytes (body_header body) @ body @ [NUL]"

lemma hdr_bytes_length [simp]: "length (hdr_bytes h) = 8"
  by (simp add: hdr_bytes_def)

lemma hdr_read_bytes: "mh_magic h < 2 ^ 32 \<Longrightarrow> mh_length h < 2 ^ 32 \<Longrightarrow> hdr_read (hdr_bytes h) = h"
proof -
  assume h: "mh_magic h < 2 ^ 32" "mh_length h < 2 ^ 32"
  have "le32_read (le32 n) = n" if "n < 2 ^ 32" for n
    using le32_read_le32 [OF that, of "[]"] by simp
  then show ?thesis using h by (cases h) (simp add: hdr_read_def hdr_bytes_def)
qed

lemma body_header_read: "length body + 1 < 2 ^ 32 \<Longrightarrow> hdr_read (hdr_bytes (body_header body)) = body_header body"
  by (rule hdr_read_bytes) (simp_all add: body_header_def kMsgMagic_def)

lemma SendMessage_frame:
  assumes "JsonPacker_Pack m = Inr body" "length body + 1 < 2 ^ 32"
  shows "SendMessage_bytes m = Inr (frame body)"
proof -
  have hdr: "(length body mod 2 ^ 32 + 1) mod 2 ^ 32 = length body + 1" using assms(2) by simp
  have mx: "2 * 2 ^ 32 + 1000 \<le> kMaxSize" by (simp add: kMaxSize_def)
  obtain t1 where t1: "Append (Buffer_new (8 + length body + 1)) (hdr_bytes (body_header body)) = Inr t1"
    "buf_inv t1" "Buffer_Str t1 = hdr_bytes (body_header body)"
    using Append_law [OF Buffer_new_inv(1), of "8 + length body + 1" "hdr_bytes (body_header body)"] mx
    by (auto simp: Buffer_new_inv kCheapPrepend_def)
  obtain t2 where "Append t1 (body @ [NUL]) = Inr t2" "Buffer_Str t2 = frame body"
    using Append_law [OF t1(2), of "body @ [NUL]"] t1(3) assms(2) mx
    by (auto simp: frame_def kCheapPrepend_def)
  then show ?thesis
    using assms(1) t1(1) hdr by (simp add: SendMessage_bytes_def body_header_def Buffer_Str_def)
qed

text \<open>What \<open>OnReceive\<close> does with a block of bytes read from the connection.\<close>

definition receive :: "BusContext \<Rightarrow> Buffer \<Rightarrow> string
    \<Rightarrow> (ParseResult \<times> BusContext \<times> Buffer \<times> Msg) res" where
  "receive c buf block = bindr (Append buf block) (\<lambda>buf. BusContext_Parse c buf Msg_new)"

text \<open>The same as a handler of blocks: it reports the result and the message and keeps its context and buffer.\<close>

definition bus_on_block :: "BusContext \<times> Buffer \<Rightarrow> string \<Rightarrow> ((ParseResult \<times> Msg) \<times> BusContext \<times> Buffer) res" where
  "bus_on_block s block =
     (case s of (c, buf) \<Rightarrow> bindr (receive c buf block) (\<lambda>(r, c, buf, m). Inr ((r, m), (c, buf))))"

text \<open>The receiver has seen part of a frame and waits for the bytes \<open>rest\<close>.\<close>

definition waiting :: "BusContext \<Rightarrow> Buffer \<Rightarrow> string \<Rightarrow> string \<Rightarrow> bool" where
  "waiting c buf body rest \<longleftrightarrow> buf_inv buf \<and> rest \<noteq> [] \<and>
     (bc_state c = kHeader \<and> length (Buffer_Str buf) < 8 \<and> Buffer_Str buf @ rest = frame body \<or>
      bc_state c = kBody \<and> bc_header c = body_header body \<and> Buffer_Str buf @ rest = body @ [NUL])"

lemma Peek_prefix: "buf_inv b \<Longrightarrow> n \<le> ReadableBytes b \<Longrightarrow> take n (Peek b) = take n (Buffer_Str b)"
  by (simp add: Buffer_Str_def)

lemma parse_body_continue:
  assumes "buf_inv buf" "bc_state c = kBody" "bc_header c = body_header body"
    and "Buffer_Str buf @ rest = body @ [NUL]" "rest \<noteq> []"
  shows "parse_body c buf m = Inr (kContinue, c, buf, m)"
proof -
  have "length (Buffer_Str buf) + length rest = length body + 1"
    using arg_cong [OF assms(4), of length] by simp
  then have "length (Buffer_Str buf) < length body + 1" using assms(5) by (cases rest) auto
  then have "ReadableBytes buf < length body + 1" using length_Buffer_Str [OF assms(1)] by simp
  then show ?thesis using assms(2,3) by (simp add: parse_body_def body_header_def)
qed

lemma parse_body_good:
  assumes "buf_inv buf" "bc_state c = kBody" "bc_header c = body_header body"
    and "Buffer_Str buf = (body @ [NUL]) @ rest"
    and "JsonPacker_Unpack (body @ [NUL]) Msg_new = Inr (OkStatus, m)"
  shows "\<exists>buf'. parse_body c buf Msg_new = Inr (kGood, c\<lparr>bc_state := kHeader\<rparr>, buf', m) \<and>
    buf_inv buf' \<and> Buffer_Str buf' = rest"
proof -
  let ?n = "length body + 1"
  have n: "?n \<le> ReadableBytes buf" using assms(1,4) length_Buffer_Str by fastforce
  then have "take ?n (Peek buf) = body @ [NUL]" using Peek_prefix [OF assms(1) n] assms(4) by simp
  moreover have "buf_inv (Retrive buf ?n)" "Buffer_Str (Retrive buf ?n) = rest"
    using Retrive_law [OF assms(1), of ?n] assms(4) by simp_all
  ultimately show ?thesis
    using n assms(2,3,5) by (simp add: parse_body_def body_header_def)
qed

text \<open>Once eight bytes are there the header is read and the rest is the body.\<close>

lemma Parse_header:
  assumes "buf_inv buf" "bc_state c = kHeader" "length body + 1 < 2 ^ 32"
    and "Buffer_Str buf @ rest = frame body @ extra" "8 \<le> length (Buffer_Str buf)"
  shows "\<exists>buf'. BusContext_Parse c buf m =
      parse_body (c\<lparr>bc_header := body_header body, bc_state := kBody\<rparr>) buf' m \<and>
    buf_inv buf' \<and> Buffer_Str buf' @ rest = (body @ [NUL]) @ extra"
proof -
  have n: "8 \<le> ReadableBytes buf" using assms(5) length_Buffer_Str [OF assms(1)] by simp
  have "take 8 (Buffer_Str buf) = take 8 (Buffer_Str buf @ rest)" using assms(5) by simp
  also have "\<dots> = hdr_bytes (body_header body)" unfolding assms(4) by (simp add: frame_def)
  finally have t8: "take 8 (Buffer_Str buf) = hdr_bytes (body_header body)" .
  have "drop 8 (Buffer_Str buf) @ rest = drop 8 (Buffer_Str buf @ rest)" using assms(5) by simp
  also have "\<dots> = (body @ [NUL]) @ extra" unfolding assms(4) by (simp add: frame_def)
  finally have d8: "drop 8 (Buffer_Str buf) @ rest = (body @ [NUL]) @ extra" .
  have "hdr_read (take 8 (Peek buf)) = body_header body"
    using Peek_prefix [OF assms(1) n] t8 body_header_read [OF assms(3)] by simp
  moreover have "mh_magic (body_header body) = kMsgMagic" by (simp add: body_header_def)
  moreover have "buf_inv (Retrive buf 8)" "Buffer_Str (Retrive buf 8) = drop 8 (Buffer_Str buf)"
    using Retrive_law [OF assms(1)] by simp_all
  ultimately show ?thesis
    using n assms(2) d8 by (auto simp: BusContext_Parse_def)
qed

lemma receive_append:
  assumes "buf_inv buf" "length (Buffer_Str buf) + 2 * length x + 8 \<le> kMaxSize"
  obtains buf' where "receive c buf x = BusContext_Parse c buf' Msg_new" "buf_inv buf'"
    "Buffer_Str buf' = Buffer_Str buf @ x"
  using Append_law [OF assms(1), of x] assms(2) by (auto simp: receive_def kCheapPrepend_def)

lemma Parse_kBody: "bc_state c = kBody \<Longrightarrow> BusContext_Parse c buf m = parse_body c buf m"
  by (simp add: BusContext_Parse_def)

lemma receive_continue:
  assumes "waiting c buf body (x @ rest)" "rest \<noteq> []" "length body + 1 < 2 ^ 32"
    and "length (Buffer_Str buf) + 2 * length x + 8 \<le> kMaxSize"
  shows "\<exists>c' buf'. receive c buf x = Inr (kContinue, c', buf', Msg_new) \<and> waiting c' buf' body rest"
proof -
  have inv: "buf_inv buf" using assms(1) by (simp add: waiting_def)
  obtain b1 where b1: "receive c buf x = BusContext_Parse c b1 Msg_new" "buf_inv b1"
    "Buffer_Str b1 = Buffer_Str buf @ x" by (rule receive_append [OF inv assms(4)])
  show ?thesis
  proof (cases "bc_state c")
    case kBody
    then have "bc_header c = body_header body" "Buffer_Str b1 @ rest = body @ [NUL]"
      using assms(1) b1(3) by (auto simp: waiting_def)
    then show ?thesis
      using parse_body_continue [OF b1(2) kBody _ _ assms(2)] Parse_kBody [OF kBody] b1(1,2) assms(2) kBody
      by (auto simp: waiting_def)
  next
    case kHeader
    then have F: "Buffer_Str b1 @ rest = frame body @ []" using assms(1) b1(3) by (auto simp: waiting_def)
    show ?thesis
    proof (cases "length (Buffer_Str b1) < 8")
      case True
      then show ?thesis
        using kHeader F b1(1,2) assms(2) length_Buffer_Str [OF b1(2)]
        by (auto simp: BusContext_Parse_def waiting_def)
    next
      case False
      then obtain b2 where b2: "BusContext_Parse c b1 Msg_new =
          parse_body (c\<lparr>bc_header := body_header body, bc_state := kBody\<rparr>) b2 Msg_new"
        "buf_inv b2" "Buffer_Str b2 @ rest = body @ [NUL]"
        using Parse_header [OF b1(2) kHeader assms(3) F] by auto
      then show ?thesis
        using parse_body_continue [of b2 "c\<lparr>bc_header := body_header body, bc_state := kBody\<rparr>" body rest]
          assms(2) b1(1) by (auto simp: waiting_def)
    qed
  qed
qed

lemma receive_good:
  assumes "waiting c buf body x" "length body + 1 < 2 ^ 32"
    and "length (Buffer_Str buf) + 2 * length (x @ extra) + 8 \<le> kMaxSize"
    and "JsonPacker_Unpack (body @ [NUL]) Msg_new = Inr (OkStatus, m)"
  shows "\<exists>c' buf'. receive c buf (x @ extra) = Inr (kGood, c', buf', m) \<and> bc_state c' = kHeader \<and>
    buf_inv buf' \<and> Buffer_Str buf' = extra"
proof -
  have inv: "buf_inv buf" using assms(1) by (simp add: waiting_def)
  obtain b1 where b1: "receive c buf (x @ extra) = BusContext_Parse c b1 Msg_new" "buf_inv b1"
    "Buffer_Str b1 = Buffer_Str buf @ x @ extra" by (rule receive_append [OF inv assms(3)])
  show ?thesis
  proof (cases "bc_state c")
    case kBody
    then have h: "bc_header c = body_header body" "Buffer_Str b1 = (body @ [NUL]) @ extra"
      using assms(1) b1(3) by (auto simp: waiting_def)
    obtain b2 where "parse_body c b1 Msg_new = Inr (kGood, c\<lparr>bc_state := kHeader\<rparr>, b2, m)"
      "buf_inv b2" "Buffer_Str b2 = extra"
      using parse_body_good [OF b1(2) kBody h assms(4)] by blast
    then show ?thesis using Parse_kBody [OF kBody, of b1 Msg_new] b1(1) by auto
  next
    case kHeader
    then have F: "Buffer_Str b1 @ [] = frame body @ extra"
      using assms(1) b1(3) by (auto simp: waiting_def)
    have "8 \<le> length (Buffer_Str b1)" using F by (simp add: frame_def)
    then obtain b2 where b2: "BusContext_Parse c b1 Msg_new =
        parse_body (c\<lparr>bc_header := body_header body, bc_state := kBody\<rparr>) b2 Msg_new"
      "buf_inv b2" "Buffer_Str b2 = (body @ [NUL]) @ extra"
      using Parse_header [OF b1(2) kHeader assms(2) F] by auto
    obtain b3 where "parse_body (c\<lparr>bc_header := body_header body, bc_state := kBody\<rparr>) b2 Msg_new =
        Inr (kGood, c\<lparr>bc_header := body_header body, bc_state := kBody\<rparr>\<lparr>bc_state := kHeader\<rparr>, b3, m)"
      "buf_inv b3" "Buffer_Str b3 = extra"
      using parse_body_good [OF b2(2), of "c\<lparr>bc_header := body_header body, bc_state := kBody\<rparr>" body extra m]
        b2(3) assms(4) by auto
    then show ?thesis using b1(1) b2(1) by auto
  qed
qed

lemma waiting_start: "buf_inv buf \<Longrightarrow> Buffer_Str buf = [] \<Longrightarrow> bc_state c = kHeader \<Longrightarrow> waiting c buf body (frame body)"
  by (simp add: waiting_def frame_def)

lemma waiting_length: "waiting c buf body rest \<Longrightarrow> length (Buffer_Str buf) + length rest \<le> length body + 9"
  by (auto simp: waiting_def frame_def dest!: arg_cong [of _ _ length])

text \<open>
  The bus receiver as a \<open>block_consumer\<close>: it waits for the rest of the frame of \<open>body\<close>, which holds \<open>m\<close>.
\<close>

definition bus_waits :: "string \<Rightarrow> Msg \<Rightarrow> BusContext \<times> Buffer \<Rightarrow> string \<Rightarrow> bool" where
  "bus_waits body m s rest \<longleftrightarrow> (case s of (c, buf) \<Rightarrow> waiting c buf body rest \<and> length body + 1 < 2 ^ 32 \<and>
     JsonPacker_Unpack (body @ [NUL]) Msg_new = Inr (OkStatus, m))"

definition bus_left :: "string \<Rightarrow> BusContext \<times> Buffer \<Rightarrow> bool" where
  "bus_left y s \<longleftrightarrow> (case s of (c, buf) \<Rightarrow> bc_state c = kHeader \<and> buf_inv buf \<and> Buffer_Str buf = y)"

interpretation frames: block_consumer "bus_on_block" "bus_waits body m" "(kContinue, Msg_new)"
  "\<lambda>y. length y < 2 ^ 32" "\<lambda>_. (kGood, m)" bus_left
proof
  fix s x rest
  assume w: "bus_waits body m s (x @ rest)" and rest: "rest \<noteq> []"
  obtain c buf where s: "s = (c, buf)" by fastforce
  then have h: "waiting c buf body (x @ rest)" "length body + 1 < 2 ^ 32"
    "JsonPacker_Unpack (body @ [NUL]) Msg_new = Inr (OkStatus, m)" using w by (simp_all add: bus_waits_def)
  then have "length (Buffer_Str buf) + 2 * length x + 8 \<le> kMaxSize"
    using waiting_length [OF h(1)] by (simp add: kMaxSize_def)
  from receive_continue [OF h(1) rest h(2) this, of]
  show "\<exists>s'. bus_on_block s x = Inr ((kContinue, Msg_new), s') \<and> bus_waits body m s' rest"
    using h by (auto simp: s bus_on_block_def bus_waits_def)
next
  fix s and x y :: string
  assume w: "bus_waits body m s x" and y: "length y < 2 ^ 32"
  obtain c buf where s: "s = (c, buf)" by fastforce
  then have h: "waiting c buf body x" "length body + 1 < 2 ^ 32"
    "JsonPacker_Unpack (body @ [NUL]) Msg_new = Inr (OkStatus, m)" using w by (simp_all add: bus_waits_def)
  then have "length (Buffer_Str buf) + 2 * length (x @ y) + 8 \<le> kMaxSize"
    using waiting_length [OF h(1)] y by (simp add: kMaxSize_def)
  from receive_good [OF h(1,2) this h(3)]
  show "\<exists>s'. bus_on_block s (x @ y) = Inr ((kGood, m), s') \<and> bus_left y s'"
    by (auto simp: s bus_on_block_def bus_left_def)
qed

lemma bus_waits_frame:
  assumes "JsonPacker_Pack m = Inr body" "length body + 1 < 2 ^ 32"
    and "msg_ok m" "CHR ''/'' \<notin> set (msg_method m)"
  shows "bus_waits body (m\<lparr>msg_src := None\<rparr>) (BusContext_new, Buffer_new kInitialSize) (frame body)"
  using waiting_start [OF Buffer_new_inv, of BusContext_new kInitialSize body] Unpack_Pack(2) [OF assms(1,3,4)] assms(2)
  by (simp add: bus_waits_def BusContext_new_def)

section \<open>Properties\<close>

text \<open>
  C34. A message whose method holds no slash and whose strings are UTF-8 can be packed, and unpacking the text
  gives the message back unchanged.
\<close>

theorem Msg_roundtrip:
  assumes "msg_ok m" "CHR ''/'' \<notin> set (msg_method m)"
  shows "\<exists>s. JsonPacker_Pack m = Inr s \<and> JsonPacker_Unpack s Msg_new = Inr (OkStatus, m\<lparr>msg_src := None\<rparr>)"
  using Pack_text [OF assms(1)] Unpack_Pack(1) [OF _ assms] by metis

definition sample_msg :: Msg where
  "sample_msg = \<lparr>msg_src = None, msg_id = 7, msg_is_request = True, msg_caller = ''a'', msg_method = ''add'',
     msg_method_provider = ''calc'', msg_params = [(''x'', ''1'')]\<rparr>"

definition sample_body :: string where
  "sample_body = ''{'' @ quote @ ''caller'' @ quote @ '':'' @ quote @ ''a'' @ quote @ '','' @ quote @ ''id'' @ quote @ '':7,'' @
     quote @ ''is_req'' @ quote @ '':true,'' @ quote @ ''method'' @ quote @ '':'' @ quote @ ''add'' @ quote @ '','' @
     quote @ ''method_provider'' @ quote @ '':'' @ quote @ ''calc'' @ quote @ '','' @ quote @ ''param'' @ quote @ '':[{'' @
     quote @ ''t'' @ quote @ '':'' @ quote @ ''x'' @ quote @ '','' @ quote @ ''v'' @ quote @ '':'' @ quote @ ''1'' @ quote @ ''}]}''"

lemma sample_msg_ok: "msg_ok sample_msg" "CHR ''/'' \<notin> set (msg_method sample_msg)"
  by (simp_all add: msg_ok_def sample_msg_def map_ok_def)

lemma sample_Pack: "JsonPacker_Pack sample_msg = Inr sample_body"
  by (simp add: JsonPacker_Pack_def pack_json_eq msg_json_def sample_msg_def param_json_def sample_body_def dump_eval)

lemma sample_frame: "SendMessage_bytes sample_msg = Inr (frame sample_body)"
  by (rule SendMessage_frame [OF sample_Pack]) (simp add: sample_body_def quote_def)

theorem Msg_roundtrip_witness:
  "JsonPacker_Unpack sample_body Msg_new = Inr (OkStatus, sample_msg)"
  using Msg_roundtrip [OF sample_msg_ok] sample_Pack by (simp add: sample_msg_def)

text \<open>
  C19. A frame cut into blocks in any way is reassembled: the parser asks for more until the last
  block and then delivers exactly the message that was sent, with no byte left over and ready for
  the next header. Stated for a message whose method holds no slash, whose strings are UTF-8 and whose
  text fits the 32-bit length of the header.
\<close>

theorem frame_fragmentation:
  assumes "JsonPacker_Pack m = Inr body" "length body + 1 < 2 ^ 32"
    and "msg_ok m" "CHR ''/'' \<notin> set (msg_method m)"
    and "SendMessage_bytes m = Inr (concat bs @ x)" "x \<noteq> []"
  shows "\<exists>c' buf'. block_reads bus_on_block (BusContext_new, Buffer_new kInitialSize) (bs @ [x]) =
      Inr (replicate (length bs) (kContinue, Msg_new) @ [(kGood, m\<lparr>msg_src := None\<rparr>)], (c', buf')) \<and>
    bc_state c' = kHeader \<and> Buffer_Str buf' = []"
proof -
  have "frame body = concat bs @ x" using SendMessage_frame [OF assms(1,2)] assms(5) by simp
  then have "bus_waits body (m\<lparr>msg_src := None\<rparr>) (BusContext_new, Buffer_new kInitialSize) (concat bs @ x)"
    using bus_waits_frame [OF assms(1-4)] by simp
  from frames.delivers [OF this assms(6), of "[]"] show ?thesis by (auto simp: bus_left_def)
qed

lemma sample_body_length: "length sample_body = 103"
  by (simp add: sample_body_def quote_def)

theorem frame_fragmentation_witness:
  "\<exists>c' buf'. block_reads bus_on_block (BusContext_new, Buffer_new kInitialSize)
      [take 3 (frame sample_body), drop 3 (frame sample_body)] =
      Inr ([(kContinue, Msg_new), (kGood, sample_msg)], (c', buf')) \<and>
    bc_state c' = kHeader \<and> Buffer_Str buf' = []"
  using frame_fragmentation [OF sample_Pack _ sample_msg_ok,
      where bs = "[take 3 (frame sample_body)]" and x = "drop 3 (frame sample_body)"] sample_frame sample_body_length
  by (simp add: frame_def del: block_reads.simps) (simp add: sample_msg_def del: block_reads.simps)

text \<open>
  Two frames that arrive in one block: one call of the receive handler delivers only the first
  message; the whole second frame stays in the buffer until more bytes arrive.
\<close>

theorem two_frames_one_block:
  assumes "JsonPacker_Pack m1 = Inr b1" "length b1 + 1 < 2 ^ 32"
    and "msg_ok m1" "CHR ''/'' \<notin> set (msg_method m1)"
    and "SendMessage_bytes m2 = Inr f2" "length f2 < 2 ^ 32"
  shows "\<exists>f1 c' buf'. SendMessage_bytes m1 = Inr f1 \<and>
    receive BusContext_new (Buffer_new kInitialSize) (f1 @ f2) = Inr (kGood, c', buf', m1\<lparr>msg_src := None\<rparr>) \<and>
    Buffer_Str buf' = f2"
proof -
  have w: "bus_waits b1 (m1\<lparr>msg_src := None\<rparr>) (BusContext_new, Buffer_new kInitialSize) (frame b1)"
    using bus_waits_frame [OF assms(1-4)] .
  have "frame b1 \<noteq> []" by (simp add: frame_def)
  from frames.on_block_final [OF w this assms(6)] show ?thesis
    using SendMessage_frame [OF assms(1,2)]
    by (auto simp: bus_on_block_def bus_left_def bindr_Inr_iff)
qed

theorem two_frames_one_block_witness:
  "\<exists>c' buf'. receive BusContext_new (Buffer_new kInitialSize)
      (frame sample_body @ frame sample_body) = Inr (kGood, c', buf', sample_msg) \<and>
    Buffer_Str buf' = frame sample_body"
  using two_frames_one_block [OF sample_Pack _ sample_msg_ok sample_frame] sample_frame sample_body_length
  by (simp add: frame_def) (simp add: sample_msg_def)

end
