(* ===== verification/Bus_Invoker.thy ===== *)
theory Bus_Invoker
  imports Bus_Msg
begin

text \<open>
  The two ends of a remote call: \<^verbatim>\<open>cppboot/adv/bus/method.h\<close>, \<^verbatim>\<open>service.cc\<close> (the callee) and
  \<^verbatim>\<open>invoker.cc\<close> (the caller). \<open>Result\<close> objects live in a store that maps addresses to objects, so
  that a pointer to a destroyed object can be told from one to a living one. The operations are built
  from the pieces that run without interruption: what a mutex guards, an atomic counter, one access to
  a \<open>Result\<close>. The blocking call is split where the caller's thread sleeps in \<open>Wait\<close>. \<open>iv_world\<close> runs
  callers and handlers piece by piece, in any interleaving.
\<close>

section \<open>Parameters and results\<close>

record In =
  in_conn :: "nat option"
  in_values :: "(string, string) smap"

type_synonym Out = In

definition In_new :: In where
  "In_new = \<lparr>in_conn = None, in_values = []\<rparr>"

definition In_get :: "In \<Rightarrow> string \<Rightarrow> string" where
  "In_get i key = (case map_find (in_values i) key of Some v \<Rightarrow> v | None \<Rightarrow> '''')"

definition In_set :: "In \<Rightarrow> string \<Rightarrow> string \<Rightarrow> In" where
  "In_set i key val = i\<lparr>in_values := map_set (in_values i) key val\<rparr>"

record Result =
  rs_ok :: bool
  rs_out :: Out

definition Result_new :: Result where
  "Result_new = \<lparr>rs_ok = False, rs_out = In_new\<rparr>"

text \<open>Objects by address; an access to a destroyed object is undefined.\<close>

type_synonym results = "nat \<Rightarrow> Result option"

definition Result_update :: "(Result \<Rightarrow> Result) \<Rightarrow> results \<Rightarrow> nat \<Rightarrow> results res" where
  "Result_update f H a = (case H a of None \<Rightarrow> Inl UndefinedBehaviour | Some r \<Rightarrow> Inr (H(a := Some (f r))))"

text \<open>
  \<open>WeakUp\<close> sets the flag under the mutex of the object and calls \<open>notify_all\<close> after the mutex is
  released: two pieces. The notification changes no field, but it is a call on a member of the object.
\<close>

definition WeakUp_set :: "results \<Rightarrow> nat \<Rightarrow> results res" where
  "WeakUp_set = Result_update (\<lambda>r. r\<lparr>rs_ok := True\<rparr>)"

definition WeakUp_notify :: "results \<Rightarrow> nat \<Rightarrow> results res" where
  "WeakUp_notify = Result_update (\<lambda>r. r)"

definition WeakUp :: "results \<Rightarrow> nat \<Rightarrow> results res" where
  "WeakUp H a = bindr (WeakUp_set H a) (\<lambda>H. WeakUp_notify H a)"

text \<open>\<open>Wait\<close> returns when this holds.\<close>

definition Wait_returns :: "Result \<Rightarrow> bool" where
  "Wait_returns r \<longleftrightarrow> rs_ok r"

section \<open>BusService\<close>

text \<open>A method may change the state \<open>'s\<close> its closure refers to, and may throw.\<close>

type_synonym 's MethodFunc = "'s \<Rightarrow> In \<Rightarrow> Out \<Rightarrow> (Out \<times> 's) res"

record 's BusService =
  svc_name :: string
  svc_methods :: "(string, 's MethodFunc) smap"

definition BusService_new :: "string \<Rightarrow> 's BusService" where
  "BusService_new name = \<lparr>svc_name = name, svc_methods = []\<rparr>"

definition AddMethod :: "'s BusService \<Rightarrow> string \<Rightarrow> 's MethodFunc \<Rightarrow> bool \<times> 's BusService" where
  "AddMethod svc name func =
     (if map_find (svc_methods svc) name = None
      then (True, svc\<lparr>svc_methods := map_set (svc_methods svc) name func\<rparr>)
      else (False, svc))"

definition set_params :: "Msg \<Rightarrow> (string, string) smap \<Rightarrow> Msg" where
  "set_params m kvs = foldl (\<lambda>m (k, v). set_param m k v) m kvs"

definition In_sets :: "In \<Rightarrow> (string, string) smap \<Rightarrow> In" where
  "In_sets i kvs = foldl (\<lambda>i (k, v). In_set i k v) i kvs"

definition ServeMsg :: "'s BusService \<Rightarrow> 's \<Rightarrow> Msg \<Rightarrow> Msg \<Rightarrow> (Msg \<times> 's) res" where
  "ServeMsg svc s req resp =
     bindr
       (case map_find (svc_methods svc) (msg_method req) of
          Some func \<Rightarrow>
            let in' = In_sets (In_new\<lparr>in_conn := msg_src req\<rparr>) (msg_params req) in
            bindr (func s in' In_new) (\<lambda>(out, s). Inr (set_params resp (in_values out), s))
        | None \<Rightarrow> Inr (set_param resp ''return'' ''not found'', s))
       (\<lambda>(resp, s). Inr (resp\<lparr>msg_id := msg_id req, msg_caller := msg_caller req, msg_is_request := False\<rparr>, s))"

section \<open>BusInvoker\<close>

record BusInvoker =
  iv_name :: string
  iv_next_id :: nat
  iv_waitings :: "(nat, nat) smap"

definition BusInvoker_new :: "string \<Rightarrow> BusInvoker" where
  "BusInvoker_new name = \<lparr>iv_name = name, iv_next_id = 1, iv_waitings = []\<rparr>"

text \<open>\<open>next_id_.fetch_add(1)\<close> on a 32-bit counter.\<close>

definition NextMsgId :: "BusInvoker \<Rightarrow> nat \<times> BusInvoker" where
  "NextMsgId iv = (iv_next_id iv, iv\<lparr>iv_next_id := (iv_next_id iv + 1) mod 2 ^ 32\<rparr>)"

text \<open>The message is packed with the next id; the entry is made under the mutex, before the message is written.\<close>

definition ACall_pack :: "BusInvoker \<Rightarrow> string \<Rightarrow> In \<Rightarrow> BusInvoker \<times> Msg res" where
  "ACall_pack iv method i =
     (let (id, iv) = NextMsgId iv;
          msg = Msg_new\<lparr>msg_id := id, msg_caller := iv_name iv, msg_is_request := True\<rparr> in
      (iv, bindr (set_method msg method) (\<lambda>msg. Inr (set_params msg (in_values i)))))"

definition ACall_insert :: "BusInvoker \<Rightarrow> Msg \<Rightarrow> nat \<Rightarrow> BusInvoker" where
  "ACall_insert iv msg a = iv\<lparr>iv_waitings := map_set (iv_waitings iv) (msg_id msg) a\<rparr>"

text \<open>
  \<open>w\<close> is the message writer. When it throws, the exception leaves \<open>ACall\<close> with the entry already
  in \<open>waitings_\<close>; so the state is returned beside the outcome.
\<close>

definition ACall :: "(Msg \<Rightarrow> 'o res) \<Rightarrow> BusInvoker \<Rightarrow> string \<Rightarrow> In \<Rightarrow> nat option
    \<Rightarrow> BusInvoker \<times> (Status \<times> 'o option) res" where
  "ACall w iv method i result =
     (case result of
        None \<Rightarrow> (iv, bindr (InvalidArgumentError (sv_of_string ''no result param'')) (\<lambda>st. Inr (st, None)))
      | Some a \<Rightarrow>
          let (iv, m) = ACall_pack iv method i in
          case m of
            Inl e \<Rightarrow> (iv, Inl e)
          | Inr msg \<Rightarrow> (ACall_insert iv msg a, bindr (w msg) (\<lambda>out. Inr (OkStatus, Some out))))"

text \<open>
  \<open>Call\<close>: the local \<open>Result\<close> is created at the address \<open>a\<close>. With a null \<open>out\<close> the call returns at
  once and the object is destroyed; otherwise the thread waits and \<open>Call_finish\<close> is what it does
  when it is woken (\<open>None\<close> while it sleeps). When the request is not sent the object is destroyed.
\<close>

definition Call_start :: "(Msg \<Rightarrow> 'o res) \<Rightarrow> BusInvoker \<Rightarrow> results \<Rightarrow> nat \<Rightarrow> string \<Rightarrow> In \<Rightarrow> bool
    \<Rightarrow> BusInvoker \<times> results \<times> (Status \<times> 'o option) res" where
  "Call_start w iv H a method i has_out =
     (let H1 = H(a := Some Result_new);
          (iv, r) = ACall w iv method i (Some a) in
      case r of
        Inl e \<Rightarrow> (iv, H1(a := None), Inl e)
      | Inr (st, out) \<Rightarrow>
          if \<not> st_ok st then (iv, H1(a := None), Inr (st, out))
          else if has_out then (iv, H1, Inr (st, out))
          else (iv, H1(a := None), Inr (st, out)))"

definition Call_finish :: "results \<Rightarrow> nat \<Rightarrow> (Out \<times> results) option" where
  "Call_finish H a =
     (case H a of
        Some r \<Rightarrow> if Wait_returns r then Some (rs_out r, H(a := None)) else None
      | None \<Rightarrow> None)"

text \<open>
  The answer: the entry is found and erased under the mutex; the parameters are written to the object
  and it is woken without the mutex.
\<close>

definition Invoker_find :: "BusInvoker \<Rightarrow> Msg \<Rightarrow> BusInvoker \<times> nat option" where
  "Invoker_find iv msg =
     (case map_find (iv_waitings iv) (msg_id msg) of
        None \<Rightarrow> (iv, None)
      | Some a \<Rightarrow> (iv\<lparr>iv_waitings := map_erase (iv_waitings iv) (msg_id msg)\<rparr>, Some a))"

definition Result_out_set :: "results \<Rightarrow> nat \<Rightarrow> string \<times> string \<Rightarrow> results res" where
  "Result_out_set H a kv = Result_update (\<lambda>r. r\<lparr>rs_out := In_set (rs_out r) (fst kv) (snd kv)\<rparr>) H a"

fun Result_out_sets :: "results \<Rightarrow> nat \<Rightarrow> (string, string) smap \<Rightarrow> results res" where
  "Result_out_sets H a [] = Inr H"
| "Result_out_sets H a (kv # kvs) = bindr (Result_out_set H a kv) (\<lambda>H. Result_out_sets H a kvs)"

definition Invoker_HandleResponseMessage :: "BusInvoker \<Rightarrow> results \<Rightarrow> Msg \<Rightarrow> (BusInvoker \<times> results) res" where
  "Invoker_HandleResponseMessage iv H msg =
     (case Invoker_find iv msg of
        (iv, None) \<Rightarrow> Inr (iv, H)
      | (iv, Some a) \<Rightarrow>
          bindr (Result_out_sets H a (msg_params msg)) (\<lambda>H.
          bindr (WeakUp H a) (\<lambda>H. Inr (iv, H))))"

text \<open>Responses in the order they arrive.\<close>

fun handle_responses :: "BusInvoker \<Rightarrow> results \<Rightarrow> Msg list \<Rightarrow> (BusInvoker \<times> results) res" where
  "handle_responses iv H [] = Inr (iv, H)"
| "handle_responses iv H (m # ms) =
     bindr (Invoker_HandleResponseMessage iv H m) (\<lambda>(iv, H). handle_responses iv H ms)"

text \<open>
  The interleavings of an invoker whose callers all wait for their result: a call is sent, some
  message arrives, a woken caller takes its result and leaves. The writer \<open>w\<close> and the messages that
  arrive are arbitrary.
\<close>

inductive iv_reach :: "string \<Rightarrow> (Msg \<Rightarrow> 'o res) \<Rightarrow> BusInvoker \<Rightarrow> results \<Rightarrow> bool" for name w where
  start: "iv_reach name w (BusInvoker_new name) (\<lambda>_. None)"
| call: "iv_reach name w iv H \<Longrightarrow> H a = None \<Longrightarrow>
    Call_start w iv H a method i True = (iv', H', Inr (st, out)) \<Longrightarrow> iv_reach name w iv' H'"
| response: "iv_reach name w iv H \<Longrightarrow>
    Invoker_HandleResponseMessage iv H m = Inr (iv', H') \<Longrightarrow> iv_reach name w iv' H'"
| finish: "iv_reach name w iv H \<Longrightarrow> Call_finish H a = Some (out, H') \<Longrightarrow> iv_reach name w iv H'"

subsection \<open>Threads piece by piece\<close>

text \<open>
  A handler is about to look up the answer, to write the parameters that are left and then set the flag,
  or to notify. A caller has packed its message, has made its entry, or waits.
\<close>

datatype handler = HFind Msg | HSet nat "(string, string) smap" | HNotify nat
datatype caller = Packed Msg | Entered Msg | Waiting

text \<open>One piece of a handler; \<open>None\<close> when the handler is done.\<close>

fun Handler_step :: "BusInvoker \<Rightarrow> results \<Rightarrow> handler \<Rightarrow> (BusInvoker \<times> results \<times> handler option) res" where
  "Handler_step iv H (HFind msg) =
     (case Invoker_find iv msg of (iv, found) \<Rightarrow> Inr (iv, H, map_option (\<lambda>a. HSet a (msg_params msg)) found))"
| "Handler_step iv H (HSet a []) = bindr (WeakUp_set H a) (\<lambda>H. Inr (iv, H, Some (HNotify a)))"
| "Handler_step iv H (HSet a (kv # kvs)) = bindr (Result_out_set H a kv) (\<lambda>H. Inr (iv, H, Some (HSet a kvs)))"
| "Handler_step iv H (HNotify a) = bindr (WeakUp_notify H a) (\<lambda>H. Inr (iv, H, None))"

text \<open>The pieces of one handler without a break are \<open>HandleResponseMessage\<close>.\<close>

fun Handler_run :: "nat \<Rightarrow> BusInvoker \<Rightarrow> results \<Rightarrow> handler \<Rightarrow> (BusInvoker \<times> results \<times> handler option) res" where
  "Handler_run 0 iv H h = Inr (iv, H, Some h)"
| "Handler_run (Suc n) iv H h =
     bindr (Handler_step iv H h) (\<lambda>(iv, H, h). case h of None \<Rightarrow> Inr (iv, H, None) | Some h \<Rightarrow> Handler_run n iv H h)"

lemma Handler_run_set:
  "Handler_run (length kvs + 2) iv H (HSet a kvs) =
     bindr (Result_out_sets H a kvs) (\<lambda>H. bindr (WeakUp H a) (\<lambda>H. Inr (iv, H, None)))"
proof (induction kvs arbitrary: H)
  case Nil
  show ?case by (cases "H a") (simp_all add: numeral_2_eq_2 WeakUp_def WeakUp_set_def WeakUp_notify_def Result_update_def)
next
  case (Cons kv kvs)
  then show ?case by (cases "Result_out_set H a kv") simp_all
qed

lemma Handler_run_whole:
  "Handler_run (length (msg_params msg) + 3) iv H (HFind msg) =
     bindr (Invoker_HandleResponseMessage iv H msg) (\<lambda>(iv, H). Inr (iv, H, None))"
proof -
  obtain iv' f where f: "Invoker_find iv msg = (iv', f)" by fastforce
  have n: "length (msg_params msg) + 3 = Suc (length (msg_params msg) + 2)" by simp
  show ?thesis
  proof (cases f)
    case (Some a)
    then show ?thesis
      unfolding n Handler_run.simps Invoker_HandleResponseMessage_def using Handler_run_set [of "msg_params msg" iv' H a]
      by (auto simp: f bindr_def split: sum.splits)
  qed (simp add: n f Invoker_HandleResponseMessage_def)
qed

record iv_world =
  iw_iv :: BusInvoker
  iw_res :: results
  iw_callers :: "nat \<Rightarrow> caller option"
  iw_handlers :: "nat \<Rightarrow> handler option"

definition iw_start :: "string \<Rightarrow> iv_world" where
  "iw_start name = \<lparr>iw_iv = BusInvoker_new name, iw_res = (\<lambda>_. None), iw_callers = (\<lambda>_. None), iw_handlers = (\<lambda>_. None)\<rparr>"

text \<open>
  Threads of an invoker whose callers all wait for their result; a caller is named by the address of its
  \<open>Result\<close>. Any message may arrive at any time, on any thread. There is no step for a writer that throws,
  and none for a call with a null \<open>out\<close>.
\<close>

inductive iw_step :: "(Msg \<Rightarrow> 'o res) \<Rightarrow> iv_world \<Rightarrow> iv_world \<Rightarrow> bool" for w where
  call: "iw_res s a = None \<Longrightarrow> ACall_pack (iw_iv s) method i = (iv, Inr msg) \<Longrightarrow>
    iw_step w s (s\<lparr>iw_iv := iv, iw_res := (iw_res s)(a := Some Result_new),
      iw_callers := (iw_callers s)(a := Some (Packed msg))\<rparr>)"
| enter: "iw_callers s a = Some (Packed msg) \<Longrightarrow>
    iw_step w s (s\<lparr>iw_iv := ACall_insert (iw_iv s) msg a, iw_callers := (iw_callers s)(a := Some (Entered msg))\<rparr>)"
| send: "iw_callers s a = Some (Entered msg) \<Longrightarrow> w msg = Inr out \<Longrightarrow>
    iw_step w s (s\<lparr>iw_callers := (iw_callers s)(a := Some Waiting)\<rparr>)"
| leave: "iw_callers s a = Some Waiting \<Longrightarrow> Call_finish (iw_res s) a = Some (out, H) \<Longrightarrow>
    iw_step w s (s\<lparr>iw_res := H, iw_callers := (iw_callers s)(a := None)\<rparr>)"
| receive: "iw_handlers s t = None \<Longrightarrow>
    iw_step w s (s\<lparr>iw_handlers := (iw_handlers s)(t := Some (HFind msg))\<rparr>)"
| handle: "iw_handlers s t = Some h \<Longrightarrow> Handler_step (iw_iv s) (iw_res s) h = Inr (iv, H, h') \<Longrightarrow>
    iw_step w s (s\<lparr>iw_iv := iv, iw_res := H, iw_handlers := (iw_handlers s)(t := h')\<rparr>)"

inductive iw_reach :: "string \<Rightarrow> (Msg \<Rightarrow> 'o res) \<Rightarrow> iv_world \<Rightarrow> bool" for name w where
  start: "iw_reach name w (iw_start name)"
| step: "iw_reach name w s \<Longrightarrow> iw_step w s s' \<Longrightarrow> iw_reach name w s'"

section \<open>The invoker's invariant\<close>

definition iv_inv :: "BusInvoker \<Rightarrow> results \<Rightarrow> bool" where
  "iv_inv iv H \<longleftrightarrow> map_ok (iv_waitings iv) \<and> iv_next_id iv < 2 ^ 32 \<and>
     (\<forall>n a. map_find (iv_waitings iv) n = Some a \<longrightarrow> (\<exists>r. H a = Some r \<and> \<not> rs_ok r)) \<and>
     (\<forall>n n' a. map_find (iv_waitings iv) n = Some a \<longrightarrow> map_find (iv_waitings iv) n' = Some a \<longrightarrow> n = n')"

lemma iv_invD:
  assumes "iv_inv iv H"
  shows "map_ok (iv_waitings iv)"
    "map_find (iv_waitings iv) n = Some a \<Longrightarrow> \<exists>r. H a = Some r \<and> \<not> rs_ok r"
    "map_find (iv_waitings iv) n = Some a \<Longrightarrow> map_find (iv_waitings iv) n' = Some a \<Longrightarrow> n = n'"
  using assms by (simp_all add: iv_inv_def)

lemma set_method_total: "\<exists>m'. set_method m s = Inr m' \<and> msg_id m' = msg_id m"
proof (cases "str_find_first_of s ''/'' 0 = npos")
  case True
  then show ?thesis by (simp add: set_method_def)
next
  case False
  let ?p = "str_find_first_of s ''/'' 0"
  have p: "?p < length s"
    using scan_up_first [of "\<lambda>i. s ! i \<in> set ''/''" 0 "length s"] False
    by (auto simp: str_find_first_of_def first_pos_def)
  then show ?thesis using False by (simp add: set_method_def str_substr_def Let_def)
qed

lemma set_params_id [simp]: "msg_id (set_params m kvs) = msg_id m"
  by (induction kvs arbitrary: m) (auto simp: set_params_def set_param_def)

lemma ACall_pack_ok:
  "\<exists>msg. msg_id msg = iv_next_id iv \<and>
    ACall_pack iv method i = (iv\<lparr>iv_next_id := (iv_next_id iv + 1) mod 2 ^ 32\<rparr>, Inr msg)"
proof -
  obtain m where "set_method (Msg_new\<lparr>msg_id := iv_next_id iv, msg_caller := iv_name iv, msg_is_request := True\<rparr>) method = Inr m"
    "msg_id m = iv_next_id iv" using set_method_total by fastforce
  then show ?thesis by (intro exI [of _ "set_params m (in_values i)"]) (simp add: ACall_pack_def NextMsgId_def)
qed

lemma ACall_some:
  obtains msg where "msg_id msg = iv_next_id iv"
    "ACall w iv method i (Some a) =
      (iv\<lparr>iv_next_id := (iv_next_id iv + 1) mod 2 ^ 32,
          iv_waitings := map_set (iv_waitings iv) (iv_next_id iv) a\<rparr>,
       bindr (w msg) (\<lambda>out. Inr (OkStatus, Some out)))"
  using ACall_pack_ok [of iv "method" i] by (auto simp: ACall_def ACall_insert_def)

text \<open>A call that waits for its result: the entry is there before the message is written.\<close>

lemma Call_start_cases:
  assumes "Call_start w iv H a method i has_out = (iv', H', r)"
  shows "iv' = iv\<lparr>iv_next_id := (iv_next_id iv + 1) mod 2 ^ 32,
      iv_waitings := map_set (iv_waitings iv) (iv_next_id iv) a\<rparr>"
    and "H' a = (if has_out \<and> (\<exists>x. r = Inr x) then Some Result_new else None)"
    and "b \<noteq> a \<Longrightarrow> H' b = H b"
proof -
  obtain msg where A: "ACall w iv method i (Some a) =
      (iv\<lparr>iv_next_id := (iv_next_id iv + 1) mod 2 ^ 32,
          iv_waitings := map_set (iv_waitings iv) (iv_next_id iv) a\<rparr>,
       bindr (w msg) (\<lambda>out. Inr (OkStatus, Some out)))"
    by (rule ACall_some)
  have *: "iv' = iv\<lparr>iv_next_id := (iv_next_id iv + 1) mod 2 ^ 32,
      iv_waitings := map_set (iv_waitings iv) (iv_next_id iv) a\<rparr> \<and>
    H' = H(a := if has_out \<and> (\<exists>x. r = Inr x) then Some Result_new else None)"
  proof (cases "w msg")
    case (Inl e)
    then show ?thesis using assms by (auto simp: Call_start_def A)
  next
    case (Inr x)
    then show ?thesis using assms by (cases has_out) (auto simp: Call_start_def A)
  qed
  show "iv' = iv\<lparr>iv_next_id := (iv_next_id iv + 1) mod 2 ^ 32,
      iv_waitings := map_set (iv_waitings iv) (iv_next_id iv) a\<rparr>"
    "H' a = (if has_out \<and> (\<exists>x. r = Inr x) then Some Result_new else None)"
    "b \<noteq> a \<Longrightarrow> H' b = H b"
    using * by simp_all
qed

lemma Call_start_writes:
  assumes "\<And>m. \<exists>x. w m = Inr x"
  shows "\<exists>iv' H' st out. Call_start w iv H a method i True = (iv', H', Inr (st, out))"
proof -
  obtain msg where A: "ACall w iv method i (Some a) =
      (iv\<lparr>iv_next_id := (iv_next_id iv + 1) mod 2 ^ 32,
          iv_waitings := map_set (iv_waitings iv) (iv_next_id iv) a\<rparr>,
       bindr (w msg) (\<lambda>out. Inr (OkStatus, Some out)))"
    by (rule ACall_some)
  obtain x where "w msg = Inr x" using assms by blast
  then show ?thesis by (simp add: Call_start_def A)
qed

lemma In_sets_values: "in_values (In_sets i kvs) = foldl (\<lambda>m (k, v). map_set m k v) (in_values i) kvs"
  by (induction kvs arbitrary: i) (auto simp: In_sets_def In_set_def)

lemma In_sets_conn: "in_conn (In_sets i kvs) = in_conn i"
  by (induction kvs arbitrary: i) (auto simp: In_sets_def In_set_def)

lemma In_sets_new: "map_ok kvs \<Longrightarrow> in_values i = [] \<Longrightarrow> In_sets i kvs = i\<lparr>in_values := kvs\<rparr>"
  using In_sets_values [of i kvs] In_sets_conn [of i kvs] map_rebuild [of kvs] by simp

lemma HandleResponse_miss:
  "map_find (iv_waitings iv) (msg_id m) = None \<Longrightarrow> Invoker_HandleResponseMessage iv H m = Inr (iv, H)"
  by (simp add: Invoker_HandleResponseMessage_def Invoker_find_def)

lemma Result_out_sets_live:
  "H a = Some r \<Longrightarrow> Result_out_sets H a kvs = Inr (H(a := Some (r\<lparr>rs_out := In_sets (rs_out r) kvs\<rparr>)))"
proof (induction kvs arbitrary: H r)
  case (Cons kv kvs)
  then show ?case by (cases kv, cases r) (simp add: Result_out_set_def Result_update_def In_sets_def fun_eq_iff)
qed (auto simp: In_sets_def)

lemma HandleResponse_hit:
  "map_find (iv_waitings iv) (msg_id m) = Some a \<Longrightarrow> H a = Some r \<Longrightarrow>
   Invoker_HandleResponseMessage iv H m =
     Inr (iv\<lparr>iv_waitings := map_erase (iv_waitings iv) (msg_id m)\<rparr>,
          H(a := Some \<lparr>rs_ok = True, rs_out = In_sets (rs_out r) (msg_params m)\<rparr>))"
  by (cases r)
    (simp add: Invoker_HandleResponseMessage_def Invoker_find_def Result_out_sets_live WeakUp_def WeakUp_set_def
      WeakUp_notify_def Result_update_def)

lemma iv_inv_HandleResponse:
  assumes "iv_inv iv H"
  obtains iv' H' where "Invoker_HandleResponseMessage iv H m = Inr (iv', H')" "iv_inv iv' H'"
proof (cases "map_find (iv_waitings iv) (msg_id m)")
  case None
  then show ?thesis using that HandleResponse_miss assms by blast
next
  case (Some a)
  then obtain r where r: "H a = Some r" using iv_invD(2) [OF assms] by blast
  show ?thesis
  proof (rule that [OF HandleResponse_hit [of iv m a H r, OF Some r]])
    show "iv_inv (iv\<lparr>iv_waitings := map_erase (iv_waitings iv) (msg_id m)\<rparr>)
        (H(a := Some \<lparr>rs_ok = True, rs_out = In_sets (rs_out r) (msg_params m)\<rparr>))"
      using assms Some iv_invD(3) [OF assms] unfolding iv_inv_def by (auto simp: smap_simps)
  qed
qed

lemma iv_inv_call:
  assumes "iv_inv iv H" "H a = None" "Call_start w iv H a method i True = (iv', H', Inr x)"
  shows "iv_inv iv' H'"
proof -
  note c = Call_start_cases [OF assms(3)]
  have "H' = H(a := Some Result_new)" using c(2,3) by auto
  moreover have "map_find (iv_waitings iv) n \<noteq> Some a" for n using iv_invD(2) [OF assms(1), of n a] assms(2) by auto
  ultimately show ?thesis
    using assms(1) unfolding c(1) iv_inv_def by (auto simp: smap_simps Result_new_def)
qed

lemma iv_inv_finish: "iv_inv iv H \<Longrightarrow> Call_finish H a = Some (out, H') \<Longrightarrow> iv_inv iv H'"
  unfolding iv_inv_def Call_finish_def Wait_returns_def
  by (auto split: option.splits if_splits) (metis option.inject)

lemma iv_reach_inv: "iv_reach name w iv H \<Longrightarrow> iv_inv iv H"
proof (induction rule: iv_reach.induct)
  case start
  then show ?case by (simp add: iv_inv_def BusInvoker_new_def)
next
  case (call iv H a m i iv' H' st out)
  then show ?case using iv_inv_call by blast
next
  case (response iv H m iv' H')
  then show ?case using iv_inv_HandleResponse [of iv H m] by (metis Pair_inject sum.inject(2))
next
  case (finish iv H a out H')
  then show ?case using iv_inv_finish by blast
qed

text \<open>A caller that waits is not woken by the answers to other calls.\<close>

lemma other_responses:
  assumes "iv_inv iv H" "map_find (iv_waitings iv) n = Some a" "H a = Some r"
    and "\<And>m. m \<in> set ms \<Longrightarrow> msg_id m \<noteq> n"
  shows "\<exists>iv' H'. handle_responses iv H ms = Inr (iv', H') \<and> iv_inv iv' H' \<and>
    map_find (iv_waitings iv') n = Some a \<and> H' a = Some r"
  using assms
proof (induction ms arbitrary: iv H)
  case (Cons m ms)
  obtain iv1 H1 where h: "Invoker_HandleResponseMessage iv H m = Inr (iv1, H1)" "iv_inv iv1 H1"
    using iv_inv_HandleResponse [OF Cons(2)] by blast
  have "map_find (iv_waitings iv1) n = Some a \<and> H1 a = Some r"
  proof (cases "map_find (iv_waitings iv) (msg_id m)")
    case None
    then show ?thesis using h(1) HandleResponse_miss [OF None] Cons(3,4) by simp
  next
    case (Some b)
    then have "b \<noteq> a" using iv_invD(3) [OF Cons(2) Some] Cons(3,5) by fastforce
    moreover obtain rb where "H b = Some rb" using iv_invD(2) [OF Cons(2) Some] by blast
    ultimately show ?thesis
      using h(1) HandleResponse_hit [OF Some, of H] Cons(3,4) Cons(5) [of m] by (auto simp: smap_simps)
  qed
  then show ?case using Cons(1) [OF h(2)] Cons(5) h(1) by auto
qed simp

text \<open>The answer to a waiting call, after any answers to other calls.\<close>

lemma call_answered_later:
  assumes "iv_reach name w iv H" "H a = None"
    and "Call_start w iv H a method i True = (iv1, H1, Inr (st, out))"
    and "\<And>m. m \<in> set ms \<Longrightarrow> msg_id m \<noteq> iv_next_id iv"
    and "msg_id resp = iv_next_id iv" "map_ok (msg_params resp)"
  shows "\<exists>iv2 H2 iv3 H3 H4. handle_responses iv1 H1 ms = Inr (iv2, H2) \<and> Call_finish H2 a = None \<and>
    Invoker_HandleResponseMessage iv2 H2 resp = Inr (iv3, H3) \<and>
    Call_finish H3 a = Some (\<lparr>in_conn = None, in_values = msg_params resp\<rparr>, H4)"
proof -
  have i0: "iv_inv iv H" by (rule iv_reach_inv [OF assms(1)])
  have i1: "iv_inv iv1 H1" by (rule iv_inv_call [OF i0 assms(2,3)])
  have w1: "map_find (iv_waitings iv1) (iv_next_id iv) = Some a" "H1 a = Some Result_new"
    using Call_start_cases(1,2) [OF assms(3)] iv_invD(1) [OF i0] by (simp_all add: smap_simps)
  obtain iv2 H2 where h2: "handle_responses iv1 H1 ms = Inr (iv2, H2)" "iv_inv iv2 H2"
    "map_find (iv_waitings iv2) (iv_next_id iv) = Some a" "H2 a = Some Result_new"
    using other_responses [OF i1 w1 assms(4)] by blast
  have h3: "Invoker_HandleResponseMessage iv2 H2 resp =
      Inr (iv2\<lparr>iv_waitings := map_erase (iv_waitings iv2) (msg_id resp)\<rparr>,
        H2(a := Some \<lparr>rs_ok = True, rs_out = In_sets (rs_out Result_new) (msg_params resp)\<rparr>))"
    by (rule HandleResponse_hit) (simp_all add: h2 assms(5))
  have "Call_finish H2 a = None" using h2(4) by (simp add: Call_finish_def Wait_returns_def Result_new_def)
  then show ?thesis
    using h2(1) h3 In_sets_new [OF assms(6), of In_new]
    by (auto simp: Call_finish_def Wait_returns_def Result_new_def In_new_def)
qed

lemma call_answered:
  assumes "iv_reach name w iv H" "H a = None"
    and "Call_start w iv H a method i True = (iv1, H1, Inr (st, out))"
    and "msg_id resp = iv_next_id iv" "map_ok (msg_params resp)"
  shows "\<exists>iv3 H3 H4. Invoker_HandleResponseMessage iv1 H1 resp = Inr (iv3, H3) \<and>
    Call_finish H3 a = Some (\<lparr>in_conn = None, in_values = msg_params resp\<rparr>, H4)"
  using call_answered_later [OF assms(1-3), of "[]" resp] assms(4,5) by auto

subsection \<open>Piece by piece\<close>

text \<open>
  An object that is awaited exists and its flag is not set. Whatever refers to one - a caller before
  its entry, an entry, a handler before it sets the flag - is the only such reference to it.
\<close>

definition awaited :: "results \<Rightarrow> nat \<Rightarrow> bool" where
  "awaited H a \<longleftrightarrow> (\<exists>r. H a = Some r \<and> \<not> rs_ok r)"

definition iw_packed :: "iv_world \<Rightarrow> nat \<Rightarrow> bool" where
  "iw_packed s a \<longleftrightarrow> (\<exists>m. iw_callers s a = Some (Packed m))"

definition iw_entry :: "iv_world \<Rightarrow> nat \<Rightarrow> nat \<Rightarrow> bool" where
  "iw_entry s n a \<longleftrightarrow> map_find (iv_waitings (iw_iv s)) n = Some a"

definition iw_writes :: "iv_world \<Rightarrow> nat \<Rightarrow> nat \<Rightarrow> bool" where
  "iw_writes s t a \<longleftrightarrow> (\<exists>kvs. iw_handlers s t = Some (HSet a kvs))"

definition iw_ok :: "iv_world \<Rightarrow> bool" where
  "iw_ok s \<longleftrightarrow> map_ok (iv_waitings (iw_iv s)) \<and>
     (\<forall>a. iw_packed s a \<longrightarrow> awaited (iw_res s) a) \<and>
     (\<forall>n a. iw_entry s n a \<longrightarrow> awaited (iw_res s) a \<and> \<not> iw_packed s a \<and> (\<forall>n'. iw_entry s n' a \<longrightarrow> n' = n)) \<and>
     (\<forall>t a. iw_writes s t a \<longrightarrow> awaited (iw_res s) a \<and> \<not> iw_packed s a \<and> (\<forall>n. \<not> iw_entry s n a) \<and>
        (\<forall>t'. iw_writes s t' a \<longrightarrow> t' = t))"

lemmas iw_refs = iw_packed_def iw_entry_def iw_writes_def

lemma ACall_pack_iv: "ACall_pack iv method i = (iv', m) \<Longrightarrow> iv_waitings iv' = iv_waitings iv"
  by (auto simp: ACall_pack_def NextMsgId_def)

lemma Invoker_find_cases:
  assumes "Invoker_find iv m = (iv', f)"
  obtains "iv' = iv" "f = None"
  | a where "map_find (iv_waitings iv) (msg_id m) = Some a" "f = Some a"
      "iv' = iv\<lparr>iv_waitings := map_erase (iv_waitings iv) (msg_id m)\<rparr>"
  using assms by (auto simp: Invoker_find_def split: option.splits)

lemma Result_update_cases:
  assumes "Result_update f H a = Inr H'"
  obtains r where "H a = Some r" "H' = H(a := Some (f r))"
  using assms by (auto simp: Result_update_def split: option.splits)

lemma iw_ok_call:
  assumes "iw_ok s" "iw_res s a = None" "ACall_pack (iw_iv s) method i = (iv, Inr msg)"
  shows "iw_ok (s\<lparr>iw_iv := iv, iw_res := (iw_res s)(a := Some Result_new),
      iw_callers := (iw_callers s)(a := Some (Packed msg))\<rparr>)" (is "iw_ok ?s")
proof -
  have na: "\<not> awaited (iw_res s) a" using assms(2) by (simp add: awaited_def)
  have "awaited (iw_res ?s) b \<longleftrightarrow> awaited (iw_res s) b \<or> b = a" "iw_packed ?s b \<longleftrightarrow> iw_packed s b \<or> b = a"
    "iw_entry ?s n b \<longleftrightarrow> iw_entry s n b" "iw_writes ?s t b \<longleftrightarrow> iw_writes s t b" for b n t
    using na ACall_pack_iv [OF assms(3)] by (auto simp: awaited_def iw_refs Result_new_def)
  then show ?thesis using assms(1) na ACall_pack_iv [OF assms(3)] unfolding iw_ok_def by (simp add: iw_ok_def) blast
qed

lemma iw_ok_enter:
  assumes "iw_ok s" "iw_callers s a = Some (Packed msg)"
  shows "iw_ok (s\<lparr>iw_iv := ACall_insert (iw_iv s) msg a, iw_callers := (iw_callers s)(a := Some (Entered msg))\<rparr>)"
    (is "iw_ok ?s")
proof -
  have ok: "map_ok (iv_waitings (iw_iv s))" and pa: "iw_packed s a"
    using assms by (auto simp: iw_ok_def iw_packed_def)
  have "iw_packed ?s b \<longleftrightarrow> iw_packed s b \<and> b \<noteq> a" "iw_writes ?s t b \<longleftrightarrow> iw_writes s t b"
    "iw_entry ?s n b \<longleftrightarrow> (if n = msg_id msg then b = a else iw_entry s n b)" for b n t
    using ok by (auto simp: iw_refs ACall_insert_def smap_simps)
  moreover have "map_ok (iv_waitings (iw_iv ?s))" using ok by (simp add: ACall_insert_def smap_simps)
  ultimately show ?thesis using assms(1) pa unfolding iw_ok_def by (simp split: if_splits) blast
qed

lemma iw_ok_send:
  assumes "iw_ok s" "iw_callers s a = Some (Entered msg)"
  shows "iw_ok (s\<lparr>iw_callers := (iw_callers s)(a := Some Waiting)\<rparr>)" (is "iw_ok ?s")
proof -
  have "iw_packed ?s b \<longleftrightarrow> iw_packed s b" "iw_writes ?s t b \<longleftrightarrow> iw_writes s t b" "iw_entry ?s n b \<longleftrightarrow> iw_entry s n b" for b n t
    using assms(2) by (auto simp: iw_refs)
  then show ?thesis using assms(1) by (simp add: iw_ok_def)
qed

lemma iw_ok_leave:
  assumes "iw_ok s" "iw_callers s a = Some Waiting" "Call_finish (iw_res s) a = Some (out, H)"
  shows "iw_ok (s\<lparr>iw_res := H, iw_callers := (iw_callers s)(a := None)\<rparr>)" (is "iw_ok ?s")
proof -
  have "awaited H b \<longleftrightarrow> awaited (iw_res s) b" for b
    using assms(3) by (auto simp: awaited_def Call_finish_def Wait_returns_def split: option.splits if_splits)
  moreover have "iw_packed ?s b \<longleftrightarrow> iw_packed s b" "iw_writes ?s t b \<longleftrightarrow> iw_writes s t b" "iw_entry ?s n b \<longleftrightarrow> iw_entry s n b" for b n t
    using assms(2) by (auto simp: iw_refs)
  ultimately show ?thesis using assms(1) by (simp add: iw_ok_def)
qed

lemma iw_ok_receive:
  assumes "iw_ok s" "iw_handlers s t = None"
  shows "iw_ok (s\<lparr>iw_handlers := (iw_handlers s)(t := Some (HFind msg))\<rparr>)" (is "iw_ok ?s")
proof -
  have "iw_packed ?s b \<longleftrightarrow> iw_packed s b" "iw_writes ?s t' b \<longleftrightarrow> iw_writes s t' b" "iw_entry ?s n b \<longleftrightarrow> iw_entry s n b" for b n t'
    using assms(2) by (auto simp: iw_refs)
  then show ?thesis using assms(1) by (simp add: iw_ok_def)
qed

text \<open>A handler: the reference moves from the entry to the handler, and is dropped when the flag is set.\<close>

lemma iw_ok_find:
  assumes "iw_ok s" "iw_handlers s t = Some (HFind msg)" "Invoker_find (iw_iv s) msg = (iv, f)"
  shows "iw_ok (s\<lparr>iw_iv := iv, iw_handlers := (iw_handlers s)(t := map_option (\<lambda>a. HSet a (msg_params msg)) f)\<rparr>)"
    (is "iw_ok ?s")
  using assms(3)
proof (cases rule: Invoker_find_cases)
  case 1
  have "iw_packed ?s b \<longleftrightarrow> iw_packed s b" "iw_writes ?s t' b \<longleftrightarrow> iw_writes s t' b" "iw_entry ?s n b \<longleftrightarrow> iw_entry s n b" for b n t'
    using assms(2) 1 by (auto simp: iw_refs)
  then show ?thesis using assms(1) 1 by (simp add: iw_ok_def)
next
  case (2 a)
  have ok: "map_ok (iv_waitings (iw_iv s))" and ea: "iw_entry s (msg_id msg) a"
    using assms(1) 2 by (simp_all add: iw_ok_def iw_entry_def)
  have "iw_packed ?s b \<longleftrightarrow> iw_packed s b" "iw_writes ?s t' b \<longleftrightarrow> (if t' = t then b = a else iw_writes s t' b)"
    "iw_entry ?s n b \<longleftrightarrow> iw_entry s n b \<and> n \<noteq> msg_id msg" for b n t'
    using 2 ok by (auto simp: iw_refs smap_simps)
  moreover have "map_ok (iv_waitings (iw_iv ?s))" using ok 2 by (simp add: smap_simps)
  ultimately show ?thesis using assms(1) ea unfolding iw_ok_def by (simp split: if_splits) blast
qed

lemma iw_ok_update:
  assumes "iw_ok s" "iw_writes s t a" "Result_update f (iw_res s) a = Inr H"
    and "(\<exists>kvs. h = HSet a kvs) \<and> (\<forall>r. rs_ok (f r) = rs_ok r) \<or> h = HNotify a"
  shows "iw_ok (s\<lparr>iw_res := H, iw_handlers := (iw_handlers s)(t := Some h)\<rparr>)" (is "iw_ok ?s")
proof -
  obtain r where r: "iw_res s a = Some r" "H = (iw_res s)(a := Some (f r))"
    using assms(3) by (rule Result_update_cases)
  have aw: "awaited H b \<longleftrightarrow> awaited (iw_res s) b" if "b \<noteq> a \<or> h \<noteq> HNotify a" for b
    using that assms(4) r by (auto simp: awaited_def)
  have "iw_packed ?s b \<longleftrightarrow> iw_packed s b" "iw_entry ?s n b \<longleftrightarrow> iw_entry s n b"
    "iw_writes ?s t' b \<longleftrightarrow> iw_writes s t' b \<and> (h \<noteq> HNotify a \<or> t' \<noteq> t)" for b n t'
    using assms(2,4) by (auto simp: iw_refs)
  moreover have "\<not> iw_packed s a" "\<not> iw_entry s n a" "iw_writes s t' a \<Longrightarrow> t' = t" for n t'
    using assms(1,2) unfolding iw_ok_def by blast+
  ultimately show ?thesis
    using assms(1) aw unfolding iw_ok_def by (simp add: iw_ok_def) metis
qed

lemma iw_ok_notify:
  assumes "iw_ok s" "iw_handlers s t = Some (HNotify a)" "WeakUp_notify (iw_res s) a = Inr H"
  shows "iw_ok (s\<lparr>iw_res := H, iw_handlers := (iw_handlers s)(t := None)\<rparr>)" (is "iw_ok ?s")
proof -
  have "H = iw_res s" using assms(3) unfolding WeakUp_notify_def by (auto elim!: Result_update_cases)
  moreover have "iw_packed ?s b \<longleftrightarrow> iw_packed s b" "iw_writes ?s t' b \<longleftrightarrow> iw_writes s t' b" "iw_entry ?s n b \<longleftrightarrow> iw_entry s n b" for b n t'
    using assms(2) by (auto simp: iw_refs)
  ultimately show ?thesis using assms(1) by (simp add: iw_ok_def)
qed

lemma iw_ok_handle:
  assumes "iw_ok s" "iw_handlers s t = Some h" "Handler_step (iw_iv s) (iw_res s) h = Inr (iv, H, h')"
  shows "iw_ok (s\<lparr>iw_iv := iv, iw_res := H, iw_handlers := (iw_handlers s)(t := h')\<rparr>)"
proof (cases h)
  case (HFind msg)
  then show ?thesis
    using assms(3) iw_ok_find [OF assms(1) assms(2) [unfolded HFind]] by (auto split: prod.splits)
next
  case (HSet a kvs)
  have w: "iw_writes s t a" using assms(2) HSet by (auto simp: iw_writes_def)
  show ?thesis
  proof (cases kvs)
    case Nil
    then show ?thesis
      using assms(3) HSet iw_ok_update [OF assms(1) w, of "\<lambda>r. r\<lparr>rs_ok := True\<rparr>" H "HNotify a"]
      by (auto simp: WeakUp_set_def bindr_Inr_iff)
  next
    case (Cons kv kvs')
    then show ?thesis
      using assms(3) HSet iw_ok_update [OF assms(1) w, of "\<lambda>r. r\<lparr>rs_out := In_set (rs_out r) (fst kv) (snd kv)\<rparr>" H "HSet a kvs'"]
      by (auto simp: Result_out_set_def bindr_Inr_iff)
  qed
next
  case (HNotify a)
  then show ?thesis using assms(3) iw_ok_notify [OF assms(1) assms(2) [unfolded HNotify]] by (auto simp: bindr_Inr_iff)
qed

lemma iw_reach_ok: "iw_reach name w s \<Longrightarrow> iw_ok s"
proof (induction rule: iw_reach.induct)
  case start
  show ?case by (simp add: iw_ok_def iw_refs iw_start_def BusInvoker_new_def)
next
  case (step s s')
  from step(2,3) show ?case
    by (cases rule: iw_step.cases)
      (auto intro: iw_ok_call iw_ok_enter iw_ok_send iw_ok_leave iw_ok_receive iw_ok_handle)
qed

text \<open>Before its flag is set, the object a handler works on exists.\<close>

lemma Handler_step_live:
  assumes "iw_ok s" "iw_handlers s t = Some h" "\<forall>a. h \<noteq> HNotify a"
  shows "\<exists>iv H h'. Handler_step (iw_iv s) (iw_res s) h = Inr (iv, H, h')"
proof (cases h)
  case (HFind msg)
  then show ?thesis by (simp split: prod.split)
next
  case (HSet a kvs)
  then have "iw_writes s t a" using assms(2) by (auto simp: iw_writes_def)
  then have "awaited (iw_res s) a" using assms(1) unfolding iw_ok_def by blast
  then obtain r where r: "iw_res s a = Some r" by (auto simp: awaited_def)
  show ?thesis
    by (cases kvs) (simp_all add: HSet r WeakUp_set_def Result_out_set_def Result_update_def)
qed (use assms(3) in simp)

section \<open>Properties\<close>

text \<open>A call that waits at address 5 and the answer to it, looked up by thread 0, in a run with a writer that never throws.\<close>

definition iw_answered :: "(string, string) smap \<Rightarrow> iv_world" where
  "iw_answered ps = \<lparr>iw_iv = (BusInvoker_new ''a'')\<lparr>iv_next_id := 2\<rparr>, iw_res = (\<lambda>_. None)(5 := Some Result_new),
     iw_callers = (\<lambda>_. None)(5 := Some Waiting), iw_handlers = (\<lambda>_. None)(0 := Some (HSet 5 ps))\<rparr>"

lemma iw_answered_reach: "iw_reach ''a'' (\<lambda>m. Inr (msg_method m)) (iw_answered ps)"
proof -
  let ?w = "\<lambda>m. Inr (msg_method m) :: string res"
  let ?iv = "(BusInvoker_new ''a'')\<lparr>iv_next_id := 2\<rparr>"
  obtain msg where m: "msg_id msg = 1" "ACall_pack (BusInvoker_new ''a'') ''b/m'' In_new = (?iv, Inr msg)"
    using ACall_pack_ok [of "BusInvoker_new ''a''" "''b/m''" In_new] by (auto simp: BusInvoker_new_def)
  let ?H = "(\<lambda>_. None)(5 := Some Result_new) :: results"
  let ?s = "\<lambda>iv c h. \<lparr>iw_iv = iv, iw_res = ?H, iw_callers = (\<lambda>_. None)(5 := Some c), iw_handlers = (\<lambda>_. None)(0 := h)\<rparr>"
  let ?resp = "Msg_new\<lparr>msg_id := 1, msg_params := ps\<rparr>"
  have "iw_step ?w (iw_start ''a'') (?s ?iv (Packed msg) None)"
    using iw_step.call [of "iw_start ''a''" 5 "''b/m''" In_new ?iv msg ?w] m(2) by (simp add: iw_start_def)
  from iw_reach.step [OF iw_reach.start this] have 1: "iw_reach ''a'' ?w (?s ?iv (Packed msg) None)" .
  let ?iv1 = "ACall_insert ?iv msg 5"
  have "iw_step ?w (?s ?iv (Packed msg) None) (?s ?iv1 (Entered msg) None)"
    using iw_step.enter [of "?s ?iv (Packed msg) None" 5 msg ?w] by simp
  from iw_reach.step [OF 1 this] have 2: "iw_reach ''a'' ?w (?s ?iv1 (Entered msg) None)" .
  have "iw_step ?w (?s ?iv1 (Entered msg) None) (?s ?iv1 Waiting None)"
    using iw_step.send [of "?s ?iv1 (Entered msg) None" 5 msg ?w] by simp
  from iw_reach.step [OF 2 this] have 3: "iw_reach ''a'' ?w (?s ?iv1 Waiting None)" .
  have "iw_step ?w (?s ?iv1 Waiting None) (?s ?iv1 Waiting (Some (HFind ?resp)))"
    using iw_step.receive [of "?s ?iv1 Waiting None" 0 ?w ?resp] by simp
  from iw_reach.step [OF 3 this] have 4: "iw_reach ''a'' ?w (?s ?iv1 Waiting (Some (HFind ?resp)))" .
  have "Invoker_find ?iv1 ?resp = (?iv, Some 5)"
    using m(1) by (simp add: Invoker_find_def ACall_insert_def BusInvoker_new_def map_find_def map_erase_def)
  then have "iw_step ?w (?s ?iv1 Waiting (Some (HFind ?resp))) (iw_answered ps)"
    using iw_step.handle [of "?s ?iv1 Waiting (Some (HFind ?resp))" 0 "HFind ?resp" ?iv ?H "Some (HSet 5 ps)" ?w]
    by (simp add: iw_answered_def)
  from iw_reach.step [OF 4 this] show ?thesis .
qed

text \<open>
  C17. As long as every caller waits for its result and the writer does not throw, whatever messages
  arrive on whatever threads and however the pieces of calls and handlers interleave (the 32-bit counter
  may wrap), no handler touches a destroyed \<open>Result\<close> up to and with the moment it sets the flag: the
  lookup, the writing of each parameter and the locked part of \<open>WeakUp\<close> find a living object. A handler
  that runs to its end without a caller returning in between touches none at all. The call of
  \<open>notify_all\<close> behind the flag is not covered, and is not safe: the next property has the run.
\<close>

theorem responses_never_dangle:
  assumes "iw_reach name w s"
  shows "(\<forall>t h. iw_handlers s t = Some h \<and> (\<forall>a. h \<noteq> HNotify a) \<longrightarrow>
      (\<exists>iv H h'. Handler_step (iw_iv s) (iw_res s) h = Inr (iv, H, h'))) \<and>
    (\<forall>m. \<exists>iv H. Invoker_HandleResponseMessage (iw_iv s) (iw_res s) m = Inr (iv, H))"
proof -
  have ok: "iw_ok s" by (rule iw_reach_ok [OF assms])
  have "\<exists>iv H. Invoker_HandleResponseMessage (iw_iv s) (iw_res s) m = Inr (iv, H)" for m
  proof (cases "map_find (iv_waitings (iw_iv s)) (msg_id m)")
    case None
    then show ?thesis using HandleResponse_miss by blast
  next
    case (Some a)
    then have "awaited (iw_res s) a" using ok unfolding iw_ok_def iw_entry_def by blast
    then show ?thesis using HandleResponse_hit [OF Some] by (auto simp: awaited_def)
  qed
  then show ?thesis using Handler_step_live [OF ok] by blast
qed

theorem responses_never_dangle_witness:
  "iw_reach ''a'' (\<lambda>m. Inr (msg_method m)) (iw_answered [(''x'', ''1'')]) \<and>
   iw_callers (iw_answered [(''x'', ''1'')]) 5 = Some Waiting \<and>
   (\<exists>iv H h'. Handler_step (iw_iv (iw_answered [(''x'', ''1'')])) (iw_res (iw_answered [(''x'', ''1'')]))
     (HSet 5 [(''x'', ''1'')]) = Inr (iv, H, h'))"
proof -
  let ?s = "iw_answered [(''x'', ''1'')]"
  have h: "iw_handlers ?s 0 = Some (HSet 5 [(''x'', ''1'')])" "iw_callers ?s 5 = Some Waiting"
    by (simp_all add: iw_answered_def)
  then show ?thesis
    using responses_never_dangle [OF iw_answered_reach [of "[(''x'', ''1'')]"]] iw_answered_reach by blast
qed

text \<open>
  C37. \<open>WeakUp\<close> calls \<open>notify_all\<close> after it has released the mutex of the object: there is a run in
  which the waiting caller sees the flag, takes its result, returns and destroys the object first, so
  that the notification is a call on a destroyed object.
\<close>

theorem notify_after_return_dangles:
  "\<exists>s s' out. iw_reach ''a'' (\<lambda>m. Inr (msg_method m)) s \<and> iw_handlers s 0 = Some (HNotify 5) \<and>
     Call_finish (iw_res s) 5 = Some (out, iw_res s') \<and> iw_step (\<lambda>m. Inr (msg_method m)) s s' \<and>
     iw_handlers s' 0 = Some (HNotify 5) \<and>
     Handler_step (iw_iv s') (iw_res s') (HNotify 5) = Inl UndefinedBehaviour"
proof -
  let ?w = "\<lambda>m. Inr (msg_method m) :: string res"
  let ?z = "iw_answered []"
  let ?s = "?z\<lparr>iw_res := (iw_res ?z)(5 := Some (Result_new\<lparr>rs_ok := True\<rparr>)),
    iw_handlers := (iw_handlers ?z)(0 := Some (HNotify 5))\<rparr>"
  let ?s' = "?s\<lparr>iw_res := (iw_res ?s)(5 := None), iw_callers := (iw_callers ?s)(5 := None)\<rparr>"
  have "iw_handlers ?z 0 = Some (HSet 5 [])" by (simp add: iw_answered_def)
  moreover have "Handler_step (iw_iv ?z) (iw_res ?z) (HSet 5 []) = Inr (iw_iv ?z, iw_res ?s, Some (HNotify 5))"
    by (simp add: iw_answered_def WeakUp_set_def Result_update_def)
  ultimately have "iw_step ?w ?z ?s"
    using iw_step.handle [of ?z 0 "HSet 5 []" "iw_iv ?z" "iw_res ?s" "Some (HNotify 5)" ?w] by simp
  then have r: "iw_reach ''a'' ?w ?s" by (rule iw_reach.step [OF iw_answered_reach])
  have f: "Call_finish (iw_res ?s) 5 = Some (In_new, iw_res ?s')"
    by (simp add: Call_finish_def Wait_returns_def Result_new_def)
  moreover have "iw_callers ?s 5 = Some Waiting" by (simp add: iw_answered_def)
  ultimately have "iw_step ?w ?s ?s'"
    using iw_step.leave [of ?s 5 In_new "iw_res ?s'" ?w] by simp
  then show ?thesis
    using r f by (intro exI [of _ ?s] exI [of _ ?s'] exI [of _ In_new]) (simp add: WeakUp_notify_def Result_update_def)
qed

text \<open>
  C18. A waiting call gets its own answer: answers with other ids, in any number and order, leave the
  caller asleep; the answer with its id wakes it and \<open>Call\<close> returns exactly the parameters of that
  message.
\<close>

theorem call_gets_its_response:
  assumes "iv_reach name w iv H" "H a = None"
    and "Call_start w iv H a method i True = (iv1, H1, Inr (st, out))"
    and "\<And>m. m \<in> set ms \<Longrightarrow> msg_id m \<noteq> iv_next_id iv"
    and "msg_id resp = iv_next_id iv" "map_ok (msg_params resp)"
  shows "\<exists>iv2 H2 iv3 H3 H4. handle_responses iv1 H1 ms = Inr (iv2, H2) \<and> Call_finish H2 a = None \<and>
    Invoker_HandleResponseMessage iv2 H2 resp = Inr (iv3, H3) \<and>
    Call_finish H3 a = Some (\<lparr>in_conn = None, in_values = msg_params resp\<rparr>, H4)"
  by (rule call_answered_later [OF assms])

theorem call_gets_its_response_witness:
  "\<exists>iv1 H1 st out iv2 H2 iv3 H3 H4.
     Call_start (\<lambda>m. Inr (msg_method m)) (BusInvoker_new ''a'') (\<lambda>_. None) 5 ''b/m'' In_new True =
       (iv1, H1, Inr (st, out)) \<and>
     handle_responses iv1 H1 [Msg_new] = Inr (iv2, H2) \<and> Call_finish H2 5 = None \<and>
     Invoker_HandleResponseMessage iv2 H2 (Msg_new\<lparr>msg_id := 1, msg_params := [(''x'', ''1'')]\<rparr>) = Inr (iv3, H3) \<and>
     Call_finish H3 5 = Some (\<lparr>in_conn = None, in_values = [(''x'', ''1'')]\<rparr>, H4)"
proof -
  let ?w = "\<lambda>m. Inr (msg_method m)"
  obtain iv1 H1 st out where
    c: "Call_start ?w (BusInvoker_new ''a'') (\<lambda>_. None) 5 ''b/m'' In_new True = (iv1, H1, Inr (st, out))"
    using Call_start_writes [of ?w] by blast
  show ?thesis
    using call_gets_its_response [OF iv_reach.start _ c, where ms = "[Msg_new]" and
        resp = "Msg_new\<lparr>msg_id := 1, msg_params := [(''x'', ''1'')]\<rparr>"] c
    by (simp add: BusInvoker_new_def Msg_new_def map_ok_def)
qed

text \<open>
  C38. \<open>Call\<close> with a null \<open>out\<close>, and a call whose message cannot be written, destroy the \<open>Result\<close>
  but leave its address in \<open>waitings_\<close>: a message with that id makes the handler use a dangling
  pointer.
\<close>

theorem Call_without_out_dangles:
  assumes "map_ok (iv_waitings iv)" "Call_start w iv H a method i has_out = (iv1, H1, r)"
    and "\<not> has_out \<or> r = Inl e" "msg_id resp = iv_next_id iv"
  shows "Invoker_HandleResponseMessage iv1 H1 resp = Inl UndefinedBehaviour"
proof -
  have "H1 a = None" using Call_start_cases(2) [OF assms(2)] assms(3) by auto
  then show ?thesis
    using Call_start_cases(1) [OF assms(2)] assms(1,4)
    by (cases "msg_params resp")
      (simp_all add: Invoker_HandleResponseMessage_def Invoker_find_def Result_out_set_def WeakUp_def WeakUp_set_def
        Result_update_def smap_simps)
qed

theorem Call_without_out_dangles_witness:
  "\<exists>iv1 H1 r. Call_start (\<lambda>m. Inr (msg_method m)) (BusInvoker_new ''a'') (\<lambda>_. None) 5 ''RegisterService''
       In_new False = (iv1, H1, r) \<and>
     Invoker_HandleResponseMessage iv1 H1 (Msg_new\<lparr>msg_id := 1\<rparr>) = Inl UndefinedBehaviour"
proof -
  obtain iv1 H1 r where
    c: "Call_start (\<lambda>m. Inr (msg_method m)) (BusInvoker_new ''a'') (\<lambda>_. None) 5 ''RegisterService''
       In_new False = (iv1, H1, r)" by (rule prod_cases3)
  show ?thesis
    using Call_without_out_dangles [OF _ c, where resp = "Msg_new\<lparr>msg_id := 1\<rparr>"] c
    by (auto simp: BusInvoker_new_def)
qed

end
