(* ===== verification/Bus.thy ===== *)
theory Bus
  imports Bus_Invoker
begin

text \<open>
  The nodes of the bus: \<^verbatim>\<open>cppboot/adv/bus/router.cc\<close>, \<^verbatim>\<open>server.cc\<close>, \<^verbatim>\<open>client.cc\<close>. Connections are
  numbers; what a handler passes to \<open>Conn::Send\<close> is returned as a list of (connection, bytes). The
  context object of a connection belongs to the connection, so the server keeps one per connection.
\<close>

section \<open>BusRouter\<close>

text \<open>A registered connection may be a null pointer.\<close>

type_synonym BusRouter = "(string, nat option) smap"

definition Router_Add :: "BusRouter \<Rightarrow> string \<Rightarrow> nat option \<Rightarrow> BusRouter" where
  "Router_Add r name conn = map_set r name conn"

definition Router_Remove :: "BusRouter \<Rightarrow> string \<Rightarrow> BusRouter" where
  "Router_Remove r name = map_erase r name"

definition Router_Find :: "BusRouter \<Rightarrow> string \<Rightarrow> nat option" where
  "Router_Find r name = (case map_find r name of Some c \<Rightarrow> c | None \<Rightarrow> None)"

section \<open>BusServer\<close>

datatype ConnState = kDisconnected | kConnected

record BusServer =
  bs_service :: "BusRouter BusService"
  bs_router :: BusRouter
  bs_context :: "nat \<Rightarrow> BusContext option"

definition HandleRegisterMethod :: "BusRouter MethodFunc" where
  "HandleRegisterMethod router i out =
     (let name = In_get i ''ServiceName'' in Inr (out, Router_Add router name (in_conn i)))"

definition BusServer_new :: "string \<Rightarrow> BusServer" where
  "BusServer_new name =
     \<lparr>bs_service = snd (AddMethod (BusService_new name) ''RegisterService'' HandleRegisterMethod),
      bs_router = [], bs_context = (\<lambda>_. None)\<rparr>"

definition HandleConnection :: "BusServer \<Rightarrow> nat \<Rightarrow> ConnState \<Rightarrow> BusServer" where
  "HandleConnection sv conn state =
     (case state of
        kConnected \<Rightarrow> sv\<lparr>bs_context := (bs_context sv)(conn := Some BusContext_new)\<rparr>
      | kDisconnected \<Rightarrow>
          (case bs_context sv conn of
             Some ctx \<Rightarrow> sv\<lparr>bs_router := Router_Remove (bs_router sv) (bc_name ctx)\<rparr>
           | None \<Rightarrow> sv))"

definition SendMessageToConnection :: "nat \<Rightarrow> Msg \<Rightarrow> (nat \<times> string) res" where
  "SendMessageToConnection conn msg = bindr (SendMessage_bytes msg) (\<lambda>b. Inr (conn, b))"

definition Server_HandleRequestMessage :: "BusServer \<Rightarrow> Msg \<Rightarrow> (BusServer \<times> (nat \<times> string) list) res" where
  "Server_HandleRequestMessage sv req =
     (let provider = msg_method_provider req in
      if provider = [] \<or> provider = ''SvcMgr'' then
        bindr (ServeMsg (bs_service sv) (bs_router sv) req Msg_new) (\<lambda>(resp, router).
          case msg_src req of
            None \<Rightarrow> Inl UndefinedBehaviour
          | Some c \<Rightarrow> bindr (SendMessageToConnection c resp) (\<lambda>o1. Inr (sv\<lparr>bs_router := router\<rparr>, [o1])))
      else
        case Router_Find (bs_router sv) provider of
          Some c \<Rightarrow> bindr (SendMessageToConnection c req) (\<lambda>o1. Inr (sv, [o1]))
        | None \<Rightarrow> Inr (sv, []))"

definition Server_HandleResponseMessage :: "BusServer \<Rightarrow> Msg \<Rightarrow> (BusServer \<times> (nat \<times> string) list) res" where
  "Server_HandleResponseMessage sv msg =
     (case Router_Find (bs_router sv) (msg_caller msg) of
        Some c \<Rightarrow> bindr (SendMessageToConnection c msg) (\<lambda>o1. Inr (sv, [o1]))
      | None \<Rightarrow> Inr (sv, []))"

definition Server_HandleMessage :: "BusServer \<Rightarrow> Msg \<Rightarrow> (BusServer \<times> (nat \<times> string) list) res" where
  "Server_HandleMessage sv msg =
     (if msg_is_request msg then Server_HandleRequestMessage sv msg else Server_HandleResponseMessage sv msg)"

text \<open>\<open>Stop\<close> has an empty body.\<close>

definition Server_Stop :: "BusServer \<Rightarrow> BusServer" where
  "Server_Stop sv = sv"

definition Server_OnReceive :: "BusServer \<Rightarrow> nat \<Rightarrow> Buffer
    \<Rightarrow> (BusServer \<times> Buffer \<times> (nat \<times> string) list) res" where
  "Server_OnReceive sv conn buf =
     (case bs_context sv conn of
        None \<Rightarrow> Inl UndefinedBehaviour
      | Some ctx \<Rightarrow>
          bindr (BusContext_Parse ctx buf Msg_new) (\<lambda>(ret, ctx, buf, msg).
            let sv = sv\<lparr>bs_context := (bs_context sv)(conn := Some ctx)\<rparr> in
            case ret of
              kBad \<Rightarrow> Inr (Server_Stop sv, buf, [])
            | kGood \<Rightarrow>
                let msg = msg\<lparr>msg_src := Some conn\<rparr> in
                bindr (Server_HandleMessage sv msg) (\<lambda>(sv, outs). Inr (sv, buf, outs))
            | kContinue \<Rightarrow> Inr (sv, buf, [])))"

section \<open>BusClient\<close>

text \<open>
  \<open>cl_env\<close> is the state the client's own methods work on, \<open>cl_stops\<close> counts the calls of
  \<open>transport_->Stop()\<close>. The bytes sent go to the transport.
\<close>

record 's BusClient =
  cl_service :: "'s BusService"
  cl_invoker :: BusInvoker
  cl_context :: BusContext
  cl_stops :: nat
  cl_env :: 's
  cl_results :: results

definition BusClient_new :: "string \<Rightarrow> 's \<Rightarrow> 's BusClient" where
  "BusClient_new name s = \<lparr>cl_service = BusService_new name, cl_invoker = BusInvoker_new name,
     cl_context = BusContext_new, cl_stops = 0, cl_env = s, cl_results = (\<lambda>_. None)\<rparr>"

definition Client_Stop :: "'s BusClient \<Rightarrow> 's BusClient" where
  "Client_Stop cl = cl\<lparr>cl_stops := cl_stops cl + 1\<rparr>"

definition Client_Call :: "'s BusClient \<Rightarrow> nat \<Rightarrow> string \<Rightarrow> In \<Rightarrow> bool
    \<Rightarrow> 's BusClient \<times> (Status \<times> string option) res" where
  "Client_Call cl a method i has_out =
     (let (iv, H, r) = Call_start SendMessage_bytes (cl_invoker cl) (cl_results cl) a method i has_out in
      (cl\<lparr>cl_invoker := iv, cl_results := H\<rparr>, r))"

definition Client_ACall :: "'s BusClient \<Rightarrow> string \<Rightarrow> In \<Rightarrow> nat option
    \<Rightarrow> 's BusClient \<times> (Status \<times> string option) res" where
  "Client_ACall cl method i result =
     (let (iv, r) = ACall SendMessage_bytes (cl_invoker cl) method i result in
      (cl\<lparr>cl_invoker := iv\<rparr>, r))"

definition ReportMyServiceToServer :: "'s BusClient \<Rightarrow> nat \<Rightarrow> 's BusClient \<times> (Status \<times> string option) res" where
  "ReportMyServiceToServer cl a =
     Client_Call cl a ''RegisterService'' (In_set In_new ''ServiceName'' (svc_name (cl_service cl))) False"

definition Client_Start :: "'s BusClient \<Rightarrow> nat \<Rightarrow> 's BusClient \<times> (Status \<times> string option) res" where
  "Client_Start cl a = ReportMyServiceToServer cl a"

definition Client_AddMethod :: "'s BusClient \<Rightarrow> nat \<Rightarrow> string \<Rightarrow> 's MethodFunc
    \<Rightarrow> 's BusClient \<times> (Status \<times> string option) res" where
  "Client_AddMethod cl a name func =
     (let (ok, svc) = AddMethod (cl_service cl) name func;
          cl = cl\<lparr>cl_service := svc\<rparr> in
      if \<not> ok then (cl, bindr (AlreadyExistsError (sv_of_string name)) (\<lambda>st. Inr (st, None)))
      else Client_Call cl a ''SvcMgr/AddMethod'' (In_set In_new ''MethodName'' name) False)"

definition Client_HandleRequestMessage :: "'s BusClient \<Rightarrow> Msg \<Rightarrow> ('s BusClient \<times> string list) res" where
  "Client_HandleRequestMessage cl msg =
     bindr (ServeMsg (cl_service cl) (cl_env cl) msg Msg_new) (\<lambda>(resp, s).
     bindr (SendMessage_bytes resp) (\<lambda>b. Inr (cl\<lparr>cl_env := s\<rparr>, [b])))"

definition Client_HandleMessage :: "'s BusClient \<Rightarrow> Msg \<Rightarrow> ('s BusClient \<times> string list) res" where
  "Client_HandleMessage cl msg =
     (if msg_is_request msg then Client_HandleRequestMessage cl msg
      else bindr (Invoker_HandleResponseMessage (cl_invoker cl) (cl_results cl) msg) (\<lambda>(iv, H).
             Inr (cl\<lparr>cl_invoker := iv, cl_results := H\<rparr>, [])))"

definition OnTransportReadCallback :: "'s BusClient \<Rightarrow> Buffer \<Rightarrow> ('s BusClient \<times> Buffer \<times> string list) res" where
  "OnTransportReadCallback cl buf =
     bindr (BusContext_Parse (cl_context cl) buf Msg_new) (\<lambda>(ret, ctx, buf, msg).
       let cl = cl\<lparr>cl_context := ctx\<rparr> in
       case ret of
         kBad \<Rightarrow> Inr (Client_Stop cl, buf, [])
       | kGood \<Rightarrow> bindr (Client_HandleMessage cl msg) (\<lambda>(cl, outs). Inr (cl, buf, outs))
       | kContinue \<Rightarrow> Inr (cl, buf, []))"

text \<open>A block of bytes read from a connection: appended to its input buffer, then the callback.\<close>

definition server_gets :: "BusServer \<Rightarrow> nat \<Rightarrow> Buffer \<Rightarrow> string
    \<Rightarrow> (BusServer \<times> Buffer \<times> (nat \<times> string) list) res" where
  "server_gets sv conn buf block = bindr (Append buf block) (\<lambda>buf. Server_OnReceive sv conn buf)"

definition client_gets :: "'s BusClient \<Rightarrow> Buffer \<Rightarrow> string \<Rightarrow> ('s BusClient \<times> Buffer \<times> string list) res" where
  "client_gets cl buf block = bindr (Append buf block) (\<lambda>buf. OnTransportReadCallback cl buf)"

section \<open>One hop\<close>

definition idle :: "BusContext \<Rightarrow> Buffer \<Rightarrow> bool" where
  "idle c buf \<longleftrightarrow> bc_state c = kHeader \<and> buf_inv buf \<and> Buffer_Str buf = []"

definition sendable :: "Msg \<Rightarrow> string \<Rightarrow> bool" where
  "sendable m b \<longleftrightarrow> JsonPacker_Pack m = Inr b \<and> length b + 1 < 2 ^ 32 \<and> msg_ok m \<and> CHR ''/'' \<notin> set (msg_method m)"

lemma idle_new: "idle BusContext_new (Buffer_new n)"
  by (simp add: idle_def BusContext_new_def Buffer_new_inv)

lemma sendable_bytes: "sendable m b \<Longrightarrow> SendMessage_bytes m = Inr (frame b)"
  by (simp add: sendable_def SendMessage_frame)

lemma sendable_src: "sendable m b \<Longrightarrow> sendable (m\<lparr>msg_src := x\<rparr>) b"
proof -
  have "pack_json (m\<lparr>msg_src := x\<rparr>) = pack_json m" by (simp add: pack_json_eq msg_json_def)
  then show "sendable m b \<Longrightarrow> sendable (m\<lparr>msg_src := x\<rparr>) b"
    by (simp add: sendable_def JsonPacker_Pack_def msg_ok_def)
qed

lemma hop:
  assumes "sendable m b" "idle c buf"
  obtains buf1 c' buf2 where "Append buf (frame b) = Inr buf1"
    "BusContext_Parse c buf1 Msg_new = Inr (kGood, c', buf2, m\<lparr>msg_src := None\<rparr>)" "idle c' buf2"
proof -
  have s: "JsonPacker_Pack m = Inr b" "length b + 1 < 2 ^ 32" "msg_ok m" "CHR ''/'' \<notin> set (msg_method m)"
    using assms(1) by (simp_all add: sendable_def)
  have w: "waiting c buf b (frame b)" using waiting_start assms(2) by (simp add: idle_def)
  have len: "length (Buffer_Str buf) + 2 * length (frame b @ []) + 8 \<le> kMaxSize"
    using s(2) assms(2) by (simp add: idle_def frame_def kMaxSize_def)
  obtain c' buf2 where r: "receive c buf (frame b @ []) = Inr (kGood, c', buf2, m\<lparr>msg_src := None\<rparr>)"
    "bc_state c' = kHeader" "buf_inv buf2" "Buffer_Str buf2 = []"
    using receive_good [OF w s(2) len Unpack_Pack(2) [OF s(1,3,4)]] by blast
  then obtain buf1 where "Append buf (frame b) = Inr buf1"
    "BusContext_Parse c buf1 Msg_new = Inr (kGood, c', buf2, m\<lparr>msg_src := None\<rparr>)"
    by (cases "Append buf (frame b)") (auto simp: receive_def)
  then show ?thesis using that r by (auto simp: idle_def)
qed

lemma server_hop:
  assumes "sendable m b" "bs_context sv conn = Some c" "idle c buf"
  obtains c' buf2 where "idle c' buf2"
    "server_gets sv conn buf (frame b) =
      bindr (Server_HandleMessage (sv\<lparr>bs_context := (bs_context sv)(conn := Some c')\<rparr>) (m\<lparr>msg_src := Some conn\<rparr>))
        (\<lambda>(sv, outs). Inr (sv, buf2, outs))"
  by (rule hop [OF assms(1,3)]) (simp add: that server_gets_def Server_OnReceive_def assms(2))

lemma client_hop:
  assumes "sendable m b" "idle (cl_context cl) buf"
  obtains c' buf2 where "idle c' buf2"
    "client_gets cl buf (frame b) =
      bindr (Client_HandleMessage (cl\<lparr>cl_context := c'\<rparr>) (m\<lparr>msg_src := None\<rparr>))
        (\<lambda>(cl, outs). Inr (cl, buf2, outs))"
  by (rule hop [OF assms]) (simp add: that client_gets_def OnTransportReadCallback_def)

section \<open>Messages built by the invoker and by a service\<close>

lemma set_method_slash:
  assumes "CHR ''/'' \<notin> set p" "length (p @ ''/'' @ q) < npos"
  shows "set_method m (p @ ''/'' @ q) = Inr (m\<lparr>msg_method_provider := p, msg_method := q\<rparr>)"
proof -
  have tw: "takeWhile (\<lambda>x. x \<notin> {CHR ''/''}) (p @ ''/'' @ q) = p"
    using assms(1) by (induction p) auto
  have "dropWhile (\<lambda>x. x \<notin> {CHR ''/''}) (p @ ''/'' @ q) \<noteq> []" by (simp add: dropWhile_eq_Nil_conv)
  then have "str_find_first_of (p @ ''/'' @ q) ''/'' 0 = length p"
    using str_find_first_of_eq [of 0 "p @ ''/'' @ q" "''/''"] assms(2) tw by simp
  then show ?thesis using assms(2) by (simp add: set_method_def)
qed

lemma set_params_params:
  "[] \<notin> fst ` set kvs \<Longrightarrow>
   set_params m kvs = m\<lparr>msg_params := foldl (\<lambda>m (k, v). map_set m k v) (msg_params m) kvs\<rparr>"
  by (induction kvs arbitrary: m) (auto simp: set_params_def set_param_def Params_set_def)

lemma set_params_new:
  "[] \<notin> fst ` set kvs \<Longrightarrow> map_ok kvs \<Longrightarrow> msg_params m = [] \<Longrightarrow> set_params m kvs = m\<lparr>msg_params := kvs\<rparr>"
  using set_params_params [of kvs m] map_rebuild [of kvs] by simp

definition request :: "nat \<Rightarrow> string \<Rightarrow> string \<Rightarrow> string \<Rightarrow> (string, string) smap \<Rightarrow> Msg" where
  "request n caller provider method ps = \<lparr>msg_src = None, msg_id = n, msg_is_request = True, msg_caller = caller,
     msg_method = method, msg_method_provider = provider, msg_params = ps\<rparr>"

definition response :: "nat \<Rightarrow> string \<Rightarrow> (string, string) smap \<Rightarrow> Msg" where
  "response n caller ps = \<lparr>msg_src = None, msg_id = n, msg_is_request = False, msg_caller = caller,
     msg_method = '''', msg_method_provider = '''', msg_params = ps\<rparr>"

lemma request_built:
  assumes "CHR ''/'' \<notin> set p" "length (p @ ''/'' @ q) < npos" "map_ok (in_values i)" "[] \<notin> fst ` set (in_values i)"
  shows "ACall w iv (p @ ''/'' @ q) i (Some a) =
    (iv\<lparr>iv_next_id := (iv_next_id iv + 1) mod 2 ^ 32,
        iv_waitings := map_set (iv_waitings iv) (iv_next_id iv) a\<rparr>,
     bindr (w (request (iv_next_id iv) (iv_name iv) p q (in_values i))) (\<lambda>out. Inr (OkStatus, Some out)))"
  using set_method_slash [OF assms(1,2)]
  by (simp add: ACall_def ACall_pack_def ACall_insert_def NextMsgId_def Msg_new_def request_def set_params_new [OF assms(4,3)])

lemma Call_request:
  assumes "CHR ''/'' \<notin> set p" "length (p @ ''/'' @ q) < npos" "map_ok (in_values i)" "[] \<notin> fst ` set (in_values i)"
    and "w (request (iv_next_id iv) (iv_name iv) p q (in_values i)) = Inr x"
  obtains iv' H' where "Call_start w iv H a (p @ ''/'' @ q) i True = (iv', H', Inr (OkStatus, Some x))"
  using request_built [OF assms(1-4), of w iv a] assms(5) that by (simp add: Call_start_def)

lemma ServeMsg_found:
  assumes "map_find (svc_methods svc) (msg_method req) = Some f" "map_ok (msg_params req)"
    and "f s \<lparr>in_conn = msg_src req, in_values = msg_params req\<rparr> In_new = Inr (out, s')"
    and "map_ok (in_values out)" "[] \<notin> fst ` set (in_values out)"
  shows "ServeMsg svc s req Msg_new = Inr (response (msg_id req) (msg_caller req) (in_values out), s')"
  using assms(1,3) In_sets_new [OF assms(2), of "In_new\<lparr>in_conn := msg_src req\<rparr>"]
  by (simp add: ServeMsg_def In_new_def Msg_new_def response_def set_params_new [OF assms(5,4)])

lemma send_forward:
  assumes "sendable m b" "msg_src m = Some x" "msg_is_request m"
    and "msg_method_provider m \<noteq> []" "msg_method_provider m \<noteq> ''SvcMgr''"
    and "Router_Find (bs_router sv) (msg_method_provider m) = Some c"
  shows "Server_HandleMessage sv m = Inr (sv, [(c, frame b)])"
  using assms sendable_bytes [OF assms(1)]
  by (simp add: Server_HandleMessage_def Server_HandleRequestMessage_def SendMessageToConnection_def)

lemma send_back:
  assumes "sendable m b" "\<not> msg_is_request m" "Router_Find (bs_router sv) (msg_caller m) = Some c"
  shows "Server_HandleMessage sv m = Inr (sv, [(c, frame b)])"
  using assms sendable_bytes [OF assms(1)]
  by (simp add: Server_HandleMessage_def Server_HandleResponseMessage_def SendMessageToConnection_def)

section \<open>The server's invariant\<close>

text \<open>Connections come and go and deliver arbitrary bytes.\<close>

inductive sv_reach :: "string \<Rightarrow> BusServer \<Rightarrow> bool" for name where
  start: "sv_reach name (BusServer_new name)"
| conn: "sv_reach name sv \<Longrightarrow> sv_reach name (HandleConnection sv c st)"
| read: "sv_reach name sv \<Longrightarrow> server_gets sv c buf block = Inr (sv', buf', outs) \<Longrightarrow> sv_reach name sv'"

definition sv_inv :: "string \<Rightarrow> BusServer \<Rightarrow> bool" where
  "sv_inv name sv \<longleftrightarrow> bs_service sv = bs_service (BusServer_new name) \<and> map_ok (bs_router sv) \<and>
     (\<forall>c ctx. bs_context sv c = Some ctx \<longrightarrow> bc_name ctx = [])"

lemma parse_body_name: "parse_body c buf m = Inr (r, c', buf', m') \<Longrightarrow> bc_name c' = bc_name c"
  by (auto simp: parse_body_def Let_def bindr_Inr_iff split: if_splits)

lemma Parse_name: "BusContext_Parse c buf m = Inr (r, c', buf', m') \<Longrightarrow> bc_name c' = bc_name c"
  by (auto simp: BusContext_Parse_def Let_def split: if_splits dest: parse_body_name)

lemma ServeMsg_server:
  assumes "ServeMsg (bs_service (BusServer_new name)) router req resp = Inr (resp', router')" "map_ok router"
  shows "map_ok router'"
proof -
  have "svc_methods (bs_service (BusServer_new name)) = [(''RegisterService'', HandleRegisterMethod)]"
    by (simp add: BusServer_new_def AddMethod_def BusService_new_def)
  then show ?thesis
    using assms
    by (cases "msg_method req = ''RegisterService''")
      (auto simp: ServeMsg_def map_find_def HandleRegisterMethod_def Router_Add_def map_set_ok Let_def)
qed

lemma sv_inv_HandleMessage:
  assumes "Server_HandleMessage sv m = Inr (sv', outs)" "sv_inv name sv"
  shows "sv_inv name sv'"
proof (cases "msg_is_request m \<and> (msg_method_provider m = [] \<or> msg_method_provider m = ''SvcMgr'')")
  case True
  then obtain resp router where s: "ServeMsg (bs_service sv) (bs_router sv) m Msg_new = Inr (resp, router)"
    "sv' = sv\<lparr>bs_router := router\<rparr>"
    using assms(1)
    by (auto simp: Server_HandleMessage_def Server_HandleRequestMessage_def Let_def bindr_Inr_iff split: option.splits)
  then show ?thesis using ServeMsg_server [of name] assms(2) by (auto simp: sv_inv_def)
next
  case False
  then have "sv' = sv"
    using assms(1)
    by (auto simp: Server_HandleMessage_def Server_HandleRequestMessage_def Server_HandleResponseMessage_def
        Let_def bindr_Inr_iff split: option.splits if_splits)
  then show ?thesis using assms(2) by simp
qed

lemma sv_inv_ctx: "sv_inv name sv \<Longrightarrow> bc_name ctx = [] \<Longrightarrow> sv_inv name (sv\<lparr>bs_context := (bs_context sv)(c := Some ctx)\<rparr>)"
  by (simp add: sv_inv_def)

lemma sv_inv_OnReceive:
  assumes "Server_OnReceive sv c buf = Inr (sv', buf', outs)" "sv_inv name sv"
  shows "sv_inv name sv'"
proof -
  obtain ctx where ctx: "bs_context sv c = Some ctx" using assms(1) by (auto simp: Server_OnReceive_def split: option.splits)
  obtain ret ctx' b m where p: "BusContext_Parse ctx buf Msg_new = Inr (ret, ctx', b, m)"
    using assms(1) ctx by (cases "BusContext_Parse ctx buf Msg_new") (auto simp: Server_OnReceive_def)
  have "bc_name ctx' = []" using Parse_name [OF p] ctx assms(2) by (auto simp: sv_inv_def)
  then have i: "sv_inv name (sv\<lparr>bs_context := (bs_context sv)(c := Some ctx')\<rparr>)" by (rule sv_inv_ctx [OF assms(2)])
  show ?thesis
  proof (cases ret)
    case kGood
    then obtain o' where "Server_HandleMessage (sv\<lparr>bs_context := (bs_context sv)(c := Some ctx')\<rparr>) (m\<lparr>msg_src := Some c\<rparr>) = Inr (sv', o')"
      using assms(1) ctx p by (auto simp: Server_OnReceive_def bindr_Inr_iff)
    then show ?thesis by (rule sv_inv_HandleMessage [OF _ i])
  qed (use assms(1) ctx p i in \<open>auto simp: Server_OnReceive_def Server_Stop_def\<close>)
qed

lemma sv_reach_inv: "sv_reach name sv \<Longrightarrow> sv_inv name sv"
proof (induction rule: sv_reach.induct)
  case start
  then show ?case by (simp add: sv_inv_def BusServer_new_def)
next
  case (conn sv c st)
  then show ?case
    by (auto simp: sv_inv_def HandleConnection_def BusContext_new_def Router_Remove_def map_erase_ok
        split: ConnState.splits option.splits)
next
  case (read sv c buf block sv' buf' outs)
  then show ?case by (auto simp: server_gets_def bindr_Inr_iff intro: sv_inv_OnReceive)
qed

section \<open>Properties\<close>

text \<open>
  C1. A remote call from end to end. Client \<open>A\<close> calls \<open>provider/method\<close>; the request goes to the
  server, to the client registered under that name, which runs its method; the answer goes back
  through the server to \<open>A\<close>, where \<open>Call\<close> returns exactly what the method put into \<open>out\<close>. The
  frames are forwarded unchanged.
\<close>

theorem remote_call:
  assumes A: "iv_reach nA SendMessage_bytes (cl_invoker A) (cl_results A)" "cl_results A a = None"
      "idle (cl_context A) bufA"
    and B: "map_find (svc_methods (cl_service B)) q = Some f" "idle (cl_context B) bufB"
      "f (cl_env B) \<lparr>in_conn = None, in_values = in_values i\<rparr> In_new = Inr (out, s')"
    and S: "bs_context sv cA = Some xA" "idle xA sbA" "bs_context sv cB = Some xB" "idle xB sbB" "cA \<noteq> cB"
      "Router_Find (bs_router sv) p = Some cB" "Router_Find (bs_router sv) (iv_name (cl_invoker A)) = Some cA"
    and M: "p \<noteq> []" "p \<noteq> ''SvcMgr''" "CHR ''/'' \<notin> set p" "length (p @ ''/'' @ q) < npos"
      "map_ok (in_values i)" "[] \<notin> fst ` set (in_values i)" "map_ok (in_values out)" "[] \<notin> fst ` set (in_values out)"
    and R: "sendable (request (iv_next_id (cl_invoker A)) (iv_name (cl_invoker A)) p q (in_values i)) b1"
      "sendable (response (iv_next_id (cl_invoker A)) (iv_name (cl_invoker A)) (in_values out)) b2"
  shows "\<exists>A1 f1 sv1 sb1 B1 bB f2 sv2 sb2 A2 bA H.
    Client_Call A a (p @ ''/'' @ q) i True = (A1, Inr (OkStatus, Some f1)) \<and>
    server_gets sv cA sbA f1 = Inr (sv1, sb1, [(cB, f1)]) \<and>
    client_gets B bufB f1 = Inr (B1, bB, [f2]) \<and> cl_env B1 = s' \<and>
    server_gets sv1 cB sbB f2 = Inr (sv2, sb2, [(cA, f2)]) \<and>
    client_gets A1 bufA f2 = Inr (A2, bA, []) \<and>
    Call_finish (cl_results A2) a = Some (\<lparr>in_conn = None, in_values = in_values out\<rparr>, H)"
proof -
  let ?req = "request (iv_next_id (cl_invoker A)) (iv_name (cl_invoker A)) p q (in_values i)"
  let ?resp = "response (iv_next_id (cl_invoker A)) (iv_name (cl_invoker A)) (in_values out)"
  obtain iv1 H1 where c: "Call_start SendMessage_bytes (cl_invoker A) (cl_results A) a (p @ ''/'' @ q) i True =
      (iv1, H1, Inr (OkStatus, Some (frame b1)))"
    by (rule Call_request [where w = "SendMessage_bytes", OF M(3-6) sendable_bytes [OF R(1)]])
  let ?A1 = "A\<lparr>cl_invoker := iv1, cl_results := H1\<rparr>"
  have call: "Client_Call A a (p @ ''/'' @ q) i True = (?A1, Inr (OkStatus, Some (frame b1)))"
    unfolding Client_Call_def c by simp
  have fw: "Server_HandleMessage (sv\<lparr>bs_context := X\<rparr>) (?req\<lparr>msg_src := Some cA\<rparr>) =
      Inr (sv\<lparr>bs_context := X\<rparr>, [(cB, frame b1)])" for X
    by (rule send_forward [OF sendable_src [OF R(1)]]) (simp_all add: request_def S(6) M(1,2))
  have bk: "Server_HandleMessage (sv\<lparr>bs_context := X\<rparr>) (?resp\<lparr>msg_src := Some cB\<rparr>) =
      Inr (sv\<lparr>bs_context := X\<rparr>, [(cA, frame b2)])" for X
    by (rule send_back [OF sendable_src [OF R(2)]]) (simp_all add: response_def S(7))
  obtain c1 sb1 where s1: "server_gets sv cA sbA (frame b1) =
      Inr (sv\<lparr>bs_context := (bs_context sv)(cA := Some c1)\<rparr>, sb1, [(cB, frame b1)])"
    by (rule server_hop [OF R(1) S(1,2)]) (simp add: fw)
  have serve: "ServeMsg (cl_service B) (cl_env B) (?req\<lparr>msg_src := None\<rparr>) Msg_new = Inr (?resp, s')"
    using ServeMsg_found [where svc = "cl_service B" and req = "?req\<lparr>msg_src := None\<rparr>" and s = "cl_env B"] B(1,3) M(5,7,8)
    by (simp add: request_def)
  obtain c2 bB where b: "client_gets B bufB (frame b1) = Inr (B\<lparr>cl_context := c2, cl_env := s'\<rparr>, bB, [frame b2])"
    by (rule client_hop [OF R(1) B(2)])
      (use serve in \<open>simp add: Client_HandleMessage_def Client_HandleRequestMessage_def request_def sendable_bytes [OF R(2)]\<close>)
  obtain c3 sb2 where s2: "server_gets (sv\<lparr>bs_context := (bs_context sv)(cA := Some c1)\<rparr>) cB sbB (frame b2) =
      Inr (sv\<lparr>bs_context := (bs_context sv)(cA := Some c1, cB := Some c3)\<rparr>, sb2, [(cA, frame b2)])"
    by (rule server_hop [OF R(2), of "sv\<lparr>bs_context := (bs_context sv)(cA := Some c1)\<rparr>" cB xB sbB])
      (use S(3-5) bk in auto)
  obtain iv3 H3 H4 where r: "Invoker_HandleResponseMessage iv1 H1 (?resp\<lparr>msg_src := None\<rparr>) = Inr (iv3, H3)"
    "Call_finish H3 a = Some (\<lparr>in_conn = None, in_values = in_values out\<rparr>, H4)"
    using call_answered [OF A(1,2) c, of "?resp\<lparr>msg_src := None\<rparr>"] M(7)
    by (auto simp: response_def)
  obtain c4 bA where a: "client_gets ?A1 bufA (frame b2) =
      Inr (?A1\<lparr>cl_context := c4, cl_invoker := iv3, cl_results := H3\<rparr>, bA, [])"
    by (rule client_hop [OF R(2), of ?A1 bufA]) (use A(3) r(1) in \<open>auto simp: Client_HandleMessage_def response_def\<close>)
  show ?thesis using call s1 b s2 a r(2)
    by (intro exI conjI) (assumption | simp)+
qed

definition sample_request :: Msg where
  "sample_request = request 1 ''a'' ''b'' ''inc'' [(''x'', ''1'')]"

definition sample_response :: Msg where
  "sample_response = response 1 ''a'' [(''y'', ''2'')]"

definition sample_server :: BusServer where
  "sample_server = (BusServer_new ''s'')\<lparr>bs_context := (\<lambda>_. Some BusContext_new),
     bs_router := [(''a'', Some 1), (''b'', Some 2)]\<rparr>"

definition sample_callee :: "nat BusClient" where
  "sample_callee = (BusClient_new ''b'' 0)\<lparr>cl_service :=
     \<lparr>svc_name = ''b'', svc_methods = [(''inc'', \<lambda>n i out. Inr (In_set out ''y'' ''2'', n + 1))]\<rparr>\<rparr>"

lemmas msg_eval = sendable_def JsonPacker_Pack_def pack_json_eq msg_json_def param_json_def dump_eval
  request_def response_def msg_ok_def map_ok_def

lemma sample_sendable: "\<exists>b. sendable sample_request b" "\<exists>b. sendable sample_response b"
  by (simp_all add: msg_eval sample_request_def sample_response_def)

theorem remote_call_witness:
  "\<exists>A1 f1 sv1 sb1 B1 bB f2 sv2 sb2 A2 bA H.
    Client_Call (BusClient_new ''a'' ()) 9 ''b/inc'' (In_set In_new ''x'' ''1'') True =
      (A1, Inr (OkStatus, Some f1)) \<and>
    server_gets sample_server 1 (Buffer_new 16) f1 = Inr (sv1, sb1, [(2, f1)]) \<and>
    client_gets sample_callee (Buffer_new 16) f1 = Inr (B1, bB, [f2]) \<and> cl_env B1 = 1 \<and>
    server_gets sv1 2 (Buffer_new 16) f2 = Inr (sv2, sb2, [(1, f2)]) \<and>
    client_gets A1 (Buffer_new 16) f2 = Inr (A2, bA, []) \<and>
    Call_finish (cl_results A2) 9 = Some (\<lparr>in_conn = None, in_values = [(''y'', ''2'')]\<rparr>, H)"
proof -
  have m: "map_ok [(''y'' :: string, ''2'' :: string)]" by (simp add: map_ok_def)
  obtain b1 b2 where r: "sendable (request (iv_next_id (cl_invoker (BusClient_new ''a'' ())))
      (iv_name (cl_invoker (BusClient_new ''a'' ()))) ''b'' ''inc'' (in_values (In_set In_new ''x'' ''1''))) b1"
    "sendable (response (iv_next_id (cl_invoker (BusClient_new ''a'' ())))
      (iv_name (cl_invoker (BusClient_new ''a'' ()))) (in_values (In_set In_new ''y'' ''2''))) b2"
    using sample_sendable
    by (auto simp: sample_request_def sample_response_def BusClient_new_def BusInvoker_new_def In_set_def In_new_def)
  have reach: "iv_reach ''a'' SendMessage_bytes (cl_invoker (BusClient_new ''a'' ()))
      (cl_results (BusClient_new ''a'' ()))"
    using iv_reach.start by (simp add: BusClient_new_def)
  show ?thesis
    using remote_call [where A = "BusClient_new ''a'' ()" and a = 9 and bufA = "Buffer_new 16"
        and B = sample_callee and q = "''inc''" and bufB = "Buffer_new 16" and out = "In_set In_new ''y'' ''2''"
        and s' = 1 and sv = sample_server and cA = 1 and sbA = "Buffer_new 16" and cB = 2 and sbB = "Buffer_new 16"
        and p = "''b''", OF reach _ _ _ _ _ _ _ _ _ _ _ _ _ _ _ _ _ _ _ _ r] m
    by (simp add: BusClient_new_def idle_new sample_callee_def
        map_find_def In_set_def In_new_def sample_server_def Router_Find_def BusInvoker_new_def npos_def map_ok_def)
qed

lemma reg_sendable:
  "\<exists>b. sendable (request 1 ''b'' [] ''RegisterService'' [(''ServiceName'', ''b'')]) b"
  "\<exists>b. sendable (response 1 ''b'' []) b"
  by (simp_all add: msg_eval)

text \<open>
  Registration: a client that reports its name over connection \<open>c\<close> gets an answer, and from then
  on requests for that name are forwarded to \<open>c\<close> unchanged; routes of other names stay.
\<close>

theorem register_then_route:
  assumes "sv_reach name sv"
    and "sendable (request n caller '''' ''RegisterService'' [(''ServiceName'', svc)]) b1"
    and "sendable (response n caller []) b2"
    and "bs_context sv c = Some x" "idle x buf"
    and "sendable req b3" "msg_is_request req" "msg_method_provider req = svc" "svc \<noteq> []" "svc \<noteq> ''SvcMgr''"
  shows "\<exists>sv' buf'. server_gets sv c buf (frame b1) = Inr (sv', buf', [(c, frame b2)]) \<and>
    (\<forall>d. Server_HandleMessage sv' (req\<lparr>msg_src := Some d\<rparr>) = Inr (sv', [(c, frame b3)])) \<and>
    (\<forall>s. s \<noteq> svc \<longrightarrow> Router_Find (bs_router sv') s = Router_Find (bs_router sv) s)"
proof -
  let ?req = "request n caller '''' ''RegisterService'' [(''ServiceName'', svc)]"
  have inv: "sv_inv name sv" by (rule sv_reach_inv [OF assms(1)])
  have serve: "ServeMsg (bs_service sv) (bs_router sv) (?req\<lparr>msg_src := Some c\<rparr>) Msg_new =
      Inr (response n caller [], Router_Add (bs_router sv) svc (Some c))"
    using inv by (simp add: sv_inv_def BusServer_new_def AddMethod_def BusService_new_def ServeMsg_def map_find_def
        request_def HandleRegisterMethod_def In_sets_def In_set_def In_new_def In_get_def set_params_def
        Msg_new_def response_def)
  obtain c' buf' where g: "server_gets sv c buf (frame b1) =
      Inr (sv\<lparr>bs_context := (bs_context sv)(c := Some c'), bs_router := Router_Add (bs_router sv) svc (Some c)\<rparr>,
        buf', [(c, frame b2)])"
    by (rule server_hop [OF assms(2,4,5)])
      (use serve in \<open>simp add: Server_HandleMessage_def Server_HandleRequestMessage_def request_def
        SendMessageToConnection_def sendable_bytes [OF assms(3)]\<close>)
  have find: "Router_Find (Router_Add (bs_router sv) svc (Some c)) s =
      (if s = svc then Some c else Router_Find (bs_router sv) s)" for s
    using inv by (simp add: Router_Find_def Router_Add_def sv_inv_def smap_simps)
  let ?sv = "sv\<lparr>bs_context := (bs_context sv)(c := Some c'), bs_router := Router_Add (bs_router sv) svc (Some c)\<rparr>"
  have "Server_HandleMessage ?sv (req\<lparr>msg_src := Some d\<rparr>) = Inr (?sv, [(c, frame b3)])" for d
    by (rule send_forward [OF sendable_src [OF assms(6)]]) (use assms(7-10) find in simp_all)
  then show ?thesis using g find by auto
qed

theorem register_then_route_witness:
  "\<exists>b1 b2 b3 sv' buf'. server_gets (HandleConnection (BusServer_new ''s'') 2 kConnected) 2 (Buffer_new 16)
       (frame b1) = Inr (sv', buf', [(2, frame b2)]) \<and>
     (\<forall>d. Server_HandleMessage sv' (sample_request\<lparr>msg_src := Some d\<rparr>) = Inr (sv', [(2, frame b3)]))"
proof -
  have reach: "sv_reach ''s'' (HandleConnection (BusServer_new ''s'') 2 kConnected)"
    by (intro sv_reach.conn sv_reach.start)
  have ctx: "bs_context (HandleConnection (BusServer_new ''s'') 2 kConnected) 2 = Some BusContext_new"
    by (simp add: HandleConnection_def)
  obtain b1 b2 b3 where b: "sendable (request 1 ''b'' [] ''RegisterService'' [(''ServiceName'', ''b'')]) b1"
    "sendable (response 1 ''b'' []) b2" "sendable sample_request b3" using reg_sendable sample_sendable(1) by blast
  have q: "msg_is_request sample_request" "msg_method_provider sample_request = ''b''" "''b'' \<noteq> ''''" "''b'' \<noteq> ''SvcMgr''"
    by (simp_all add: sample_request_def request_def)
  obtain sv' buf' where "server_gets (HandleConnection (BusServer_new ''s'') 2 kConnected) 2 (Buffer_new 16) (frame b1) = Inr (sv', buf', [(2, frame b2)])"
    "\<forall>d. Server_HandleMessage sv' (sample_request\<lparr>msg_src := Some d\<rparr>) = Inr (sv', [(2, frame b3)])"
    using register_then_route [OF reach b(1,2) ctx idle_new b(3) q, of 16] by blast
  then show ?thesis by blast
qed

text \<open>
  A client that disconnects stays in the routing table: no handler ever gives a context a name,
  so the entry the server removes is the one of the empty name.
\<close>

theorem disconnect_keeps_route:
  assumes "sv_reach name sv" "n \<noteq> []"
  shows "Router_Find (bs_router (HandleConnection sv c kDisconnected)) n = Router_Find (bs_router sv) n"
  using sv_reach_inv [OF assms(1)] assms(2)
  by (auto simp: HandleConnection_def sv_inv_def Router_Find_def Router_Remove_def smap_simps split: option.splits)

theorem disconnect_keeps_route_witness:
  "Router_Find (bs_router (HandleConnection (BusServer_new ''s'') 2 kDisconnected)) ''b'' =
   Router_Find (bs_router (BusServer_new ''s'')) ''b''"
  using disconnect_keeps_route [OF sv_reach.start, of "''b''"] by simp

end
