(* ===== verification/Json_Sound.thy ===== *)
theory Json_Sound
  imports Json_Roundtrip
begin

text \<open>
  What the parser can return: a value of the right type or an exception of the library. No assertion of the
  lexer (\<open>Json_Asserts\<close>), the parser or the builder of values fails, for any input.
\<close>

section \<open>Strings of the lexer\<close>

text \<open>The bytes that \<open>l'\<close> has added to the token buffer of \<open>l\<close> are UTF-8.\<close>

definition adds_utf8 :: "lexer \<Rightarrow> lexer \<Rightarrow> bool" where
  "adds_utf8 l l' \<longleftrightarrow> (\<exists>s. lx_token_buffer l' = lx_token_buffer l @ s \<and> utf8 s)"

lemma adds_utf8_assert [simp]: "adds_utf8 (lx_assert b l) l' = adds_utf8 l l'" "adds_utf8 l (lx_assert b l') = adds_utf8 l l'"
  by (simp_all add: adds_utf8_def)

lemma adds_utf8_trans: "adds_utf8 l l' \<Longrightarrow> adds_utf8 l' l'' \<Longrightarrow> adds_utf8 l l''"
  using utf8_append by (fastforce simp: adds_utf8_def)

lemma adds_utf8_ascii: "0 \<le> c \<Longrightarrow> c < 0x80 \<Longrightarrow> adds_utf8 l (lx_add c l)"
  using utf8_ascii_char [of "to_char_type c"] of_char_to_char [of c] of_char_int [of "to_char_type c"] by (auto simp: adds_utf8_def)

lemma adds_utf8_get: "adds_utf8 l (lx_get l)"
  by (auto simp: adds_utf8_def get_fields)

lemma add_codepoint_utf8: "0 \<le> cp \<Longrightarrow> scalar_cp (nat cp) \<Longrightarrow> adds_utf8 l (add_codepoint cp l)"
  using add_codepoint_encode [of "nat cp" l] utf8_encode_utf8 by (auto simp: adds_utf8_def)

lemma scan_unicode_utf8: "scan_unicode l = (True, l') \<Longrightarrow> adds_utf8 l l'"
proof -
  assume u: "scan_unicode l = (True, l')"
  obtain c1 l1 where l1: "get_codepoint l = (c1, l1)" by fastforce
  obtain c2 l2 where l2: "get_codepoint (lx_get (lx_get l1)) = (c2, l2)" by fastforce
  note r = get_codepoint_range [OF l1] get_codepoint_range [OF l2]
  have buf: "adds_utf8 l l1" "adds_utf8 l1 l2" using r by (auto simp: adds_utf8_def get_fields)
  consider "0 \<le> c1" "c1 < 0xD800 \<or> 0xE000 \<le> c1 \<and> c1 < 0x10000" "l' = add_codepoint c1 (lx_assert (0 \<le> c1 \<and> c1 \<le> 0x10FFFF) l1)"
    | "0xD800 \<le> c1" "c1 \<le> 0xDBFF" "0xDC00 \<le> c2" "c2 \<le> 0xDFFF" 
        "\<exists>b. l' = add_codepoint (push_bit 10 c1 + c2 - 0x35FDC00) (lx_assert b l2)"
    using u l1 l2 r by (auto simp: scan_unicode_def add_checked_def Let_def split: if_splits)
  then show ?thesis
  proof cases
    case 1
    then have "scalar_cp (nat c1)" by (auto simp: scalar_cp_def)
    then have "adds_utf8 (lx_assert b l1) (add_codepoint c1 (lx_assert b l1))" for b
      by (rule add_codepoint_utf8 [OF 1(1)])
    then have "adds_utf8 l1 l'" unfolding 1(3) by simp
    then show ?thesis using buf adds_utf8_trans by blast
  next
    case 2
    have "0 \<le> push_bit 10 c1 + c2 - 0x35FDC00" "scalar_cp (nat (push_bit 10 c1 + c2 - 0x35FDC00))"
      using 2 by (auto simp: push_bit_eq_mult scalar_cp_def)
    then have "adds_utf8 (lx_assert b l2) (add_codepoint (push_bit 10 c1 + c2 - 0x35FDC00) (lx_assert b l2))" for b
      by (rule add_codepoint_utf8)
    then show ?thesis using 2(5) buf adds_utf8_trans by auto
  qed
qed

lemma scan_escape_utf8: "scan_escape l = (True, l') \<Longrightarrow> adds_utf8 l l'"
proof -
  assume e: "scan_escape l = (True, l')"
  then have "adds_utf8 (lx_get l) l'"
    by (auto simp: scan_escape_def Let_def split: if_splits intro: adds_utf8_ascii scan_unicode_utf8)
  then show ?thesis using adds_utf8_get adds_utf8_trans by blast
qed

lemma in_range_loop_bytes:
  "in_range_loop rs l = (True, l') \<Longrightarrow> (\<And>lo hi. (lo, hi) \<in> set rs \<Longrightarrow> 0 \<le> lo \<and> hi < 256) \<Longrightarrow>
   \<exists>s. lx_token_buffer l' = lx_token_buffer l @ s \<and> list_all2 in_range rs (map of_char s)"
proof (induction rs l rule: in_range_loop.induct)
  case (2 lo hi rs l)
  let ?c = "lx_current (lx_get l)"
  have c: "lo \<le> ?c" "?c \<le> hi" and l': "in_range_loop rs (lx_add ?c (lx_get l)) = (True, l')"
    using 2(2) by (auto simp: Let_def split: if_splits)
  have "0 \<le> lo" "hi < 256" using 2(3) [of lo hi] by auto
  then have "(of_char (to_char_type ?c) :: int) = ?c" using of_char_to_char [of ?c] c by simp
  then have "in_range (lo, hi) (of_char (to_char_type ?c))" using c by (simp add: in_range_def of_char_int)
  moreover obtain s where "lx_token_buffer l' = lx_token_buffer (lx_add ?c (lx_get l)) @ s" "list_all2 in_range rs (map of_char s)"
    using 2(1) [OF refl _ l'] c 2(3) by auto
  ultimately show ?case by (intro exI [of _ "to_char_type ?c # s"]) (simp add: get_fields)
qed simp

lemma utf8_ranges_bytes: "utf8_ranges c = Some rs \<Longrightarrow> 0xC2 \<le> c \<and> c < 0xF5 \<and> (\<forall>(lo, hi) \<in> set rs. 0 \<le> lo \<and> hi < 256)"
  by (auto simp: utf8_ranges_def split: if_splits)

lemma next_byte_in_range_utf8:
  assumes "next_byte_in_range rs l = (True, l')" "utf8_ranges (lx_current l) = Some rs"
  shows "adds_utf8 l l'"
proof -
  let ?c = "to_char_type (lx_current l)"
  note r = utf8_ranges_bytes [OF assms(2)]
  then have "byte_ranges (of_char ?c) = Some rs"
    using of_char_to_char [of "lx_current l"] of_char_int [of ?c] assms(2) by (simp add: byte_ranges_def)
  moreover obtain s where s: "lx_token_buffer l' = lx_token_buffer l @ ?c # s" "list_all2 in_range rs (map of_char s)"
    using in_range_loop_bytes [of rs "lx_add (lx_current l) (lx_assert (length rs = 1 \<or> length rs = 2 \<or> length rs = 3) l)" l']
      assms(1) r by (auto simp: next_byte_in_range_def Let_def)
  moreover have "utf8_from rs s" using s(2) unfolding utf8_from_def by (metis append_Nil2 utf8_Nil)
  ultimately show ?thesis using utf8_from_lead by (auto simp: adds_utf8_def)
qed

lemma scan_string_loop_utf8: "scan_string_loop l = (value_string, l') \<Longrightarrow> adds_utf8 l l'"
proof (induction l rule: scan_string_loop.induct)
  case (1 l)
  let ?l = "lx_get l"
  let ?c = "lx_current ?l"
  obtain e l1 where e: "scan_escape ?l = (e, l1)" by fastforce
  obtain n l2 where n: "next_byte_in_range (the (utf8_ranges ?c)) ?l = (n, l2)" by fastforce
  have eq: "(if ?c = eof then (parse_error, lx_error ''invalid string: missing closing quote'' ?l)
      else if ?c = 0x22 then (value_string, ?l)
      else if ?c = 0x5C then (if e then scan_string_loop l1 else (parse_error, l1))
      else if ?c \<le> 0x1F then (parse_error, lx_error (ctl_message (nat ?c)) ?l)
      else if ?c \<le> 0x7F then scan_string_loop (lx_add ?c ?l)
      else case utf8_ranges ?c of
          Some ranges \<Rightarrow> if n then scan_string_loop l2 else (parse_error, l2)
        | None \<Rightarrow> (parse_error, lx_error ''invalid string: ill-formed UTF-8 byte'' ?l)) = (value_string, l')"
    using 1(4) unfolding scan_string_loop.simps [of l] Let_def e case_prod_conv
    using n by (cases "utf8_ranges ?c") (simp_all only: option.case option.sel case_prod_conv)
  have "adds_utf8 ?l l'"
  proof (cases "?c = eof \<or> ?c = 0x22 \<or> ?c = 0x5C \<or> ?c \<le> 0x1F \<or> 0x7F < ?c")
    case False
    then have "adds_utf8 (lx_add ?c ?l) l'" using eq 1(2) [OF refl refl] by auto
    moreover have "adds_utf8 ?l (lx_add ?c ?l)" using False by (intro adds_utf8_ascii) auto
    ultimately show ?thesis using adds_utf8_trans by blast
  next
    case True
    then consider "?c = 0x22" "l' = ?l" | "?c \<noteq> eof" "?c \<noteq> 0x22" "?c = 0x5C" "e" "scan_string_loop l1 = (value_string, l')"
      | rs where "utf8_ranges ?c = Some rs" "n" "scan_string_loop l2 = (value_string, l')"
          "?c \<noteq> eof" "?c \<noteq> 0x22" "?c \<noteq> 0x5C" "\<not> ?c \<le> 0x1F" "\<not> ?c \<le> 0x7F"
      using eq by (auto split: if_splits option.splits)
    then show ?thesis
    proof cases
      case 1
      then show ?thesis by (auto simp: adds_utf8_def)
    next
      case 2
      then have "adds_utf8 l1 l'" using "1.IH"(1) [OF refl refl _ _ _ e [symmetric]] by auto
      moreover have "adds_utf8 ?l l1" using scan_escape_utf8 [of ?l l1] e 2(4) by simp
      ultimately show ?thesis using adds_utf8_trans by blast
    next
      case 3
      then have "adds_utf8 l2 l'" using "1.IH"(3) [OF refl refl _ _ _ _ _ 3(1)] n by auto
      moreover have "adds_utf8 ?l l2" using next_byte_in_range_utf8 [of rs ?l l2] n 3(1,2) by simp
      ultimately show ?thesis using adds_utf8_trans by blast
    qed
  qed
  then show ?case using adds_utf8_get adds_utf8_trans by blast
qed

lemma scan_string_utf8: "scan_string l = (value_string, l') \<Longrightarrow> utf8 (lx_token_buffer l')"
  using scan_string_loop_utf8 [of "lx_assert (lx_current l = 0x22) (lx_reset l)" l'] by (auto simp: scan_string_def Let_def adds_utf8_def)

section \<open>Tokens\<close>

text \<open>What a token promises about the value that the lexer holds for it.\<close>

definition token_ok :: "token_type \<times> lexer \<Rightarrow> bool" where
  "token_ok x \<longleftrightarrow> (case x of (t, l) \<Rightarrow>
     (t = value_string \<longrightarrow> utf8 (lx_token_buffer l)) \<and>
     (t = value_integer \<longrightarrow> - (2 ^ 63) \<le> lx_value_integer l \<and> lx_value_integer l \<le> 0) \<and>
     (t = value_unsigned \<longrightarrow> lx_value_unsigned l < 2 ^ 64))"

lemma token_ok_other: "t \<noteq> value_string \<Longrightarrow> t \<noteq> value_integer \<Longrightarrow> t \<noteq> value_unsigned \<Longrightarrow> token_ok (t, l)"
  by (simp add: token_ok_def)

lemma scan_number_done_typed: "token_ok (scan_number_done nt l)"
  by (auto simp: scan_number_done_def Let_def token_ok_def)

lemma scan_number_typed: "token_ok (scan_number l)"
  using scan_number_done_typed by (auto simp: scan_number_def Let_def token_ok_other split: prod.splits option.splits)

lemma scan_literal_typed: "t \<in> {literal_true, literal_false, literal_null} \<Longrightarrow> token_ok (scan_literal s t l)"
proof -
  assume t: "t \<in> {literal_true, literal_false, literal_null}"
  have "token_ok (scan_literal_loop s t l)" for s l
    using t by (induction s t l rule: scan_literal_loop.induct) (auto simp: Let_def token_ok_other)
  then show ?thesis by (simp add: scan_literal_def Let_def)
qed

lemma scan_string_ok: "token_ok (scan_string l)"
proof -
  obtain t l' where s: "scan_string l = (t, l')" by fastforce
  have "scan_string_loop l = (t, l') \<Longrightarrow> t \<in> {value_string, parse_error}" for l
  proof (induction l rule: scan_string_loop.induct)
    case (1 l)
    then show ?case by (subst (asm) (4) scan_string_loop.simps) (auto simp: Let_def split: if_splits option.splits prod.splits)
  qed
  then have "t \<in> {value_string, parse_error}" using s by (simp add: scan_string_def Let_def)
  then show ?thesis using scan_string_utf8 s by (auto simp: token_ok_def)
qed

lemma scan_token_ok: "token_ok (scan_token l)"
  by (simp add: scan_token_def Let_def token_ok_other scan_literal_typed scan_string_ok scan_number_typed)

lemma lx_scan_ok: "token_ok (lx_scan l)"
  using scan_token_ok by (auto simp: lx_scan_def token_ok_other split: prod.splits)

section \<open>The value under construction\<close>

lemma map_set_in: "(k, v) \<in> set (map_set m k' v') \<Longrightarrow> (k, v) = (k', v') \<or> (k, v) \<in> set m"
  by (induction m k' v' rule: map_set.induct) (auto split: if_splits)

lemma json_write_typed: "json_ok j \<Longrightarrow> (\<And>x. json_ok x \<Longrightarrow> json_ok (f x)) \<Longrightarrow> json_ok (json_write p f j)"
proof (induction p f j rule: json_write.induct)
  case (2 i p f js)
  then show ?case by (auto dest!: set_update_subset_insert [THEN subsetD])
next
  case (3 k p f kvs)
  show ?case
  proof (cases "map_find kvs k")
    case (Some v)
    then have "utf8 k" "json_ok v" using map_find_in [OF Some] 3(2) by auto
    then show ?thesis using 3 Some by (auto dest!: map_set_in simp: map_set_ok)
  qed (use 3 in simp)
qed auto

lemma json_get_typed: "json_ok j \<Longrightarrow> path_ok p j \<Longrightarrow> json_ok (json_get p j)"
  by (induction p j rule: path_ok.induct) (fastforce dest: map_find_in)+

text \<open>The kinds of the containers that the stack points to.\<close>

definition kind_ok :: "json \<Rightarrow> path \<Rightarrow> bool \<Rightarrow> bool" where
  "kind_ok rt p b \<longleftrightarrow> path_ok p rt \<and> (if b then is_array (json_get p rt) else is_object (json_get p rt))"

lemma json_write_kind: "r \<noteq> [] \<Longrightarrow> is_array (json_write r f x) = is_array x \<and> is_object (json_write r f x) = is_object x"
  by (cases r; cases "hd r"; cases x) (auto simp: is_array_def is_object_def split: option.splits)

text \<open>A write below a container, or one that keeps its kind, keeps the containers above.\<close>

lemma kind_ok_write:
  assumes "kind_ok rt q b" "r \<noteq> [] \<or> (\<forall>x. is_array (f x) = is_array x \<and> is_object (f x) = is_object x)"
  shows "kind_ok (json_write (q @ r) f rt) q b"
proof -
  have p: "path_ok q rt" using assms(1) by (simp add: kind_ok_def)
  have "json_get q (json_write (q @ r) f rt) = json_write r f (json_get q rt)"
    using path_get_write [OF p] by (simp add: path_write_append)
  moreover have "path_ok q (json_write (q @ r) f rt)" using path_ok_write [OF p] by (simp add: path_write_append)
  moreover have "is_array (json_write r f x) = is_array x \<and> is_object (json_write r f x) = is_object x" for x
    using assms(2) json_write_kind [of r f x] by (cases "r = []") auto
  ultimately show ?thesis using assms(1) by (simp add: kind_ok_def)
qed

definition encloses :: "path \<Rightarrow> path \<Rightarrow> bool" where
  "encloses p q \<longleftrightarrow> (\<exists>r. q = p @ r)"

definition dom_ok :: "dom \<Rightarrow> bool list \<Rightarrow> bool" where
  "dom_ok d states \<longleftrightarrow> json_ok (sx_root d) \<and> list_all2 (kind_ok (sx_root d)) (sx_ref_stack d) states \<and>
     sorted_wrt encloses (sx_ref_stack d)"

text \<open>A value may come next: in an object its place is known.\<close>

definition dom_ready :: "dom \<Rightarrow> bool list \<Rightarrow> bool" where
  "dom_ready d states \<longleftrightarrow> dom_ok d states \<and>
     (states \<noteq> [] \<and> \<not> last states \<longrightarrow>
        (\<exists>k. sx_object_element d = Some (last (sx_ref_stack d) @ [SKey k]) \<and>
           path_ok (last (sx_ref_stack d) @ [SKey k]) (sx_root d)))"

lemma dom_ready_array: "dom_ok d states \<Longrightarrow> states = [] \<or> last states \<Longrightarrow> dom_ready d states"
  by (auto simp: dom_ready_def)

lemma dom_ok_last:
  assumes "dom_ok d states" "states \<noteq> []"
  shows "sx_ref_stack d \<noteq> []" "kind_ok (sx_root d) (last (sx_ref_stack d)) (last states)"
    "\<forall>q \<in> set (sx_ref_stack d). encloses q (last (sx_ref_stack d))"
proof -
  let ?rs = "sx_ref_stack d"
  have a: "list_all2 (kind_ok (sx_root d)) ?rs states" "sorted_wrt encloses ?rs" using assms(1) by (simp_all add: dom_ok_def)
  then have n: "?rs \<noteq> []" using assms(2) by auto
  then obtain xs x where xs: "?rs = xs @ [x]" by (metis append_butlast_last_id)
  obtain ys y where ys: "states = ys @ [y]" using assms(2) by (metis append_butlast_last_id)
  show "?rs \<noteq> []" by (rule n)
  show "kind_ok (sx_root d) (last ?rs) (last states)" using a(1) list_all2_lengthD [OF a(1)] by (simp add: xs ys list_all2_append)
  show "\<forall>q \<in> set ?rs. encloses q (last ?rs)" using a(2) by (auto simp: xs sorted_wrt_append encloses_def)
qed

lemma dom_ok_write:
  assumes "dom_ok d states" "\<And>x. json_ok x \<Longrightarrow> json_ok (f x)"
    and "\<And>q. q \<in> set (sx_ref_stack d) \<Longrightarrow>
      \<exists>r. p = q @ r \<and> (r \<noteq> [] \<or> (\<forall>x. is_array (f x) = is_array x \<and> is_object (f x) = is_object x))"
  shows "dom_ok (d\<lparr>sx_root := json_write p f (sx_root d)\<rparr>) states"
proof -
  have "kind_ok (json_write p f (sx_root d)) q b" if "q \<in> set (sx_ref_stack d)" "kind_ok (sx_root d) q b" for q b
    using assms(3) [OF that(1)] kind_ok_write [OF that(2)] by metis
  then have "list_all2 (kind_ok (json_write p f (sx_root d))) (sx_ref_stack d) states"
    using assms(1) by (auto simp: dom_ok_def elim!: list.rel_mono_strong)
  then show ?thesis using assms(1,2) json_write_typed by (auto simp: dom_ok_def)
qed

lemma handle_value_ok:
  assumes "dom_ready d states" "json_ok v"
  obtains p d' where "handle_value v d = Inr (p, d')" "dom_ok d' states" "sx_ref_stack d' = sx_ref_stack d"
    "path_ok p (sx_root d')" "json_get p (sx_root d') = v" "\<forall>q \<in> set (sx_ref_stack d). encloses q p"
proof (cases "states = []")
  case True
  then have "sx_ref_stack d = []" using assms(1) by (simp add: dom_ready_def dom_ok_def)
  then show ?thesis using that [of "[]" "d\<lparr>sx_root := v\<rparr>"] assms(2) True by (simp add: handle_value_def dom_ok_def)
next
  case False
  have ok: "dom_ok d states" using assms(1) by (simp add: dom_ready_def)
  note l = dom_ok_last [OF ok False]
  let ?p = "last (sx_ref_stack d)"
  have pp: "path_ok ?p (sx_root d)" using l(2) by (simp add: kind_ok_def)
  show ?thesis
  proof (cases "last states")
    case True
    then obtain js where js: "json_get ?p (sx_root d) = JArray js"
      using l(2) by (auto simp: kind_ok_def is_array_def split: json.splits)
    let ?d = "d\<lparr>sx_root := json_write ?p (emplace_back v) (sx_root d)\<rparr>"
    have kind: "is_array (emplace_back v x) = is_array x \<and> is_object (emplace_back v x) = is_object x" for x
      by (cases x) (simp_all add: is_array_def is_object_def)
    have typed: "json_ok (emplace_back v x)" if "json_ok x" for x using that assms(2) by (cases x) auto
    have d: "dom_ok ?d states" by (rule dom_ok_write [OF ok typed]) (use l(3) kind in \<open>auto simp: encloses_def\<close>)
    have g: "json_get ?p (sx_root ?d) = JArray (js @ [v])" using path_get_write [OF pp] js by simp
    have q: "path_ok (?p @ [SIndex (length js)]) (sx_root ?d)" "json_get (?p @ [SIndex (length js)]) (sx_root ?d) = v"
      using path_ok_write [OF pp] g by (simp_all add: path_ok_append path_get_append)
    have h: "handle_value v d = Inr (?p @ [SIndex (length js)], ?d)" using l(1) js by (simp add: handle_value_def Let_def)
    show ?thesis by (rule that [OF h d _ q]) (use l(3) in \<open>auto simp: encloses_def\<close>)
  next
    case F: False
    then obtain kvs where kvs: "json_get ?p (sx_root d) = JObject kvs"
      using l(2) by (auto simp: kind_ok_def is_object_def split: json.splits)
    obtain k where k: "sx_object_element d = Some (?p @ [SKey k])" "path_ok (?p @ [SKey k]) (sx_root d)"
      using assms(1) False F by (auto simp: dom_ready_def)
    let ?d = "d\<lparr>sx_root := json_write (?p @ [SKey k]) (\<lambda>_. v) (sx_root d)\<rparr>"
    have d: "dom_ok ?d states" by (rule dom_ok_write [OF ok]) (use l(3) assms(2) in \<open>auto simp: encloses_def\<close>)
    have q: "path_ok (?p @ [SKey k]) (sx_root ?d)" "json_get (?p @ [SKey k]) (sx_root ?d) = v"
      using path_ok_write [OF k(2)] path_get_write [OF k(2)] by simp_all
    have h: "handle_value v d = Inr (?p @ [SKey k], ?d)" using l(1) kvs k(1) by (simp add: handle_value_def Let_def)
    show ?thesis by (rule that [OF h d _ q]) (use l(3) in \<open>auto simp: encloses_def\<close>)
  qed
qed

lemma dom_value_ok:
  assumes "dom_ready d states" "json_ok v"
  shows "\<exists>d'. dom_value v d = Inr d' \<and> dom_ok d' states"
  by (rule handle_value_ok [OF assms]) (simp add: dom_value_def)

lemma dom_ok_push:
  assumes "dom_ok d states" "kind_ok (sx_root d) p b" "\<forall>q \<in> set (sx_ref_stack d). encloses q p"
  shows "dom_ok (d\<lparr>sx_ref_stack := sx_ref_stack d @ [p]\<rparr>) (states @ [b])"
  using assms list_all2_lengthD [of _ "sx_ref_stack d" states] by (auto simp: dom_ok_def sorted_wrt_append list_all2_append)

lemma sax_start_ok:
  assumes "dom_ready d states"
  shows "\<exists>d'. sax_start_object d = Inr d' \<and> dom_ok d' (states @ [False])"
    "\<exists>d'. sax_start_array d = Inr d' \<and> dom_ok d' (states @ [True])"
proof -
  show "\<exists>d'. sax_start_object d = Inr d' \<and> dom_ok d' (states @ [False])"
  proof (rule handle_value_ok [OF assms, of "JObject []"])
    fix p d'
    assume "handle_value (JObject []) d = Inr (p, d')" "dom_ok d' states" "sx_ref_stack d' = sx_ref_stack d"
      "path_ok p (sx_root d')" "json_get p (sx_root d') = JObject []" "\<forall>q \<in> set (sx_ref_stack d). encloses q p"
    then show ?thesis using dom_ok_push [of d' states p False] by (simp add: sax_start_object_def kind_ok_def is_object_def)
  qed (simp add: map_ok_def)
  show "\<exists>d'. sax_start_array d = Inr d' \<and> dom_ok d' (states @ [True])"
  proof (rule handle_value_ok [OF assms, of "JArray []"])
    fix p d'
    assume "handle_value (JArray []) d = Inr (p, d')" "dom_ok d' states" "sx_ref_stack d' = sx_ref_stack d"
      "path_ok p (sx_root d')" "json_get p (sx_root d') = JArray []" "\<forall>q \<in> set (sx_ref_stack d). encloses q p"
    then show ?thesis using dom_ok_push [of d' states p True] by (simp add: sax_start_array_def kind_ok_def is_array_def)
  qed simp
qed

lemma dom_ok_pop: "dom_ok d states \<Longrightarrow> dom_ok (d\<lparr>sx_ref_stack := butlast (sx_ref_stack d)\<rparr>) (butlast states)"
  by (auto simp: dom_ok_def butlast_conv_take sorted_wrt_take list_all2_lengthD intro: list_all2_takeI)

lemma sax_end_ok:
  assumes "dom_ok d states" "states \<noteq> []"
  shows "\<not> last states \<Longrightarrow> \<exists>d'. sax_end_object d = Inr d' \<and> dom_ok d' (butlast states)"
    "last states \<Longrightarrow> \<exists>d'. sax_end_array d = Inr d' \<and> dom_ok d' (butlast states)"
  using dom_ok_last [OF assms] dom_ok_pop [OF assms(1)]
  by (simp_all add: sax_end_object_def sax_end_array_def kind_ok_def)

lemma dom_key_ok:
  assumes "dom_ok d states" "states \<noteq> []" "\<not> last states" "utf8 k"
  shows "\<exists>d'. dom_key k d = Inr d' \<and> dom_ready d' states"
proof -
  note l = dom_ok_last [OF assms(1,2)]
  let ?p = "last (sx_ref_stack d)"
  have pp: "path_ok ?p (sx_root d)" and o: "is_object (json_get ?p (sx_root d))" using l(2) assms(3) by (simp_all add: kind_ok_def)
  have kind: "is_array (add_key k x) = is_array x \<and> is_object (add_key k x) = is_object x" for x
    by (cases x) (simp_all add: is_array_def is_object_def)
  have typed: "json_ok (add_key k x)" if "json_ok x" for x
    using that assms(4) by (cases x) (auto simp: map_insert_def map_set_ok dest!: map_set_in)
  let ?d = "d\<lparr>sx_root := json_write ?p (add_key k) (sx_root d)\<rparr>"
  have ok: "dom_ok ?d states" by (rule dom_ok_write [OF assms(1) typed]) (use l(3) kind in \<open>auto simp: encloses_def\<close>)
  have "json_ok (json_get ?p (sx_root d))" using json_get_typed [OF _ pp] assms(1) by (simp add: dom_ok_def)
  then have "path_ok [SKey k] (json_get ?p (sx_root ?d))"
    using path_get_write [OF pp, of "add_key k"] o by (auto simp: is_object_def map_find_insert map_insert_ok split: json.splits)
  then have "path_ok (?p @ [SKey k]) (sx_root ?d)" using path_ok_write [OF pp] by (simp add: path_ok_append)
  then show ?thesis using l(1) o ok by (auto simp: dom_key_def Let_def dom_ready_def dom_ok_def)
qed

section \<open>The loop\<close>

definition parser_ok :: "parser \<Rightarrow> bool" where
  "parser_ok p \<longleftrightarrow> token_ok (ps_last_token p, ps_lexer p) \<and> \<not> lx_failed (ps_lexer p)"

lemma get_token_ok: "\<not> lx_failed (ps_lexer p) \<Longrightarrow> parser_ok (get_token p)"
  using lx_scan_ok [of "ps_lexer p"] get_token_failed [of p] by (auto simp: parser_ok_def get_token_def split: prod.splits)

lemma get_token_parser_ok: "parser_ok p \<Longrightarrow> parser_ok (get_token p)"
  by (rule get_token_ok) (simp add: parser_ok_def)

lemma parser_ok_checked [simp]: "parser_ok p \<Longrightarrow> lexer_checked p r = r"
  by (simp add: parser_ok_def lexer_checked_def)

definition json_exn :: "cpp_exn \<Rightarrow> bool" where
  "json_exn e \<longleftrightarrow> (\<exists>w. e = JsonError w)"

lemmas syntax_error_exn = syntax_error_def parse_error_exn_def json_exn_def

definition step_ok :: "((parser \<times> dom) + (parser \<times> dom \<times> bool list \<times> bool)) res \<Rightarrow> bool" where
  "step_ok r \<longleftrightarrow>
     (case r of
        Inl e \<Rightarrow> json_exn e
      | Inr (Inl (p, d)) \<Rightarrow> json_ok (sx_root d)
      | Inr (Inr (p, d, states, skip)) \<Rightarrow> parser_ok p \<and> (if skip then dom_ok d states else dom_ready d states))"

lemma step_ok_simps [simp]:
  "parser_ok p \<Longrightarrow> step_ok (syntax_error p t c)" "step_ok (Inl e) \<longleftrightarrow> json_exn e" "step_ok (Inr (Inl (p, d))) \<longleftrightarrow> json_ok (sx_root d)"
  "step_ok (Inr (Inr (p, d, states, skip))) \<longleftrightarrow> parser_ok p \<and> (if skip then dom_ok d states else dom_ready d states)"
  by (simp_all add: step_ok_def syntax_error_exn)

lemma parse_key_typed:
  assumes "parser_ok p" "dom_ok d states" "states \<noteq> []" "\<not> last states"
  shows "step_ok (bindr (parse_key p d) (\<lambda>(p, d). Inr (Inr (p, d, states, False))))"
proof (cases "ps_last_token p = value_string")
  case True
  then have "utf8 (lx_token_buffer (ps_lexer p))" using assms(1) by (simp add: parser_ok_def token_ok_def)
  then obtain d' where "dom_key (lx_token_buffer (ps_lexer p)) d = Inr d'" "dom_ready d' states" using dom_key_ok [OF assms(2-4)] by blast
  then show ?thesis
    using True assms(1) get_token_parser_ok get_token_parser_ok [OF get_token_parser_ok]
    by (simp add: parse_key_def Let_def syntax_error_exn)
next
  case False
  then show ?thesis using assms(1) by (simp add: parse_key_def syntax_error_exn)
qed

lemma state_evaluation_ok:
  assumes "dom_ok d states" "parser_ok p"
  shows "step_ok (state_evaluation p d states)"
proof (cases "states = []")
  case True
  then show ?thesis using assms by (simp add: state_evaluation_def dom_ok_def)
next
  case False
  note tok = assms(2) get_token_parser_ok [OF assms(2)] get_token_parser_ok [OF get_token_parser_ok [OF assms(2)]]
  show ?thesis
  proof (cases "last states")
    case True
    obtain d' where "sax_end_array d = Inr d'" "dom_ok d' (butlast states)" using sax_end_ok(2) [OF assms(1) False True] by blast
    then show ?thesis using False True assms(1) dom_ready_array tok by (simp add: state_evaluation_def Let_def)
  next
    case F: False
    obtain d' where "sax_end_object d = Inr d'" "dom_ok d' (butlast states)" using sax_end_ok(1) [OF assms(1) False F] by blast
    then show ?thesis
      using False F parse_key_typed [OF tok(3) assms(1) False F] tok by (simp add: state_evaluation_def Let_def)
  qed
qed

lemma scalar_value_typed:
  assumes "parser_ok p" "scalar_value p = Some v" "ps_last_token p = value_float \<Longrightarrow> isfinite (lx_value_float (ps_lexer p))"
  shows "json_ok v"
  using assms by (auto simp: scalar_value_def parser_ok_def token_ok_def split: token_type.splits)

lemma sax_parse_step_ok:
  assumes "parser_ok p" "if skip then dom_ok d states else dom_ready d states"
  shows "step_ok (sax_parse_step p d states skip)"
proof (cases skip)
  case True
  then show ?thesis using assms state_evaluation_ok by (simp add: sax_parse_step_def)
next
  case False
  then have r: "dom_ready d states" using assms(2) by simp
  obtain d1 where d1: "sax_start_object d = Inr d1" "dom_ok d1 (states @ [False])" using sax_start_ok(1) [OF r] by blast
  obtain d2 where d2: "sax_start_array d = Inr d2" "dom_ok d2 (states @ [True])" using sax_start_ok(2) [OF r] by blast
  obtain e1 where e1: "sax_end_object d1 = Inr e1" "dom_ok e1 states" using sax_end_ok(1) [OF d1(2)] by auto
  obtain e2 where e2: "sax_end_array d2 = Inr e2" "dom_ok e2 states" using sax_end_ok(2) [OF d2(2)] by auto
  note tok = assms(1) get_token_parser_ok [OF assms(1)]
  note more = parse_key_typed [OF tok(2) d1(2)] state_evaluation_ok [OF e1(2) tok(2)] state_evaluation_ok [OF e2(2) tok(2)]
    dom_ready_array [OF d2(2)] tok
  have val: "step_ok (bindr (dom_value v d) (\<lambda>d. state_evaluation p d states))"
    if "scalar_value p = Some v" "ps_last_token p = value_float \<Longrightarrow> isfinite (lx_value_float (ps_lexer p))" for v
    using dom_value_ok [OF r scalar_value_typed [OF assms(1) that]] state_evaluation_ok [OF _ assms(1)] by auto
  have "json_exn (out_of_range n w)" for n w by (simp add: out_of_range_def json_exn_def)
  then show ?thesis
    using False d1(1) d2(1) e1(1) e2(1) more val
    by (auto simp: sax_parse_step_def Let_def split: option.splits)
qed

lemma sax_parse_internal_ok:
  "parser_ok p \<Longrightarrow> (if skip then dom_ok d states else dom_ready d states) \<Longrightarrow>
   case sax_parse_internal p d states skip of Inl e \<Rightarrow> json_exn e | Inr (p', d') \<Rightarrow> json_ok (sx_root d')"
proof (induction p d states skip rule: sax_parse_internal.induct)
  case (1 p d states skip)
  have ok: "step_ok (sax_parse_step p d states skip)" using sax_parse_step_ok [OF 1(2,3)] .
  show ?case
  proof (cases "\<exists>x. sax_parse_step p d states skip = Inr (Inr x)")
    case True
    then obtain p1 d1 st1 sk1 where s1: "sax_parse_step p d states skip = Inr (Inr (p1, d1, st1, sk1))" by auto
    then have "parser_ok p1" "if sk1 then dom_ok d1 st1 else dom_ready d1 st1" using ok by simp_all
    then show ?thesis using 1(1) [OF s1 refl refl refl refl] s1 by (subst sax_parse_internal.simps) simp
  next
    case False
    then show ?thesis using ok by (subst sax_parse_internal.simps) (auto simp: step_ok_def split: sum.splits)
  qed
qed

lemma json_parse_result: "case json_parse s of Inl e \<Rightarrow> json_exn e | Inr j \<Rightarrow> json_ok j"
proof -
  have r: "dom_ready dom_new []" by (simp add: dom_ready_def dom_ok_def dom_new_def)
  have "parser_ok (parser_new s False)"
    unfolding parser_new_def by (rule get_token_ok) (simp add: lexer_new_def)
  note ok = sax_parse_internal_ok [of "parser_new s False" False dom_new "[]", OF this]
  show ?thesis
  proof (cases "sax_parse_internal (parser_new s False) dom_new [] False")
    case (Inl e)
    then show ?thesis using ok r by (simp add: json_parse_def parser_parse_strict_def)
  next
    case (Inr x)
    obtain p d where x: "x = (p, d)" by fastforce
    have c: "lexer_checked (get_token p) y = y" for y :: "json res"
      by (rule parser_end_checked [OF Inr [unfolded x]])
    show ?thesis
      using ok r Inr x by (simp add: json_parse_def parser_parse_strict_def Let_def syntax_error_exn c)
  qed
qed

lemma json_parse_ok: "json_parse s = Inr j \<Longrightarrow> json_ok j"
  using json_parse_result [of s] by simp

section \<open>Indentation\<close>

text \<open>
  The indentation string is doubled once where a level needs more of it, which is enough up to a step of 512.
  A step above 1025 makes the serializer read behind its terminating NUL.
\<close>

lemma dump_large_indent:
  assumes "1025 < indent" "indent < 2 ^ 32"
  shows "json_dump indent c ea eh (JArray [j]) = Inl UndefinedBehaviour"
proof -
  have "u32 (nat indent) = nat indent" using assms by (simp add: u32_def nat_less_iff)
  moreover have "\<not> nat indent \<le> 1025" "0 \<le> indent" using assms(1) by simp_all
  ultimately show ?thesis by (auto simp: json_dump_def dump_brackets_def write_indent_def grow_indent_def Let_def)
qed

section \<open>Properties\<close>

text \<open>
  C12. Type safety of the parser, for any bytes: \<open>json::parse\<close> throws an exception of the library or returns a
  value in which the keys of every object are in order and distinct, all keys and strings are UTF-8, integers are in the
  range of their type and floating-point numbers are finite. No assertion on the way fails: those of the lexer (code
  points, \<open>unget\<close>, the bounds of the byte ranges, the end pointer of \<open>strtoull\<close>, \<open>strtoll\<close> and \<open>strtod\<close>), of the parser and of its
  handler are part of the model and would end the parse with another error; nor does an access leave its array.
\<close>

theorem json_parse_type_safe:
  "case json_parse s of Inl e \<Rightarrow> \<exists>w. e = JsonError w | Inr j \<Rightarrow> json_ok j"
  using json_parse_result [of s] by (simp add: json_exn_def split: sum.splits)

text \<open>
  C13. The parser accepts JSON: every text of the grammar of RFC 8259, with white space before and behind it, is parsed
  to the value the grammar gives it, but for the two kinds of text that the grammar allows and the code refuses: an
  escape that is half of a surrogate pair without the other half, and a number beyond the range of a \<open>double\<close> (both are
  left out of \<open>json_text\<close>; a string is UTF-8). Strings may be written with any mixture of characters and escapes, a later member
  of an object replaces an earlier one with the same key, and the text may end at a NUL.
\<close>

theorem json_parse_accepts_grammar:
  assumes "json_text j t" and "jws w" and "r = [] \<or> (\<exists>z. r = NUL # z)"
  shows "json_parse (t @ w @ r) = Inr j"
  by (rule json_parse_complete [OF assms])

theorem json_parse_accepts_grammar_witness:
  "json_parse (''{'' @ quote @ ''a'' @ quote @ '' : true, '' @ quote @ ''a'' @ quote @ '':['' @ quote @ [CHR 0x5C] @ ''n'' @ quote @ '']} '') =
     Inr (JObject [(''a'', JArray [JString [CHR 0x0A]])])"
proof -
  have s: "string_body [CHR 0x0A] [CHR 0x5C, CHR ''n'']" using body_short [OF body_end, of "CHR ''n''" "CHR 0x0A"] by (simp add: short_escapes_def)
  have a: "string_body ''a'' ''a''" using body_plain [OF body_end, of "CHR ''a''"] by simp
  have 1: "json_text (JArray [JString [CHR 0x0A]]) (''['' @ [CHR 0x22] @ [CHR 0x5C, CHR ''n''] @ [CHR 0x22] @ '']'')"
    using text_array [OF _ elements_last [OF text_string [OF _ s, of "[]"]], of "[]" "[]"] by simp
  have 2: "members_text [(''a'', JBool True), (''a'', JArray [JString [CHR 0x0A]])]
      ([CHR 0x22] @ ''a'' @ [CHR 0x22] @ '' : true, '' @ [CHR 0x22] @ ''a'' @ [CHR 0x22] @ '':['' @ [CHR 0x22] @ [CHR 0x5C, CHR ''n''] @ [CHR 0x22] @ '']'')"
    using members_more [OF _ a _ text_true [of "'' ''"] _ members_last [OF _ a _ 1, of "'' ''" "[]"], of "[]" "'' ''" "[]"]
    by (simp add: ws_char_def)
  have 3: "json_text (JObject [(''a'', JArray [JString [CHR 0x0A]])]) (''{'' @ ([CHR 0x22] @ ''a'' @ [CHR 0x22] @ '' : true, '' @
      [CHR 0x22] @ ''a'' @ [CHR 0x22] @ '':['' @ [CHR 0x22] @ [CHR 0x5C, CHR ''n''] @ [CHR 0x22] @ '']'') @ ''}'')"
    using text_object [OF _ 2, of "[]" "[]"] by (simp add: object_of_def)
  show ?thesis using json_parse_accepts_grammar [OF 3, of "'' ''" "[]"] by (simp add: ws_char_def quote_def)
qed

text \<open>
  C9. Serializing and parsing are inverse, for every indentation up to 512 and every handler of invalid UTF-8, on every
  value whose strings are UTF-8 and whose numbers are in range, with the ordered keys that \<open>std::map\<close> gives: \<open>dump\<close>
  returns a text, \<open>parse\<close> reads the value back from it. A non-negative signed integer comes back as the unsigned one.
\<close>

theorem json_dump_roundtrip:
  assumes "json_ok j" and "indent \<le> 512" and "ws_char indent_char"
  shows "\<exists>s. json_dump indent indent_char ensure_ascii eh j = Inr s \<and> json_parse s = Inr (json_norm j)"
  using json_dump_parse [OF assms, of "[]"] by simp

theorem json_dump_roundtrip_witness:
  "\<exists>s. json_dump 2 (CHR '' '') True strict (JObject [(''id'', JInt 7), (''k'', JArray [JNull, JString ''x'', JInt (- 1)])]) = Inr s \<and>
     json_parse s = Inr (JObject [(''id'', JUint 7), (''k'', JArray [JNull, JString ''x'', JInt (- 1)])])"
  using json_dump_roundtrip [of "JObject [(''id'', JInt 7), (''k'', JArray [JNull, JString ''x'', JInt (- 1)])]" 2 "CHR '' ''" True strict]
  by (simp add: ws_char_def map_ok_def less_list_code less_char_def)

text \<open>
  C14. What was parsed can be written: for any text that \<open>parse\<close> accepts, however it is written, \<open>dump\<close> succeeds on the
  value and parsing its output gives the same value again (with the integer types as above). Bytes, numbers and
  members that the library accepts are never lost on the way through it.
\<close>

theorem json_parse_dump_parse:
  assumes "json_parse s = Inr j"
  shows "\<exists>t. dump_default j = Inr t \<and> json_parse t = Inr (json_norm j)"
  using dump_default_parse [OF json_parse_ok [OF assms]] by metis

theorem json_parse_dump_parse_witness:
  "\<exists>t. dump_default (JArray [JNull]) = Inr t \<and> json_parse t = Inr (JArray [JNull])"
proof -
  have "json_text (JArray [JNull]) (''[ '' @ ''null'' @ '' ]'')"
    using text_array [OF _ elements_last [OF text_null [of "'' ''"]], of "[]" "'' ''"] by (simp add: ws_char_def)
  from json_parse_complete [OF this, of "[]" "[]"] have "json_parse ''[ null ]'' = Inr (JArray [JNull])" by simp
  from json_parse_dump_parse [OF this] show ?thesis by simp
qed

text \<open>
  C30. Invalid UTF-8: \<open>dump_escaped\<close> with the strict handler returns a text exactly for the strings that are UTF-8
  and throws \<open>type_error.316\<close> for all others; with the handlers \<open>replace\<close> and \<open>ignore\<close> it never throws. In no case is
  a byte written outside the buffer of 512 bytes.
\<close>

theorem dump_escaped_errors:
  "case eh of
     strict \<Rightarrow> (if utf8 s then \<exists>t. dump_escaped eh ensure_ascii s = Inr t else \<exists>w. dump_escaped eh ensure_ascii s = Inl (type_error 316 w))
   | _ \<Rightarrow> \<exists>t. dump_escaped eh ensure_ascii s = Inr t"
  using dump_escaped_strict dump_escaped_lenient by (cases eh) auto

text \<open>
  C31. \<open>dump_integer\<close>, which fills its buffer two digits at a time from a table, writes the decimal representation of
  every 64-bit integer, signed or unsigned, and stays within the 64 bytes of the buffer.
\<close>

theorem dump_integer_decimal:
  assumes "- (2 ^ 63) \<le> x" and "x < 2 ^ 64" and "length buf = 64"
  shows "dump_integer buf x = Inr (show_int x)"
  by (rule dump_integer_show [OF assms])

theorem dump_integer_decimal_witness:
  "dump_integer (replicate 64 NUL) (- (2 ^ 63)) = Inr ''-9223372036854775808''"
  using dump_integer_decimal [of "- (2 ^ 63)" "replicate 64 NUL"] by (simp add: show_int_def show_nat_numeral digit_chars digit_char_0)

end
