(* ===== verification/Net2_Buffer.thy ===== *)
theory Net2_Buffer
  imports Net_Buffer
begin

text \<open>
  \<^verbatim>\<open>cppboot/net/net2/buffer.h\<close>: the second buffer class, with a search for CRLF, retrieval as
  strings and \<open>Shrink\<close>. It satisfies the same \<open>byte_queue\<close> interface as \<open>net::Buffer\<close>.
\<close>

section \<open>net2::Buffer\<close>

record Buffer2 =
  b2_bytes :: string
  b2_reader :: nat
  b2_writer :: nat

definition k2CheapPrepend :: nat where "k2CheapPrepend = 8"

definition k2InitialSize :: nat where "k2InitialSize = 256"

definition Buffer2_new :: "nat \<Rightarrow> Buffer2" where
  "Buffer2_new initial_size =
     \<lparr>b2_bytes = replicate (k2CheapPrepend + initial_size) NUL, b2_reader = k2CheapPrepend,
      b2_writer = k2CheapPrepend\<rparr>"

definition b2_swap :: "Buffer2 \<Rightarrow> Buffer2 \<Rightarrow> Buffer2 \<times> Buffer2" where
  "b2_swap b rhs = (rhs, b)"

definition b2_Prependable :: "Buffer2 \<Rightarrow> nat" where
  "b2_Prependable b = b2_reader b"

definition b2_Readable :: "Buffer2 \<Rightarrow> nat" where
  "b2_Readable b = b2_writer b - b2_reader b"

definition b2_Writable :: "Buffer2 \<Rightarrow> nat" where
  "b2_Writable b = length (b2_bytes b) - b2_writer b"

definition b2_empty :: "Buffer2 \<Rightarrow> bool" where
  "b2_empty b \<longleftrightarrow> b2_Readable b = 0"

definition b2_Peek :: "Buffer2 \<Rightarrow> string" where
  "b2_Peek b = drop (b2_reader b) (b2_bytes b)"

definition kCRLF :: string where
  "kCRLF = [CHR 0x0D, CHR 0x0A]"

text \<open>
  \<open>std::search\<close> between \<open>Peek()\<close> and \<open>BeginWrite()\<close>; positions are relative to \<open>begin()\<close>, and the
  null pointer is \<open>None\<close>.
\<close>

definition FindCRLF :: "Buffer2 \<Rightarrow> nat option" where
  "FindCRLF b =
     (let readable = take (b2_Readable b) (b2_Peek b);
          pos = str_find readable kCRLF 0;
          crlf = (if pos = npos then b2_writer b else b2_reader b + pos) in
      if crlf = b2_writer b then None else Some crlf)"

definition b2_ToSlice :: "Buffer2 \<Rightarrow> string" where
  "b2_ToSlice b = take (b2_Readable b) (b2_Peek b)"

definition b2_ToString :: "Buffer2 \<Rightarrow> string" where
  "b2_ToString b = take (b2_Readable b) (b2_Peek b)"

definition b2_RetriveAll :: "Buffer2 \<Rightarrow> Buffer2" where
  "b2_RetriveAll b = b\<lparr>b2_reader := k2CheapPrepend, b2_writer := k2CheapPrepend\<rparr>"

definition b2_Retrive :: "Buffer2 \<Rightarrow> nat \<Rightarrow> Buffer2" where
  "b2_Retrive b len =
     (if len < b2_Readable b then b\<lparr>b2_reader := b2_reader b + len\<rparr> else b2_RetriveAll b)"

definition b2_RetriveUtil :: "Buffer2 \<Rightarrow> nat \<Rightarrow> Buffer2 res" where
  "b2_RetriveUtil b e =
     bindr (assertr (b2_reader b \<le> e)) (\<lambda>_.
     bindr (assertr (e \<le> b2_writer b)) (\<lambda>_.
     Inr (b2_Retrive b (e - b2_reader b))))"

definition b2_RetriveAsString :: "Buffer2 \<Rightarrow> nat \<Rightarrow> (string \<times> Buffer2) res" where
  "b2_RetriveAsString b len =
     bindr (assertr (len \<le> b2_Readable b)) (\<lambda>_.
     let result = take len (b2_Peek b) in Inr (result, b2_Retrive b len))"

definition b2_RetriveAllAsString :: "Buffer2 \<Rightarrow> (string \<times> Buffer2) res" where
  "b2_RetriveAllAsString b = b2_RetriveAsString b (b2_Readable b)"

definition b2_MakeSpace :: "Buffer2 \<Rightarrow> nat \<Rightarrow> Buffer2 res" where
  "b2_MakeSpace b len =
     (if b2_Writable b + b2_Prependable b < len + k2CheapPrepend
      then bindr (vec_resize (b2_bytes b) (b2_writer b + len)) (\<lambda>v. Inr (b\<lparr>b2_bytes := v\<rparr>))
      else
        bindr (assertr (k2CheapPrepend < b2_reader b)) (\<lambda>_.
        let readable = b2_Readable b in
        bindr (copy_at (b2_bytes b) k2CheapPrepend (take readable (drop (b2_reader b) (b2_bytes b)))) (\<lambda>v.
        let b' = \<lparr>b2_bytes = v, b2_reader = k2CheapPrepend, b2_writer = k2CheapPrepend + readable\<rparr> in
        bindr (assertr (readable = b2_Readable b')) (\<lambda>_. Inr b'))))"

definition b2_EnsureWritable :: "Buffer2 \<Rightarrow> nat \<Rightarrow> Buffer2 res" where
  "b2_EnsureWritable b len =
     bindr (if b2_Writable b < len then b2_MakeSpace b len else Inr b) (\<lambda>b.
     bindr (assertr (b2_Writable b \<ge> len)) (\<lambda>_. Inr b))"

definition b2_HasWritten :: "Buffer2 \<Rightarrow> nat \<Rightarrow> Buffer2 res" where
  "b2_HasWritten b len =
     bindr (assertr (len \<le> b2_Writable b)) (\<lambda>_. Inr (b\<lparr>b2_writer := b2_writer b + len\<rparr>))"

definition b2_Unwrite :: "Buffer2 \<Rightarrow> nat \<Rightarrow> Buffer2 res" where
  "b2_Unwrite b len =
     bindr (assertr (len \<le> b2_Readable b)) (\<lambda>_. Inr (b\<lparr>b2_writer := b2_writer b - len\<rparr>))"

definition b2_Append :: "Buffer2 \<Rightarrow> string \<Rightarrow> Buffer2 res" where
  "b2_Append b p =
     bindr (b2_EnsureWritable b (length p)) (\<lambda>b.
     bindr (copy_at (b2_bytes b) (b2_writer b) p) (\<lambda>v.
       b2_HasWritten (b\<lparr>b2_bytes := v\<rparr>) (length p)))"

definition b2_Shrink :: "Buffer2 \<Rightarrow> nat \<Rightarrow> Buffer2 res" where
  "b2_Shrink b reserve =
     (let other = Buffer2_new k2InitialSize in
      bindr (b2_EnsureWritable other (b2_Readable b + reserve)) (\<lambda>other.
      bindr (b2_Append other (b2_ToSlice b)) (\<lambda>other.
      Inr (fst (b2_swap b other)))))"

section \<open>Refinement\<close>

text \<open>The two classes have the same code up to the initial size, so one simulates the other.\<close>

definition as_Buffer :: "Buffer2 \<Rightarrow> Buffer" where
  "as_Buffer b = \<lparr>buf_bytes = b2_bytes b, buf_reader = b2_reader b, buf_writer = b2_writer b\<rparr>"

named_theorems sim2 \<open>net2 operations as net operations\<close>

lemma as_Buffer_eq [sim2]: "as_Buffer a = as_Buffer b \<longleftrightarrow> a = b"
  by (cases a; cases b) (simp add: as_Buffer_def)

lemma prepend_eq [sim2]: "k2CheapPrepend = kCheapPrepend"
  by (simp add: k2CheapPrepend_def kCheapPrepend_def)

lemma counts_sim [sim2]:
  "b2_Prependable b = PrependableBytes (as_Buffer b)"
  "b2_Readable b = ReadableBytes (as_Buffer b)"
  "b2_Writable b = WritableBytes (as_Buffer b)"
  "b2_ToSlice b = Buffer_Str (as_Buffer b)"
  by (simp_all add: as_Buffer_def b2_Prependable_def PrependableBytes_def b2_Readable_def
      ReadableBytes_def b2_Writable_def WritableBytes_def b2_ToSlice_def Buffer_Str_def b2_Peek_def
      Peek_def)

definition b2_inv :: "Buffer2 \<Rightarrow> bool" where
  "b2_inv b \<longleftrightarrow> buf_inv (as_Buffer b)"

definition of_Buffer :: "Buffer \<Rightarrow> Buffer2" where
  "of_Buffer b = \<lparr>b2_bytes = buf_bytes b, b2_reader = buf_reader b, b2_writer = buf_writer b\<rparr>"

lemma of_as_Buffer [simp]: "of_Buffer (as_Buffer b) = b" "as_Buffer (of_Buffer c) = c"
  by (simp_all add: of_Buffer_def as_Buffer_def)

lemma fields_sim:
  "b2_bytes b = buf_bytes (as_Buffer b)" "b2_reader b = buf_reader (as_Buffer b)"
  "b2_writer b = buf_writer (as_Buffer b)"
  by (simp_all add: as_Buffer_def)

lemma Retrive_sim: "as_Buffer (b2_Retrive b n) = Retrive (as_Buffer b) n"
  by (simp add: b2_Retrive_def Retrive_def b2_RetriveAll_def RetriveAll_def sim2) (simp add: as_Buffer_def)

lemma MakeSpace_sim: "b2_MakeSpace b n = bindr (MakeSpace (as_Buffer b) n) (\<lambda>c. Inr (of_Buffer c))"
proof (cases "b2_Writable b + b2_Prependable b < n + k2CheapPrepend")
  case True
  then show ?thesis
    by (cases "vec_resize (b2_bytes b) (b2_writer b + n)")
      (simp_all add: b2_MakeSpace_def MakeSpace_def sim2, simp_all add: as_Buffer_def of_Buffer_def)
next
  case False
  then show ?thesis
    by (cases "kCheapPrepend < b2_reader b";
        cases "copy_at (b2_bytes b) kCheapPrepend (take (b2_Readable b) (drop (b2_reader b) (b2_bytes b)))")
      (simp_all add: b2_MakeSpace_def MakeSpace_def sim2 Let_def,
       simp_all add: as_Buffer_def of_Buffer_def ReadableBytes_def)
qed

lemma EnsureWritable_sim:
  "b2_EnsureWritable b n = bindr (EnsureWritableBytes (as_Buffer b) n) (\<lambda>c. Inr (of_Buffer c))"
  by (cases "MakeSpace (as_Buffer b) n")
    (auto simp: b2_EnsureWritable_def EnsureWritableBytes_def MakeSpace_sim sim2 assertr_def)

lemma HasWritten_sim:
  "b2_HasWritten b n = bindr (HasWritten (as_Buffer b) n) (\<lambda>c. Inr (of_Buffer c))"
  by (simp add: b2_HasWritten_def HasWritten_def sim2 assertr_def) (simp add: as_Buffer_def of_Buffer_def)

lemma update_bytes: "c\<lparr>buf_bytes := v\<rparr> = \<lparr>buf_bytes = v, buf_reader = buf_reader c, buf_writer = buf_writer c\<rparr>"
  by (cases c) simp

lemma bindr_assoc: "bindr (bindr r f) g = bindr r (\<lambda>x. bindr (f x) g)"
  by (cases r) simp_all

lemma Append_sim: "b2_Append b s = bindr (Append (as_Buffer b) s) (\<lambda>c. Inr (of_Buffer c))"
  by (cases "EnsureWritableBytes (as_Buffer b) (length s)")
    (auto simp: b2_Append_def Append_def EnsureWritable_sim HasWritten_sim,
     simp add: of_Buffer_def as_Buffer_def update_bytes bindr_assoc)

interpretation n2: byte_queue b2_inv b2_ToSlice b2_Append b2_Retrive k2CheapPrepend
proof unfold_locales
  fix b and s :: string
  assume "b2_inv b" "length (b2_ToSlice b) + 2 * length s + k2CheapPrepend \<le> kMaxSize"
  then obtain c where "Append (as_Buffer b) s = Inr c" "buf_inv c"
      "Buffer_Str c = Buffer_Str (as_Buffer b) @ s"
    using Append_law [of "as_Buffer b" s] by (auto simp: b2_inv_def sim2)
  then show "\<exists>b'. b2_Append b s = Inr b' \<and> b2_inv b' \<and> b2_ToSlice b' = b2_ToSlice b @ s"
    by (auto simp: Append_sim b2_inv_def sim2)
next
  fix b n
  assume "b2_inv b"
  then show "b2_inv (b2_Retrive b n) \<and> b2_ToSlice (b2_Retrive b n) = drop n (b2_ToSlice b)"
    using Retrive_law [of "as_Buffer b" n] by (simp add: b2_inv_def sim2 Retrive_sim)
qed

lemma Buffer2_new_inv: "b2_inv (Buffer2_new n)" "b2_ToSlice (Buffer2_new n) = []"
  by (simp_all add: b2_inv_def buf_inv_def as_Buffer_def Buffer2_new_def prepend_eq b2_ToSlice_def
      b2_Readable_def)

lemma Shrink_law:
  assumes "b2_inv b" "2 * (length (b2_ToSlice b) + reserve) + k2CheapPrepend \<le> kMaxSize"
  shows "\<exists>b'. b2_Shrink b reserve = Inr b' \<and> b2_inv b' \<and> b2_ToSlice b' = b2_ToSlice b"
proof -
  let ?n = "length (b2_ToSlice b)"
  have n: "b2_Readable b = ?n"
    using assms(1) length_Buffer_Str by (simp add: b2_inv_def sim2)
  have new: "buf_inv (as_Buffer (Buffer2_new k2InitialSize))"
    "Buffer_Str (as_Buffer (Buffer2_new k2InitialSize)) = []"
    using Buffer2_new_inv [of k2InitialSize] by (simp_all add: b2_inv_def sim2)
  then have "ReadableBytes (as_Buffer (Buffer2_new k2InitialSize)) = 0"
    using length_Buffer_Str by force
  then obtain c where c: "EnsureWritableBytes (as_Buffer (Buffer2_new k2InitialSize)) (?n + reserve) = Inr c"
      "buf_inv c" "Buffer_Str c = []"
    using EnsureWritableBytes_law [OF new(1), of "?n + reserve"] new(2) assms(2)
    by (auto simp: prepend_eq)
  obtain d where "b2_Append (of_Buffer c) (b2_ToSlice b) = Inr d" "b2_inv d" "b2_ToSlice d = b2_ToSlice b"
    using n2.append_law [of "of_Buffer c" "b2_ToSlice b"] c assms(2) by (auto simp: b2_inv_def sim2)
  then show ?thesis
    using c n by (simp add: b2_Shrink_def EnsureWritable_sim b2_swap_def)
qed

lemma FindCRLF_pos:
  assumes "b2_inv b" "length (b2_ToSlice b) \<le> kMaxSize"
  shows "FindCRLF b = (let pos = str_find (b2_ToSlice b) kCRLF 0 in
    if pos = npos then None else Some (b2_reader b + pos))"
proof -
  let ?s = "b2_ToSlice b" and ?pos = "str_find (b2_ToSlice b) kCRLF 0"
  have n: "length ?s = b2_writer b - b2_reader b" "b2_reader b \<le> b2_writer b"
    using assms(1) length_Buffer_Str
    by (auto simp: b2_inv_def sim2 ReadableBytes_def buf_inv_def) (simp_all add: as_Buffer_def)
  have "first_pos (str_match_at ?s kCRLF) 0 (Suc (length ?s)) ?pos" by (rule str_find_spec)
  then have "?pos = npos \<or> b2_reader b + ?pos \<noteq> b2_writer b"
    using n by (auto simp: first_pos_def str_match_at_def kCRLF_def)
  then show ?thesis
    by (auto simp: FindCRLF_def Let_def b2_ToSlice_def [symmetric])
qed

lemma no_earlier_CRLF:
  assumes "s = line @ kCRLF @ rest" "\<And>j. j < length line \<Longrightarrow> \<not> str_match_at s kCRLF j"
  shows "\<not> sublist kCRLF (line @ butlast kCRLF)"
proof
  assume "sublist kCRLF (line @ butlast kCRLF)"
  then obtain i where i: "str_match_at (line @ butlast kCRLF) kCRLF i" using sublist_match by blast
  then have lt: "i < length line" by (auto simp: str_match_at_def kCRLF_def)
  have "s = (line @ butlast kCRLF) @ [CHR 0x0A] @ rest" using assms(1) by (simp add: kCRLF_def)
  then have "str_match_at s kCRLF i" using i by (auto simp: str_match_at_def)
  then show False using assms(2) [OF lt] by simp
qed

section \<open>Properties\<close>

text \<open>
  Reading a line from a \<open>net2::Buffer\<close>: \<open>FindCRLF\<close> returns null exactly when the readable bytes
  contain no CRLF; otherwise \<open>RetriveUtil\<close> at the pointer it returns passes its assertions and leaves
  the CRLF and everything behind it, and the bytes before the pointer are the first line.
\<close>

lemma FindCRLF_line:
  assumes "b2_inv b" "length (b2_ToSlice b) \<le> kMaxSize"
  shows "(case FindCRLF b of
      None \<Rightarrow> \<not> sublist kCRLF (b2_ToSlice b)
    | Some p \<Rightarrow> \<exists>line rest b'. b2_ToSlice b = line @ kCRLF @ rest \<and> \<not> sublist kCRLF (line @ butlast kCRLF) \<and>
        p = b2_reader b + length line \<and> b2_RetriveUtil b p = Inr b' \<and> b2_inv b' \<and>
        b2_ToSlice b' = kCRLF @ rest)"
proof -
  let ?s = "b2_ToSlice b"
  define pos where "pos = str_find (b2_ToSlice b) kCRLF 0"
  have max: "Suc (length ?s) \<le> npos" using assms(2) le_npos(2) by blast
  have F: "FindCRLF b = (if pos = npos then None else Some (b2_reader b + pos))"
    using FindCRLF_pos [OF assms] by (simp add: pos_def Let_def)
  have w: "b2_writer b = b2_reader b + length ?s"
    using assms(1) length_Buffer_Str
    by (auto simp: b2_inv_def sim2 ReadableBytes_def buf_inv_def) (simp_all add: as_Buffer_def)
  have "first_pos (str_match_at ?s kCRLF) 0 (Suc (length ?s)) pos"
    unfolding pos_def by (rule str_find_spec)
  then show ?thesis using max
  proof (cases rule: first_posE)
    case 1
    then show ?thesis using F sublist_match [of kCRLF ?s] by (auto simp: str_match_at_def)
  next
    case 2
    define line where "line = take pos ?s"
    define rest where "rest = drop (pos + 2) ?s"
    have m: "pos + 2 \<le> length ?s" "take 2 (drop pos ?s) = kCRLF"
      using 2(4) by (simp_all add: str_match_at_def kCRLF_def numeral_2_eq_2)
    have split: "?s = line @ kCRLF @ rest"
      using m by (metis append_take_drop_id drop_drop add.commute line_def rest_def)
    have len: "length line = pos" using m(1) by (simp add: line_def)
    have "\<not> sublist kCRLF (line @ butlast kCRLF)"
      using no_earlier_CRLF [OF split] 2(5) len by simp
    moreover have "b2_RetriveUtil b (b2_reader b + pos) = Inr (b2_Retrive b pos)"
      using w m(1) by (simp add: b2_RetriveUtil_def)
    moreover have "b2_inv (b2_Retrive b pos)" "b2_ToSlice (b2_Retrive b pos) = kCRLF @ rest"
      using n2.retrieve_law [OF assms(1), of pos] split len by auto
    ultimately show ?thesis using F 2(1) split len by auto
  qed
qed

end
