(* ===== verification/Net2_Addr.thy ===== *)
theory Net2_Addr
  imports Cpp_Prelude
begin

text \<open>
  Socket addresses: \<^verbatim>\<open>cppboot/net/net2/addr.h\<close> and \<^verbatim>\<open>addr.cpp\<close>. The bytes of the structures are written out
  in the BSD layout the source uses (length byte, family byte, port in network order). \<open>inet_pton\<close> of
  the C library is a parameter: the bytes of an address, or \<open>None\<close> when the text is none.
\<close>

record Addr =
  ad_net :: string
  ad_addr :: string
  ad_data :: string

definition byte :: "nat \<Rightarrow> char" where
  "byte n = char_of (n mod 256)"

definition AF_UNIX :: nat where "AF_UNIX = 1"

definition AF_INET :: nat where "AF_INET = 2"

definition AF_INET6 :: nat where "AF_INET6 = 30"

definition htons :: "nat \<Rightarrow> string" where
  "htons port = [byte (port div 256), byte port]"

text \<open>\<open>atoi\<close>: 0 when there is no number; a number outside \<open>int\<close> is undefined.\<close>

definition c_atoi :: "string \<Rightarrow> int res" where
  "c_atoi s =
     (case sto_int (- (2 ^ 31)) (2 ^ 31 - 1) s of
        Inl InvalidArgumentExn \<Rightarrow> Inr 0
      | Inl e \<Rightarrow> Inl UndefinedBehaviour
      | Inr v \<Rightarrow> Inr v)"

text \<open>The conversion to \<open>unsigned short\<close>.\<close>

definition to_ushort :: "int \<Rightarrow> nat" where
  "to_ushort i = nat (i mod 2 ^ 16)"

definition ParseIpv4Addr :: "(nat \<Rightarrow> string \<Rightarrow> string option) \<Rightarrow> string \<Rightarrow> nat \<Rightarrow> string" where
  "ParseIpv4Addr inet_pton addr port =
     (let head = [byte 16, byte AF_INET] @ htons port in
      if addr = [] then head @ replicate 12 NUL
      else case inet_pton AF_INET (c_str addr) of
        Some a \<Rightarrow> head @ a @ replicate 8 NUL
      | None \<Rightarrow> [])"

definition ParseIpv6Addr :: "(nat \<Rightarrow> string \<Rightarrow> string option) \<Rightarrow> string \<Rightarrow> nat \<Rightarrow> string" where
  "ParseIpv6Addr inet_pton addr port =
     (let head = [byte 28, byte AF_INET6] @ htons port @ replicate 4 NUL in
      if addr = [] then head @ replicate 20 NUL
      else case inet_pton AF_INET6 (c_str addr) of
        Some a \<Rightarrow> head @ a @ replicate 4 NUL
      | None \<Rightarrow> [])"

definition port_of :: "string \<Rightarrow> nat \<Rightarrow> nat \<Rightarrow> nat res" where
  "port_of addr_port colon skip =
     (if colon = npos then Inr 0
      else bindr (str_substr addr_port (size_add colon skip) npos) (\<lambda>p.
        bindr (c_atoi (c_str p)) (\<lambda>i. Inr (to_ushort i))))"

definition ParseIpAddr :: "(nat \<Rightarrow> string \<Rightarrow> string option) \<Rightarrow> string \<Rightarrow> string res" where
  "ParseIpAddr inet_pton addr_port =
     (if addr_port \<noteq> [] \<and> hd addr_port = CHR ''['' then
        let colon = str_find addr_port '']:'' 0 in
        bindr (port_of addr_port colon 2) (\<lambda>port.
        if port = 0 then Inr []
        else bindr (str_substr addr_port 1 (colon - 1)) (\<lambda>addr. Inr (ParseIpv6Addr inet_pton addr port)))
      else
        let colon = str_find addr_port '':'' 0 in
        bindr (port_of addr_port colon 1) (\<lambda>port.
        if port = 0 then Inr []
        else bindr (str_substr addr_port 0 colon) (\<lambda>addr. Inr (ParseIpv4Addr inet_pton addr port))))"

text \<open>
  The size is computed in an \<open>unsigned char\<close>: a path that does not fit makes the copy write behind the
  end of the vector.
\<close>

definition ParseUnixAddr :: "string \<Rightarrow> string res" where
  "ParseUnixAddr addr =
     (if addr = [] then Inr []
      else
        let sun_len = (2 + length addr + 1) mod 256 in
        if sun_len < 2 + length addr then Inl UndefinedBehaviour
        else Inr ([byte sun_len, byte AF_UNIX] @ addr @ replicate (sun_len - 2 - length addr) NUL))"

definition Addr_new :: "(nat \<Rightarrow> string \<Rightarrow> string option) \<Rightarrow> string \<Rightarrow> string \<Rightarrow> Addr res" where
  "Addr_new inet_pton network addr =
     (if network = ''tcp'' \<or> network = ''udp''
      then bindr (ParseIpAddr inet_pton addr) (\<lambda>d. Inr \<lparr>ad_net = network, ad_addr = addr, ad_data = d\<rparr>)
      else if network = ''unix''
      then bindr (ParseUnixAddr addr) (\<lambda>d. Inr \<lparr>ad_net = network, ad_addr = addr, ad_data = d\<rparr>)
      else Inr \<lparr>ad_net = [], ad_addr = [], ad_data = []\<rparr>)"

definition Addr_len :: "Addr \<Rightarrow> nat" where
  "Addr_len a = length (ad_data a)"

definition Addr_IsValid :: "Addr \<Rightarrow> bool" where
  "Addr_IsValid a \<longleftrightarrow> Addr_len a \<noteq> 0"

definition Addr_addr :: "Addr \<Rightarrow> string option" where
  "Addr_addr a = (if ad_data a = [] then None else Some (ad_data a))"

section \<open>What is accepted\<close>

text \<open>The port of an Internet address, read back from its bytes.\<close>

definition addr_port_bytes :: "string \<Rightarrow> nat" where
  "addr_port_bytes d = 256 * of_char (d ! 2) + of_char (d ! 3)"

lemma htons_back: "p < 2 ^ 16 \<Longrightarrow> 256 * of_char (htons p ! 0) + of_char (htons p ! 1) = p"
  by (simp add: htons_def byte_def)

lemma c_atoi_show: "n < 2 ^ 31 \<Longrightarrow> c_atoi (show_nat n) = Inr (int n)"
  using sto_show_int [of "- (2 ^ 31)" "int n" "2 ^ 31 - 1"] by (simp add: c_atoi_def show_int_def)

lemma c_str_show: "c_str (show_nat n) = show_nat n"
proof -
  have "NUL \<notin> set (show_nat n)" using show_nat_digits [of NUL n] by (auto simp: c_isdigit_def NUL_def less_eq_char_def)
  then show ?thesis by (rule c_str_id)
qed

lemma find_colon:
  assumes "CHR '':'' \<notin> set h" "length (h @ '':'' @ p) < kMaxSize"
  shows "str_find (h @ '':'' @ p) '':'' 0 = length h"
proof -
  let ?t = "h @ '':'' @ p"
  have len: "Suc (length ?t) \<le> npos" using assms(2) npos_gt_kMaxSize by linarith
  have "\<not> str_match_at ?t '':'' j" if "j < length h" for j
    using assms(1) that by (auto simp: str_match_at_def nth_append take_Suc_conv_app_nth dest: nth_mem)
  moreover have "str_match_at ?t '':'' (length h)" by (simp add: str_match_at_def)
  ultimately have "first_pos (str_match_at ?t '':'') 0 (Suc (length ?t)) (length h)"
    using len by (auto simp: first_pos_def)
  then show ?thesis using first_pos_unique [OF str_find_spec _ len] by metis
qed

lemma ParseIpAddr_v4:
  assumes "CHR '':'' \<notin> set h" "h = [] \<or> hd h \<noteq> CHR ''[''" "0 < port" "port < 2 ^ 16"
    and "length (h @ '':'' @ show_nat port) < kMaxSize"
  shows "ParseIpAddr inet_pton (h @ '':'' @ show_nat port) = Inr (ParseIpv4Addr inet_pton h port)"
proof -
  let ?t = "h @ '':'' @ show_nat port"
  have c: "str_find ?t '':'' 0 = length h" using find_colon [OF assms(1,5)] .
  have l: "length h \<le> kMaxSize" "length h \<noteq> npos" "length (show_nat port) \<le> npos"
    using assms(5) by (auto simp: npos_def kMaxSize_def)
  have "str_substr ?t (Suc (length h)) npos = Inr (show_nat port)"
    using l by (simp add: str_substr_def)
  then have "port_of ?t (length h) 1 = Inr port"
    using l size_add_pos [OF l(1)] c_atoi_show [of port] assms(4) by (simp add: port_of_def c_str_show to_ushort_def)
  moreover have "hd ?t \<noteq> CHR ''[''" using assms(2) by (cases h) auto
  ultimately show ?thesis using c assms(3) by (simp add: ParseIpAddr_def)
qed

lemma ParseUnixAddr_eq:
  assumes "path \<noteq> []"
  shows "ParseUnixAddr path = (if length path \<le> 252 then Inr ([byte (length path + 3), byte AF_UNIX] @ path @ [NUL])
    else Inl UndefinedBehaviour)"
proof (cases "length path \<le> 252")
  case True
  then have "(2 + length path + 1) mod 256 = length path + 3" by simp
  then show ?thesis using assms True by (simp add: ParseUnixAddr_def add.commute)
next
  case False
  have "(2 + length path + 1) mod 256 < 256" by simp
  moreover have "(2 + 253 + 1) mod 256 = (0 :: nat)" by simp
  ultimately have "(2 + length path + 1) mod 256 < 2 + length path" using False by (cases "length path = 253") (simp, linarith)
  then show ?thesis using assms False by (simp add: ParseUnixAddr_def Let_def)
qed

text \<open>
  An IPv4 address with a port is accepted exactly when the library accepts its host part (or it is
  empty), and its structure then has 16 bytes that carry the port; a Unix path is stored with its
  terminating NUL when it has at most 252 bytes, and a longer one makes the constructor write outside
  the vector.
\<close>

theorem Addr_structures:
  assumes "CHR '':'' \<notin> set h" "h = [] \<or> hd h \<noteq> CHR ''[''" "0 < port" "port < 2 ^ 16"
    and "length (h @ '':'' @ show_nat port) < kMaxSize"
    and "\<forall>t a. inet_pton AF_INET t = Some a \<longrightarrow> length a = 4" "path \<noteq> []"
  shows "(\<exists>ad. Addr_new inet_pton ''tcp'' (h @ '':'' @ show_nat port) = Inr ad \<and>
      Addr_IsValid ad = (h = [] \<or> inet_pton AF_INET (c_str h) \<noteq> None) \<and>
      (Addr_IsValid ad \<longrightarrow> Addr_len ad = 16 \<and> addr_port_bytes (ad_data ad) = port)) \<and>
    Addr_new inet_pton ''unix'' path =
      (if length path \<le> 252
       then Inr \<lparr>ad_net = ''unix'', ad_addr = path, ad_data = [byte (length path + 3), byte AF_UNIX] @ path @ [NUL]\<rparr>
       else Inl UndefinedBehaviour)"
proof (intro conjI)
  show "\<exists>ad. Addr_new inet_pton ''tcp'' (h @ '':'' @ show_nat port) = Inr ad \<and>
      Addr_IsValid ad = (h = [] \<or> inet_pton AF_INET (c_str h) \<noteq> None) \<and>
      (Addr_IsValid ad \<longrightarrow> Addr_len ad = 16 \<and> addr_port_bytes (ad_data ad) = port)"
    using ParseIpAddr_v4 [OF assms(1-5), of inet_pton] htons_back [OF assms(4)] assms(6)
    by (auto simp: Addr_new_def Addr_IsValid_def Addr_len_def ParseIpv4Addr_def addr_port_bytes_def htons_def Let_def
        split: option.splits)
  show "Addr_new inet_pton ''unix'' path =
      (if length path \<le> 252
       then Inr \<lparr>ad_net = ''unix'', ad_addr = path, ad_data = [byte (length path + 3), byte AF_UNIX] @ path @ [NUL]\<rparr>
       else Inl UndefinedBehaviour)"
    using assms(7) ParseUnixAddr_eq [of path] by (simp add: Addr_new_def)
qed

theorem Addr_structures_witness:
  "(\<exists>ad. Addr_new (\<lambda>f t. Some ''abcd'') ''tcp'' (''1.2.3.4'' @ '':'' @ show_nat 80) = Inr ad \<and>
      addr_port_bytes (ad_data ad) = 80) \<and>
   Addr_new (\<lambda>f t. Some ''abcd'') ''unix'' ''/s'' =
     Inr \<lparr>ad_net = ''unix'', ad_addr = ''/s'', ad_data = [byte 5, byte AF_UNIX] @ ''/s'' @ [NUL]\<rparr>"
proof -
  have "length (show_nat 80) \<le> 100" by code_simp
  then have len: "length (''1.2.3.4'' @ '':'' @ show_nat 80) < kMaxSize" by (simp add: kMaxSize_def)
  then show ?thesis
    using Addr_structures [of "''1.2.3.4''" 80 "\<lambda>f t. Some ''abcd''" "''/s''"] by auto
qed

end
