(* ===== verification/Io_Context.thy ===== *)
theory Io_Context
  imports Cpp_Prelude
begin

text \<open>
  The run queue of \<^verbatim>\<open>cppboot/net/io/context.h\<close> and \<^verbatim>\<open>kqueue.cc\<close>. A functor of the program is a value of
  \<open>'f\<close>; \<open>run f w\<close> is what calling it does to the state of the program and the functors it posts. The
  wait of \<open>PollOnce\<close> has no effect on the queue; \<open>WeakUpPoll\<close> is empty.
\<close>

record 'f Io_Context =
  ctx_quit :: bool
  ctx_pending :: "'f list"

definition Context_new :: "'f Io_Context" where
  "Context_new = \<lparr>ctx_quit = False, ctx_pending = []\<rparr>"

definition WeakUpPoll :: "'f Io_Context \<Rightarrow> 'f Io_Context" where
  "WeakUpPoll c = c"

definition Context_Stop :: "'f Io_Context \<Rightarrow> 'f Io_Context" where
  "Context_Stop c = WeakUpPoll (c\<lparr>ctx_quit := True\<rparr>)"

definition Context_Post :: "'f Io_Context \<Rightarrow> 'f \<Rightarrow> 'f Io_Context" where
  "Context_Post c cb = c\<lparr>ctx_pending := ctx_pending c @ [cb]\<rparr>"

definition QueueSize :: "'f Io_Context \<Rightarrow> nat" where
  "QueueSize c = length (ctx_pending c)"

definition PollOnce :: "'f Io_Context \<Rightarrow> 'f Io_Context" where
  "PollOnce c = c"

fun run_functors :: "('f \<Rightarrow> 'w \<Rightarrow> 'w \<times> 'f list) \<Rightarrow> 'f list \<Rightarrow> 'f Io_Context \<Rightarrow> 'w \<Rightarrow> 'f Io_Context \<times> 'w" where
  "run_functors run [] c w = (c, w)"
| "run_functors run (fn # functors) c w =
     (let (w, posted) = run fn w in run_functors run functors (foldl Context_Post c posted) w)"

definition DoPendingFunctors :: "('f \<Rightarrow> 'w \<Rightarrow> 'w \<times> 'f list) \<Rightarrow> 'f Io_Context \<Rightarrow> 'w \<Rightarrow> 'f Io_Context \<times> 'w" where
  "DoPendingFunctors run c w =
     (let functors = ctx_pending c in run_functors run functors (c\<lparr>ctx_pending := []\<rparr>) w)"

definition RunOnce :: "('f \<Rightarrow> 'w \<Rightarrow> 'w \<times> 'f list) \<Rightarrow> 'f Io_Context \<Rightarrow> 'w \<Rightarrow> 'f Io_Context \<times> 'w" where
  "RunOnce run c w = DoPendingFunctors run (PollOnce c) w"

section \<open>One round\<close>

text \<open>Running a list of functors in order: the final state and everything they post.\<close>

fun run_all :: "('f \<Rightarrow> 'w \<Rightarrow> 'w \<times> 'f list) \<Rightarrow> 'f list \<Rightarrow> 'w \<Rightarrow> 'w \<times> 'f list" where
  "run_all run [] w = (w, [])"
| "run_all run (f # fs) w =
     (case run f w of (w, p) \<Rightarrow> case run_all run fs w of (w, ps) \<Rightarrow> (w, p @ ps))"

lemma foldl_Post: "foldl Context_Post c ps = c\<lparr>ctx_pending := ctx_pending c @ ps\<rparr>"
  by (induction ps arbitrary: c) (simp_all add: Context_Post_def)

lemma run_functors_all:
  "run_functors run fs c w =
     (c\<lparr>ctx_pending := ctx_pending c @ snd (run_all run fs w)\<rparr>, fst (run_all run fs w))"
  by (induction fs arbitrary: c w) (simp_all add: foldl_Post split: prod.splits)

text \<open>
  A round runs every functor that was pending when it began, once and in the order of posting; what they
  post waits for the next round, so a functor that posts itself cannot hold up a round.
\<close>

lemma RunOnce_round:
  "RunOnce run c w =
     (c\<lparr>ctx_pending := snd (run_all run (ctx_pending c) w)\<rparr>, fst (run_all run (ctx_pending c) w))"
  by (simp add: RunOnce_def DoPendingFunctors_def PollOnce_def run_functors_all Let_def)

lemma reposting_queue_size:
  assumes "\<And>f w. length (snd (run f w)) = 1"
  shows "QueueSize (fst (RunOnce run c w)) = QueueSize c"
proof -
  have "length (snd (run_all run fs w)) = length fs" for fs w
    by (induction fs arbitrary: w) (simp_all add: split_beta assms)
  then show ?thesis by (simp add: RunOnce_round QueueSize_def)
qed

end
