(* ===== verification/Http_Message.thy ===== *)
theory Http_Message
  imports Str_Util Std_Map Base_Status Json_Dump
begin

text \<open>
  URLs, form data, requests and responses: \<^verbatim>\<open>cppboot/net/http/url.cc\<close>, \<^verbatim>\<open>form_data.cc\<close>, \<^verbatim>\<open>header.h\<close>,
  \<^verbatim>\<open>request.cc\<close>, \<^verbatim>\<open>response.cc\<close>. Pointers into a view are positions in its array; a position behind
  the array is undefined behaviour.
\<close>

definition crlf :: string where
  "crlf = [CHR 0x0D, CHR 0x0A]"

section \<open>Url\<close>

record Url =
  scheme :: string
  host :: string
  raw_path :: string
  raw_query :: string

definition read_at :: "string \<Rightarrow> nat \<Rightarrow> char res" where
  "read_at b p = (if p < length b then Inr (b ! p) else Inl UndefinedBehaviour)"

text \<open>\<open>while (p != end && *p != util) ++p\<close> on the array \<open>b\<close>.\<close>

function ConsumeUtil_loop :: "string \<Rightarrow> nat \<Rightarrow> nat \<Rightarrow> char \<Rightarrow> nat res" where
  "ConsumeUtil_loop b p e util =
     (if p = e then Inr p
      else if p \<ge> length b then Inl UndefinedBehaviour
      else if b ! p = util then Inr p
      else ConsumeUtil_loop b (Suc p) e util)"
  by pat_completeness auto
termination
  by (relation "measure (\<lambda>(b, p, e, util). length b - p)") auto

declare ConsumeUtil_loop.simps [simp del]

definition ConsumeUtil :: "string \<Rightarrow> nat \<Rightarrow> nat \<Rightarrow> char \<Rightarrow> (string_view \<times> nat) res" where
  "ConsumeUtil b start e util =
     bindr (ConsumeUtil_loop b start e util) (\<lambda>p.
     bindr (sv_of_ptr_len (Some (b, start)) (p - start)) (\<lambda>result. Inr (result, p)))"

definition Url_empty :: Url where
  "Url_empty = \<lparr>scheme = '''', host = '''', raw_path = '''', raw_query = ''''\<rparr>"

text \<open>
  The constructor is \<open>noexcept\<close>: \<open>LogicError\<close> stands for the exception of \<open>std::string\<close> for a
  negative length, which ends the program.
\<close>

definition Url_new :: "string_view \<Rightarrow> Url res" where
  "Url_new raw_url =
     (case sv_base raw_url of (b, p) \<Rightarrow>
      let e = p + sv_length raw_url; u = Url_empty in
      bindr (ConsumeUtil b p e CHR '':'') (\<lambda>(scheme_view, p).
      if sv_empty scheme_view then Inr u
      else
        let u = u\<lparr>scheme := sv_to_basic_string scheme_view\<rparr>; p = p + 1 in
        bindr (read_at b p) (\<lambda>c0.
        if c0 \<noteq> CHR ''/'' then Inr u else
        bindr (read_at b (p + 1)) (\<lambda>c1.
        if c1 \<noteq> CHR ''/'' then Inr u else
        bindr (read_at b (p + 2)) (\<lambda>c2.
        if c2 = CHR ''/'' then Inr u else
        let p = p + 2 in
        bindr (ConsumeUtil b p e CHR ''/'') (\<lambda>(host_view, p).
        if sv_empty host_view then Inr u
        else
          let u = u\<lparr>host := sv_to_basic_string host_view\<rparr> in
          bindr (ConsumeUtil b p e CHR ''?'') (\<lambda>(path_view, p).
          let u = u\<lparr>raw_path := sv_to_basic_string path_view\<rparr> in
          bindr (read_at b p) (\<lambda>c.
          if c = CHR ''?''
          then let p = p + 1 in
            if p > e then Inl LogicError
            else Inr (u\<lparr>raw_query := take (e - p) (drop p b)\<rparr>)
          else Inr u))))))))"

definition Url_IsValid :: "Url \<Rightarrow> bool" where
  "Url_IsValid u \<longleftrightarrow> scheme u \<noteq> []"

section \<open>FormData\<close>

type_synonym FormData = "(string, string) smap"

text \<open>A null \<open>key\<close> is \<open>None\<close>; otherwise its characters before the NUL.\<close>

definition FormData_Set :: "FormData \<Rightarrow> string option \<Rightarrow> string \<Rightarrow> FormData" where
  "FormData_Set m key val =
     (case key of Some k \<Rightarrow> if k \<noteq> [] then map_set m k val else m | None \<Rightarrow> m)"

definition FormData_Get :: "FormData \<Rightarrow> string option \<Rightarrow> string" where
  "FormData_Get m key =
     (case key of
        Some k \<Rightarrow> if k \<noteq> [] then (case map_find m k of Some v \<Rightarrow> v | None \<Rightarrow> '''') else ''''
      | None \<Rightarrow> '''')"

function GetNextToken_loop :: "string \<Rightarrow> nat \<Rightarrow> nat \<Rightarrow> char \<Rightarrow> nat" where
  "GetNextToken_loop b p e quota =
     (if p < e \<and> b ! p \<noteq> quota then GetNextToken_loop b (Suc p) e quota else p)"
  by pat_completeness auto
termination
  by (relation "measure (\<lambda>(b, p, e, quota). e - p)") auto

declare GetNextToken_loop.simps [simp del]

text \<open>The loop runs only from \<open>p < end\<close>, where \<open>p != end\<close> and \<open>p < end\<close> are the same.\<close>

definition GetNextToken :: "string \<Rightarrow> nat \<Rightarrow> nat \<Rightarrow> char \<Rightarrow> string \<times> nat" where
  "GetNextToken b start e quota =
     (if start \<ge> e then ('''', start)
      else let p = GetNextToken_loop b start e quota in
        (take (p - start) (drop start b), p + 1))"

definition FormData_param :: "FormData \<Rightarrow> string \<Rightarrow> FormData res" where
  "FormData_param m param =
     (let sep = str_find_first_of param ''='' 0 in
      if sep = npos then Inr (map_set m param '''')
      else bindr (str_substr param 0 sep) (\<lambda>k.
           bindr (str_substr param (sep + 1) npos) (\<lambda>v. Inr (map_set m k v))))"

lemma GetNextToken_advances: "fst (GetNextToken b p e q) \<noteq> [] \<Longrightarrow> p < e \<and> p < snd (GetNextToken b p e q)"
proof -
  have "p \<le> GetNextToken_loop b p e q" for p
    by (induction b p e q rule: GetNextToken_loop.induct) (subst GetNextToken_loop.simps, auto intro: Suc_leD)
  then show "fst (GetNextToken b p e q) \<noteq> [] \<Longrightarrow> p < e \<and> p < snd (GetNextToken b p e q)"
    by (auto simp: GetNextToken_def Let_def less_Suc_eq_le split: if_splits)
qed

function FormData_Parse_loop :: "string \<Rightarrow> nat \<Rightarrow> nat \<Rightarrow> FormData \<Rightarrow> FormData res" where
  "FormData_Parse_loop b e p m =
     (let r = GetNextToken b p e CHR ''&'' in
      if fst r = [] then Inr m
      else bindr (FormData_param m (fst r)) (\<lambda>m. FormData_Parse_loop b e (snd r) m))"
  by pat_completeness auto
termination
proof (relation "measure (\<lambda>(b, e, p, m). e - p)")
  show "(((b, e, snd x, m'), b, e, p, m) \<in> measure (\<lambda>(b, e, p, m). e - p))"
    if "x = GetNextToken b p e CHR ''&''" "fst x \<noteq> []" for b e p m x m'
    using GetNextToken_advances [of b p e "CHR ''&''"] that by auto
qed simp

declare FormData_Parse_loop.simps [simp del]

definition FormData_Parse :: "FormData \<Rightarrow> string_view \<Rightarrow> (Status \<times> FormData) res" where
  "FormData_Parse m query =
     (case sv_base query of (b, p) \<Rightarrow>
      bindr (FormData_Parse_loop b (p + sv_length query) p m) (\<lambda>m. Inr (OkStatus, m)))"

fun FormData_Encode_loop :: "bool \<Rightarrow> (string \<times> string) list \<Rightarrow> string" where
  "FormData_Encode_loop add_delimiter [] = []"
| "FormData_Encode_loop add_delimiter ((k, v) # kvs) =
     (if add_delimiter then ''&'' else []) @ k @ ''='' @ v @ FormData_Encode_loop True kvs"

definition FormData_Encode :: "FormData \<Rightarrow> string" where
  "FormData_Encode m = FormData_Encode_loop False m"

section \<open>Headers\<close>

record Header =
  hd_name :: string
  hd_value :: string

fun set_header :: "Header list \<Rightarrow> string \<Rightarrow> string \<Rightarrow> Header list" where
  "set_header [] name val = [\<lparr>hd_name = name, hd_value = val\<rparr>]"
| "set_header (h # hs) name val =
     (if hd_name h = name then h\<lparr>hd_value := val\<rparr> # hs else h # set_header hs name val)"

fun get_header :: "Header list \<Rightarrow> string \<Rightarrow> string" where
  "get_header [] name = ''''"
| "get_header (h # hs) name = (if hd_name h = name then hd_value h else get_header hs name)"

section \<open>Request\<close>

text \<open>The version numbers are uninitialised (\<open>None\<close>) until the parser sets them.\<close>

record Request =
  rq_method :: string
  rq_uri :: string
  rq_major :: "int option"
  rq_minor :: "int option"
  rq_headers :: "Header list"
  rq_content :: string
  rq_path :: string
  rq_subpath :: string
  rq_params :: FormData
  rq_host :: string
  rq_url :: Url

definition Request_of :: "string \<Rightarrow> Url \<Rightarrow> Request" where
  "Request_of meth u = \<lparr>rq_method = meth, rq_uri = '''', rq_major = None, rq_minor = None, rq_headers = [],
     rq_content = '''', rq_path = '''', rq_subpath = '''', rq_params = [], rq_host = '''', rq_url = u\<rparr>"

definition Request_empty :: Request where
  "Request_empty = Request_of '''' Url_empty"

definition Request_new :: "string \<Rightarrow> string \<Rightarrow> Request res" where
  "Request_new meth url_text =
     bindr (Url_new (sv_of_string url_text)) (\<lambda>u.
       let r = Request_of meth u in
       if Url_IsValid u
       then Inr (r\<lparr>rq_path := raw_path u,
              rq_uri := (if raw_query u = [] then raw_path u else raw_path u @ ''?'' @ raw_query u),
              rq_host := host u\<rparr>)
       else Inr r)"

definition Request_set_header :: "Request \<Rightarrow> string \<Rightarrow> string \<Rightarrow> Request" where
  "Request_set_header r name val = r\<lparr>rq_headers := set_header (rq_headers r) name val\<rparr>"

definition Request_Param :: "Request \<Rightarrow> string option \<Rightarrow> string" where
  "Request_Param r key = FormData_Get (rq_params r) key"

definition Request_to_buffers :: "Request \<Rightarrow> string" where
  "Request_to_buffers r =
     rq_method r @ '' '' @
     (if raw_query (rq_url r) = [] then raw_path (rq_url r)
      else raw_path (rq_url r) @ ''?'' @ raw_query (rq_url r)) @
     '' HTTP/1.0'' @ crlf @
     ''Host: '' @ host (rq_url r) @ crlf @
     ''Accept: */*'' @ crlf @
     (if rq_content r \<noteq> [] then ''Content-Length: '' @ show_nat (length (rq_content r)) @ crlf else []) @
     ''TcpConnection: close'' @ crlf @ crlf @
     (if rq_content r \<noteq> [] then rq_content r else [])"

section \<open>Response\<close>

text \<open>\<open>hs_other\<close> is a value that is none of the enumerators.\<close>

datatype status_type =
    hs_ok | hs_created | hs_accepted | hs_no_content | hs_multiple_choices | hs_moved_permanently
  | hs_moved_temporarily | hs_not_modified | hs_bad_request | hs_unauthorized | hs_forbidden
  | hs_not_found | hs_internal_server_error | hs_not_implemented | hs_bad_gateway
  | hs_service_unavailable | hs_other

fun status_buffer :: "status_type \<Rightarrow> string" where
  "status_buffer hs_ok = ''HTTP/1.0 200 OK'' @ crlf"
| "status_buffer hs_created = ''HTTP/1.0 201 Created'' @ crlf"
| "status_buffer hs_accepted = ''HTTP/1.0 202 Accepted'' @ crlf"
| "status_buffer hs_no_content = ''HTTP/1.0 204 No Content'' @ crlf"
| "status_buffer hs_multiple_choices = ''HTTP/1.0 300 Multiple Choices'' @ crlf"
| "status_buffer hs_moved_permanently = ''HTTP/1.0 301 Moved Permanently'' @ crlf"
| "status_buffer hs_moved_temporarily = ''HTTP/1.0 302 Moved Temporarily'' @ crlf"
| "status_buffer hs_not_modified = ''HTTP/1.0 304 Not Modified'' @ crlf"
| "status_buffer hs_bad_request = ''HTTP/1.0 400 Bad Request'' @ crlf"
| "status_buffer hs_unauthorized = ''HTTP/1.0 401 Unauthorized'' @ crlf"
| "status_buffer hs_forbidden = ''HTTP/1.0 403 Forbidden'' @ crlf"
| "status_buffer hs_not_found = ''HTTP/1.0 404 Not Found'' @ crlf"
| "status_buffer hs_internal_server_error = ''HTTP/1.0 500 Internal Server Error'' @ crlf"
| "status_buffer hs_not_implemented = ''HTTP/1.0 501 Not Implemented'' @ crlf"
| "status_buffer hs_bad_gateway = ''HTTP/1.0 502 Bad Gateway'' @ crlf"
| "status_buffer hs_service_unavailable = ''HTTP/1.0 503 Service Unavailable'' @ crlf"
| "status_buffer hs_other = ''HTTP/1.0 500 Internal Server Error'' @ crlf"

text \<open>The HTML text of a stock reply, from its title and its heading.\<close>

definition stock_page :: "string \<Rightarrow> string \<Rightarrow> string" where
  "stock_page title heading =
     ''<html>'' @ ''<head><title>'' @ title @ ''</title></head>'' @
     ''<body><h1>'' @ heading @ ''</h1></body>'' @ ''</html>''"

fun stock_content :: "status_type \<Rightarrow> string" where
  "stock_content hs_ok = ''''"
| "stock_content hs_created = stock_page ''Created'' ''201 Created''"
| "stock_content hs_accepted = stock_page ''Accepted'' ''202 Accepted''"
| "stock_content hs_no_content = stock_page ''No Content'' ''204 Content''"
| "stock_content hs_multiple_choices = stock_page ''Multiple Choices'' ''300 Multiple Choices''"
| "stock_content hs_moved_permanently = stock_page ''Moved Permanently'' ''301 Moved Permanently''"
| "stock_content hs_moved_temporarily = stock_page ''Moved Temporarily'' ''302 Moved Temporarily''"
| "stock_content hs_not_modified = stock_page ''Not Modified'' ''304 Not Modified''"
| "stock_content hs_bad_request = stock_page ''Bad Request'' ''400 Bad Request''"
| "stock_content hs_unauthorized = stock_page ''Unauthorized'' ''401 Unauthorized''"
| "stock_content hs_forbidden = stock_page ''Forbidden'' ''403 Forbidden''"
| "stock_content hs_not_found = stock_page ''Not Found'' ''404 Not Found''"
| "stock_content hs_internal_server_error = stock_page ''Internal Server Error'' ''500 Internal Server Error''"
| "stock_content hs_not_implemented = stock_page ''Not Implemented'' ''501 Not Implemented''"
| "stock_content hs_bad_gateway = stock_page ''Bad Gateway'' ''502 Bad Gateway''"
| "stock_content hs_service_unavailable = stock_page ''Service Unavailable'' ''503 Service Unavailable''"
| "stock_content hs_other = stock_page ''Internal Server Error'' ''500 Internal Server Error''"

text \<open>The status of a new response is uninitialised.\<close>

record Response =
  rp_status :: "status_type option"
  rp_headers :: "Header list"
  rp_content :: string

definition Response_new :: Response where
  "Response_new = \<lparr>rp_status = None, rp_headers = [], rp_content = ''''\<rparr>"

definition header_buffers :: "Header \<Rightarrow> string" where
  "header_buffers h = hd_name h @ '': '' @ hd_value h @ crlf"

definition Response_to_buffers :: "Response \<Rightarrow> string res" where
  "Response_to_buffers r =
     (case rp_status r of
        None \<Rightarrow> Inl UndefinedBehaviour
      | Some st \<Rightarrow> Inr (status_buffer st @ concat (map header_buffers (rp_headers r)) @ crlf @ rp_content r))"

definition Response_set_header :: "Response \<Rightarrow> string \<Rightarrow> string \<Rightarrow> Response" where
  "Response_set_header r name val = r\<lparr>rp_headers := set_header (rp_headers r) name val\<rparr>"

definition Response_header :: "Response \<Rightarrow> string \<Rightarrow> string" where
  "Response_header r name = get_header (rp_headers r) name"

text \<open>\<open>WriteText\<close>, \<open>WriteHtml\<close> and \<open>WriteJson\<close> differ in the content type.\<close>

definition Response_write :: "string \<Rightarrow> Response \<Rightarrow> status_type \<Rightarrow> string \<Rightarrow> Response" where
  "Response_write content_type r code body =
     (let r = r\<lparr>rp_status := Some code, rp_content := body\<rparr>;
          r = Response_set_header r ''Content-Length'' (show_nat (length (rp_content r))) in
      Response_set_header r ''Content-Type'' content_type)"

definition WriteText :: "Response \<Rightarrow> status_type \<Rightarrow> string \<Rightarrow> Response" where
  "WriteText = Response_write ''text/plain''"

definition WriteHtml :: "Response \<Rightarrow> status_type \<Rightarrow> string \<Rightarrow> Response" where
  "WriteHtml = Response_write ''text/html''"

definition WriteJson :: "Response \<Rightarrow> status_type \<Rightarrow> json \<Rightarrow> Response res" where
  "WriteJson r code body =
     bindr (dump_default body) (\<lambda>s. Inr (Response_write ''application/json'' r code s))"

definition stock_reply :: "status_type \<Rightarrow> Response" where
  "stock_reply status =
     (let rep = Response_new\<lparr>rp_status := Some status\<rparr>;
          rep = rep\<lparr>rp_content := stock_content status\<rparr>;
          rep = Response_set_header rep ''Content-Length'' (show_nat (length (rp_content rep))) in
      Response_set_header rep ''Content-Type'' ''text/html'')"

section \<open>Scanning\<close>

text \<open>Both pointer loops stop at the first delimiter of the range or at its end.\<close>

lemma ConsumeUtil_loop_eq:
  assumes "p \<le> e" "e \<le> length b"
  shows "ConsumeUtil_loop b p e c = Inr (p + length (takeWhile (\<lambda>x. x \<noteq> c) (take (e - p) (drop p b))))"
  using assms
proof (induction b p e c rule: ConsumeUtil_loop.induct)
  case (1 b p e c)
  show ?case
  proof (cases "p = e")
    case False
    then have d: "take (e - p) (drop p b) = b ! p # take (e - Suc p) (drop (Suc p) b)"
      using 1(2,3) by (metis Cons_nth_drop_Suc Suc_diff_Suc le_neq_implies_less less_le_trans take_Suc_Cons)
    show ?thesis
      using 1 False unfolding ConsumeUtil_loop.simps [of b p e c] d by auto
  qed (simp add: ConsumeUtil_loop.simps)
qed

lemma GetNextToken_loop_eq:
  assumes "p \<le> e" "e \<le> length b"
  shows "GetNextToken_loop b p e c = p + length (takeWhile (\<lambda>x. x \<noteq> c) (take (e - p) (drop p b)))"
  using assms
proof (induction b p e c rule: GetNextToken_loop.induct)
  case (1 b p e c)
  show ?case
  proof (cases "p < e")
    case True
    then have d: "take (e - p) (drop p b) = b ! p # take (e - Suc p) (drop (Suc p) b)"
      using 1(3) by (metis Cons_nth_drop_Suc Suc_diff_Suc less_le_trans take_Suc_Cons)
    show ?thesis
      using 1 True unfolding GetNextToken_loop.simps [of b p e c] d by auto
  qed (use 1(2) in \<open>simp add: GetNextToken_loop.simps\<close>)
qed

text \<open>The text \<open>pre @ w @ [d] @ post\<close> scanned from behind \<open>pre\<close>.\<close>

lemma ConsumeUtil_at:
  assumes "b = pre @ w @ rest @ post" "c \<notin> set w" "rest \<noteq> [] \<Longrightarrow> hd rest = c" "length b \<le> kMaxSize"
  shows "ConsumeUtil b (length pre) (length pre + length w + length rest) c =
    Inr (\<lparr>sv_ptr = Some (b, length pre), sv_len = length w\<rparr>, length pre + length w)"
proof -
  have t: "take (length w + length rest) (drop (length pre) b) = w @ rest" using assms(1) by simp
  have tw: "takeWhile (\<lambda>x. x \<noteq> c) (w @ rest) = w"
    using assms(2,3) by (cases rest) (auto simp: takeWhile_append takeWhile_eq_all_conv)
  have "ConsumeUtil_loop b (length pre) (length pre + length w + length rest) c = Inr (length pre + length w)"
    using ConsumeUtil_loop_eq [of "length pre" "length pre + length w + length rest" b c] assms(1) t tw
    by (simp add: add.assoc)
  moreover have "length w \<le> kMaxSize" using assms(1,4) by simp
  ultimately show ?thesis by (simp add: ConsumeUtil_def sv_of_ptr_len_def CheckLengthInternal_def)
qed

lemma ConsumeUtil_str:
  "b = pre @ w @ post \<Longrightarrow> sv_to_basic_string \<lparr>sv_ptr = Some (b, length pre), sv_len = length w\<rparr> = w"
  by (simp add: sv_to_basic_string_def ptr_bytes_def sv_size_def)

definition url_text :: "string \<Rightarrow> string \<Rightarrow> string \<Rightarrow> string option \<Rightarrow> string" where
  "url_text s h p q = s @ ''://'' @ h @ p @ (case q of None \<Rightarrow> [] | Some x \<Rightarrow> ''?'' @ x)"

lemma query_bytes:
  assumes "b = pre @ ''?'' @ x @ [NUL]" "e = length pre + 1 + length x"
  shows "take (e - (length pre + 1)) (drop (length pre + 1) b) = x"
  using assms by simp

lemma Url_text:
  assumes "s \<noteq> []" "CHR '':'' \<notin> set s" "h \<noteq> []" "CHR ''/'' \<notin> set h"
    and "p \<noteq> [] \<Longrightarrow> hd p = CHR ''/''" "CHR ''?'' \<notin> set p" "p = [] \<Longrightarrow> q = None"
    and "length (url_text s h p q) < kMaxSize"
  shows "Url_new (sv_of_string (url_text s h p q)) =
    Inr \<lparr>scheme = s, host = h, raw_path = p, raw_query = (case q of None \<Rightarrow> [] | Some x \<Rightarrow> x)\<rparr>"
proof -
  let ?q = "case q of None \<Rightarrow> [] | Some x \<Rightarrow> CHR ''?'' # x"
  let ?b = "url_text s h p q @ [NUL]"
  let ?e = "length (url_text s h p q)"
  have b: "?b = s @ ''://'' @ h @ p @ ?q @ [NUL]" by (simp add: url_text_def split: option.splits)
  have e: "?e = length s + 3 + length h + length p + length ?q" by (simp add: url_text_def split: option.splits)
  have len: "length ?b \<le> kMaxSize" using assms(8) by simp
  have c1: "ConsumeUtil ?b 0 ?e CHR '':'' = Inr (\<lparr>sv_ptr = Some (?b, 0), sv_len = length s\<rparr>, length s)"
    using ConsumeUtil_at [of ?b "[]" s "''://'' @ h @ p @ ?q" "[NUL]" "CHR '':''"] b e len assms(2) by simp
  have r: "read_at ?b (length s + 1) = Inr (CHR ''/'')" "read_at ?b (length s + 1 + 1) = Inr (CHR ''/'')"
    "read_at ?b (length s + 1 + 2) = Inr (hd h)"
    using assms(3) unfolding b by (auto simp: read_at_def nth_append hd_conv_nth)
  have hh: "hd h \<noteq> CHR ''/''" using assms(3,4) hd_in_set by metis
  have c2: "ConsumeUtil ?b (length s + 1 + 2) ?e CHR ''/'' =
      Inr (\<lparr>sv_ptr = Some (?b, length s + 1 + 2), sv_len = length h\<rparr>, length s + 3 + length h)"
    using ConsumeUtil_at [of ?b "s @ ''://''" h "p @ ?q" "[NUL]" "CHR ''/''"] b e len assms(4,5,7)
    by (cases p) (simp_all add: add.assoc numeral_3_eq_3)
  have c3: "ConsumeUtil ?b (length s + 3 + length h) ?e CHR ''?'' =
      Inr (\<lparr>sv_ptr = Some (?b, length s + 3 + length h), sv_len = length p\<rparr>, length s + 3 + length h + length p)"
    using ConsumeUtil_at [of ?b "s @ ''://'' @ h" p ?q "[NUL]" "CHR ''?''"] b e len assms(6)
    by (simp add: add.assoc numeral_3_eq_3 split: option.splits)
  have str: "sv_to_basic_string \<lparr>sv_ptr = Some (?b, 0), sv_len = length s\<rparr> = s"
    "sv_to_basic_string \<lparr>sv_ptr = Some (?b, length s + 1 + 2), sv_len = length h\<rparr> = h"
    "sv_to_basic_string \<lparr>sv_ptr = Some (?b, length s + 3 + length h), sv_len = length p\<rparr> = p"
    using ConsumeUtil_str [of ?b "[]" s] ConsumeUtil_str [of ?b "s @ ''://''" h]
      ConsumeUtil_str [of ?b "s @ ''://'' @ h" p] b by (simp_all add: numeral_3_eq_3)
  have last: "read_at ?b (length s + 3 + length h + length p) = Inr (hd (?q @ [NUL]))"
    unfolding b by (cases q) (auto simp: read_at_def nth_append)
  have qd: "take (?e - (length s + 3 + length h + length p + 1)) (drop (length s + 3 + length h + length p + 1) ?b) = x"
    if "q = Some x" for x
    using query_bytes [of ?b "s @ ''://'' @ h @ p" x ?e] b e that by (simp add: numeral_3_eq_3)
  show ?thesis
    unfolding Url_new_def
    using c1 c2 c3 r hh str last qd assms(1,3) e
    by (cases q) (simp_all add: sv_of_string_def sv_base_def sv_length_def sv_size_def Let_def sv_empty_def
        Url_empty_def NUL_def)
qed

section \<open>Form data\<close>

definition form_key :: "string \<Rightarrow> string" where
  "form_key t = takeWhile (\<lambda>x. x \<noteq> CHR ''='') t"

definition form_val :: "string \<Rightarrow> string" where
  "form_val t = drop 1 (dropWhile (\<lambda>x. x \<noteq> CHR ''='') t)"

lemma FormData_param_eq:
  assumes "length t \<le> npos"
  shows "FormData_param m t = Inr (map_set m (form_key t) (form_val t))"
proof (cases "CHR ''='' \<in> set t")
  case True
  then obtain a c where t: "t = a @ CHR ''='' # c" "CHR ''='' \<notin> set a" by (meson split_list_first)
  then have tw: "takeWhile (\<lambda>x. x \<noteq> CHR ''='') t = a" "dropWhile (\<lambda>x. x \<noteq> CHR ''='') t = CHR ''='' # c"
    by (auto simp: takeWhile_append dropWhile_append takeWhile_eq_all_conv)
  then have "str_find_first_of t ''='' 0 = length a"
    using str_find_first_of_eq [of 0 t "''=''"] assms by simp
  moreover have "length a < npos" using t assms by simp
  ultimately show ?thesis using t assms tw by (simp add: FormData_param_def form_key_def form_val_def)
next
  case False
  then have tw: "takeWhile (\<lambda>x. x \<noteq> CHR ''='') t = t" "dropWhile (\<lambda>x. x \<noteq> CHR ''='') t = []"
    by (auto simp: takeWhile_eq_all_conv dropWhile_eq_Nil_conv)
  then have "str_find_first_of t ''='' 0 = npos"
    using str_find_first_of_eq [of 0 t "''=''"] assms by simp
  then have "FormData_param m t = Inr (map_set m t [])" by (simp add: FormData_param_def)
  then show ?thesis unfolding form_key_def form_val_def tw by simp
qed

lemma GetNextToken_eq:
  assumes "p \<le> e" "e \<le> length b" "s = take (e - p) (drop p b)"
  shows "fst (GetNextToken b p e c) = takeWhile (\<lambda>x. x \<noteq> c) s"
    "s \<noteq> [] \<Longrightarrow> snd (GetNextToken b p e c) = p + length (takeWhile (\<lambda>x. x \<noteq> c) s) + 1"
proof -
  have l: "GetNextToken_loop b p e c = p + length (takeWhile (\<lambda>x. x \<noteq> c) s)"
    using GetNextToken_loop_eq [OF assms(1,2)] assms(3) by simp
  have t: "take (length (takeWhile (\<lambda>x. x \<noteq> c) s)) (drop p b) = takeWhile (\<lambda>x. x \<noteq> c) s"
  proof -
    have "length (takeWhile (\<lambda>x. x \<noteq> c) s) \<le> e - p"
      using length_takeWhile_le [of "\<lambda>x. x \<noteq> c" s] assms(3) by simp
    then have "take (length (takeWhile (\<lambda>x. x \<noteq> c) s)) (drop p b) = take (length (takeWhile (\<lambda>x. x \<noteq> c) s)) s"
      unfolding assms(3) by simp
    then show ?thesis using takeWhile_eq_take [of "\<lambda>x. x \<noteq> c" s] by simp
  qed
  show "fst (GetNextToken b p e c) = takeWhile (\<lambda>x. x \<noteq> c) s"
    using l t assms(1,3) by (auto simp: GetNextToken_def)
  show "s \<noteq> [] \<Longrightarrow> snd (GetNextToken b p e c) = p + length (takeWhile (\<lambda>x. x \<noteq> c) s) + 1"
    using l assms(1,3) by (auto simp: GetNextToken_def)
qed

definition form_fold :: "FormData \<Rightarrow> string list \<Rightarrow> FormData" where
  "form_fold m ts = foldl (\<lambda>m t. map_set m (form_key t) (form_val t)) m (takeWhile (\<lambda>t. t \<noteq> []) ts)"

lemma split_on_empty_head: "takeWhile (\<lambda>x. x \<noteq> c) s = [] \<Longrightarrow> takeWhile (\<lambda>t. t \<noteq> []) (split_on c s) = []"
  by (cases c s rule: split_on_cases; cases s) (auto simp: takeWhile_append split: if_splits)

text \<open>The rest of the range behind the first token and its separator.\<close>

lemma range_rest:
  assumes "s = take (e - p) (drop p b)" "s = t @ c # r" "p \<le> e" "e \<le> length b"
  shows "p + length t + 1 \<le> e" "r = take (e - (p + length t + 1)) (drop (p + length t + 1) b)"
proof -
  have "length s = e - p" using assms(1,3,4) by simp
  then show "p + length t + 1 \<le> e" using assms(2,3) by simp
  have "take (e - (p + length t + 1)) (drop (p + length t + 1) b) = drop (length t + 1) s"
    unfolding assms(1) by (simp add: drop_take add.commute)
  then show "r = take (e - (p + length t + 1)) (drop (p + length t + 1) b)" using assms(2) by simp
qed

lemma FormData_Parse_loop_eq:
  assumes "e \<le> length b" "length b \<le> npos" "p \<le> e" "s = take (e - p) (drop p b)"
  shows "FormData_Parse_loop b e p m = Inr (form_fold m (split_on CHR ''&'' s))"
  using assms(3,4)
proof (induction "e - p" arbitrary: p s m rule: less_induct)
  case less
  let ?t = "takeWhile (\<lambda>x. x \<noteq> CHR ''&'') s"
  have ls: "length s = e - p" using less(2,3) assms(1) by simp
  have f: "fst (GetNextToken b p e CHR ''&'') = ?t" using GetNextToken_eq(1) [OF less(2) assms(1) less(3)] .
  have lt: "length ?t \<le> npos" using ls assms(1,2) length_takeWhile_le [of "\<lambda>x. x \<noteq> CHR ''&''" s] by linarith
  show ?case
  proof (cases "?t = []")
    case True
    then have "takeWhile (\<lambda>t. t \<noteq> []) (split_on CHR ''&'' s) = []" by (rule split_on_empty_head)
    then show ?thesis
      using f True by (subst FormData_Parse_loop.simps) (simp add: form_fold_def)
  next
    case False
    then have sn: "snd (GetNextToken b p e CHR ''&'') = p + length ?t + 1"
      using GetNextToken_eq(2) [OF less(2) assms(1) less(3)] by fastforce
    have step: "FormData_Parse_loop b e p m =
        FormData_Parse_loop b e (p + length ?t + 1) (map_set m (form_key ?t) (form_val ?t))"
      using f sn False lt by (subst FormData_Parse_loop.simps) (simp add: FormData_param_eq Let_def)
    show ?thesis
    proof (cases "CHR ''&'' \<in> set s")
      case True
      then obtain a r where ar: "s = a @ CHR ''&'' # r" "CHR ''&'' \<notin> set a" by (meson split_list_first)
      then have ta: "?t = a" by (auto simp: takeWhile_append takeWhile_eq_all_conv)
      then have s: "s = ?t @ CHR ''&'' # r" using ar(1) by simp
      have sp: "split_on CHR ''&'' s = ?t # split_on CHR ''&'' r" unfolding ta unfolding ar(1) using ar(2) by simp
      note le = range_rest(1) [OF less(3) s less(2) assms(1)] and r = range_rest(2) [OF less(3) s less(2) assms(1)]
      have "e - (p + length ?t + 1) < e - p" using le by simp
      from less(1) [OF this le r] show ?thesis
        using False sp step by (simp add: form_fold_def)
    next
      case False2: False
      then have t: "?t = s" by (auto simp: takeWhile_eq_all_conv)
      have "fst (GetNextToken b (p + length ?t + 1) e CHR ''&'') = []"
        unfolding t using ls less(2) by (simp add: GetNextToken_def)
      then have "FormData_Parse_loop b e (p + length ?t + 1) m' = Inr m'" for m'
        by (subst FormData_Parse_loop.simps) simp
      then show ?thesis using step False False2 unfolding t by (simp add: form_fold_def)
    qed
  qed
qed

lemma FormData_Parse_eq:
  assumes "length s < kMaxSize"
  shows "FormData_Parse m (sv_of_string s) = Inr (OkStatus, form_fold m (split_on CHR ''&'' s))"
proof -
  have "length (s @ [NUL]) \<le> npos" using assms by (simp add: kMaxSize_def npos_def)
  then show ?thesis
    using FormData_Parse_loop_eq [of "length s" "s @ [NUL]" 0 s m]
    by (simp add: FormData_Parse_def sv_of_string_def sv_base_def sv_length_def sv_size_def)
qed

definition form_token :: "string \<times> string \<Rightarrow> string" where
  "form_token kv = fst kv @ ''='' @ snd kv"

lemma join_Cons: "join d (w # ws) = (if ws = [] then w else w @ d # join d ws)"
  by (cases ws) simp_all

lemma Encode_join: "FormData_Encode m = join CHR ''&'' (map form_token m)"
proof -
  have "FormData_Encode_loop True m = (if m = [] then [] else ''&'' @ join CHR ''&'' (map form_token m))" for m
  proof (induction m)
    case (Cons kv m)
    then show ?case by (cases kv; cases m) (simp_all add: form_token_def)
  qed simp
  then show ?thesis
    by (cases m) (auto simp: FormData_Encode_def form_token_def join_Cons)
qed

definition form_ok :: "FormData \<Rightarrow> bool" where
  "form_ok m \<longleftrightarrow> map_ok m \<and>
     (\<forall>(k, v) \<in> set m. CHR ''&'' \<notin> set k \<and> CHR ''='' \<notin> set k \<and> CHR ''&'' \<notin> set v)"

lemma form_token_parts: "CHR ''='' \<notin> set k \<Longrightarrow> form_key (form_token (k, v)) = k \<and> form_val (form_token (k, v)) = v"
  by (auto simp: form_key_def form_val_def form_token_def takeWhile_append dropWhile_append takeWhile_eq_all_conv)

lemma form_fold_tokens:
  assumes "\<And>k v. (k, v) \<in> set kvs \<Longrightarrow> CHR ''='' \<notin> set k"
  shows "form_fold m (map form_token kvs) = foldl (\<lambda>m (k, v). map_set m k v) m kvs"
proof -
  have tw: "takeWhile (\<lambda>t. t \<noteq> []) (map form_token kvs) = map form_token kvs"
    by (auto simp: takeWhile_eq_all_conv form_token_def)
  show ?thesis
    unfolding form_fold_def tw using assms
  proof (induction kvs arbitrary: m)
    case (Cons kv kvs)
    obtain k v where kv: "kv = (k, v)" by fastforce
    then show ?case using Cons(1) Cons(2) [of k v] Cons(2) form_token_parts [of k v] by auto
  qed simp
qed

section \<open>Properties\<close>

text \<open>
  C36. Form data that contains no separator in its keys and no ampersand in its values is read back
  from its encoding unchanged.
\<close>

theorem FormData_roundtrip:
  assumes "form_ok m" "length (FormData_Encode m) < kMaxSize"
  shows "FormData_Parse [] (sv_of_string (FormData_Encode m)) = Inr (OkStatus, m)"
proof (cases "m = []")
  case False
  have "split_on CHR ''&'' (join CHR ''&'' (map form_token m)) = map form_token m"
    using False assms(1) by (intro split_on_join) (auto simp: form_ok_def form_token_def)
  then show ?thesis
    using FormData_Parse_eq [OF assms(2), of "[]"] form_fold_tokens [of m "[]"] map_rebuild [of m] assms(1)
    by (auto simp: Encode_join form_ok_def)
qed (use FormData_Parse_eq [of "[]" "[]"] assms in \<open>simp add: FormData_Encode_def form_fold_def kMaxSize_def\<close>)

theorem FormData_roundtrip_witness:
  "FormData_Parse [] (sv_of_string ''a=1&b=x=y'') = Inr (OkStatus, [(''a'', ''1''), (''b'', ''x=y'')])"
  using FormData_roundtrip [of "[(''a'', ''1''), (''b'', ''x=y'')]"]
  by (simp add: FormData_Encode_def form_ok_def map_ok_def kMaxSize_def)

text \<open>
  The constructor of \<open>Url\<close> recovers the parts of a URL \<open>scheme://host[/path][?query]\<close>; but a
  non-empty text without a colon makes it read behind the end of the text.
\<close>

theorem Url_parts:
  assumes "s \<noteq> []" "CHR '':'' \<notin> set s" "h \<noteq> []" "CHR ''/'' \<notin> set h"
    and "p \<noteq> [] \<Longrightarrow> hd p = CHR ''/''" "CHR ''?'' \<notin> set p" "p = [] \<Longrightarrow> q = None"
    and "length (url_text s h p q) < kMaxSize"
  shows "Url_new (sv_of_string (url_text s h p q)) =
      Inr \<lparr>scheme = s, host = h, raw_path = p, raw_query = (case q of None \<Rightarrow> [] | Some x \<Rightarrow> x)\<rparr> \<and>
    Url_new (sv_of_string s) = Inl UndefinedBehaviour"
proof
  have "length s < kMaxSize" using assms(8) by (simp add: url_text_def)
  then have "ConsumeUtil (s @ [NUL]) 0 (length s) CHR '':'' = Inr (\<lparr>sv_ptr = Some (s @ [NUL], 0), sv_len = length s\<rparr>, length s)"
    using ConsumeUtil_at [of "s @ [NUL]" "[]" s "[]" "[NUL]" "CHR '':''"] assms(2) by simp
  then show "Url_new (sv_of_string s) = Inl UndefinedBehaviour"
    using assms(1) by (simp add: Url_new_def sv_of_string_def sv_base_def sv_length_def sv_size_def Let_def
        sv_empty_def read_at_def)
qed (rule Url_text [OF assms])

theorem Url_parts_witness:
  "Url_new (sv_of_string ''http://h:80/a?b=1'') =
      Inr \<lparr>scheme = ''http'', host = ''h:80'', raw_path = ''/a'', raw_query = ''b=1''\<rparr> \<and>
    Url_new (sv_of_string ''http'') = Inl UndefinedBehaviour"
  using Url_parts [of "''http''" "''h:80''" "''/a''" "Some ''b=1''"] by (simp add: url_text_def kMaxSize_def)

end
