(* ===== verification/Http_Parser.thy ===== *)
theory Http_Parser
  imports Http_Message
begin

text \<open>
  The incremental request parser: \<^verbatim>\<open>cppboot/net/http/server/request_parser.h\<close> and
  \<^verbatim>\<open>request_parser.cc\<close>. \<open>consume\<close> is the state machine on single characters, \<open>parser_parse\<close> the loop over
  a block of input. The version numbers are C++ \<open>int\<close>s: an overflow is undefined behaviour.
\<close>

section \<open>The state machine\<close>

datatype parser_state =
    method_start | method_state | uri | http_version_h | http_version_t_1 | http_version_t_2
  | http_version_p | http_version_slash | http_version_major_start | http_version_major
  | http_version_minor_start | http_version_minor | expecting_newline_1 | header_line_start
  | header_lws | header_name | space_before_header_value | header_value
  | expecting_newline_2 | expecting_newline_3

datatype result_type = good | bad | indeterminate

definition parser_reset :: parser_state where
  "parser_reset = method_start"

definition is_char :: "int \<Rightarrow> bool" where
  "is_char c \<longleftrightarrow> 0 \<le> c \<and> c \<le> 127"

definition is_ctl :: "int \<Rightarrow> bool" where
  "is_ctl c \<longleftrightarrow> (0 \<le> c \<and> c \<le> 31) \<or> c = 127"

definition tspecials :: string where
  "tspecials = ''()<>@,;:'' @ [CHR 0x5C, CHR 0x22] @ ''/[]?={} '' @ [CHR 0x09]"

definition is_tspecial :: "char \<Rightarrow> bool" where
  "is_tspecial c \<longleftrightarrow> c \<in> set tspecials"

definition is_digit :: "int \<Rightarrow> bool" where
  "is_digit c \<longleftrightarrow> 48 \<le> c \<and> c \<le> 57"

text \<open>\<open>v * 10 + input - '0'\<close> on \<open>int\<close>, evaluated from left to right.\<close>

definition int_chk :: "int \<Rightarrow> int res" where
  "int_chk i = (if - (2 ^ 31) \<le> i \<and> i < 2 ^ 31 then Inr i else Inl UndefinedBehaviour)"

definition add_digit :: "int option \<Rightarrow> char \<Rightarrow> int option res" where
  "add_digit v input =
     (case v of
        None \<Rightarrow> Inl UndefinedBehaviour
      | Some v \<Rightarrow>
          bindr (int_chk (v * 10)) (\<lambda>i.
          bindr (int_chk (i + schar input)) (\<lambda>i.
          bindr (int_chk (i - 48)) (\<lambda>i. Inr (Some i)))))"

definition push_name :: "Header list \<Rightarrow> char \<Rightarrow> Header list res" where
  "push_name hs c =
     (if hs = [] then Inl UndefinedBehaviour
      else Inr (butlast hs @ [(last hs)\<lparr>hd_name := hd_name (last hs) @ [c]\<rparr>]))"

definition push_value :: "Header list \<Rightarrow> char \<Rightarrow> Header list res" where
  "push_value hs c =
     (if hs = [] then Inl UndefinedBehaviour
      else Inr (butlast hs @ [(last hs)\<lparr>hd_value := hd_value (last hs) @ [c]\<rparr>]))"

abbreviation not_token :: "char \<Rightarrow> bool" where
  "not_token input \<equiv> \<not> is_char (schar input) \<or> is_ctl (schar input) \<or> is_tspecial input"

text \<open>\<open>expect c s'\<close>: the states that accept one character only.\<close>

definition expect :: "char \<Rightarrow> parser_state \<Rightarrow> parser_state \<Rightarrow> Request \<Rightarrow> char
    \<Rightarrow> (result_type \<times> parser_state \<times> Request) res" where
  "expect c s' s req input = (if input = c then Inr (indeterminate, s', req) else Inr (bad, s, req))"

fun consume :: "parser_state \<Rightarrow> Request \<Rightarrow> char \<Rightarrow> (result_type \<times> parser_state \<times> Request) res" where
  "consume method_start req input =
     (if not_token input then Inr (bad, method_start, req)
      else Inr (indeterminate, method_state, req\<lparr>rq_method := rq_method req @ [input]\<rparr>))"
| "consume method_state req input =
     (if input = CHR '' '' then Inr (indeterminate, uri, req)
      else if not_token input then Inr (bad, method_state, req)
      else Inr (indeterminate, method_state, req\<lparr>rq_method := rq_method req @ [input]\<rparr>))"
| "consume uri req input =
     (if input = CHR '' '' then Inr (indeterminate, http_version_h, req)
      else if is_ctl (schar input) then Inr (bad, uri, req)
      else Inr (indeterminate, uri, req\<lparr>rq_uri := rq_uri req @ [input]\<rparr>))"
| "consume http_version_h req input = expect CHR ''H'' http_version_t_1 http_version_h req input"
| "consume http_version_t_1 req input = expect CHR ''T'' http_version_t_2 http_version_t_1 req input"
| "consume http_version_t_2 req input = expect CHR ''T'' http_version_p http_version_t_2 req input"
| "consume http_version_p req input = expect CHR ''P'' http_version_slash http_version_p req input"
| "consume http_version_slash req input =
     (if input = CHR ''/''
      then Inr (indeterminate, http_version_major_start, req\<lparr>rq_major := Some 0, rq_minor := Some 0\<rparr>)
      else Inr (bad, http_version_slash, req))"
| "consume http_version_major_start req input =
     (if is_digit (schar input)
      then bindr (add_digit (rq_major req) input) (\<lambda>v. Inr (indeterminate, http_version_major, req\<lparr>rq_major := v\<rparr>))
      else Inr (bad, http_version_major_start, req))"
| "consume http_version_major req input =
     (if input = CHR ''.'' then Inr (indeterminate, http_version_minor_start, req)
      else if is_digit (schar input)
      then bindr (add_digit (rq_major req) input) (\<lambda>v. Inr (indeterminate, http_version_major, req\<lparr>rq_major := v\<rparr>))
      else Inr (bad, http_version_major, req))"
| "consume http_version_minor_start req input =
     (if is_digit (schar input)
      then bindr (add_digit (rq_minor req) input) (\<lambda>v. Inr (indeterminate, http_version_minor, req\<lparr>rq_minor := v\<rparr>))
      else Inr (bad, http_version_minor_start, req))"
| "consume http_version_minor req input =
     (if input = CHR 0x0D then Inr (indeterminate, expecting_newline_1, req)
      else if is_digit (schar input)
      then bindr (add_digit (rq_minor req) input) (\<lambda>v. Inr (indeterminate, http_version_minor, req\<lparr>rq_minor := v\<rparr>))
      else Inr (bad, http_version_minor, req))"
| "consume expecting_newline_1 req input = expect CHR 0x0A header_line_start expecting_newline_1 req input"
| "consume header_line_start req input =
     (if input = CHR 0x0D then Inr (indeterminate, expecting_newline_3, req)
      else if rq_headers req \<noteq> [] \<and> (input = CHR '' '' \<or> input = CHR 0x09) then Inr (indeterminate, header_lws, req)
      else if not_token input then Inr (bad, header_line_start, req)
      else bindr (push_name (rq_headers req @ [\<lparr>hd_name = [], hd_value = []\<rparr>]) input) (\<lambda>hs.
             Inr (indeterminate, header_name, req\<lparr>rq_headers := hs\<rparr>)))"
| "consume header_lws req input =
     (if input = CHR 0x0D then Inr (indeterminate, expecting_newline_2, req)
      else if input = CHR '' '' \<or> input = CHR 0x09 then Inr (indeterminate, header_lws, req)
      else if is_ctl (schar input) then Inr (bad, header_lws, req)
      else bindr (push_value (rq_headers req) input) (\<lambda>hs.
             Inr (indeterminate, header_value, req\<lparr>rq_headers := hs\<rparr>)))"
| "consume header_name req input =
     (if input = CHR '':'' then Inr (indeterminate, space_before_header_value, req)
      else if not_token input then Inr (bad, header_name, req)
      else bindr (push_name (rq_headers req) input) (\<lambda>hs.
             Inr (indeterminate, header_name, req\<lparr>rq_headers := hs\<rparr>)))"
| "consume space_before_header_value req input = expect CHR '' '' header_value space_before_header_value req input"
| "consume header_value req input =
     (if input = CHR 0x0D then Inr (indeterminate, expecting_newline_2, req)
      else if is_ctl (schar input) then Inr (bad, header_value, req)
      else bindr (push_value (rq_headers req) input) (\<lambda>hs.
             Inr (indeterminate, header_value, req\<lparr>rq_headers := hs\<rparr>)))"
| "consume expecting_newline_2 req input = expect CHR 0x0A header_line_start expecting_newline_2 req input"
| "consume expecting_newline_3 req input =
     Inr (if input = CHR 0x0A then good else bad, expecting_newline_3, req)"

section \<open>Decoding\<close>

definition hex_digit :: "char \<Rightarrow> nat option" where
  "hex_digit c =
     (let n = of_char c :: nat in
      if 48 \<le> n \<and> n \<le> 57 then Some (n - 48)
      else if 97 \<le> n \<and> n \<le> 102 then Some (n - 87)
      else if 65 \<le> n \<and> n \<le> 70 then Some (n - 55)
      else None)"

text \<open>
  \<open>is >> std::hex >> value\<close> on a stream: blanks are skipped, a sign and a prefix \<open>0x\<close> are accepted,
  then as many hexadecimal digits as there are; without a digit the extraction fails. The streams
  here hold two characters, so the value is small.
\<close>

definition extract_hex :: "string \<Rightarrow> int option" where
  "extract_hex s =
     (let s = dropWhile c_isspace s;
          neg = (s \<noteq> [] \<and> hd s = CHR ''-'');
          s = (if s \<noteq> [] \<and> (hd s = CHR ''-'' \<or> hd s = CHR ''+'') then tl s else s);
          s = (if take 2 s = ''0x'' \<or> take 2 s = ''0X'' then drop 2 s else s);
          ds = takeWhile (\<lambda>c. hex_digit c \<noteq> None) s in
      if ds = [] then None
      else let v = foldl (\<lambda>n c. n * 16 + int (the (hex_digit c))) 0 ds in Some (if neg then - v else v))"

text \<open>The loop of \<open>UrlDecode\<close> on the rest of the input; the flag is the returned value.\<close>

fun UrlDecode_loop :: "string \<Rightarrow> string \<Rightarrow> bool \<times> string" where
  "UrlDecode_loop [] out = (True, out)"
| "UrlDecode_loop (c # cs) out =
     (if c = CHR ''%'' then
        (case cs of
           a # b # rest \<Rightarrow>
             (case extract_hex [a, b] of
                Some v \<Rightarrow> UrlDecode_loop rest (out @ [char_of (nat (v mod 256))])
              | None \<Rightarrow> (False, out))
         | _ \<Rightarrow> (False, out))
      else if c = CHR ''+'' then UrlDecode_loop cs (out @ '' '')
      else UrlDecode_loop cs (out @ [c]))"

definition UrlDecode :: "string \<Rightarrow> bool \<times> string" where
  "UrlDecode s = UrlDecode_loop s []"

definition parse_uri :: "Request \<Rightarrow> Request res" where
  "parse_uri req =
     (let sep = str_find_first_of (rq_uri req) ''?'' 0 in
      if sep = npos then Inr (req\<lparr>rq_path := rq_uri req\<rparr>)
      else
        bindr (str_substr (rq_uri req) 0 sep) (\<lambda>p.
        bindr (str_substr (rq_uri req) (sep + 1) npos) (\<lambda>q.
        bindr (FormData_Parse (rq_params req) (sv_of_string q)) (\<lambda>(st, ps).
        Inr (req\<lparr>rq_path := p, rq_params := ps\<rparr>)))))"

section \<open>A block of input\<close>

text \<open>The last component is the input that was not consumed.\<close>

fun parser_parse :: "parser_state \<Rightarrow> Request \<Rightarrow> string \<Rightarrow> (result_type \<times> parser_state \<times> Request \<times> string) res" where
  "parser_parse st req [] = Inr (indeterminate, st, req, [])"
| "parser_parse st req (c # cs) =
     bindr (consume st req c) (\<lambda>(result, st, req).
       case result of
         good \<Rightarrow>
           let req = req\<lparr>rq_content := cs\<rparr>;
               (ok, url_decode) = UrlDecode (rq_uri req);
               req = req\<lparr>rq_uri := url_decode\<rparr> in
           bindr (parse_uri req) (\<lambda>req. Inr (good, st, req, cs))
       | bad \<Rightarrow> Inr (bad, st, req, cs)
       | indeterminate \<Rightarrow> parser_parse st req cs)"

section \<open>Feeding characters\<close>

text \<open>The state after characters that neither complete nor spoil the request.\<close>

fun feed :: "parser_state \<Rightarrow> Request \<Rightarrow> string \<Rightarrow> (parser_state \<times> Request) option" where
  "feed st req [] = Some (st, req)"
| "feed st req (c # cs) =
     (case consume st req c of Inr (indeterminate, st', req') \<Rightarrow> feed st' req' cs | _ \<Rightarrow> None)"

lemma feed_Cons: "consume st req c = Inr (indeterminate, st', req') \<Longrightarrow> feed st req (c # cs) = feed st' req' cs"
  by simp

lemma feed_append: "feed st req s = Some (st', req') \<Longrightarrow> feed st req (s @ t) = feed st' req' t"
  by (induction st req s rule: feed.induct) (auto split: sum.splits prod.splits result_type.splits)

lemma feed_parse: "feed st req s = Some (st', req') \<Longrightarrow> parser_parse st req (s @ t) = parser_parse st' req' t"
  by (induction st req s rule: feed.induct) (auto split: sum.splits prod.splits result_type.splits)

abbreviation token_char :: "char \<Rightarrow> bool" where
  "token_char c \<equiv> \<not> not_token c"

definition text_char :: "char \<Rightarrow> bool" where
  "text_char c \<longleftrightarrow> \<not> is_ctl (schar c)"

lemma token_char_facts:
  assumes "token_char c"
  shows "c \<noteq> CHR '' '' \<and> c \<noteq> CHR '':'' \<and> c \<noteq> CHR 0x0D \<and> c \<noteq> CHR 0x09"
proof -
  have "is_tspecial CHR '' ''" "is_tspecial CHR '':''" "is_tspecial CHR 0x09" "is_ctl (schar CHR 0x0D)"
    by (simp_all add: is_tspecial_def tspecials_def is_ctl_def schar_def)
  then show ?thesis using assms by metis
qed

lemma text_char_facts: "text_char c \<Longrightarrow> c \<noteq> CHR 0x0D"
  by (auto simp: text_char_def is_ctl_def schar_def)

lemma feed_method:
  "list_all token_char s \<Longrightarrow> feed method_state req s = Some (method_state, req\<lparr>rq_method := rq_method req @ s\<rparr>)"
proof (induction s arbitrary: req)
  case (Cons c s)
  then show ?case using token_char_facts [of c] by auto
qed simp

lemma feed_method_start:
  assumes "list_all token_char m" "m \<noteq> []"
  shows "feed method_start req (m @ '' '') = Some (uri, req\<lparr>rq_method := rq_method req @ m\<rparr>)"
proof -
  obtain c s where m: "m = c # s" using assms(2) by (cases m) auto
  have "feed method_start req (m @ '' '') = feed method_state (req\<lparr>rq_method := rq_method req @ [c]\<rparr>) (s @ '' '')"
    using assms(1) by (simp add: m)
  also have "\<dots> = feed method_state (req\<lparr>rq_method := rq_method req @ m\<rparr>) '' ''"
    using feed_append [OF feed_method [of s]] assms(1) by (simp add: m)
  finally show ?thesis by simp
qed

lemma feed_uri:
  "list_all (\<lambda>c. text_char c \<and> c \<noteq> CHR '' '') s \<Longrightarrow> feed uri req s = Some (uri, req\<lparr>rq_uri := rq_uri req @ s\<rparr>)"
  by (induction s arbitrary: req) (auto simp: text_char_def)

lemma digit_step:
  assumes "d < 10" "v * 10 + 58 < 2 ^ 31"
  shows "is_digit (schar (digit_char d)) \<and> add_digit (Some (int v)) (digit_char d) = Inr (Some (int (v * 10 + d))) \<and>
    digit_char d \<noteq> CHR ''.'' \<and> digit_char d \<noteq> CHR 0x0D"
proof -
  have "of_char (digit_char d) = 48 + int d"
    using of_char_digit [OF assms(1)] of_nat_of_char [where 'a = int, of "digit_char d"] by simp
  then have s: "schar (digit_char d) = 48 + int d" using assms(1) by (simp add: schar_def)
  have "digit_char d \<noteq> CHR ''.''" "digit_char d \<noteq> CHR 0x0D"
    using s assms(1) by (auto simp: schar_def)
  then show ?thesis using assms s by (simp add: is_digit_def add_digit_def int_chk_def)
qed

lemma feed_major:
  assumes "n < 2 ^ 31 - 60" "rq_major req = Some 0"
  shows "feed http_version_major_start req (show_nat n) = Some (http_version_major, req\<lparr>rq_major := Some (int n)\<rparr>)"
  using assms
proof (induction n rule: show_nat.induct)
  case (1 n)
  show ?case
  proof (cases "n < 10")
    case True
    then show ?thesis using digit_step [of n 0] 1(3) by (subst show_nat.simps) simp
  next
    case False
    have "feed http_version_major (req\<lparr>rq_major := Some (int (n div 10))\<rparr>) [digit_char (n mod 10)] =
        Some (http_version_major, req\<lparr>rq_major := Some (int (n div 10 * 10 + n mod 10))\<rparr>)"
      using digit_step [of "n mod 10" "n div 10"] 1(2) by simp
    then show ?thesis
      using feed_append [OF 1(1) [OF False]] False 1(2,3) by (subst show_nat.simps) simp
  qed
qed

lemma feed_minor:
  assumes "n < 2 ^ 31 - 60" "rq_minor req = Some 0"
  shows "feed http_version_minor_start req (show_nat n) = Some (http_version_minor, req\<lparr>rq_minor := Some (int n)\<rparr>)"
  using assms
proof (induction n rule: show_nat.induct)
  case (1 n)
  show ?case
  proof (cases "n < 10")
    case True
    then show ?thesis using digit_step [of n 0] 1(3) by (subst show_nat.simps) simp
  next
    case False
    have "feed http_version_minor (req\<lparr>rq_minor := Some (int (n div 10))\<rparr>) [digit_char (n mod 10)] =
        Some (http_version_minor, req\<lparr>rq_minor := Some (int (n div 10 * 10 + n mod 10))\<rparr>)"
      using digit_step [of "n mod 10" "n div 10"] 1(2) by simp
    then show ?thesis
      using feed_append [OF 1(1) [OF False]] False 1(2,3) by (subst show_nat.simps) simp
  qed
qed

lemma feed_header_name:
  "list_all token_char s \<Longrightarrow> feed header_name (req\<lparr>rq_headers := hs @ [\<lparr>hd_name = n, hd_value = v\<rparr>]\<rparr>) s =
     Some (header_name, req\<lparr>rq_headers := hs @ [\<lparr>hd_name = n @ s, hd_value = v\<rparr>]\<rparr>)"
proof (induction s arbitrary: n)
  case (Cons c s)
  then show ?case using token_char_facts [of c] by (auto simp: push_name_def)
qed simp

lemma feed_header_value:
  "list_all text_char s \<Longrightarrow> feed header_value (req\<lparr>rq_headers := hs @ [\<lparr>hd_name = n, hd_value = v\<rparr>]\<rparr>) s =
     Some (header_value, req\<lparr>rq_headers := hs @ [\<lparr>hd_name = n, hd_value = v @ s\<rparr>]\<rparr>)"
proof (induction s arbitrary: v)
  case (Cons c s)
  then show ?case using text_char_facts [of c] by (auto simp: push_value_def text_char_def)
qed simp

definition header_ok :: "Header \<Rightarrow> bool" where
  "header_ok h \<longleftrightarrow> hd_name h \<noteq> [] \<and> list_all token_char (hd_name h) \<and> list_all text_char (hd_value h)"

lemma feed_header:
  assumes "header_ok h"
  shows "feed header_line_start req (header_buffers h) = Some (header_line_start, req\<lparr>rq_headers := rq_headers req @ [h]\<rparr>)"
proof -
  obtain c s v where h: "h = \<lparr>hd_name = c # s, hd_value = v\<rparr>" using assms by (cases h; cases "hd_name h") (auto simp: header_ok_def)
  have ok: "token_char c" "list_all token_char s" "list_all text_char v" using assms by (auto simp: header_ok_def h)
  let ?r = "\<lambda>n v. req\<lparr>rq_headers := rq_headers req @ [\<lparr>hd_name = n, hd_value = v\<rparr>]\<rparr>"
  have "feed header_line_start req (header_buffers h) = feed header_name (?r [c] []) (s @ '': '' @ v @ crlf)"
    using ok(1) token_char_facts [OF ok(1)] by (simp add: h header_buffers_def push_name_def)
  also have "\<dots> = feed header_name (?r (c # s) []) ('': '' @ v @ crlf)"
    using feed_append [OF feed_header_name [OF ok(2), of "rq_headers req" "[c]" "[]" req]] by simp
  also have "\<dots> = feed header_value (?r (c # s) []) (v @ crlf)" by (simp add: expect_def)
  also have "\<dots> = feed header_value (?r (c # s) v) crlf"
    using feed_append [OF feed_header_value [OF ok(3), of "rq_headers req" "c # s" "[]" req]] by simp
  finally show ?thesis by (simp add: crlf_def expect_def h)
qed

lemma feed_headers:
  "list_all header_ok hs \<Longrightarrow> feed header_line_start req (concat (map header_buffers hs)) =
     Some (header_line_start, req\<lparr>rq_headers := rq_headers req @ hs\<rparr>)"
proof (induction hs arbitrary: req)
  case (Cons h hs)
  then show ?case using feed_append [OF feed_header [of h req]] by simp
qed simp

section \<open>A whole request\<close>

definition request_head :: "string \<Rightarrow> string \<Rightarrow> nat \<Rightarrow> nat \<Rightarrow> Header list \<Rightarrow> string" where
  "request_head m u major minor hs =
     m @ '' '' @ u @ '' HTTP/'' @ show_nat major @ ''.'' @ show_nat minor @ crlf @ concat (map header_buffers hs)"

definition head_ok :: "string \<Rightarrow> string \<Rightarrow> nat \<Rightarrow> nat \<Rightarrow> Header list \<Rightarrow> bool" where
  "head_ok m u major minor hs \<longleftrightarrow> m \<noteq> [] \<and> list_all token_char m \<and>
     list_all (\<lambda>c. text_char c \<and> c \<noteq> CHR '' '') u \<and> major < 2 ^ 31 - 60 \<and> minor < 2 ^ 31 - 60 \<and> list_all header_ok hs"

definition head_request :: "string \<Rightarrow> string \<Rightarrow> nat \<Rightarrow> nat \<Rightarrow> Header list \<Rightarrow> Request" where
  "head_request m u major minor hs = Request_empty
     \<lparr>rq_method := m, rq_uri := u, rq_major := Some (int major), rq_minor := Some (int minor), rq_headers := hs\<rparr>"

lemma feed_head:
  assumes "head_ok m u major minor hs"
  shows "feed method_start Request_empty (request_head m u major minor hs) =
    Some (header_line_start, head_request m u major minor hs)"
proof -
  let ?r0 = "Request_empty\<lparr>rq_method := m\<rparr>"
  let ?r1 = "?r0\<lparr>rq_uri := u\<rparr>"
  let ?r2 = "?r1\<lparr>rq_major := Some 0, rq_minor := Some 0\<rparr>"
  have e: "rq_method Request_empty = []" "rq_uri ?r0 = []" "rq_headers ?r0 = []"
    by (simp_all add: Request_empty_def Request_of_def)
  note a = assms [unfolded head_ok_def]
  have "feed method_start Request_empty (request_head m u major minor hs) =
      feed uri ?r0 (u @ '' HTTP/'' @ show_nat major @ ''.'' @ show_nat minor @ crlf @ concat (map header_buffers hs))"
    using feed_append [OF feed_method_start [of m Request_empty]] a e by (simp add: request_head_def)
  also have "\<dots> = feed uri ?r1 ('' HTTP/'' @ show_nat major @ ''.'' @ show_nat minor @ crlf @ concat (map header_buffers hs))"
    using feed_append [OF feed_uri [of u ?r0]] a e by simp
  also have "\<dots> = feed http_version_major_start ?r2 (show_nat major @ ''.'' @ show_nat minor @ crlf @ concat (map header_buffers hs))"
    by (simp add: expect_def)
  also have "\<dots> = feed http_version_major (?r2\<lparr>rq_major := Some (int major)\<rparr>) (''.'' @ show_nat minor @ crlf @ concat (map header_buffers hs))"
    using feed_append [OF feed_major [of major ?r2]] a by simp
  also have "\<dots> = feed http_version_minor_start (?r2\<lparr>rq_major := Some (int major)\<rparr>) (show_nat minor @ crlf @ concat (map header_buffers hs))"
    by simp
  also have "\<dots> = feed http_version_minor (?r2\<lparr>rq_major := Some (int major), rq_minor := Some (int minor)\<rparr>) (crlf @ concat (map header_buffers hs))"
    using feed_append [OF feed_minor [of minor "?r2\<lparr>rq_major := Some (int major)\<rparr>"]] a by simp
  also have "\<dots> = feed header_line_start (?r2\<lparr>rq_major := Some (int major), rq_minor := Some (int minor)\<rparr>) (concat (map header_buffers hs))"
    by (simp add: crlf_def expect_def)
  finally show ?thesis using feed_headers [of hs] a e by (simp add: head_request_def)
qed

lemma feed_split:
  "feed st req (s @ t) = Some r \<Longrightarrow> \<exists>st' req'. feed st req s = Some (st', req') \<and> feed st' req' t = Some r"
  by (induction st req s rule: feed.induct) (auto split: sum.splits prod.splits result_type.splits)

lemma feed_parse_all: "feed st req s = Some (st', req') \<Longrightarrow> parser_parse st req s = Inr (indeterminate, st', req', [])"
  using feed_parse [of st req s st' req' "[]"] by simp

text \<open>What the parser makes of the decoded URI.\<close>

definition uri_path :: "string \<Rightarrow> string" where
  "uri_path u = takeWhile (\<lambda>c. c \<noteq> CHR ''?'') u"

definition uri_params :: "string \<Rightarrow> FormData" where
  "uri_params u = form_fold [] (split_on CHR ''&'' (drop 1 (dropWhile (\<lambda>c. c \<noteq> CHR ''?'') u)))"

lemma form_fold_Nil [simp]: "form_fold m [[]] = m"
  by (simp add: form_fold_def)

lemma parse_uri_eq:
  assumes "length (rq_uri req) < kMaxSize" "rq_params req = []"
  shows "parse_uri req = Inr (req\<lparr>rq_path := uri_path (rq_uri req), rq_params := uri_params (rq_uri req)\<rparr>)"
proof (cases "CHR ''?'' \<in> set (rq_uri req)")
  case True
  then obtain a b where u: "rq_uri req = a @ CHR ''?'' # b" "CHR ''?'' \<notin> set a" by (meson split_list_first)
  then have tw: "takeWhile (\<lambda>x. x \<noteq> CHR ''?'') (rq_uri req) = a" "dropWhile (\<lambda>x. x \<noteq> CHR ''?'') (rq_uri req) = CHR ''?'' # b"
    by (auto simp: takeWhile_append dropWhile_append takeWhile_eq_all_conv)
  have len: "length (rq_uri req) < npos" "kMaxSize \<le> npos" using assms(1) by (simp_all add: kMaxSize_def npos_def)
  then have f: "str_find_first_of (rq_uri req) ''?'' 0 = length a"
    using str_find_first_of_eq [of 0 "rq_uri req" "''?''"] tw by simp
  have "length b < kMaxSize" "length a < npos" "length b \<le> npos" using u len assms(1) by simp_all
  then show ?thesis
    using f u FormData_Parse_eq [of b "[]"] tw assms(2)
    by (simp add: parse_uri_def uri_path_def uri_params_def)
next
  case False
  then have tw: "takeWhile (\<lambda>x. x \<noteq> CHR ''?'') (rq_uri req) = rq_uri req" "dropWhile (\<lambda>x. x \<noteq> CHR ''?'') (rq_uri req) = []"
    by (auto simp: takeWhile_eq_all_conv dropWhile_eq_Nil_conv)
  have "str_find_first_of (rq_uri req) ''?'' 0 = npos"
    using str_find_first_of_eq [of 0 "rq_uri req" "''?''"] tw assms(1) by (simp add: kMaxSize_def npos_def)
  then have "parse_uri req = Inr (req\<lparr>rq_path := rq_uri req\<rparr>)" by (simp add: parse_uri_def)
  then show ?thesis unfolding uri_path_def uri_params_def tw using assms(2) by simp
qed

lemma UrlDecode_loop_length: "length (snd (UrlDecode_loop s out)) \<le> length out + length s"
proof (induction "length s" arbitrary: s out rule: less_induct)
  case less
  show ?case
  proof (cases s)
    case (Cons c cs)
    have le: "length (snd (UrlDecode_loop cs (out @ x))) \<le> Suc (length out + length cs)" if "length x = 1" for x
      using less [of cs "out @ x"] Cons that by simp
    show ?thesis
    proof (cases "c = CHR ''%'' \<and> (\<exists>a b rest v. cs = a # b # rest \<and> extract_hex [a, b] = Some v)")
      case True
      then obtain a b rest v where "c = CHR ''%''" "cs = a # b # rest" "extract_hex [a, b] = Some v" by blast
      then show ?thesis using less [of rest "out @ [char_of (nat (v mod 256))]"] Cons by simp
    next
      case False
      then show ?thesis using le [of "'' ''"] le [of "[c]"] Cons by (auto split: list.splits option.splits)
    qed
  qed simp
qed

lemma UrlDecode_length: "length (snd (UrlDecode s)) \<le> length s"
  using UrlDecode_loop_length [of s "[]"] by (simp add: UrlDecode_def)

definition parsed_request :: "string \<Rightarrow> string \<Rightarrow> nat \<Rightarrow> nat \<Rightarrow> Header list \<Rightarrow> string \<Rightarrow> Request" where
  "parsed_request m u major minor hs body = (head_request m u major minor hs)
     \<lparr>rq_content := body, rq_uri := snd (UrlDecode u), rq_path := uri_path (snd (UrlDecode u)),
      rq_params := uri_params (snd (UrlDecode u))\<rparr>"

lemma parse_last:
  assumes "length u < kMaxSize"
  shows "parser_parse expecting_newline_3 (head_request m u major minor hs) (CHR 0x0A # body) =
    Inr (good, expecting_newline_3, parsed_request m u major minor hs body, body)"
proof -
  let ?d = "snd (UrlDecode u)"
  let ?r = "(head_request m u major minor hs)\<lparr>rq_content := body, rq_uri := ?d\<rparr>"
  have h: "rq_uri (head_request m u major minor hs) = u" "rq_params (head_request m u major minor hs) = []"
    by (simp_all add: head_request_def Request_empty_def Request_of_def)
  have "length ?d < kMaxSize" using UrlDecode_length [of u] assms by linarith
  then have "parse_uri ?r = Inr (?r\<lparr>rq_path := uri_path ?d, rq_params := uri_params ?d\<rparr>)"
    using parse_uri_eq [of ?r] h by simp
  then show ?thesis by (simp add: h parsed_request_def split_beta Let_def)
qed

text \<open>The head up to the last line feed, cut anywhere.\<close>

lemma feed_full_head:
  "head_ok m u major minor hs \<Longrightarrow> feed method_start Request_empty (request_head m u major minor hs @ [CHR 0x0D]) =
    Some (expecting_newline_3, head_request m u major minor hs)"
  using feed_append [OF feed_head] by simp

lemma parse_tail:
  assumes "feed st req t = Some (expecting_newline_3, head_request m u major minor hs)" "length u < kMaxSize"
  shows "parser_parse st req (t @ [CHR 0x0A] @ body) =
    Inr (good, expecting_newline_3, parsed_request m u major minor hs body, body)"
  using feed_parse [OF assms(1)] parse_last [OF assms(2)] by simp

section \<open>Percent-encoding\<close>

definition hex_char :: "nat \<Rightarrow> char" where
  "hex_char d = (if d < 10 then char_of (48 + d) else char_of (55 + d))"

definition pct :: "char \<Rightarrow> string" where
  "pct c = [CHR ''%'', hex_char (of_char c div 16), hex_char (of_char c mod 16)]"

definition pct_encode :: "(char \<Rightarrow> bool) \<Rightarrow> string \<Rightarrow> string" where
  "pct_encode reserved s = concat (map (\<lambda>c. if reserved c then pct c else [c]) s)"

lemma hex_char_of_char: "d < 16 \<Longrightarrow> (of_char (hex_char d) :: nat) = (if d < 10 then 48 + d else 55 + d)"
  by (simp add: hex_char_def)

lemma hex_char_facts:
  assumes "d < 16"
  shows "hex_digit (hex_char d) = Some d" "\<not> c_isspace (hex_char d)" "hex_char d \<noteq> CHR ''-''"
    "hex_char d \<noteq> CHR ''+''" "hex_char d \<noteq> CHR ''x''" "hex_char d \<noteq> CHR ''X''"
proof -
  note h = hex_char_of_char [OF assms]
  show "hex_digit (hex_char d) = Some d" using h assms by (auto simp: hex_digit_def Let_def)
  show "\<not> c_isspace (hex_char d)" using h by (auto simp: c_isspace_def split: if_splits)
  show "hex_char d \<noteq> CHR ''-''" "hex_char d \<noteq> CHR ''+''" "hex_char d \<noteq> CHR ''x''" "hex_char d \<noteq> CHR ''X''"
    using h assms by (auto split: if_splits)
qed

lemma extract_pct: "extract_hex [hex_char (of_char c div 16), hex_char (of_char c mod 16)] = Some (int (of_char c))"
proof -
  have "(of_char c :: nat) < 16 * 16" by simp
  then have d: "of_char c div 16 < (16 :: nat)" "of_char c mod 16 < (16 :: nat)"
    by (simp_all only: less_mult_imp_div_less mod_less_divisor zero_less_numeral)
  have "int (of_char c div 16) * 16 + int (of_char c mod 16) = int (of_char c)"
    by (metis div_mult_mod_eq of_nat_add of_nat_mult of_nat_numeral)
  then show ?thesis
    using hex_char_facts [OF d(1)] hex_char_facts [OF d(2)] by (simp add: extract_hex_def)
qed

lemma UrlDecode_loop_pct:
  assumes "reserved CHR ''%''" "reserved CHR ''+''"
  shows "UrlDecode_loop (pct_encode reserved s) out = (True, out @ s)"
proof (induction s arbitrary: out)
  case (Cons c s)
  have "nat (int (of_char c) mod 256) = of_char c" by (simp add: nat_mod_as_int)
  then show ?case
    using Cons assms extract_pct [of c] by (auto simp: pct_encode_def pct_def)
qed (simp add: pct_encode_def)

section \<open>Properties\<close>

text \<open>
  C35. \<open>UrlDecode\<close> inverts percent-encoding, whichever characters beside \<open>%\<close> and \<open>+\<close> the encoder
  chooses to encode.
\<close>

theorem UrlDecode_pct:
  assumes "reserved CHR ''%''" "reserved CHR ''+''"
  shows "UrlDecode (pct_encode reserved s) = (True, s)"
  using UrlDecode_loop_pct [OF assms, of s "[]"] by (simp add: UrlDecode_def)

theorem UrlDecode_pct_witness:
  "UrlDecode (pct_encode (\<lambda>c. c \<in> set ''%+&'') ''a&b+c'') = (True, ''a&b+c'')"
  using UrlDecode_pct [of "\<lambda>c. c \<in> set ''%+&''" "''a&b+c''"] by simp

text \<open>The URI is decoded before it is split: an encoded ampersand in a value separates parameters.\<close>

lemma encoded_ampersand_splits:
  "uri_params (snd (UrlDecode ''/p?a=1%26b=2'')) = [(''a'', ''1''), (''b'', ''2'')]"
  by code_simp

end
