(* ===== verification/Http_Server.thy ===== *)
theory Http_Server
  imports Http_Parser Block_Reader
begin

text \<open>
  The HTTP server: \<^verbatim>\<open>cppboot/net/http/server/serve_mux.cc\<close>, \<^verbatim>\<open>file_server.cc\<close>, \<^verbatim>\<open>connection.cc\<close>,
  \<^verbatim>\<open>connection_manager.cc\<close> and the handler registration of \<^verbatim>\<open>cppboot/net/http/server.cc\<close>. The completion
  handlers of the sockets are functions from the outcome of the operation to the operations they
  start; the file system is a parameter.
\<close>

section \<open>ServeMux\<close>

text \<open>A handler may change the state \<open>'s\<close> its closure refers to, and may throw.\<close>

type_synonym 's Func = "'s \<Rightarrow> Request \<Rightarrow> Response \<Rightarrow> (Response \<times> 's) res"

record 's FuncEntry =
  fe_pattern :: string
  fe_fn :: "'s Func"

record 's ServeMux =
  mux_funcs :: "(string, 's FuncEntry) smap"
  mux_prefix_funcs :: "'s FuncEntry list"

definition ServeMux_new :: "'s ServeMux" where
  "ServeMux_new = \<lparr>mux_funcs = [], mux_prefix_funcs = []\<rparr>"

fun find_prefix :: "'s FuncEntry list \<Rightarrow> string \<Rightarrow> 's FuncEntry option res" where
  "find_prefix [] path = Inr None"
| "find_prefix (i # is) path =
     bindr (StartsWithIgnoreCase (sv_of_string path) (sv_of_string (fe_pattern i))) (\<lambda>b.
       if b then Inr (Some i) else find_prefix is path)"

definition ServeHttp :: "'s ServeMux \<Rightarrow> 's \<Rightarrow> Request \<Rightarrow> Response \<Rightarrow> (Request \<times> Response \<times> 's) res" where
  "ServeHttp mux s req resp =
     (case map_find (mux_funcs mux) (rq_path req) of
        Some f \<Rightarrow> bindr (fe_fn f s req resp) (\<lambda>(resp, s). Inr (req, resp, s))
      | None \<Rightarrow>
          bindr (find_prefix (mux_prefix_funcs mux) (rq_path req)) (\<lambda>i.
          case i of
            Some i \<Rightarrow>
              bindr (str_substr (rq_path req) (length (fe_pattern i) - 1) npos) (\<lambda>sub.
              let req = req\<lparr>rq_subpath := sub\<rparr> in
              bindr (fe_fn i s req resp) (\<lambda>(resp, s). Inr (req, resp, s)))
          | None \<Rightarrow> Inr (req, WriteText resp hs_not_found ''Not found'', s)))"

fun insert_prefix :: "'s FuncEntry \<Rightarrow> 's FuncEntry list \<Rightarrow> 's FuncEntry list" where
  "insert_prefix entry [] = [entry]"
| "insert_prefix entry (i # is) =
     (if length (fe_pattern entry) > length (fe_pattern i) then entry # i # is else i # insert_prefix entry is)"

definition set_handler :: "'s ServeMux \<Rightarrow> string \<Rightarrow> 's Func \<Rightarrow> 's ServeMux" where
  "set_handler mux pattern func =
     (if pattern = [] then mux
      else if map_find (mux_funcs mux) pattern \<noteq> None then mux
      else
        let entry = \<lparr>fe_pattern = pattern, fe_fn = func\<rparr>;
            mux = mux\<lparr>mux_funcs := map_set (mux_funcs mux) pattern entry\<rparr> in
        if last pattern = CHR ''/''
        then mux\<lparr>mux_prefix_funcs := insert_prefix entry (mux_prefix_funcs mux)\<rparr>
        else mux)"

section \<open>FileServer\<close>

record FileServer =
  fsv_root :: string
  fsv_files :: "(string, string) smap"

definition FileServer_new :: "string \<Rightarrow> FileServer" where
  "FileServer_new root' = \<lparr>fsv_root = root', fsv_files = []\<rparr>"

definition AddFile :: "FileServer \<Rightarrow> string \<Rightarrow> string \<Rightarrow> FileServer" where
  "AddFile f path content = f\<lparr>fsv_files := map_set (fsv_files f) path content\<rparr>"

definition set_root :: "FileServer \<Rightarrow> string \<Rightarrow> FileServer" where
  "set_root f root' = f\<lparr>fsv_root := root'\<rparr>"

definition mappings :: "(string \<times> string) list" where
  "mappings = [(''gif'', ''image/gif''), (''htm'', ''text/html''), (''html'', ''text/html''),
     (''jpg'', ''image/jpeg''), (''png'', ''image/png'')]"

definition ExtensionToType :: "string \<Rightarrow> string" where
  "ExtensionToType extension =
     (case map_of mappings extension of Some t \<Rightarrow> t | None \<Rightarrow> ''text/plain'')"

text \<open>The loop that reads blocks of 512 characters.\<close>

function read_file_loop :: "string \<Rightarrow> string \<Rightarrow> string" where
  "read_file_loop is content =
     (let buf = take 512 is in
      if length buf > 0 then read_file_loop (drop 512 is) (content @ buf) else content)"
  by pat_completeness auto
termination
  by (relation "measure (\<lambda>(is, content). length is)") auto

declare read_file_loop.simps [simp del]

definition resize_headers :: "Header list \<Rightarrow> Header list" where
  "resize_headers hs = take 2 (hs @ replicate 2 \<lparr>hd_name = [], hd_value = []\<rparr>)"

text \<open>
  \<open>ifs path\<close> is the content of the file that \<open>std::ifstream\<close> opens at a path, \<open>None\<close> when it cannot
  be opened. The second result is the path that was opened.
\<close>

definition FileServer_ServeHttp :: "(string \<Rightarrow> string option) \<Rightarrow> FileServer \<Rightarrow> Request \<Rightarrow> Response
    \<Rightarrow> (Response \<times> string option) res" where
  "FileServer_ServeHttp ifs f req rep =
     (let request_path = rq_subpath req in
      if request_path = [] \<or> request_path ! 0 \<noteq> CHR ''/'' \<or> str_find request_path ''..'' 0 \<noteq> npos
      then Inr (stock_reply hs_bad_request, None)
      else
        let request_path = (if request_path ! (length request_path - 1) = CHR ''/''
              then request_path @ ''index.html'' else request_path);
            last_slash_pos = str_find_last_of request_path ''/'';
            last_dot_pos = str_find_last_of request_path ''.'' in
        bindr (if last_dot_pos \<noteq> npos \<and> last_dot_pos > last_slash_pos
               then str_substr request_path (last_dot_pos + 1) npos else Inr '''') (\<lambda>extension.
        let full_path = c_str (fsv_root f @ request_path);
            reply = (\<lambda>content. rep\<lparr>rp_content := content, rp_status := Some hs_ok,
              rp_headers := (resize_headers (rp_headers rep))
                [0 := \<lparr>hd_name = ''Content-Length'', hd_value = show_nat (length content)\<rparr>,
                 1 := \<lparr>hd_name = ''Content-Type'', hd_value = ExtensionToType extension\<rparr>]\<rparr>) in
        case map_find (fsv_files f) request_path of
          Some content \<Rightarrow> Inr (reply content, None)
        | None \<Rightarrow>
            (case ifs full_path of
               None \<Rightarrow> Inr (stock_reply hs_not_found, Some full_path)
             | Some is \<Rightarrow> Inr (reply (read_file_loop is (rp_content rep)), Some full_path))))"

section \<open>Connections\<close>

datatype io_result = IoOk string | IoAborted | IoError

datatype http_action = AsyncRead | AsyncWrite string | ShutdownBoth | ManagerStop

record HttpConn =
  hc_parser :: parser_state
  hc_request :: Request
  hc_reply :: Response

definition HttpConn_new :: HttpConn where
  "HttpConn_new = \<lparr>hc_parser = parser_reset, hc_request = Request_empty, hc_reply = Response_new\<rparr>"

definition HttpConn_DoRead :: "http_action list" where
  "HttpConn_DoRead = [AsyncRead]"

definition HttpConn_Start :: "http_action list" where
  "HttpConn_Start = HttpConn_DoRead"

definition HttpConn_DoWrite :: "HttpConn \<Rightarrow> http_action list res" where
  "HttpConn_DoWrite c = bindr (Response_to_buffers (hc_reply c)) (\<lambda>b. Inr [AsyncWrite b])"

text \<open>The completion handler of the read.\<close>

definition HttpConn_on_read :: "'s ServeMux \<Rightarrow> 's \<Rightarrow> HttpConn \<Rightarrow> io_result \<Rightarrow> (HttpConn \<times> 's \<times> http_action list) res" where
  "HttpConn_on_read mux s c ec =
     (case ec of
        IoOk buffer \<Rightarrow>
          bindr (parser_parse (hc_parser c) (hc_request c) buffer) (\<lambda>(result, st, req, _).
          let c = c\<lparr>hc_parser := st, hc_request := req\<rparr> in
          case result of
            good \<Rightarrow>
              bindr (ServeHttp mux s (hc_request c) (hc_reply c)) (\<lambda>(req, resp, s).
              let c = c\<lparr>hc_request := req, hc_reply := resp\<rparr> in
              bindr (HttpConn_DoWrite c) (\<lambda>a. Inr (c, s, a)))
          | bad \<Rightarrow>
              let c = c\<lparr>hc_reply := stock_reply hs_bad_request\<rparr> in
              bindr (HttpConn_DoWrite c) (\<lambda>a. Inr (c, s, a))
          | indeterminate \<Rightarrow> Inr (c, s, HttpConn_DoRead))
      | IoAborted \<Rightarrow> Inr (c, s, [])
      | IoError \<Rightarrow> Inr (c, s, [ManagerStop]))"

text \<open>The completion handler of the write.\<close>

definition HttpConn_on_write :: "io_result \<Rightarrow> http_action list" where
  "HttpConn_on_write ec =
     (case ec of IoOk _ \<Rightarrow> [ShutdownBoth, ManagerStop] | IoAborted \<Rightarrow> [] | IoError \<Rightarrow> [ManagerStop])"

text \<open>The blocks a connection reads, as long as its handler asks for more.\<close>

fun conn_reads :: "'s ServeMux \<Rightarrow> 's \<Rightarrow> HttpConn \<Rightarrow> string list \<Rightarrow> (HttpConn \<times> 's \<times> http_action list) res" where
  "conn_reads mux s c [] = Inr (c, s, HttpConn_Start)"
| "conn_reads mux s c (b # bs) =
     bindr (HttpConn_on_read mux s c (IoOk b)) (\<lambda>(c, s, acts).
       if acts = [AsyncRead] then conn_reads mux s c bs else Inr (c, s, acts))"

section \<open>ConnectionManager and Server\<close>

text \<open>Connections are numbers; the result lists the calls made on them.\<close>

datatype conn_call = CallStart nat | CallStop nat

definition ConnectionManager_Start :: "nat set \<Rightarrow> nat \<Rightarrow> nat set \<times> conn_call list" where
  "ConnectionManager_Start cs c = (insert c cs, [CallStart c])"

definition ConnectionManager_Stop :: "nat set \<Rightarrow> nat \<Rightarrow> nat set \<times> conn_call list" where
  "ConnectionManager_Stop cs c = (cs - {c}, [CallStop c])"

definition ConnectionManager_StopAll :: "nat set \<Rightarrow> nat set \<times> conn_call list" where
  "ConnectionManager_StopAll cs = ({}, map CallStop (sorted_list_of_set cs))"

record 's HttpServer =
  hsv_open :: bool
  hsv_manager :: "nat set"
  hsv_handler :: "'s ServeMux"

definition HttpServer_new :: "'s HttpServer" where
  "HttpServer_new = \<lparr>hsv_open = False, hsv_manager = {}, hsv_handler = ServeMux_new\<rparr>"

text \<open>
  \<open>resolve\<close> is the resolver and \<open>acceptor\<close> opens, binds and listens; both may throw. The flag of the
  result says that an accept is started.
\<close>

definition HttpServer_Listen :: "(string \<Rightarrow> string \<Rightarrow> 'ep list res) \<Rightarrow> ('ep \<Rightarrow> unit res) \<Rightarrow> 's HttpServer \<Rightarrow> string \<Rightarrow> string
    \<Rightarrow> (Status \<times> 's HttpServer \<times> bool) res" where
  "HttpServer_Listen resolve acceptor sv address port =
     bindr (resolve address port) (\<lambda>eps.
     case eps of
       [] \<Rightarrow> Inl UndefinedBehaviour
     | ep # _ \<Rightarrow> bindr (acceptor ep) (\<lambda>_. Inr (OkStatus, sv\<lparr>hsv_open := True\<rparr>, True)))"

definition HttpServer_Handle :: "'s HttpServer \<Rightarrow> string \<Rightarrow> 's Func \<Rightarrow> 's HttpServer" where
  "HttpServer_Handle sv path func = sv\<lparr>hsv_handler := set_handler (hsv_handler sv) path func\<rparr>"

text \<open>The completion handler of an accept; the flag says whether the next accept is started.\<close>

definition HttpServer_on_accept :: "'s HttpServer \<Rightarrow> bool \<Rightarrow> nat \<Rightarrow> 's HttpServer \<times> conn_call list \<times> bool" where
  "HttpServer_on_accept sv ec socket =
     (if \<not> hsv_open sv then (sv, [], False)
      else if \<not> ec then
        let (cs, calls) = ConnectionManager_Start (hsv_manager sv) socket in
        (sv\<lparr>hsv_manager := cs\<rparr>, calls, True)
      else (sv, [], True))"

definition HttpServer_Shutdown :: "'s HttpServer \<Rightarrow> 's HttpServer \<times> conn_call list" where
  "HttpServer_Shutdown sv =
     (let sv = sv\<lparr>hsv_open := False\<rparr>;
          (cs, calls) = ConnectionManager_StopAll (hsv_manager sv) in
      (sv\<lparr>hsv_manager := cs\<rparr>, calls))"

section \<open>Choosing a handler\<close>

definition ci_prefix :: "string \<Rightarrow> string \<Rightarrow> bool" where
  "ci_prefix p t \<longleftrightarrow> prefix (map c_tolower p) (map c_tolower t)"

lemma StartsWithIgnoreCase_eq:
  assumes "length t < kMaxSize" "length p < kMaxSize"
  shows "StartsWithIgnoreCase (sv_of_string t) (sv_of_string p) = Inr (ci_prefix p t)"
proof (cases "length p \<le> length t")
  case True
  have ok: "sv_ok (sv_of_string t)" "sv_ok (sv_of_string p)" using assms by simp_all
  obtain u where u: "sv_substr (sv_of_string t) 0 (length p) = Inr u" "sv_ok u" "sv_str u = take (length p) (drop 0 t)"
    using sv_substr_Inr [OF ok(1), of 0 "length p"] by auto
  have "EqualsIgnoreCase u (sv_of_string p) \<longleftrightarrow> map c_tolower (take (length p) t) = map c_tolower p"
    using EqualsIgnoreCase_eq [OF u(2) ok(2)] u(3) by simp
  also have "\<dots> \<longleftrightarrow> ci_prefix p t"
    using True by (auto simp: ci_prefix_def prefix_def take_map [symmetric] dest: arg_cong [where f = "take (length p)"])
      (metis append_take_drop_id)
  finally show ?thesis using u(1) True by (simp add: StartsWithIgnoreCase_def sv_of_string_def sv_size_def)
next
  case False
  then have "\<not> ci_prefix p t" unfolding ci_prefix_def using prefix_length_le by fastforce
  then show ?thesis using False by (simp add: StartsWithIgnoreCase_def sv_of_string_def sv_size_def)
qed

definition longer :: "'s FuncEntry \<Rightarrow> 's FuncEntry \<Rightarrow> bool" where
  "longer a b \<longleftrightarrow> length (fe_pattern a) \<ge> length (fe_pattern b)"

definition mux_inv :: "'s ServeMux \<Rightarrow> bool" where
  "mux_inv mux \<longleftrightarrow> map_ok (mux_funcs mux) \<and> sorted_wrt longer (mux_prefix_funcs mux) \<and>
     map_find (mux_funcs mux) [] = None \<and>
     (\<forall>p e. map_find (mux_funcs mux) p = Some e \<longrightarrow> fe_pattern e = p) \<and>
     (\<forall>e. e \<in> set (mux_prefix_funcs mux) \<longleftrightarrow>
        fe_pattern e \<noteq> [] \<and> last (fe_pattern e) = CHR ''/'' \<and> map_find (mux_funcs mux) (fe_pattern e) = Some e)"

lemma mux_invD:
  assumes "mux_inv mux"
  shows "map_ok (mux_funcs mux)" "sorted_wrt longer (mux_prefix_funcs mux)" "map_find (mux_funcs mux) [] = None"
    "map_find (mux_funcs mux) p = Some e \<Longrightarrow> fe_pattern e = p"
    "e \<in> set (mux_prefix_funcs mux) \<longleftrightarrow>
        fe_pattern e \<noteq> [] \<and> last (fe_pattern e) = CHR ''/'' \<and> map_find (mux_funcs mux) (fe_pattern e) = Some e"
  using assms by (simp_all add: mux_inv_def)

lemma insert_prefix_set [simp]: "set (insert_prefix e es) = insert e (set es)"
  by (induction e es rule: insert_prefix.induct) auto

lemma insert_prefix_sorted: "sorted_wrt longer es \<Longrightarrow> sorted_wrt longer (insert_prefix e es)"
  by (induction e es rule: insert_prefix.induct) (auto simp: longer_def)

lemma set_handler_inv:
  assumes "mux_inv mux"
  shows "mux_inv (set_handler mux p f)"
proof (cases "p = [] \<or> map_find (mux_funcs mux) p \<noteq> None")
  case True
  then show ?thesis using assms by (auto simp: set_handler_def)
next
  case False
  let ?e = "\<lparr>fe_pattern = p, fe_fn = f\<rparr>"
  note i = mux_invD [OF assms]
  have new: "map_find (map_set (mux_funcs mux) p ?e) q = (if q = p then Some ?e else map_find (mux_funcs mux) q)" for q
    using i(1) by (simp add: map_find_set)
  have old: "e \<noteq> ?e \<and> fe_pattern e \<noteq> p" if "map_find (mux_funcs mux) (fe_pattern e) = Some e" for e
    using that False by auto
  have pre: "e \<in> set (mux_prefix_funcs (set_handler mux p f)) \<longleftrightarrow>
      fe_pattern e \<noteq> [] \<and> last (fe_pattern e) = CHR ''/'' \<and>
      map_find (map_set (mux_funcs mux) p ?e) (fe_pattern e) = Some e" for e
    using False i(5) [of e] old [of e] by (auto simp: set_handler_def Let_def new)
  have funcs: "mux_funcs (set_handler mux p f) = map_set (mux_funcs mux) p ?e"
    using False by (auto simp: set_handler_def Let_def)
  have sorted: "sorted_wrt longer (mux_prefix_funcs (set_handler mux p f))"
    using False i(2) insert_prefix_sorted by (auto simp: set_handler_def Let_def)
  show ?thesis
    unfolding mux_inv_def funcs using pre sorted i(1,3) i(4) False new by (auto simp: map_set_ok)
qed

definition mux_of :: "(string \<times> 's Func) list \<Rightarrow> 's ServeMux" where
  "mux_of hs = foldl (\<lambda>m (p, f). set_handler m p f) ServeMux_new hs"

lemma set_handler_find:
  assumes "mux_inv mux"
  shows "map_find (mux_funcs (set_handler mux p f)) q =
    (case map_find (mux_funcs mux) q of Some e \<Rightarrow> Some e
     | None \<Rightarrow> if q = p \<and> p \<noteq> [] then Some \<lparr>fe_pattern = p, fe_fn = f\<rparr> else None)"
  using mux_invD(1) [OF assms]
  by (auto simp: set_handler_def Let_def map_find_set split: option.splits)

lemma mux_of_snoc: "mux_of (hs @ [(p, f)]) = set_handler (mux_of hs) p f"
  by (simp add: mux_of_def)

lemma mux_of_inv: "mux_inv (mux_of hs)"
proof (induction hs rule: rev_induct)
  case Nil
  then show ?case by (simp add: mux_of_def ServeMux_new_def mux_inv_def)
next
  case (snoc h hs)
  then show ?case by (cases h) (simp add: mux_of_snoc set_handler_inv)
qed

text \<open>The first registration of a pattern counts.\<close>

lemma mux_of_find:
  "map_find (mux_funcs (mux_of hs)) q =
     (if q = [] then None else map_option (\<lambda>f. \<lparr>fe_pattern = q, fe_fn = f\<rparr>) (map_of hs q))"
proof (induction hs rule: rev_induct)
  case Nil
  then show ?case by (simp add: mux_of_def ServeMux_new_def)
next
  case (snoc h hs)
  then show ?case
    using mux_of_inv [of hs]
    by (cases h) (auto simp: mux_of_snoc set_handler_find map_add_def split: option.splits)
qed

lemma find_prefix_eq:
  assumes "length path < kMaxSize" "\<And>e. e \<in> set es \<Longrightarrow> length (fe_pattern e) < kMaxSize"
  shows "find_prefix es path = Inr (List.find (\<lambda>e. ci_prefix (fe_pattern e) path) es)"
  using assms(2) by (induction es) (auto simp: StartsWithIgnoreCase_eq [OF assms(1)])

lemma find_sorted:
  assumes "List.find P es = Some e" "sorted_wrt longer es" "e' \<in> set es" "P e'"
  shows "length (fe_pattern e') \<le> length (fe_pattern e)"
  using assms by (induction es) (auto simp: longer_def split: if_splits)

text \<open>The three ways a request is served.\<close>

lemma ServeHttp_exact:
  assumes "rq_path req \<noteq> []" "map_of hs (rq_path req) = Some f"
  shows "ServeHttp (mux_of hs) s req resp = bindr (f s req resp) (\<lambda>(resp, s). Inr (req, resp, s))"
  using assms by (simp add: ServeHttp_def mux_of_find)

definition matching :: "(string \<times> 's Func) list \<Rightarrow> string \<Rightarrow> string set" where
  "matching hs path = {p \<in> fst ` set hs. p \<noteq> [] \<and> last p = CHR ''/'' \<and> ci_prefix p path}"

lemma prefix_entry: "e \<in> set (mux_prefix_funcs (mux_of hs)) \<longleftrightarrow>
    fe_pattern e \<noteq> [] \<and> last (fe_pattern e) = CHR ''/'' \<and> map_of hs (fe_pattern e) = Some (fe_fn e)"
  using mux_invD(5) [OF mux_of_inv, of e hs] by (cases e) (auto simp: mux_of_find)

lemma prefix_lengths:
  assumes "\<And>p f. (p, f) \<in> set hs \<Longrightarrow> length p < kMaxSize"
  shows "e \<in> set (mux_prefix_funcs (mux_of hs)) \<Longrightarrow> length (fe_pattern e) < kMaxSize"
  using assms by (auto simp: prefix_entry dest: map_of_SomeD)

lemma ServeHttp_prefix:
  assumes "rq_path req = [] \<or> map_of hs (rq_path req) = None" "length (rq_path req) < kMaxSize"
    and "\<And>p f. (p, f) \<in> set hs \<Longrightarrow> length p < kMaxSize" "matching hs (rq_path req) \<noteq> {}"
  shows "\<exists>p f. p \<in> matching hs (rq_path req) \<and> map_of hs p = Some f \<and>
    (\<forall>p' \<in> matching hs (rq_path req). length p' \<le> length p) \<and>
    ServeHttp (mux_of hs) s req resp =
      bindr (f s (req\<lparr>rq_subpath := drop (length p - 1) (rq_path req)\<rparr>) resp)
        (\<lambda>(resp, s). Inr (req\<lparr>rq_subpath := drop (length p - 1) (rq_path req)\<rparr>, resp, s))"
proof -
  let ?es = "mux_prefix_funcs (mux_of hs)"
  let ?P = "\<lambda>e. ci_prefix (fe_pattern e) (rq_path req)"
  have fp: "find_prefix ?es (rq_path req) = Inr (List.find ?P ?es)"
    by (rule find_prefix_eq [OF assms(2)]) (rule prefix_lengths [OF assms(3)])
  have entry: "\<exists>e \<in> set ?es. fe_pattern e = p \<and> ?P e" if pm: "p \<in> matching hs (rq_path req)" for p
  proof -
    obtain f where "map_of hs p = Some f"
      using pm map_of_eq_None_iff [of hs p] by (cases "map_of hs p") (auto simp: matching_def)
    then show ?thesis using pm prefix_entry [of "\<lparr>fe_pattern = p, fe_fn = f\<rparr>" hs]
      by (intro bexI [of _ "\<lparr>fe_pattern = p, fe_fn = f\<rparr>"]) (auto simp: matching_def)
  qed
  then have "List.find ?P ?es \<noteq> None" using assms(4) by (auto simp: find_None_iff)
  then obtain e where e: "List.find ?P ?es = Some e" by blast
  have "e \<in> set ?es" "?P e" using e by (auto simp: find_Some_iff)
  then have m: "fe_pattern e \<in> matching hs (rq_path req)" "map_of hs (fe_pattern e) = Some (fe_fn e)"
    by (auto simp: prefix_entry matching_def dest: map_of_SomeD) (metis fst_conv image_eqI map_of_SomeD)
  have longest: "length p' \<le> length (fe_pattern e)" if "p' \<in> matching hs (rq_path req)" for p'
    using entry [OF that] find_sorted [OF e mux_invD(2) [OF mux_of_inv]] by blast
  have "length (fe_pattern e) \<le> length (rq_path req)"
    using \<open>?P e\<close> prefix_length_le by (fastforce simp: ci_prefix_def)
  moreover have "length (rq_path req) \<le> npos" using assms(2) by (simp add: kMaxSize_def npos_def)
  ultimately have "ServeHttp (mux_of hs) s req resp =
      bindr (fe_fn e s (req\<lparr>rq_subpath := drop (length (fe_pattern e) - 1) (rq_path req)\<rparr>) resp)
        (\<lambda>(resp, s). Inr (req\<lparr>rq_subpath := drop (length (fe_pattern e) - 1) (rq_path req)\<rparr>, resp, s))"
    using assms(1) fp e by (auto simp: ServeHttp_def mux_of_find Let_def)
  then show ?thesis using m longest by blast
qed

lemma ServeHttp_none:
  assumes "rq_path req = [] \<or> map_of hs (rq_path req) = None" "length (rq_path req) < kMaxSize"
    and "\<And>p f. (p, f) \<in> set hs \<Longrightarrow> length p < kMaxSize" "matching hs (rq_path req) = {}"
  shows "ServeHttp (mux_of hs) s req resp = Inr (req, WriteText resp hs_not_found ''Not found'', s)"
proof -
  let ?es = "mux_prefix_funcs (mux_of hs)"
  have fp: "find_prefix ?es (rq_path req) = Inr (List.find (\<lambda>e. ci_prefix (fe_pattern e) (rq_path req)) ?es)"
    by (rule find_prefix_eq [OF assms(2)]) (rule prefix_lengths [OF assms(3)])
  have "fe_pattern e \<in> matching hs (rq_path req)" if "e \<in> set ?es" "ci_prefix (fe_pattern e) (rq_path req)" for e
    using that by (auto simp: prefix_entry matching_def) (metis fst_conv image_eqI map_of_SomeD)
  then have "List.find (\<lambda>e. ci_prefix (fe_pattern e) (rq_path req)) ?es = None"
    using assms(4) by (auto simp: find_None_iff)
  then show ?thesis using assms(1) fp by (auto simp: ServeHttp_def mux_of_find)
qed

section \<open>Files\<close>

lemma read_file_loop_eq: "read_file_loop is content = content @ is"
  by (induction "is" content rule: read_file_loop.induct) (subst read_file_loop.simps, auto simp: Let_def)

lemma find_dotdot: "str_find p ''..'' 0 = npos \<Longrightarrow> length p < npos \<Longrightarrow> \<not> sublist ''..'' p"
proof -
  assume f: "str_find p ''..'' 0 = npos" "length p < npos"
  have "\<not> str_match_at p ''..'' j" if "j < Suc (length p)" for j
    using str_find_spec [of p "''..''" 0] f that by (auto simp: first_pos_def)
  moreover have "\<not> str_match_at p ''..'' j" if "j \<ge> Suc (length p)" for j
    using that by (simp add: str_match_at_def)
  ultimately show ?thesis unfolding sublist_match by (meson not_le)
qed

lemma sublist_pair: "sublist [c, d] s \<longleftrightarrow> (\<exists>i. Suc i < length s \<and> s ! i = c \<and> s ! Suc i = d)"
proof
  assume "sublist [c, d] s"
  then obtain x z where "s = x @ [c, d] @ z" by (auto simp: sublist_def)
  then have "Suc (length x) < length s \<and> s ! length x = c \<and> s ! Suc (length x) = d" by (simp add: nth_append)
  then show "\<exists>i. Suc i < length s \<and> s ! i = c \<and> s ! Suc i = d" by blast
next
  assume "\<exists>i. Suc i < length s \<and> s ! i = c \<and> s ! Suc i = d"
  then obtain i where i: "Suc i < length s" "s ! i = c" "s ! Suc i = d" by blast
  then have "drop i s = c # d # drop (Suc (Suc i)) s"
    by (metis Cons_nth_drop_Suc Suc_lessD)
  then have "s = take i s @ [c, d] @ drop (Suc (Suc i)) s"
    by (metis append_Cons append_Nil append_take_drop_id)
  then show "sublist [c, d] s" unfolding sublist_def by blast
qed

lemma index_html_dots: "i < 10 \<Longrightarrow> ''index.html'' ! i = CHR ''.'' \<Longrightarrow> i = 5"
proof -
  have "list_all (\<lambda>i. ''index.html'' ! i = CHR ''.'' \<longrightarrow> i = 5) [0..<10]" by code_simp
  then show "i < 10 \<Longrightarrow> ''index.html'' ! i = CHR ''.'' \<Longrightarrow> i = 5" by (simp add: list_all_iff)
qed

lemma sublist_index:
  assumes "\<not> sublist ''..'' p"
  shows "\<not> sublist ''..'' (p @ ''index.html'')"
proof
  assume "sublist ''..'' (p @ ''index.html'')"
  then obtain i where i: "Suc i < length (p @ ''index.html'')" "(p @ ''index.html'') ! i = CHR ''.''"
    "(p @ ''index.html'') ! Suc i = CHR ''.''" by (auto simp only: sublist_pair)
  show False
  proof (cases "Suc i < length p")
    case True
    then show ?thesis using i assms by (auto simp: sublist_pair nth_append)
  next
    case False
    then have "''index.html'' ! (Suc i - length p) = CHR ''.''" "Suc i - length p < 10"
      using i by (simp_all only: nth_append) auto
    then have "Suc i - length p = 5" using index_html_dots by blast
    then have "i - length p = 4" "\<not> i < length p" by auto
    then show ?thesis using i(2) by (simp add: nth_append)
  qed
qed

lemma FileServer_opened:
  assumes "FileServer_ServeHttp ifs f req rep = Inr (r, Some fp)" "length (rq_subpath req) < npos"
  shows "\<exists>p. fp = c_str (fsv_root f @ p) \<and> p \<noteq> [] \<and> hd p = CHR ''/'' \<and> \<not> sublist ''..'' p \<and>
    (p = rq_subpath req \<or> p = rq_subpath req @ ''index.html'')"
proof -
  let ?q = "rq_subpath req"
  let ?p = "if ?q ! (length ?q - 1) = CHR ''/'' then ?q @ ''index.html'' else ?q"
  have q: "?q \<noteq> []" "?q ! 0 = CHR ''/''" "str_find ?q ''..'' 0 = npos"
    using assms(1) by (auto simp: FileServer_ServeHttp_def Let_def split: if_splits)
  have "fp = c_str (fsv_root f @ ?p)"
    using assms(1) q
    by (auto simp: FileServer_ServeHttp_def Let_def bindr_Inr_iff split: option.splits if_splits)
  moreover have "\<not> sublist ''..'' ?p"
    using find_dotdot [OF q(3) assms(2)] sublist_index by simp
  moreover have "?p \<noteq> [] \<and> hd ?p = CHR ''/''" using q(1,2) by (cases ?q) simp_all
  ultimately show ?thesis by (intro exI [of _ ?p]) simp
qed

lemma resize_headers_length [simp]: "length (resize_headers hs) = 2"
  by (simp add: resize_headers_def)

lemma two_updates: "length hs = 2 \<Longrightarrow> hs[0 := a, Suc 0 := b] = [a, b]"
  by (cases hs rule: remdups_adj.cases) auto

text \<open>The headers of a served file: exactly the length and the type.\<close>

lemma FileServer_ok_headers:
  assumes "FileServer_ServeHttp ifs f req rep = Inr (r, o1)" "rp_status r = Some hs_ok"
  shows "\<exists>t. rp_headers r = [\<lparr>hd_name = ''Content-Length'', hd_value = show_nat (length (rp_content r))\<rparr>,
    \<lparr>hd_name = ''Content-Type'', hd_value = t\<rparr>]"
proof -
  have "rp_status (stock_reply st) = Some st" for st
    by (simp add: stock_reply_def Response_set_header_def)
  then show ?thesis
    using assms
    by (auto simp: FileServer_ServeHttp_def Let_def bindr_Inr_iff two_updates split: option.splits if_splits)
qed

section \<open>A connection\<close>

text \<open>
  A connection as a \<open>block_consumer\<close>: it reports the operations its handler starts, waits for the
  rest of a request head and then answers what the dispatcher replies to the request.
\<close>

definition conn_on_block :: "'s ServeMux \<Rightarrow> HttpConn \<times> 's \<Rightarrow> string \<Rightarrow> (http_action list \<times> HttpConn \<times> 's) res" where
  "conn_on_block mux cs block =
     (case cs of (c, s) \<Rightarrow> bindr (HttpConn_on_read mux s c (IoOk block)) (\<lambda>(c, s, acts). Inr (acts, (c, s))))"

definition conn_waits :: "Request \<Rightarrow> 's \<Rightarrow> HttpConn \<times> 's \<Rightarrow> string \<Rightarrow> bool" where
  "conn_waits head s0 cs rest \<longleftrightarrow> (case cs of (c, s) \<Rightarrow> s = s0 \<and> hc_reply c = Response_new \<and>
     (\<exists>t. rest = t @ [CHR 0x0A] \<and> feed (hc_parser c) (hc_request c) t = Some (expecting_newline_3, head)))"

lemma on_read_more:
  assumes "conn_waits head s0 (c, s) (x @ rest)" "rest \<noteq> []"
  shows "\<exists>c'. HttpConn_on_read mux s c (IoOk x) = Inr (c', s, [AsyncRead]) \<and> conn_waits head s0 (c', s) rest"
proof -
  obtain t where t: "rest = t @ [CHR 0x0A]"
    "feed (hc_parser c) (hc_request c) (x @ t) = Some (expecting_newline_3, head)"
    using assms by (cases rest rule: rev_cases) (auto simp: conn_waits_def)
  then obtain st req where f: "feed (hc_parser c) (hc_request c) x = Some (st, req)"
    "feed st req t = Some (expecting_newline_3, head)"
    using feed_split by blast
  then show ?thesis
    using feed_parse_all [OF f(1)] t(1) assms(1)
    by (simp add: HttpConn_on_read_def HttpConn_DoRead_def conn_waits_def)
qed

lemma on_read_final:
  assumes "conn_waits (head_request m u major minor hs) s0 (c, s) x" "length u < kMaxSize"
    and "ServeHttp mux s0 (parsed_request m u major minor hs y) Response_new = Inr (req', resp, s')"
    and "Response_to_buffers resp = Inr bytes"
  shows "\<exists>c'. HttpConn_on_read mux s c (IoOk (x @ y)) = Inr (c', s', [AsyncWrite bytes])"
proof -
  obtain t where t: "x = t @ [CHR 0x0A]"
    "feed (hc_parser c) (hc_request c) t = Some (expecting_newline_3, head_request m u major minor hs)"
    using assms(1) by (auto simp: conn_waits_def)
  then show ?thesis
    using parse_tail [OF t(2) assms(2), of y] assms
    by (simp add: HttpConn_on_read_def HttpConn_DoWrite_def conn_waits_def)
qed

interpretation conn: block_consumer "conn_on_block mux" "conn_waits (head_request m u major minor hs) s0" "[AsyncRead]"
  "\<lambda>y. length u < kMaxSize \<and> Response_to_buffers resp = Inr bytes \<and>
     (\<exists>req'. ServeHttp mux s0 (parsed_request m u major minor hs y) Response_new = Inr (req', resp, s'))"
  "\<lambda>_. [AsyncWrite bytes]" "\<lambda>_ cs. snd cs = s'"
proof
  fix cs and x rest :: string
  assume "conn_waits (head_request m u major minor hs) s0 cs (x @ rest)" "rest \<noteq> []"
  then show "\<exists>cs'. conn_on_block mux cs x = Inr ([AsyncRead], cs') \<and> conn_waits (head_request m u major minor hs) s0 cs' rest"
    using on_read_more [of "head_request m u major minor hs" s0 "fst cs" "snd cs" x rest mux]
    by (cases cs) (auto simp: conn_on_block_def)
next
  fix cs and x y :: string
  assume "conn_waits (head_request m u major minor hs) s0 cs x"
    "length u < kMaxSize \<and> Response_to_buffers resp = Inr bytes \<and>
     (\<exists>req'. ServeHttp mux s0 (parsed_request m u major minor hs y) Response_new = Inr (req', resp, s'))"
  then show "\<exists>cs'. conn_on_block mux cs (x @ y) = Inr ([AsyncWrite bytes], cs') \<and> snd cs' = s'"
    using on_read_final [of m u major minor hs s0 "fst cs" "snd cs" x mux y _ resp s' bytes]
    by (cases cs) (fastforce simp: conn_on_block_def)
qed

text \<open>A connection reads on as long as the handler only starts another read.\<close>

lemma conn_reads_block:
  "block_reads (conn_on_block mux) (c, s) (bs @ [b]) = Inr (replicate (length bs) [AsyncRead] @ [acts], (c', s')) \<Longrightarrow>
   acts \<noteq> [AsyncRead] \<Longrightarrow> conn_reads mux s c (bs @ [b]) = Inr (c', s', acts)"
  by (induction bs arbitrary: c s) (auto simp: conn_on_block_def bindr_Inr_iff)

lemma conn_reads_done:
  "conn_reads mux s c bs = Inr (c', s', [AsyncWrite bytes]) \<Longrightarrow>
   conn_reads mux s c (bs @ later) = Inr (c', s', [AsyncWrite bytes])"
proof (induction bs arbitrary: c s)
  case (Cons b bs)
  then show ?case
    by (cases "HttpConn_on_read mux s c (IoOk b)") (auto split: if_splits)
qed (simp add: HttpConn_Start_def HttpConn_DoRead_def)

lemma conn_serves:
  assumes "head_ok m u major minor hs" "length u < kMaxSize"
    and "concat bs @ x = request_head m u major minor hs @ crlf" "x \<noteq> []"
    and "ServeHttp mux s (parsed_request m u major minor hs y) Response_new = Inr (req', resp, s')"
    and "Response_to_buffers resp = Inr bytes"
  shows "\<exists>c'. conn_reads mux s HttpConn_new (bs @ [x @ y]) = Inr (c', s', [AsyncWrite bytes])"
proof -
  have "feed method_start Request_empty (request_head m u major minor hs @ [CHR 0x0D]) =
      Some (expecting_newline_3, head_request m u major minor hs)"
    by (rule feed_full_head [OF assms(1)])
  then have w: "conn_waits (head_request m u major minor hs) s (HttpConn_new, s) (concat bs @ x)"
    unfolding assms(3) by (simp add: conn_waits_def HttpConn_new_def parser_reset_def crlf_def)
  obtain c' where "block_reads (conn_on_block mux) (HttpConn_new, s) (bs @ [x @ y]) =
      Inr (replicate (length bs) [AsyncRead] @ [[AsyncWrite bytes]], (c', s'))"
    using conn.delivers [OF w assms(4), of resp bytes mux y s'] assms(2,5,6) by auto
  from conn_reads_block [OF this] show ?thesis by simp
qed

section \<open>Properties\<close>

text \<open>
  C22. Dispatch: an exactly registered path goes to the handler registered first for it; otherwise the
  handler of the longest registered directory pattern that is a prefix of the path (ignoring case)
  is called with the rest of the path, from its slash on, as \<open>subpath\<close>; otherwise the reply is 404.
\<close>

theorem ServeMux_dispatch:
  assumes "length (rq_path req) < kMaxSize" "\<And>p f. (p, f) \<in> set hs \<Longrightarrow> length p < kMaxSize"
  shows "case (if rq_path req = [] then None else map_of hs (rq_path req)) of
      Some f \<Rightarrow> ServeHttp (mux_of hs) s req resp = bindr (f s req resp) (\<lambda>(resp, s). Inr (req, resp, s))
    | None \<Rightarrow>
        if matching hs (rq_path req) = {}
        then ServeHttp (mux_of hs) s req resp = Inr (req, WriteText resp hs_not_found ''Not found'', s)
        else \<exists>p f. p \<in> matching hs (rq_path req) \<and> map_of hs p = Some f \<and>
          (\<forall>p' \<in> matching hs (rq_path req). length p' \<le> length p) \<and>
          ServeHttp (mux_of hs) s req resp =
            bindr (f s (req\<lparr>rq_subpath := drop (length p - 1) (rq_path req)\<rparr>) resp)
              (\<lambda>(resp, s). Inr (req\<lparr>rq_subpath := drop (length p - 1) (rq_path req)\<rparr>, resp, s))"
proof (cases "if rq_path req = [] then None else map_of hs (rq_path req)")
  case None
  then have n: "rq_path req = [] \<or> map_of hs (rq_path req) = None" by (auto split: if_splits)
  show ?thesis
    unfolding None using ServeHttp_none [OF n assms] ServeHttp_prefix [OF n assms] by simp
next
  case (Some f)
  then have "rq_path req \<noteq> []" "map_of hs (rq_path req) = Some f" by (auto split: if_splits)
  then show ?thesis unfolding Some using ServeHttp_exact [of req hs f s resp] by simp
qed

theorem ServeMux_dispatch_witness:
  "ServeHttp (mux_of [(''/a/'', \<lambda>s req resp. Inr (WriteText resp hs_ok (rq_subpath req), s))]) ()
     (Request_empty\<lparr>rq_path := ''/A/b''\<rparr>) Response_new =
   Inr (Request_empty\<lparr>rq_path := ''/A/b'', rq_subpath := ''/b''\<rparr>, WriteText Response_new hs_ok ''/b'', ())"
proof -
  let ?hs = "[(''/a/'', \<lambda>s req resp. Inr (WriteText resp hs_ok (rq_subpath req), s))] :: (string \<times> unit Func) list"
  have "prefix (map c_tolower ''/a/'') (map c_tolower ''/A/b'')" by code_simp
  then have m: "matching ?hs ''/A/b'' = {''/a/''}" by (auto simp: matching_def ci_prefix_def)
  show ?thesis
    using ServeMux_dispatch [of "Request_empty\<lparr>rq_path := ''/A/b''\<rparr>" ?hs "()" Response_new] m
    by (auto simp: kMaxSize_def)
qed

text \<open>
  C24. The file server never opens a path outside its root: what it opens is its root followed by an
  absolute path that contains no \<open>..\<close> (cut at a NUL). A served file has exactly the two headers,
  with the length of the content.
\<close>

theorem FileServer_confined:
  assumes "FileServer_ServeHttp ifs f req rep = Inr (r, opened)" "length (rq_subpath req) < npos"
  shows "(\<forall>fp. opened = Some fp \<longrightarrow> (\<exists>p. fp = c_str (fsv_root f @ p) \<and> p \<noteq> [] \<and> hd p = CHR ''/'' \<and>
      \<not> sublist ''..'' p \<and> (p = rq_subpath req \<or> p = rq_subpath req @ ''index.html''))) \<and>
    (rp_status r = Some hs_ok \<longrightarrow> (\<exists>t. rp_headers r =
      [\<lparr>hd_name = ''Content-Length'', hd_value = show_nat (length (rp_content r))\<rparr>,
       \<lparr>hd_name = ''Content-Type'', hd_value = t\<rparr>]))"
  using FileServer_opened [of ifs f req rep r] FileServer_ok_headers [OF assms(1)] assms by auto

theorem FileServer_confined_witness:
  "(\<exists>r. FileServer_ServeHttp (\<lambda>p. if p = ''/srv/a/index.html'' then Some ''hi'' else None) (FileServer_new ''/srv'')
     (Request_empty\<lparr>rq_subpath := ''/a/''\<rparr>) Response_new = Inr (r, Some ''/srv/a/index.html'') \<and>
     rp_content r = ''hi'') \<and>
   (\<exists>p. ''/srv/a/index.html'' = c_str (''/srv'' @ p) \<and> \<not> sublist ''..'' p)"
proof -
  let ?f = "\<lambda>p. if p = ''/srv/a/index.html'' then Some ''hi'' else None"
  let ?q = "Request_empty\<lparr>rq_subpath := ''/a/''\<rparr>"
  have "str_find ''/a/'' ''..'' 0 = npos"
    unfolding str_find_def by (intro scan_up_none) (auto simp: str_match_at_def less_Suc_eq)
  moreover have "c_str ''/srv/a/index.html'' = ''/srv/a/index.html''" by (simp add: c_str_def NUL_def)
  moreover have "\<exists>e. (if str_find_last_of ''/a/index.html'' ''.'' \<noteq> npos \<and>
      str_find_last_of ''/a/index.html'' ''.'' > str_find_last_of ''/a/index.html'' ''/''
      then str_substr ''/a/index.html'' (str_find_last_of ''/a/index.html'' ''.'' + 1) npos else Inr '''') = Inr e"
    using str_find_last_of_spec [of "''/a/index.html''" "''.''"] by (auto simp: last_pos_def)
  ultimately obtain r where r: "FileServer_ServeHttp ?f (FileServer_new ''/srv'') ?q Response_new =
      Inr (r, Some ''/srv/a/index.html'')" "rp_content r = ''hi''"
    by (auto simp: FileServer_ServeHttp_def Let_def FileServer_new_def Response_new_def read_file_loop_eq)
  have "length (rq_subpath ?q) < npos" by (simp add: npos_def)
  from FileServer_confined [OF r(1) this] r show ?thesis by (auto simp: FileServer_new_def)
qed

text \<open>
  A file server registered for a directory pattern answers 400 for that very path: the exact match
  does not set \<open>subpath\<close>.
\<close>

lemma FileServer_mount_point_rejected:
  assumes "p \<noteq> []" "rq_path req = p" "rq_subpath req = []"
  shows "ServeHttp (mux_of [(p, \<lambda>s req rep. bindr (FileServer_ServeHttp ifs f req rep) (\<lambda>(r, _). Inr (r, s)))]) s req resp =
    Inr (req, stock_reply hs_bad_request, s)"
proof -
  let ?h = "\<lambda>s req rep. bindr (FileServer_ServeHttp ifs f req rep) (\<lambda>(r, _). Inr (r, s))"
  have fs: "FileServer_ServeHttp ifs f req resp = Inr (stock_reply hs_bad_request, None)"
    using assms(3) by (simp add: FileServer_ServeHttp_def)
  have "ServeHttp (mux_of [(p, ?h)]) s req resp = bindr (?h s req resp) (\<lambda>(resp, s). Inr (req, resp, s))"
    by (rule ServeHttp_exact) (simp_all add: assms(1,2))
  also have "\<dots> = Inr (req, stock_reply hs_bad_request, s)" unfolding fs by simp
  finally show ?thesis .
qed

text \<open>
  C15. A connection that reads a well-formed request head, cut into blocks in any way, calls the
  dispatcher once, with the method, the decoded URI, its path and parameters, the version and all
  headers, and writes the reply. The content it passes on is what the block with the end of the
  head holds behind it; later blocks of the body are not read.
\<close>

theorem connection_serves:
  assumes "head_ok m u major minor hs" "length u < kMaxSize"
    and "concat bs @ x = request_head m u major minor hs @ crlf" "x \<noteq> []"
    and "ServeHttp mux s (parsed_request m u major minor hs y) Response_new = Inr (req', resp, s')"
    and "Response_to_buffers resp = Inr bytes"
  shows "\<exists>c'. conn_reads mux s HttpConn_new (bs @ (x @ y) # later) = Inr (c', s', [AsyncWrite bytes])"
proof -
  obtain c' where "conn_reads mux s HttpConn_new (bs @ [x @ y]) = Inr (c', s', [AsyncWrite bytes])"
    using conn_serves [OF assms] by blast
  then show ?thesis using conn_reads_done [of mux s HttpConn_new "bs @ [x @ y]" c' s' bytes later] by auto
qed

theorem connection_serves_witness:
  "\<exists>c'. conn_reads (mux_of []) () HttpConn_new
     [''GET /a HTT'', ''P/1.0'' @ crlf @ ''A: b'' @ crlf @ crlf @ ''xyz'', ''more''] =
   Inr (c', (), [AsyncWrite (''HTTP/1.0 404 Not Found'' @ crlf @ ''Content-Length: 9'' @ crlf @
     ''Content-Type: text/plain'' @ crlf @ crlf @ ''Not found'')])"
proof -
  let ?hs = "[\<lparr>hd_name = ''A'', hd_value = ''b''\<rparr>]"
  have digits: "show_nat 1 = ''1''" "show_nat 0 = ''0''" "show_nat 9 = ''9''" by code_simp+
  have ok: "head_ok ''GET'' ''/a'' 1 0 ?hs"
    by (simp add: head_ok_def header_ok_def is_char_def is_ctl_def is_tspecial_def tspecials_def schar_def text_char_def)
  have split: "concat [''GET /a HTT''] @ (''P/1.0'' @ crlf @ ''A: b'' @ crlf @ crlf) =
      request_head ''GET'' ''/a'' 1 0 ?hs @ crlf"
    using digits by (simp add: request_head_def header_buffers_def)
  have serve: "ServeHttp (mux_of []) () (parsed_request ''GET'' ''/a'' 1 0 ?hs ''xyz'') Response_new =
      Inr (parsed_request ''GET'' ''/a'' 1 0 ?hs ''xyz'', WriteText Response_new hs_not_found ''Not found'', ())"
    by (simp add: ServeHttp_def mux_of_def ServeMux_new_def)
  have nine: "show_nat (length ''Not found'') = ''9''" by code_simp
  have out: "Response_to_buffers (WriteText Response_new hs_not_found ''Not found'') =
      Inr (''HTTP/1.0 404 Not Found'' @ crlf @ ''Content-Length: 9'' @ crlf @
     ''Content-Type: text/plain'' @ crlf @ crlf @ ''Not found'')"
    unfolding WriteText_def Response_write_def
    by (simp add: Response_new_def Response_set_header_def
        Response_to_buffers_def header_buffers_def nine del: length_Cons list.size)
  show ?thesis
    using connection_serves [OF ok _ split _ serve out, where later = "[''more'']"] by (simp add: kMaxSize_def)
qed

end
