(* ===== verification/Http_Client.thy ===== *)
theory Http_Client
  imports Http_Server
begin

text \<open>
  The HTTP client: \<^verbatim>\<open>cppboot/net/http/client.cc\<close>. What the peer sends is the list of blocks the socket
  delivers and how it ends; the resolver and the socket are parameters of \<open>Client_Do\<close>. The extraction
  operators of \<open>std::istream\<close> are written out with their state bits.
\<close>

section \<open>Input streams\<close>

record istream =
  is_rest :: string
  is_eof :: bool
  is_fail :: bool

definition is_good :: "istream \<Rightarrow> bool" where
  "is_good s \<longleftrightarrow> \<not> is_eof s \<and> \<not> is_fail s"

definition istream_of :: "string \<Rightarrow> istream" where
  "istream_of t = \<lparr>is_rest = t, is_eof = False, is_fail = False\<rparr>"

text \<open>\<open>stream >> word\<close>.\<close>

definition istream_word :: "istream \<Rightarrow> string \<times> istream" where
  "istream_word s =
     (if \<not> is_good s then ('''', s\<lparr>is_fail := True\<rparr>)
      else
        let r = dropWhile c_isspace (is_rest s) in
        if r = [] then ('''', \<lparr>is_rest = [], is_eof = True, is_fail = True\<rparr>)
        else
          let r' = dropWhile (\<lambda>c. \<not> c_isspace c) r in
          (takeWhile (\<lambda>c. \<not> c_isspace c) r, \<lparr>is_rest = r', is_eof = (r' = []), is_fail = False\<rparr>))"

text \<open>
  \<open>stream >> n\<close> for an \<open>unsigned int\<close>: \<open>None\<close> when \<open>n\<close> is not assigned; a number that does not fit
  sets the largest value and the fail bit.
\<close>

definition istream_uint :: "istream \<Rightarrow> nat option \<times> istream" where
  "istream_uint s =
     (if \<not> is_good s then (None, s\<lparr>is_fail := True\<rparr>)
      else
        let r = dropWhile c_isspace (is_rest s) in
        if r = [] then (None, \<lparr>is_rest = [], is_eof = True, is_fail = True\<rparr>)
        else
          let neg = (hd r = CHR ''-'');
              r1 = (if hd r = CHR ''-'' \<or> hd r = CHR ''+'' then tl r else r);
              ds = takeWhile c_isdigit r1;
              r2 = dropWhile c_isdigit r1;
              n = digits_val ds in
          if ds = [] then (Some 0, \<lparr>is_rest = r2, is_eof = (r2 = []), is_fail = True\<rparr>)
          else if n \<ge> 2 ^ 32 then (Some (2 ^ 32 - 1), \<lparr>is_rest = r2, is_eof = (r2 = []), is_fail = True\<rparr>)
          else (Some (if neg then (2 ^ 32 - n) mod 2 ^ 32 else n), \<lparr>is_rest = r2, is_eof = (r2 = []), is_fail = False\<rparr>))"

text \<open>\<open>std::getline\<close>.\<close>

definition istream_getline :: "istream \<Rightarrow> string \<times> istream" where
  "istream_getline s =
     (if \<not> is_good s then ('''', s\<lparr>is_fail := True\<rparr>)
      else
        let l = takeWhile (\<lambda>c. c \<noteq> CHR 0x0A) (is_rest s);
            r = dropWhile (\<lambda>c. c \<noteq> CHR 0x0A) (is_rest s) in
        if r = [] then (l, \<lparr>is_rest = [], is_eof = True, is_fail = (l = [])\<rparr>)
        else (l, \<lparr>is_rest = tl r, is_eof = False, is_fail = False\<rparr>))"

lemma getline_shorter:
  assumes "\<not> is_fail (snd (istream_getline s))"
  shows "length (is_rest (snd (istream_getline s))) < length (is_rest s)"
proof -
  define l where "l = takeWhile (\<lambda>c. c \<noteq> CHR 0x0A) (is_rest s)"
  define r where "r = dropWhile (\<lambda>c. c \<noteq> CHR 0x0A) (is_rest s)"
  have "is_rest s = l @ r" by (simp add: l_def r_def)
  then show ?thesis
    using assms unfolding istream_getline_def l_def [symmetric] r_def [symmetric]
    by (cases r) (simp_all split: if_splits)
qed

section \<open>The response\<close>

text \<open>
  The blocks the socket delivers, whether the peer then closes the connection (or the system reports
  an error), and the text of the exception for that.
\<close>

record net_in =
  ni_chunks :: "string list"
  ni_eof :: bool
  ni_what :: string

text \<open>\<open>asio::read_until\<close>: \<open>None\<close> when the input ends before the delimiter, which throws.\<close>

fun read_until :: "string \<Rightarrow> string \<Rightarrow> string list \<Rightarrow> (string \<times> string list) option" where
  "read_until delim buf [] = (if sublist delim buf then Some (buf, []) else None)"
| "read_until delim buf (c # cs) = (if sublist delim buf then Some (buf, c # cs) else read_until delim (buf @ c) cs)"

function header_lines :: "istream \<Rightarrow> Response \<Rightarrow> (istream \<times> Response) res" where
  "header_lines s resp =
     (let header = fst (istream_getline s); s' = snd (istream_getline s) in
      if is_fail s' \<or> header = [CHR 0x0D] then Inr (s', resp)
      else
        let colon = str_find_first_of header '':'' 0 in
        if colon \<noteq> npos then
          (case str_substr header 0 colon of
             Inl e \<Rightarrow> Inl e
           | Inr name \<Rightarrow>
               (case bindr (str_substr header (size_add colon 1) npos) (\<lambda>v. StrTrim (sv_of_string v) sv_null) of
                  Inl e \<Rightarrow> Inl e
                | Inr val \<Rightarrow> header_lines s' (Response_set_header resp name (sv_str val))))
        else header_lines s' resp)"
  by pat_completeness auto
termination
  by (relation "measure (\<lambda>(s, _). length (is_rest s))")
    (auto intro: getline_shorter)

declare header_lines.simps [simp del]

definition cancelled :: "net_in \<Rightarrow> Response \<Rightarrow> (Status \<times> Response) res" where
  "cancelled sock resp = bindr (CancelledError (sv_of_string (ni_what sock))) (\<lambda>st. Inr (st, resp))"

definition invalid :: "string \<Rightarrow> Response \<Rightarrow> (Status \<times> Response) res" where
  "invalid message resp = bindr (InvalidArgumentError (sv_of_string message)) (\<lambda>st. Inr (st, resp))"

definition ReadResponse :: "net_in \<Rightarrow> Response \<Rightarrow> (Status \<times> Response) res" where
  "ReadResponse sock resp =
     (case read_until crlf [] (ni_chunks sock) of
        None \<Rightarrow> cancelled sock resp
      | Some (response, chunks) \<Rightarrow>
          (let (http_version, s) = istream_word (istream_of response);
               (status_code, s) = istream_uint s;
               (status_message, s) = istream_getline s in
           if is_fail s \<or> take 5 http_version \<noteq> ''HTTP/'' then invalid ''Invalid response'' resp
           else
             case status_code of
               None \<Rightarrow> Inl UndefinedBehaviour
             | Some code \<Rightarrow>
                 if code \<noteq> 200 then invalid (''Response returned with status code '' @ show_nat code) resp
                 else
                   (case read_until (crlf @ crlf) (is_rest s) chunks of
                      None \<Rightarrow> cancelled sock resp
                    | Some (response, chunks) \<Rightarrow>
                        bindr (header_lines (s\<lparr>is_rest := response\<rparr>) resp) (\<lambda>(s, resp).
                        if ni_eof sock
                        then Inr (OkStatus, resp\<lparr>rp_status := Some hs_ok, rp_content := is_rest s @ concat chunks\<rparr>)
                        else cancelled sock resp))))"

section \<open>The client\<close>

text \<open>\<open>npos > 0\<close> holds: a host without a port takes the first branch.\<close>

definition GetEndpointFromUrl :: "(string \<Rightarrow> string \<Rightarrow> 'ep res) \<Rightarrow> Url \<Rightarrow> 'ep res" where
  "GetEndpointFromUrl resolve url =
     (let colon = str_find_last_of (host url) '':'' in
      if colon > 0 then
        bindr (str_substr (host url) 0 colon) (\<lambda>h.
        let h = (if h = [] then ''0.0.0.0'' else h) in
        bindr (str_substr (host url) (size_add colon 1) npos) (\<lambda>service. resolve h service))
      else resolve (host url) (scheme url))"

text \<open>\<open>exchange\<close> connects to an endpoint and writes the request; the result is what the peer sends.\<close>

definition Client_Do :: "(string \<Rightarrow> string \<Rightarrow> 'ep res) \<Rightarrow> ('ep \<Rightarrow> string \<Rightarrow> net_in res) \<Rightarrow> Request \<Rightarrow> Response
    \<Rightarrow> (Status \<times> Response) res" where
  "Client_Do resolve exchange req resp =
     bindr (GetEndpointFromUrl resolve (rq_url req)) (\<lambda>endpoints.
     bindr (exchange endpoints (Request_to_buffers req)) (\<lambda>sock.
     ReadResponse sock resp))"

definition Http_Get :: "(string \<Rightarrow> string \<Rightarrow> 'ep res) \<Rightarrow> ('ep \<Rightarrow> string \<Rightarrow> net_in res) \<Rightarrow> string \<Rightarrow> Response
    \<Rightarrow> (Status \<times> Response) res" where
  "Http_Get resolve exchange url resp =
     bindr (Request_new ''GET'' url) (\<lambda>req. Client_Do resolve exchange req resp)"

definition Http_Post :: "(string \<Rightarrow> string \<Rightarrow> 'ep res) \<Rightarrow> ('ep \<Rightarrow> string \<Rightarrow> net_in res) \<Rightarrow> string \<Rightarrow> string \<Rightarrow> Response
    \<Rightarrow> (Status \<times> Response) res" where
  "Http_Post resolve exchange url content resp =
     bindr (Request_new ''POST'' url) (\<lambda>req.
     let req = req\<lparr>rq_content := content\<rparr>;
         req = Request_set_header req ''Content-Type'' ''text/plain'' in
     Client_Do resolve exchange req resp)"

definition PostJson :: "(string \<Rightarrow> string \<Rightarrow> 'ep res) \<Rightarrow> ('ep \<Rightarrow> string \<Rightarrow> net_in res) \<Rightarrow> string \<Rightarrow> json \<Rightarrow> Response
    \<Rightarrow> (Status \<times> Response) res" where
  "PostJson resolve exchange url data resp =
     bindr (Request_new ''POST'' url) (\<lambda>req.
     bindr (dump_default data) (\<lambda>content.
     let req = req\<lparr>rq_content := content\<rparr>;
         req = Request_set_header req ''Content-Type'' ''application/json'' in
     Client_Do resolve exchange req resp))"

definition PostForm :: "(string \<Rightarrow> string \<Rightarrow> 'ep res) \<Rightarrow> ('ep \<Rightarrow> string \<Rightarrow> net_in res) \<Rightarrow> string \<Rightarrow> FormData \<Rightarrow> Response
    \<Rightarrow> (Status \<times> Response) res" where
  "PostForm resolve exchange url data resp =
     bindr (Request_new ''POST'' url) (\<lambda>req.
     let req = req\<lparr>rq_content := FormData_Encode data\<rparr>;
         req = Request_set_header req ''Content-Type'' ''text/html'' in
     Client_Do resolve exchange req resp)"

section \<open>What the client reads\<close>

subsection \<open>Reading up to a delimiter\<close>

lemma read_until_some:
  "read_until d buf cs = Some (buf', cs') \<Longrightarrow> sublist d buf' \<and> buf' @ concat cs' = buf @ concat cs"
  by (induction d buf cs rule: read_until.induct) (auto split: if_splits)

lemma read_until_finds: "sublist d (buf @ concat cs) \<Longrightarrow> \<exists>buf' cs'. read_until d buf cs = Some (buf', cs')"
  by (induction d buf cs rule: read_until.induct) auto

lemma read_until_none: "\<not> sublist d (buf @ concat cs) \<Longrightarrow> read_until d buf cs = None"
proof (rule ccontr)
  assume a: "\<not> sublist d (buf @ concat cs)" "read_until d buf cs \<noteq> None"
  then obtain b c where b: "read_until d buf cs = Some (b, c)" by auto
  show False using read_until_some [OF b] a(1) by (metis sublist_append_rightI sublist_order.order.trans)
qed

text \<open>A text of which \<open>b\<close> is the part read so far: the first line, or the head up to the blank line.\<close>

lemma first_line:
  assumes "b @ rest = l @ crlf @ t" "sublist crlf b" "CHR 0x0A \<notin> set l"
  shows "\<exists>u. b = l @ crlf @ u \<and> u @ rest = t"
proof (cases "length l + 2 \<le> length b")
  case True
  then obtain u where "b = (l @ crlf) @ u" "u @ rest = t"
    using assms(1) by (auto simp: append_eq_append_conv2 [of b] crlf_def append_eq_Cons_conv)
  then show ?thesis by auto
next
  case False
  then have "b = take (length b) (l @ [CHR 0x0D])"
    using arg_cong [OF assms(1), of "take (length b)"] by (auto simp: crlf_def take_Cons')
  then have "set b \<subseteq> set (l @ [CHR 0x0D])" by (metis set_take_subset)
  then show ?thesis using assms(3) set_mono_sublist [OF assms(2)] by (auto simp: crlf_def)
qed

lemma sublist_skip: "c \<notin> set l \<Longrightarrow> sublist (c # d) (l @ t) \<Longrightarrow> sublist (c # d) t"
  by (induction l) (auto simp: sublist_Cons_right)

lemma sublist_after_line:
  assumes "sublist (crlf @ crlf) (crlf @ l @ t)" "l \<noteq> []" "CHR 0x0D \<notin> set l"
  shows "sublist (crlf @ crlf) t"
proof -
  have "sublist (crlf @ crlf) (l @ t)" using assms by (cases l) (auto simp: crlf_def sublist_Cons_right)
  then show ?thesis using sublist_skip [OF assms(3)] by (simp add: crlf_def)
qed

lemma blank_line:
  assumes "b @ rest = concat (map (\<lambda>l. l @ crlf) ls) @ crlf @ t"
    and "sublist (crlf @ crlf) (crlf @ b)" "\<forall>l\<in>set ls. l \<noteq> [] \<and> CHR 0x0A \<notin> set l \<and> CHR 0x0D \<notin> set l"
  shows "\<exists>u. b = concat (map (\<lambda>l. l @ crlf) ls) @ crlf @ u \<and> u @ rest = t"
  using assms
proof (induction ls arbitrary: b)
  case Nil
  have "2 \<le> length b" using sublist_length_le [OF Nil(2)] by (simp add: crlf_def)
  then show ?case using Nil(1) by (cases b; cases "tl b") (auto simp: crlf_def)
next
  case (Cons l ls)
  have l: "l \<noteq> []" "CHR 0x0A \<notin> set l" "CHR 0x0D \<notin> set l" using Cons.prems(3) by auto
  have eq: "b @ rest = l @ crlf @ concat (map (\<lambda>l. l @ crlf) ls) @ crlf @ t" using Cons.prems(1) by simp
  have "b \<noteq> []" using sublist_length_le [OF Cons.prems(2)] by (auto simp: crlf_def)
  then have "hd b = hd l" using arg_cong [OF eq, of hd] l(1) by simp
  then have "hd b \<noteq> CHR 0x0D" using l(1,3) by (metis hd_in_set)
  then have "sublist (crlf @ crlf) b"
    using Cons.prems(2) \<open>b \<noteq> []\<close> by (cases b) (auto simp: crlf_def sublist_Cons_right)
  moreover have "sublist crlf (crlf @ crlf)" by (rule sublist_append_rightI)
  ultimately have "sublist crlf b" using sublist_order.order.trans by blast
  then obtain b' where b': "b = l @ crlf @ b'" "b' @ rest = concat (map (\<lambda>l. l @ crlf) ls) @ crlf @ t"
    using first_line [OF eq _ l(2)] by auto
  have "sublist (crlf @ crlf) (crlf @ b')"
    using sublist_after_line [of l "crlf @ b'"] Cons.prems(2) b'(1) l by simp
  then show ?case using Cons.IH [OF b'(2)] Cons.prems(3) b'(1) by auto
qed

subsection \<open>Header lines\<close>

text \<open>
  A header the client reads back: no line break, no colon in the name, and a value that is not empty
  and neither starts nor ends with a blank.
\<close>

definition plain_header :: "Header \<Rightarrow> bool" where
  "plain_header h \<longleftrightarrow>
     list_all (\<lambda>c. c \<noteq> CHR 0x0A \<and> c \<noteq> CHR 0x0D \<and> c \<noteq> CHR '':'') (hd_name h) \<and>
     list_all (\<lambda>c. c \<noteq> CHR 0x0A \<and> c \<noteq> CHR 0x0D) (hd_value h) \<and>
     hd_value h \<noteq> [] \<and> hd (hd_value h) \<notin> set kSpaceChars \<and> last (hd_value h) \<notin> set kSpaceChars"

definition header_text :: "Header \<Rightarrow> string" where
  "header_text h = hd_name h @ '': '' @ hd_value h"

lemma header_buffers_text: "header_buffers h = header_text h @ crlf"
  by (simp add: header_buffers_def header_text_def)

lemma concat_header_buffers: "concat (map header_buffers hs) = concat (map (\<lambda>l. l @ crlf) (map header_text hs))"
  by (induction hs) (simp_all add: header_buffers_text)

lemma header_text_facts:
  "plain_header h \<Longrightarrow> header_text h \<noteq> [] \<and> CHR 0x0A \<notin> set (header_text h) \<and> CHR 0x0D \<notin> set (header_text h)"
  by (auto simp: plain_header_def header_text_def list_all_iff)

lemma getline_line:
  assumes "CHR 0x0A \<notin> set l" "is_good s" "is_rest s = l @ CHR 0x0A # r"
  shows "istream_getline s = (l, istream_of r)"
proof -
  have "takeWhile (\<lambda>c. c \<noteq> CHR 0x0A) (is_rest s) = l" "dropWhile (\<lambda>c. c \<noteq> CHR 0x0A) (is_rest s) = CHR 0x0A # r"
    using assms(1) unfolding assms(3) by (induction l) auto
  then show ?thesis using assms(2) by (simp add: istream_getline_def istream_of_def)
qed

lemma istream_of_simps [simp]:
  "is_good (istream_of t)" "is_rest (istream_of t) = t" "\<not> is_fail (istream_of t)" "\<not> is_eof (istream_of t)"
  "(istream_of t)\<lparr>is_rest := u\<rparr> = istream_of u"
  by (simp_all add: is_good_def istream_of_def)

lemma trim_value:
  assumes "v \<noteq> []" "hd v \<notin> C" "last v \<notin> C" "set a \<subseteq> C" "set b \<subseteq> C"
  shows "trim_right C (trim_left C (a @ v @ b)) = v"
proof -
  obtain x xs where v: "v = x # xs" using assms(1) by (cases v) auto
  obtain ys y where w: "v = ys @ [y]" using assms(1) by (cases v rule: rev_cases) auto
  have "x \<notin> C" using assms(2) v by simp
  have "y \<notin> C" using assms(3) w by simp
  have "trim_left C (a @ v @ b) = v @ b"
    using \<open>x \<notin> C\<close> assms(4) by (auto simp: trim_left_def v dropWhile_append3 subset_iff)
  moreover have "trim_right C (v @ b) = v"
    using \<open>y \<notin> C\<close> assms(5) by (auto simp: trim_right_def w dropWhile_append3 subset_iff)
  ultimately show ?thesis by simp
qed

lemma StrTrim_header_value:
  assumes "plain_header h" "length (hd_value h) + 2 < kMaxSize"
  shows "\<exists>u. StrTrim (sv_of_string ('' '' @ hd_value h @ [CHR 0x0D])) sv_null = Inr u \<and> sv_str u = hd_value h"
proof -
  let ?s = "'' '' @ hd_value h @ [CHR 0x0D]"
  have ok: "sv_ok (sv_of_string ?s)" "sv_ok sv_null" using assms(2) by simp_all
  obtain u where u: "StrTrim (sv_of_string ?s) sv_null = Inr u"
    "sv_str u = trim_right (trim_set sv_null) (trim_left (trim_set sv_null) (sv_str (sv_of_string ?s)))"
    by (rule StrTrim_eq [OF ok])
  moreover have "trim_set sv_null = set kSpaceChars" by (simp add: trim_set_def sv_empty_def sv_null_def)
  moreover have "sv_str (sv_of_string ?s) = ?s" using ok by simp
  ultimately show ?thesis
    using trim_value [of "hd_value h" "set kSpaceChars" "'' ''" "[CHR 0x0D]"] assms(1)
    by (simp add: plain_header_def kSpaceChars_def)
qed

lemma header_line_step:
  assumes "plain_header h" "length (header_text h) + 2 < kMaxSize" "is_good s" "is_rest s = header_text h @ crlf @ r"
  shows "header_lines s resp = header_lines (istream_of r) (Response_set_header resp (hd_name h) (hd_value h))"
proof -
  let ?l = "header_text h @ [CHR 0x0D]"
  have g: "istream_getline s = (?l, istream_of r)"
    using getline_line [of ?l s r] assms header_text_facts [OF assms(1)] by (simp add: crlf_def)
  have n: "\<forall>c\<in>set (hd_name h). c \<noteq> CHR '':''" using assms(1) by (auto simp: plain_header_def list_all_iff)
  have l: "?l = hd_name h @ CHR '':'' # '' '' @ hd_value h @ [CHR 0x0D]" by (simp add: header_text_def)
  have len: "length ?l \<le> npos" "length (hd_name h) < npos" "length (hd_name h) \<le> kMaxSize"
    "length (hd_value h) + 2 < kMaxSize"
    using assms(2) by (simp_all add: header_text_def npos_def kMaxSize_def)
  have tw: "dropWhile (\<lambda>x. x \<notin> set '':'') ?l = CHR '':'' # '' '' @ hd_value h @ [CHR 0x0D]"
    "takeWhile (\<lambda>x. x \<notin> set '':'') ?l = hd_name h"
    using n unfolding l by (simp_all add: dropWhile_append takeWhile_append)
  then have colon: "str_find_first_of ?l '':'' 0 = length (hd_name h)"
    using str_find_first_of_eq [of 0 ?l "'':''"] len by simp
  have sub: "str_substr ?l 0 (length (hd_name h)) = Inr (hd_name h)"
    "str_substr ?l (Suc (length (hd_name h))) npos = Inr ('' '' @ hd_value h @ [CHR 0x0D])"
    unfolding l using len by (simp_all add: str_substr_def npos_def kMaxSize_def)
  obtain u where "StrTrim (sv_of_string ('' '' @ hd_value h @ [CHR 0x0D])) sv_null = Inr u" "sv_str u = hd_value h"
    using StrTrim_header_value [OF assms(1) len(4)] by blast
  then show ?thesis
    using header_text_facts [OF assms(1)] len sub size_add_pos [OF len(3)]
    by (subst header_lines.simps) (simp add: g colon)
qed

lemma set_header_new: "name \<notin> hd_name ` set hs \<Longrightarrow> set_header hs name v = hs @ [\<lparr>hd_name = name, hd_value = v\<rparr>]"
  by (induction hs) auto

lemma header_lines_all:
  assumes "list_all plain_header hs" "distinct (map hd_name (rp_headers resp @ hs))"
    and "length (concat (map header_buffers hs)) < kMaxSize" "is_good s"
    and "is_rest s = concat (map header_buffers hs) @ crlf @ r"
  shows "header_lines s resp = Inr (istream_of r, resp\<lparr>rp_headers := rp_headers resp @ hs\<rparr>)"
  using assms
proof (induction hs arbitrary: s resp)
  case Nil
  then have "istream_getline s = ([CHR 0x0D], istream_of r)"
    using getline_line [of "[CHR 0x0D]" s r] by (simp add: crlf_def)
  then show ?case by (subst header_lines.simps) simp
next
  case (Cons h hs)
  let ?resp = "Response_set_header resp (hd_name h) (hd_value h)"
  have rh: "rp_headers ?resp = rp_headers resp @ [h]" "?resp\<lparr>rp_headers := x\<rparr> = resp\<lparr>rp_headers := x\<rparr>" for x
    using set_header_new [of "hd_name h" "rp_headers resp" "hd_value h"] Cons.prems(2)
    by (auto simp: Response_set_header_def)
  have "header_lines s resp = header_lines (istream_of (concat (map header_buffers hs) @ crlf @ r)) ?resp"
    using Cons.prems header_buffers_text [of h]
    by (intro header_line_step) (auto simp: crlf_def)
  then show ?case
    using Cons.IH [of ?resp "istream_of (concat (map header_buffers hs) @ crlf @ r)"] Cons.prems rh by simp
qed

subsection \<open>The whole response\<close>

text \<open>The number in a status line; a value that is no enumerator is written as an internal error.\<close>

fun status_number :: "status_type \<Rightarrow> nat" where
  "status_number hs_ok = 200"
| "status_number hs_created = 201"
| "status_number hs_accepted = 202"
| "status_number hs_no_content = 204"
| "status_number hs_multiple_choices = 300"
| "status_number hs_moved_permanently = 301"
| "status_number hs_moved_temporarily = 302"
| "status_number hs_not_modified = 304"
| "status_number hs_bad_request = 400"
| "status_number hs_unauthorized = 401"
| "status_number hs_forbidden = 403"
| "status_number hs_not_found = 404"
| "status_number hs_internal_server_error = 500"
| "status_number hs_not_implemented = 501"
| "status_number hs_bad_gateway = 502"
| "status_number hs_service_unavailable = 503"
| "status_number hs_other = 500"

lemma show_nat_short: "length (show_nat n) \<le> Suc n"
proof (induction n rule: show_nat.induct)
  case (1 n)
  then show ?case by (cases "n < 10") (simp_all add: show_nat.simps [of n])
qed

lemma status_number_ok: "status_number st = 200 \<longleftrightarrow> st = hs_ok"
  by (cases st) simp_all

text \<open>A status line and what follows it, as the three extractions of the client take it apart.\<close>

lemma status_line_read:
  "istream_word (istream_of (status_buffer st @ t)) = (''HTTP/1.0'', istream_of (drop 8 (status_buffer st) @ t))"
  "istream_uint (istream_of (drop 8 (status_buffer st) @ t)) =
     (Some (status_number st), istream_of (drop 12 (status_buffer st) @ t))"
  "snd (istream_getline (istream_of (drop 12 (status_buffer st) @ t))) = istream_of t"
  by (cases st; simp add: istream_word_def istream_uint_def istream_getline_def istream_of_def is_good_def c_isspace_def
      c_isdigit_def digits_val_def crlf_def)+

lemma status_buffer_line: "\<exists>l. status_buffer st = l @ crlf \<and> CHR 0x0A \<notin> set l"
  by (intro exI [of _ "butlast (butlast (status_buffer st))"]) (cases st; simp add: crlf_def)

text \<open>What is done with a response depends on its status line: anything but 200 is an invalid argument.\<close>

lemma ReadResponse_status:
  assumes "concat (ni_chunks sock) = status_buffer st @ t"
  shows "\<exists>b cs. b @ concat cs = t \<and> (\<forall>resp. ReadResponse sock resp =
    (if st \<noteq> hs_ok then invalid (''Response returned with status code '' @ show_nat (status_number st)) resp
     else
       case read_until (crlf @ crlf) b cs of
         None \<Rightarrow> cancelled sock resp
       | Some (response, chunks) \<Rightarrow>
           bindr (header_lines (istream_of response) resp) (\<lambda>(s, resp).
           if ni_eof sock
           then Inr (OkStatus, resp\<lparr>rp_status := Some hs_ok, rp_content := is_rest s @ concat chunks\<rparr>)
           else cancelled sock resp)))"
proof -
  obtain l where l: "status_buffer st = l @ crlf" "CHR 0x0A \<notin> set l"
    using status_buffer_line by blast
  have "sublist crlf ([] @ concat (ni_chunks sock))"
    unfolding assms l(1) append_Nil append_assoc by (rule sublist_appendI)
  then obtain b cs where r: "read_until crlf [] (ni_chunks sock) = Some (b, cs)"
    using read_until_finds by blast
  then obtain u where u: "b = status_buffer st @ u" "u @ concat cs = t"
    using first_line [of b "concat cs" l t] read_until_some [OF r] assms l by auto
  obtain m where m: "istream_getline (istream_of (drop 12 (status_buffer st) @ u)) = (m, istream_of u)"
    using status_line_read(3) [of st u] by (metis prod.collapse)
  show ?thesis
    unfolding ReadResponse_def r u(1)
    by (intro exI [of _ u] exI [of _ cs]) (simp add: status_line_read m u(2) status_number_ok split: option.split)
qed

lemma invalid_status:
  assumes "length m + 5 < 2 ^ 32"
  shows "\<exists>e. (\<forall>resp. invalid m resp = Inr (e, resp)) \<and> IsInvalidArgument e \<and> st_msg e = m"
proof -
  have sv: "sv_ok (sv_of_string m)" "sv_str (sv_of_string m) = m" "sv_len (sv_of_string m) + 5 < 2 ^ 32"
    using assms by (simp_all add: kMaxSize_def)
  obtain e where "Status_new kInvalidArgument (sv_of_string m) = Inr e" "st_code e = kInvalidArgument" "st_msg e = m"
    by (rule Status_new_ok [of kInvalidArgument "sv_of_string m"]) (use sv in simp_all)
  then show ?thesis by (intro exI [of _ e]) (simp add: InvalidArgumentError_def invalid_def IsInvalidArgument_def)
qed

lemma ReadResponse_refused:
  assumes "concat (ni_chunks sock) = status_buffer st @ t" "st \<noteq> hs_ok"
  shows "\<exists>e. (\<forall>resp. ReadResponse sock resp = Inr (e, resp)) \<and> IsInvalidArgument e \<and>
    st_msg e = ''Response returned with status code '' @ show_nat (status_number st)"
proof -
  let ?m = "''Response returned with status code '' @ show_nat (status_number st)"
  have "length (show_nat (status_number st)) \<le> Suc (status_number st)" by (rule show_nat_short)
  moreover have "status_number st < 1000" by (cases st) simp_all
  ultimately have "length ?m + 5 < 2 ^ 32" by simp
  moreover have "ReadResponse sock resp = invalid ?m resp" for resp
    using ReadResponse_status [OF assms(1)] unfolding if_P [OF assms(2)] by blast
  ultimately show ?thesis using invalid_status [of ?m] by simp
qed

lemma ReadResponse_reply:
  assumes "rp_status r = Some hs_ok" "rp_headers r \<noteq> []" "list_all plain_header (rp_headers r)"
    and "distinct (map hd_name (rp_headers r))" "length (concat (map header_buffers (rp_headers r))) < kMaxSize"
    and "Response_to_buffers r = Inr (concat (ni_chunks sock))" "ni_eof sock"
  shows "ReadResponse sock Response_new = Inr (OkStatus, r)"
proof -
  let ?H = "concat (map header_buffers (rp_headers r))"
  let ?ls = "map header_text (rp_headers r)"
  have "concat (ni_chunks sock) = status_buffer hs_ok @ ?H @ crlf @ rp_content r"
    using assms(1,6) by (simp add: Response_to_buffers_def)
  from ReadResponse_status [OF this]
  obtain b cs where b: "b @ concat cs = ?H @ crlf @ rp_content r" "ReadResponse sock Response_new =
    (case read_until (crlf @ crlf) b cs of
       None \<Rightarrow> cancelled sock Response_new
     | Some (response, chunks) \<Rightarrow>
         bindr (header_lines (istream_of response) Response_new) (\<lambda>(s, resp).
         Inr (OkStatus, resp\<lparr>rp_status := Some hs_ok, rp_content := is_rest s @ concat chunks\<rparr>)))"
    unfolding eqTrueI [OF assms(7)] eqTrueI [OF refl [of hs_ok]] not_True_eq_False if_True if_False by blast
  have "sublist (crlf @ crlf) (b @ concat cs)"
    unfolding b(1) using assms(2) sublist_appendI [of "crlf @ crlf" "concat (map header_buffers hs) @ header_text h" for hs h]
    by (cases "rp_headers r" rule: rev_cases) (simp_all add: header_buffers_text)
  then obtain b' cs' where r: "read_until (crlf @ crlf) b cs = Some (b', cs')" using read_until_finds by blast
  have p: "\<forall>l\<in>set ?ls. l \<noteq> [] \<and> CHR 0x0A \<notin> set l \<and> CHR 0x0D \<notin> set l"
    using assms(3) header_text_facts by (auto simp: list_all_iff)
  have "sublist (crlf @ crlf) (crlf @ b')"
    using read_until_some [OF r] by (metis sublist_append_leftI sublist_order.order.trans)
  then obtain u where u: "b' = ?H @ crlf @ u" "u @ concat cs' = rp_content r"
    using blank_line [of b' "concat cs'" ?ls "rp_content r", OF _ _ p] read_until_some [OF r] b(1)
    unfolding concat_header_buffers by auto
  have "header_lines (istream_of b') Response_new = Inr (istream_of u, Response_new\<lparr>rp_headers := rp_headers r\<rparr>)"
    using header_lines_all [of "rp_headers r" Response_new "istream_of b'" u] assms(3-5) u(1)
    by (simp add: Response_new_def)
  then show ?thesis
    unfolding b(2) r using u(2) assms(1) by (simp add: Response_new_def)
qed

text \<open>
  A response the client can read: at least one header, no name twice, each header plain. The first two
  come from the code: without a header the blank line is consumed with the status line
  (\<open>no_headers_cancelled\<close>), and a second header of a name replaces the first.
\<close>

definition readable :: "Response \<Rightarrow> bool" where
  "readable r \<longleftrightarrow> rp_headers r \<noteq> [] \<and> list_all plain_header (rp_headers r) \<and> distinct (map hd_name (rp_headers r)) \<and>
     length (concat (map header_buffers (rp_headers r))) < kMaxSize"

text \<open>
  C16. The client and the response that the server wrote, however the bytes are cut into blocks. A
  response of status 200 with at least one header, no name twice and each header plain is read back:
  status, headers and content. A response of any other status is not read: the call returns an
  invalid-argument status that tells the number of the status line, and the response of the caller is
  left as it was.
\<close>

theorem client_reads_response:
  assumes "rp_status r = Some st" "Response_to_buffers r = Inr (concat (ni_chunks sock))"
    and "st = hs_ok \<Longrightarrow> readable r \<and> ni_eof sock"
  shows "if st = hs_ok then ReadResponse sock Response_new = Inr (OkStatus, r)
    else \<exists>e. (\<forall>resp. ReadResponse sock resp = Inr (e, resp)) \<and> IsInvalidArgument e \<and>
      st_msg e = ''Response returned with status code '' @ show_nat (status_number st)"
proof (cases "st = hs_ok")
  case True
  then show ?thesis using ReadResponse_reply [of r sock] assms by (simp add: readable_def)
next
  case False
  moreover have "concat (ni_chunks sock) = status_buffer st @ concat (map header_buffers (rp_headers r)) @ crlf @ rp_content r"
    using assms(1,2) by (simp add: Response_to_buffers_def)
  from ReadResponse_refused [OF this False] show ?thesis using False by simp
qed

theorem client_reads_response_witness:
  "ReadResponse \<lparr>ni_chunks = [''HTTP/1.0 2'', ''00 OK'' @ crlf @ ''A: '', ''b'' @ crlf @ [CHR 0x0D], [CHR 0x0A] @ ''x'', ''y''],
     ni_eof = True, ni_what = []\<rparr> Response_new =
   Inr (OkStatus, \<lparr>rp_status = Some hs_ok, rp_headers = [\<lparr>hd_name = ''A'', hd_value = ''b''\<rparr>], rp_content = ''xy''\<rparr>) \<and>
   (\<exists>e. (\<forall>resp. ReadResponse \<lparr>ni_chunks = [''HTTP/1.0 40'', ''4 Not Found'' @ crlf @ crlf, ''x''], ni_eof = True, ni_what = []\<rparr> resp =
       Inr (e, resp)) \<and> IsInvalidArgument e \<and> st_msg e = ''Response returned with status code 404'')"
proof -
  let ?r = "\<lparr>rp_status = Some hs_ok, rp_headers = [\<lparr>hd_name = ''A'', hd_value = ''b''\<rparr>], rp_content = ''xy''\<rparr>"
  let ?n = "\<lparr>rp_status = Some hs_not_found, rp_headers = [], rp_content = ''x''\<rparr>"
  have n: "show_nat (status_number hs_not_found) = ''404''" by code_simp
  show ?thesis
    using client_reads_response [of ?r hs_ok "\<lparr>ni_chunks = [''HTTP/1.0 2'', ''00 OK'' @ crlf @ ''A: '',
        ''b'' @ crlf @ [CHR 0x0D], [CHR 0x0A] @ ''x'', ''y''], ni_eof = True, ni_what = []\<rparr>"]
      client_reads_response [of ?n hs_not_found
        "\<lparr>ni_chunks = [''HTTP/1.0 40'', ''4 Not Found'' @ crlf @ crlf, ''x''], ni_eof = True, ni_what = []\<rparr>"]
    by (simp add: n del: status_number.simps)
      (simp add: readable_def plain_header_def kSpaceChars_def header_buffers_def crlf_def kMaxSize_def Response_to_buffers_def)
qed

text \<open>A response without headers is never accepted: its blank line is consumed with the status line.\<close>

lemma no_headers_cancelled:
  assumes "concat (ni_chunks sock) = status_buffer hs_ok @ crlf @ content" "\<not> sublist (crlf @ crlf) (crlf @ content)"
  shows "ReadResponse sock resp = cancelled sock resp"
proof -
  obtain b cs where b: "b @ concat cs = crlf @ content" "ReadResponse sock resp =
    (case read_until (crlf @ crlf) b cs of
       None \<Rightarrow> cancelled sock resp
     | Some (response, chunks) \<Rightarrow>
         bindr (header_lines (istream_of response) resp) (\<lambda>(s, resp).
         if ni_eof sock
         then Inr (OkStatus, resp\<lparr>rp_status := Some hs_ok, rp_content := is_rest s @ concat chunks\<rparr>)
         else cancelled sock resp))"
    using ReadResponse_status [OF assms(1)] by fastforce
  then show ?thesis using read_until_none [of "crlf @ crlf" b cs] assms(2) by simp
qed

section \<open>Client and server\<close>

lemma find_last_colon:
  assumes "CHR '':'' \<notin> set p" "length (h @ '':'' @ p) < kMaxSize"
  shows "str_find_last_of (h @ '':'' @ p) '':'' = length h"
proof -
  let ?t = "h @ '':'' @ p"
  have len: "length ?t \<le> npos" using assms(2) npos_gt_kMaxSize by linarith
  have "?t ! j \<noteq> CHR '':''" if "length h < j" "j < length ?t" for j
  proof -
    have "?t ! j = p ! (j - length h - 1)" using that by (auto simp: nth_append nth_Cons')
    moreover have "p ! (j - length h - 1) \<in> set p" using that by (intro nth_mem) simp
    ultimately show ?thesis using assms(1) by metis
  qed
  then have "last_pos (\<lambda>i. ?t ! i \<in> set '':'') (length ?t) (length h)"
    using len by (auto simp: last_pos_def nth_append)
  then show ?thesis using last_pos_unique [OF str_find_last_of_spec] len by metis
qed

text \<open>A host with a port is resolved as such; a host without one is looked up with itself as service.\<close>

lemma GetEndpointFromUrl_port:
  assumes "host url = h @ '':'' @ p" "h \<noteq> []" "CHR '':'' \<notin> set p" "length (h @ '':'' @ p) < kMaxSize"
  shows "GetEndpointFromUrl resolve url = resolve h p"
proof -
  have "length h \<le> kMaxSize" "length p \<le> npos" "length h \<le> npos"
    using assms(4) by (simp_all add: npos_def kMaxSize_def)
  then show ?thesis
    using find_last_colon [OF assms(3,4)] assms(1,2) size_add_pos [of "length h"]
    by (simp add: GetEndpointFromUrl_def str_substr_def Let_def)
qed

lemma npos_pos: "0 < npos"
  by (simp add: npos_def)

lemma GetEndpointFromUrl_no_port:
  assumes "CHR '':'' \<notin> set (host url)" "host url \<noteq> []" "length (host url) \<le> npos"
  shows "GetEndpointFromUrl resolve url = resolve (host url) (host url)"
proof -
  have "str_find_last_of (host url) '':'' = npos"
    using str_find_last_of_spec [of "host url" "'':''"] assms(1) by (auto simp: last_pos_def dest: nth_mem)
  then show ?thesis using assms(2,3) by (simp add: GetEndpointFromUrl_def str_substr_def npos_pos)
qed

definition client_headers :: "Request \<Rightarrow> Header list" where
  "client_headers req =
     [\<lparr>hd_name = ''Host'', hd_value = host (rq_url req)\<rparr>, \<lparr>hd_name = ''Accept'', hd_value = ''*/*''\<rparr>] @
     (if rq_content req \<noteq> [] then [\<lparr>hd_name = ''Content-Length'', hd_value = show_nat (length (rq_content req))\<rparr>] else []) @
     [\<lparr>hd_name = ''TcpConnection'', hd_value = ''close''\<rparr>]"

definition client_uri :: "Url \<Rightarrow> string" where
  "client_uri u = (if raw_query u = [] then raw_path u else raw_path u @ ''?'' @ raw_query u)"

text \<open>What the client sends is a request head of the form the parser accepts, and the content.\<close>

lemma Request_to_buffers_head:
  "Request_to_buffers req =
     request_head (rq_method req) (client_uri (rq_url req)) 1 0 (client_headers req) @ crlf @ rq_content req"
proof -
  have "show_nat 1 = ''1''" "show_nat 0 = ''0''" by code_simp+
  then show ?thesis
    by (simp add: Request_to_buffers_def request_head_def client_headers_def client_uri_def header_buffers_def)
qed

lemma last_block:
  "concat bs = t \<Longrightarrow> t \<noteq> [] \<Longrightarrow> \<exists>as x later. bs = as @ x # later \<and> x \<noteq> [] \<and> concat as @ x = t"
proof (induction bs arbitrary: t rule: rev_induct)
  case (snoc b bs)
  show ?case
  proof (cases "b = []")
    case True
    then obtain as x later where "bs = as @ x # later \<and> x \<noteq> [] \<and> concat as @ x = t"
      using snoc.IH [of t] snoc.prems by auto
    then have "bs @ [b] = as @ x # (later @ [b]) \<and> x \<noteq> [] \<and> concat as @ x = t" by simp
    then show ?thesis by blast
  next
    case False
    then show ?thesis using snoc.prems by (intro exI [of _ bs] exI [of _ b] exI [of _ "[]"]) simp
  qed
qed simp

text \<open>
  A socket between a client and a connection of the server: \<open>blocks\<close> and \<open>chunks\<close> cut the bytes of the
  two directions; the server closes the connection after the reply.
\<close>

definition loopback :: "'s ServeMux \<Rightarrow> 's \<Rightarrow> (string \<Rightarrow> string list) \<Rightarrow> (string \<Rightarrow> string list) \<Rightarrow> 'ep \<Rightarrow> string \<Rightarrow> net_in res" where
  "loopback mux s blocks chunks ep request =
     bindr (conn_reads mux s HttpConn_new (blocks request)) (\<lambda>(c, s, acts).
     case acts of
       [AsyncWrite bytes] \<Rightarrow> Inr \<lparr>ni_chunks = chunks bytes, ni_eof = True, ni_what = ''''\<rparr>
     | _ \<Rightarrow> Inl RuntimeError)"

lemma Request_new_parts:
  "Url_new (sv_of_string t) = Inr u \<Longrightarrow>
    \<exists>req. Request_new m t = Inr req \<and> rq_url req = u \<and> rq_method req = m \<and> rq_content req = []"
  by (cases "Url_IsValid u") (simp_all add: Request_new_def Request_of_def)

lemma loopback_reply:
  assumes "head_ok m u 1 0 hs" "length u < kMaxSize" "\<forall>b. concat (blocks b) = b"
    and "ServeHttp mux s (parsed_request m u 1 0 hs []) Response_new = Inr (req', resp, s')"
    and "Response_to_buffers resp = Inr bytes"
  shows "loopback mux s blocks chunks ep (request_head m u 1 0 hs @ crlf) =
    Inr \<lparr>ni_chunks = chunks bytes, ni_eof = True, ni_what = ''''\<rparr>"
proof -
  let ?t = "request_head m u 1 0 hs @ crlf"
  obtain as x later where b: "blocks ?t = (as @ [x @ []]) @ later" "x \<noteq> []" "concat as @ x = ?t"
    using last_block [of "blocks ?t" ?t] assms(3) by (fastforce simp: crlf_def)
  obtain c' where "conn_reads mux s HttpConn_new (as @ [x @ []]) = Inr (c', s', [AsyncWrite bytes])"
    using conn_serves [OF assms(1,2) b(3,2) assms(4,5)] by blast
  from conn_reads_done [OF this, of later] show ?thesis unfolding loopback_def b(1) by simp
qed

lemma Http_Get_reads:
  assumes url: "sch \<noteq> []" "CHR '':'' \<notin> set sch" "h \<noteq> []" "CHR ''/'' \<notin> set (h @ '':'' @ port)" "CHR '':'' \<notin> set port"
      "p \<noteq> []" "hd p = CHR ''/''" "CHR ''?'' \<notin> set p" "length (url_text sch (h @ '':'' @ port) p q) < kMaxSize"
    and u: "u = \<lparr>scheme = sch, host = h @ '':'' @ port, raw_path = p, raw_query = (case q of None \<Rightarrow> [] | Some x \<Rightarrow> x)\<rparr>"
    and hs: "hs = client_headers (Request_of ''GET'' u)" "head_ok ''GET'' (client_uri u) 1 0 hs"
    and net: "resolve h port = Inr ep" "\<forall>b. concat (blocks b) = b" "\<forall>b. concat (chunks b) = b"
    and serve: "ServeHttp mux s (parsed_request ''GET'' (client_uri u) 1 0 hs []) Response_new = Inr (req', resp, s')"
    and reply: "Response_to_buffers resp = Inr bytes"
  shows "Http_Get resolve (loopback mux s blocks chunks) (url_text sch (h @ '':'' @ port) p q) r =
    ReadResponse \<lparr>ni_chunks = chunks bytes, ni_eof = True, ni_what = ''''\<rparr> r"
proof -
  have len: "length (client_uri u) < kMaxSize" "length (h @ '':'' @ port) < kMaxSize"
    using url(9) by (auto simp: url_text_def u client_uri_def split: option.splits)
  have "Url_new (sv_of_string (url_text sch (h @ '':'' @ port) p q)) = Inr u"
    using Url_text [of sch "h @ '':'' @ port" p q] url u by auto
  from Request_new_parts [OF this, of "''GET''"]
  obtain req where req: "Request_new ''GET'' (url_text sch (h @ '':'' @ port) p q) = Inr req"
    "rq_url req = u" "rq_method req = ''GET''" "rq_content req = []"
    by blast
  have ch: "client_headers req = hs" using hs(1) req by (simp add: client_headers_def Request_of_def)
  let ?sock = "\<lparr>ni_chunks = chunks bytes, ni_eof = True, ni_what = ''''\<rparr>"
  have "loopback mux s blocks chunks ep (Request_to_buffers req) = Inr ?sock"
    using loopback_reply [OF hs(2) len(1) net(2) serve reply] Request_to_buffers_head [of req] req ch by simp
  moreover have "GetEndpointFromUrl resolve u = Inr ep"
    using GetEndpointFromUrl_port [of u h port resolve] url(3,5) len(2) net(1) u by simp
  ultimately show ?thesis unfolding Http_Get_def req(1) by (simp add: Client_Do_def req(2))
qed

text \<open>The assumptions on the URL, the request, the network and the server, once for both outcomes.\<close>

lemma Http_Get_reply:
  assumes url: "sch \<noteq> []" "CHR '':'' \<notin> set sch" "h \<noteq> []" "CHR ''/'' \<notin> set (h @ '':'' @ port)" "CHR '':'' \<notin> set port"
      "p \<noteq> []" "hd p = CHR ''/''" "CHR ''?'' \<notin> set p" "length (url_text sch (h @ '':'' @ port) p q) < kMaxSize"
    and u: "u = \<lparr>scheme = sch, host = h @ '':'' @ port, raw_path = p, raw_query = (case q of None \<Rightarrow> [] | Some x \<Rightarrow> x)\<rparr>"
    and hs: "hs = client_headers (Request_of ''GET'' u)" "head_ok ''GET'' (client_uri u) 1 0 hs"
    and net: "resolve h port = Inr ep" "\<forall>b. concat (blocks b) = b" "\<forall>b. concat (chunks b) = b"
    and serve: "ServeHttp mux s (parsed_request ''GET'' (client_uri u) 1 0 hs []) Response_new = Inr (req', resp, s')"
    and reply: "rp_status resp = Some st" "st = hs_ok \<Longrightarrow> readable resp"
  shows "if st = hs_ok
    then Http_Get resolve (loopback mux s blocks chunks) (url_text sch (h @ '':'' @ port) p q) Response_new = Inr (OkStatus, resp)
    else \<exists>e. (\<forall>r. Http_Get resolve (loopback mux s blocks chunks) (url_text sch (h @ '':'' @ port) p q) r = Inr (e, r)) \<and>
      IsInvalidArgument e \<and> st_msg e = ''Response returned with status code '' @ show_nat (status_number st)"
proof -
  obtain bytes where bytes: "Response_to_buffers resp = Inr bytes" "\<exists>t. bytes = status_buffer st @ t"
    using reply(1) by (simp add: Response_to_buffers_def)
  note reads = Http_Get_reads [where resolve = resolve and blocks = blocks and chunks = chunks, OF url u hs net serve bytes(1)]
  let ?sock = "\<lparr>ni_chunks = chunks bytes, ni_eof = True, ni_what = ''''\<rparr>"
  show ?thesis
  proof (cases "st = hs_ok")
    case True
    then show ?thesis
      using ReadResponse_reply [of resp ?sock] reply bytes(1) net(3) unfolding reads by (simp add: readable_def)
  next
    case False
    then show ?thesis
      using ReadResponse_refused [of ?sock st] bytes(2) net(3) unfolding reads by auto
  qed
qed

text \<open>
  C2. A GET from end to end: the client sends the request for a URL, a connection of the server parses
  it, dispatches it and writes the reply, however the network cuts the bytes of the two directions. When
  the handler replies with status 200, at least one header, no header name twice and plain headers, the
  call returns ok and exactly that reply. When it replies with any other status (the 404 of the
  multiplexer, say), the call returns an invalid-argument status that tells the number, and the response
  of the caller is left as it was.
\<close>

theorem http_get_served:
  assumes url: "sch \<noteq> []" "CHR '':'' \<notin> set sch" "h \<noteq> []" "CHR ''/'' \<notin> set (h @ '':'' @ port)" "CHR '':'' \<notin> set port"
      "p \<noteq> []" "hd p = CHR ''/''" "CHR ''?'' \<notin> set p" "length (url_text sch (h @ '':'' @ port) p q) < kMaxSize"
    and u: "u = \<lparr>scheme = sch, host = h @ '':'' @ port, raw_path = p, raw_query = (case q of None \<Rightarrow> [] | Some x \<Rightarrow> x)\<rparr>"
    and hs: "hs = client_headers (Request_of ''GET'' u)" "head_ok ''GET'' (client_uri u) 1 0 hs"
    and net: "resolve h port = Inr ep" "\<forall>b. concat (blocks b) = b" "\<forall>b. concat (chunks b) = b"
    and serve: "ServeHttp mux s (parsed_request ''GET'' (client_uri u) 1 0 hs []) Response_new = Inr (req', resp, s')"
    and reply: "rp_status resp = Some st" "st = hs_ok \<Longrightarrow> readable resp"
  shows "if st = hs_ok
    then Http_Get resolve (loopback mux s blocks chunks) (url_text sch (h @ '':'' @ port) p q) Response_new = Inr (OkStatus, resp)
    else \<exists>e. (\<forall>r. Http_Get resolve (loopback mux s blocks chunks) (url_text sch (h @ '':'' @ port) p q) r = Inr (e, r)) \<and>
      IsInvalidArgument e \<and> st_msg e = ''Response returned with status code '' @ show_nat (status_number st)"
  using Http_Get_reply [where resolve = resolve and blocks = blocks and chunks = chunks, OF assms] .

theorem http_get_served_witness:
  "Http_Get (\<lambda>h p. Inr ())
     (loopback (mux_of [(''/a'', \<lambda>s req resp. Inr (WriteText resp hs_ok ''hi'', s))]) ()
        (\<lambda>b. [take 3 b, drop 3 b]) (\<lambda>b. [b])) ''http://h:80/a?x=1'' Response_new =
   Inr (OkStatus, WriteText Response_new hs_ok ''hi'')"
proof -
  note served = http_get_served [where st = hs_ok, simplified if_P [OF refl]]
  let ?hd = "\<lambda>s req resp. Inr (WriteText resp hs_ok ''hi'', s) :: (Response \<times> unit) res"
  let ?u = "\<lparr>scheme = ''http'', host = ''h'' @ '':'' @ ''80'', raw_path = ''/a'', raw_query = ''x=1''\<rparr>"
  let ?hs = "client_headers (Request_of ''GET'' ?u)"
  let ?r = "parsed_request ''GET'' (client_uri ?u) 1 0 ?hs []"
  have two: "show_nat (length ''hi'') = ''2''" by code_simp
  have w: "WriteText Response_new hs_ok ''hi'' = \<lparr>rp_status = Some hs_ok, rp_headers =
      [\<lparr>hd_name = ''Content-Length'', hd_value = ''2''\<rparr>, \<lparr>hd_name = ''Content-Type'', hd_value = ''text/plain''\<rparr>],
      rp_content = ''hi''\<rparr>"
    unfolding WriteText_def Response_write_def
    by (simp add: Response_new_def Response_set_header_def two del: length_Cons list.size)
  have ok: "head_ok ''GET'' (client_uri ?u) 1 0 ?hs"
    by (simp add: head_ok_def header_ok_def is_char_def is_ctl_def is_tspecial_def tspecials_def schar_def text_char_def
        client_headers_def client_uri_def Request_of_def)
  have "snd (UrlDecode ''/a?x=1'') = ''/a?x=1''" by code_simp
  then have "rq_path ?r = ''/a''"
    by (simp add: parsed_request_def client_uri_def uri_path_def)
  then have serve: "ServeHttp (mux_of [(''/a'', ?hd)]) () ?r Response_new =
      Inr (?r, WriteText Response_new hs_ok ''hi'', ())"
    by (simp add: ServeHttp_def mux_of_find)
  have "url_text ''http'' (''h'' @ '':'' @ ''80'') ''/a'' (Some ''x=1'') = ''http://h:80/a?x=1''" by (simp add: url_text_def)
  moreover have "Http_Get (\<lambda>h p. Inr ()) (loopback (mux_of [(''/a'', ?hd)]) () (\<lambda>b. [take 3 b, drop 3 b]) (\<lambda>b. [b]))
      (url_text ''http'' (''h'' @ '':'' @ ''80'') ''/a'' (Some ''x=1'')) Response_new = Inr (OkStatus, WriteText Response_new hs_ok ''hi'')"
    by (rule served [where u = ?u and ep = "()", OF _ _ _ _ _ _ _ _ _ _ refl ok _ _ _ serve])
      (simp_all add: w readable_def plain_header_def kSpaceChars_def header_buffers_def crlf_def kMaxSize_def url_text_def)
  ultimately show ?thesis by simp
qed

end
