(* ===== verification/Tcp.thy ===== *)
theory Tcp
  imports Bus Http_Server
begin

text \<open>
  TCP connections on asio: \<^verbatim>\<open>cppboot/net/tcp/connection.cc\<close>, \<^verbatim>\<open>connection_manager.cc\<close>, \<^verbatim>\<open>server.cc\<close>,
  \<^verbatim>\<open>client.cc\<close>. A member function or completion handler is a function to the operations it starts
  (\<open>tcp_action\<close>); the user's callbacks, the resolver and the socket calls are parameters. The last
  part puts the handlers of one connection into the event loop.
\<close>

section \<open>TcpConn\<close>

text \<open>\<open>tc_open\<close> says that the socket is open.\<close>

record TcpConn =
  tc_state :: ConnState
  tc_open :: bool
  tc_input :: Buffer
  tc_output :: Buffer

datatype tcp_action = AsyncReadSome | AsyncWriteSome string | PostWrite | SockShutdown | SockClose

text \<open>
  Callbacks work on the state \<open>'u\<close> of the program and on the connection they are given; an empty
  \<open>std::function\<close> is \<open>None\<close>.
\<close>

type_synonym 'u conn_cb = "'u \<Rightarrow> TcpConn \<Rightarrow> ('u \<times> TcpConn \<times> tcp_action list) res"

record 'u tcp_cbs =
  cb_conn :: "'u conn_cb option"
  cb_receive :: "'u conn_cb option"

definition call_cb :: "'u conn_cb option \<Rightarrow> 'u \<Rightarrow> TcpConn \<Rightarrow> ('u \<times> TcpConn \<times> tcp_action list) res" where
  "call_cb cb u c = (case cb of None \<Rightarrow> Inr (u, c, []) | Some f \<Rightarrow> f u c)"

definition TcpConn_new :: "bool \<Rightarrow> TcpConn" where
  "TcpConn_new socket = \<lparr>tc_state = kDisconnected, tc_open = socket,
     tc_input = Buffer_new kInitialSize, tc_output = Buffer_new kInitialSize\<rparr>"

definition ReadFromSocket :: "tcp_action list" where
  "ReadFromSocket = [AsyncReadSome]"

definition TcpConn_Start :: "'u tcp_cbs \<Rightarrow> 'u \<Rightarrow> TcpConn \<Rightarrow> ('u \<times> TcpConn \<times> tcp_action list) res" where
  "TcpConn_Start cbs u c =
     (let c = c\<lparr>tc_state := kConnected\<rparr> in
      bindr (call_cb (cb_conn cbs) u c) (\<lambda>(u, c, as). Inr (u, c, as @ ReadFromSocket)))"

text \<open>
  \<open>shutdown\<close> throws on a socket that is not open; \<open>shut_ok\<close> says whether the system accepts it on an
  open one.
\<close>

definition TcpConn_Stop :: "'u tcp_cbs \<Rightarrow> bool \<Rightarrow> 'u \<Rightarrow> TcpConn \<Rightarrow> ('u \<times> TcpConn \<times> tcp_action list) res" where
  "TcpConn_Stop cbs shut_ok u c =
     (if \<not> (tc_open c \<and> shut_ok) then Inl RuntimeError
      else
        let c = c\<lparr>tc_state := kDisconnected\<rparr> in
        bindr (call_cb (cb_conn cbs) u c) (\<lambda>(u, c, as).
        Inr (u, c\<lparr>tc_open := False\<rparr>, [SockShutdown] @ as @ [SockClose])))"

definition TcpConn_Send :: "TcpConn \<Rightarrow> string \<Rightarrow> (TcpConn \<times> tcp_action list) res" where
  "TcpConn_Send c data = bindr (Append (tc_output c) data) (\<lambda>b. Inr (c\<lparr>tc_output := b\<rparr>, [PostWrite]))"

text \<open>An endpoint is the address text and the port; \<open>None\<close> when the system has none.\<close>

definition endpoint_text :: "(string \<times> nat) option \<Rightarrow> string" where
  "endpoint_text ep = (case ep of Some (a, p) \<Rightarrow> a @ '':'' @ show_nat p | None \<Rightarrow> '''')"

definition GetLocalAddress :: "(string \<times> nat) option \<Rightarrow> string" where
  "GetLocalAddress local_endpoint = endpoint_text local_endpoint"

definition GetRemoteAddress :: "(string \<times> nat) option \<Rightarrow> string" where
  "GetRemoteAddress remote_endpoint = endpoint_text remote_endpoint"

definition on_read_some :: "'u tcp_cbs \<Rightarrow> bool \<Rightarrow> 'u \<Rightarrow> TcpConn \<Rightarrow> io_result \<Rightarrow> ('u \<times> TcpConn \<times> tcp_action list) res" where
  "on_read_some cbs shut_ok u c ec =
     (case ec of
        IoOk block \<Rightarrow>
          bindr (Append (tc_input c) block) (\<lambda>b.
          bindr (call_cb (cb_receive cbs) u (c\<lparr>tc_input := b\<rparr>)) (\<lambda>(u, c, as).
          Inr (u, c, as @ ReadFromSocket)))
      | IoAborted \<Rightarrow> Inr (u, c, [])
      | IoError \<Rightarrow> TcpConn_Stop cbs shut_ok u c)"

definition WriteToSocket :: "TcpConn \<Rightarrow> tcp_action list" where
  "WriteToSocket c =
     (if ReadableBytes (tc_output c) \<noteq> 0
      then [AsyncWriteSome (take (ReadableBytes (tc_output c)) (Peek (tc_output c)))] else [])"

datatype write_result = WrOk nat | WrAborted | WrError

definition on_write_some :: "'u tcp_cbs \<Rightarrow> bool \<Rightarrow> 'u \<Rightarrow> TcpConn \<Rightarrow> write_result \<Rightarrow> ('u \<times> TcpConn \<times> tcp_action list) res" where
  "on_write_some cbs shut_ok u c ec =
     (case ec of
        WrOk bytes_transferred \<Rightarrow>
          let c = c\<lparr>tc_output := Retrive (tc_output c) bytes_transferred\<rparr> in
          if ReadableBytes (tc_output c) = 0 then Inr (u, c, []) else Inr (u, c, WriteToSocket c)
      | WrAborted \<Rightarrow> Inr (u, c, [])
      | WrError \<Rightarrow> TcpConn_Stop cbs shut_ok u c)"

section \<open>TcpConnManager, TcpServer and TcpClient\<close>

text \<open>
  The state of the program, the connections by the address of their object, and the operations started
  on them. A callback sees the connection it is called for.
\<close>

record 'u tcp_world =
  tw_user :: 'u
  tw_conns :: "nat \<Rightarrow> TcpConn"
  tw_log :: "(nat \<times> tcp_action) list"

definition on_conn :: "('u \<Rightarrow> TcpConn \<Rightarrow> ('u \<times> TcpConn \<times> tcp_action list) res) \<Rightarrow> nat \<Rightarrow> 'u tcp_world \<Rightarrow> 'u tcp_world res" where
  "on_conn f p w =
     bindr (f (tw_user w) (tw_conns w p)) (\<lambda>(u, c, as).
     Inr (w\<lparr>tw_user := u, tw_conns := (tw_conns w)(p := c), tw_log := tw_log w @ map (Pair p) as\<rparr>))"

fun for_conns :: "(nat \<Rightarrow> 'w \<Rightarrow> 'w res) \<Rightarrow> nat list \<Rightarrow> 'w \<Rightarrow> 'w res" where
  "for_conns f [] w = Inr w"
| "for_conns f (p # ps) w = bindr (f p w) (for_conns f ps)"

definition TcpConnManager_Start :: "'u tcp_cbs \<Rightarrow> nat set \<Rightarrow> nat \<Rightarrow> 'u tcp_world \<Rightarrow> (nat set \<times> 'u tcp_world) res" where
  "TcpConnManager_Start cbs connections c w =
     (let connections = insert c connections in
      bindr (on_conn (TcpConn_Start cbs) c w) (\<lambda>w. Inr (connections, w)))"

text \<open>\<open>shut_ok\<close> says which sockets the system can shut down.\<close>

definition TcpConnManager_Stop :: "'u tcp_cbs \<Rightarrow> (nat \<Rightarrow> bool) \<Rightarrow> nat set \<Rightarrow> nat \<Rightarrow> 'u tcp_world \<Rightarrow> (nat set \<times> 'u tcp_world) res" where
  "TcpConnManager_Stop cbs shut_ok connections c w =
     (let connections = connections - {c} in
      bindr (on_conn (TcpConn_Stop cbs (shut_ok c)) c w) (\<lambda>w. Inr (connections, w)))"

definition TcpConnManager_StopAll :: "'u tcp_cbs \<Rightarrow> (nat \<Rightarrow> bool) \<Rightarrow> nat set \<Rightarrow> 'u tcp_world \<Rightarrow> (nat set \<times> 'u tcp_world) res" where
  "TcpConnManager_StopAll cbs shut_ok connections w =
     bindr (for_conns (\<lambda>c. on_conn (TcpConn_Stop cbs (shut_ok c)) c) (sorted_list_of_set connections) w) (\<lambda>w.
     Inr ({}, w))"

definition send_on :: "string \<Rightarrow> 'u \<Rightarrow> TcpConn \<Rightarrow> ('u \<times> TcpConn \<times> tcp_action list) res" where
  "send_on data u c = bindr (TcpConn_Send c data) (\<lambda>(c, as). Inr (u, c, as))"

text \<open>\<open>Boardcast\<close> is \<open>noexcept\<close>: an \<open>Inl\<close> here ends the program.\<close>

definition TcpConnManager_Boardcast :: "nat set \<Rightarrow> string \<Rightarrow> 'u tcp_world \<Rightarrow> 'u tcp_world res" where
  "TcpConnManager_Boardcast connections data w =
     for_conns (on_conn (send_on data)) (sorted_list_of_set connections) w"

record TcpServer =
  ts_open :: bool
  ts_manager :: "nat set"

definition TcpServer_new :: TcpServer where
  "TcpServer_new = \<lparr>ts_open = False, ts_manager = {}\<rparr>"

text \<open>
  \<open>resolve\<close> is the resolver and \<open>acceptor\<close> opens, binds and listens; both may throw. The flag of the
  result says that an accept is started.
\<close>

definition TcpServer_Listen :: "(string \<Rightarrow> string \<Rightarrow> 'ep list res) \<Rightarrow> ('ep \<Rightarrow> unit res) \<Rightarrow> TcpServer \<Rightarrow> string \<Rightarrow> string
    \<Rightarrow> (Status \<times> TcpServer \<times> bool) res" where
  "TcpServer_Listen resolve acceptor sv address port =
     bindr (resolve address port) (\<lambda>eps.
     case eps of
       [] \<Rightarrow> Inl UndefinedBehaviour
     | ep # _ \<Rightarrow> bindr (acceptor ep) (\<lambda>_. Inr (OkStatus, sv\<lparr>ts_open := True\<rparr>, True)))"

definition TcpServer_Stop :: "TcpServer \<Rightarrow> TcpServer" where
  "TcpServer_Stop sv = sv\<lparr>ts_open := False\<rparr>"

definition TcpServer_Boardcast :: "TcpServer \<Rightarrow> string \<Rightarrow> 'u tcp_world \<Rightarrow> 'u tcp_world res" where
  "TcpServer_Boardcast sv data w = TcpConnManager_Boardcast (ts_manager sv) data w"

text \<open>
  The completion handler of an accept does not look at the error code; after an error the socket it is
  given is not open. \<open>conn\<close> is the address of the new connection.
\<close>

definition TcpServer_on_accept :: "'u tcp_cbs \<Rightarrow> TcpServer \<Rightarrow> bool \<Rightarrow> nat \<Rightarrow> 'u tcp_world
    \<Rightarrow> (TcpServer \<times> 'u tcp_world \<times> bool) res" where
  "TcpServer_on_accept cbs sv ec conn w =
     (if \<not> ts_open sv then Inr (sv, w, False)
      else
        let w = w\<lparr>tw_conns := (tw_conns w)(conn := TcpConn_new (\<not> ec))\<rparr> in
        bindr (TcpConnManager_Start cbs (ts_manager sv) conn w) (\<lambda>(cs, w).
        Inr (sv\<lparr>ts_manager := cs\<rparr>, w, True)))"

text \<open>\<open>tcl_conn\<close> is null until a connection is made.\<close>

record TcpClient =
  tcl_conn :: "TcpConn option"

definition TcpClient_new :: TcpClient where
  "TcpClient_new = \<lparr>tcl_conn = None\<rparr>"

text \<open>
  \<open>connect\<close> resolves and connects; the exception it throws has the text \<open>what\<close>. An exception of the
  connection callback is caught as well, with the text \<open>exn_what\<close> gives it; the callback then has
  changed nothing.
\<close>

definition TcpClient_Connect :: "(string \<Rightarrow> string \<Rightarrow> string + unit) \<Rightarrow> (cpp_exn \<Rightarrow> string) \<Rightarrow> 'u tcp_cbs \<Rightarrow> 'u \<Rightarrow> TcpClient
    \<Rightarrow> string \<Rightarrow> string \<Rightarrow> (Status \<times> 'u \<times> TcpClient \<times> tcp_action list) res" where
  "TcpClient_Connect connect exn_what cbs u cl address port =
     (case connect address port of
        Inl what \<Rightarrow> bindr (InvalidArgumentError (sv_of_string what)) (\<lambda>st. Inr (st, u, cl, []))
      | Inr _ \<Rightarrow>
          (let conn = TcpConn_new True in
           case TcpConn_Start cbs u conn of
             Inr (u, c, as) \<Rightarrow> Inr (OkStatus, u, cl\<lparr>tcl_conn := Some c\<rparr>, as)
           | Inl UndefinedBehaviour \<Rightarrow> Inl UndefinedBehaviour
           | Inl e \<Rightarrow>
               bindr (InvalidArgumentError (sv_of_string (exn_what e))) (\<lambda>st.
               Inr (st, u, cl\<lparr>tcl_conn := Some (conn\<lparr>tc_state := kConnected\<rparr>)\<rparr>, []))))"

definition TcpClient_Stop :: "'u tcp_cbs \<Rightarrow> bool \<Rightarrow> 'u \<Rightarrow> TcpClient \<Rightarrow> ('u \<times> TcpClient \<times> tcp_action list) res" where
  "TcpClient_Stop cbs shut_ok u cl =
     (case tcl_conn cl of
        None \<Rightarrow> Inl UndefinedBehaviour
      | Some c \<Rightarrow> bindr (TcpConn_Stop cbs shut_ok u c) (\<lambda>(u, c, as). Inr (u, cl\<lparr>tcl_conn := Some c\<rparr>, as)))"

definition TcpClient_Send :: "TcpClient \<Rightarrow> string \<Rightarrow> (TcpClient \<times> tcp_action list) res" where
  "TcpClient_Send cl data =
     (case tcl_conn cl of
        None \<Rightarrow> Inl UndefinedBehaviour
      | Some c \<Rightarrow> bindr (TcpConn_Send c data) (\<lambda>(c, as). Inr (cl\<lparr>tcl_conn := Some c\<rparr>, as)))"

section \<open>One connection in the event loop\<close>

text \<open>
  The posted calls of \<open>WriteToSocket\<close>, the writes under way (each with the bytes it was given), the
  bytes the peer has received and, as a ghost, the bytes passed to \<open>Send\<close>. A write transfers a
  non-empty prefix of its bytes; writes complete in the order they were started.
\<close>

record tcp_io =
  io_conn :: TcpConn
  io_posts :: nat
  io_flight :: "string list"
  io_wire :: string
  io_sent :: string

definition started :: "tcp_action list \<Rightarrow> string list" where
  "started as = concat (map (\<lambda>a. case a of AsyncWriteSome w \<Rightarrow> [w] | _ \<Rightarrow> []) as)"

definition io_start :: tcp_io where
  "io_start = \<lparr>io_conn = TcpConn_new True, io_posts = 0, io_flight = [], io_wire = [], io_sent = []\<rparr>"

definition no_cbs :: "unit tcp_cbs" where
  "no_cbs = \<lparr>cb_conn = None, cb_receive = None\<rparr>"

inductive io_send :: "tcp_io \<Rightarrow> tcp_io \<Rightarrow> bool" where
  "TcpConn_Send (io_conn s) d = Inr (c, as) \<Longrightarrow> 2 * length d + 8 \<le> kMaxSize \<Longrightarrow>
    io_send s (s\<lparr>io_conn := c, io_posts := io_posts s + 1, io_sent := io_sent s @ d\<rparr>)"

inductive io_loop :: "tcp_io \<Rightarrow> tcp_io \<Rightarrow> bool" where
  post: "io_posts s = Suc n \<Longrightarrow>
    io_loop s (s\<lparr>io_posts := n, io_flight := io_flight s @ started (WriteToSocket (io_conn s))\<rparr>)"
| complete: "io_flight s = w # ws \<Longrightarrow> 0 < k \<Longrightarrow> k \<le> length w \<Longrightarrow>
    on_write_some no_cbs True () (io_conn s) (WrOk k) = Inr (u, c, as) \<Longrightarrow>
    io_loop s (s\<lparr>io_conn := c, io_flight := ws @ started as, io_wire := io_wire s @ take k w\<rparr>)"

inductive_cases io_sendE: "io_send s s'"

inductive_cases io_loopE: "io_loop s s'"

text \<open>Nothing is posted and no write is under way.\<close>

definition io_quiet :: "tcp_io \<Rightarrow> bool" where
  "io_quiet s \<longleftrightarrow> io_posts s = 0 \<and> io_flight s = []"

text \<open>The same loop when the program calls \<open>Send\<close> only while the connection is quiet.\<close>

inductive io_polite :: "tcp_io \<Rightarrow> bool" where
  start: "io_polite io_start"
| send: "io_polite s \<Longrightarrow> io_quiet s \<Longrightarrow> io_send s s' \<Longrightarrow> io_polite s'"
| loop: "io_polite s \<Longrightarrow> io_loop s s' \<Longrightarrow> io_polite s'"

text \<open>And when it calls \<open>Send\<close> at any time.\<close>

inductive io_free :: "tcp_io \<Rightarrow> bool" where
  start: "io_free io_start"
| send: "io_free s \<Longrightarrow> io_send s s' \<Longrightarrow> io_free s'"
| loop: "io_free s \<Longrightarrow> io_loop s s' \<Longrightarrow> io_free s'"

section \<open>What reaches the peer\<close>

abbreviation out_bytes :: "tcp_io \<Rightarrow> string" where
  "out_bytes s \<equiv> Buffer_Str (tc_output (io_conn s))"

lemma started_WriteToSocket:
  "buf_inv (tc_output c) \<Longrightarrow> started (WriteToSocket c) = (if Buffer_Str (tc_output c) = [] then [] else [Buffer_Str (tc_output c)])"
  using length_Buffer_Str [of "tc_output c"]
  by (auto simp: WriteToSocket_def started_def Buffer_Str_def)

lemma on_write_ok:
  assumes "buf_inv (tc_output c)"
  shows "\<exists>c' as. on_write_some cbs sh u c (WrOk k) = Inr (u, c', as) \<and> buf_inv (tc_output c') \<and>
    Buffer_Str (tc_output c') = drop k (Buffer_Str (tc_output c)) \<and>
    started as = (if Buffer_Str (tc_output c') = [] then [] else [Buffer_Str (tc_output c')])"
proof -
  let ?c = "c\<lparr>tc_output := Retrive (tc_output c) k\<rparr>"
  have r: "buf_inv (tc_output ?c)" "Buffer_Str (tc_output ?c) = drop k (Buffer_Str (tc_output c))"
    using Retrive_law [OF assms] by simp_all
  show ?thesis
  proof (cases "ReadableBytes (tc_output ?c) = 0")
    case True
    then have "Buffer_Str (tc_output ?c) = []" using length_Buffer_Str [OF r(1)] by simp
    then show ?thesis using r True by (auto simp: on_write_some_def started_def)
  next
    case False
    then show ?thesis
      using r started_WriteToSocket [OF r(1)]
      by (intro exI [of _ ?c] exI [of _ "WriteToSocket ?c"]) (simp add: on_write_some_def Let_def)
  qed
qed

lemma Send_law:
  assumes "buf_inv (tc_output c)" "length (Buffer_Str (tc_output c)) + 2 * length d + 8 \<le> kMaxSize"
  shows "\<exists>c'. TcpConn_Send c d = Inr (c', [PostWrite]) \<and> buf_inv (tc_output c') \<and>
    Buffer_Str (tc_output c') = Buffer_Str (tc_output c) @ d"
  using Append_law [OF assms(1), of d] assms(2) by (auto simp: TcpConn_Send_def kCheapPrepend_def)

text \<open>A polite program has at most one write pending, and it holds exactly the buffered bytes.\<close>

definition io_inv :: "tcp_io \<Rightarrow> bool" where
  "io_inv s \<longleftrightarrow> buf_inv (tc_output (io_conn s)) \<and> io_sent s = io_wire s @ out_bytes s \<and>
     (io_quiet s \<and> out_bytes s = [] \<or>
      io_posts s = 1 \<and> io_flight s = [] \<or>
      io_posts s = 0 \<and> io_flight s = [out_bytes s] \<and> out_bytes s \<noteq> [])"

lemma io_inv_start: "io_inv io_start"
  by (simp add: io_inv_def io_start_def io_quiet_def TcpConn_new_def Buffer_new_inv)

lemma io_inv_send:
  assumes "io_inv s" "io_quiet s" "io_send s s'"
  shows "io_inv s'"
  using assms(3)
proof (cases rule: io_send.cases)
  case (1 d c as)
  have q: "buf_inv (tc_output (io_conn s))" "out_bytes s = []" "io_posts s = 0" "io_flight s = []"
    using assms(1,2) by (auto simp: io_inv_def io_quiet_def)
  then have "buf_inv (tc_output c) \<and> Buffer_Str (tc_output c) = d"
    using Send_law [of "io_conn s" d] 1 by auto
  then show ?thesis using assms(1) q 1 by (auto simp: io_inv_def)
qed

lemma io_inv_loop:
  assumes "io_inv s" "io_loop s s'"
  shows "io_inv s'"
  using assms(2)
proof (cases rule: io_loop.cases)
  case (post n)
  then have "n = 0" "io_flight s = []" using assms(1) by (auto simp: io_inv_def io_quiet_def)
  then show ?thesis
    using assms(1) post started_WriteToSocket [of "io_conn s"]
    by (auto simp: io_inv_def io_quiet_def)
next
  case (complete w ws k u c as)
  have f: "w = out_bytes s" "ws = []" "io_posts s = 0" "buf_inv (tc_output (io_conn s))"
    using assms(1) complete(2) by (auto simp: io_inv_def io_quiet_def)
  then have c: "buf_inv (tc_output c)" "Buffer_Str (tc_output c) = drop k w"
    "started as = (if drop k w = [] then [] else [drop k w])"
    using on_write_ok [of "io_conn s" no_cbs True "()" k] complete(5) by auto
  show ?thesis
    using assms(1) complete(1) c f by (auto simp: io_inv_def io_quiet_def)
qed

lemma io_polite_inv: "io_polite s \<Longrightarrow> io_inv s"
  by (induction rule: io_polite.induct) (auto intro: io_inv_start io_inv_send io_inv_loop)

text \<open>The loop runs a pending write to its end.\<close>

lemma io_loop_post:
  assumes "io_posts s = Suc n" "buf_inv (tc_output (io_conn s))"
  shows "io_loop s (s\<lparr>io_posts := n, io_flight := io_flight s @ (if out_bytes s = [] then [] else [out_bytes s])\<rparr>)"
  using io_loop.post [OF assms(1)] started_WriteToSocket [OF assms(2)] by simp

lemma io_loop_post_some:
  assumes "io_posts s = Suc n" "buf_inv (tc_output (io_conn s))" "out_bytes s \<noteq> []"
  shows "io_loop s (s\<lparr>io_posts := n, io_flight := io_flight s @ [out_bytes s]\<rparr>)"
  using io_loop_post [OF assms(1,2)] assms(3) by simp

lemma io_loop_complete:
  assumes "io_flight s = w # ws" "w \<noteq> []" "buf_inv (tc_output (io_conn s))" "length (out_bytes s) \<le> length w"
  shows "\<exists>c. io_loop s (s\<lparr>io_conn := c, io_flight := ws, io_wire := io_wire s @ w\<rparr>) \<and>
    buf_inv (tc_output c) \<and> Buffer_Str (tc_output c) = []"
proof -
  obtain c as where c: "on_write_some no_cbs True () (io_conn s) (WrOk (length w)) = Inr ((), c, as)"
    "buf_inv (tc_output c)" "Buffer_Str (tc_output c) = drop (length w) (out_bytes s)"
    "started as = (if Buffer_Str (tc_output c) = [] then [] else [Buffer_Str (tc_output c)])"
    using on_write_ok [OF assms(3), of no_cbs True "()" "length w"] by auto
  then have e: "Buffer_Str (tc_output c) = []" "started as = []" using assms(4) by simp_all
  have "io_loop s (s\<lparr>io_conn := c, io_flight := ws @ started as, io_wire := io_wire s @ take (length w) w\<rparr>)"
    by (rule io_loop.complete [where u = "()", OF assms(1) _ _ c(1)]) (use assms(2) in simp_all)
  then show ?thesis using e c(2) by auto
qed

lemma io_drain_flight:
  assumes "io_inv s" "io_posts s = 0"
  shows "\<exists>s'. io_loop\<^sup>*\<^sup>* s s' \<and> io_quiet s' \<and> io_wire s' = io_sent s"
proof (cases "io_flight s")
  case Nil
  then have "io_quiet s" "io_wire s = io_sent s" using assms by (auto simp: io_inv_def io_quiet_def)
  then show ?thesis by blast
next
  case (Cons w ws)
  then have w: "w = out_bytes s" "ws = []" "w \<noteq> []" "buf_inv (tc_output (io_conn s))"
    "io_sent s = io_wire s @ w"
    using assms by (auto simp: io_inv_def io_quiet_def)
  obtain c where "io_loop s (s\<lparr>io_conn := c, io_flight := ws, io_wire := io_wire s @ w\<rparr>)"
    using io_loop_complete [OF Cons w(3,4)] w(1) by auto
  then show ?thesis using w assms(2)
    by (intro exI [of _ "s\<lparr>io_conn := c, io_flight := ws, io_wire := io_wire s @ w\<rparr>"])
      (auto simp: io_quiet_def)
qed

lemma io_drain:
  assumes "io_inv s"
  shows "\<exists>s'. io_loop\<^sup>*\<^sup>* s s' \<and> io_quiet s' \<and> io_wire s' = io_sent s"
proof (cases "io_posts s = 0")
  case True
  then show ?thesis using io_drain_flight [OF assms] by blast
next
  case False
  then have p: "io_posts s = Suc 0" "buf_inv (tc_output (io_conn s))" using assms by (auto simp: io_inv_def io_quiet_def)
  let ?s = "s\<lparr>io_posts := 0, io_flight := io_flight s @ (if out_bytes s = [] then [] else [out_bytes s])\<rparr>"
  have l: "io_loop s ?s" by (rule io_loop_post [OF p])
  obtain s' where "io_loop\<^sup>*\<^sup>* ?s s'" "io_quiet s'" "io_wire s' = io_sent ?s"
    using io_drain_flight [OF io_inv_loop [OF assms l]] by auto
  then show ?thesis using l by (metis (no_types, lifting) converse_rtranclp_into_rtranclp tcp_io.select_convs(5) tcp_io.surjective tcp_io.update_convs(2) tcp_io.update_convs(3))
qed

section \<open>Properties\<close>

text \<open>
  C7. A program that calls \<open>Send\<close> only when the previous bytes are out: what the peer has received
  followed by what is still buffered is what was sent, however the writes are split; and the loop
  can always run on until the connection is quiet and the peer has received everything, in order
  and once.
\<close>

theorem polite_sends_arrive:
  assumes "io_polite s"
  shows "io_sent s = io_wire s @ out_bytes s \<and> (io_quiet s \<longrightarrow> io_wire s = io_sent s) \<and>
    (\<exists>s'. io_loop\<^sup>*\<^sup>* s s' \<and> io_quiet s' \<and> io_wire s' = io_sent s)"
  using io_polite_inv [OF assms] io_drain [of s] by (auto simp: io_inv_def io_quiet_def)

lemma io_send_start:
  assumes "buf_inv (tc_output (io_conn s))" "length (out_bytes s) + 2 * length d + 8 \<le> kMaxSize"
  shows "\<exists>c. io_send s (s\<lparr>io_conn := c, io_posts := io_posts s + 1, io_sent := io_sent s @ d\<rparr>) \<and>
    buf_inv (tc_output c) \<and> Buffer_Str (tc_output c) = out_bytes s @ d"
  using Send_law [OF assms] io_send.intros [of s d] assms(2) by fastforce

theorem polite_sends_arrive_witness:
  "\<exists>s. io_polite s \<and> io_sent s = ''hi'' \<and> (\<exists>s'. io_loop\<^sup>*\<^sup>* s s' \<and> io_quiet s' \<and> io_wire s' = ''hi'')"
proof -
  have "\<exists>s. io_send io_start s \<and> io_sent s = ''hi''"
    using io_send_start [of io_start "''hi''"]
    by (auto simp: io_start_def TcpConn_new_def Buffer_new_inv kMaxSize_def)
  then obtain s where s: "io_send io_start s" "io_sent s = ''hi''" by blast
  have "io_polite s" by (rule io_polite.send [OF io_polite.start _ s(1)]) (simp add: io_quiet_def io_start_def)
  then show ?thesis using polite_sends_arrive [of s] s(2) by metis
qed

text \<open>
  C39. Two calls of \<open>Send\<close> before the loop runs post two writes, and both are given everything that
  is buffered: the peer can receive the bytes of both calls twice.
\<close>

theorem double_send_duplicates:
  assumes "d1 @ d2 \<noteq> []" "length d1 + 2 * length d2 + 8 \<le> kMaxSize" "2 * length d1 + 8 \<le> kMaxSize"
  shows "\<exists>s. io_free s \<and> io_quiet s \<and> io_sent s = d1 @ d2 \<and> io_wire s = (d1 @ d2) @ (d1 @ d2)"
proof -
  have i0: "buf_inv (tc_output (io_conn io_start))" "out_bytes io_start = []" "io_posts io_start = 0"
    "io_flight io_start = []" "io_wire io_start = []" "io_sent io_start = []"
    by (simp_all add: io_start_def TcpConn_new_def Buffer_new_inv)
  obtain s1 where s1: "io_free s1" "buf_inv (tc_output (io_conn s1))" "out_bytes s1 = d1" "io_posts s1 = 1"
    "io_flight s1 = []" "io_wire s1 = []" "io_sent s1 = d1"
    using io_send_start [OF i0(1), of d1] io_free.send [OF io_free.start] i0 assms(3) by fastforce
  obtain s2 where s2: "io_free s2" "buf_inv (tc_output (io_conn s2))" "out_bytes s2 = d1 @ d2" "io_posts s2 = Suc (Suc 0)"
    "io_flight s2 = []" "io_wire s2 = []" "io_sent s2 = d1 @ d2"
    using io_send_start [OF s1(2), of d2] io_free.send [OF s1(1)] s1 assms(2) by fastforce
  let ?s3 = "s2\<lparr>io_posts := Suc 0, io_flight := [d1 @ d2]\<rparr>"
  let ?s4 = "?s3\<lparr>io_posts := 0, io_flight := [d1 @ d2, d1 @ d2]\<rparr>"
  have ne: "out_bytes s2 \<noteq> []" using s2(3) assms(1) by auto
  have s3: "io_free ?s3"
    using io_free.loop [OF s2(1) io_loop_post_some [OF s2(4,2) ne]] s2(3,5) by simp
  have h3: "io_posts ?s3 = Suc 0" "buf_inv (tc_output (io_conn ?s3))" "out_bytes ?s3 \<noteq> []" using s2 ne by simp_all
  have s4: "io_free ?s4" using io_free.loop [OF s3 io_loop_post_some [OF h3]] s2(3) by simp
  obtain c where c: "io_loop ?s4 (?s4\<lparr>io_conn := c, io_flight := [d1 @ d2], io_wire := d1 @ d2\<rparr>)"
    "buf_inv (tc_output c)" "Buffer_Str (tc_output c) = []"
    using io_loop_complete [of ?s4 "d1 @ d2" "[d1 @ d2]"] s2 assms(1) by auto
  let ?s5 = "?s4\<lparr>io_conn := c, io_flight := [d1 @ d2], io_wire := d1 @ d2\<rparr>"
  obtain c' where "io_loop ?s5 (?s5\<lparr>io_conn := c', io_flight := [], io_wire := (d1 @ d2) @ (d1 @ d2)\<rparr>)"
    using io_loop_complete [of ?s5 "d1 @ d2" "[]"] c assms(1) by auto
  then have "io_free (?s5\<lparr>io_conn := c', io_flight := [], io_wire := (d1 @ d2) @ (d1 @ d2)\<rparr>)"
    using io_free.loop [OF io_free.loop [OF s4 c(1)]] by blast
  then show ?thesis using s2(7) by (intro exI conjI) (assumption | simp add: io_quiet_def)+
qed

theorem double_send_duplicates_witness:
  "\<exists>s. io_free s \<and> io_quiet s \<and> io_sent s = ''ab'' \<and> io_wire s = ''abab''"
  using double_send_duplicates [of "''a''" "''b''"] by (simp add: kMaxSize_def)

text \<open>A client that was never connected dereferences a null pointer when it is stopped.\<close>

lemma unconnected_client_stop: "TcpClient_Stop cbs sh u TcpClient_new = Inl UndefinedBehaviour"
  by (simp add: TcpClient_Stop_def TcpClient_new_def)

section \<open>Connections that the peer has closed\<close>

text \<open>
  When a read fails the connection stops itself, but it stays in the manager's set: a later broadcast
  posts a write for it, whose handler stops it again, and that throws.
\<close>

lemma Stop_closed: "\<not> tc_open c \<Longrightarrow> TcpConn_Stop cbs sh u c = Inl RuntimeError"
  by (simp add: TcpConn_Stop_def)

lemma read_error_closes:
  "tc_open c \<Longrightarrow> on_read_some \<lparr>cb_conn = None, cb_receive = r\<rparr> True u c IoError =
    Inr (u, c\<lparr>tc_state := kDisconnected, tc_open := False\<rparr>, [SockShutdown, SockClose])"
  by (simp add: on_read_some_def TcpConn_Stop_def call_cb_def Let_def)

lemma Send_open: "TcpConn_Send c d = Inr (c', as) \<Longrightarrow> tc_open c' = tc_open c \<and> as = [PostWrite]"
  by (auto simp: TcpConn_Send_def bindr_Inr_iff)

lemma write_error_after_close:
  assumes "\<not> tc_open c" "TcpConn_Send c d = Inr (c', as)"
  shows "on_write_some cbs sh u c' WrError = Inl RuntimeError"
  using Send_open [OF assms(2)] assms(1) by (simp add: on_write_some_def Stop_closed)

lemma for_conns_stop_closed:
  "p \<in> set ps \<Longrightarrow> \<not> tc_open (tw_conns w p) \<Longrightarrow> cb_conn cbs = None \<Longrightarrow>
    for_conns (\<lambda>c. on_conn (TcpConn_Stop cbs (sh c)) c) ps w = Inl RuntimeError"
  by (induction ps arbitrary: w)
    (auto simp: on_conn_def TcpConn_Stop_def call_cb_def Let_def)

lemma StopAll_closed:
  assumes "finite cs" "p \<in> cs" "\<not> tc_open (tw_conns w p)" "cb_conn cbs = None"
  shows "TcpConnManager_StopAll cbs sh cs w = Inl RuntimeError"
  using assms by (simp add: TcpConnManager_StopAll_def for_conns_stop_closed)

lemma on_conn_stop:
  "tc_open (tw_conns w p) \<Longrightarrow> cb_conn cbs = None \<Longrightarrow>
    \<exists>w'. on_conn (TcpConn_Stop cbs True) p w = Inr w' \<and>
      tw_conns w' = (tw_conns w)(p := (tw_conns w p)\<lparr>tc_state := kDisconnected, tc_open := False\<rparr>)"
  by (simp add: on_conn_def TcpConn_Stop_def call_cb_def Let_def)

lemma for_conns_stop:
  "distinct ps \<Longrightarrow> \<forall>p\<in>set ps. tc_open (tw_conns w p) \<Longrightarrow> cb_conn cbs = None \<Longrightarrow>
    \<exists>w'. for_conns (\<lambda>c. on_conn (TcpConn_Stop cbs True) c) ps w = Inr w' \<and>
      (\<forall>p\<in>set ps. \<not> tc_open (tw_conns w' p) \<and> tc_state (tw_conns w' p) = kDisconnected) \<and>
      (\<forall>p. p \<notin> set ps \<longrightarrow> tw_conns w' p = tw_conns w p)"
proof (induction ps arbitrary: w)
  case (Cons p ps)
  obtain w1 where w1: "on_conn (TcpConn_Stop cbs True) p w = Inr w1"
    "tw_conns w1 = (tw_conns w)(p := (tw_conns w p)\<lparr>tc_state := kDisconnected, tc_open := False\<rparr>)"
    using on_conn_stop [of w p cbs] Cons.prems by auto
  have "\<forall>q\<in>set ps. tc_open (tw_conns w1 q)" using Cons.prems w1(2) by auto
  then obtain w' where "for_conns (\<lambda>c. on_conn (TcpConn_Stop cbs True) c) ps w1 = Inr w'"
    "\<forall>p\<in>set ps. \<not> tc_open (tw_conns w' p) \<and> tc_state (tw_conns w' p) = kDisconnected"
    "\<forall>p. p \<notin> set ps \<longrightarrow> tw_conns w' p = tw_conns w1 p"
    using Cons.IH [of w1] Cons.prems by auto
  then show ?case using w1 Cons.prems(1) by (intro exI [of _ w']) auto
qed simp

text \<open>With every connection open and the system accepting the shutdowns, \<open>StopAll\<close> closes them all.\<close>

lemma StopAll_open:
  assumes "finite cs" "\<forall>p\<in>cs. tc_open (tw_conns w p)" "cb_conn cbs = None"
  shows "\<exists>w'. TcpConnManager_StopAll cbs (\<lambda>_. True) cs w = Inr ({}, w') \<and>
    (\<forall>p\<in>cs. \<not> tc_open (tw_conns w' p) \<and> tc_state (tw_conns w' p) = kDisconnected)"
  using for_conns_stop [of "sorted_list_of_set cs" w cbs] assms
  by (fastforce simp: TcpConnManager_StopAll_def)

end
