(* ===== verification/Chat_Room.thy ===== *)
theory Chat_Room
  imports Tcp
begin

text \<open>
  The chat room: \<^verbatim>\<open>examples/chat_room/chat_room.cc\<close>. The state of the program is its console. The receive
  callback works on every connection of the server, so the read handler of a connection is given here
  with the callback in place.
\<close>

definition chat_conn_callback :: "TcpConn \<Rightarrow> string list \<Rightarrow> string list" where
  "chat_conn_callback conn console =
     (case tc_state conn of
        kConnected \<Rightarrow> console @ [''conn: connected'']
      | kDisconnected \<Rightarrow> console @ [''conn: disconnected''])"

text \<open>\<open>remote\<close> gives the remote endpoint of a connection.\<close>

definition chat_receive :: "TcpServer \<Rightarrow> (nat \<Rightarrow> (string \<times> nat) option) \<Rightarrow> nat \<Rightarrow> string list tcp_world \<Rightarrow> string list tcp_world res" where
  "chat_receive svr remote conn w =
     (let username = GetRemoteAddress (remote conn);
          s = Buffer_ToString (tc_input (tw_conns w conn));
          w = w\<lparr>tw_user := tw_user w @ [''recv from '' @ username @ '': '' @ s]\<rparr>;
          reply = username @ '': '' @ s in
      bindr (TcpServer_Boardcast svr reply w) (\<lambda>w.
      let c = tw_conns w conn in
      Inr (w\<lparr>tw_conns := (tw_conns w)(conn := c\<lparr>tc_input := RetriveAll (tc_input c)\<rparr>)\<rparr>)))"

definition chat_on_read :: "TcpServer \<Rightarrow> (nat \<Rightarrow> (string \<times> nat) option) \<Rightarrow> nat \<Rightarrow> string \<Rightarrow> string list tcp_world \<Rightarrow> string list tcp_world res" where
  "chat_on_read svr remote conn block w =
     bindr (Append (tc_input (tw_conns w conn)) block) (\<lambda>b.
     let w = w\<lparr>tw_conns := (tw_conns w)(conn := (tw_conns w conn)\<lparr>tc_input := b\<rparr>)\<rparr> in
     bindr (chat_receive svr remote conn w) (\<lambda>w.
     Inr (w\<lparr>tw_log := tw_log w @ map (Pair conn) ReadFromSocket\<rparr>)))"

section \<open>A broadcast\<close>

text \<open>\<open>w'\<close> differs from \<open>w\<close> only in that the connections \<open>ps\<close> have \<open>d\<close> appended to their output.\<close>

definition sent_to :: "nat set \<Rightarrow> string \<Rightarrow> 'u tcp_world \<Rightarrow> 'u tcp_world \<Rightarrow> bool" where
  "sent_to ps d w w' \<longleftrightarrow> tw_user w' = tw_user w \<and>
     (\<forall>p. buf_inv (tc_output (tw_conns w' p)) \<and>
        tc_state (tw_conns w' p) = tc_state (tw_conns w p) \<and> tc_open (tw_conns w' p) = tc_open (tw_conns w p) \<and>
        tc_input (tw_conns w' p) = tc_input (tw_conns w p) \<and>
        (p \<notin> ps \<longrightarrow> tc_output (tw_conns w' p) = tc_output (tw_conns w p)) \<and>
        Buffer_Str (tc_output (tw_conns w' p)) = Buffer_Str (tc_output (tw_conns w p)) @ (if p \<in> ps then d else []))"

lemma TcpConn_Send_keeps:
  "TcpConn_Send c d = Inr (c', as) \<Longrightarrow> tc_state c' = tc_state c \<and> tc_open c' = tc_open c \<and> tc_input c' = tc_input c"
  by (auto simp: TcpConn_Send_def bindr_Inr_iff)

lemma for_conns_send:
  assumes "distinct ps" "\<forall>p. buf_inv (tc_output (tw_conns w p))"
    and "\<forall>p\<in>set ps. length (Buffer_Str (tc_output (tw_conns w p))) + 2 * length d + 8 \<le> kMaxSize"
  shows "\<exists>w'. for_conns (on_conn (send_on d)) ps w = Inr w' \<and> sent_to (set ps) d w w' \<and>
    tw_log w' = tw_log w @ map (\<lambda>p. (p, PostWrite)) ps"
  using assms
proof (induction ps arbitrary: w)
  case Nil
  then show ?case by (simp add: sent_to_def)
next
  case (Cons p ps)
  have p: "buf_inv (tc_output (tw_conns w p))" "length (Buffer_Str (tc_output (tw_conns w p))) + 2 * length d + 8 \<le> kMaxSize"
    using Cons.prems by simp_all
  from Send_law [OF this] obtain c where c: "TcpConn_Send (tw_conns w p) d = Inr (c, [PostWrite])" "buf_inv (tc_output c)"
    "Buffer_Str (tc_output c) = Buffer_Str (tc_output (tw_conns w p)) @ d" by blast
  let ?w = "w\<lparr>tw_user := tw_user w, tw_conns := (tw_conns w)(p := c), tw_log := tw_log w @ [(p, PostWrite)]\<rparr>"
  have s: "on_conn (send_on d) p w = Inr ?w" using c(1) by (simp add: on_conn_def send_on_def)
  have ih: "distinct ps" "\<forall>q. buf_inv (tc_output (tw_conns ?w q))"
    "\<forall>q\<in>set ps. length (Buffer_Str (tc_output (tw_conns ?w q))) + 2 * length d + 8 \<le> kMaxSize"
    using Cons.prems c(2) by auto
  obtain w' where w': "for_conns (on_conn (send_on d)) ps ?w = Inr w'" "sent_to (set ps) d ?w w'"
    "tw_log w' = tw_log ?w @ map (\<lambda>p. (p, PostWrite)) ps"
    using Cons.IH [OF ih] by blast
  then have "sent_to (set (p # ps)) d w w'"
    using Cons.prems(1) c(2,3) TcpConn_Send_keeps [OF c(1)] by (auto simp: sent_to_def)
  then show ?case using s w' by (intro exI [of _ w']) simp
qed

text \<open>
  C23. What a member writes reaches every member of the chat room, and nothing else happens: after a read
  the reply, which is the sender's address and the pending input, is appended to the output of each
  managed connection, one write is posted for each and the next read is started; the input of the sender
  is consumed; the console has one more line with the same text; the state, the socket and the input of
  every other connection, and the output of a connection that is not managed, are as before. Stated for
  buffers in order and messages below the largest size of a vector.
\<close>

theorem chat_broadcast:
  assumes "finite (ts_manager svr)" "\<forall>p. buf_inv (tc_output (tw_conns w p))" "buf_inv (tc_input (tw_conns w conn))"
    and "length (Buffer_Str (tc_input (tw_conns w conn))) + 2 * length block + 8 \<le> kMaxSize"
    and "reply = GetRemoteAddress (remote conn) @ '': '' @ Buffer_Str (tc_input (tw_conns w conn)) @ block"
    and "\<forall>p\<in>ts_manager svr. length (Buffer_Str (tc_output (tw_conns w p))) + 2 * length reply + 8 \<le> kMaxSize"
  shows "\<exists>w'. chat_on_read svr remote conn block w = Inr w' \<and>
    (\<forall>p. Buffer_Str (tc_output (tw_conns w' p)) =
       Buffer_Str (tc_output (tw_conns w p)) @ (if p \<in> ts_manager svr then reply else [])) \<and>
    Buffer_Str (tc_input (tw_conns w' conn)) = [] \<and>
    (\<forall>p. tc_state (tw_conns w' p) = tc_state (tw_conns w p) \<and> tc_open (tw_conns w' p) = tc_open (tw_conns w p)) \<and>
    (\<forall>p. p \<noteq> conn \<longrightarrow> tc_input (tw_conns w' p) = tc_input (tw_conns w p)) \<and>
    (\<forall>p. p \<notin> ts_manager svr \<longrightarrow> tc_output (tw_conns w' p) = tc_output (tw_conns w p)) \<and>
    tw_user w' = tw_user w @ [''recv from '' @ reply] \<and>
    tw_log w' = tw_log w @ map (\<lambda>p. (p, PostWrite)) (sorted_list_of_set (ts_manager svr)) @ [(conn, AsyncReadSome)]"
proof -
  obtain b where b: "Append (tc_input (tw_conns w conn)) block = Inr b" "buf_inv b"
    "Buffer_Str b = Buffer_Str (tc_input (tw_conns w conn)) @ block"
    using Append_law [OF assms(3), of block] assms(4) by (auto simp: kCheapPrepend_def)
  let ?w = "w\<lparr>tw_conns := (tw_conns w)(conn := (tw_conns w conn)\<lparr>tc_input := b\<rparr>)\<rparr>"
  let ?w1 = "?w\<lparr>tw_user := tw_user w @ [''recv from '' @ GetRemoteAddress (remote conn) @ '': '' @ Buffer_ToString b]\<rparr>"
  have r: "GetRemoteAddress (remote conn) @ '': '' @ Buffer_ToString b = reply"
    using b(3) assms(5) by (simp add: Buffer_ToString_def Buffer_Str_def)
  have "\<exists>w'. for_conns (on_conn (send_on reply)) (sorted_list_of_set (ts_manager svr)) ?w1 = Inr w' \<and>
      sent_to (set (sorted_list_of_set (ts_manager svr))) reply ?w1 w' \<and>
      tw_log w' = tw_log ?w1 @ map (\<lambda>p. (p, PostWrite)) (sorted_list_of_set (ts_manager svr))"
    using assms(1,2,6) by (intro for_conns_send) auto
  then obtain w2 where w2: "TcpServer_Boardcast svr reply ?w1 = Inr w2" "sent_to (ts_manager svr) reply ?w1 w2"
    "tw_log w2 = tw_log w @ map (\<lambda>p. (p, PostWrite)) (sorted_list_of_set (ts_manager svr))"
    using assms(1) by (auto simp: TcpServer_Boardcast_def TcpConnManager_Boardcast_def)
  have s: "tc_state (tw_conns w2 p) = tc_state (tw_conns w p)" "tc_open (tw_conns w2 p) = tc_open (tw_conns w p)"
    "tc_input (tw_conns w2 p) = (if p = conn then b else tc_input (tw_conns w p))"
    "p \<notin> ts_manager svr \<Longrightarrow> tc_output (tw_conns w2 p) = tc_output (tw_conns w p)"
    "Buffer_Str (tc_output (tw_conns w2 p)) =
      Buffer_Str (tc_output (tw_conns w p)) @ (if p \<in> ts_manager svr then reply else [])" for p
    using w2(2) by (simp_all add: sent_to_def)
  have u: "Buffer_Str (RetriveAll b) = []" "tw_user w2 = tw_user w @ [''recv from '' @ reply]"
    using w2(2) r by (simp_all add: sent_to_def Buffer_Str_def RetriveAll_def ReadableBytes_def)
  define w3 where "w3 = w2\<lparr>tw_conns := (tw_conns w2)(conn := (tw_conns w2 conn)\<lparr>tc_input := RetriveAll b\<rparr>),
    tw_log := tw_log w2 @ [(conn, AsyncReadSome)]\<rparr>"
  have "chat_on_read svr remote conn block w = Inr w3"
    using w2(1) b(1) r s(3) [of conn] by (simp add: chat_on_read_def chat_receive_def ReadFromSocket_def Let_def w3_def)
  then show ?thesis
    using s u w2(3) by (intro exI [of _ w3]) (simp add: w3_def)
qed

theorem chat_broadcast_witness:
  "\<exists>w'. chat_on_read \<lparr>ts_open = True, ts_manager = {1, 2}\<rparr> (\<lambda>_. Some (''h'', 7)) 1 ''hi''
       \<lparr>tw_user = [], tw_conns = (\<lambda>_. (TcpConn_new True)\<lparr>tc_state := kConnected\<rparr>), tw_log = []\<rparr> = Inr w' \<and>
     Buffer_Str (tc_output (tw_conns w' 2)) = ''h:7: hi'' \<and> Buffer_Str (tc_output (tw_conns w' 3)) = [] \<and>
     tc_state (tw_conns w' 2) = kConnected \<and> tw_user w' = [''recv from h:7: hi'']"
proof -
  let ?w = "\<lparr>tw_user = [], tw_conns = (\<lambda>_. (TcpConn_new True)\<lparr>tc_state := kConnected\<rparr>), tw_log = []\<rparr> :: string list tcp_world"
  have i: "buf_inv (tc_output (TcpConn_new True))" "buf_inv (tc_input (TcpConn_new True))"
    "Buffer_Str (tc_output (TcpConn_new True)) = []" "Buffer_Str (tc_input (TcpConn_new True)) = []"
    by (simp_all add: TcpConn_new_def Buffer_new_inv)
  have "show_nat 7 = ''7''" by code_simp
  then have a: "GetRemoteAddress (Some (''h'', 7)) = ''h:7''" by (simp add: GetRemoteAddress_def endpoint_text_def)
  show ?thesis
    using chat_broadcast [of "\<lparr>ts_open = True, ts_manager = {1, 2}\<rparr>" ?w 1 "''hi''" "''h:7: hi''" "\<lambda>_. Some (''h'', 7)"] i a
    by (auto simp: kMaxSize_def)
qed

end
