(* ===== verification/Timestamp.thy ===== *)
theory Timestamp
  imports Cpp_Prelude
begin

text \<open>
  Time stamps: \<^verbatim>\<open>cppboot/base/timestamp.h\<close> and \<^verbatim>\<open>timestamp.cc\<close>. A time stamp is its 64-bit count of
  microseconds; \<open>/\<close> and \<open>%\<close> of C++ round towards zero. The calendar of \<open>gmtime_r\<close> is written out.
  \<open>TimeDifference\<close> and \<open>AddTime\<close> work on floating-point numbers and are left out.
\<close>

record Timestamp =
  micro_seconds_since_epoch :: int

definition kMicroSecondsPerSecond :: int where
  "kMicroSecondsPerSecond = 1000 * 1000"

definition c_div :: "int \<Rightarrow> int \<Rightarrow> int" where
  "c_div a b = (if a < 0 then - ((- a) div b) else a div b)"

definition c_mod :: "int \<Rightarrow> int \<Rightarrow> int" where
  "c_mod a b = a - c_div a b * b"

text \<open>Arithmetic of \<open>int64_t\<close>; overflow is undefined.\<close>

definition int64_chk :: "int \<Rightarrow> int res" where
  "int64_chk i = (if - (2 ^ 63) \<le> i \<and> i < 2 ^ 63 then Inr i else Inl UndefinedBehaviour)"

definition Timestamp_new :: Timestamp where
  "Timestamp_new = \<lparr>micro_seconds_since_epoch = 0\<rparr>"

definition Timestamp_at :: "int \<Rightarrow> Timestamp" where
  "Timestamp_at us = \<lparr>micro_seconds_since_epoch = us\<rparr>"

definition Timestamp_swap :: "Timestamp \<Rightarrow> Timestamp \<Rightarrow> Timestamp \<times> Timestamp" where
  "Timestamp_swap a b = (b, a)"

definition Timestamp_IsValid :: "Timestamp \<Rightarrow> bool" where
  "Timestamp_IsValid t \<longleftrightarrow> micro_seconds_since_epoch t > 0"

definition Timestamp_Invalid :: Timestamp where
  "Timestamp_Invalid = Timestamp_new"

definition seconds_since_epoch :: "Timestamp \<Rightarrow> int" where
  "seconds_since_epoch t = c_div (micro_seconds_since_epoch t) kMicroSecondsPerSecond"

definition FromUnixTime :: "int \<Rightarrow> int \<Rightarrow> Timestamp res" where
  "FromUnixTime t microseconds =
     bindr (int64_chk (t * kMicroSecondsPerSecond)) (\<lambda>us.
     bindr (int64_chk (us + microseconds)) (\<lambda>us. Inr (Timestamp_at us)))"

definition FromUnixTime_seconds :: "int \<Rightarrow> Timestamp res" where
  "FromUnixTime_seconds t = FromUnixTime t 0"

text \<open>\<open>tv\<close> is what \<open>gettimeofday\<close> stores.\<close>

definition Timestamp_Now :: "int \<times> int \<Rightarrow> Timestamp res" where
  "Timestamp_Now tv =
     bindr (int64_chk (fst tv * kMicroSecondsPerSecond)) (\<lambda>us.
     bindr (int64_chk (us + snd tv)) (\<lambda>us. Inr (Timestamp_at us)))"

definition Timestamp_less :: "Timestamp \<Rightarrow> Timestamp \<Rightarrow> bool" where
  "Timestamp_less a b \<longleftrightarrow> micro_seconds_since_epoch a < micro_seconds_since_epoch b"

definition Timestamp_eq :: "Timestamp \<Rightarrow> Timestamp \<Rightarrow> bool" where
  "Timestamp_eq a b \<longleftrightarrow> micro_seconds_since_epoch a = micro_seconds_since_epoch b"

section \<open>Printing\<close>

text \<open>
  The conversions \<open>%0wd\<close> and \<open>%wd\<close> with field width \<open>w\<close>, which counts the sign, and \<open>snprintf\<close> into
  a buffer of \<open>n\<close> bytes.
\<close>

definition pad0 :: "nat \<Rightarrow> int \<Rightarrow> string" where
  "pad0 w i =
     (let ds = show_nat (nat \<bar>i\<bar>); sign = (if i < 0 then ''-'' else '''') in
      sign @ replicate (w - length sign - length ds) CHR ''0'' @ ds)"

definition pad_blank :: "nat \<Rightarrow> int \<Rightarrow> string" where
  "pad_blank w i = replicate (w - length (show_int i)) CHR '' '' @ show_int i"

definition snprintf_buf :: "nat \<Rightarrow> string \<Rightarrow> string" where
  "snprintf_buf n s = take (n - 1) s"

definition ToString :: "Timestamp \<Rightarrow> string" where
  "ToString t =
     (let seconds = c_div (micro_seconds_since_epoch t) kMicroSecondsPerSecond;
          microseconds = c_mod (micro_seconds_since_epoch t) kMicroSecondsPerSecond in
      snprintf_buf 32 (show_int seconds @ ''.'' @ pad0 6 microseconds))"

text \<open>
  The Gregorian calendar: day \<open>z\<close> since 1970-01-01 as year, month and day, counted in eras of 400 years
  that start on 1 March.
\<close>

definition civil_from_days :: "int \<Rightarrow> int \<times> int \<times> int" where
  "civil_from_days z =
     (let z = z + 719468;
          era = z div 146097;
          doe = z mod 146097;
          century = min 3 (doe div 36524);
          r = doe - 36524 * century;
          r' = r mod 1461;
          yoq = min 3 (r' div 365);
          yoe = 100 * century + 4 * (r div 1461) + yoq;
          doy = r' - 365 * yoq;
          mp = (5 * doy + 2) div 153;
          d = doy - (153 * mp + 2) div 5 + 1;
          m = (if mp < 10 then mp + 3 else mp - 9) in
      (yoe + era * 400 + (if m \<le> 2 then 1 else 0), m, d))"

record tm =
  tm_year :: int
  tm_mon :: int
  tm_mday :: int
  tm_hour :: int
  tm_min :: int
  tm_sec :: int

definition gmtime :: "int \<Rightarrow> tm" where
  "gmtime seconds =
     (let (y, m, d) = civil_from_days (seconds div 86400); s = seconds mod 86400 in
      \<lparr>tm_year = y - 1900, tm_mon = m - 1, tm_mday = d, tm_hour = s div 3600, tm_min = s mod 3600 div 60,
       tm_sec = s mod 60\<rparr>)"

definition ToFormattedString :: "Timestamp \<Rightarrow> bool \<Rightarrow> string" where
  "ToFormattedString t show_microseconds =
     (let seconds = c_div (micro_seconds_since_epoch t) kMicroSecondsPerSecond;
          tm_time = gmtime seconds;
          date = pad_blank 4 (tm_year tm_time + 1900) @ pad0 2 (tm_mon tm_time + 1) @ pad0 2 (tm_mday tm_time) @ '' '' @
            pad0 2 (tm_hour tm_time) @ '':'' @ pad0 2 (tm_min tm_time) @ '':'' @ pad0 2 (tm_sec tm_time) in
      if show_microseconds
      then snprintf_buf 64 (date @ ''.'' @ pad0 6 (c_mod (micro_seconds_since_epoch t) kMicroSecondsPerSecond))
      else snprintf_buf 64 date)"

section \<open>Division\<close>

lemma c_div_mod: "c_div a b * b + c_mod a b = a"
  by (simp add: c_mod_def)

lemma c_mod_nonneg: "0 \<le> a \<Longrightarrow> 0 < b \<Longrightarrow> 0 \<le> c_mod a b \<and> c_mod a b < b"
  by (simp add: c_mod_def c_div_def minus_div_mult_eq_mod)

lemma c_div_nonneg: "0 \<le> a \<Longrightarrow> 0 < b \<Longrightarrow> 0 \<le> c_div a b"
  by (simp add: c_div_def pos_imp_zdiv_nonneg_iff)

section \<open>Dates\<close>

definition days_from_civil :: "int \<times> int \<times> int \<Rightarrow> int" where
  "days_from_civil = (\<lambda>(y, m, d).
     let y = (if m \<le> 2 then y - 1 else y);
         mp = (if m > 2 then m - 3 else m + 9);
         doy = (153 * mp + 2) div 5 + d - 1 in
     365 * y + y div 4 - y div 100 + y div 400 + doy - 719468)"

lemma civil_roundtrip_years:
  fixes doe :: int
  assumes "0 \<le> doe" "doe < 146097"
    and "c = min 3 (doe div 36524)" "r = doe - 36524 * c" "q = r div 1461" "r' = r mod 1461"
    and "y = min 3 (r' div 365)" "doy = r' - 365 * y" "yoe = 100 * c + 4 * q + y"
  shows "0 \<le> doy" "doy \<le> 365" "0 \<le> yoe" "yoe < 400" "365 * yoe + yoe div 4 - yoe div 100 + doy = doe"
proof -
  have c: "0 \<le> c" "c \<le> 3" "0 \<le> r" "r \<le> 36524" using assms(1-4) by auto
  have q: "0 \<le> q" "q \<le> 24" "r = 1461 * q + r'" "0 \<le> r'" "r' \<le> 1460" using c assms(5,6) by auto
  have y: "0 \<le> y" "y \<le> 3" "0 \<le> doy" "doy \<le> 365" using q assms(7,8) by auto
  have k: "0 \<le> 4 * q + y" "4 * q + y < 100" using y q by auto
  have "yoe div 4 = 25 * c + q" using assms(9) y by auto
  moreover have "yoe div 100 = c" using k div_pos_pos_trivial [OF k] unfolding assms(9) add.assoc by simp
  ultimately show "365 * yoe + yoe div 4 - yoe div 100 + doy = doe" using assms(4,8,9) q by simp
  show "0 \<le> doy" "doy \<le> 365" "0 \<le> yoe" "yoe < 400" using y k c(1,2) assms(9) by linarith+
qed

lemma month_of_day:
  fixes doy :: int
  assumes "0 \<le> doy" "doy \<le> 365" "mp = (5 * doy + 2) div 153" "d = doy - (153 * mp + 2) div 5 + 1"
  shows "0 \<le> mp" "mp \<le> 11" "1 \<le> d" "d \<le> 31"
  using assms by auto

lemma days_from_civil_march:
  assumes "0 \<le> mp" "mp \<le> 11"
  shows "days_from_civil (y + (if (if mp < 10 then mp + 3 else mp - 9) \<le> 2 then 1 else 0),
      if mp < 10 then mp + 3 else mp - 9, d) =
    365 * y + y div 4 - y div 100 + y div 400 + ((153 * mp + 2) div 5 + d - 1) - 719468"
  using assms by (cases "mp < 10") (simp_all add: days_from_civil_def)

text \<open>The calendar is a bijection: the date of a day, counted back, is that day.\<close>

lemma days_from_civil_from_days: "days_from_civil (civil_from_days z) = z"
proof -
  define doe where "doe = (z + 719468) mod 146097"
  define era where "era = (z + 719468) div 146097"
  define c where "c = min 3 (doe div 36524)"
  define r where "r = doe - 36524 * c"
  define y where "y = min 3 (r mod 1461 div 365)"
  define yoe where "yoe = 100 * c + 4 * (r div 1461) + y"
  define doy where "doy = r mod 1461 - 365 * y"
  define mp where "mp = (5 * doy + 2) div 153"
  have yr: "0 \<le> doy" "doy \<le> 365" "0 \<le> yoe" "yoe < 400" "365 * yoe + yoe div 4 - yoe div 100 + doy = doe"
    using civil_roundtrip_years [OF _ _ c_def r_def refl refl y_def doy_def yoe_def] by (simp_all add: doe_def)
  have mp: "0 \<le> mp" "mp \<le> 11" using month_of_day [OF yr(1,2) mp_def refl] by auto
  have civ: "civil_from_days z = (yoe + era * 400 + (if (if mp < 10 then mp + 3 else mp - 9) \<le> 2 then 1 else 0),
      if mp < 10 then mp + 3 else mp - 9, doy - (153 * mp + 2) div 5 + 1)"
    unfolding civil_from_days_def Let_def mp_def doy_def yoe_def y_def r_def c_def doe_def era_def by (rule refl)
  have dv: "(yoe + era * 400) div 4 = yoe div 4 + 100 * era" "(yoe + era * 400) div 100 = yoe div 100 + 4 * era"
    "(yoe + era * 400) div 400 = era"
    using yr(3,4) by auto
  have z: "z = 146097 * era + doe - 719468" by (simp add: doe_def era_def)
  show ?thesis
    unfolding civ days_from_civil_march [OF mp] dv using yr(5) z by (simp add: algebra_simps)
qed

section \<open>Text of a time stamp\<close>

lemma digits_val_zeros [simp]: "digits_val (replicate n CHR ''0'' @ ds) = digits_val ds"
  by (induction n) (simp_all add: digits_val_def)

lemma pad0_digits:
  assumes "0 \<le> i" "i < 10 ^ w" "0 < w"
  shows "length (pad0 w i) = w" "digits_val (pad0 w i) = nat i" "list_all c_isdigit (pad0 w i)"
proof -
  have "nat i < 10 ^ w" using assms(1,2) by (simp add: nat_less_iff)
  then have "length (show_nat (nat i)) \<le> w" using show_nat_length assms(3) by blast
  then show "length (pad0 w i) = w" using assms(1) by (simp add: pad0_def Let_def)
  show "digits_val (pad0 w i) = nat i" using assms(1) by (simp add: pad0_def Let_def)
  show "list_all c_isdigit (pad0 w i)"
    using assms(1) show_nat_digits [of _ "nat i"] by (auto simp: pad0_def Let_def list_all_iff c_isdigit_def less_eq_char_def)
qed

text \<open>
  A valid time stamp is recovered from its text: the seconds, a point and six digits of
  microseconds; nothing is cut off.
\<close>

lemma Timestamp_text:
  assumes "0 \<le> micro_seconds_since_epoch t" "micro_seconds_since_epoch t < 2 ^ 63"
  shows "\<exists>s u. ToString t = s @ ''.'' @ u \<and> length u = 6 \<and> list_all c_isdigit (s @ u) \<and>
    int (digits_val s) * kMicroSecondsPerSecond + int (digits_val u) = micro_seconds_since_epoch t"
proof -
  let ?t = "micro_seconds_since_epoch t"
  let ?s = "c_div ?t kMicroSecondsPerSecond" and ?u = "c_mod ?t kMicroSecondsPerSecond"
  have s: "0 \<le> ?s" "?s < 10 ^ 13" using assms by (auto simp: c_div_def kMicroSecondsPerSecond_def)
  have u: "0 \<le> ?u" "?u < 10 ^ 6" using c_mod_nonneg [OF assms(1), of kMicroSecondsPerSecond] by (auto simp: kMicroSecondsPerSecond_def)
  have pd: "length (pad0 6 ?u) = 6" "digits_val (pad0 6 ?u) = nat ?u" "list_all c_isdigit (pad0 6 ?u)"
    using pad0_digits [OF u] by simp_all
  have "length (show_nat (nat ?s)) \<le> 13" using s by (intro show_nat_length) (auto simp: nat_less_iff)
  then have "ToString t = show_nat (nat ?s) @ ''.'' @ pad0 6 ?u"
    using s pd(1) by (simp add: ToString_def Let_def snprintf_buf_def show_int_def)
  moreover have "int (digits_val (show_nat (nat ?s))) * kMicroSecondsPerSecond + int (digits_val (pad0 6 ?u)) = ?t"
    using s u pd(2) c_div_mod [of ?t kMicroSecondsPerSecond] by simp
  moreover have "list_all c_isdigit (show_nat (nat ?s) @ pad0 6 ?u)"
    using show_nat_digits pd(3) by (auto simp: list_all_iff)
  ultimately show ?thesis using pd(1) by blast
qed

text \<open>Before the epoch the sign is printed inside the fraction, and within a second of it only there.\<close>

lemma ToString_negative: "ToString (Timestamp_at (- 5)) = ''0.-00005''"
  by code_simp

lemma civil_examples:
  "civil_from_days 0 = (1970, 1, 1)" "civil_from_days 11016 = (2000, 2, 29)" "civil_from_days (- 1) = (1969, 12, 31)"
  by code_simp+

end
