(* ===== verification/Html.thy ===== *)
theory Html
  imports Cpp_Prelude Std_Map
begin

text \<open>
  HTML documents: \<^verbatim>\<open>cppboot/net/html/document.cc\<close> and \<^verbatim>\<open>elements/\<close>. An element is a tree; the derived classes
  that override \<open>Dump\<close> are kinds of an element with the members they add. The last part shows that the
  text of a document determines its tree, as long as no text of it contains markup.
\<close>

section \<open>Elements\<close>

datatype elem_kind =
    PlainElement
  | InputElement string string string
  | TableElement "string list" "string list list"

datatype Element = Element elem_kind string "(string \<times> string) list" string "Element list"

definition Element_new :: "string \<Rightarrow> Element" where
  "Element_new name = Element PlainElement name [] '''' []"

definition Element_text :: "string \<Rightarrow> string \<Rightarrow> Element" where
  "Element_text name cont = Element PlainElement name [] cont []"

fun set_attribute :: "Element \<Rightarrow> string \<Rightarrow> string \<Rightarrow> Element" where
  "set_attribute (Element k n attr t cs) name val = Element k n (map_set attr name val) t cs"

fun AddChild :: "Element \<Rightarrow> Element \<Rightarrow> Element" where
  "AddChild (Element k n attr t cs) e = Element k n attr t (cs @ [e])"

abbreviation tab :: char where "tab \<equiv> CHR 0x09"

definition nl :: string where
  "nl = [CHR 0x0A]"

definition tabs :: "nat \<Rightarrow> string" where
  "tabs depth = replicate depth tab"

definition quot :: string where
  "quot = [CHR 0x22]"

definition dump_attr :: "string \<times> string \<Rightarrow> string" where
  "dump_attr i = '' '' @ fst i @ ''='' @ quot @ snd i @ quot"

definition Input_Dump :: "string \<Rightarrow> string \<Rightarrow> string \<Rightarrow> nat \<Rightarrow> string" where
  "Input_Dump ident label val depth =
     tabs depth @ ''<label for='' @ quot @ ident @ quot @ ''>'' @ label @ ''</label>'' @ nl @
     tabs depth @ ''<input type='' @ quot @ ''text'' @ quot @ '' id='' @ quot @ ident @ quot @ '' name='' @ quot @ ident @ quot @
     '' value='' @ quot @ val @ quot @ ''><br>'' @ nl"

definition table_row :: "string \<Rightarrow> nat \<Rightarrow> string list \<Rightarrow> string" where
  "table_row tag depth cells =
     tabs depth @ [tab] @ ''<tr>'' @ nl @
     concat (map (\<lambda>c. tabs depth @ [tab, tab] @ ''<'' @ tag @ ''>'' @ c @ ''</'' @ tag @ ''>'' @ nl) cells) @
     tabs depth @ [tab] @ ''</tr>'' @ nl"

definition Table_Dump :: "string list \<Rightarrow> string list list \<Rightarrow> nat \<Rightarrow> string" where
  "Table_Dump heads data depth =
     tabs depth @ ''<table>'' @ nl @
     (if heads \<noteq> [] then table_row ''th'' depth heads else []) @
     concat (map (\<lambda>row. table_row ''td'' depth (take (length heads) row)) data) @
     tabs depth @ ''</table>'' @ nl"

fun Dump :: "Element \<Rightarrow> nat \<Rightarrow> string" where
  "Dump (Element kind name attr cont children) depth =
     (case kind of
        InputElement i l v \<Rightarrow> Input_Dump i l v depth
      | TableElement heads data \<Rightarrow> Table_Dump heads data depth
      | PlainElement \<Rightarrow>
          tabs depth @ ''<'' @ name @ concat (map dump_attr attr) @ ''>'' @
          (if children \<noteq> []
           then nl @ concat (map (\<lambda>i. Dump i (depth + 1)) children) @ tabs depth @ ''</'' @ name @ ''>'' @ nl
           else if cont \<noteq> [] then cont @ ''</'' @ name @ ''>'' @ nl
           else nl))"

definition Form_new :: "string \<Rightarrow> Element" where
  "Form_new action = set_attribute (Element_new ''form'') ''action'' action"

definition Input_new :: "string \<Rightarrow> string \<Rightarrow> string \<Rightarrow> Element" where
  "Input_new ident label val = Element (InputElement ident label val) '''' [] '''' []"

definition SubmitButton_new :: "string \<Rightarrow> Element" where
  "SubmitButton_new cont = set_attribute (set_attribute (Element_new ''input'') ''type'' ''submit'') ''value'' cont"

definition Link_new :: "string \<Rightarrow> string \<Rightarrow> Element" where
  "Link_new cont url = set_attribute (set_attribute (Element_text ''a'' cont) ''href'' url) ''target'' ''_blank''"

definition Table_new :: "string list \<Rightarrow> Element" where
  "Table_new heads = Element (TableElement heads []) ''table'' [] '''' []"

fun Table_AddRow :: "Element \<Rightarrow> string list \<Rightarrow> Element" where
  "Table_AddRow (Element (TableElement heads data) n a t cs) row = Element (TableElement heads (data @ [row])) n a t cs"
| "Table_AddRow e row = e"

section \<open>Documents\<close>

record Document =
  doc_title :: string
  doc_body :: Element

definition Document_new :: "string \<Rightarrow> Document" where
  "Document_new title = \<lparr>doc_title = title, doc_body = Element_new ''body''\<rparr>"

definition set_tittle :: "Document \<Rightarrow> string \<Rightarrow> Document" where
  "set_tittle d s = d\<lparr>doc_title := s\<rparr>"

definition style_text :: string where
  "style_text = ''<style>'' @ nl @ ''table, th, td {'' @ nl @ ''  border: 1px solid black;'' @ nl @
     ''  border-collapse: collapse;'' @ nl @ ''}'' @ nl @ ''</style>'' @ nl"

definition Document_Dump :: "Document \<Rightarrow> string" where
  "Document_Dump d =
     ''<!DOCTYPE html>'' @ nl @ ''<html>'' @ nl @ ''<head>'' @ nl @ ''<meta charset='' @ quot @ ''UTF-8'' @ quot @ ''>'' @ nl @
     style_text @ ''<title>'' @ doc_title d @ ''</title>'' @ nl @ ''</head>'' @ nl @ Dump (doc_body d) 0 @ ''</html>'' @ nl"

section \<open>The text determines the tree\<close>

text \<open>
  Elements of the base class whose strings contain none of the characters that delimit them. An element
  with children does not print its text.
\<close>

definition plain_word :: "string \<Rightarrow> bool" where
  "plain_word w \<longleftrightarrow> list_all (\<lambda>c. c \<notin> set (''< >='' @ quot @ nl)) w"

definition plain_attr :: "string \<times> string \<Rightarrow> bool" where
  "plain_attr a \<longleftrightarrow> plain_word (fst a) \<and> CHR 0x22 \<notin> set (snd a)"

fun plain_elem :: "Element \<Rightarrow> bool" where
  "plain_elem (Element kind name attr cont children) \<longleftrightarrow>
     kind = PlainElement \<and> plain_word name \<and> list_all plain_attr attr \<and>
     list_all (\<lambda>c. c \<notin> set (''<'' @ nl)) cont \<and> (children \<noteq> [] \<longrightarrow> cont = []) \<and> list_all plain_elem children"

text \<open>Two texts that agree up to the first character that does not satisfy \<open>P\<close>.\<close>

lemma split_unique:
  assumes "a @ c # x = a' @ c' # x'" "list_all P a" "list_all P a'" "\<not> P c" "\<not> P c'"
  shows "a = a' \<and> c = c' \<and> x = x'"
  using assms
proof (induction a arbitrary: a')
  case Nil
  then show ?case by (cases a') auto
next
  case (Cons b a)
  then show ?case by (cases a') auto
qed

lemma plain_word_split:
  assumes "a @ c # x = a' @ c' # x'" "plain_word a" "plain_word a'" "c \<in> set (''< >='' @ quot @ nl)" "c' \<in> set (''< >='' @ quot @ nl)"
  shows "a = a' \<and> c = c' \<and> x = x'"
  using split_unique [OF assms(1), of "\<lambda>c. c \<notin> set (''< >='' @ quot @ nl)"] assms(2-5) by (simp add: plain_word_def)

lemma attrs_unique:
  "concat (map dump_attr ats) @ CHR ''>'' # x = concat (map dump_attr ats') @ CHR ''>'' # x' \<Longrightarrow>
   list_all plain_attr ats \<Longrightarrow> list_all plain_attr ats' \<Longrightarrow> ats = ats' \<and> x = x'"
proof (induction ats arbitrary: ats')
  case Nil
  then show ?case by (cases ats') (auto simp: dump_attr_def)
next
  case (Cons a ats)
  then obtain a' bs where ats': "ats' = a' # bs" by (cases ats') (auto simp: dump_attr_def)
  have p: "plain_word (fst a)" "plain_word (fst a')" "CHR 0x22 \<notin> set (snd a)" "CHR 0x22 \<notin> set (snd a')"
    using Cons.prems(2,3) ats' by (auto simp: plain_attr_def)
  have "fst a @ CHR ''='' # CHR 0x22 # snd a @ CHR 0x22 # concat (map dump_attr ats) @ CHR ''>'' # x =
      fst a' @ CHR ''='' # CHR 0x22 # snd a' @ CHR 0x22 # concat (map dump_attr bs) @ CHR ''>'' # x'"
    using Cons.prems(1) ats' by (simp add: dump_attr_def [of a] dump_attr_def [of a'] quot_def)
  from plain_word_split [OF this p(1,2)]
  have f: "fst a = fst a'" "snd a @ CHR 0x22 # concat (map dump_attr ats) @ CHR ''>'' # x =
      snd a' @ CHR 0x22 # concat (map dump_attr bs) @ CHR ''>'' # x'" by auto
  from split_unique [OF f(2), of "\<lambda>c. c \<noteq> CHR 0x22"] p(3,4)
  have "snd a = snd a'" "concat (map dump_attr ats) @ CHR ''>'' # x = concat (map dump_attr bs) @ CHR ''>'' # x'"
    by (auto simp: list_all_iff)
  then show ?case using Cons.IH [of bs] Cons.prems(2,3) ats' f(1) by (auto simp: prod_eq_iff)
qed

lemma open_tag_unique:
  assumes "name @ concat (map dump_attr ats) @ CHR ''>'' # x = name' @ concat (map dump_attr ats') @ CHR ''>'' # x'"
    and "plain_word name" "plain_word name'" "list_all plain_attr ats" "list_all plain_attr ats'"
  shows "name = name' \<and> ats = ats' \<and> x = x'"
proof -
  have hd: "\<exists>c y. concat (map dump_attr ats) @ CHR ''>'' # x = c # y \<and> c \<in> set (''< >='' @ quot @ nl)" for ats x
    by (cases ats) (auto simp: dump_attr_def)
  obtain c y c' y' where c: "concat (map dump_attr ats) @ CHR ''>'' # x = c # y" "c \<in> set (''< >='' @ quot @ nl)"
    "concat (map dump_attr ats') @ CHR ''>'' # x' = c' # y'" "c' \<in> set (''< >='' @ quot @ nl)"
    using hd by metis
  have "name = name' \<and> c # y = c' # y'"
    using plain_word_split [OF _ assms(2,3) c(2,4), of y y'] assms(1) c(1,3) by simp
  then show ?thesis using attrs_unique [of ats x ats' x'] assms(4,5) c(1,3) by simp
qed

text \<open>What follows an element at depth \<open>d\<close> does not start with \<open>d + 1\<close> tabs.\<close>

definition low :: "nat \<Rightarrow> string \<Rightarrow> bool" where
  "low d r \<longleftrightarrow> \<not> prefix (tabs (Suc d)) r"

lemma tabs_Suc: "tabs (Suc d) = tabs d @ [tab]"
  by (simp add: tabs_def replicate_append_same)

lemma low_tabs: "c \<noteq> tab \<Longrightarrow> d' \<le> d \<Longrightarrow> low d (tabs d' @ c # r)"
proof (induction d arbitrary: d')
  case (Suc d)
  then show ?case by (cases d') (auto simp: low_def tabs_def)
qed (simp add: low_def tabs_def)

lemma low_Nil: "low d []"
  by (simp add: low_def tabs_def)

lemma Dump_starts: "plain_elem e \<Longrightarrow> \<exists>r. Dump e d = tabs d @ CHR ''<'' # r"
  by (cases e) simp

lemma siblings_low:
  assumes "list_all plain_elem cs"
  shows "low (Suc d) (concat (map (\<lambda>i. Dump i (Suc d)) cs) @ tabs d @ CHR ''<'' # r)"
proof (cases cs)
  case Nil
  then show ?thesis by (simp add: low_tabs)
next
  case (Cons c cs')
  then obtain q where "Dump c (Suc d) = tabs (Suc d) @ CHR ''<'' # q" using assms Dump_starts by fastforce
  then show ?thesis using Cons low_tabs [of "CHR ''<''" "Suc d" "Suc d"] by simp
qed

lemma children_unique:
  assumes "\<And>c c' d r r'. c \<in> set cs \<Longrightarrow> plain_elem c \<Longrightarrow> plain_elem c' \<Longrightarrow> low d r \<Longrightarrow> low d r' \<Longrightarrow>
      Dump c d @ r = Dump c' d @ r' \<Longrightarrow> c = c' \<and> r = r'"
    and "list_all plain_elem cs" "list_all plain_elem cs'"
    and "concat (map (\<lambda>i. Dump i (Suc d)) cs) @ tabs d @ CHR ''<'' # r = concat (map (\<lambda>i. Dump i (Suc d)) cs') @ tabs d @ CHR ''<'' # r'"
  shows "cs = cs' \<and> r = r'"
  using assms
proof (induction cs arbitrary: cs')
  case Nil
  show ?case
  proof (cases cs')
    case (Cons c cs'')
    then obtain q where "Dump c (Suc d) = tabs (Suc d) @ CHR ''<'' # q" using Nil(3) Dump_starts by fastforce
    then show ?thesis using Nil(4) Cons by (simp add: tabs_Suc)
  qed (use Nil in simp)
next
  case (Cons c cs)
  show ?case
  proof (cases cs')
    case Nil
    obtain q where "Dump c (Suc d) = tabs (Suc d) @ CHR ''<'' # q" using Cons.prems(2) Dump_starts by fastforce
    then show ?thesis using Cons.prems(4) Nil by (simp add: tabs_Suc)
  next
    case (Cons c' cs'')
    let ?rest = "\<lambda>cs r. concat (map (\<lambda>i. Dump i (Suc d)) cs) @ tabs d @ CHR ''<'' # r"
    have p: "plain_elem c" "plain_elem c'" "list_all plain_elem cs" "list_all plain_elem cs''"
      using Cons.prems(2,3) Cons by auto
    have "c = c' \<and> ?rest cs r = ?rest cs'' r'"
      using Cons.prems(1) [of c c' "Suc d" "?rest cs r" "?rest cs'' r'"] Cons.prems(4) Cons p siblings_low by simp
    moreover have "cs = cs'' \<and> r = r'"
      using Cons.IH [of cs''] Cons.prems(1) p calculation by (meson list.set_intros(2))
    ultimately show ?thesis using Cons by simp
  qed
qed

definition tail_text :: "string \<Rightarrow> string \<Rightarrow> Element list \<Rightarrow> nat \<Rightarrow> string" where
  "tail_text name cont cs d =
     (if cs \<noteq> [] then nl @ concat (map (\<lambda>i. Dump i (Suc d)) cs) @ tabs d @ ''</'' @ name @ ''>'' @ nl
      else if cont \<noteq> [] then cont @ ''</'' @ name @ ''>'' @ nl else nl)"

lemma Dump_plain:
  "Dump (Element PlainElement name ats cont cs) d @ r =
     tabs d @ CHR ''<'' # name @ concat (map dump_attr ats) @ CHR ''>'' # tail_text name cont cs d @ r"
  by (simp add: tail_text_def)

text \<open>The three forms of what follows the opening tag exclude each other.\<close>

lemma tail_forms:
  assumes "tail_text name cont cs d @ r = tail_text name cont' cs' d @ r'" "low d r" "low d r'"
    and "list_all (\<lambda>c. c \<notin> set (''<'' @ nl)) cont" "list_all (\<lambda>c. c \<notin> set (''<'' @ nl)) cont'"
    and "cs \<noteq> [] \<longrightarrow> cont = []" "cs' \<noteq> [] \<longrightarrow> cont' = []" "list_all plain_elem cs" "list_all plain_elem cs'"
  shows "cont = cont' \<and> (cs = [] \<longleftrightarrow> cs' = []) \<and> (cs = [] \<longrightarrow> r = r')"
proof -
  have ch: "\<exists>q. tail_text name t bs d @ s = CHR 0x0A # tabs (Suc d) @ q" if h: "bs \<noteq> []" "list_all plain_elem bs" for t bs s
  proof -
    obtain b bs' where "bs = b # bs'" "plain_elem b" using h by (cases bs) auto
    then show ?thesis using Dump_starts [of b "Suc d"] by (auto simp: tail_text_def nl_def)
  qed
  have tx: "\<exists>c q. tail_text name t [] d @ s = c # q \<and> c \<noteq> CHR 0x0A" if "t \<noteq> []" "list_all (\<lambda>c. c \<notin> set (''<'' @ nl)) t" for t s
    using that by (cases t) (auto simp: tail_text_def nl_def)
  have no: "tail_text name [] [] d @ s = CHR 0x0A # s" for s by (simp add: tail_text_def nl_def)
  have low: "\<not> (\<exists>q. r = tabs (Suc d) @ q)" "\<not> (\<exists>q. r' = tabs (Suc d) @ q)" using assms(2,3) by (auto simp: low_def)
  consider "cs \<noteq> []" | "cs = []" "cont \<noteq> []" | "cs = []" "cont = []" by blast
  then show ?thesis
  proof cases
    case 1
    then have "cs' \<noteq> []" using ch [of cs cont r] tx [of cont' r'] no [of r'] low(2) assms(1,5,8) by (metis list.inject)
    then show ?thesis using 1 assms(6,7) by simp
  next
    case 2
    then have "cs' = []" "cont' \<noteq> []" using ch [of cs' cont' r'] tx [of cont r] no [of r'] assms(1,4,9) by (metis list.inject)+
    moreover have "cont @ CHR ''<'' # ''/'' @ name @ ''>'' @ nl @ r = cont' @ CHR ''<'' # ''/'' @ name @ ''>'' @ nl @ r'"
      using assms(1) 2 calculation by (simp add: tail_text_def)
    from split_unique [OF this, of "\<lambda>c. c \<notin> set (''<'' @ nl)"] have "cont = cont' \<and> r = r'" using assms(4,5) by simp
    ultimately show ?thesis using 2 by simp
  next
    case 3
    then have "cs' = []" "cont' = []" using ch [of cs' cont' r'] tx [of cont' r'] no [of r] low(1) assms(1,5,9) by (metis list.inject)+
    then show ?thesis using 3 assms(1) by (simp add: no)
  qed
qed

lemma Dump_unique:
  "plain_elem e \<Longrightarrow> plain_elem e' \<Longrightarrow> low d r \<Longrightarrow> low d r' \<Longrightarrow> Dump e d @ r = Dump e' d @ r' \<Longrightarrow> e = e' \<and> r = r'"
proof (induction e arbitrary: e' d r r')
  case (Element k name ats cont cs)
  obtain k' name' ats' cont' cs' where e': "e' = Element k' name' ats' cont' cs'" by (cases e')
  have k: "k = PlainElement" "k' = PlainElement" using Element.prems(1,2) e' by auto
  have tag: "name @ concat (map dump_attr ats) @ CHR ''>'' # tail_text name cont cs d @ r =
      name' @ concat (map dump_attr ats') @ CHR ''>'' # tail_text name' cont' cs' d @ r'"
    using Element.prems(5) unfolding e' k Dump_plain by simp
  have t: "name = name'" "ats = ats'" "tail_text name cont cs d @ r = tail_text name cont' cs' d @ r'"
    using open_tag_unique [OF tag] Element.prems(1,2) e' by auto
  have f: "cont = cont'" "cs = [] \<longleftrightarrow> cs' = []" "cs = [] \<longrightarrow> r = r'"
    using tail_forms [OF t(3) Element.prems(3,4)] Element.prems(1,2) e' by auto
  have "cs = cs' \<and> r = r'"
  proof (cases "cs = []")
    case False
    have "concat (map (\<lambda>i. Dump i (Suc d)) cs) @ tabs d @ CHR ''<'' # ''/'' @ name @ ''>'' @ nl @ r =
        concat (map (\<lambda>i. Dump i (Suc d)) cs') @ tabs d @ CHR ''<'' # ''/'' @ name @ ''>'' @ nl @ r'"
      using t(3) f(2) False by (simp add: tail_text_def)
    then show ?thesis
      using children_unique [of cs cs' d "''/'' @ name @ ''>'' @ nl @ r" "''/'' @ name @ ''>'' @ nl @ r'"] Element.IH
        Element.prems(1,2) e' by auto
  qed (use f in simp)
  then show ?case using e' k t f by simp
qed

text \<open>
  The printed text determines the document when it is built of plain elements only: no tables and
  inputs, no element with both a text and children, and no markup character in a text. (A table loses
  the cells of a row beyond its heads.)
\<close>

lemma Document_Dump_injective:
  assumes "plain_elem (doc_body d)" "plain_elem (doc_body d')" "CHR ''<'' \<notin> set (doc_title d)" "CHR ''<'' \<notin> set (doc_title d')"
  shows "Document_Dump d = Document_Dump d' \<longleftrightarrow> d = d'"
proof
  assume eq: "Document_Dump d = Document_Dump d'"
  let ?tail = "\<lambda>d. ''/title>'' @ nl @ ''</head>'' @ nl @ Dump (doc_body d) 0 @ ''</html>'' @ nl"
  have "doc_title d @ CHR ''<'' # ?tail d = doc_title d' @ CHR ''<'' # ?tail d'"
    using eq by (simp add: Document_Dump_def)
  from split_unique [OF this, of "\<lambda>c. c \<noteq> CHR ''<''"]
  have t: "doc_title d = doc_title d'" "Dump (doc_body d) 0 @ ''</html>'' @ nl = Dump (doc_body d') 0 @ ''</html>'' @ nl"
    using assms(3,4) by (auto simp: list_all_iff)
  moreover have "low 0 (''</html>'' @ nl)" by (simp add: low_def tabs_def)
  ultimately have "doc_body d = doc_body d'" using Dump_unique [OF assms(1,2)] by blast
  then show "d = d'" using t(1) by simp
qed simp

text \<open>Texts are not escaped: markup in a text becomes markup of the document.\<close>

lemma markup_is_not_escaped:
  "Dump (Element_text ''p'' ''<b>x</b>'') 0 = ''<p><b>x</b></p>'' @ nl"
  by (simp add: Element_text_def tabs_def)

end
