(* ===== verification/Todo.thy ===== *)
theory Todo
  imports Fs Json_Roundtrip Timestamp Html Http_Server Bus_Msg Net2_Addr
begin

text \<open>
  The to-do program: \<^verbatim>\<open>examples/todo/core.h\<close>, \<^verbatim>\<open>core.cc\<close>, the web server \<^verbatim>\<open>server.cc\<close> with \<^verbatim>\<open>ui.h\<close> and the
  command line \<^verbatim>\<open>todo.cc\<close>. It puts the file functions, the JSON library, time stamps, HTML documents and
  the HTTP handlers to use. Times are parameters: \<open>now n\<close> is the result of the \<open>n\<close>-th call of
  \<open>Timestamp::Now\<close>.
\<close>

section \<open>Items and repositories\<close>

record Item =
  it_id :: int
  it_text :: string
  it_update_at :: Timestamp

text \<open>
  The interface \<open>Repository\<close>. Loading gives the status, the list and what it stores through \<open>id_max\<close>;
  saving gives the status and the new state of the world.
\<close>

record 'w Repository =
  repo_load :: "(nat \<Rightarrow> Timestamp) \<Rightarrow> 'w \<Rightarrow> (Status \<times> Item list \<times> int option) res"
  repo_save :: "Timestamp \<Rightarrow> Item list \<Rightarrow> 'w \<Rightarrow> (Status \<times> 'w) res"

section \<open>Data\<close>

record Data =
  d_next_id :: int
  d_items :: "Item list"

definition Data_new :: Data where
  "Data_new = \<lparr>d_next_id = 0, d_items = []\<rparr>"

text \<open>\<open>std::atomic_int\<close> wraps around; \<open>int\<close> does not.\<close>

definition wrap32 :: "int \<Rightarrow> int" where
  "wrap32 i = (i + 2 ^ 31) mod 2 ^ 32 - 2 ^ 31"

definition Data_set_repository :: "(nat \<Rightarrow> Timestamp) \<Rightarrow> 'w Repository option \<Rightarrow> Data \<Rightarrow> 'w \<Rightarrow> Data res" where
  "Data_set_repository now repository d w =
     (case repository of
        None \<Rightarrow> Inr d
      | Some r \<Rightarrow>
          bindr (repo_load r now w) (\<lambda>(st, items, stored).
          let id_max = (case stored of Some m \<Rightarrow> m | None \<Rightarrow> 0) in
          bindr (int_chk (id_max + 1)) (\<lambda>n. Inr \<lparr>d_next_id = n, d_items = items\<rparr>)))"

definition GetNextID :: "Data \<Rightarrow> int \<times> Data" where
  "GetNextID d =
     (let ident = d_next_id d; d = d\<lparr>d_next_id := wrap32 (ident + 1)\<rparr> in
      if ident \<le> 0 then (d_next_id d, d\<lparr>d_next_id := wrap32 (d_next_id d + 1)\<rparr>) else (ident, d))"

definition Data_Add :: "(nat \<Rightarrow> Timestamp) \<Rightarrow> 'w Repository option \<Rightarrow> Data \<Rightarrow> string \<Rightarrow> 'w
    \<Rightarrow> (Status \<times> int option \<times> Data \<times> 'w) res" where
  "Data_Add now repository d content w =
     (if content = [] then bindr (InvalidArgumentError (sv_of_string ''empty item'')) (\<lambda>st. Inr (st, None, d, w))
      else
        let (new_id, d) = GetNextID d;
            item = \<lparr>it_id = new_id, it_text = content, it_update_at = now 0\<rparr>;
            d = d\<lparr>d_items := d_items d @ [item]\<rparr> in
        case repository of
          None \<Rightarrow> Inr (OkStatus, Some new_id, d, w)
        | Some r \<Rightarrow>
            bindr (repo_save r (now 1) (d_items d) w) (\<lambda>(st, w).
            if \<not> st_ok st then Inr (st, None, d, w) else Inr (OkStatus, Some new_id, d, w)))"

fun erase_item :: "int \<Rightarrow> Item list \<Rightarrow> Item list option" where
  "erase_item ident [] = None"
| "erase_item ident (i # items) =
     (if it_id i = ident then Some items else map_option (\<lambda>r. i # r) (erase_item ident items))"

text \<open>The result of saving is not looked at.\<close>

definition Data_Delete :: "(nat \<Rightarrow> Timestamp) \<Rightarrow> 'w Repository option \<Rightarrow> Data \<Rightarrow> int \<Rightarrow> 'w \<Rightarrow> (Status \<times> Data \<times> 'w) res" where
  "Data_Delete now repository d ident w =
     (case erase_item ident (d_items d) of
        Some items \<Rightarrow>
          (let d = d\<lparr>d_items := items\<rparr> in
           case repository of
             None \<Rightarrow> Inr (OkStatus, d, w)
           | Some r \<Rightarrow> bindr (repo_save r (now 0) (d_items d) w) (\<lambda>(_, w). Inr (OkStatus, d, w)))
      | None \<Rightarrow> bindr (NotFoundError (sv_of_string ''not found'')) (\<lambda>st. Inr (st, d, w)))"

definition Data_Find :: "Data \<Rightarrow> int \<Rightarrow> Item option" where
  "Data_Find d ident = find (\<lambda>i. it_id i = ident) (d_items d)"

text \<open>The item is shared with the list: the first item with the id is changed there.\<close>

fun set_text :: "int \<Rightarrow> string \<Rightarrow> Item list \<Rightarrow> Item list" where
  "set_text ident content [] = []"
| "set_text ident content (i # items) =
     (if it_id i = ident then i\<lparr>it_text := content\<rparr> # items else i # set_text ident content items)"

definition Data_Update :: "(nat \<Rightarrow> Timestamp) \<Rightarrow> 'w Repository option \<Rightarrow> Data \<Rightarrow> int \<Rightarrow> string \<Rightarrow> 'w
    \<Rightarrow> (Status \<times> Data \<times> 'w) res" where
  "Data_Update now repository d ident content w =
     (if content = [] then bindr (InvalidArgumentError (sv_of_string ''empty item'')) (\<lambda>st. Inr (st, d, w))
      else
        case Data_Find d ident of
          Some item \<Rightarrow>
            (let d = d\<lparr>d_items := set_text ident content (d_items d)\<rparr> in
             case repository of
               None \<Rightarrow> Inr (OkStatus, d, w)
             | Some r \<Rightarrow> bindr (repo_save r (now 0) (d_items d) w) (\<lambda>(_, w). Inr (OkStatus, d, w)))
        | None \<Rightarrow> bindr (NotFoundError (sv_of_string ''not found'')) (\<lambda>st. Inr (st, d, w)))"

definition Data_Show :: "Data \<Rightarrow> int \<Rightarrow> Item option" where
  "Data_Show d ident = find (\<lambda>i. it_id i = ident) (d_items d)"

section \<open>FileRepository\<close>

fun load_items :: "(nat \<Rightarrow> Timestamp) \<Rightarrow> nat \<Rightarrow> json list \<Rightarrow> Item list \<Rightarrow> int \<Rightarrow> (Item list \<times> int) res" where
  "load_items now n [] items mx = Inr (items, mx)"
| "load_items now n (j_item # js) items mx =
     bindr (bindr (json_at j_item ''id'') json_i32) (\<lambda>ident.
     bindr (bindr (json_at j_item ''text'') json_str) (\<lambda>t.
     let p = \<lparr>it_id = ident, it_text = t, it_update_at = now n\<rparr> in
     load_items now (Suc n) js (items @ [p]) (if mx < it_id p then it_id p else mx)))"

definition FileRepo_Load :: "'w sys \<Rightarrow> string \<Rightarrow> (nat \<Rightarrow> Timestamp) \<Rightarrow> 'w \<Rightarrow> (Status \<times> Item list \<times> int option) res" where
  "FileRepo_Load os filename now w =
     (case sys_ifstream os (c_str filename) w of
        None \<Rightarrow> bindr (InvalidArgumentError (sv_of_string ''file not found'')) (\<lambda>st. Inr (st, [], None))
      | Some f \<Rightarrow>
          bindr (json_parse f) (\<lambda>j.
          case j of
            JObject _ \<Rightarrow>
              bindr (json_at j ''items'') (\<lambda>j_items.
              case j_items of
                JArray js \<Rightarrow> bindr (load_items now 0 js [] 0) (\<lambda>(items, mx). Inr (OkStatus, items, Some mx))
              | _ \<Rightarrow> Inr (OkStatus, [], Some 0))
          | _ \<Rightarrow> Inr (OkStatus, [], Some 0)))"

fun save_items :: "Item list \<Rightarrow> json \<Rightarrow> json res" where
  "save_items [] j_items = Inr j_items"
| "save_items (i # items) j_items =
     bindr (json_put JNull ''id'' (JInt (it_id i))) (\<lambda>j.
     bindr (json_put j ''text'' (JString (it_text i))) (\<lambda>j.
     bindr (json_put j ''update_at'' (JString (ToFormattedString (it_update_at i) True))) (\<lambda>j.
     bindr (json_push_back j_items j) (\<lambda>j_items. save_items items j_items))))"

text \<open>The status of \<open>WriteFile\<close> is dropped.\<close>

definition FileRepo_Save :: "'w sys \<Rightarrow> string \<Rightarrow> Timestamp \<Rightarrow> Item list \<Rightarrow> 'w \<Rightarrow> (Status \<times> 'w) res" where
  "FileRepo_Save os filename now items w =
     bindr (save_items items JNull) (\<lambda>j_items.
     bindr (json_put JNull ''create'' (JString (ToFormattedString now True))) (\<lambda>root.
     bindr (json_put root ''items'' j_items) (\<lambda>root.
     bindr (json_dump 2 (CHR '' '') False strict root) (\<lambda>s.
     bindr (WriteFile os filename s w) (\<lambda>(_, w). Inr (OkStatus, w))))))"

definition CreateFileRepository :: "'w sys \<Rightarrow> string \<Rightarrow> 'w Repository" where
  "CreateFileRepository os filename = \<lparr>repo_load = FileRepo_Load os filename, repo_save = FileRepo_Save os filename\<rparr>"

section \<open>Commands\<close>

definition todo_file :: string where
  "todo_file = ''/tmp/todo-data.json''"

text \<open>Every command opens the repository anew. \<open>later\<close> are the times after the load.\<close>

definition do_add :: "'w Repository \<Rightarrow> (nat \<Rightarrow> Timestamp) \<Rightarrow> (nat \<Rightarrow> Timestamp) \<Rightarrow> string \<Rightarrow> 'w \<Rightarrow> (Status \<times> int option \<times> 'w) res" where
  "do_add repo now later content w =
     bindr (Data_set_repository now (Some repo) Data_new w) (\<lambda>data.
     bindr (Data_Add later (Some repo) data content w) (\<lambda>(st, ident, data, w). Inr (st, ident, w)))"

definition do_delete :: "'w Repository \<Rightarrow> (nat \<Rightarrow> Timestamp) \<Rightarrow> (nat \<Rightarrow> Timestamp) \<Rightarrow> int \<Rightarrow> 'w \<Rightarrow> (Status \<times> 'w) res" where
  "do_delete repo now later ident w =
     bindr (Data_set_repository now (Some repo) Data_new w) (\<lambda>data.
     bindr (Data_Delete later (Some repo) data ident w) (\<lambda>(st, data, w). Inr (st, w)))"

definition do_modify :: "'w Repository \<Rightarrow> (nat \<Rightarrow> Timestamp) \<Rightarrow> (nat \<Rightarrow> Timestamp) \<Rightarrow> int \<Rightarrow> string \<Rightarrow> 'w \<Rightarrow> (Status \<times> 'w) res" where
  "do_modify repo now later ident new_text w =
     bindr (Data_set_repository now (Some repo) Data_new w) (\<lambda>data.
     bindr (Data_Update later (Some repo) data ident new_text w) (\<lambda>(st, data, w). Inr (st, w)))"

definition list_line :: "Item \<Rightarrow> string" where
  "list_line item = ''<p>'' @ show_int (it_id item) @ [CHR 0x09] @ it_text item @ ''</p>''"

definition do_list :: "'w Repository \<Rightarrow> (nat \<Rightarrow> Timestamp) \<Rightarrow> 'w \<Rightarrow> string res" where
  "do_list repo now w =
     bindr (Data_set_repository now (Some repo) Data_new w) (\<lambda>data. Inr (concat (map list_line (d_items data))))"

text \<open>A command of the web form; the text of \<open>add\<close> starts at the blank.\<close>

definition DoCommand :: "'w Repository \<Rightarrow> (nat \<Rightarrow> Timestamp) \<Rightarrow> (nat \<Rightarrow> Timestamp) \<Rightarrow> string \<Rightarrow> 'w \<Rightarrow> 'w res" where
  "DoCommand repo now later cmdline w =
     (let sep = str_find_first_of cmdline '' '' 0 in
      if sep \<noteq> npos then
        bindr (str_substr cmdline 0 sep) (\<lambda>cmd.
        bindr (str_substr cmdline sep npos) (\<lambda>arg.
        if cmd = ''add'' then bindr (do_add repo now later (c_str arg) w) (\<lambda>(_, _, w). Inr w)
        else if cmd = ''del'' then bindr (stoi arg) (\<lambda>ident. bindr (do_delete repo now later ident w) (\<lambda>(_, w). Inr w))
        else Inr w))
      else Inr w)"

section \<open>The web page\<close>

definition label_text :: string where
  "label_text = [CHR 0xE8, CHR 0xAF, CHR 0xB7, CHR 0xE8, CHR 0xBE, CHR 0x93, CHR 0xE5, CHR 0x85, CHR 0xA5, CHR 0xE5,
     CHR 0x91, CHR 0xBD, CHR 0xE4, CHR 0xBB, CHR 0xA4, CHR 0xEF, CHR 0xBC, CHR 0x9A]"

definition button_text :: string where
  "button_text = [CHR 0xE6, CHR 0x89, CHR 0xA7, CHR 0xE8, CHR 0xA1, CHR 0x8C]"

record HtmlUi =
  ui_doc :: Document
  ui_cmd :: string

definition body_add :: "HtmlUi \<Rightarrow> Element \<Rightarrow> HtmlUi" where
  "body_add ui e = ui\<lparr>ui_doc := (ui_doc ui)\<lparr>doc_body := AddChild (doc_body (ui_doc ui)) e\<rparr>\<rparr>"

definition AddCommandBox :: "HtmlUi \<Rightarrow> HtmlUi" where
  "AddCommandBox ui =
     (let form = AddChild (AddChild (Form_new ''/todo'') (Input_new ''cmd'' label_text '''')) (SubmitButton_new button_text);
          ui = body_add ui form in
      body_add ui (Element_new ''hr''))"

definition HtmlUi_new :: HtmlUi where
  "HtmlUi_new = AddCommandBox \<lparr>ui_doc = Document_new ''My TODO'', ui_cmd = ''''\<rparr>"

definition set_cmd :: "HtmlUi \<Rightarrow> string \<Rightarrow> HtmlUi" where
  "set_cmd ui cmd = ui\<lparr>ui_cmd := cmd\<rparr>"

text \<open>\<open>listing\<close> is the result of \<open>do_list\<close>.\<close>

definition HtmlUi_doc :: "HtmlUi \<Rightarrow> string \<Rightarrow> Document" where
  "HtmlUi_doc ui listing =
     (let ui = (if ui_cmd ui \<noteq> [] then body_add ui (Element_text ''p'' (''CMD: '' @ ui_cmd ui)) else ui);
          ui = body_add ui (Element_text ''p'' ''LIST:'');
          ui = body_add ui (Element_text ''p'' listing) in
      ui_doc ui)"

text \<open>The handler of \<^verbatim>\<open>/todo\<close>.\<close>

definition todo_handler :: "'w Repository \<Rightarrow> (nat \<Rightarrow> Timestamp) \<Rightarrow> (nat \<Rightarrow> Timestamp) \<Rightarrow> (nat \<Rightarrow> Timestamp)
    \<Rightarrow> 'w \<Rightarrow> Request \<Rightarrow> Response \<Rightarrow> (Response \<times> 'w) res" where
  "todo_handler repo now later listed w req resp =
     (let ui = HtmlUi_new; cmd = Request_Param req (Some ''cmd'') in
      bindr (if cmd \<noteq> [] then DoCommand repo now later cmd w else Inr w) (\<lambda>w.
      let ui = (if cmd \<noteq> [] then set_cmd ui cmd else ui) in
      bindr (do_list repo listed w) (\<lambda>listing.
      Inr (WriteHtml resp hs_ok (Document_Dump (HtmlUi_doc ui listing)), w))))"

section \<open>The command line\<close>

text \<open>
  \<open>main\<close> of \<^verbatim>\<open>todo.cc\<close>: the lines it prints (a status by its text \<open>st_text\<close>), its exit code and the new
  world. Behind the last argument \<open>argv\<close> holds a null pointer.
\<close>

definition todo_atoi :: "string option \<Rightarrow> int res" where
  "todo_atoi arg = (case arg of None \<Rightarrow> Inl UndefinedBehaviour | Some a \<Rightarrow> c_atoi a)"

definition item_line :: "Item \<Rightarrow> string" where
  "item_line item = show_int (it_id item) @ [CHR 0x09] @ it_text item"

definition print_add :: "(Status \<Rightarrow> string) \<Rightarrow> 'w Repository \<Rightarrow> (nat \<Rightarrow> Timestamp) \<Rightarrow> (nat \<Rightarrow> Timestamp) \<Rightarrow> string \<Rightarrow> 'w
    \<Rightarrow> (string list \<times> 'w) res" where
  "print_add st_text repo now later content w =
     bindr (do_add repo now later content w) (\<lambda>(st, ident, w).
     Inr ((if st_ok st then [''Add Done:'', show_int (case ident of Some i \<Rightarrow> i | None \<Rightarrow> 0) @ [CHR 0x09] @ content] else []) @
       [st_text st], w))"

definition print_list :: "'w Repository \<Rightarrow> (nat \<Rightarrow> Timestamp) \<Rightarrow> 'w \<Rightarrow> string list res" where
  "print_list repo now w =
     bindr (Data_set_repository now (Some repo) Data_new w) (\<lambda>data. Inr (map item_line (d_items data)))"

definition print_show :: "'w Repository \<Rightarrow> (nat \<Rightarrow> Timestamp) \<Rightarrow> int \<Rightarrow> 'w \<Rightarrow> string list res" where
  "print_show repo now ident w =
     bindr (Data_set_repository now (Some repo) Data_new w) (\<lambda>data.
     Inr (case Data_Show data ident of Some item \<Rightarrow> [item_line item] | None \<Rightarrow> [''Not found'']))"

definition print_modify :: "(Status \<Rightarrow> string) \<Rightarrow> 'w Repository \<Rightarrow> (nat \<Rightarrow> Timestamp) \<Rightarrow> (nat \<Rightarrow> Timestamp) \<Rightarrow> int \<Rightarrow> string
    \<Rightarrow> 'w \<Rightarrow> (string list \<times> 'w) res" where
  "print_modify st_text repo now later ident new_text w =
     bindr (do_modify repo now later ident new_text w) (\<lambda>(st, w).
     Inr ((if st_ok st then [''Update Done:'', show_int ident @ [CHR 0x09] @ new_text] else []) @ [st_text st], w))"

definition nth_arg :: "string list \<Rightarrow> nat \<Rightarrow> string option" where
  "nth_arg argv n = (if n < length argv then Some (argv ! n) else None)"

definition todo_main :: "(Status \<Rightarrow> string) \<Rightarrow> 'w Repository \<Rightarrow> (nat \<Rightarrow> Timestamp) \<Rightarrow> (nat \<Rightarrow> Timestamp) \<Rightarrow> string list \<Rightarrow> 'w
    \<Rightarrow> (int \<times> string list \<times> 'w) res" where
  "todo_main st_text repo now later argv w =
     (if length argv < 2 then Inr (- 1, [''invalid parameters!''], w)
      else
        let cmd = argv ! 1 in
        if cmd = ''add'' then
          bindr (print_add st_text repo now later (case nth_arg argv 2 of Some a \<Rightarrow> a | None \<Rightarrow> '''') w) (\<lambda>(out, w). Inr (0, out, w))
        else if cmd = ''list'' then bindr (print_list repo now w) (\<lambda>out. Inr (0, out, w))
        else if cmd = ''show'' then
          bindr (todo_atoi (nth_arg argv 2)) (\<lambda>ident. bindr (print_show repo now ident w) (\<lambda>out. Inr (0, out, w)))
        else if cmd = ''delete'' then
          bindr (todo_atoi (nth_arg argv 2)) (\<lambda>ident. bindr (do_delete repo now later ident w) (\<lambda>(st, w). Inr (0, [st_text st], w)))
        else if cmd = ''modify'' then
          (if length argv < 4 then Inr (- 1, [''invalid parameters!''], w)
           else
             bindr (todo_atoi (nth_arg argv 2)) (\<lambda>ident.
             bindr (print_modify st_text repo now later ident (argv ! 3) w) (\<lambda>(out, w). Inr (0, out, w))))
        else Inr (0, [], w))"

section \<open>What a repository promises\<close>

text \<open>
  The abstract content of a repository is the list of ids and texts. \<open>holds w xs\<close> says that the world
  \<open>w\<close> stores \<open>xs\<close>, \<open>storable now items w\<close> that writing \<open>items\<close> succeeds.
\<close>

definition item_pair :: "Item \<Rightarrow> int \<times> string" where
  "item_pair i = (it_id i, it_text i)"

fun max_from :: "int \<Rightarrow> (int \<times> string) list \<Rightarrow> int" where
  "max_from m [] = m"
| "max_from m (x # xs) = max_from (if m < fst x then fst x else m) xs"

abbreviation max_id :: "(int \<times> string) list \<Rightarrow> int" where
  "max_id xs \<equiv> max_from 0 xs"

definition todo_inv :: "(int \<times> string) list \<Rightarrow> bool" where
  "todo_inv xs \<longleftrightarrow> distinct (map fst xs) \<and> (\<forall>x\<in>set xs. 0 < fst x \<and> snd x \<noteq> [])"

datatype todo_cmd = CAdd string | CDel int | CMod int string

fun spec_cmd :: "todo_cmd \<Rightarrow> (int \<times> string) list \<Rightarrow> (int \<times> string) list" where
  "spec_cmd (CAdd t) xs = (if t = [] then xs else xs @ [(max_id xs + 1, t)])"
| "spec_cmd (CDel i) xs = filter (\<lambda>x. fst x \<noteq> i) xs"
| "spec_cmd (CMod i t) xs = (if t = [] then xs else map (\<lambda>x. if fst x = i then (i, t) else x) xs)"

fun run_cmd :: "'w Repository \<Rightarrow> (nat \<Rightarrow> Timestamp) \<Rightarrow> (nat \<Rightarrow> Timestamp) \<Rightarrow> todo_cmd \<Rightarrow> 'w \<Rightarrow> 'w res" where
  "run_cmd repo now later (CAdd t) w = bindr (do_add repo now later t w) (\<lambda>(_, _, w). Inr w)"
| "run_cmd repo now later (CDel i) w = bindr (do_delete repo now later i w) (\<lambda>(_, w). Inr w)"
| "run_cmd repo now later (CMod i t) w = bindr (do_modify repo now later i t w) (\<lambda>(_, w). Inr w)"

definition spec_listing :: "(int \<times> string) list \<Rightarrow> string" where
  "spec_listing xs = concat (map (\<lambda>x. ''<p>'' @ show_int (fst x) @ [CHR 0x09] @ snd x @ ''</p>'') xs)"

lemma max_from_ge: "m \<le> max_from m xs \<and> (\<forall>x\<in>set xs. fst x \<le> max_from m xs)"
proof (induction xs arbitrary: m)
  case (Cons x xs)
  show ?case
  proof (cases "m < fst x")
    case True
    then show ?thesis using Cons [of "fst x"] by auto
  next
    case False
    then show ?thesis using Cons [of m] by auto
  qed
qed simp

lemma max_from_le: "m \<le> k \<Longrightarrow> (\<forall>x\<in>set xs. fst x \<le> k) \<Longrightarrow> max_from m xs \<le> k"
  by (induction xs arbitrary: m) auto

lemma spec_cmd_max: "max_id (spec_cmd c xs) \<le> max_id xs + 1"
proof -
  have "0 \<le> max_id xs" "\<forall>x\<in>set xs. fst x \<le> max_id xs" using max_from_ge [of 0 xs] by auto
  then have "0 \<le> max_id xs + 1" "\<forall>x\<in>set xs. fst x \<le> max_id xs + 1" by fastforce+
  moreover have "\<forall>x\<in>set (spec_cmd c xs). x = (max_id xs + 1, snd x) \<or> fst x \<in> fst ` set xs" by (cases c) (auto intro: rev_image_eqI)
  ultimately show ?thesis by (intro max_from_le) force+
qed

lemma spec_cmd_inv: "todo_inv xs \<Longrightarrow> todo_inv (spec_cmd c xs)"
proof (cases c)
  case (CAdd t)
  assume "todo_inv xs"
  moreover have "max_id xs + 1 \<notin> fst ` set xs" "0 < max_id xs + 1" using max_from_ge [of 0 xs] by fastforce+
  ultimately show ?thesis using CAdd by (auto simp: todo_inv_def)
next
  case (CDel i)
  assume "todo_inv xs"
  then show ?thesis using CDel by (auto simp: todo_inv_def distinct_map_filter)
next
  case (CMod i t)
  assume a: "todo_inv xs"
  have "map fst (map (\<lambda>x. if fst x = i then (i, t) else x) xs) = map fst xs" by (induction xs) auto
  then show ?thesis using a CMod by (auto simp: todo_inv_def simp del: map_map)
qed

lemma distinct_id_head: "distinct (map it_id (j # items)) \<Longrightarrow> \<forall>k\<in>set items. it_id k \<noteq> it_id j"
  by (metis distinct.simps(2) image_eqI list.set_map list.simps(9))

lemma erase_item_pairs:
  "distinct (map it_id items) \<Longrightarrow>
    (case erase_item i items of
       Some r \<Rightarrow> map item_pair r = filter (\<lambda>x. fst x \<noteq> i) (map item_pair items) \<and> set r \<subseteq> set items
     | None \<Rightarrow> filter (\<lambda>x. fst x \<noteq> i) (map item_pair items) = map item_pair items)"
proof (induction items)
  case (Cons j items)
  show ?case
  proof (cases "it_id j = i")
    case True
    then have "filter (\<lambda>x. fst x \<noteq> i) (map item_pair items) = map item_pair items"
      using distinct_id_head [OF Cons.prems] by (auto simp: filter_id_conv item_pair_def)
    then show ?thesis using True by (auto simp: item_pair_def)
  next
    case False
    then show ?thesis using Cons by (auto simp: item_pair_def split: option.splits)
  qed
qed simp

lemma set_text_pairs:
  "distinct (map it_id items) \<Longrightarrow>
    map item_pair (set_text i t items) = map (\<lambda>x. if fst x = i then (i, t) else x) (map item_pair items)"
proof (induction items)
  case (Cons j items)
  show ?case
  proof (cases "it_id j = i")
    case True
    then show ?thesis using distinct_id_head [OF Cons.prems] by (simp add: item_pair_def)
  next
    case False
    then show ?thesis using Cons by (simp add: item_pair_def)
  qed
qed simp

lemma set_text_times: "it_update_at ` set (set_text i t items) = it_update_at ` set items"
  by (induction items) simp_all

lemma find_none_pairs:
  "find (\<lambda>i. it_id i = k) items = None \<Longrightarrow> map (\<lambda>x. if fst x = k then (k, t) else x) (map item_pair items) = map item_pair items"
  by (induction items) (auto simp: item_pair_def split: if_splits)

lemma GetNextID_pos: "0 < d_next_id d \<Longrightarrow> GetNextID d = (d_next_id d, d\<lparr>d_next_id := wrap32 (d_next_id d + 1)\<rparr>)"
  by (simp add: GetNextID_def Let_def)

locale repository =
  fixes load :: "(nat \<Rightarrow> Timestamp) \<Rightarrow> 'w \<Rightarrow> (Status \<times> Item list \<times> int option) res"
    and save :: "Timestamp \<Rightarrow> Item list \<Rightarrow> 'w \<Rightarrow> (Status \<times> 'w) res"
    and holds :: "'w \<Rightarrow> (int \<times> string) list \<Rightarrow> bool"
    and storable :: "Timestamp \<Rightarrow> Item list \<Rightarrow> 'w \<Rightarrow> bool"
  assumes load_holds: "holds w xs \<Longrightarrow> \<exists>st items stored. load now w = Inr (st, items, stored) \<and>
      (case stored of Some m \<Rightarrow> m | None \<Rightarrow> 0) = max_id xs \<and> map item_pair items = xs \<and> it_update_at ` set items \<subseteq> range now"
    and save_holds: "storable t items w \<Longrightarrow> \<exists>w'. save t items w = Inr (OkStatus, w') \<and> holds w' (map item_pair items)"
begin

abbreviation repo :: "'w Repository" where
  "repo \<equiv> \<lparr>repo_load = load, repo_save = save\<rparr>"

lemma open_data:
  assumes "holds w xs" "max_id xs + 1 < 2 ^ 31"
  shows "\<exists>items. Data_set_repository now (Some repo) Data_new w = Inr \<lparr>d_next_id = max_id xs + 1, d_items = items\<rparr> \<and>
    map item_pair items = xs \<and> it_update_at ` set items \<subseteq> range now"
proof -
  obtain st items stored where "load now w = Inr (st, items, stored)"
    "(case stored of Some m \<Rightarrow> m | None \<Rightarrow> 0) = max_id xs" "map item_pair items = xs" "it_update_at ` set items \<subseteq> range now"
    using load_holds [OF assms(1)] by blast
  then show ?thesis
    using assms(2) max_from_ge [of 0 xs] by (simp add: Data_set_repository_def int_chk_def)
qed

text \<open>A listing shows what the repository holds.\<close>

lemma list_law:
  assumes "holds w xs" "max_id xs + 1 < 2 ^ 31"
  shows "do_list repo now w = Inr (spec_listing xs)"
proof -
  obtain items where "Data_set_repository now (Some repo) Data_new w = Inr \<lparr>d_next_id = max_id xs + 1, d_items = items\<rparr>"
    "map item_pair items = xs"
    using open_data [OF assms] by blast
  then show ?thesis by (auto simp: do_list_def spec_listing_def list_line_def item_pair_def comp_def cong: map_cong)
qed

lemma add_law:
  assumes "holds w xs" "max_id xs + 1 < 2 ^ 31" "t \<noteq> []"
    and "\<And>k items. map item_pair items = spec_cmd (CAdd t) xs \<Longrightarrow> it_update_at ` set items \<subseteq> range now \<union> range later \<Longrightarrow>
      storable (later k) items w"
  shows "\<exists>w'. do_add repo now later t w = Inr (OkStatus, Some (max_id xs + 1), w') \<and> holds w' (spec_cmd (CAdd t) xs)"
proof -
  obtain items where d: "Data_set_repository now (Some repo) Data_new w = Inr \<lparr>d_next_id = max_id xs + 1, d_items = items\<rparr>"
    "map item_pair items = xs" "it_update_at ` set items \<subseteq> range now"
    using open_data [OF assms(1,2)] by blast
  let ?new = "items @ [\<lparr>it_id = max_id xs + 1, it_text = t, it_update_at = later 0\<rparr>]"
  have p: "map item_pair ?new = spec_cmd (CAdd t) xs" using d(2) assms(3) by (simp add: item_pair_def)
  have "it_update_at ` set ?new \<subseteq> range now \<union> range later" using d(3) by auto
  from assms(4) [OF p this, of 1] obtain w' where "save (later 1) ?new w = Inr (OkStatus, w')" "holds w' (spec_cmd (CAdd t) xs)"
    using save_holds p by metis
  then show ?thesis
    using d(1) assms(3) max_from_ge [of 0 xs] by (simp add: do_add_def Data_Add_def GetNextID_pos)
qed

lemma delete_law:
  assumes "holds w xs" "max_id xs + 1 < 2 ^ 31" "distinct (map fst xs)"
    and "\<And>k items. map item_pair items = spec_cmd (CDel i) xs \<Longrightarrow> it_update_at ` set items \<subseteq> range now \<union> range later \<Longrightarrow>
      storable (later k) items w"
  shows "\<exists>st w'. do_delete repo now later i w = Inr (st, w') \<and> holds w' (spec_cmd (CDel i) xs)"
proof -
  obtain items where d: "Data_set_repository now (Some repo) Data_new w = Inr \<lparr>d_next_id = max_id xs + 1, d_items = items\<rparr>"
    "map item_pair items = xs" "it_update_at ` set items \<subseteq> range now"
    using open_data [OF assms(1,2)] by blast
  have "distinct (map it_id items)" using assms(3) d(2) by (auto simp: item_pair_def comp_def)
  note e = erase_item_pairs [OF this, of i]
  show ?thesis
  proof (cases "erase_item i items")
    case None
    obtain st where "NotFoundError (sv_of_string ''not found'') = Inr st"
      using Status_new_cases [of kNotFound "''not found''"] by (auto simp: NotFoundError_def)
    then show ?thesis using None e d assms(1) by (simp add: do_delete_def Data_Delete_def)
  next
    case (Some r)
    have "map item_pair r = spec_cmd (CDel i) xs" and "set r \<subseteq> set items" using e Some d(2) by auto
    moreover from this(2) have "it_update_at ` set r \<subseteq> range now \<union> range later"
      using image_mono [of "set r" "set items" it_update_at] d(3) by blast
    ultimately obtain w' where "save (later 0) r w = Inr (OkStatus, w')" "holds w' (spec_cmd (CDel i) xs)"
      using save_holds assms(4) by metis
    then show ?thesis using Some d(1) by (simp add: do_delete_def Data_Delete_def Let_def)
  qed
qed

lemma modify_law:
  assumes "holds w xs" "max_id xs + 1 < 2 ^ 31" "distinct (map fst xs)" "t \<noteq> []"
    and "\<And>k items. map item_pair items = spec_cmd (CMod i t) xs \<Longrightarrow> it_update_at ` set items \<subseteq> range now \<union> range later \<Longrightarrow>
      storable (later k) items w"
  shows "\<exists>st w'. do_modify repo now later i t w = Inr (st, w') \<and> holds w' (spec_cmd (CMod i t) xs)"
proof -
  obtain items where d: "Data_set_repository now (Some repo) Data_new w = Inr \<lparr>d_next_id = max_id xs + 1, d_items = items\<rparr>"
    "map item_pair items = xs" "it_update_at ` set items \<subseteq> range now"
    using open_data [OF assms(1,2)] by blast
  have dist: "distinct (map it_id items)" using assms(3) d(2) by (auto simp: item_pair_def comp_def)
  show ?thesis
  proof (cases "find (\<lambda>j. it_id j = i) items")
    case None
    obtain st where "NotFoundError (sv_of_string ''not found'') = Inr st"
      using Status_new_cases [of kNotFound "''not found''"] by (auto simp: NotFoundError_def)
    then show ?thesis
      using None find_none_pairs [OF None, of t] d assms(1,4) by (simp add: do_modify_def Data_Update_def Data_Find_def)
  next
    case (Some j)
    have "map item_pair (set_text i t items) = spec_cmd (CMod i t) xs"
      "it_update_at ` set (set_text i t items) \<subseteq> range now \<union> range later"
      using set_text_pairs [OF dist] set_text_times d(2,3) assms(4) by auto
    then obtain w' where "save (later 0) (set_text i t items) w = Inr (OkStatus, w')" "holds w' (spec_cmd (CMod i t) xs)"
      using save_holds assms(5) by metis
    then show ?thesis using Some d(1) assms(4) by (simp add: do_modify_def Data_Update_def Data_Find_def Let_def)
  qed
qed

text \<open>One command is one step of the abstract list.\<close>

lemma command_law:
  assumes "holds w xs" "todo_inv xs" "max_id xs + 1 < 2 ^ 31"
    and "\<And>k items. map item_pair items = spec_cmd c xs \<Longrightarrow> it_update_at ` set items \<subseteq> range now \<union> range later \<Longrightarrow>
      storable (later k) items w"
  shows "\<exists>w'. run_cmd repo now later c w = Inr w' \<and> holds w' (spec_cmd c xs)"
proof -
  have dist: "distinct (map fst xs)" using assms(2) by (simp add: todo_inv_def)
  obtain st where empty: "InvalidArgumentError (sv_of_string ''empty item'') = Inr st"
    using Status_new_cases [of kInvalidArgument "''empty item''"] by (auto simp: InvalidArgumentError_def)
  obtain d where d: "Data_set_repository now (Some repo) Data_new w = Inr d" using open_data [OF assms(1,3)] by blast
  show ?thesis
  proof (cases c)
    case (CAdd t)
    show ?thesis
    proof (cases "t = []")
      case True
      then show ?thesis using CAdd d empty assms(1) by (simp add: do_add_def Data_Add_def)
    next
      case False
      then show ?thesis using add_law [OF assms(1,3) False, of now later] assms(4) CAdd by auto
    qed
  next
    case (CDel i)
    then show ?thesis using delete_law [OF assms(1,3) dist, of i now later] assms(4) by auto
  next
    case (CMod i t)
    show ?thesis
    proof (cases "t = []")
      case True
      then show ?thesis using CMod d empty assms(1) by (simp add: do_modify_def Data_Update_def)
    next
      case False
      then show ?thesis using modify_law [OF assms(1,3) dist False, of i now later] assms(4) CMod by auto
    qed
  qed
qed

end

section \<open>The file repository keeps the promise\<close>

definition item_fits :: "Item \<Rightarrow> bool" where
  "item_fits i \<longleftrightarrow> - (2 ^ 31) \<le> it_id i \<and> it_id i < 2 ^ 31 \<and> utf8 (it_text i)"

definition item_json :: "Item \<Rightarrow> json" where
  "item_json i = JObject [(''id'', JInt (it_id i)), (''text'', JString (it_text i)),
     (''update_at'', JString (ToFormattedString (it_update_at i) True))]"

definition root_json :: "Timestamp \<Rightarrow> Item list \<Rightarrow> json" where
  "root_json now items =
     JObject [(''create'', JString (ToFormattedString now True)),
       (''items'', if items = [] then JNull else JArray (map item_json items))]"

lemma save_items_array: "save_items items (JArray js) = Inr (JArray (js @ map item_json items))"
  by (induction items arbitrary: js) (simp_all add: item_json_def)

lemma save_items_json: "save_items items JNull = Inr (if items = [] then JNull else JArray (map item_json items))"
  by (cases items) (simp_all add: save_items_array item_json_def)

lemma FileRepo_Save_json: "FileRepo_Save os filename now items w =
    bindr (json_dump 2 (CHR '' '') False strict (root_json now items)) (\<lambda>s.
    bindr (WriteFile os filename s w) (\<lambda>(_, w). Inr (OkStatus, w)))"
  by (simp add: FileRepo_Save_def save_items_json root_json_def)

lemma ToFormattedString_utf8: "utf8 (ToFormattedString t us)"
proof -
  define P where "P s \<longleftrightarrow> (\<forall>c \<in> set s. (of_char c :: nat) < 0x80)" for s :: string
  have dig: "(of_char c :: nat) < 0x80" if "c_isdigit c" for c using that by (simp add: c_isdigit_def less_eq_char_def)
  have "P (show_nat n)" for n using show_nat_digits dig by (auto simp: P_def)
  then have pads: "P (pad0 w i)" "P (pad_blank w i)" for w i
    by (auto simp: P_def pad0_def pad_blank_def show_int_def Let_def)
  have app: "P (x @ y) \<longleftrightarrow> P x \<and> P y" "P (c # x) \<longleftrightarrow> (of_char c :: nat) < 0x80 \<and> P x" for x y c by (auto simp: P_def)
  have buf: "P (snprintf_buf n x)" if "P x" for x n using that by (auto simp: P_def snprintf_buf_def dest: in_set_takeD)
  have "P (ToFormattedString t us)" unfolding ToFormattedString_def Let_def by (simp add: buf app pads)
  then show ?thesis by (intro utf8_ascii) (simp add: P_def)
qed

lemma root_json_ok: "\<forall>i \<in> set items. item_fits i \<Longrightarrow> json_ok (root_json t items)"
  by (auto simp: root_json_def item_json_def item_fits_def map_ok_def ToFormattedString_utf8)

text \<open>The text of a list of items in the file.\<close>

lemma root_json_text:
  assumes "\<forall>i \<in> set items. item_fits i"
  obtains s where "json_dump 2 (CHR '' '') False strict (root_json t items) = Inr s"
    "json_parse s = Inr (json_norm (root_json t items))"
  using json_dump_parse [OF root_json_ok [OF assms, of t], of 2 "CHR '' ''" "[]" False strict] by (auto simp: ws_char_def)

definition file_holds :: "'w sys \<Rightarrow> string \<Rightarrow> 'w \<Rightarrow> (int \<times> string) list \<Rightarrow> bool" where
  "file_holds os filename w xs \<longleftrightarrow>
     (case sys_ifstream os (c_str filename) w of
        None \<Rightarrow> xs = []
      | Some s \<Rightarrow> \<exists>t items. json_parse s = Inr (json_norm (root_json t items)) \<and> (\<forall>i \<in> set items. item_fits i) \<and>
          map item_pair items = xs)"

text \<open>The texts are UTF-8, the file can be created, and a file read after it was written has the text.\<close>

definition file_storable :: "'w sys \<Rightarrow> string \<Rightarrow> Timestamp \<Rightarrow> Item list \<Rightarrow> 'w \<Rightarrow> bool" where
  "file_storable os filename t items w \<longleftrightarrow>
     filename \<noteq> [] \<and> (\<forall>i \<in> set items. item_fits i) \<and>
     (\<exists>w1. sys_ofstream os (c_str filename) w = Some w1 \<and>
        (\<forall>s. sys_ifstream os (c_str filename) (sys_put os (c_str filename) s w1) = Some s))"

lemma item_json_id:
  assumes "item_fits i"
  shows "bindr (json_at (json_norm (item_json i)) ''id'') json_i32 = Inr (it_id i)"
    "bindr (json_at (json_norm (item_json i)) ''text'') json_str = Inr (it_text i)"
proof -
  have "json_i32 (if 0 \<le> it_id i then JUint (nat (it_id i)) else JInt (it_id i)) = Inr (it_id i)"
    using assms by (auto simp: item_fits_def json_i32_def json_arith_def)
  then show "bindr (json_at (json_norm (item_json i)) ''id'') json_i32 = Inr (it_id i)"
    by (simp add: item_json_def map_find_def)
  show "bindr (json_at (json_norm (item_json i)) ''text'') json_str = Inr (it_text i)"
    by (simp add: item_json_def map_find_def)
qed

lemma load_items_saved:
  "\<forall>i \<in> set items. item_fits i \<Longrightarrow>
   \<exists>its. load_items now n (map (\<lambda>i. json_norm (item_json i)) items) acc m =
     Inr (acc @ its, max_from m (map item_pair items)) \<and>
     map item_pair its = map item_pair items \<and> it_update_at ` set its \<subseteq> range now"
proof (induction items arbitrary: n acc m)
  case (Cons i items)
  let ?p = "\<lparr>it_id = it_id i, it_text = it_text i, it_update_at = now n\<rparr>"
  have ok: "\<forall>i \<in> set items. item_fits i" "item_fits i" using Cons.prems by auto
  obtain its where "load_items now (Suc n) (map (\<lambda>i. json_norm (item_json i)) items) (acc @ [?p]) (if m < it_id i then it_id i else m) =
      Inr ((acc @ [?p]) @ its, max_from (if m < it_id i then it_id i else m) (map item_pair items))"
    "map item_pair its = map item_pair items" "it_update_at ` set its \<subseteq> range now"
    using Cons.IH [OF ok(1)] by blast
  then show ?case
    by (intro exI [of _ "?p # its"]) (auto simp: item_json_id [OF ok(2)] item_pair_def [of i] item_pair_def [of ?p] Let_def)
qed simp

lemma FileRepo_Load_saved:
  assumes "sys_ifstream os (c_str filename) w = Some s" "json_parse s = Inr (json_norm (root_json t items))"
    "\<forall>i \<in> set items. item_fits i"
  shows "\<exists>its. FileRepo_Load os filename now w = Inr (OkStatus, its, Some (max_id (map item_pair items))) \<and>
    map item_pair its = map item_pair items \<and> it_update_at ` set its \<subseteq> range now"
  using load_items_saved [OF assms(3), of now 0 "[]" 0] assms(1,2)
  by (cases "items = []") (auto simp: FileRepo_Load_def root_json_def map_find_def comp_def)

lemma FileRepo_Load_missing:
  assumes "sys_ifstream os (c_str filename) w = None"
  shows "\<exists>st. FileRepo_Load os filename now w = Inr (st, [], None)"
  using Status_new_cases [of kInvalidArgument "''file not found''"] assms
  by (auto simp: FileRepo_Load_def InvalidArgumentError_def)

interpretation file_repo: repository "FileRepo_Load os filename" "FileRepo_Save os filename"
  "file_holds os filename" "file_storable os filename"
proof unfold_locales
  fix w xs now
  assume h: "file_holds os filename w xs"
  show "\<exists>st items stored. FileRepo_Load os filename now w = Inr (st, items, stored) \<and>
      (case stored of None \<Rightarrow> 0 | Some m \<Rightarrow> m) = max_id xs \<and> map item_pair items = xs \<and> it_update_at ` set items \<subseteq> range now"
  proof (cases "sys_ifstream os (c_str filename) w")
    case None
    then show ?thesis using h FileRepo_Load_missing [OF None, of now] by (fastforce simp: file_holds_def)
  next
    case (Some s)
    then show ?thesis using h FileRepo_Load_saved [OF Some, of _ _ now] by (fastforce simp: file_holds_def)
  qed
next
  fix t items w
  assume st: "file_storable os filename t items w"
  then obtain s where s: "json_dump 2 (CHR '' '') False strict (root_json t items) = Inr s"
    "json_parse s = Inr (json_norm (root_json t items))" by (metis file_storable_def root_json_text)
  then show "\<exists>w'. FileRepo_Save os filename t items w = Inr (OkStatus, w') \<and> file_holds os filename w' (map item_pair items)"
    using st by (auto simp: file_storable_def FileRepo_Save_json WriteFile_def file_holds_def intro!: exI [of _ t] exI [of _ items])
qed

lemma todo_command_step:
  assumes "file_holds os filename w xs" "todo_inv xs" "max_id xs + 2 < 2 ^ 31"
    and "\<And>k items. map item_pair items = spec_cmd c xs \<Longrightarrow> it_update_at ` set items \<subseteq> range now \<union> range later \<Longrightarrow>
      file_storable os filename (later k) items w"
  shows "\<exists>w'. run_cmd (CreateFileRepository os filename) now later c w = Inr w' \<and>
    file_holds os filename w' (spec_cmd c xs) \<and> todo_inv (spec_cmd c xs) \<and>
    do_list (CreateFileRepository os filename) listed w' = Inr (spec_listing (spec_cmd c xs))"
proof -
  have "max_id xs + 1 < 2 ^ 31" using assms(3) by simp
  from file_repo.command_law [where c = c and now = now and later = later, OF assms(1,2) this assms(4)] obtain w' where
    w': "run_cmd (CreateFileRepository os filename) now later c w = Inr w'" "file_holds os filename w' (spec_cmd c xs)"
    by (auto simp: CreateFileRepository_def)
  have "max_id (spec_cmd c xs) + 1 < 2 ^ 31" using spec_cmd_max [of c xs] assms(3) by simp
  then have "do_list (CreateFileRepository os filename) listed w' = Inr (spec_listing (spec_cmd c xs))"
    using file_repo.list_law [OF w'(2)] by (simp add: CreateFileRepository_def)
  then show ?thesis using w' spec_cmd_inv [OF assms(2)] by blast
qed

text \<open>
  C8. Every command of the to-do program refines one step on the abstract list of ids and texts that
  the file stores: add appends under the next id, delete and modify work by id, other commands change
  nothing; ids stay distinct and positive and texts non-empty, and a listing then shows the new list.
\<close>

theorem todo_command_refines:
  assumes "file_holds os filename w xs" "todo_inv xs" "max_id xs + 2 < 2 ^ 31"
    and "\<And>k items. map item_pair items = spec_cmd c xs \<Longrightarrow> it_update_at ` set items \<subseteq> range now \<union> range later \<Longrightarrow>
      file_storable os filename (later k) items w"
  shows "\<exists>w'. run_cmd (CreateFileRepository os filename) now later c w = Inr w' \<and>
    file_holds os filename w' (spec_cmd c xs) \<and> todo_inv (spec_cmd c xs) \<and>
    do_list (CreateFileRepository os filename) listed w' = Inr (spec_listing (spec_cmd c xs))"
  using todo_command_step [OF assms] .

text \<open>A file system that is one map, for concrete runs.\<close>

definition map_sys :: "(string \<Rightarrow> string option) sys" where
  "map_sys = \<lparr>sys_strerror = (\<lambda>_. ''''), sys_realpath = (\<lambda>_ _. None), sys_readlink = (\<lambda>_ _. (0, '''')),
     sys_ofstream = (\<lambda>f w. Some (w(f := Some ''''))), sys_put = (\<lambda>f c w. w(f := Some c)),
     sys_open_append = (\<lambda>_ _. True), sys_append = (\<lambda>f d w. (int (length d), w)), sys_ifstream = (\<lambda>f w. w f),
     sys_access = (\<lambda>_ _. 0), sys_lstat_dir = (\<lambda>_ _. (0, False)), sys_stat_size = (\<lambda>_ _. (0, 0)),
     sys_opendir = (\<lambda>_ _. None), sys_remove = (\<lambda>_ w. ((0, 0), w)), sys_mkdir = (\<lambda>_ _ w. ((0, 0), w)),
     sys_link = (\<lambda>_ _ w. ((0, 0), w)), sys_symlink = (\<lambda>_ _ w. ((0, 0), w)), sys_rename = (\<lambda>_ _ w. ((0, 0), w)),
     sys_fopen_read = (\<lambda>_ _. 2), sys_fread = (\<lambda>_ _ _ _. ([], 0)), sys_fopen_write = (\<lambda>_ w. Inr w), sys_fwrite = (\<lambda>_ d w. ((length d, 0), w))\<rparr>"

lemma map_sys_storable: "\<forall>i \<in> set items. item_fits i \<Longrightarrow> file_storable map_sys todo_file t items w"
  by (simp add: file_storable_def todo_file_def map_sys_def)

theorem todo_command_refines_witness:
  "\<exists>w'. run_cmd (CreateFileRepository map_sys todo_file)
     (\<lambda>_. Timestamp_at 5) (\<lambda>_. Timestamp_at 5) (CAdd ''x'') Map.empty = Inr w' \<and>
   do_list (CreateFileRepository map_sys todo_file) (\<lambda>_. Timestamp_at 5) w' = Inr (spec_listing [(1, ''x'')])"
proof -
  have "file_storable map_sys todo_file t items Map.empty" if h: "map item_pair items = [(1, ''x'')]" for t items
    using h by (intro map_sys_storable) (auto simp: item_pair_def item_fits_def)
  then show ?thesis
    using todo_command_refines [of map_sys todo_file Map.empty "[]" "CAdd ''x''" "\<lambda>_. Timestamp_at 5" "\<lambda>_. Timestamp_at 5"
        "\<lambda>_. Timestamp_at 5"]
    by (auto simp: file_holds_def map_sys_def todo_inv_def)
qed

text \<open>After the largest id the counter wraps around and the next ids are negative.\<close>

lemma GetNextID_wraps:
  "fst (GetNextID (snd (GetNextID \<lparr>d_next_id = 2 ^ 31 - 1, d_items = []\<rparr>))) = - (2 ^ 31) + 1"
  by (simp add: GetNextID_def wrap32_def)

text \<open>A file that cannot be written: \<open>Add\<close> still reports success.\<close>

lemma unwritable_file_reports_ok:
  assumes "sys_ofstream os (c_str filename) w = None" "\<forall>i \<in> set items. item_fits i" "filename \<noteq> []"
  shows "FileRepo_Save os filename t items w = Inr (OkStatus, w)"
  by (rule root_json_text [OF assms(2), of t])
    (use Status_new_cases [of kCancelled "''create file failed''"] assms in \<open>auto simp: FileRepo_Save_json WriteFile_def CancelledError_def\<close>)

text \<open>The text that the web form adds starts with the blank behind the command.\<close>

lemma DoCommand_add_blank:
  "DoCommand repo now later ''add x'' w = bindr (do_add repo now later '' x'' w) (\<lambda>(_, _, w). Inr w)"
proof -
  have "str_find_first_of ''add x'' '' '' 0 = 3"
    using str_find_first_of_eq [of 0 "''add x''" "'' ''"] by (simp add: npos_def)
  moreover have "c_str '' x'' = '' x''" by (simp add: c_str_def NUL_def)
  ultimately show ?thesis by (simp add: DoCommand_def str_substr_def npos_def)
qed

text \<open>A number that is none ends the handler with an exception.\<close>

lemma DoCommand_del_throws: "DoCommand repo now later ''del x'' w = Inl InvalidArgumentExn"
proof -
  have "str_find_first_of ''del x'' '' '' 0 = 3"
    using str_find_first_of_eq [of 0 "''del x''" "'' ''"] by (simp add: npos_def)
  moreover have "stoi '' x'' = Inl InvalidArgumentExn" by code_simp
  ultimately show ?thesis by (simp add: DoCommand_def str_substr_def npos_def)
qed

text \<open>A command that needs an argument and has none passes a null pointer to \<open>atoi\<close>.\<close>

lemma show_without_argument: "todo_main st_text repo now later [''todo'', ''show''] w = Inl UndefinedBehaviour"
  by (simp add: todo_main_def nth_arg_def todo_atoi_def)

end
