(* ===== verification/Todo_Web.thy ===== *)
theory Todo_Web
  imports Http_Client Todo
begin

text \<open>
  The to-do program over HTTP: the client of \<^verbatim>\<open>net/http/client.cc\<close> asks the server of \<^verbatim>\<open>examples/todo/server.cc\<close>
  to add an item, through the request parser, the dispatcher, the handler, the file repository and the
  printed page.
\<close>

abbreviation todo_mux :: "'w Repository \<Rightarrow> (nat \<Rightarrow> Timestamp) \<Rightarrow> (nat \<Rightarrow> Timestamp) \<Rightarrow> (nat \<Rightarrow> Timestamp) \<Rightarrow> 'w ServeMux" where
  "todo_mux repo now later listed \<equiv> mux_of [(''/todo'', todo_handler repo now later listed)]"

section \<open>The request\<close>

lemma UrlDecode_loop_plain:
  "list_all (\<lambda>c. c \<noteq> CHR ''%'' \<and> c \<noteq> CHR ''+'') a \<Longrightarrow> UrlDecode_loop (a @ s) out = UrlDecode_loop s (out @ a)"
  by (induction a arbitrary: out) auto

lemma todo_uri_decoded:
  assumes "reserved CHR ''%''" "reserved CHR ''+''"
  shows "snd (UrlDecode (''/todo?cmd='' @ pct_encode reserved cmd)) = ''/todo?cmd='' @ cmd"
  using UrlDecode_loop_plain [of "''/todo?cmd=''" "pct_encode reserved cmd" "[]"] UrlDecode_loop_pct [OF assms]
  by (simp add: UrlDecode_def)

lemma pct_encode_length: "length s \<le> length (pct_encode reserved s)"
  by (induction s) (auto simp: pct_encode_def pct_def)

lemma todo_request:
  assumes "snd (UrlDecode u) = ''/todo?cmd='' @ cmd" "CHR ''&'' \<notin> set cmd"
  shows "rq_path (parsed_request m u 1 0 hs []) = ''/todo''"
    "Request_Param (parsed_request m u 1 0 hs []) (Some ''cmd'') = cmd"
proof -
  show "rq_path (parsed_request m u 1 0 hs []) = ''/todo''"
    by (simp add: parsed_request_def assms(1) uri_path_def)
  have "split_on CHR ''&'' (''cmd='' @ cmd) = [''cmd='' @ cmd]" using assms(2) by (intro split_on_simps(1)) auto
  then have "uri_params (''/todo?cmd='' @ cmd) = [(''cmd'', cmd)]"
    by (simp add: uri_params_def form_fold_def form_key_def form_val_def)
  then show "Request_Param (parsed_request m u 1 0 hs []) (Some ''cmd'') = cmd"
    by (simp add: parsed_request_def assms(1) Request_Param_def FormData_Get_def map_find_def)
qed

section \<open>The command and the page\<close>

lemma DoCommand_add:
  assumes "NUL \<notin> set t" "length t + 4 < npos"
  shows "DoCommand repo now later (''add '' @ t) w = run_cmd repo now later (CAdd ('' '' @ t)) w"
proof -
  have "str_find_first_of (''add '' @ t) '' '' 0 = 3"
    using str_find_first_of_eq [of 0 "''add '' @ t" "'' ''"] assms(2) by simp
  moreover have "c_str ('' '' @ t) = '' '' @ t" using assms(1) by (intro c_str_id) (simp add: NUL_def)
  ultimately show ?thesis using assms(2) by (simp add: DoCommand_def str_substr_def npos_def)
qed

definition todo_page :: "string \<Rightarrow> (int \<times> string) list \<Rightarrow> string" where
  "todo_page cmd xs = Document_Dump (HtmlUi_doc (set_cmd HtmlUi_new cmd) (spec_listing xs))"

lemma todo_handler_add:
  assumes "Request_Param req (Some ''cmd'') = ''add '' @ t" "NUL \<notin> set t" "length t + 4 < npos"
    and "run_cmd repo now later (CAdd ('' '' @ t)) w = Inr w'" "do_list repo listed w' = Inr (spec_listing ys)"
  shows "todo_handler repo now later listed w req resp = Inr (WriteHtml resp hs_ok (todo_page (''add '' @ t) ys), w')"
  using assms DoCommand_add [OF assms(2,3), of repo now later w]
  by (simp add: todo_handler_def Let_def todo_page_def)

lemma WriteHtml_new:
  "WriteHtml Response_new hs_ok body = \<lparr>rp_status = Some hs_ok,
     rp_headers = [\<lparr>hd_name = ''Content-Length'', hd_value = show_nat (length body)\<rparr>,
       \<lparr>hd_name = ''Content-Type'', hd_value = ''text/html''\<rparr>], rp_content = body\<rparr>"
  by (simp add: WriteHtml_def Response_write_def Response_new_def Response_set_header_def)

lemma digit_not_blank: "c_isdigit c \<Longrightarrow> c \<notin> set kSpaceChars \<and> c \<noteq> CHR 0x0A \<and> c \<noteq> CHR 0x0D"
  by (auto simp: c_isdigit_def kSpaceChars_def less_eq_char_def)

lemma WriteHtml_plain: "list_all plain_header (rp_headers (WriteHtml Response_new hs_ok body))"
proof -
  let ?n = "show_nat (length body)"
  have d: "\<forall>c\<in>set ?n. c \<notin> set kSpaceChars \<and> c \<noteq> CHR 0x0A \<and> c \<noteq> CHR 0x0D"
    using show_nat_digits digit_not_blank by blast
  moreover have "hd ?n \<in> set ?n" "last ?n \<in> set ?n" by simp_all
  ultimately have "hd ?n \<notin> set kSpaceChars" "last ?n \<notin> set kSpaceChars" by blast+
  then show ?thesis using d unfolding WriteHtml_new
    by (simp add: plain_header_def list_all_iff) (simp add: kSpaceChars_def)
qed

section \<open>From the client to the file\<close>

lemma todo_served:
  assumes "file_holds os filename w xs" "todo_inv xs" "max_id xs + 2 < 2 ^ 31"
    and "\<And>k items. map item_pair items = spec_cmd (CAdd ('' '' @ t)) xs \<Longrightarrow>
      it_update_at ` set items \<subseteq> range now \<union> range later \<Longrightarrow> file_storable os filename (later k) items w"
    and "NUL \<notin> set t" "CHR ''&'' \<notin> set t" "length t + 4 < npos" "snd (UrlDecode u) = ''/todo?cmd='' @ ''add '' @ t"
  shows "\<exists>w'. ServeHttp (todo_mux (CreateFileRepository os filename) now later listed) w
      (parsed_request ''GET'' u 1 0 hs []) Response_new =
      Inr (parsed_request ''GET'' u 1 0 hs [],
        WriteHtml Response_new hs_ok (todo_page (''add '' @ t) (spec_cmd (CAdd ('' '' @ t)) xs)), w') \<and>
    file_holds os filename w' (spec_cmd (CAdd ('' '' @ t)) xs)"
proof -
  define req where "req = parsed_request ''GET'' u 1 0 hs []"
  have amp: "CHR ''&'' \<notin> set (''add '' @ t)" using assms(6) by simp
  have rq: "rq_path req = ''/todo''" "Request_Param req (Some ''cmd'') = ''add '' @ t"
    using todo_request [OF assms(8) amp, of "''GET''" hs] unfolding req_def by simp_all
  obtain w' where w': "run_cmd (CreateFileRepository os filename) now later (CAdd ('' '' @ t)) w = Inr w'"
    "file_holds os filename w' (spec_cmd (CAdd ('' '' @ t)) xs)"
    "do_list (CreateFileRepository os filename) listed w' = Inr (spec_listing (spec_cmd (CAdd ('' '' @ t)) xs))"
    using todo_command_step [where c = "CAdd ('' '' @ t)" and now = now and later = later and listed = listed, OF assms(1-4)]
    by blast
  show ?thesis
    unfolding req_def [symmetric] using todo_handler_add [OF rq(2) assms(5,7) w'(1,3), of Response_new] w'(2)
    by (simp add: ServeHttp_def mux_of_find rq(1) del: spec_cmd.simps)
qed

text \<open>
  C3. Adding an item over the network: the client's GET for the encoded command is parsed and
  dispatched by the server, the item is appended to the list in the file under the next id, and the
  client returns the page that shows the new list, however the network cuts the bytes.
\<close>

theorem todo_add_over_http:
  assumes todo: "file_holds os filename w xs" "todo_inv xs" "max_id xs + 2 < 2 ^ 31"
      "\<And>k items. map item_pair items = xs @ [(max_id xs + 1, '' '' @ t)] \<Longrightarrow>
        it_update_at ` set items \<subseteq> range now \<union> range later \<Longrightarrow> file_storable os filename (later k) items w"
    and cmd: "NUL \<notin> set t" "CHR ''&'' \<notin> set t" "reserved CHR ''%''" "reserved CHR ''+''"
      "q = ''cmd='' @ pct_encode reserved (''add '' @ t)"
    and url: "h \<noteq> []" "CHR ''/'' \<notin> set (h @ '':'' @ port)" "CHR '':'' \<notin> set port"
      "length (url_text ''http'' (h @ '':'' @ port) ''/todo'' (Some q)) < kMaxSize"
      "u = \<lparr>scheme = ''http'', host = h @ '':'' @ port, raw_path = ''/todo'', raw_query = q\<rparr>"
      "hs = client_headers (Request_of ''GET'' u)" "head_ok ''GET'' (client_uri u) 1 0 hs"
    and net: "resolve h port = Inr ep" "\<forall>b. concat (blocks b) = b" "\<forall>b. concat (chunks b) = b"
    and page: "page = todo_page (''add '' @ t) (xs @ [(max_id xs + 1, '' '' @ t)])" "length page + 100 < kMaxSize"
  shows "\<exists>w'. ServeHttp (todo_mux (CreateFileRepository os filename) now later listed) w
      (parsed_request ''GET'' (client_uri u) 1 0 hs []) Response_new =
      Inr (parsed_request ''GET'' (client_uri u) 1 0 hs [], WriteHtml Response_new hs_ok page, w') \<and>
    file_holds os filename w' (xs @ [(max_id xs + 1, '' '' @ t)]) \<and>
    Http_Get resolve (loopback (todo_mux (CreateFileRepository os filename) now later listed) w blocks chunks)
      (url_text ''http'' (h @ '':'' @ port) ''/todo'' (Some q)) Response_new =
      Inr (OkStatus, WriteHtml Response_new hs_ok page)"
proof -
  let ?mux = "todo_mux (CreateFileRepository os filename) now later listed"
  let ?resp = "WriteHtml Response_new hs_ok page"
  have spec: "spec_cmd (CAdd ('' '' @ t)) xs = xs @ [(max_id xs + 1, '' '' @ t)]" by simp
  have "length (pct_encode reserved (''add '' @ t)) \<ge> length (''add '' @ t)"
    by (rule pct_encode_length)
  then have len: "length t + 4 < npos" using url(4) cmd(5) by (simp add: url_text_def npos_def kMaxSize_def)
  have uri: "client_uri u = ''/todo?cmd='' @ pct_encode reserved (''add '' @ t)"
    using url(5) cmd(5) by (simp add: client_uri_def)
  have dec: "snd (UrlDecode (client_uri u)) = ''/todo?cmd='' @ ''add '' @ t"
    unfolding uri by (rule todo_uri_decoded [OF cmd(3,4)])
  obtain w' where w': "ServeHttp ?mux w (parsed_request ''GET'' (client_uri u) 1 0 hs []) Response_new =
      Inr (parsed_request ''GET'' (client_uri u) 1 0 hs [], ?resp, w')" "file_holds os filename w' (xs @ [(max_id xs + 1, '' '' @ t)])"
    using todo_served [OF todo(1-3) _ cmd(1,2) len dec, of now later listed hs, unfolded spec] todo(4) page(1) by blast
  have n: "length (show_nat (length page)) \<le> Suc (length page)" by (rule show_nat_short)
  have reply: "rp_status ?resp = Some hs_ok" "readable ?resp"
    using WriteHtml_plain [of page] n page(2) by (simp_all add: readable_def WriteHtml_new header_buffers_def crlf_def)
  have "Http_Get resolve (loopback ?mux w blocks chunks) (url_text ''http'' (h @ '':'' @ port) ''/todo'' (Some q)) Response_new =
      Inr (OkStatus, ?resp)"
    by (rule Http_Get_reply [where st = hs_ok, unfolded if_P [OF refl], where resolve = resolve and blocks = blocks and chunks = chunks and u = u and hs = hs,
        OF _ _ url(1-3) _ _ _ url(4) _ url(6,7) net w'(1) reply]) (use url(5) in simp_all)
  then show ?thesis using w' by blast
qed

lemma sample_page_short: "length (todo_page ''add x'' [(1, '' x'')]) < 2000"
proof -
  have "show_int 1 = ''1''" by code_simp
  then show ?thesis
    by (simp add: todo_page_def HtmlUi_doc_def set_cmd_def HtmlUi_new_def AddCommandBox_def body_add_def Let_def
        Document_new_def Document_Dump_def style_text_def Element_new_def Element_text_def Form_new_def Input_new_def
        SubmitButton_new_def Input_Dump_def dump_attr_def spec_listing_def nl_def quot_def tabs_def label_text_def button_text_def)
qed

theorem todo_add_over_http_witness:
  "\<exists>w'. file_holds map_sys todo_file w' [(1, '' x'')] \<and>
    Http_Get (\<lambda>h p. Inr ()) (loopback (todo_mux (CreateFileRepository map_sys todo_file)
        (\<lambda>_. Timestamp_at 5) (\<lambda>_. Timestamp_at 5) (\<lambda>_. Timestamp_at 5)) Map.empty (\<lambda>b. [b]) (\<lambda>b. [b]))
      ''http://h:80/todo?cmd=add%20x'' Response_new =
      Inr (OkStatus, WriteHtml Response_new hs_ok (todo_page ''add x'' [(1, '' x'')]))"
proof -
  let ?now = "\<lambda>_ :: nat. Timestamp_at 5"
  let ?res = "\<lambda>c. c \<in> set ''%+ ''"
  let ?q = "''cmd='' @ pct_encode ?res (''add '' @ ''x'')"
  let ?u = "\<lparr>scheme = ''http'', host = ''h'' @ '':'' @ ''80'', raw_path = ''/todo'', raw_query = ?q\<rparr>"
  let ?hs = "client_headers (Request_of ''GET'' ?u)"
  have store: "file_storable map_sys todo_file (Timestamp_at 5) items Map.empty" if "map item_pair items = [(1, '' x'')]" for items
    using that by (intro map_sys_storable) (auto simp: item_pair_def item_fits_def)
  have q: "?q = ''cmd=add%20x''" by code_simp
  have ok: "head_ok ''GET'' (client_uri ?u) 1 0 ?hs"
    unfolding q by (simp add: head_ok_def header_ok_def is_char_def is_ctl_def is_tspecial_def tspecials_def schar_def
        text_char_def client_headers_def client_uri_def Request_of_def)
  have url: "url_text ''http'' (''h'' @ '':'' @ ''80'') ''/todo'' (Some ?q) = ''http://h:80/todo?cmd=add%20x''"
    unfolding q by (simp add: url_text_def)
  have "\<exists>w'. ServeHttp (todo_mux (CreateFileRepository map_sys todo_file) ?now ?now ?now) Map.empty
      (parsed_request ''GET'' (client_uri ?u) 1 0 ?hs []) Response_new =
      Inr (parsed_request ''GET'' (client_uri ?u) 1 0 ?hs [], WriteHtml Response_new hs_ok (todo_page (''add '' @ ''x'') ([] @ [(max_id [] + 1, '' '' @ ''x'')])), w') \<and>
    file_holds map_sys todo_file w' ([] @ [(max_id [] + 1, '' '' @ ''x'')]) \<and>
    Http_Get (\<lambda>h p. Inr ()) (loopback (todo_mux (CreateFileRepository map_sys todo_file) ?now ?now ?now) Map.empty (\<lambda>b. [b]) (\<lambda>b. [b]))
      (url_text ''http'' (''h'' @ '':'' @ ''80'') ''/todo'' (Some ?q)) Response_new =
      Inr (OkStatus, WriteHtml Response_new hs_ok (todo_page (''add '' @ ''x'') ([] @ [(max_id [] + 1, '' '' @ ''x'')])))"
  proof (rule todo_add_over_http [where reserved = ?res and ep = "()", OF _ _ _ _ _ _ _ _ refl _ _ _ _ refl refl ok _ _ _ refl])
    show "length (url_text ''http'' (''h'' @ '':'' @ ''80'') ''/todo'' (Some ?q)) < kMaxSize" unfolding url by (simp add: kMaxSize_def)
    show "length (todo_page (''add '' @ ''x'') ([] @ [(max_id [] + 1, '' '' @ ''x'')])) + 100 < kMaxSize"
      using sample_page_short by (simp add: kMaxSize_def)
    show "file_storable map_sys todo_file (?now k) items Map.empty"
      if "map item_pair items = [] @ [(max_id [] + 1, '' '' @ ''x'')]" "it_update_at ` set items \<subseteq> range ?now \<union> range ?now" for k items
      using store that by simp
  qed (simp_all add: file_holds_def map_sys_def todo_inv_def NUL_def)
  then show ?thesis unfolding url by auto
qed

end
