(* ===== verification/Sys.thy ===== *)
theory Sys
  imports Fs Timestamp
begin

text \<open>
  Process information: \<^verbatim>\<open>cppboot/base/sys.cc\<close>, the Linux and the macOS branches. The results of the system
  calls are parameters.
\<close>

text \<open>The casts of a signed system-call result to \<open>uint64_t\<close> and \<open>uint32_t\<close>.\<close>

definition to_u64 :: "int \<Rightarrow> nat" where
  "to_u64 i = nat (i mod 2 ^ 64)"

definition to_u32 :: "int \<Rightarrow> nat" where
  "to_u32 i = nat (i mod 2 ^ 32)"

definition GetTid_linux :: "int \<Rightarrow> nat" where
  "GetTid_linux gettid = to_u64 gettid"

definition GetPid_linux :: "int \<Rightarrow> nat" where
  "GetPid_linux getpid = to_u64 getpid"

definition GetAppPath_linux :: "'w sys \<Rightarrow> 'w \<Rightarrow> string" where
  "GetAppPath_linux os w = Readlink os ''/proc/self/exe'' w"

text \<open>\<open>pthread_threadid_np\<close> returns a code and stores the thread id; \<open>proc_pidpath\<close> returns the length of the path.\<close>

definition GetTid_apple :: "int \<times> nat \<Rightarrow> nat" where
  "GetTid_apple r = to_u32 (fst r)"

definition GetAppPath_apple :: "(nat \<Rightarrow> int \<times> string) \<Rightarrow> int \<times> nat \<Rightarrow> string" where
  "GetAppPath_apple proc_pidpath r =
     (case proc_pidpath (GetTid_apple r) of (n, pathbuf) \<Rightarrow> if n \<noteq> 0 then '''' else c_str pathbuf)"

text \<open>\<open>getcwd\<close> leaves the zeroed buffer as it is when it fails.\<close>

definition GetCurrentDir :: "string option \<Rightarrow> string" where
  "GetCurrentDir getcwd = (case getcwd of Some pathbuf \<Rightarrow> c_str pathbuf | None \<Rightarrow> '''')"

definition GetNanoClock :: "int \<times> int \<times> int \<Rightarrow> int res" where
  "GetNanoClock r =
     (case r of (rc, tv_sec, tv_nsec) \<Rightarrow>
        if rc = 0
        then bindr (int64_chk (tv_sec * 1000000000)) (\<lambda>ns. int64_chk (ns + tv_nsec))
        else Inl RuntimeError)"

text \<open>On macOS the id of the thread is dropped, and the path of the process is returned only when there is none.\<close>

lemma GetTid_apple_constant: "GetTid_apple (0, tid) = 0"
  by (simp add: GetTid_apple_def to_u32_def)

lemma GetAppPath_apple_empty:
  assumes "\<And>pid. fst (proc_pidpath pid) = 0 \<Longrightarrow> snd (proc_pidpath pid) = ''''"
  shows "GetAppPath_apple proc_pidpath r = ''''"
  using assms [of "GetTid_apple r"]
  by (cases "proc_pidpath (GetTid_apple r)") (auto simp: GetAppPath_apple_def c_str_def)

text \<open>The clock counts nanoseconds without overflow for 292 years.\<close>

lemma GetNanoClock_range:
  assumes "0 \<le> s" "s \<le> 9223372035" "0 \<le> n" "n < 1000000000"
  shows "GetNanoClock (0, s, n) = Inr (s * 1000000000 + n)"
  using assms by (simp add: GetNanoClock_def int64_chk_def)

end
