(* ===== verification/Log.thy ===== *)
theory Log
  imports Cpp_Prelude
begin

text \<open>
  Logging: \<^verbatim>\<open>cppboot/base/log.h\<close> and \<^verbatim>\<open>log.cc\<close>. The global function pointer that receives the messages
  is a state of its own; what it does with a message is a parameter, and the console of the default one
  is the list of its lines. Formatting the message is the \<open>fmt\<close> library's.
\<close>

text \<open>\<open>kOther\<close> is a value that is none of the enumerators.\<close>

datatype LogSeverity = kDebug | kInfo | kWarning | kError | kFatal | kOtherSeverity

definition LogSeverityName :: "LogSeverity \<Rightarrow> string" where
  "LogSeverityName s =
     (if s = kDebug then ''DEBUG''
      else if s = kInfo then ''INFO''
      else if s = kWarning then ''WARNING''
      else if s = kError then ''ERROR''
      else if s = kFatal then ''FATAL''
      else ''UNKNOWN'')"

text \<open>The compile-time search for the last path separator; the result is an offset into \<open>fname\<close>.\<close>

fun Log_Basename :: "string \<Rightarrow> nat \<Rightarrow> nat" where
  "Log_Basename fname offset =
     (if offset = 0 \<or> fname ! (offset - 1) = CHR ''/'' \<or> fname ! (offset - 1) = CHR 0x5C
      then offset else Log_Basename fname (offset - 1))"

declare Log_Basename.simps [simp del]

type_synonym 'w InternalLogFunction = "LogSeverity \<Rightarrow> string \<Rightarrow> int \<Rightarrow> string \<Rightarrow> 'w \<Rightarrow> 'w"

definition null_log_func :: "LogSeverity \<Rightarrow> string \<Rightarrow> int \<Rightarrow> string \<Rightarrow> string list \<Rightarrow> string list" where
  "null_log_func severity file line message console =
     console @ [''['' @ LogSeverityName severity @ '' '' @ file @ '':'' @ show_int line @ ''] '' @ message]"

definition RegisterInternalLogFunction :: "'w InternalLogFunction \<Rightarrow> 'w InternalLogFunction \<Rightarrow> 'w InternalLogFunction" where
  "RegisterInternalLogFunction internal_log_function func = func"

definition CallLogHandler :: "'w InternalLogFunction \<Rightarrow> LogSeverity \<Rightarrow> string \<Rightarrow> int \<Rightarrow> string \<Rightarrow> 'w \<Rightarrow> 'w" where
  "CallLogHandler internal_log_function severity file line message w = internal_log_function severity file line message w"

definition CallRawLogHandler :: "'w InternalLogFunction \<Rightarrow> LogSeverity \<Rightarrow> string \<Rightarrow> int \<Rightarrow> string \<Rightarrow> 'w \<Rightarrow> 'w" where
  "CallRawLogHandler internal_log_function severity file line message w = internal_log_function severity file line message w"

text \<open>The two macros: \<open>file\<close> is \<open>__FILE__\<close>, \<open>message\<close> the formatted text.\<close>

definition CPPBOOT_LOG :: "'w InternalLogFunction \<Rightarrow> LogSeverity \<Rightarrow> string \<Rightarrow> int \<Rightarrow> string \<Rightarrow> 'w \<Rightarrow> 'w" where
  "CPPBOOT_LOG f severity file line message w =
     CallLogHandler f severity (drop (Log_Basename file (length file)) file) line message w"

definition CPPBOOT_CHECK :: "'w InternalLogFunction \<Rightarrow> bool \<Rightarrow> string \<Rightarrow> string \<Rightarrow> int \<Rightarrow> string \<Rightarrow> 'w \<Rightarrow> 'w" where
  "CPPBOOT_CHECK f condition condition_text file line message w =
     (if \<not> condition
      then CPPBOOT_LOG f kFatal file line (''Check '' @ condition_text @ '' failed: '' @ message) w
      else w)"

definition is_sep :: "char \<Rightarrow> bool" where
  "is_sep c \<longleftrightarrow> c = CHR ''/'' \<or> c = CHR 0x5C"

lemma Log_Basename_prefix:
  "n \<le> length f \<Longrightarrow> drop (Log_Basename f n) (take n f) = rev (takeWhile (\<lambda>c. \<not> is_sep c) (rev (take n f)))"
proof (induction n)
  case (Suc n)
  then have t: "take (Suc n) f = take n f @ [f ! n]" by (simp add: take_Suc_conv_app_nth)
  show ?case
  proof (cases "is_sep (f ! n)")
    case True
    then show ?thesis using Suc.prems t by (subst Log_Basename.simps) (auto simp: is_sep_def)
  next
    case False
    then have b: "Log_Basename f (Suc n) = Log_Basename f n" by (subst Log_Basename.simps) (simp add: is_sep_def)
    have "Log_Basename f n \<le> n" by (induction n) (subst Log_Basename.simps, simp)+
    then show ?thesis using Suc.IH Suc.prems False t by (simp add: b)
  qed
qed (simp add: Log_Basename.simps)

text \<open>The file name in a log line is the part of \<open>__FILE__\<close> behind its last separator.\<close>

lemma CPPBOOT_LOG_file:
  "CPPBOOT_LOG f severity file line message w =
     f severity (rev (takeWhile (\<lambda>c. \<not> is_sep c) (rev file))) line message w"
  using Log_Basename_prefix [of "length file" "file"] by (simp add: CPPBOOT_LOG_def CallLogHandler_def)

text \<open>A failed check is logged as fatal and the program goes on.\<close>

lemma CPPBOOT_CHECK_continues:
  "CPPBOOT_CHECK null_log_func False cond file line message console = console @
     [''[FATAL '' @ rev (takeWhile (\<lambda>c. \<not> is_sep c) (rev file)) @ '':'' @ show_int line @ ''] Check '' @ cond @
      '' failed: '' @ message]"
  by (simp add: CPPBOOT_CHECK_def CPPBOOT_LOG_file null_log_func_def LogSeverityName_def)

end
