(* ===== verification/Debugger.thy ===== *)
theory Debugger
  imports Base_Status Std_Map
begin

text \<open>
  The debugger plugin: \<^verbatim>\<open>cppboot/plugins/debugger/debugger.cc\<close>, a table of command handlers. A handler
  works on the state \<open>'w\<close> that its \<open>DebugIo\<close> writes to; a null pointer is \<open>None\<close>.
\<close>

type_synonym 'w DebugHandler = "string \<Rightarrow> string \<Rightarrow> 'w \<Rightarrow> (Status \<times> 'w) res"

record 'w DebuggerImpl =
  dbg_cmds :: "(string, 'w DebugHandler) smap"

definition DebuggerImpl_new :: "'w DebuggerImpl" where
  "DebuggerImpl_new = \<lparr>dbg_cmds = []\<rparr>"

definition Debugger_Register :: "'w DebuggerImpl \<Rightarrow> string option \<Rightarrow> 'w DebugHandler option \<Rightarrow> (Status \<times> 'w DebuggerImpl) res" where
  "Debugger_Register d command handler =
     (if command = None \<or> command = Some '''' then bindr (InvalidArgumentError (sv_of_string ''no command'')) (\<lambda>st. Inr (st, d))
      else case handler of
        None \<Rightarrow> bindr (InvalidArgumentError (sv_of_string ''no handler'')) (\<lambda>st. Inr (st, d))
      | Some h \<Rightarrow> Inr (OkStatus, d\<lparr>dbg_cmds := map_set (dbg_cmds d) (the command) h\<rparr>))"

definition Debugger_Unregister :: "'w DebuggerImpl \<Rightarrow> string option \<Rightarrow> 'w DebuggerImpl" where
  "Debugger_Unregister d command =
     (case command of
        None \<Rightarrow> d
      | Some c \<Rightarrow> if c = '''' then d else d\<lparr>dbg_cmds := map_erase (dbg_cmds d) c\<rparr>)"

definition Debugger_OnRequest :: "'w DebuggerImpl \<Rightarrow> string \<Rightarrow> string \<Rightarrow> 'w \<Rightarrow> (Status \<times> 'w) res" where
  "Debugger_OnRequest d command args w =
     (case map_find (dbg_cmds d) command of
        Some h \<Rightarrow> h command args w
      | None \<Rightarrow> bindr (NotFoundError (sv_of_string command)) (\<lambda>st. Inr (st, w)))"

text \<open>The tables a program can build.\<close>

inductive dbg_reach :: "'w DebuggerImpl \<Rightarrow> bool" where
  start: "dbg_reach DebuggerImpl_new"
| register: "dbg_reach d \<Longrightarrow> Debugger_Register d c h = Inr (st, d') \<Longrightarrow> dbg_reach d'"
| unregister: "dbg_reach d \<Longrightarrow> dbg_reach (Debugger_Unregister d c)"

lemma Register_cases:
  assumes "Debugger_Register d c h = Inr (st, d')"
  shows "d' = d \<or> (\<exists>k f. c = Some k \<and> k \<noteq> [] \<and> h = Some f \<and> d' = d\<lparr>dbg_cmds := map_set (dbg_cmds d) k f\<rparr>)"
  using assms by (auto simp: Debugger_Register_def bindr_Inr_iff split: if_splits option.splits)

lemma dbg_reach_ok: "dbg_reach d \<Longrightarrow> map_ok (dbg_cmds d) \<and> map_find (dbg_cmds d) [] = None"
proof (induction rule: dbg_reach.induct)
  case start
  show ?case by (simp add: DebuggerImpl_new_def)
next
  case (register d c h st d')
  then show ?case using Register_cases [OF register(2)] by (auto simp: smap_simps)
next
  case (unregister d c)
  then show ?case by (auto simp: Debugger_Unregister_def smap_simps split: option.splits)
qed

text \<open>
  After a registration the command runs its handler and no other command changes; after its removal it
  is not found, and the status carries the command.
\<close>

lemma registered_command:
  assumes "dbg_reach d" "c \<noteq> []"
  shows "\<exists>d'. Debugger_Register d (Some c) (Some h) = Inr (OkStatus, d') \<and>
    Debugger_OnRequest d' c args w = h c args w \<and>
    (\<forall>k. k \<noteq> c \<longrightarrow> Debugger_OnRequest d' k args w = Debugger_OnRequest d k args w) \<and>
    Debugger_OnRequest (Debugger_Unregister d' (Some c)) c args w =
      bindr (NotFoundError (sv_of_string c)) (\<lambda>st. Inr (st, w))"
  using dbg_reach_ok [OF assms(1)] assms(2)
  by (auto simp: Debugger_Register_def Debugger_OnRequest_def Debugger_Unregister_def smap_simps)

end
