(* ===== verification/Spec2Isabelle.thy ===== *)
theory Spec2Isabelle
  imports Args_Demo Env Plugin_Manager Bus Json_Sound Net2_Buffer Net2_Addr Io_Context Http_Client Chat_Room Todo_Web Sys Log Debugger
begin

text \<open>
  Verification of cppboot, a C++11 library of base utilities, networking and application services. All
  file names below are relative to \<^verbatim>\<open>src/\<close>; the library is \<^verbatim>\<open>cppboot/\<close>, programs that use it are in
  \<^verbatim>\<open>examples/\<close>.

  \<^bold>\<open>The program.\<close> \<^verbatim>\<open>cppboot/base\<close> has string views, string functions, statuses, files, time stamps and
  logging. \<^verbatim>\<open>cppboot/net\<close> builds on asio: byte buffers, TCP connections whose handlers run in one event loop,
  an HTTP client, an HTTP server (request parser, dispatcher, file server, connections), HTML documents, and
  an unfinished second stack (\<^verbatim>\<open>net2\<close>, \<^verbatim>\<open>io\<close>). \<^verbatim>\<open>cppboot/adv\<close> has command-line arguments, an environment of
  reference-counted objects, plugins with dependencies, and a message bus: clients connect to a server,
  register under a name, and call each other's methods; a call sends a JSON frame, the server routes it, the
  provider runs the method and the answer wakes the caller. \<^verbatim>\<open>examples/\<close> holds a to-do program (command line
  and web page over a JSON file), a chat room and a demonstration of the arguments.

  \<^bold>\<open>How code is modelled.\<close> Pure functions are functions. A call that throws, fails an assertion or reads
  outside an array returns \<open>Inl\<close> of the reason (type \<open>res\<close>, theory \<open>Cpp_Prelude\<close>); \<open>UndefinedBehaviour\<close> is
  one of the reasons. Objects that others keep pointers to live in explicit stores. Handlers of asio are
  functions from the state and the result of the operation to the new state and the list of operations they
  start. Positions and lengths are naturals below \<open>2 ^ 64\<close>, with \<open>npos = 2 ^ 64 - 1\<close> and the wrap-around
  written out where the code adds to a position that may be \<open>npos\<close>. \<open>std::map\<close> is an ordered association list
  (theory \<open>Std_Map\<close>). Strings are lists of bytes. Operating system, dynamic linker, resolver, sockets,
  clock, and the callbacks of a program are parameters; what a theorem needs of them is a hypothesis (such as
  \<open>file_storable\<close>), met by a concrete instance in the theorem's witness.

  \<^bold>\<open>Theories.\<close>

  \<^item> \<open>Cpp_Prelude\<close>: results, \<open>npos\<close>, search loops, operations of \<open>std::string\<close>, number conversions.
  \<^item> \<open>String_View\<close>: \<^verbatim>\<open>base/string_view.h\<close>, \<^verbatim>\<open>.cc\<close>. Views are a pointer into an array and a length. All
    searches equal those of \<open>std::string\<close>; comparison is lexicographic.
  \<^item> \<open>Str_Util\<close>: \<^verbatim>\<open>base/str_util.cc\<close>. Splitting and joining are inverse; trimming, fields, replacement (with
    the pattern for which its loop never ends).
  \<^item> \<open>Base_Status\<close>: \<^verbatim>\<open>base/status.cc\<close>. The packed bytes of a status give back its code and message; the errno
    table is total.
  \<^item> \<open>Fs\<close>: \<^verbatim>\<open>base/fs.cc\<close> over a record of system calls. Path functions; \<open>MkdirAll\<close> makes exactly the
    expected calls.
  \<^item> \<open>Timestamp\<close>, \<open>Log\<close>, \<open>Sys\<close>: \<^verbatim>\<open>base/timestamp.cc\<close> with the calendar of \<open>gmtime_r\<close> (shown to be a bijection),
    \<^verbatim>\<open>base/log.h\<close>, \<^verbatim>\<open>base/sys.cc\<close>.
  \<^item> \<open>Net_Buffer\<close>, \<open>Net2_Buffer\<close>: \<^verbatim>\<open>net/buffer.h\<close>, \<^verbatim>\<open>net/net2/buffer.h\<close>. Both interpret the locale \<open>byte_queue\<close>:
    under every sequence of operations they are first-in first-out queues and no assertion fails.
  \<^item> \<open>Block_Reader\<close>: the locales \<open>block_reader\<close> and \<open>block_consumer\<close> for handlers that get a stream in blocks.
  \<^item> \<open>Net2_Addr\<close>, \<open>Io_Context\<close>: \<^verbatim>\<open>net/net2/addr.cpp\<close>, \<^verbatim>\<open>net/io/kqueue.cc\<close>.
  \<^item> \<open>Http_Message\<close>, \<open>Http_Parser\<close>, \<open>Http_Server\<close>: \<^verbatim>\<open>net/http/\<close> without the client. The parser accepts the
    heads it should in any fragmentation; the dispatcher picks the longest pattern; the file server stays in
    its root; a connection serves a request once.
  \<^item> \<open>Http_Client\<close>: \<^verbatim>\<open>net/http/client.cc\<close>, with \<open>std::istream\<close> and \<open>asio::read_until\<close> written out. The client
    reads back what the server writes; a GET through client, parser, dispatcher and reply is exact.
  \<^item> \<open>Tcp\<close>: \<^verbatim>\<open>net/tcp/\<close>. Handlers, manager, server and client; \<open>io_loop\<close> runs the write handlers of one
    connection: a program that sends only on a quiet connection loses and duplicates nothing, others can
    duplicate.
  \<^item> \<open>Html\<close>: \<^verbatim>\<open>net/html/\<close>. The text of a document determines its tree.
  \<^item> \<open>Args\<close>, \<open>Args_Demo\<close>: \<^verbatim>\<open>adv/args.cc\<close>, \<^verbatim>\<open>examples/args_demo\<close>. Tokenizer and flag parser, and what the example
    program prints for every command line.
  \<^item> \<open>Env\<close>: \<^verbatim>\<open>adv/object.h\<close>, \<^verbatim>\<open>adv/env.cc\<close>. Reference counts are exact in every reachable state.
  \<^item> \<open>Plugin_Manager\<close>: \<^verbatim>\<open>adv/plugin_loader.cc\<close>, \<^verbatim>\<open>adv/plugin_manager.cc\<close>. Dependencies of loaded plugins are
    loaded.
  \<^item> \<open>Json_Value\<close>, \<open>Json_Lexer\<close>, \<open>Json_Parser\<close>, \<open>Json_Float\<close>, \<open>Json_Dump\<close>: the parts of the JSON library
    \<^verbatim>\<open>base/internal/json/json.hpp\<close> that the program runs. Values, the lexer with its one-character lookahead, the parser
    with its explicit stack and the handler that builds the value, the serializer, and the Grisu2 algorithm for
    floating-point numbers on 64-bit integers.
  \<^item> \<open>Json_Tokens\<close>, \<open>Json_Text\<close>, \<open>Json_Utf8\<close>, \<open>Json_Roundtrip\<close>, \<open>Json_Sound\<close>: what the library does. The grammar of
    RFC 8259 is an inductive relation between values and texts; every text of it is parsed to its value, what the
    serializer writes is a text of it, and for any bytes the parser returns a well-typed value or an exception. The
    table-driven UTF-8 decoder accepts exactly the encodings of Unicode scalar values.
  \<^item> \<open>Json_Cached\<close>, \<open>Json_Grisu\<close>, \<open>Json_Digits\<close>, \<open>Json_Shortest\<close>: Grisu2. The cached powers of ten are correctly
    rounded and the chosen one brings the exponent into the range that the generation of digits needs; the boundaries
    of a \<open>double\<close> are exact; the digits, at most 17, lie strictly between them.
  \<^item> \<open>Json_Strtod\<close>, \<open>Json_Float_Text\<close>: a decimal number strictly between the boundaries of a \<open>double\<close> is read as that
    \<open>double\<close>, so every finite one survives printing and reading.
  \<^item> \<open>Bus_Msg\<close>, \<open>Bus_Invoker\<close>, \<open>Bus\<close>: \<^verbatim>\<open>adv/bus/\<close>. Messages and framing, pending calls with result
    objects in a store, router, server and client nodes, and a remote call from end to end.
  \<^item> \<open>Debugger\<close>: \<^verbatim>\<open>plugins/debugger/debugger.cc\<close>.
  \<^item> \<open>Todo\<close>, \<open>Chat_Room\<close>: \<^verbatim>\<open>examples/todo\<close>, \<^verbatim>\<open>examples/chat_room\<close>. The locale \<open>repository\<close> is the contract of the
    class \<open>Repository\<close>; the file repository interprets it, and every command refines a step on an abstract list.
  \<^item> \<open>Todo_Web\<close>: the to-do server behind the HTTP server, called by the HTTP client: an item added over the
    network is in the file and on the page the client gets.

  \<^bold>\<open>Interfaces.\<close> \<open>ordered_map\<close> (Std_Map) is the contract of \<open>std::map\<close>, \<open>byte_queue\<close> (Net_Buffer) that of the
  two buffers, \<open>repository\<close> (Todo) that of the storage of the to-do program, \<open>block_consumer\<close> (Block_Reader)
  that of the receivers of the bus and of the HTTP server: where the stream is cut does not matter. Each is
  interpreted on the definitions that model the code.

  \<^bold>\<open>Termination and fuel.\<close> Loops are terminating functions, with two exceptions. The loop of \<open>StrReplace\<close> can
  run forever: it is a \<open>partial_function\<close>, and it is proved to return for every non-empty pattern. \<open>RemoveAll\<close>
  recurses as deep as the file system allows: its first argument is the depth, and 4097 is proved to be enough
  where paths and names have the limits of POSIX. The bounds in hypotheses (\<open>kMaxSize = 2 ^ 63 - 1\<close> for strings,
  \<open>2 ^ 31\<close> for \<open>int\<close>) are those of the types.

  \<^bold>\<open>Concurrency.\<close> Handlers of the event loop and functions that hold a mutex are atomic steps; relations such
  as \<open>io_loop\<close> and those of \<open>Bus_Invoker\<close> and \<open>Env\<close> interleave them. Accesses without a lock that the code
  makes are not modelled as races.

  \<^bold>\<open>Not modelled.\<close> The vendored libraries \<^verbatim>\<open>base/internal/fmt\<close>, asio and googletest are parameters. Of the JSON library
  the binary formats, JSON pointers and patches, the parser with callbacks, iterators and allocators are left out:
  nothing in the repository calls them. \<open>TimeDifference\<close> and \<open>AddTime\<close> compute with floating-point numbers. The Windows branches of
  \<^verbatim>\<open>fs.cc\<close>, \<^verbatim>\<open>sys.cc\<close> and \<^verbatim>\<open>plugin_loader.cc\<close>, the preprocessor headers, \<open>Server::Serve\<close> (it runs the event loop)
  and \<^verbatim>\<open>plugins/hello\<close> have no logic of their own.
\<close>

end
